(* ===== verification/Prelude.thy ===== *)
theory Prelude imports Main "HOL-Library.Word" "HOL-Library.Monad_Syntax" begin

text \<open>
  Shared vocabulary of the development: C characters as bytes, NUL-terminated strings, blocks of
  memory whose cells may be uninitialised, and the generic lemmas about lists and options the
  component theories use. A result of type \<open>'a option\<close> is \<open>None\<close> where the C program would leave its
  defined behaviour: an access outside a block, a read of a cell never written, a NULL pointer
  followed, \<open>assert\<close> or \<open>SEGFAULT()\<close>.
\<close>

named_theorems mem_simps \<open>unfolding of the memory operations\<close>
named_theorems wf_intros \<open>preservation of the well-formedness predicates\<close>

section \<open>Characters\<close>

abbreviation NUL :: char where
  "NUL \<equiv> CHR 0x00"

text \<open>An \<open>unsigned char\<close> is the code of the character, a plain \<open>char\<close> is signed on the platforms the
  checked-in \<open>config.h\<close> was generated for.\<close>

abbreviation byte :: "char \<Rightarrow> nat" where
  "byte c \<equiv> of_char c"

definition schar :: "char \<Rightarrow> int" where
  "schar c = (if byte c < 128 then int (byte c) else int (byte c) - 256)"

lemma byte_less [simp]: "byte c < 256"
  using nat_of_char_less_256 [of c] by simp

lemma schar_inj [simp]: "schar c = schar d \<longleftrightarrow> c = d"
proof
  assume eq: "schar c = schar d"
  have "int (byte c) < 256" "int (byte d) < 256"
    using byte_less [of c] byte_less [of d] by linarith+
  with eq have "int (byte c) = int (byte d)"
    unfolding schar_def by presburger
  then show "c = d" by (simp only: of_nat_eq_iff of_char_eq_iff)
qed simp

text \<open>A statement about one character is decided by its 256 instances.\<close>

lemma char_exhaustive:
  assumes "list_all (\<lambda>n. P (char_of n)) [0..<256 :: nat]"
  shows "P c"
proof -
  have "byte c \<in> set [0..<256]" by simp
  with assms have "P (char_of (byte c))" unfolding list_all_iff by blast
  then show ?thesis by simp
qed

section \<open>NUL-terminated strings\<close>

text \<open>The string a \<open>char *\<close> denotes for the \<open>str*\<close> functions: the characters before the first NUL.\<close>

definition cstr :: "char list \<Rightarrow> char list" where
  "cstr s = takeWhile (\<lambda>c. c \<noteq> NUL) s"

lemma cstr_no_nul [simp]: "NUL \<notin> set s \<Longrightarrow> cstr s = s"
  by (induction s) (auto simp: cstr_def)

lemma nul_notin_cstr [simp]: "NUL \<notin> set (cstr s)"
  by (induction s) (auto simp: cstr_def)

lemma cstr_append_nul [simp]: "NUL \<notin> set s \<Longrightarrow> cstr (s @ NUL # t) = s"
  by (induction s) (auto simp: cstr_def)

lemma length_cstr_le: "length (cstr s) \<le> length s"
  by (simp add: cstr_def length_takeWhile_le)

section \<open>Memory blocks\<close>

text \<open>A cell is \<open>None\<close> until it is written.\<close>

type_synonym cell = "char option"

definition mread :: "nat \<Rightarrow> nat \<Rightarrow> 'a list \<Rightarrow> 'a list option" where
  "mread off n m = (if off + n \<le> length m then Some (take n (drop off m)) else None)"

definition mwrite :: "nat \<Rightarrow> 'a list \<Rightarrow> 'a list \<Rightarrow> 'a list option" where
  "mwrite off xs m =
     (if off + length xs \<le> length m then Some (take off m @ xs @ drop (off + length xs) m) else None)"

text \<open>Reading initialised characters: \<open>None\<close> when one of the cells was never written.\<close>

definition mread_init :: "nat \<Rightarrow> nat \<Rightarrow> cell list \<Rightarrow> char list option" where
  "mread_init off n m = do { cs \<leftarrow> mread off n m; those cs }"

text \<open>\<open>strlen\<close> walks the cells up to the first NUL; it faults on an uninitialised cell and at the end
  of the block.\<close>

fun cell_strlen :: "cell list \<Rightarrow> nat option" where
  "cell_strlen [] = None"
| "cell_strlen (None # cs) = None"
| "cell_strlen (Some c # cs) = (if c = NUL then Some 0 else map_option Suc (cell_strlen cs))"

definition malloc_cells :: "nat \<Rightarrow> cell list" where
  "malloc_cells n = replicate n None"

definition realloc_cells :: "nat \<Rightarrow> cell list \<Rightarrow> cell list" where
  "realloc_cells n m = take n m @ replicate (n - length m) None"

text \<open>\<open>memcpy(dst + off, src, n)\<close>.\<close>

definition memcpy_cells :: "nat \<Rightarrow> 'a list \<Rightarrow> nat \<Rightarrow> 'a list \<Rightarrow> 'a list option" where
  "memcpy_cells off src n dst = do { xs \<leftarrow> mread 0 n src; mwrite off xs dst }"

lemma memcpy_cells_Some [simp]:
  "n \<le> length src \<Longrightarrow> off + n \<le> length dst \<Longrightarrow>
     memcpy_cells off src n dst = Some (take off dst @ take n src @ drop (off + n) dst)"
  by (simp add: memcpy_cells_def mread_def mwrite_def min_def)

text \<open>\<open>memcpy(p + u - 1, s, n); p[u + n - 1] = x\<close>.\<close>

lemma write_string_nul:
  assumes "0 < u" "u + n \<le> length p" "length xs = n"
  shows "mwrite (u + n - 1) [x] (take (u - 1) p @ xs @ drop (u - 1 + n) p)
     = Some (take (u - 1) p @ xs @ x # drop (u + n) p)"
proof -
  obtain k where u: "u = Suc k" using assms(1) by (cases u) auto
  have "drop (Suc 0) (drop (k + n) p) = drop (Suc k + n) p" by (simp add: add.commute)
  with assms u show ?thesis by (simp add: mwrite_def)
qed

lemma length_malloc_cells [simp]: "length (malloc_cells n) = n"
  by (simp add: malloc_cells_def)

lemma length_realloc_cells [simp]: "length (realloc_cells n m) = n"
  by (simp add: realloc_cells_def)

lemma take_realloc_cells [simp]: "k \<le> length m \<Longrightarrow> k \<le> n \<Longrightarrow> take k (realloc_cells n m) = take k m"
  by (simp add: realloc_cells_def)

lemma length_mwrite: "mwrite off xs m = Some m' \<Longrightarrow> length m' = length m"
  by (auto simp: mwrite_def split: if_splits)

lemma mwrite_Some: "off + length xs \<le> length m \<Longrightarrow>
    mwrite off xs m = Some (take off m @ xs @ drop (off + length xs) m)"
  by (simp add: mwrite_def)

lemma take_mwrite: "mwrite off xs m = Some m' \<Longrightarrow> n \<le> off \<Longrightarrow> take n m' = take n m"
  by (auto simp: mwrite_def min_def split: if_splits)

lemma take_mwrite_end:
  "mwrite off xs m = Some m' \<Longrightarrow> take (off + length xs) m' = take off m @ xs"
  by (auto simp: mwrite_def split: if_splits)

lemma those_map_Some [simp]: "those (map Some xs) = Some xs"
  by (induction xs) auto

lemma those_eq_Some_iff: "those ys = Some xs \<longleftrightarrow> ys = map Some xs"
  by (induction ys arbitrary: xs) (auto split: option.splits simp: map_option_case)

lemma cell_strlen_map_Some [simp]:
  "NUL \<notin> set s \<Longrightarrow> cell_strlen (map Some s @ Some NUL # cs) = Some (length s)"
  by (induction s) auto

lemma cell_strlen_SomeD:
  "cell_strlen cs = Some n \<Longrightarrow>
     \<exists>s. length s = n \<and> NUL \<notin> set s \<and> take (Suc n) cs = map Some (s @ [NUL]) \<and> n < length cs"
proof (induction cs arbitrary: n)
  case Nil
  then show ?case by simp
next
  case (Cons a cs)
  then obtain c where a: "a = Some c" by (cases a) auto
  show ?case
  proof (cases "c = NUL")
    case True
    with Cons.prems a show ?thesis by (intro exI [of _ "[]"]) auto
  next
    case False
    with Cons.prems a obtain k where k: "cell_strlen cs = Some k" "n = Suc k" by auto
    from Cons.IH [OF k(1)] obtain s where
      "length s = k" "NUL \<notin> set s" "take (Suc k) cs = map Some (s @ [NUL])" "k < length cs" by blast
    with a k False show ?thesis by (intro exI [of _ "c # s"]) auto
  qed
qed

lemmas [mem_simps] = mread_def mwrite_def mread_init_def malloc_cells_def

section \<open>Options and lists\<close>

lemma bind_Some_iff: "Option.bind x f = Some y \<longleftrightarrow> (\<exists>z. x = Some z \<and> f z = Some y)"
  by (cases x) auto

lemma take_map_Some_eqD: "take n m = map Some s \<Longrightarrow> k \<le> n \<Longrightarrow> take k m = map Some (take k s)"
  by (metis min.absorb1 take_map take_take)

lemma take_Suc_snocD:
  assumes "take (Suc (length xs)) m = xs @ [x]"
  shows "take (length xs) m = xs"
proof -
  have "take (length xs) m = take (length xs) (take (Suc (length xs)) m)" by simp
  with assms show ?thesis by simp
qed

lemma take_eq_imp_le: "take n m = xs \<Longrightarrow> length xs = n \<Longrightarrow> n \<le> length m"
  by (auto simp: min_def split: if_splits)

end
