(* ===== verification/Interfaces.thy ===== *)
theory Interfaces imports Prelude begin

text \<open>
  Interfaces several components rely on. A \<open>dictionary\<close> is a table whose insertion merges with an
  entry already there: the splay tree of the stat cache keeps the old entry, the header arrays
  concatenate. A \<open>string_buffer\<close> is a growing string: the in-memory buffers of \<open>buffer.c\<close> provide it and
  the code that prints headers, ETags and URLs relies on it. The lemmas are proved from the laws
  alone; the providers interpret the locales on their operations.
\<close>

locale dictionary =
  fixes inv :: "'t \<Rightarrow> bool" and valid :: "'k \<Rightarrow> bool" and canon :: "'k \<Rightarrow> 'c"
    and lookup :: "'t \<Rightarrow> 'k \<Rightarrow> 'v option" and put :: "'k \<Rightarrow> 'v \<Rightarrow> 't \<Rightarrow> 't" and merge :: "'v \<Rightarrow> 'v \<Rightarrow> 'v"
  assumes inv_put: "inv t \<Longrightarrow> valid k \<Longrightarrow> inv (put k v t)"
    and lookup_put: "inv t \<Longrightarrow> valid k \<Longrightarrow> valid j \<Longrightarrow> lookup (put k v t) j =
      (if canon j = canon k then Some (case lookup t k of None \<Rightarrow> v | Some old \<Rightarrow> merge old v) else lookup t j)"
    and lookup_canon: "inv t \<Longrightarrow> valid j \<Longrightarrow> valid k \<Longrightarrow> canon j = canon k \<Longrightarrow> lookup t j = lookup t k"
begin

lemma inv_fold: "inv t \<Longrightarrow> list_all (\<lambda>(k, v). valid k) kvs \<Longrightarrow> inv (fold (\<lambda>(k, v). put k v) kvs t)"
  by (induction kvs arbitrary: t) (auto simp: inv_put)

text \<open>After a sequence of insertions a key holds what its own values merge to, in their order.\<close>

lemma lookup_fold:
  assumes "inv t" and "list_all (\<lambda>(k, v). valid k) kvs" and "valid j"
  shows "lookup (fold (\<lambda>(k, v). put k v) kvs t) j =
    foldl (\<lambda>acc v. Some (case acc of None \<Rightarrow> v | Some old \<Rightarrow> merge old v)) (lookup t j)
      (map snd (filter (\<lambda>(k, v). canon k = canon j) kvs))"
  using assms
proof (induction kvs arbitrary: t)
  case Nil
  then show ?case by simp
next
  case (Cons kv kvs)
  obtain k v where kv: "kv = (k, v)" by (cases kv) auto
  with Cons.prems have k: "valid k" and rest: "list_all (\<lambda>(k, v). valid k) kvs" by auto
  have "lookup (put k v t) j = (if canon k = canon j
      then Some (case lookup t j of None \<Rightarrow> v | Some old \<Rightarrow> merge old v) else lookup t j)"
    using lookup_put [OF Cons.prems(1) k assms(3), of v] lookup_canon [OF Cons.prems(1) k assms(3)] by auto
  with Cons.IH [OF inv_put [OF Cons.prems(1) k, of v] rest assms(3)] kv show ?case by auto
qed

text \<open>Insertions under different keys commute.\<close>

lemma put_commute:
  assumes "inv t" and "valid j" and "valid k" and "valid i" and "canon j \<noteq> canon k"
  shows "lookup (put j v (put k w t)) i = lookup (put k w (put j v t)) i"
  using assms inv_put by (auto simp: lookup_put)

end

locale string_buffer =
  fixes rep :: "'b \<Rightarrow> char list option \<Rightarrow> bool"
    and copy_len :: "'b \<Rightarrow> char list \<Rightarrow> 'b option"
    and append_len :: "'b \<Rightarrow> char list \<Rightarrow> 'b option"
    and reset :: "'b \<Rightarrow> 'b option"
  assumes reset_rep: "rep b v \<Longrightarrow> \<exists>b'. reset b = Some b' \<and> rep b' None"
    and copy_rep: "rep b v \<Longrightarrow> \<exists>b'. copy_len b s = Some b' \<and> rep b' (Some s)"
    and append_rep: "rep b v \<Longrightarrow> \<exists>b'. append_len b s = Some b' \<and>
      rep b' (if s = [] then v else Some ((case v of None \<Rightarrow> [] | Some t \<Rightarrow> t) @ s))"
begin

text \<open>Appending the pieces of a text one by one never fails and yields their concatenation.\<close>

lemma append_pieces:
  assumes "rep b (Some t)"
  shows "\<exists>b'. foldl (\<lambda>bo s. Option.bind bo (\<lambda>b. append_len b s)) (Some b) ss = Some b' \<and> rep b' (Some (t @ concat ss))"
  using assms
proof (induction ss arbitrary: b t)
  case Nil
  then show ?case by simp
next
  case (Cons s ss)
  from append_rep [OF Cons.prems, of s] obtain b1 where
    "append_len b s = Some b1" "rep b1 (Some (t @ s))" by (cases "s = []") auto
  with Cons.IH [of b1 "t @ s"] show ?case by auto
qed

lemma copy_then_append:
  assumes "rep b v"
  shows "\<exists>b'. Option.bind (copy_len b s) (\<lambda>b. foldl (\<lambda>bo s. Option.bind bo (\<lambda>b. append_len b s)) (Some b) ss) = Some b'
    \<and> rep b' (Some (s @ concat ss))"
  using copy_rep [OF assms, of s] append_pieces by fastforce

end

end
