(* ===== verification/Buffer_Core.thy ===== *)
theory Buffer_Core imports Interfaces begin

text \<open>
  The string buffer of \<open>src/src/buffer.c\<close>: a heap block \<open>bptr\<close> of \<open>bsize\<close> cells of which the first
  \<open>bused\<close> are in use; a buffer that holds a string counts its terminating NUL in \<open>bused\<close>. The
  functions take \<open>buffer *\<close> and \<open>const char *\<close> arguments that the C code compares with NULL as
  options. \<open>bstr\<close> is the abstract value of a buffer, \<open>buf_repr\<close> relates the two, and the refinement
  lemmas say that every operation succeeds inside its block and does to the block what the abstract
  operation does to the string. \<open>malloc\<close> and \<open>realloc\<close> are taken to succeed (the code asserts it).
\<close>

section \<open>State\<close>

record buffer =
  bptr :: "cell list"
  bused :: nat
  bsize :: nat

type_synonym bufp = "buffer option"
type_synonym bstr = "char list option"

definition BUFFER_PIECE_SIZE :: nat where
  "BUFFER_PIECE_SIZE = 64"

definition BUFFER_MAX_REUSE_SIZE :: nat where
  "BUFFER_MAX_REUSE_SIZE = 4 * 1024"

section \<open>Operations\<close>

definition buffer_init :: buffer where
  "buffer_init = \<lparr>bptr = [], bused = 0, bsize = 0\<rparr>"

definition buffer_reset :: "bufp \<Rightarrow> bufp option" where
  "buffer_reset bo =
     (case bo of
        None \<Rightarrow> Some None
      | Some b \<Rightarrow>
          if bsize b > BUFFER_MAX_REUSE_SIZE then Some (Some \<lparr>bptr = [], bused = 0, bsize = 0\<rparr>)
          else if bsize b \<noteq> 0 then
            do { m \<leftarrow> mwrite 0 [Some NUL] (bptr b); Some (Some (b\<lparr>bptr := m, bused := 0\<rparr>)) }
          else Some (Some (b\<lparr>bused := 0\<rparr>)))"

text \<open>\<open>size += BUFFER_PIECE_SIZE - (size % BUFFER_PIECE_SIZE)\<close>\<close>

definition round_piece :: "nat \<Rightarrow> nat" where
  "round_piece n = n + (BUFFER_PIECE_SIZE - n mod BUFFER_PIECE_SIZE)"

definition prepare_copy :: "buffer \<Rightarrow> nat \<Rightarrow> buffer" where
  "prepare_copy b n =
     (if bsize b = 0 \<or> n > bsize b
      then \<lparr>bptr = malloc_cells (round_piece n), bused = 0, bsize = round_piece n\<rparr>
      else b\<lparr>bused := 0\<rparr>)"

definition buffer_prepare_copy :: "bufp \<Rightarrow> nat \<Rightarrow> int \<times> bufp" where
  "buffer_prepare_copy bo n =
     (case bo of None \<Rightarrow> (-1, None) | Some b \<Rightarrow> (0, Some (prepare_copy b n)))"

definition prepare_append :: "buffer \<Rightarrow> nat \<Rightarrow> buffer" where
  "prepare_append b n =
     (if bsize b = 0
      then \<lparr>bptr = malloc_cells (round_piece n), bused = 0, bsize = round_piece n\<rparr>
      else if bused b + n > bsize b
      then b\<lparr>bptr := realloc_cells (round_piece (bsize b + n)) (bptr b),
             bsize := round_piece (bsize b + n)\<rparr>
      else b)"

definition buffer_prepare_append :: "bufp \<Rightarrow> nat \<Rightarrow> int \<times> bufp" where
  "buffer_prepare_append bo n =
     (case bo of None \<Rightarrow> (-1, None) | Some b \<Rightarrow> (0, Some (prepare_append b n)))"

definition buffer_copy_string :: "bufp \<Rightarrow> cell list option \<Rightarrow> (int \<times> bufp) option" where
  "buffer_copy_string bo so =
     (case (so, bo) of
        (Some s, Some b) \<Rightarrow> do {
          l \<leftarrow> cell_strlen s;
          let s_len = l + 1;
          let b = prepare_copy b s_len;
          m \<leftarrow> memcpy_cells 0 s s_len (bptr b);
          Some (0, Some (b\<lparr>bptr := m, bused := s_len\<rparr>)) }
      | _ \<Rightarrow> Some (-1, bo))"

definition buffer_copy_string_len ::
  "bufp \<Rightarrow> cell list option \<Rightarrow> nat \<Rightarrow> (int \<times> bufp) option" where
  "buffer_copy_string_len bo so s_len =
     (case (so, bo) of
        (Some s, Some b) \<Rightarrow> do {
          let b = prepare_copy b (s_len + 1);
          m \<leftarrow> memcpy_cells 0 s s_len (bptr b);
          m \<leftarrow> mwrite s_len [Some NUL] m;
          Some (0, Some (b\<lparr>bptr := m, bused := s_len + 1\<rparr>)) }
      | _ \<Rightarrow> Some (-1, bo))"

definition buffer_copy_string_buffer :: "bufp \<Rightarrow> bufp \<Rightarrow> (int \<times> bufp) option" where
  "buffer_copy_string_buffer bo srco =
     (case srco of
        None \<Rightarrow> Some (-1, bo)
      | Some src \<Rightarrow>
          if bused src = 0 then do { bo \<leftarrow> buffer_reset bo; Some (0, bo) }
          else buffer_copy_string_len bo (Some (bptr src)) (bused src - 1))"

text \<open>\<open>if (b->used == 0) b->used++\<close>: an unused buffer is treated as the empty string.\<close>

definition use_nul :: "buffer \<Rightarrow> buffer" where
  "use_nul b = (if bused b = 0 then b\<lparr>bused := 1\<rparr> else b)"

definition buffer_append_string :: "bufp \<Rightarrow> cell list option \<Rightarrow> (int \<times> bufp) option" where
  "buffer_append_string bo so =
     (case (so, bo) of
        (Some s, Some b) \<Rightarrow> do {
          s_len \<leftarrow> cell_strlen s;
          let b = use_nul (prepare_append b (s_len + 1));
          m \<leftarrow> memcpy_cells (bused b - 1) s (s_len + 1) (bptr b);
          Some (0, Some (b\<lparr>bptr := m, bused := bused b + s_len\<rparr>)) }
      | _ \<Rightarrow> Some (-1, bo))"

definition buffer_append_string_rfill ::
  "bufp \<Rightarrow> cell list option \<Rightarrow> nat \<Rightarrow> (int \<times> bufp) option" where
  "buffer_append_string_rfill bo so maxlen =
     (case (so, bo) of
        (Some s, Some b) \<Rightarrow> do {
          l \<leftarrow> cell_strlen s;
          let s_len = (if l > maxlen then maxlen else l);
          let b = use_nul (prepare_append b (maxlen + 1));
          m \<leftarrow> memcpy_cells (bused b - 1) s s_len (bptr b);
          m \<leftarrow> (if maxlen > s_len
                then mwrite (bused b - 1 + s_len) (replicate (maxlen - s_len) (Some (CHR '' ''))) m
                else Some m);
          m \<leftarrow> mwrite (bused b + maxlen - 1) [Some NUL] m;
          Some (0, Some (b\<lparr>bptr := m, bused := bused b + maxlen\<rparr>)) }
      | _ \<Rightarrow> Some (-1, bo))"

definition buffer_append_string_len ::
  "bufp \<Rightarrow> cell list option \<Rightarrow> nat \<Rightarrow> (int \<times> bufp) option" where
  "buffer_append_string_len bo so s_len =
     (case (so, bo) of
        (Some s, Some b) \<Rightarrow>
          if s_len = 0 then Some (0, bo)
          else do {
            let b = use_nul (prepare_append b (s_len + 1));
            m \<leftarrow> memcpy_cells (bused b - 1) s s_len (bptr b);
            m \<leftarrow> mwrite (bused b + s_len - 1) [Some NUL] m;
            Some (0, Some (b\<lparr>bptr := m, bused := bused b + s_len\<rparr>)) }
      | _ \<Rightarrow> Some (-1, bo))"

definition buffer_append_string_buffer :: "bufp \<Rightarrow> bufp \<Rightarrow> (int \<times> bufp) option" where
  "buffer_append_string_buffer bo srco =
     (case srco of
        None \<Rightarrow> Some (-1, bo)
      | Some src \<Rightarrow>
          if bused src = 0 then Some (0, bo)
          else buffer_append_string_len bo (Some (bptr src)) (bused src - 1))"

definition buffer_append_memory ::
  "bufp \<Rightarrow> cell list option \<Rightarrow> nat \<Rightarrow> (int \<times> bufp) option" where
  "buffer_append_memory bo so s_len =
     (case (so, bo) of
        (Some s, Some b) \<Rightarrow>
          if s_len = 0 then Some (0, bo)
          else do {
            let b = prepare_append b s_len;
            m \<leftarrow> memcpy_cells (bused b) s s_len (bptr b);
            Some (0, Some (b\<lparr>bptr := m, bused := bused b + s_len\<rparr>)) }
      | _ \<Rightarrow> Some (-1, bo))"

definition buffer_copy_memory ::
  "bufp \<Rightarrow> cell list option \<Rightarrow> nat \<Rightarrow> (int \<times> bufp) option" where
  "buffer_copy_memory bo so s_len =
     (case (so, bo) of
        (Some s, Some b) \<Rightarrow> buffer_append_memory (Some (b\<lparr>bused := 0\<rparr>)) so s_len
      | _ \<Rightarrow> Some (-1, bo))"

definition buffer_init_buffer :: "bufp \<Rightarrow> bufp option" where
  "buffer_init_buffer src = map_option snd (buffer_copy_string_buffer (Some buffer_init) src)"

definition buffer_init_string :: "cell list option \<Rightarrow> bufp option" where
  "buffer_init_string str = map_option snd (buffer_copy_string (Some buffer_init) str)"

definition buffer_is_empty :: "bufp \<Rightarrow> bool" where
  "buffer_is_empty bo = (case bo of None \<Rightarrow> True | Some b \<Rightarrow> bused b = 0)"

text \<open>\<open>strcmp\<close> and \<open>strncmp\<close> as tests for equality, on blocks.\<close>

fun cell_streq :: "cell list \<Rightarrow> cell list \<Rightarrow> bool option" where
  "cell_streq (Some c # cs) (Some d # ds) =
     (if c \<noteq> d then Some False else if c = NUL then Some True else cell_streq cs ds)"
| "cell_streq _ _ = None"

fun cell_strneq :: "nat \<Rightarrow> cell list \<Rightarrow> cell list \<Rightarrow> bool option" where
  "cell_strneq 0 _ _ = Some True"
| "cell_strneq (Suc n) (Some c # cs) (Some d # ds) =
     (if c \<noteq> d then Some False else if c = NUL then Some True else cell_strneq n cs ds)"
| "cell_strneq (Suc n) _ _ = None"

definition buffer_is_equal :: "buffer \<Rightarrow> buffer \<Rightarrow> bool option" where
  "buffer_is_equal a b =
     (if bused a \<noteq> bused b then Some False
      else if bused a = 0 then Some True
      else cell_streq (bptr a) (bptr b))"

definition buffer_is_equal_string :: "buffer \<Rightarrow> cell list \<Rightarrow> nat \<Rightarrow> bool option" where
  "buffer_is_equal_string a s b_len =
     buffer_is_equal a \<lparr>bptr = s, bused = b_len + 1, bsize = 0\<rparr>"

text \<open>The address \<open>b2->ptr + b2->used - 1 - len\<close> lies before the block when the second buffer holds
  fewer than \<open>len\<close> characters, which the guard does not exclude: it tests the first buffer twice.\<close>

definition buffer_is_equal_right_len :: "buffer \<Rightarrow> buffer \<Rightarrow> nat \<Rightarrow> bool option" where
  "buffer_is_equal_right_len b1 b2 len =
     (if len = 0 then Some True
      else if bused b1 = 0 \<or> bused b2 = 0 then Some False
      else if bused b1 - 1 < len \<or> bused b1 - 1 < len then Some False
      else if int (bused b2) - 1 - int len < 0 then None
      else cell_strneq len (drop (bused b1 - 1 - len) (bptr b1)) (drop (bused b2 - 1 - len) (bptr b2)))"

fun buffer_search_loop :: "cell list \<Rightarrow> char list \<Rightarrow> nat \<Rightarrow> nat list \<Rightarrow> nat option option" where
  "buffer_search_loop m needle len [] = Some None"
| "buffer_search_loop m needle len (i # is) = do {
     x \<leftarrow> mread_init i len m;
     y \<leftarrow> mread 0 len needle;
     if x = y then Some (Some i) else buffer_search_loop m needle len is }"

definition buffer_search_string_len :: "buffer \<Rightarrow> char list option \<Rightarrow> nat \<Rightarrow> nat option option" where
  "buffer_search_string_len b needle len =
     (if len = 0 then Some None
      else case needle of
        None \<Rightarrow> Some None
      | Some s \<Rightarrow>
          if bused b < len then Some None
          else buffer_search_loop (bptr b) s len [0..<bused b - len])"

section \<open>Arrays of buffers\<close>

record buffer_array =
  baptr :: "bufp list"
  baused :: nat
  basize :: nat

definition buffer_array_init :: buffer_array where
  "buffer_array_init = \<lparr>baptr = [], baused = 0, basize = 0\<rparr>"

fun reset_prefix :: "nat \<Rightarrow> bufp list \<Rightarrow> bufp list option" where
  "reset_prefix 0 bs = Some bs"
| "reset_prefix (Suc n) [] = None"
| "reset_prefix (Suc n) (b # bs) = do { b \<leftarrow> buffer_reset b; bs \<leftarrow> reset_prefix n bs; Some (b # bs) }"

definition buffer_array_reset :: "buffer_array option \<Rightarrow> buffer_array option option" where
  "buffer_array_reset bo =
     (case bo of
        None \<Rightarrow> Some None
      | Some b \<Rightarrow> do {
          bs \<leftarrow> reset_prefix (baused b) (baptr b);
          Some (Some (b\<lparr>baptr := bs, baused := 0\<rparr>)) })"

text \<open>Returns the index of the buffer handed out; its \<open>used\<close> is set to 0 in the array.\<close>

definition buffer_array_grow :: "buffer_array \<Rightarrow> buffer_array" where
  "buffer_array_grow b =
     (if basize b = 0 then b\<lparr>baptr := replicate 16 None, basize := 16\<rparr>
      else if basize b = baused b
      then b\<lparr>baptr := take (basize b) (baptr b) @ replicate 16 None, basize := basize b + 16\<rparr>
      else b)"

definition buffer_array_append_get_buffer :: "buffer_array \<Rightarrow> (nat \<times> buffer_array) option" where
  "buffer_array_append_get_buffer b0 = (
     let b = buffer_array_grow b0 in do {
       slot \<leftarrow> (if baused b < length (baptr b) then Some (baptr b ! baused b) else None);
       let x = (case slot of None \<Rightarrow> buffer_init | Some x \<Rightarrow> x);
       Some (baused b,
             b\<lparr>baptr := (baptr b)[baused b := Some (x\<lparr>bused := 0\<rparr>)], baused := baused b + 1\<rparr>) })"

section \<open>Abstract value and refinement\<close>

abbreviation bval :: "bstr \<Rightarrow> char list" where
  "bval v \<equiv> case_option [] id v"

definition buf_wf :: "buffer \<Rightarrow> bool" where
  "buf_wf b \<longleftrightarrow> length (bptr b) = bsize b \<and> bused b \<le> bsize b"

definition buf_repr :: "buffer \<Rightarrow> bstr \<Rightarrow> bool" where
  "buf_repr b v \<longleftrightarrow> buf_wf b \<and>
     (case v of
        None \<Rightarrow> bused b = 0
      | Some s \<Rightarrow> bused b = length s + 1 \<and> take (bused b) (bptr b) = map Some (s @ [NUL]))"

text \<open>A buffer used for raw memory (\<open>buffer_append_memory\<close>) has no terminator.\<close>

definition buf_mem :: "buffer \<Rightarrow> char list \<Rightarrow> bool" where
  "buf_mem b s \<longleftrightarrow> buf_wf b \<and> bused b = length s \<and> take (bused b) (bptr b) = map Some s"

lemma round_piece_gt: "n < round_piece n"
  by (simp add: round_piece_def BUFFER_PIECE_SIZE_def)

lemma round_piece_multiple: "round_piece n mod BUFFER_PIECE_SIZE = 0"
proof -
  have "round_piece n = (n div 64 + 1) * 64"
    using div_mult_mod_eq [of n 64] mod_less_divisor [of 64 n]
    unfolding round_piece_def BUFFER_PIECE_SIZE_def by arith
  then show ?thesis by (simp add: BUFFER_PIECE_SIZE_def)
qed

lemma prepare_copy_spec:
  assumes "buf_wf b"
  shows "buf_wf (prepare_copy b n)" "bused (prepare_copy b n) = 0" "n \<le> bsize (prepare_copy b n)"
    "length (bptr (prepare_copy b n)) = bsize (prepare_copy b n)"
  using assms round_piece_gt [of n] by (auto simp: prepare_copy_def buf_wf_def)

lemma prepare_append_spec:
  assumes "buf_wf b"
  shows "buf_wf (prepare_append b n)" "bused (prepare_append b n) = bused b"
    "bused b + n \<le> bsize (prepare_append b n)"
    "length (bptr (prepare_append b n)) = bsize (prepare_append b n)"
    "take (bused b) (bptr (prepare_append b n)) = take (bused b) (bptr b)"
  using assms round_piece_gt [of n] round_piece_gt [of "bsize b + n"]
  by (auto simp: prepare_append_def buf_wf_def)

lemma use_nul_spec:
  "bptr (use_nul b) = bptr b" "bsize (use_nul b) = bsize b" "bused (use_nul b) = max 1 (bused b)"
  by (auto simp: use_nul_def)

lemma buf_repr_wf: "buf_repr b v \<Longrightarrow> buf_wf b"
  by (simp add: buf_repr_def)

lemma buf_repr_init [simp]: "buf_repr buffer_init None"
  by (simp add: buf_repr_def buf_wf_def buffer_init_def)

lemma buffer_reset_repr:
  assumes "buf_wf b"
  shows "\<exists>b'. buffer_reset (Some b) = Some (Some b') \<and> buf_repr b' None"
  using assms
  by (auto simp: buffer_reset_def buf_wf_def buf_repr_def mwrite_def)

lemma buffer_copy_string_len_repr:
  assumes "buf_wf b" and "n \<le> length s"
  shows "\<exists>b'. buffer_copy_string_len (Some b) (Some (map Some s)) n = Some (0, Some b')
    \<and> buf_repr b' (Some (take n s))"
  using assms prepare_copy_spec [OF assms(1), of "n + 1"]
  by (auto simp: buffer_copy_string_len_def buf_repr_def buf_wf_def mwrite_def Let_def min_def
      take_map)

lemma buffer_copy_string_repr:
  assumes "buf_wf b" and "NUL \<notin> set s"
  shows "\<exists>b'. buffer_copy_string (Some b) (Some (map Some s @ Some NUL # rest)) = Some (0, Some b')
    \<and> buf_repr b' (Some s)"
  using assms prepare_copy_spec [OF assms(1), of "length s + 1"]
  by (auto simp: buffer_copy_string_def buf_repr_def buf_wf_def Let_def)

lemma buf_repr_SomeD:
  "buf_repr b (Some s) \<Longrightarrow> take (length s + 1) (bptr b) = map Some (s @ [NUL])
     \<and> bused b = length s + 1 \<and> length (bptr b) = bsize b \<and> bused b \<le> bsize b
     \<and> take (length s) (bptr b) = map Some s"
  using take_Suc_snocD [of "map Some s" "bptr b" "Some NUL"]
  by (auto simp: buf_repr_def buf_wf_def)

lemma buffer_copy_string_buffer_repr:
  assumes "buf_wf b" and "buf_repr src v"
  shows "\<exists>b'. buffer_copy_string_buffer (Some b) (Some src) = Some (0, Some b') \<and> buf_repr b' v"
proof (cases v)
  case None
  with assms show ?thesis
    using buffer_reset_repr [OF assms(1)]
    by (auto simp: buffer_copy_string_buffer_def buf_repr_def)
next
  case (Some s)
  with assms(2) have "buf_repr src (Some s)" by simp
  from buf_repr_SomeD [OF this] have
    src: "bused src = length s + 1" "take (length s) (bptr src) = map Some s"
      "length s \<le> length (bptr src)" by auto
  show ?thesis
    using prepare_copy_spec [OF assms(1), of "length s + 1"] src Some
    by (auto simp: buffer_copy_string_buffer_def buffer_copy_string_len_def buf_repr_def buf_wf_def
        mwrite_def Let_def min_def)
qed

text \<open>The abstract append: what \<open>bused = 0\<close> and a terminator become.\<close>

lemma append_cells_repr:
  fixes s :: "char list"
  assumes repr: "buf_repr b v"
  defines "b1 \<equiv> use_nul (prepare_append b (Suc (length s)))"
  shows "0 < bused b1" "bused b1 + length s \<le> length (bptr b1)"
    "length rest = length (bptr b1) - (bused b1 + length s) \<Longrightarrow>
       buf_repr (b1\<lparr>bptr := take (bused b1 - 1) (bptr b1) @ map Some s @ Some NUL # rest,
                   bused := bused b1 + length s\<rparr>)
         (Some (bval v @ s))"
proof -
  note pa = prepare_append_spec [OF buf_repr_wf [OF repr], of "Suc (length s)"]
  have used: "bused b1 = max 1 (bused b)" by (simp only: b1_def pa use_nul_spec)
  then show "0 < bused b1" by simp
  have size: "length (bptr b1) = bsize b1" "bused b1 + length s \<le> bsize b1"
    using pa by (auto simp: b1_def use_nul_spec)
  then show "bused b1 + length s \<le> length (bptr b1)" by simp
  have same: "take (bused b) (bptr b1) = take (bused b) (bptr b)"
    by (simp only: b1_def pa use_nul_spec)
  have pre: "take (length (bval v)) (bptr b1) = map Some (bval v) \<and> bused b1 = length (bval v) + 1"
  proof (cases v)
    case None
    with repr used show ?thesis by (simp add: buf_repr_def)
  next
    case (Some t)
    with repr used same have "take (Suc (length t)) (bptr b1) = map Some t @ [Some NUL]"
      "bused b1 = Suc (length t)" by (auto simp: buf_repr_def)
    with Some show ?thesis using take_Suc_snocD [of "map Some t" "bptr b1" "Some NUL"] by simp
  qed
  have "take (bused b1 - 1) (bptr b1) = map Some (bval v)" using pre by simp
  then show "buf_repr (b1\<lparr>bptr := take (bused b1 - 1) (bptr b1) @ map Some s @ Some NUL # rest,
      bused := bused b1 + length s\<rparr>) (Some (bval v @ s))"
    if "length rest = length (bptr b1) - (bused b1 + length s)"
    using that pre size by (simp add: buf_repr_def buf_wf_def)
qed

text \<open>Overwriting the terminator with more text and a new terminator.\<close>

lemma write_at_end_repr:
  assumes repr: "buf_repr b v"
    and same: "take (bused b) (bptr b1) = take (bused b) (bptr b)"
    and used: "bused b1 = max 1 (bused b)"
    and size: "length (bptr b1) = bsize b1" "bused b1 + length s \<le> bsize b1"
  shows "\<exists>m. mwrite (bused b1 - 1) (map Some (s @ [NUL])) (bptr b1) = Some m
    \<and> buf_repr (b1\<lparr>bptr := m, bused := bused b1 + length s\<rparr>) (Some (bval v @ s))"
proof -
  have pre: "take (length (bval v)) (bptr b1) = map Some (bval v) \<and> bused b1 = length (bval v) + 1"
  proof (cases v)
    case None
    with repr used show ?thesis by (simp add: buf_repr_def)
  next
    case (Some t)
    with repr used same have "take (Suc (length t)) (bptr b1) = map Some t @ [Some NUL]"
      "bused b1 = Suc (length t)" by (auto simp: buf_repr_def)
    with Some show ?thesis using take_Suc_snocD [of "map Some t" "bptr b1" "Some NUL"] by simp
  qed
  with size show ?thesis by (auto simp: mwrite_def buf_repr_def buf_wf_def)
qed

lemma buffer_append_string_len_cells:
  assumes "buf_repr b v" and cs: "take (length s) cs = map Some s" "length s \<le> length cs"
  shows "\<exists>b'. buffer_append_string_len (Some b) (Some cs) (length s) = Some (0, Some b')
    \<and> buf_repr b' (if s = [] then v else Some (bval v @ s))"
proof (cases "s = []")
  case True
  with assms show ?thesis by (simp add: buffer_append_string_len_def)
next
  case False
  define b1 where "b1 = use_nul (prepare_append b (Suc (length s)))"
  note ac = append_cells_repr [OF assms(1), where s = s, folded b1_def]
  have "memcpy_cells (bused b1 - 1) cs (length s) (bptr b1)
      = Some (take (bused b1 - 1) (bptr b1) @ map Some s @ drop (bused b1 - 1 + length s) (bptr b1))"
    using ac(1,2) cs by simp
  moreover have "mwrite (bused b1 + length s - 1) [Some NUL]
      (take (bused b1 - 1) (bptr b1) @ map Some s @ drop (bused b1 - 1 + length s) (bptr b1))
      = Some (take (bused b1 - 1) (bptr b1) @ map Some s @ Some NUL # drop (bused b1 + length s) (bptr b1))"
    using ac(1,2) by (intro write_string_nul) auto
  ultimately show ?thesis
    using False ac(3) [of "drop (bused b1 + length s) (bptr b1)"]
    by (simp add: buffer_append_string_len_def b1_def [symmetric] Let_def)
qed

lemma buffer_append_string_len_repr:
  assumes "buf_repr b v" and "n \<le> length s"
  shows "\<exists>b'. buffer_append_string_len (Some b) (Some (map Some s)) n = Some (0, Some b')
    \<and> buf_repr b' (if n = 0 then v else Some (bval v @ take n s))"
proof -
  have "length (take n s) = n" using assms(2) by simp
  with buffer_append_string_len_cells [OF assms(1), of "take n s" "map Some s"] assms(2)
  show ?thesis by (cases "n = 0") (auto simp: take_map split: if_splits)
qed

lemma buffer_append_string_buffer_repr:
  assumes "buf_repr b v" and "buf_repr src w"
  shows "\<exists>b'. buffer_append_string_buffer (Some b) (Some src) = Some (0, Some b')
    \<and> buf_repr b' (if bval w = [] then v else Some (bval v @ bval w))"
proof (cases w)
  case None
  with assms show ?thesis by (auto simp: buffer_append_string_buffer_def buf_repr_def)
next
  case (Some s)
  with assms(2) have "buf_repr src (Some s)" by simp
  note src = buf_repr_SomeD [OF this]
  from src have "length s \<le> length (bptr src)" by simp
  with buffer_append_string_len_cells [OF assms(1), of s "bptr src"] src Some
  show ?thesis by (auto simp: buffer_append_string_buffer_def)
qed

lemma buffer_append_string_repr:
  assumes "buf_repr b v" and "NUL \<notin> set s"
  shows "\<exists>b'. buffer_append_string (Some b) (Some (map Some s @ Some NUL # rest)) = Some (0, Some b')
    \<and> buf_repr b' (Some (bval v @ s))"
proof -
  define b1 where "b1 = use_nul (prepare_append b (Suc (length s)))"
  note ac = append_cells_repr [OF assms(1), where s = s, folded b1_def]
  have "memcpy_cells (bused b1 - 1) (map Some s @ Some NUL # rest) (length s + 1) (bptr b1)
      = Some (take (bused b1 - 1) (bptr b1) @ map Some s @ Some NUL # drop (bused b1 + length s) (bptr b1))"
    using ac(1,2) by simp
  then show ?thesis
    using assms(2) ac(3) [of "drop (bused b1 + length s) (bptr b1)"]
    by (simp add: buffer_append_string_def b1_def [symmetric] Let_def)
qed

lemma buffer_append_memory_mem:
  assumes "buf_mem b t" and "n \<le> length s"
  shows "\<exists>b'. buffer_append_memory (Some b) (Some (map Some s)) n = Some (0, Some b')
    \<and> buf_mem b' (t @ take n s)"
proof (cases "n = 0")
  case True
  with assms show ?thesis by (simp add: buffer_append_memory_def)
next
  case False
  have wf: "buf_wf b" using assms(1) by (simp add: buf_mem_def)
  note pa = prepare_append_spec [OF wf, of n]
  have "take (bused b) (bptr (prepare_append b n)) = map Some t" "bused b = length t"
    using assms(1) pa by (auto simp: buf_mem_def)
  with False assms(2) pa(2-4) show ?thesis
    by (auto simp: buffer_append_memory_def buf_mem_def buf_wf_def Let_def take_map min_def)
qed

lemma buffer_copy_memory_mem:
  assumes "buf_wf b" and "n \<le> length s"
  shows "\<exists>b'. buffer_copy_memory (Some b) (Some (map Some s)) n = Some (0, Some b')
    \<and> buf_mem b' (take n s)"
proof -
  have "buf_mem (b\<lparr>bused := 0\<rparr>) []" using assms(1) by (simp add: buf_mem_def buf_wf_def)
  from buffer_append_memory_mem [OF this assms(2)] show ?thesis
    by (auto simp: buffer_copy_memory_def)
qed

text \<open>A raw block of \<open>n + 1\<close> characters read as a string loses its last character, because
  \<open>buffer_copy_string_buffer\<close> takes \<open>used - 1\<close> for the length.\<close>

lemma buffer_copy_string_buffer_mem:
  assumes "buf_wf b" and "buf_mem src s" and "s \<noteq> []"
  shows "\<exists>b'. buffer_copy_string_buffer (Some b) (Some src) = Some (0, Some b')
    \<and> buf_repr b' (Some (butlast s))"
proof (cases s rule: rev_cases)
  case Nil
  with assms(3) show ?thesis by simp
next
  case (snoc t x)
  then have src: "bused src = length t + 1" "take (length t) (bptr src) = map Some t"
    "length t \<le> length (bptr src)"
    using assms(2) take_Suc_snocD [of "map Some t" "bptr src" "Some x"]
    by (auto simp: buf_mem_def buf_wf_def)
  with snoc show ?thesis
    using prepare_copy_spec [OF assms(1), of "length t + 1"]
    by (auto simp: buffer_copy_string_buffer_def buffer_copy_string_len_def buf_repr_def buf_wf_def
        mwrite_def Let_def min_def)
qed

lemma buffer_is_empty_repr: "buf_repr b v \<Longrightarrow> buffer_is_empty (Some b) \<longleftrightarrow> v = None"
  by (auto simp: buffer_is_empty_def buf_repr_def split: option.splits)

lemma buf_repr_cells: "buf_repr b (Some s) \<Longrightarrow> \<exists>rest. bptr b = map Some s @ Some NUL # rest"
proof -
  assume "buf_repr b (Some s)"
  then have "take (length s + 1) (bptr b) = map Some s @ [Some NUL]" by (auto simp: buf_repr_def)
  then have "bptr b = (map Some s @ [Some NUL]) @ drop (length s + 1) (bptr b)"
    by (metis append_take_drop_id)
  then show ?thesis by auto
qed

lemma cell_streq_strings:
  "cell_streq (map Some s @ Some NUL # r1) (map Some t @ Some NUL # r2) = Some (cstr s = cstr t)"
proof (induction s arbitrary: t)
  case Nil
  then show ?case by (cases t) (auto simp: cstr_def)
next
  case (Cons c s)
  then show ?case by (cases t) (auto simp: cstr_def)
qed

lemma buffer_is_equal_repr:
  assumes "buf_repr a v" and "buf_repr b w"
  shows "buffer_is_equal a b =
    Some (bused a = bused b \<and> cstr (bval v) = cstr (bval w))"
proof (cases "bused a = bused b \<and> bused a \<noteq> 0")
  case True
  with assms obtain s t where v: "v = Some s" and w: "w = Some t"
    by (cases v; cases w) (auto simp: buf_repr_def)
  with assms obtain r1 r2 where "bptr a = map Some s @ Some NUL # r1" "bptr b = map Some t @ Some NUL # r2"
    using buf_repr_cells by blast
  with True v w show ?thesis by (simp add: buffer_is_equal_def cell_streq_strings)
next
  case False
  with assms show ?thesis
    by (auto simp: buffer_is_equal_def buf_repr_def split: option.splits)
qed

text \<open>For buffers without embedded NUL, equality of buffers is equality of the abstract values.\<close>

lemma buffer_is_equal_value:
  assumes "buf_repr a v" and "buf_repr b w" and "NUL \<notin> set (bval v)" and "NUL \<notin> set (bval w)"
  shows "buffer_is_equal a b = Some (v = w)"
proof -
  have "(bused a = bused b \<and> bval v = bval w) = (v = w)"
    using assms(1,2) by (auto simp: buf_repr_def split: option.splits)
  then show ?thesis using buffer_is_equal_repr [OF assms(1,2)] assms(3,4) by simp
qed

lemma cell_strneq_strings:
  "length s = n \<Longrightarrow> length t = n \<Longrightarrow> NUL \<notin> set s \<Longrightarrow>
     cell_strneq n (map Some s @ r1) (map Some t @ r2) = Some (s = t)"
proof (induction n arbitrary: s t)
  case 0
  then show ?case by simp
next
  case (Suc n)
  then obtain c s' d t' where "s = c # s'" "t = d # t'" by (metis length_Suc_conv)
  with Suc show ?case by auto
qed

text \<open>\<open>buffer_is_equal_right_len\<close> compares suffixes, provided the second buffer is long enough.\<close>

lemma buffer_is_equal_right_len_suffix:
  assumes a: "buf_repr a (Some s)" and b: "buf_repr b (Some t)" and "len \<le> length t"
    and "NUL \<notin> set s"
  shows "buffer_is_equal_right_len a b len =
    Some (len \<le> length s \<and> drop (length s - len) s = drop (length t - len) t)"
proof -
  obtain r1 r2 where cells: "bptr a = map Some s @ Some NUL # r1" "bptr b = map Some t @ Some NUL # r2"
    using a b buf_repr_cells by blast
  have used: "bused a = length s + 1" "bused b = length t + 1" using a b by (auto simp: buf_repr_def)
  have "cell_strneq len (map Some (drop (length s - len) s) @ Some NUL # r1)
      (map Some (drop (length t - len) t) @ Some NUL # r2)
      = Some (drop (length s - len) s = drop (length t - len) t)" if "len \<le> length s"
    using that assms(3,4) by (intro cell_strneq_strings) (auto dest: in_set_dropD)
  with cells used assms(3) show ?thesis
    by (auto simp: buffer_is_equal_right_len_def drop_map)
qed

lemma buffer_is_equal_right_len_short:
  assumes "buf_repr a (Some s)" and "buf_repr b (Some t)" and "length t < len" and "len \<le> length s"
  shows "buffer_is_equal_right_len a b len = None"
  using assms by (auto simp: buffer_is_equal_right_len_def buf_repr_def)

lemma buffer_search_loop_find:
  assumes "\<And>i. i \<in> set is \<Longrightarrow> i + len \<le> length s" and "len \<le> length needle"
  shows "buffer_search_loop (map Some s @ rest) needle len is
    = Some (List.find (\<lambda>i. take len (drop i s) = take len needle) is)"
  using assms
proof (induction "is")
  case Nil
  then show ?case by simp
next
  case (Cons i "is")
  then have "i + len \<le> length s" by simp
  then have "mread_init i len (map Some s @ rest) = Some (take len (drop i s))"
    by (simp add: mread_init_def mread_def take_map drop_map)
  with Cons show ?case by (auto simp: mread_def)
qed

lemma buffer_search_string_len_find:
  assumes "buf_repr b (Some s)" and "len \<le> length needle" and "0 < len"
  shows "buffer_search_string_len b (Some needle) len
    = Some (List.find (\<lambda>i. take len (drop i s) = take len needle) [0..<length s + 1 - len])"
proof -
  obtain r where cells: "bptr b = map Some s @ Some NUL # r" using assms(1) buf_repr_cells by blast
  have used: "bused b = length s + 1" using assms(1) by (simp add: buf_repr_def)
  show ?thesis using used cells assms(2,3)
    by (auto simp: buffer_search_string_len_def intro!: buffer_search_loop_find)
qed

section \<open>The buffer as a growing string\<close>

definition copy_bytes :: "buffer \<Rightarrow> char list \<Rightarrow> buffer option" where
  "copy_bytes b s =
     do { (r, bo) \<leftarrow> buffer_copy_string_len (Some b) (Some (map Some s)) (length s); bo }"

definition append_bytes :: "buffer \<Rightarrow> char list \<Rightarrow> buffer option" where
  "append_bytes b s =
     do { (r, bo) \<leftarrow> buffer_append_string_len (Some b) (Some (map Some s)) (length s); bo }"

definition reset_bytes :: "buffer \<Rightarrow> buffer option" where
  "reset_bytes b = do { bo \<leftarrow> buffer_reset (Some b); bo }"

interpretation heap_buffer: string_buffer buf_repr copy_bytes append_bytes reset_bytes
proof
  fix b v s
  assume repr: "buf_repr b v"
  show "\<exists>b'. reset_bytes b = Some b' \<and> buf_repr b' None"
    using buffer_reset_repr [OF buf_repr_wf [OF repr]] by (auto simp: reset_bytes_def)
  show "\<exists>b'. copy_bytes b s = Some b' \<and> buf_repr b' (Some s)"
    using buffer_copy_string_len_repr [OF buf_repr_wf [OF repr], of "length s" s] by (auto simp: copy_bytes_def)
  show "\<exists>b'. append_bytes b s = Some b' \<and> buf_repr b' (if s = [] then v else Some ((case v of None \<Rightarrow> [] | Some t \<Rightarrow> t) @ s))"
    using buffer_append_string_len_repr [OF repr, of "length s" s]
    by (auto simp: append_bytes_def split: option.splits)
qed

section \<open>Properties\<close>

text \<open>Copying a string into a buffer in any well-formed state and appending further pieces never
  leaves the block and yields exactly the concatenation.\<close>

theorem buffer_collects_pieces:
  assumes "buf_repr b v"
  shows "\<exists>b'. Option.bind (copy_bytes b s) (\<lambda>b. foldl (\<lambda>bo t. Option.bind bo (\<lambda>b. append_bytes b t)) (Some b) ts) = Some b'
    \<and> buf_repr b' (Some (s @ concat ts))"
  using assms by (rule heap_buffer.copy_then_append)

theorem buffer_collects_pieces_witness:
  "\<exists>b'. Option.bind (copy_bytes buffer_init ''HTTP/'') (\<lambda>b. foldl (\<lambda>bo t. Option.bind bo (\<lambda>b. append_bytes b t)) (Some b) [''1'', ''.0'']) = Some b'
    \<and> buf_repr b' (Some ''HTTP/1.0'')"
  using buffer_collects_pieces [OF buf_repr_init, of "''HTTP/''" "[''1'', ''.0'']"] by simp

text \<open>Equality of buffers decides equality of the strings they hold, and the comparison of the last
  \<open>len\<close> bytes decides equality of the suffixes as long as the second string has \<open>len\<close> characters; for a
  shorter one it reads before the block, because the length check looks at the first buffer twice.\<close>

theorem buffer_comparisons:
  assumes "buf_repr a (Some s)" and "buf_repr b (Some t)" and "NUL \<notin> set s" and "NUL \<notin> set t"
  shows "buffer_is_equal a b = Some (s = t) \<and>
    (len \<le> length t \<longrightarrow> buffer_is_equal_right_len a b len =
       Some (len \<le> length s \<and> drop (length s - len) s = drop (length t - len) t)) \<and>
    (length t < len \<longrightarrow> len \<le> length s \<longrightarrow> buffer_is_equal_right_len a b len = None)"
  using assms buffer_is_equal_value [OF assms(1,2)] buffer_is_equal_right_len_suffix [OF assms(1,2)]
    buffer_is_equal_right_len_short [OF assms(1,2)] by simp

theorem buffer_comparisons_witness:
  "buffer_is_equal_right_len \<lparr>bptr = map Some ''a.gz'' @ [Some NUL], bused = 5, bsize = 5\<rparr>
     \<lparr>bptr = map Some ''z'' @ [Some NUL], bused = 2, bsize = 2\<rparr> 3 = None"
proof -
  have "buf_repr \<lparr>bptr = map Some ''a.gz'' @ [Some NUL], bused = 5, bsize = 5\<rparr> (Some ''a.gz'')"
    "buf_repr \<lparr>bptr = map Some ''z'' @ [Some NUL], bused = 2, bsize = 2\<rparr> (Some ''z'')"
    by (simp_all add: buf_repr_def buf_wf_def)
  from buffer_comparisons [OF this, of 3] show ?thesis by simp
qed

end
