(* ===== verification/Buffer_Text.thy ===== *)
theory Buffer_Text imports Buffer_Core begin

unbundle bit_operations_syntax

text \<open>
  The text routines of \<open>src/src/buffer.c\<close>: decimal and hexadecimal output, character classes, case
  mapping, the caseless comparison, percent and entity encoding, and URL decoding. Routines that work
  in place are modelled on the cells of the block and proved equal to a function on strings.
\<close>

section \<open>Character classes and case\<close>

definition light_isdigit :: "int \<Rightarrow> bool" where
  "light_isdigit c \<longleftrightarrow> c \<ge> int (byte CHR ''0'') \<and> c \<le> int (byte CHR ''9'')"

definition light_isxdigit :: "int \<Rightarrow> bool" where
  "light_isxdigit c \<longleftrightarrow> light_isdigit c \<or>
     (let c = c OR 32 in c \<ge> int (byte CHR ''a'') \<and> c \<le> int (byte CHR ''f''))"

definition light_isalpha :: "int \<Rightarrow> bool" where
  "light_isalpha c \<longleftrightarrow>
     (let c = c OR 32 in c \<ge> int (byte CHR ''a'') \<and> c \<le> int (byte CHR ''z''))"

definition light_isalnum :: "int \<Rightarrow> bool" where
  "light_isalnum c \<longleftrightarrow> light_isdigit c \<or> light_isalpha c"

definition is_upper :: "char \<Rightarrow> bool" where
  "is_upper c \<longleftrightarrow> schar c \<ge> schar CHR ''A'' \<and> schar c \<le> schar CHR ''Z''"

definition is_lower :: "char \<Rightarrow> bool" where
  "is_lower c \<longleftrightarrow> schar c \<ge> schar CHR ''a'' \<and> schar c \<le> schar CHR ''z''"

definition to_lower_char :: "char \<Rightarrow> char" where
  "to_lower_char c = (if is_upper c then char_of (byte c OR 32) else c)"

definition to_upper_char :: "char \<Rightarrow> char" where
  "to_upper_char c = (if is_lower c then char_of (byte c AND 223) else c)"

text \<open>The loops \<open>for (c = b->ptr; *c; c++)\<close> rewrite the characters before the first NUL.\<close>

fun map_until_nul :: "(char \<Rightarrow> char) \<Rightarrow> cell list \<Rightarrow> cell list option" where
  "map_until_nul f [] = None"
| "map_until_nul f (None # cs) = None"
| "map_until_nul f (Some c # cs) =
     (if c = NUL then Some (Some c # cs) else map_option ((#) (Some (f c))) (map_until_nul f cs))"

definition buffer_to_lower :: "buffer \<Rightarrow> buffer option" where
  "buffer_to_lower b =
     (if bused b = 0 then Some b
      else do { m \<leftarrow> map_until_nul to_lower_char (bptr b); Some (b\<lparr>bptr := m\<rparr>) })"

definition buffer_to_upper :: "buffer \<Rightarrow> buffer option" where
  "buffer_to_upper b =
     (if bused b = 0 then Some b
      else do { m \<leftarrow> map_until_nul to_upper_char (bptr b); Some (b\<lparr>bptr := m\<rparr>) })"

lemma map_until_nul_string:
  "NUL \<notin> set s \<Longrightarrow> map_until_nul f (map Some s @ Some NUL # r) = Some (map Some (map f s) @ Some NUL # r)"
  by (induction s) auto

lemma buf_repr_replace:
  assumes "buf_repr b (Some s)" and "bptr b = map Some s @ Some NUL # r" and "length t = length s"
  shows "buf_repr (b\<lparr>bptr := map Some t @ Some NUL # r\<rparr>) (Some t)"
  using assms by (auto simp: buf_repr_def buf_wf_def)

lemma buffer_to_lower_repr:
  assumes "buf_repr b v" and "NUL \<notin> set (bval v)"
  shows "\<exists>b'. buffer_to_lower b = Some b' \<and> buf_repr b' (map_option (map to_lower_char) v)"
proof (cases v)
  case None
  with assms show ?thesis by (auto simp: buffer_to_lower_def buf_repr_def)
next
  case (Some s)
  with assms obtain r where "bptr b = map Some s @ Some NUL # r" using buf_repr_cells by blast
  with Some assms show ?thesis
    by (auto simp: buffer_to_lower_def map_until_nul_string buf_repr_def buf_wf_def)
qed

lemma buffer_to_upper_repr:
  assumes "buf_repr b v" and "NUL \<notin> set (bval v)"
  shows "\<exists>b'. buffer_to_upper b = Some b' \<and> buf_repr b' (map_option (map to_upper_char) v)"
proof (cases v)
  case None
  with assms show ?thesis by (auto simp: buffer_to_upper_def buf_repr_def)
next
  case (Some s)
  with assms obtain r where "bptr b = map Some s @ Some NUL # r" using buf_repr_cells by blast
  with Some assms show ?thesis
    by (auto simp: buffer_to_upper_def map_until_nul_string buf_repr_def buf_wf_def)
qed

section \<open>Caseless comparison\<close>

text \<open>One step of the byte loop: the letters of mixed case are folded, other bytes compared as they
  are.\<close>

definition cc_byte :: "char \<Rightarrow> char \<Rightarrow> int" where
  "cc_byte a1 b1 =
     (if a1 \<noteq> b1 then
        (if is_upper a1 \<and> is_lower b1 then schar (char_of (byte a1 OR 32)) - schar b1
         else if is_lower a1 \<and> is_upper b1 then schar a1 - schar (char_of (byte b1 OR 32))
         else schar a1 - schar b1)
      else 0)"

fun cc_bytes :: "char list \<Rightarrow> char list \<Rightarrow> int option" where
  "cc_bytes (a # as) (b # bs) = (if cc_byte a b \<noteq> 0 then Some (cc_byte a b) else cc_bytes as bs)"
| "cc_bytes _ _ = None"

text \<open>The aligned prefix is skipped a word (\<open>sizeof(size_t)\<close> bytes) at a time while the words agree.\<close>

definition WORD_SIZE :: nat where
  "WORD_SIZE = 4"

function cc_words :: "nat \<Rightarrow> char list \<Rightarrow> char list \<Rightarrow> nat \<Rightarrow> nat" where
  "cc_words ndx a b max_ndx =
     (if ndx < max_ndx \<and> take WORD_SIZE (drop ndx a) = take WORD_SIZE (drop ndx b)
      then cc_words (ndx + WORD_SIZE) a b max_ndx else ndx)"
  by pat_completeness auto
termination
  by (relation "measure (\<lambda>(ndx, a, b, mx). mx - ndx)") (auto simp: WORD_SIZE_def)

declare cc_words.simps [simp del]

definition buffer_caseless_compare ::
  "bool \<Rightarrow> char list \<Rightarrow> nat \<Rightarrow> char list \<Rightarrow> nat \<Rightarrow> int option" where
  "buffer_caseless_compare aligned a a_len b b_len = (
     let max_ndx = (if a_len < b_len then a_len else b_len);
         ndx = (if aligned then cc_words 0 a b (max_ndx - max_ndx mod WORD_SIZE) else 0)
     in do {
       x \<leftarrow> mread 0 max_ndx a;
       y \<leftarrow> mread 0 max_ndx b;
       case cc_bytes (drop ndx x) (drop ndx y) of
         Some d \<Rightarrow> Some d
       | None \<Rightarrow> Some (if a_len = b_len then 0 else int a_len - int b_len) })"

definition caseless_cmp :: "char list \<Rightarrow> char list \<Rightarrow> int" where
  "caseless_cmp a b =
     (case cc_bytes a b of Some d \<Rightarrow> d | None \<Rightarrow> int (length a) - int (length b))"

lemma cc_byte_refl [simp]: "cc_byte a a = 0"
  by (simp add: cc_byte_def)

lemma cc_bytes_skip: "take n a = take n b \<Longrightarrow> cc_bytes (drop n a) (drop n b) = cc_bytes a b"
proof (induction n arbitrary: a b)
  case 0
  then show ?case by simp
next
  case (Suc n)
  then show ?case by (cases a; cases b) auto
qed

lemma cc_words_agree: "take ndx a = take ndx b \<Longrightarrow> n = cc_words ndx a b mx \<Longrightarrow> take n a = take n b"
proof (induction ndx a b mx arbitrary: n rule: cc_words.induct)
  case (1 ndx a b mx)
  show ?case
  proof (cases "ndx < mx \<and> take WORD_SIZE (drop ndx a) = take WORD_SIZE (drop ndx b)")
    case True
    with "1.prems" have "take (ndx + WORD_SIZE) a = take (ndx + WORD_SIZE) b" by (simp add: take_add)
    with True "1" show ?thesis by (simp add: cc_words.simps [of ndx])
  next
    case False
    with "1.prems" show ?thesis by (simp add: cc_words.simps [of ndx])
  qed
qed

text \<open>The word-wise fast path does not change the result, and no byte past the shorter length is
  read.\<close>

lemma buffer_caseless_compare_eq:
  assumes "a_len \<le> length a" and "b_len \<le> length b"
  shows "buffer_caseless_compare aligned a a_len b b_len = Some (caseless_cmp (take a_len a) (take b_len b))"
proof -
  let ?mx = "min a_len b_len"
  define ndx where "ndx = (if aligned then cc_words 0 a b (?mx - ?mx mod WORD_SIZE) else 0)"
  have "take ndx a = take ndx b" unfolding ndx_def using cc_words_agree [of 0 a b] by simp
  then have "take ndx (take ?mx a) = take ndx (take ?mx b)"
    by (metis min.commute take_take)
  from cc_bytes_skip [OF this]
  have skip: "cc_bytes (drop ndx (take ?mx a)) (drop ndx (take ?mx b)) = cc_bytes (take ?mx a) (take ?mx b)" .
  have cut: "cc_bytes (take k xs) (take l ys) = cc_bytes (take (min k l) xs) (take (min k l) ys)"
    if "k \<le> length xs" "l \<le> length ys" for k l xs ys
    using that
  proof (induction k arbitrary: l xs ys)
    case 0
    then show ?case by simp
  next
    case (Suc k)
    then show ?case by (cases l; cases xs; cases ys) auto
  qed
  have mx: "(if a_len < b_len then a_len else b_len) = ?mx" by simp
  show ?thesis
    using assms skip cut [OF assms]
    by (auto simp: buffer_caseless_compare_def mx ndx_def [symmetric] mread_def caseless_cmp_def Let_def
        split: option.splits)
qed

section \<open>Properties\<close>

text \<open>The caseless comparison gives, with and without its word-at-a-time fast path, the result of
  comparing the two strings byte by byte, and reads no byte past the shorter length.\<close>

theorem caseless_compare_fast_path:
  assumes "a_len \<le> length a" and "b_len \<le> length b"
  shows "buffer_caseless_compare aligned a a_len b b_len = Some (caseless_cmp (take a_len a) (take b_len b))"
  using assms by (rule buffer_caseless_compare_eq)

theorem caseless_compare_fast_path_witness:
  "buffer_caseless_compare True ''Host'' 4 ''hOSTS'' 4 = Some (caseless_cmp ''Host'' ''hOST'')"
  using caseless_compare_fast_path [of 4 "''Host''" 4 "''hOSTS''" True] by simp

end
