(* ===== verification/Buffer_Number.thy ===== *)
theory Buffer_Number imports Buffer_Text begin

unbundle bit_operations_syntax

text \<open>
  Numbers in buffers (\<open>src/src/buffer.c\<close>): \<open>LI_ltostr\<close>, \<open>buffer_append_long\<close>, \<open>buffer_append_off_t\<close>,
  \<open>buffer_append_long_hex\<close>, \<open>int2hex\<close>, \<open>hex2int\<close> and \<open>buffer_copy_string_hex\<close>. A \<open>long\<close> has 32 bits and an
  \<open>off_t\<close> 64, as in the checked-in \<open>config.h\<close>. The lemmas are round trips and the bound that keeps
  the output inside the space reserved for it.
\<close>

section \<open>Decimal\<close>

text \<open>The digit loop leaves the least significant digit first.\<close>

fun dec_digits :: "nat \<Rightarrow> char list" where
  "dec_digits v = (if v > 9 then char_of (48 + v mod 10) # dec_digits (v div 10) else [char_of (48 + v)])"

declare dec_digits.simps [simp del]

text \<open>\<open>while (buf < end) { swap = *end; *end = *buf; *buf = swap; buf++; end--; }\<close>\<close>

function swap_loop :: "'a list \<Rightarrow> nat \<Rightarrow> nat \<Rightarrow> 'a list" where
  "swap_loop m i j =
     (if i < j then swap_loop (m[j := m ! i, i := m ! j]) (i + 1) (j - 1) else m)"
  by pat_completeness auto
termination
  by (relation "measure (\<lambda>(m, i, j). j - i)") auto

declare swap_loop.simps [simp del]

definition LONG_BITS :: nat where
  "LONG_BITS = 32"

definition OFF_T_BITS :: nat where
  "OFF_T_BITS = 64"

text \<open>The digits and the sign; \<open>None\<close> is the signed overflow of \<open>-val\<close> at the least val.\<close>

definition ltostr :: "nat \<Rightarrow> int \<Rightarrow> char list option" where
  "ltostr bits val =
     (if val = - (2 ^ (bits - 1)) then None
      else let ds = dec_digits (nat \<bar>val\<bar>) in
        Some ((if val < 0 then ''-'' else '''') @ swap_loop ds 0 (length ds - 1)))"

definition LI_ltostr :: "int \<Rightarrow> (char list \<times> nat) option" where
  "LI_ltostr val = do { s \<leftarrow> ltostr LONG_BITS val; Some (s, length s) }"

text \<open>Writing \<open>s\<close> and its terminator over the terminator of the buffer.\<close>

definition put_number :: "buffer \<Rightarrow> char list \<Rightarrow> buffer option" where
  "put_number b s = do {
     let b = use_nul (prepare_append b 32);
     m \<leftarrow> mwrite (bused b - 1) (map Some (s @ [NUL])) (bptr b);
     Some (b\<lparr>bptr := m, bused := bused b + length s\<rparr>) }"

definition buffer_append_long :: "bufp \<Rightarrow> int \<Rightarrow> (int \<times> bufp) option" where
  "buffer_append_long bo val =
     (case bo of
        None \<Rightarrow> Some (-1, None)
      | Some b \<Rightarrow> do { (s, l) \<leftarrow> LI_ltostr val; b \<leftarrow> put_number b s; Some (0, Some b) })"

definition buffer_copy_long :: "bufp \<Rightarrow> int \<Rightarrow> (int \<times> bufp) option" where
  "buffer_copy_long bo val =
     (case bo of
        None \<Rightarrow> Some (-1, None)
      | Some b \<Rightarrow> buffer_append_long (Some (b\<lparr>bused := 0\<rparr>)) val)"

definition buffer_append_off_t :: "bufp \<Rightarrow> int \<Rightarrow> (int \<times> bufp) option" where
  "buffer_append_off_t bo val =
     (case bo of
        None \<Rightarrow> Some (-1, None)
      | Some b \<Rightarrow> do { s \<leftarrow> ltostr OFF_T_BITS val; b \<leftarrow> put_number b s; Some (0, Some b) })"

definition buffer_copy_off_t :: "bufp \<Rightarrow> int \<Rightarrow> (int \<times> bufp) option" where
  "buffer_copy_off_t bo val =
     (case bo of
        None \<Rightarrow> Some (-1, None)
      | Some b \<Rightarrow> buffer_append_off_t (Some (b\<lparr>bused := 0\<rparr>)) val)"

text \<open>What the digits mean, read from the left, and the abstract decimal notation.\<close>

definition dec_value :: "char list \<Rightarrow> nat" where
  "dec_value s = foldl (\<lambda>n c. 10 * n + (byte c - 48)) 0 s"

definition show_int :: "int \<Rightarrow> char list" where
  "show_int val = (if val < 0 then ''-'' else '''') @ rev (dec_digits (nat \<bar>val\<bar>))"

fun read_int :: "char list \<Rightarrow> int" where
  "read_int (c # s) = (if c = CHR ''-'' then - int (dec_value s) else int (dec_value (c # s)))"
| "read_int [] = 0"

lemma swap_step_rev:
  assumes "length m = a + n + 2"
  shows "take a (m[a + n + 1 := m ! a, a := m ! (a + n + 1)]) = take a m"
  using assms by simp

lemma swap_loop_rev_gen:
  "i + length ys = j + 1 \<Longrightarrow> length xs = i \<Longrightarrow> swap_loop (xs @ ys @ zs) i j = xs @ rev ys @ zs"
proof (induction ys arbitrary: xs zs i j rule: length_induct)
  case (1 ys)
  show ?case
  proof (cases "i < j")
    case False
    with "1.prems" have "length ys \<le> 1" by simp
    then have "rev ys = ys" by (cases ys) auto
    with False show ?thesis by (simp add: swap_loop.simps [of _ i])
  next
    case True
    with "1.prems" obtain y ys1 where y: "ys = y # ys1" "ys1 \<noteq> []" by (cases ys) (auto simp: neq_Nil_conv)
    then obtain ys2 z where z: "ys1 = ys2 @ [z]" by (metis rev_exhaust)
    let ?m = "xs @ ys @ zs"
    have j: "j = i + length ys2 + 1" using "1.prems" y z by simp
    have "?m ! i = y" "?m ! j = z" using "1.prems"(2) y z j by (simp_all add: nth_append)
    moreover have "?m[j := y, i := z] = (xs @ [z]) @ ys2 @ ([y] @ zs)"
      using "1.prems"(2) y z j by (simp add: list_update_append)
    moreover have "swap_loop ((xs @ [z]) @ ys2 @ ([y] @ zs)) (i + 1) (j - 1)
        = (xs @ [z]) @ rev ys2 @ ([y] @ zs)"
      using "1.IH" "1.prems" y z j by (intro "1.IH" [rule_format]) auto
    ultimately show ?thesis using True y z by (simp add: swap_loop.simps [of _ i])
  qed
qed

lemma swap_loop_rev: "swap_loop ys 0 (length ys - Suc 0) = rev ys"
  using swap_loop_rev_gen [of 0 ys "length ys - 1" "[]" "[]"]
  by (cases ys) (auto simp: swap_loop.simps [of "[]"])

lemma ltostr_show_int: "val \<noteq> - (2 ^ (bits - 1)) \<Longrightarrow> ltostr bits val = Some (show_int val)"
  by (simp add: ltostr_def show_int_def swap_loop_rev Let_def)

lemma dec_digits_nonempty [simp]: "dec_digits v \<noteq> []"
  by (subst dec_digits.simps) simp

lemma dec_digits_digit: "c \<in> set (dec_digits v) \<Longrightarrow> 48 \<le> byte c \<and> byte c \<le> 57"
proof (induction v rule: dec_digits.induct)
  case (1 v)
  show ?case
  proof (cases "v > 9")
    case True
    with "1.prems" consider "c = char_of (48 + v mod 10)" | "c \<in> set (dec_digits (v div 10))"
      by (subst (asm) dec_digits.simps) auto
    then show ?thesis
    proof cases
      case 1
      have "v mod 10 < 10" by simp
      with 1 show ?thesis by (simp add: of_char_of)
    next
      case 2
      with True "1.IH" show ?thesis by simp
    qed
  next
    case False
    with "1.prems" have "c = char_of (48 + v)" by (subst (asm) dec_digits.simps) auto
    with False show ?thesis by (simp add: of_char_of)
  qed
qed

lemma dec_value_snoc [simp]: "dec_value (s @ [c]) = 10 * dec_value s + (byte c - 48)"
  by (simp add: dec_value_def)

lemma dec_value_digits: "dec_value (rev (dec_digits v)) = v"
proof (induction v rule: dec_digits.induct)
  case (1 v)
  show ?case
  proof (cases "v > 9")
    case True
    have "v mod 10 < 10" by simp
    then have "byte (char_of (48 + v mod 10)) = 48 + v mod 10" by (simp add: of_char_of)
    with True "1.IH" show ?thesis by (subst dec_digits.simps) simp
  next
    case False
    then have "byte (char_of (48 + v)) = 48 + v" by (simp add: of_char_of)
    with False show ?thesis by (subst dec_digits.simps) (simp add: dec_value_def)
  qed
qed

lemma length_dec_digits: "v < 10 ^ n \<Longrightarrow> 0 < n \<Longrightarrow> length (dec_digits v) \<le> n"
proof (induction v arbitrary: n rule: dec_digits.induct)
  case (1 v)
  show ?case
  proof (cases "v > 9")
    case True
    with "1.prems" obtain k where n: "n = Suc k" "0 < k"
      by (cases n; cases "n - 1") auto
    with "1.prems" have "v div 10 < 10 ^ k" by (auto simp: less_mult_imp_div_less mult.commute)
    with True n "1.IH" [of k] show ?thesis by (subst dec_digits.simps) simp
  next
    case False
    with "1.prems" show ?thesis by (subst dec_digits.simps) simp
  qed
qed

text \<open>Printing and reading back: the decimal text determines the number.\<close>

lemma read_int_show_int: "read_int (show_int val) = val"
proof -
  obtain c s where cs: "rev (dec_digits (nat \<bar>val\<bar>)) = c # s"
    by (cases "rev (dec_digits (nat \<bar>val\<bar>))") auto
  then have "c \<in> set (dec_digits (nat \<bar>val\<bar>))" by (metis list.set_intros(1) set_rev)
  then have "c \<noteq> CHR ''-''" using dec_digits_digit by fastforce
  with cs dec_value_digits [of "nat \<bar>val\<bar>"] show ?thesis by (auto simp: show_int_def)
qed

lemma show_int_no_nul: "NUL \<notin> set (show_int val)"
  using dec_digits_digit [of NUL "nat \<bar>val\<bar>"] by (auto simp: show_int_def)

lemma show_int_length:
  assumes "\<bar>val\<bar> < 2 ^ 63"
  shows "length (show_int val) \<le> 20"
proof -
  have "nat \<bar>val\<bar> < 10 ^ 19" using assms by (simp add: nat_less_iff)
  then have "length (dec_digits (nat \<bar>val\<bar>)) \<le> 19" by (intro length_dec_digits) auto
  then show ?thesis by (cases "val < 0") (auto simp: show_int_def)
qed

lemma put_number_repr:
  assumes repr: "buf_repr b v" and "length s < 32"
  shows "\<exists>b'. put_number b s = Some b' \<and> buf_repr b' (Some (bval v @ s))"
proof -
  define b1 where "b1 = use_nul (prepare_append b 32)"
  note pa = prepare_append_spec [OF buf_repr_wf [OF repr], of 32]
  have "\<exists>m. mwrite (bused b1 - 1) (map Some (s @ [NUL])) (bptr b1) = Some m
      \<and> buf_repr (b1\<lparr>bptr := m, bused := bused b1 + length s\<rparr>) (Some (bval v @ s))"
    using pa assms(2) by (intro write_at_end_repr [OF repr]) (auto simp: b1_def use_nul_spec)
  then show ?thesis by (auto simp: put_number_def b1_def [symmetric])
qed

lemma buffer_append_long_repr:
  assumes "buf_repr b v" and "\<bar>val\<bar> < 2 ^ (LONG_BITS - 1)"
  shows "\<exists>b'. buffer_append_long (Some b) val = Some (0, Some b') \<and> buf_repr b' (Some (bval v @ show_int val))"
proof -
  have "ltostr LONG_BITS val = Some (show_int val)" using assms(2) by (intro ltostr_show_int) auto
  moreover have "length (show_int val) < 32"
    using assms(2) show_int_length [of val] by (simp add: LONG_BITS_def)
  ultimately show ?thesis
    using put_number_repr [OF assms(1), of "show_int val"]
    by (auto simp: buffer_append_long_def LI_ltostr_def)
qed

lemma buffer_append_off_t_repr:
  assumes "buf_repr b v" and "\<bar>val\<bar> < 2 ^ (OFF_T_BITS - 1)"
  shows "\<exists>b'. buffer_append_off_t (Some b) val = Some (0, Some b') \<and> buf_repr b' (Some (bval v @ show_int val))"
proof -
  have "ltostr OFF_T_BITS val = Some (show_int val)" using assms(2) by (intro ltostr_show_int) auto
  moreover have "length (show_int val) < 32"
    using assms(2) show_int_length [of val] by (simp add: OFF_T_BITS_def)
  ultimately show ?thesis
    using put_number_repr [OF assms(1), of "show_int val"]
    by (auto simp: buffer_append_off_t_def)
qed

section \<open>Hexadecimal\<close>

definition hex_chars :: "char list" where
  "hex_chars = ''0123456789abcdef''"

text \<open>\<open>hex_chars[(val >> shift) & 0x0F]\<close>: the index is below 16, inside the table.\<close>

definition hex_char :: "int \<Rightarrow> char" where
  "hex_char v = hex_chars ! nat (v AND 15)"

function nibbles :: "nat \<Rightarrow> nat" where
  "nibbles copy = (if copy = 0 then 0 else Suc (nibbles (drop_bit 4 copy)))"
  by pat_completeness auto
termination
  by (relation "measure id") (auto simp: drop_bit_eq_div)

declare nibbles.simps [simp del]

definition hex_shift :: "nat \<Rightarrow> nat" where
  "hex_shift val = (
     let shift = nibbles val;
         shift = (if shift = 0 then shift + 1 else shift)
     in if odd shift then shift + 1 else shift)"

fun hex_out :: "nat \<Rightarrow> nat \<Rightarrow> char list" where
  "hex_out val 0 = []"
| "hex_out val (Suc k) = hex_char (int (drop_bit (4 * k) val)) # hex_out val k"

definition buffer_append_long_hex :: "buffer \<Rightarrow> nat \<Rightarrow> (int \<times> buffer) option" where
  "buffer_append_long_hex b val = do {
     let shift = hex_shift val;
     let b = use_nul (prepare_append b (shift + 1));
     m \<leftarrow> mwrite (bused b - 1) (map Some (hex_out val shift @ [NUL])) (bptr b);
     Some (0, b\<lparr>bptr := m, bused := bused b + shift\<rparr>) }"

definition int2hex :: "char \<Rightarrow> char" where
  "int2hex c = hex_char (schar c)"

definition hex2int :: "char \<Rightarrow> 8 word" where
  "hex2int c = (
     let hex = of_nat (byte c) - 0x30;
         hex = (if hex > 9 then ((hex + 0x30 - 1) OR 0x20) - 0x61 + 11 else hex)
     in if hex > 15 then 0xFF else hex)"

definition hex_pair :: "char \<Rightarrow> char list" where
  "hex_pair c = [hex_char (drop_bit 4 (schar c)), hex_char (schar c)]"

definition buffer_copy_string_hex :: "buffer \<Rightarrow> char list \<Rightarrow> nat \<Rightarrow> (int \<times> buffer) option" where
  "buffer_copy_string_hex b s in_len =
     (if in_len * 2 mod 2 ^ LONG_BITS < in_len then Some (-1, b)
      else do {
        let b = prepare_copy b (in_len * 2 + 1);
        xs \<leftarrow> mread 0 in_len s;
        m \<leftarrow> mwrite 0 (map Some (concat (map hex_pair xs) @ [NUL])) (bptr b);
        Some (0, b\<lparr>bptr := m, bused := 2 * in_len + 1\<rparr>) })"

text \<open>The digit a hexadecimal character stands for.\<close>

definition hex_digit :: "char \<Rightarrow> nat option" where
  "hex_digit c =
     (if 48 \<le> byte c \<and> byte c \<le> 57 then Some (byte c - 48)
      else if 65 \<le> byte c \<and> byte c \<le> 70 then Some (byte c - 55)
      else if 97 \<le> byte c \<and> byte c \<le> 102 then Some (byte c - 87)
      else None)"

lemma hex2int_eq: "hex2int c = (case hex_digit c of Some n \<Rightarrow> of_nat n | None \<Rightarrow> 0xFF)"
  by (rule char_exhaustive) (simp add: upt_conv_Cons hex2int_def hex_digit_def of_char_of)

lemma hex_char_alt: "hex_char v = hex_chars ! nat (v mod 16)"
  using take_bit_eq_mask [of 4 v] by (simp add: hex_char_def mask_eq_exp_minus_1 take_bit_eq_mod)

lemma hex_char_mod: "hex_char (int n) = hex_char (int (n mod 16))"
  by (simp add: hex_char_alt zmod_int)

lemma hex_digit_hex_char: "hex_digit (hex_char (int n)) = Some (n mod 16)"
proof -
  have "n mod 16 \<in> set [0..<16]" by simp
  moreover have "list_all (\<lambda>k. hex_digit (hex_char (int k)) = Some k) [0..<16]"
    by (simp add: upt_conv_Cons hex_char_alt hex_chars_def hex_digit_def)
  ultimately have "hex_digit (hex_char (int (n mod 16))) = Some (n mod 16)"
    by (auto simp only: list_all_iff)
  then show ?thesis using hex_char_mod [of n] by simp
qed

lemma hex_pair_digits: "map hex_digit (hex_pair c) = [Some (byte c div 16), Some (byte c mod 16)]"
proof -
  define x where "x = int (byte c)"
  have "(x - 256) mod 16 = x mod 16" using mod_mult_self1 [of x "-16" 16] by simp
  then have lo: "schar c mod 16 = int (byte c) mod 16"
    unfolding schar_def x_def by auto
  have "(x - 256) div 16 = x div 16 - 16" using div_mult_self1 [of 16 x "-16"] by simp
  then have "(x - 256) div 16 mod 16 = x div 16 mod 16" by simp
  then have hi: "drop_bit 4 (schar c) mod 16 = int (byte c div 16) mod 16"
    unfolding schar_def x_def drop_bit_eq_div zdiv_int by auto
  have "hex_pair c = [hex_char (int (byte c div 16)), hex_char (int (byte c))]"
    unfolding hex_pair_def hex_char_alt lo hi ..
  moreover have "byte c div 16 < 16" using byte_less [of c] by linarith
  ultimately show ?thesis by (simp only: list.map hex_digit_hex_char mod_less)
qed

text \<open>Reading the digits back gives the number, and their count is even.\<close>

definition hex_value :: "char list \<Rightarrow> nat" where
  "hex_value s = foldl (\<lambda>n c. 16 * n + the (hex_digit c)) 0 s"

lemma foldl_hex_out:
  "foldl (\<lambda>n c. 16 * n + the (hex_digit c)) a (hex_out val k) = a * 16 ^ k + val mod 16 ^ k"
proof (induction k arbitrary: a)
  case 0
  then show ?case by simp
next
  case (Suc k)
  have "hex_digit (hex_char (int (drop_bit (4 * k) val))) = Some (val div 16 ^ k mod 16)"
    by (simp add: hex_digit_hex_char drop_bit_eq_div power_mult)
  moreover have "val mod 16 ^ Suc k = (val div 16 ^ k mod 16) * 16 ^ k + val mod 16 ^ k"
    using mod_mult2_eq [of val "16 ^ k" 16] by (simp add: mult.commute)
  ultimately show ?case using Suc by (simp add: algebra_simps)
qed

lemma nibbles_bound: "val < 16 ^ nibbles val"
proof (induction val rule: nibbles.induct)
  case (1 copy)
  show ?case
  proof (cases "copy = 0")
    case True
    then show ?thesis by (simp add: nibbles.simps)
  next
    case False
    with 1 have "copy div 16 < 16 ^ nibbles (copy div 16)" by (simp add: drop_bit_eq_div)
    then have "copy < 16 * 16 ^ nibbles (copy div 16)" by (simp add: div_less_iff_less_mult mult.commute)
    with False show ?thesis by (simp add: nibbles.simps [of copy] drop_bit_eq_div)
  qed
qed

lemma hex_out_value: "hex_value (hex_out val (hex_shift val)) = val"
proof -
  have "nibbles val \<le> hex_shift val" by (simp add: hex_shift_def Let_def)
  then have "(16::nat) ^ nibbles val \<le> 16 ^ hex_shift val" by (simp add: power_increasing)
  with nibbles_bound [of val] have "val < 16 ^ hex_shift val" by linarith
  then show ?thesis by (simp add: hex_value_def foldl_hex_out)
qed

lemma hex_shift_even: "even (hex_shift val)"
  by (simp add: hex_shift_def Let_def)

lemma length_hex_out [simp]: "length (hex_out val k) = k"
  by (induction k) auto

text \<open>The bytes a hexadecimal dump stands for.\<close>

fun hex_decode :: "char list \<Rightarrow> char list option" where
  "hex_decode [] = Some []"
| "hex_decode (h # l # s) =
     (case (hex_digit h, hex_digit l, hex_decode s) of
        (Some x, Some y, Some t) \<Rightarrow> Some (char_of (16 * x + y) # t)
      | _ \<Rightarrow> None)"
| "hex_decode [_] = None"

lemma hex_decode_pairs: "hex_decode (concat (map hex_pair s)) = Some s"
proof (induction s)
  case Nil
  then show ?case by simp
next
  case (Cons c s)
  obtain h l where hl: "hex_pair c = [h, l]" by (simp add: hex_pair_def)
  have "hex_digit h = Some (byte c div 16)" "hex_digit l = Some (byte c mod 16)"
    using hex_pair_digits [of c] hl by auto
  moreover have "char_of (16 * (byte c div 16) + byte c mod 16) = c" by simp
  ultimately show ?case using Cons hl by simp
qed

lemma buffer_copy_string_hex_decode:
  assumes "buf_wf b" and "in_len = length s" and "2 * in_len < 2 ^ LONG_BITS"
  shows "\<exists>b' t. buffer_copy_string_hex b s in_len = Some (0, b') \<and> buf_repr b' (Some t)
    \<and> hex_decode t = Some s"
proof -
  let ?t = "concat (map hex_pair s)"
  have len: "length ?t = 2 * in_len" using assms(2) by (induction s arbitrary: in_len) (auto simp: hex_pair_def)
  have "\<not> in_len * 2 mod 2 ^ LONG_BITS < in_len" using assms(3) by (simp add: mult.commute)
  with len assms prepare_copy_spec [OF assms(1), of "in_len * 2 + 1"]
  have "\<exists>b'. buffer_copy_string_hex b s in_len = Some (0, b') \<and> buf_repr b' (Some ?t)"
    by (auto simp: buffer_copy_string_hex_def mread_def mwrite_def buf_repr_def buf_wf_def Let_def)
  then show ?thesis using hex_decode_pairs by blast
qed

section \<open>Properties\<close>

text \<open>Appending an \<open>off_t\<close> stays inside the 32 bytes reserved for it, keeps what the buffer held,
  and the appended text reads back as the number; only the least \<open>off_t\<close> overflows.\<close>

theorem append_off_t_reads_back:
  assumes "buf_repr b v" and "\<bar>val\<bar> < 2 ^ (OFF_T_BITS - 1)"
  shows "\<exists>b' t. buffer_append_off_t (Some b) val = Some (0, Some b') \<and> buf_repr b' (Some (bval v @ t))
    \<and> read_int t = val \<and> length t \<le> 20"
proof -
  have "\<bar>val\<bar> < 2 ^ 63" using assms(2) by (simp add: OFF_T_BITS_def)
  with buffer_append_off_t_repr [OF assms] read_int_show_int [of val] show_int_length [of val]
  show ?thesis by blast
qed

theorem append_off_t_reads_back_witness:
  "\<exists>b' t. buffer_append_off_t (Some buffer_init) (-120) = Some (0, Some b') \<and> buf_repr b' (Some t) \<and> read_int t = -120"
  using append_off_t_reads_back [OF buf_repr_init, of "-120"] by (auto simp: OFF_T_BITS_def)

text \<open>The hexadecimal dump of a string decodes to the string, and the hexadecimal digits of a number
  have an even count and the value of the number.\<close>

theorem hex_dump_decodes:
  assumes "buf_wf b" and "2 * length s < 2 ^ LONG_BITS"
  shows "(\<exists>b' t. buffer_copy_string_hex b s (length s) = Some (0, b') \<and> buf_repr b' (Some t) \<and> hex_decode t = Some s)
    \<and> hex_value (hex_out val (hex_shift val)) = val \<and> even (length (hex_out val (hex_shift val)))"
  using buffer_copy_string_hex_decode [OF assms(1) refl assms(2)] hex_out_value [of val] hex_shift_even [of val]
  by simp

theorem hex_dump_decodes_witness:
  "\<exists>b' t. buffer_copy_string_hex buffer_init ''ab'' (length ''ab'') = Some (0, b')
    \<and> buf_repr b' (Some t) \<and> hex_decode t = Some ''ab''"
proof -
  have "buf_wf buffer_init" by (simp add: buf_wf_def buffer_init_def)
  moreover have "2 * length ''ab'' < 2 ^ LONG_BITS" by (simp add: LONG_BITS_def)
  ultimately show ?thesis using hex_dump_decodes by blast
qed

end
