(* ===== verification/Buffer_Encode.thy ===== *)
theory Buffer_Encode imports Buffer_Number begin

unbundle bit_operations_syntax

text \<open>
  Percent, entity and hexadecimal encoding of strings and URL decoding (\<open>src/src/buffer.c\<close>:
  \<open>buffer_append_string_encoded\<close> with its tables, \<open>buffer_urldecode_path\<close>, \<open>buffer_urldecode_query\<close>).
  The decoder works in place: it is modelled on the cells of the block and proved equal to a function
  on strings, which undoes the encoder.
\<close>

section \<open>The tables\<close>

datatype buffer_encoding =
  ENCODING_UNSET | ENCODING_REL_URI | ENCODING_REL_URI_PART | ENCODING_HTML | ENCODING_MINIMAL_XML
  | ENCODING_HEX | ENCODING_HTTP_HEADER

definition ones :: "nat list" where
  "ones = [1, 1, 1, 1, 1, 1, 1, 1, 1, 1, 1, 1, 1, 1, 1, 1]"

definition zeros :: "nat list" where
  "zeros = [0, 0, 0, 0, 0, 0, 0, 0, 0, 0, 0, 0, 0, 0, 0, 0]"

definition encoded_chars_rel_uri_part :: "nat list" where
  "encoded_chars_rel_uri_part = concat
     [ones, ones,
      [1, 0, 1, 1, 1, 1, 1, 1, 0, 0, 0, 1, 1, 0, 0, 1],
      [0, 0, 0, 0, 0, 0, 0, 0, 0, 0, 1, 1, 1, 1, 1, 1],
      [1, 0, 0, 0, 0, 0, 0, 0, 0, 0, 0, 0, 0, 0, 0, 0],
      [0, 0, 0, 0, 0, 0, 0, 0, 0, 0, 0, 1, 1, 1, 1, 0],
      [1, 0, 0, 0, 0, 0, 0, 0, 0, 0, 0, 0, 0, 0, 0, 0],
      [0, 0, 0, 0, 0, 0, 0, 0, 0, 0, 0, 1, 1, 1, 1, 1],
      ones, ones, ones, ones, ones, ones, ones, ones]"

definition encoded_chars_rel_uri :: "nat list" where
  "encoded_chars_rel_uri = concat
     [ones, ones,
      [1, 0, 1, 1, 1, 1, 1, 1, 0, 0, 0, 1, 1, 0, 0, 0],
      [0, 0, 0, 0, 0, 0, 0, 0, 0, 0, 1, 1, 1, 1, 1, 1],
      [1, 0, 0, 0, 0, 0, 0, 0, 0, 0, 0, 0, 0, 0, 0, 0],
      [0, 0, 0, 0, 0, 0, 0, 0, 0, 0, 0, 1, 1, 1, 1, 0],
      [1, 0, 0, 0, 0, 0, 0, 0, 0, 0, 0, 0, 0, 0, 0, 0],
      [0, 0, 0, 0, 0, 0, 0, 0, 0, 0, 0, 1, 1, 1, 1, 1],
      ones, ones, ones, ones, ones, ones, ones, ones]"

definition encoded_chars_html :: "nat list" where
  "encoded_chars_html = concat
     [ones, ones,
      [0, 0, 0, 0, 0, 0, 1, 0, 0, 0, 0, 0, 0, 0, 0, 0],
      [0, 0, 0, 0, 0, 0, 0, 0, 0, 0, 0, 0, 1, 0, 1, 0],
      zeros, zeros, zeros,
      [0, 0, 0, 0, 0, 0, 0, 0, 0, 0, 0, 0, 0, 0, 0, 1],
      ones, ones, ones, ones, ones, ones, ones, ones]"

definition encoded_chars_minimal_xml :: "nat list" where
  "encoded_chars_minimal_xml = concat
     [ones, ones,
      [0, 0, 0, 0, 0, 0, 1, 0, 0, 0, 0, 0, 0, 0, 0, 0],
      [0, 0, 0, 0, 0, 0, 0, 0, 0, 0, 0, 0, 1, 0, 1, 0],
      zeros, zeros, zeros,
      [0, 0, 0, 0, 0, 0, 0, 0, 0, 0, 0, 0, 0, 0, 0, 1],
      zeros, zeros, zeros, zeros, zeros, zeros, zeros, zeros]"

definition encoded_chars_hex :: "nat list" where
  "encoded_chars_hex = concat
     [ones, ones, ones, ones, ones, ones, ones, ones, ones, ones, ones, ones, ones, ones, ones, ones]"

definition encoded_chars_http_header :: "nat list" where
  "encoded_chars_http_header = concat
     [[0, 0, 0, 0, 0, 0, 0, 0, 0, 0, 1, 0, 0, 0, 0, 0],
      zeros, zeros, zeros, zeros, zeros, zeros, zeros, zeros, zeros, zeros, zeros, zeros, zeros, zeros, zeros]"


fun encoding_map :: "buffer_encoding \<Rightarrow> nat list option" where
  "encoding_map ENCODING_REL_URI = Some encoded_chars_rel_uri"
| "encoding_map ENCODING_REL_URI_PART = Some encoded_chars_rel_uri_part"
| "encoding_map ENCODING_HTML = Some encoded_chars_html"
| "encoding_map ENCODING_MINIMAL_XML = Some encoded_chars_minimal_xml"
| "encoding_map ENCODING_HEX = Some encoded_chars_hex"
| "encoding_map ENCODING_HTTP_HEADER = Some encoded_chars_http_header"
| "encoding_map ENCODING_UNSET = None"

section \<open>Encoding\<close>

text \<open>The counting pass and the writing pass, one character each.\<close>

definition encoded_count :: "buffer_encoding \<Rightarrow> nat list \<Rightarrow> char \<Rightarrow> nat" where
  "encoded_count encoding tab ds =
     (if tab ! byte ds \<noteq> 0 then
        (case encoding of
           ENCODING_REL_URI \<Rightarrow> 3 | ENCODING_REL_URI_PART \<Rightarrow> 3
         | ENCODING_HTML \<Rightarrow> 6 | ENCODING_MINIMAL_XML \<Rightarrow> 6
         | ENCODING_HTTP_HEADER \<Rightarrow> 2 | ENCODING_HEX \<Rightarrow> 2
         | ENCODING_UNSET \<Rightarrow> 0)
      else 1)"

definition hex_byte :: "char \<Rightarrow> char list" where
  "hex_byte ds = [hex_char (int (drop_bit 4 (byte ds))), hex_char (int (byte ds))]"

definition encoded_char :: "buffer_encoding \<Rightarrow> nat list \<Rightarrow> char \<Rightarrow> char list" where
  "encoded_char encoding tab ds =
     (if tab ! byte ds \<noteq> 0 then
        (case encoding of
           ENCODING_REL_URI \<Rightarrow> CHR ''%'' # hex_byte ds
         | ENCODING_REL_URI_PART \<Rightarrow> CHR ''%'' # hex_byte ds
         | ENCODING_HTML \<Rightarrow> ''&#x'' @ hex_byte ds @ '';''
         | ENCODING_MINIMAL_XML \<Rightarrow> ''&#x'' @ hex_byte ds @ '';''
         | ENCODING_HEX \<Rightarrow> hex_byte ds
         | ENCODING_HTTP_HEADER \<Rightarrow> [ds, CHR 0x09]
         | ENCODING_UNSET \<Rightarrow> [])
      else [ds])"

text \<open>A buffer not yet used has no last character to look at: \<open>b->ptr[b->used - 1]\<close> is outside the
  block.\<close>

definition buffer_append_string_encoded ::
  "bufp \<Rightarrow> char list option \<Rightarrow> nat \<Rightarrow> buffer_encoding \<Rightarrow> (int \<times> bufp) option" where
  "buffer_append_string_encoded bo so s_len encoding =
     (case (so, bo) of
        (Some s, Some b) \<Rightarrow> do {
          lst \<leftarrow> (if bused b = 0 then None else mread_init (bused b - 1) 1 (bptr b));
          if lst \<noteq> [NUL] then None
          else if s_len = 0 then Some (0, bo)
          else do {
            tab \<leftarrow> encoding_map encoding;
            xs \<leftarrow> mread 0 s_len s;
            let b = prepare_append b (sum_list (map (encoded_count encoding tab) xs));
            let d = concat (map (encoded_char encoding tab) xs);
            m \<leftarrow> mwrite (bused b - 1) (map Some (d @ [NUL])) (bptr b);
            Some (0, Some (b\<lparr>bptr := m, bused := bused b + length d\<rparr>)) } }
      | _ \<Rightarrow> Some (-1, bo))"

text \<open>The characters the comments of the tables name.\<close>

definition byte_in :: "char \<Rightarrow> char list \<Rightarrow> bool" where
  "byte_in c s \<longleftrightarrow> byte c \<in> set (map byte s)"

lemma byte_in_iff [simp]: "byte_in c s \<longleftrightarrow> c \<in> set s"
  by (auto simp: byte_in_def)

definition uri_unreserved :: "char \<Rightarrow> bool" where
  "uri_unreserved c \<longleftrightarrow>
     byte CHR ''0'' \<le> byte c \<and> byte c \<le> byte CHR ''9'' \<or>
     byte CHR ''A'' \<le> byte c \<and> byte c \<le> byte CHR ''Z'' \<or>
     byte CHR ''a'' \<le> byte c \<and> byte c \<le> byte CHR ''z'' \<or> byte_in c ''!()*-._''"

definition must_encode :: "buffer_encoding \<Rightarrow> char \<Rightarrow> bool" where
  "must_encode encoding c \<longleftrightarrow>
     (case encoding of
        ENCODING_REL_URI \<Rightarrow> \<not> (uri_unreserved c \<or> byte_in c ''/'')
      | ENCODING_REL_URI_PART \<Rightarrow> \<not> uri_unreserved c
      | ENCODING_HTML \<Rightarrow> byte c < 32 \<or> byte c \<ge> 127 \<or> byte_in c ''&<>''
      | ENCODING_MINIMAL_XML \<Rightarrow> byte c < 32 \<or> byte c = 127 \<or> byte_in c ''&<>''
      | ENCODING_HEX \<Rightarrow> True
      | ENCODING_HTTP_HEADER \<Rightarrow> byte_in c [CHR 0x0A]
      | ENCODING_UNSET \<Rightarrow> False)"

text \<open>Each table is checked entry by entry, as a list of truth values over the byte codes.\<close>

lemma table_nth:
  assumes "map ((\<noteq>) 0) tab = map P [0..<256]" and "\<And>c. P (byte c) \<longleftrightarrow> Q c"
  shows "tab ! byte c \<noteq> 0 \<longleftrightarrow> Q c"
proof -
  have "length tab = 256" using assms(1) by (metis length_map length_upt diff_zero)
  then have "map ((\<noteq>) 0) tab ! byte c \<longleftrightarrow> tab ! byte c \<noteq> 0" by (subst nth_map) auto
  moreover have "map P [0..<256] ! byte c \<longleftrightarrow> Q c" using assms(2) by simp
  ultimately show ?thesis using assms(1) by simp
qed

fun must_encode_code :: "buffer_encoding \<Rightarrow> nat \<Rightarrow> bool" where
  "must_encode_code ENCODING_REL_URI n \<longleftrightarrow>
     \<not> (48 \<le> n \<and> n \<le> 57 \<or> 65 \<le> n \<and> n \<le> 90 \<or> 97 \<le> n \<and> n \<le> 122 \<or>
        n \<in> set [33, 40, 41, 42, 45, 46, 95] \<or> n = 47)"
| "must_encode_code ENCODING_REL_URI_PART n \<longleftrightarrow>
     \<not> (48 \<le> n \<and> n \<le> 57 \<or> 65 \<le> n \<and> n \<le> 90 \<or> 97 \<le> n \<and> n \<le> 122 \<or>
        n \<in> set [33, 40, 41, 42, 45, 46, 95])"
| "must_encode_code ENCODING_HTML n \<longleftrightarrow> n < 32 \<or> n \<ge> 127 \<or> n \<in> set [38, 60, 62]"
| "must_encode_code ENCODING_MINIMAL_XML n \<longleftrightarrow> n < 32 \<or> n = 127 \<or> n \<in> set [38, 60, 62]"
| "must_encode_code ENCODING_HEX n \<longleftrightarrow> True"
| "must_encode_code ENCODING_HTTP_HEADER n \<longleftrightarrow> n = 10"
| "must_encode_code ENCODING_UNSET n \<longleftrightarrow> False"

lemma must_encode_code: "must_encode_code e (byte c) \<longleftrightarrow> must_encode e c"
  by (cases e) (simp_all add: must_encode_def uri_unreserved_def byte_in_def del: byte_in_iff)

lemma upt_rows: "concat (map (\<lambda>i. [16 * i..<16 * i + 16]) [0..<k]) = [0..<16 * k :: nat]"
proof (induction k)
  case 0
  then show ?case by simp
next
  case (Suc k)
  have "[0..<16 * Suc k] = [0..<16 * k] @ [16 * k..<16 * k + 16]"
    using upt_add_eq_append [of 0 "16 * k" 16] by (simp only: mult_Suc_right add.commute)
  with Suc show ?case by simp
qed

lemma upt_256: "[0..<256] = concat (map (\<lambda>i. [16 * i..<16 * i + 16]) [0..<16 :: nat])"
  unfolding upt_rows by (simp only: mult_numeral_1 arith_simps num.simps)

lemma table_rowsI:
  assumes "map (map ((\<noteq>) 0)) rows = map (\<lambda>i. map P [16 * i..<16 * i + 16]) [0..<16]"
  shows "map ((\<noteq>) 0) (concat rows) = map P [0..<256]"
proof -
  have "concat (map (map ((\<noteq>) 0)) rows) = concat (map (\<lambda>i. map P [16 * i..<16 * i + 16]) [0..<16])"
    using assms by simp
  then show ?thesis unfolding upt_256 map_concat map_map comp_def .
qed

lemma upt_16: "[0..<16] = [0, 1, 2, 3, 4, 5, 6, 7, 8, 9, 10, 11, 12, 13, 14, 15 :: nat]"
  by (simp add: upt_conv_Cons)

lemmas row_simps = upt_conv_Cons ones_def zeros_def

lemma encoding_table:
  assumes "encoding_map e = Some tab"
  shows "tab ! byte c \<noteq> 0 \<longleftrightarrow> must_encode e c"
proof (rule table_nth [where P = "must_encode_code e"])
  show "map ((\<noteq>) 0) tab = map (must_encode_code e) [0..<256]"
  proof (cases e)
    case ENCODING_UNSET
    with assms show ?thesis by simp
  next
    case ENCODING_REL_URI
    with assms have tab: "tab = encoded_chars_rel_uri" by simp
    show ?thesis unfolding tab ENCODING_REL_URI encoded_chars_rel_uri_def
      by (rule table_rowsI, unfold upt_16 list.map must_encode_code.simps) (simp add: row_simps)
  next
    case ENCODING_REL_URI_PART
    with assms have tab: "tab = encoded_chars_rel_uri_part" by simp
    show ?thesis unfolding tab ENCODING_REL_URI_PART encoded_chars_rel_uri_part_def
      by (rule table_rowsI, unfold upt_16 list.map must_encode_code.simps) (simp add: row_simps)
  next
    case ENCODING_HTML
    with assms have tab: "tab = encoded_chars_html" by simp
    show ?thesis unfolding tab ENCODING_HTML encoded_chars_html_def
      by (rule table_rowsI, unfold upt_16 list.map must_encode_code.simps) (simp add: row_simps)
  next
    case ENCODING_MINIMAL_XML
    with assms have tab: "tab = encoded_chars_minimal_xml" by simp
    show ?thesis unfolding tab ENCODING_MINIMAL_XML encoded_chars_minimal_xml_def
      by (rule table_rowsI, unfold upt_16 list.map must_encode_code.simps) (simp add: row_simps)
  next
    case ENCODING_HEX
    with assms have tab: "tab = encoded_chars_hex" by simp
    show ?thesis unfolding tab ENCODING_HEX encoded_chars_hex_def
      by (rule table_rowsI, unfold upt_16 list.map must_encode_code.simps) (simp add: row_simps)
  next
    case ENCODING_HTTP_HEADER
    with assms have tab: "tab = encoded_chars_http_header" by simp
    show ?thesis unfolding tab ENCODING_HTTP_HEADER encoded_chars_http_header_def
      by (rule table_rowsI, unfold upt_16 list.map must_encode_code.simps) (simp add: row_simps)
  qed
qed (rule must_encode_code)

lemma length_encoded_char:
  "encoding_map e = Some tab \<Longrightarrow> length (encoded_char e tab c) = encoded_count e tab c"
  by (cases e) (auto simp: encoded_char_def encoded_count_def hex_byte_def)

text \<open>The abstract encoder.\<close>

definition encode :: "buffer_encoding \<Rightarrow> char list \<Rightarrow> char list" where
  "encode e s = concat (map (encoded_char e (the (encoding_map e))) s)"

lemma buffer_append_string_encoded_repr:
  assumes repr: "buf_repr b (Some t)" and n: "n \<le> length s" and e: "e \<noteq> ENCODING_UNSET"
  shows "\<exists>b'. buffer_append_string_encoded (Some b) (Some s) n e = Some (0, Some b')
    \<and> buf_repr b' (Some (t @ encode e (take n s)))"
proof -
  obtain tab where tab: "encoding_map e = Some tab" using e by (cases e) auto
  have used: "bused b = length t + 1" using repr by (simp add: buf_repr_def)
  obtain r where cells: "bptr b = map Some t @ Some NUL # r" using repr buf_repr_cells by blast
  have lst: "mread_init (bused b - 1) 1 (bptr b) = Some [NUL]"
    using used cells by (simp add: mread_init_def mread_def)
  define k where "k = sum_list (map (encoded_count e tab) (take n s))"
  define d where "d = concat (map (encoded_char e tab) (take n s))"
  have k: "k = length d"
    unfolding k_def d_def by (simp add: length_concat comp_def length_encoded_char [OF tab])
  define b1 where "b1 = prepare_append b k"
  note pa = prepare_append_spec [OF buf_repr_wf [OF repr], of k]
  have "\<exists>m. mwrite (bused b1 - 1) (map Some (d @ [NUL])) (bptr b1) = Some m
      \<and> buf_repr (b1\<lparr>bptr := m, bused := bused b1 + length d\<rparr>) (Some (bval (Some t) @ d))"
    using pa used k by (intro write_at_end_repr [OF repr]) (auto simp: b1_def)
  then show ?thesis
    using repr used lst tab n
    by (cases "n = 0") (auto simp: buffer_append_string_encoded_def mread_def k_def [symmetric]
        d_def [symmetric] b1_def [symmetric] encode_def Let_def)
qed

section \<open>URL decoding\<close>

text \<open>\<open>*p\<close> for a pointer into the block: an out-of-range or uninitialised cell is a fault.\<close>

definition cell_at :: "nat \<Rightarrow> cell list \<Rightarrow> char option" where
  "cell_at i m = (if i < length m then m ! i else None)"

definition map_control :: "8 word \<Rightarrow> char" where
  "map_control high = (if high < 32 \<or> high = 127 then CHR ''_'' else char_of (unat high))"

text \<open>The two digits after a percent sign; the second is not looked at unless the first is a digit.\<close>

definition percent_byte :: "nat \<Rightarrow> cell list \<Rightarrow> char option option" where
  "percent_byte src m = do {
     c1 \<leftarrow> cell_at (src + 1) m;
     let high = hex2int c1;
     if high \<noteq> 0xFF then do {
       c2 \<leftarrow> cell_at (src + 2) m;
       let low = hex2int c2;
       if low \<noteq> 0xFF then Some (Some (map_control (push_bit 4 high OR low)))
       else Some None }
     else Some None }"

function urldecode_loop :: "bool \<Rightarrow> cell list \<Rightarrow> nat \<Rightarrow> nat \<Rightarrow> (cell list \<times> nat) option" where
  "urldecode_loop is_query m src dst =
     (case cell_at src m of
        None \<Rightarrow> None
      | Some c \<Rightarrow>
          if c = NUL then Some (m, dst)
          else if dst \<ge> length m then None
          else if is_query \<and> c = CHR ''+'' then
            urldecode_loop is_query (m[dst := Some (CHR '' '')]) (src + 1) (dst + 1)
          else if c = CHR ''%'' then
            (case percent_byte src (m[dst := Some (CHR ''%'')]) of
               None \<Rightarrow> None
             | Some None \<Rightarrow> urldecode_loop is_query (m[dst := Some (CHR ''%'')]) (src + 1) (dst + 1)
             | Some (Some high) \<Rightarrow> urldecode_loop is_query (m[dst := Some high]) (src + 3) (dst + 1))
          else urldecode_loop is_query (m[dst := Some c]) (src + 1) (dst + 1))"
  by pat_completeness auto
termination
  by (relation "measure (\<lambda>(q, m, src, dst). length m - src)") (auto simp: cell_at_def split: if_splits)

declare urldecode_loop.simps [simp del]

text \<open>The pointer of a buffer that was never given storage is NULL.\<close>

definition buffer_urldecode_internal :: "bufp \<Rightarrow> bool \<Rightarrow> (int \<times> bufp) option" where
  "buffer_urldecode_internal url is_query =
     (case url of
        None \<Rightarrow> Some (-1, url)
      | Some b \<Rightarrow>
          if bsize b = 0 then Some (-1, url)
          else do {
            (m, dst) \<leftarrow> urldecode_loop is_query (bptr b) 0 0;
            m \<leftarrow> mwrite dst [Some NUL] m;
            Some (0, Some (b\<lparr>bptr := m, bused := dst + 1\<rparr>)) })"

definition buffer_urldecode_path :: "bufp \<Rightarrow> (int \<times> bufp) option" where
  "buffer_urldecode_path url = buffer_urldecode_internal url False"

definition buffer_urldecode_query :: "bufp \<Rightarrow> (int \<times> bufp) option" where
  "buffer_urldecode_query url = buffer_urldecode_internal url True"

text \<open>The decoder on strings.\<close>

definition printable_code :: "nat \<Rightarrow> char" where
  "printable_code n = (if n < 32 \<or> n = 127 then CHR ''_'' else char_of n)"

fun hex_digits :: "char list \<Rightarrow> (nat \<times> char list) option" where
  "hex_digits (h # l # s) =
     (case (hex_digit h, hex_digit l) of (Some x, Some y) \<Rightarrow> Some (16 * x + y, s) | _ \<Rightarrow> None)"
| "hex_digits _ = None"

lemma hex_digits_length: "hex_digits s = Some (n, r) \<Longrightarrow> length s = Suc (Suc (length r))"
  by (induction s rule: hex_digits.induct) (auto split: option.splits)

function urldecode :: "bool \<Rightarrow> char list \<Rightarrow> char list" where
  "urldecode q [] = []"
| "urldecode q (c # s) =
     (if q \<and> c = CHR ''+'' then CHR '' '' # urldecode q s
      else if c = CHR ''%'' then
        (case hex_digits s of
           Some (n, r) \<Rightarrow> printable_code n # urldecode q r
         | None \<Rightarrow> CHR ''%'' # urldecode q s)
      else c # urldecode q s)"
  by pat_completeness auto
termination
  by (relation "measure (\<lambda>(q, s). length s)") (auto dest: hex_digits_length)

lemma hex_digit_less: "hex_digit c = Some n \<Longrightarrow> n < 16"
  by (auto simp: hex_digit_def split: if_splits)

lemma hex2int_digit: "hex_digit c = Some n \<Longrightarrow> hex2int c = of_nat n"
  and hex2int_no_digit: "hex_digit c = None \<Longrightarrow> hex2int c = 0xFF"
  by (simp_all add: hex2int_eq)

lemma hex2int_valid: "hex2int c \<noteq> 0xFF \<longleftrightarrow> hex_digit c \<noteq> None"
proof (cases "hex_digit c")
  case None
  then show ?thesis by (simp add: hex2int_no_digit)
next
  case (Some n)
  then have "unat (of_nat n :: 8 word) = n" 
    using hex_digit_less [OF Some] by (simp add: unsigned_of_nat take_bit_nat_eq_self)
  moreover have "unat (0xFF :: 8 word) = 255" by simp
  ultimately have "(of_nat n :: 8 word) \<noteq> 0xFF" using hex_digit_less [OF Some] by force
  with Some show ?thesis by (simp add: hex2int_digit)
qed

lemma unat_hex_pair:
  assumes "x < 16" and "y < 16"
  shows "unat (push_bit 4 (of_nat x) OR of_nat y :: 8 word) = 16 * x + y"
proof -
  have "push_bit 4 (of_nat x) AND (of_nat y :: 8 word) = 0"
  proof (rule bit_word_eqI)
    fix n assume "n < LENGTH(8)"
    have "\<not> bit y n" if "4 \<le> n"
    proof -
      have "y < 2 ^ n" using assms(2) that power_increasing [of 4 n "2 :: nat"] by simp
      then show ?thesis by (simp add: bit_iff_odd)
    qed
    then show "bit (push_bit 4 (of_nat x) AND (of_nat y :: 8 word)) n = bit (0 :: 8 word) n"
      by (auto simp: bit_simps)
  qed
  then have "push_bit 4 (of_nat x) OR of_nat y = push_bit 4 (of_nat x) + (of_nat y :: 8 word)"
    by (simp add: disjunctive_add_eq_or)
  also have "\<dots> = of_nat (16 * x + y)" by (simp add: push_bit_eq_mult)
  finally show ?thesis using assms by (simp add: unsigned_of_nat take_bit_nat_eq_self del: of_nat_add of_nat_mult)
qed

lemma map_control_code:
  assumes "x < 16" and "y < 16"
  shows "map_control (push_bit 4 (of_nat x) OR of_nat y) = printable_code (16 * x + y)"
proof -
  let ?w = "push_bit 4 (of_nat x) OR of_nat y :: 8 word"
  have u: "unat ?w = 16 * x + y" using assms by (rule unat_hex_pair)
  have "?w < 32 \<longleftrightarrow> unat ?w < 32" by (simp add: word_less_nat_alt)
  moreover have "?w = 127 \<longleftrightarrow> unat ?w = 127" by (simp add: word_unat_eq_iff)
  ultimately show ?thesis by (simp only: map_control_def printable_code_def u)
qed

lemma cell_at_append [simp]: "cell_at (length pre + i) (pre @ m) = cell_at i m"
  by (simp add: cell_at_def nth_append)

lemma hex2int_NUL: "hex2int NUL = 0xFF"
  by (rule hex2int_no_digit) (simp add: hex_digit_def)

lemma percent_byte_string:
  assumes "NUL \<notin> set s" and len: "length pre = src + 1"
  shows "percent_byte src (pre @ map Some s @ Some NUL # r) =
    Some (case hex_digits s of Some (n, t) \<Rightarrow> Some (printable_code n) | None \<Rightarrow> None)"
proof -
  have at1: "cell_at (Suc src) (pre @ x # m) = x" for x m
    using cell_at_append [of pre 0 "x # m"] len by (simp add: cell_at_def)
  have at2: "cell_at (Suc (Suc src)) (pre @ x # y # m) = y" for x y m
    using cell_at_append [of pre 1 "x # y # m"] len by (simp add: cell_at_def)
  note ats = percent_byte_def at1 at2 Let_def hex2int_valid
  show ?thesis
  proof (cases s rule: hex_digits.cases)
    case (1 h l t)
    show ?thesis
    proof (cases "hex_digit h")
      case None
      with 1 show ?thesis by (simp add: ats)
    next
      case (Some x)
      note x = Some
      show ?thesis
      proof (cases "hex_digit l")
        case None
        with 1 x show ?thesis by (simp add: ats)
      next
        case (Some y)
        with 1 x show ?thesis
          using map_control_code [OF hex_digit_less [OF x] hex_digit_less [OF Some]]
          by (simp add: ats) (simp add: hex2int_digit)
      qed
    qed
  next
    case "2_1"
    then show ?thesis by (simp add: percent_byte_def at1 hex2int_NUL)
  next
    case "2_2"
    then obtain v where s: "s = [v]" by auto
    have "hex_digit NUL = None" by (simp add: hex_digit_def)
    with s show ?thesis by (cases "hex_digit v") (simp_all add: ats)
  qed
qed

lemma list_update_front: "(map Some out @ y # t)[length out := x] = map Some out @ x # t"
  by (simp add: list_update_append)

lemma urldecode_loop_string:
  assumes "NUL \<notin> set s"
  shows "\<exists>rest. urldecode_loop q (map Some out @ junk @ map Some s @ Some NUL # r)
      (length out + length junk) (length out)
    = Some (map Some (out @ urldecode q s) @ rest, length out + length (urldecode q s))
    \<and> length out + length (urldecode q s) + length rest
      = length out + length junk + length s + 1 + length r \<and> rest \<noteq> []"
  using assms
proof (induction q s arbitrary: out junk rule: urldecode.induct)
  case (1 q)
  then show ?case by (simp add: urldecode_loop.simps cell_at_def nth_append)
next
  case (2 q c s)
  let ?tail = "map Some s @ Some NUL # r"
  let ?m = "map Some out @ junk @ Some c # ?tail"
  from "2.prems" have c: "c \<noteq> NUL" and s: "NUL \<notin> set s" by auto
  obtain y junk1 where j1: "junk @ [Some c] = y # junk1" by (cases "junk @ [Some c]") auto
  have len1: "length junk1 = length junk" using arg_cong [OF j1, of length] by simp
  have m: "?m = map Some out @ y # junk1 @ ?tail" using arg_cong [OF j1, of "\<lambda>x. x @ ?tail"] by simp
  have upd: "?m[length out := x] = map Some out @ x # junk1 @ ?tail" for x
    unfolding m by (rule list_update_front)
  have at: "cell_at (length out + length junk) ?m = Some c" by (simp add: cell_at_def nth_append)
  have room: "(length out \<ge> length ?m) = False" by simp
  have pb: "percent_byte (length out + length junk) (map Some out @ Some CHR ''%'' # junk1 @ ?tail)
      = Some (case hex_digits s of Some (n, t) \<Rightarrow> Some (printable_code n) | None \<Rightarrow> None)"
    using percent_byte_string [OF s, of "map Some out @ Some CHR ''%'' # junk1"] len1 by simp
  have next1: "map Some out @ Some d # junk1 @ ?tail = map Some (out @ [d]) @ junk1 @ ?tail" for d
    by simp
  have step: "urldecode_loop q ?m (length out + length junk) (length out) =
     (if q \<and> c = CHR ''+'' then
        urldecode_loop q (map Some (out @ [CHR '' '']) @ junk1 @ ?tail) (length out + length junk + 1) (length out + 1)
      else if c = CHR ''%'' then
        (case hex_digits s of
           None \<Rightarrow> urldecode_loop q (map Some (out @ [CHR ''%'']) @ junk1 @ ?tail) (length out + length junk + 1) (length out + 1)
         | Some (n, t) \<Rightarrow> urldecode_loop q (map Some (out @ [printable_code n]) @ junk1 @ ?tail) (length out + length junk + 3) (length out + 1))
      else urldecode_loop q (map Some (out @ [c]) @ junk1 @ ?tail) (length out + length junk + 1) (length out + 1))"
    unfolding urldecode_loop.simps [of q ?m "length out + length junk" "length out"] at option.case upd room pb
    by (cases "hex_digits s") (simp_all add: c split: prod.split)
  consider (plus) "q \<and> c = CHR ''+''" | (pct) "\<not> (q \<and> c = CHR ''+'')" "c = CHR ''%''"
    | (other) "\<not> (q \<and> c = CHR ''+'')" "c \<noteq> CHR ''%''" by blast
  then show ?case
  proof cases
    case plus
    from "2.IH"(1) [OF plus s, of "out @ [CHR '' '']" junk1] plus show ?thesis
      unfolding list.map append_Cons step by (simp add: len1)
  next
    case other
    from other(1) have no: "(q \<and> c = CHR ''+'') = False" by blast
    from "2.IH"(4) [OF other s, of "out @ [c]" junk1] other(2) show ?thesis
      unfolding list.map append_Cons step urldecode.simps no by (simp add: len1)
  next
    case pct
    show ?thesis
    proof (cases "hex_digits s")
      case None
      from "2.IH"(2) [OF pct None s, of "out @ [CHR ''%'']" junk1] pct None show ?thesis
        unfolding list.map append_Cons step by (simp add: len1)
    next
      case (Some p)
      then obtain n t where nt: "hex_digits s = Some (n, t)" by (cases p) auto
      then obtain h l where hl: "s = h # l # t" by (cases s rule: hex_digits.cases) (auto split: option.splits)
      with s have t: "NUL \<notin> set t" by simp
      from "2.IH"(3) [OF pct nt refl t, of "out @ [printable_code n]" "junk1 @ [Some h, Some l]"] pct nt hl
      show ?thesis unfolding list.map append_Cons step by (simp add: len1 numeral_3_eq_3)
    qed
  qed
qed

text \<open>Decoding in place never leaves the block and computes \<open>urldecode\<close>.\<close>

lemma buffer_urldecode_repr:
  assumes "buf_repr b (Some s)" and "NUL \<notin> set s"
  shows "\<exists>b'. buffer_urldecode_internal (Some b) q = Some (0, Some b')
    \<and> buf_repr b' (Some (urldecode q s))"
proof -
  obtain r where cells: "bptr b = map Some s @ Some NUL # r" using assms(1) buf_repr_cells by blast
  from assms(1) have wf: "length (bptr b) = bsize b" by (simp add: buf_repr_def buf_wf_def)
  from urldecode_loop_string [OF assms(2), of q "[]" "[]" r] obtain rest where
    loop: "urldecode_loop q (bptr b) 0 0 = Some (map Some (urldecode q s) @ rest, length (urldecode q s))"
    and len: "length (urldecode q s) + length rest = length (bptr b)" and "rest \<noteq> []"
    by (auto simp: cells)
  moreover from \<open>rest \<noteq> []\<close> obtain x xs where "rest = x # xs" by (cases rest) auto
  moreover have "bsize b \<noteq> 0" using wf cells by auto
  ultimately show ?thesis
    using wf by (auto simp: buffer_urldecode_internal_def mwrite_def buf_repr_def buf_wf_def)
qed

section \<open>What the codecs guarantee\<close>

lemma length_urldecode: "length (urldecode q s) \<le> length s"
proof (induction q s rule: urldecode.induct)
  case (2 q c s)
  show ?case
  proof (cases "hex_digits s")
    case None
    with 2 show ?thesis by auto
  next
    case (Some p)
    then obtain n t where nt: "hex_digits s = Some (n, t)" by (cases p) auto
    then have "q \<or> \<not> q \<Longrightarrow> length s = Suc (Suc (length t))" by (simp add: hex_digits_length)
    with 2 nt show ?thesis by force
  qed
qed simp

lemma hex_digits_set: "hex_digits s = Some (n, t) \<Longrightarrow> set t \<subseteq> set s"
  by (induction s rule: hex_digits.induct) (auto split: option.splits)

text \<open>Percent sequences cannot produce a control character, a CR, LF or NUL in particular.\<close>

abbreviation printable :: "char \<Rightarrow> bool" where
  "printable c \<equiv> 32 \<le> byte c \<and> byte c \<noteq> 127"

lemma printable_hex_digits:
  assumes "hex_digits s = Some (n, t)"
  shows "printable (printable_code n)"
proof -
  from assms obtain h l x y where "s = h # l # t" "hex_digit h = Some x" "hex_digit l = Some y" "n = 16 * x + y"
    by (cases s rule: hex_digits.cases) (auto split: option.splits)
  then have "n < 256" using hex_digit_less [of h x] hex_digit_less [of l y] by linarith
  then show ?thesis by (simp add: printable_code_def of_char_of)
qed

lemma urldecode_no_control:
  "list_all printable s \<Longrightarrow> list_all printable (urldecode q s)"
proof (induction q s rule: urldecode.induct)
  case (1 q)
  then show ?case by simp
next
  case (2 q c s)
  then have c: "printable c" and s: "list_all printable s" by auto
  show ?case
  proof (cases "hex_digits s")
    case None
    with "2.IH" c s show ?thesis by (cases "q \<and> c = CHR ''+''"; cases "c = CHR ''%''") auto
  next
    case (Some p)
    then obtain n t where nt: "hex_digits s = Some (n, t)" by (cases p) auto
    with s hex_digits_set [OF nt] have "list_all printable t" by (auto simp: list_all_iff)
    with "2.IH" nt c s printable_hex_digits [OF nt] show ?thesis
      by (cases "q \<and> c = CHR ''+''"; cases "c = CHR ''%''") auto
  qed
qed

lemma hex_digits_hex_byte: "hex_digits (hex_byte c @ s) = Some (byte c, s)"
proof -
  have "byte c div 16 < 16" using byte_less [of c] by linarith
  then show ?thesis by (simp add: hex_byte_def hex_digit_hex_char drop_bit_eq_div)
qed

text \<open>The URI encodings are undone by the decoder, up to the control characters it masks.\<close>

lemma urldecode_encode:
  assumes "e = ENCODING_REL_URI \<or> e = ENCODING_REL_URI_PART"
  shows "urldecode q (encode e s) = map (\<lambda>c. printable_code (byte c)) s"
proof -
  obtain tab where tab: "encoding_map e = Some tab" using assms by auto
  show ?thesis
  proof (induction s)
    case Nil
    then show ?case by (simp add: encode_def)
  next
    case (Cons c s)
    have enc: "encode e (c # s) = encoded_char e tab c @ encode e s" by (simp add: encode_def tab)
    show ?case
    proof (cases "tab ! byte c \<noteq> 0")
      case True
      with assms have "encoded_char e tab c = CHR ''%'' # hex_byte c" by (auto simp: encoded_char_def)
      with enc Cons show ?thesis by (simp add: hex_digits_hex_byte)
    next
      case False
      then have plain: "uri_unreserved c \<or> c = CHR ''/''"
        using encoding_table [OF tab, of c] assms by (auto simp: must_encode_def)
      then have "c \<noteq> CHR ''+'' \<and> c \<noteq> CHR ''%''" by (auto simp: uri_unreserved_def)
      moreover have "printable_code (byte c) = c"
        using plain by (auto simp: uri_unreserved_def printable_code_def)
      ultimately show ?thesis using False enc Cons by (simp add: encoded_char_def)
    qed
  qed
qed

text \<open>Encoded HTML and XML text contains no markup delimiter.\<close>

lemma encode_html_safe:
  assumes "e = ENCODING_HTML \<or> e = ENCODING_MINIMAL_XML"
  shows "CHR ''<'' \<notin> set (encode e s) \<and> CHR ''>'' \<notin> set (encode e s)"
proof -
  obtain tab where tab: "encoding_map e = Some tab" using assms by auto
  have hex: "d \<in> set (hex_byte c) \<Longrightarrow> d \<noteq> CHR ''<'' \<and> d \<noteq> CHR ''>''" for c d
    using hex_digit_hex_char [of "drop_bit 4 (byte c)"] hex_digit_hex_char [of "byte c"]
    by (auto simp: hex_byte_def hex_digit_def)
  have "d \<in> set (encoded_char e tab c) \<Longrightarrow> d \<noteq> CHR ''<'' \<and> d \<noteq> CHR ''>''" for c d
    using assms hex [of d c] encoding_table [OF tab, of c]
    by (auto simp: encoded_char_def must_encode_def split: if_splits)
  with tab show ?thesis by (auto simp: encode_def)
qed

section \<open>Properties\<close>

text \<open>C15: URL decoding works inside the block it decodes and computes the decoding of the string; the
  result is no longer than the input and, when the input has no control characters, neither has it:
  a percent sequence cannot smuggle in a CR, LF or NUL.\<close>

theorem urldecode_in_place:
  assumes "buf_repr b (Some s)" and "list_all printable s"
  shows "\<exists>b'. buffer_urldecode_path (Some b) = Some (0, Some b') \<and> buf_repr b' (Some (urldecode False s))
    \<and> length (urldecode False s) \<le> length s \<and> list_all printable (urldecode False s)"
proof -
  have "NUL \<notin> set s" using assms(2) by (auto simp: list_all_iff)
  from buffer_urldecode_repr [OF assms(1) this, of False] length_urldecode [of False s] urldecode_no_control [OF assms(2), of False]
  show ?thesis by (auto simp: buffer_urldecode_path_def)
qed

theorem urldecode_in_place_witness:
  "\<exists>b'. buffer_urldecode_path (Some \<lparr>bptr = map Some ''%41%0ab'' @ [Some NUL], bused = 8, bsize = 8\<rparr>) = Some (0, Some b')
    \<and> buf_repr b' (Some ''A_b'')"
proof -
  have "buf_repr \<lparr>bptr = map Some ''%41%0ab'' @ [Some NUL], bused = 8, bsize = 8\<rparr> (Some ''%41%0ab'')"
    by (simp add: buf_repr_def buf_wf_def)
  moreover have "urldecode False ''%41%0ab'' = ''A_b''"
    by (simp add: hex_digit_def printable_code_def char_of_def bit_Suc_0_iff)
  ultimately show ?thesis using urldecode_in_place [of _ "''%41%0ab''"] by fastforce
qed

text \<open>C30: What \<open>buffer_append_string_encoded\<close> appends as a URI is undone by the URL decoder, in a path
  and in a query, for every text without control characters.\<close>

theorem uri_encoding_round_trip:
  assumes "buf_repr b (Some t)" and "list_all printable s" and "e = ENCODING_REL_URI \<or> e = ENCODING_REL_URI_PART"
  shows "\<exists>b'. buffer_append_string_encoded (Some b) (Some s) (length s) e = Some (0, Some b')
    \<and> buf_repr b' (Some (t @ encode e s)) \<and> urldecode q (encode e s) = s"
proof -
  have "map (\<lambda>c. printable_code (byte c)) s = s"
    using assms(2) by (induction s) (auto simp: printable_code_def)
  moreover have "e \<noteq> ENCODING_UNSET" using assms(3) by auto
  ultimately show ?thesis
    using buffer_append_string_encoded_repr [OF assms(1) order_refl, of e s] urldecode_encode [OF assms(3), of q s] by simp
qed

theorem uri_encoding_round_trip_witness:
  "urldecode True (encode ENCODING_REL_URI_PART ''a/b c'') = ''a/b c''"
proof -
  have "buf_repr \<lparr>bptr = [Some NUL], bused = 1, bsize = 1\<rparr> (Some [])"
    by (simp add: buf_repr_def buf_wf_def)
  moreover have "list_all printable ''a/b c''" by simp
  ultimately show ?thesis using uri_encoding_round_trip [of _ "[]" "''a/b c''" ENCODING_REL_URI_PART True] by blast
qed

text \<open>Text appended with the HTML or XML encoding contains no angle bracket, so it cannot open or
  close a tag.\<close>

theorem html_encoding_no_markup:
  assumes "e = ENCODING_HTML \<or> e = ENCODING_MINIMAL_XML"
  shows "CHR ''<'' \<notin> set (encode e s) \<and> CHR ''>'' \<notin> set (encode e s)"
  using assms by (rule encode_html_safe)

theorem html_encoding_no_markup_witness:
  "CHR ''<'' \<notin> set (encode ENCODING_HTML ''<b>'')"
  using html_encoding_no_markup [of ENCODING_HTML "''<b>''"] by simp

end
