(* ===== verification/Path_Simplify.thy ===== *)
theory Path_Simplify imports Buffer_Encode begin

unbundle bit_operations_syntax

text \<open>
  \<open>buffer_path_simplify\<close> of \<open>src/src/buffer.c\<close>: one pass over the path that writes the simplified path
  behind the reading position, into another buffer or into the same one. The pointers are indices
  into the blocks; when \<open>src == dest\<close> the reads see the writes. The specification splits the path at
  the slashes and folds a stack over the segments.
\<close>

section \<open>The code\<close>

definition read_cell :: "nat \<Rightarrow> cell list \<Rightarrow> cell option" where
  "read_cell i m = (if i < length m then Some (m ! i) else None)"

text \<open>\<open>while (out > start && *out != '/') out--;\<close>\<close>

fun back_to_slash :: "cell list \<Rightarrow> nat \<Rightarrow> nat" where
  "back_to_slash m 0 = 0"
| "back_to_slash m (Suc out) =
     (if m ! Suc out \<noteq> Some (CHR ''/'') then back_to_slash m out else Suc out)"

text \<open>\<open>pre = (pre << 8) | pre1\<close> in 16 bits, the character sign-extended.\<close>

definition shift_pre :: "16 word \<Rightarrow> char \<Rightarrow> 16 word" where
  "shift_pre pre pre1 = push_bit 8 pre OR word_of_int (schar pre1)"

text \<open>The end of a token: where \<open>out\<close> goes.\<close>

definition end_token :: "cell list \<Rightarrow> nat \<Rightarrow> nat \<Rightarrow> 16 word \<Rightarrow> char \<Rightarrow> nat" where
  "end_token m slash out pre c = (
     let toklen = int out - int slash in
     if toklen = 3 \<and> pre = 0x2E2E then
       let out = (if slash > 0 then back_to_slash m (slash - 1) else slash)
       in if c = NUL then out + 1 else out
     else if toklen = 1 \<or> pre = 0x2F2E then
       if c = NUL then slash + 1 else slash
     else out)"

function simplify_loop ::
  "bool \<Rightarrow> cell list \<Rightarrow> cell list \<Rightarrow> nat \<Rightarrow> nat \<Rightarrow> nat \<Rightarrow> 16 word \<Rightarrow> cell \<Rightarrow> (cell list \<times> nat) option"
where
  "simplify_loop alias sm m walk out slash pre co =
     (case co of
        None \<Rightarrow> None
      | Some c \<Rightarrow>
          let out1 = (if c = CHR ''/'' \<or> c = NUL then end_token m slash out pre c else out);
              slash1 = (if c = CHR ''/'' \<or> c = NUL then out1 else slash)
          in if c = NUL then Some (m, out1)
             else (case read_cell walk (if alias then m else sm) of
                     None \<Rightarrow> None
                   | Some c' \<Rightarrow>
                       if out1 < length m
                       then simplify_loop alias sm (m[out1 := Some c]) (walk + 1) (out1 + 1) slash1
                              (shift_pre pre c) c'
                       else None))"
  by pat_completeness auto
termination
  by (relation "measure (\<lambda>(alias, sm, m, walk, out, slash, pre, co).
        length (if alias then m else sm) - walk)")
    (auto simp: read_cell_def split: if_splits)

declare simplify_loop.simps [simp del]

function skip_spaces :: "cell list \<Rightarrow> nat \<Rightarrow> nat option" where
  "skip_spaces m i =
     (case cell_at i m of
        None \<Rightarrow> None
      | Some c \<Rightarrow> if c = CHR '' '' then skip_spaces m (i + 1) else Some i)"
  by pat_completeness auto
termination
  by (relation "measure (\<lambda>(m, i). length m - i)") (auto simp: cell_at_def split: if_splits)

declare skip_spaces.simps [simp del]

definition simplify_cells :: "bool \<Rightarrow> cell list \<Rightarrow> cell list \<Rightarrow> (cell list \<times> nat) option" where
  "simplify_cells alias sm m = do {
     let src = (if alias then m else sm);
     walk \<leftarrow> skip_spaces src 0;
     pre1 \<leftarrow> cell_at walk src;
     c \<leftarrow> read_cell (walk + 1) src;
     m \<leftarrow> mwrite 0 (map Some (if pre1 \<noteq> CHR ''/'' then [CHR ''/'', pre1] else [pre1])) m;
     let out = (if pre1 \<noteq> CHR ''/'' then 2 else 1);
     let pre = (if pre1 \<noteq> CHR ''/'' then shift_pre 0x2F pre1 else word_of_int (schar pre1));
     if pre1 = NUL then Some (m, out + 1)
     else do {
       (m, out) \<leftarrow> simplify_loop alias sm m (walk + 2) out 0 pre c;
       m \<leftarrow> mwrite out [Some NUL] m;
       Some (m, out + 1) } }"

text \<open>The source of the call: the destination itself or another buffer.\<close>

datatype simplify_src = Same_Buffer | Other_Buffer bufp

definition buffer_path_simplify :: "bufp \<Rightarrow> simplify_src \<Rightarrow> (int \<times> bufp) option" where
  "buffer_path_simplify dest src =
     (case (src, dest) of
        (Same_Buffer, Some d) \<Rightarrow>
          if bsize d = 0 then Some (-1, dest)
          else do {
            let d = prepare_append d 1;
            (m, used) \<leftarrow> simplify_cells True [] (bptr d);
            Some (0, Some (d\<lparr>bptr := m, bused := used\<rparr>)) }
      | (Other_Buffer (Some s), Some d) \<Rightarrow>
          if bsize s = 0 then Some (-1, dest)
          else do {
            let d = prepare_copy d (bused s + 1);
            (m, used) \<leftarrow> simplify_cells False (bptr s) (bptr d);
            Some (0, Some (d\<lparr>bptr := m, bused := used\<rparr>)) }
      | _ \<Rightarrow> Some (-1, dest))"

section \<open>The specification\<close>

fun segments :: "char list \<Rightarrow> char list list" where
  "segments [] = [[]]"
| "segments (c # s) =
     (if c = CHR ''/'' then [] # segments s
      else (case segments s of x # xs \<Rightarrow> (c # x) # xs | [] \<Rightarrow> [[c]]))"

definition push_segment :: "char list list \<Rightarrow> char list \<Rightarrow> char list list" where
  "push_segment stack seg =
     (if seg = '''' \<or> seg = ''.'' then stack
      else if seg = ''..'' then butlast stack
      else stack @ [seg])"

definition render_path :: "char list list \<Rightarrow> char list" where
  "render_path stack = concat (map ((#) (CHR ''/'')) stack)"

definition is_special :: "char list \<Rightarrow> bool" where
  "is_special seg \<longleftrightarrow> seg = '''' \<or> seg = ''.'' \<or> seg = ''..''"

text \<open>A path that ends in a special segment names a directory and keeps its slash.\<close>

definition finish_path :: "char list list \<Rightarrow> char list list \<Rightarrow> char list" where
  "finish_path stack segs =
     render_path (foldl push_segment stack segs) @ (if is_special (last segs) then ''/'' else '''')"

definition simplify_path :: "char list \<Rightarrow> char list" where
  "simplify_path s = (
     let s = dropWhile (\<lambda>c. c = CHR '' '') s;
         s = (case s of c # t \<Rightarrow> if c = CHR ''/'' then t else s | [] \<Rightarrow> s)
     in finish_path [] (segments s))"

section \<open>The code computes the specification\<close>

lemma segments_nonempty [simp]: "segments s \<noteq> []"
  by (induction s) (auto split: list.splits)

lemma segments_append_slash: "CHR ''/'' \<notin> set tok \<Longrightarrow> segments (tok @ CHR ''/'' # t) = tok # segments t"
  by (induction tok) auto

lemma segments_no_slash: "CHR ''/'' \<notin> set tok \<Longrightarrow> segments tok = [tok]"
  by (induction tok) auto

lemma segments_append_char:
  "c \<noteq> CHR ''/'' \<Longrightarrow> segments (tok @ c # t) = segments ((tok @ [c]) @ t)"
  by simp

lemma segments_have_no_slash: "seg \<in> set (segments s) \<Longrightarrow> CHR ''/'' \<notin> set seg"
proof (induction s arbitrary: seg)
  case Nil
  then show ?case by simp
next
  case (Cons c s)
  obtain x xs where x: "segments s = x # xs" by (cases "segments s") auto
  with Cons show ?case by (auto split: if_splits)
qed

lemma render_path_snoc: "render_path (stack @ [x]) = render_path stack @ CHR ''/'' # x"
  by (simp add: render_path_def)

text \<open>The two characters remembered in \<open>pre\<close>.\<close>

definition low_byte :: "16 word \<Rightarrow> 16 word" where
  "low_byte w = take_bit 8 w"

lemma low_byte_shift: "low_byte (shift_pre pre c) = of_nat (byte c)"
proof -
  have "take_bit 8 (schar c) = int (byte c)"
  proof (cases "byte c < 128")
    case True
    then show ?thesis by (simp add: schar_def take_bit_eq_mod)
  next
    case False
    have "(int (byte c) - 256) mod 256 = int (byte c) mod 256" by (rule minus_mod_self2)
    also have "\<dots> = int (byte c)" using byte_less [of c] by simp
    finally show ?thesis using False by (simp add: schar_def take_bit_eq_mod)
  qed
  moreover have "take_bit 8 (word_of_int k :: 16 word) = word_of_int (take_bit 8 k)" for k
    by (rule bit_word_eqI) (auto simp: bit_simps)
  ultimately show ?thesis
    by (simp add: low_byte_def shift_pre_def take_bit_push_bit)
qed

lemma of_nat_byte_eq: "(of_nat (byte c) :: 16 word) = of_nat (byte d) \<longleftrightarrow> c = d"
proof
  assume "(of_nat (byte c) :: 16 word) = of_nat (byte d)"
  then have "unat (of_nat (byte c) :: 16 word) = unat (of_nat (byte d) :: 16 word)" by simp
  moreover have "byte x < 2 ^ 16" for x
    by (rule less_le_trans [OF byte_less]) simp
  ultimately have "byte c = byte d" by (simp add: unsigned_of_nat take_bit_nat_eq_self)
  then show "c = d" by (simp only: of_char_eq_iff)
qed simp

lemma shift_pre_dot:
  "shift_pre pre CHR ''.'' = 0x2E2E \<longleftrightarrow> low_byte pre = 0x2E"
  "shift_pre pre CHR ''.'' = 0x2F2E \<longleftrightarrow> low_byte pre = 0x2F"
proof -
  have *: "push_bit 8 pre OR 0x2E = push_bit 8 k OR (0x2E :: 16 word) \<longleftrightarrow> low_byte pre = low_byte k" for k
  proof
    assume eq: "push_bit 8 pre OR 0x2E = push_bit 8 k OR (0x2E :: 16 word)"
    show "low_byte pre = low_byte k"
    proof (rule bit_word_eqI)
      fix n assume "n < LENGTH(16)"
      have "bit (push_bit 8 pre OR 0x2E) (n + 8) = bit (push_bit 8 k OR (0x2E :: 16 word)) (n + 8)"
        using eq by simp
      moreover have "\<not> bit (0x2E :: 16 word) (n + 8)"
      proof -
        have "bit (take_bit 8 (0x2E :: 16 word)) (n + 8) = False" unfolding bit_take_bit_iff by simp
        then show ?thesis by simp
      qed
      ultimately show "bit (low_byte pre) n = bit (low_byte k) n"
        using \<open>n < LENGTH(16)\<close> by (auto simp: low_byte_def bit_simps)
    qed
  next
    assume eq: "low_byte pre = low_byte k"
    have "push_bit 8 x = push_bit 8 (take_bit 8 x)" for x :: "16 word"
      by (rule bit_word_eqI) (auto simp: bit_simps)
    then show "push_bit 8 pre OR 0x2E = push_bit 8 k OR (0x2E :: 16 word)"
      using eq unfolding low_byte_def by metis
  qed
  have "push_bit 8 0x2E OR (0x2E :: 16 word) = 0x2E2E" "push_bit 8 0x2F OR (0x2E :: 16 word) = 0x2F2E"
    by simp_all
  moreover have "low_byte 0x2E = 0x2E" "low_byte 0x2F = 0x2F" by (simp_all add: low_byte_def)
  moreover have "shift_pre pre CHR ''.'' = push_bit 8 pre OR 0x2E" by (simp add: shift_pre_def schar_def)
  ultimately show "shift_pre pre CHR ''.'' = 0x2E2E \<longleftrightarrow> low_byte pre = 0x2E"
    "shift_pre pre CHR ''.'' = 0x2F2E \<longleftrightarrow> low_byte pre = 0x2F"
    using * [of "0x2E"] * [of "0x2F"] by simp_all
qed

lemma low_byte_slash: "low_byte (shift_pre pre c) = 0x2F \<longleftrightarrow> c = CHR ''/''"
  using of_nat_byte_eq [of c "CHR ''/''"] by (simp add: low_byte_shift)

lemma low_byte_dot: "low_byte (shift_pre pre c) = 0x2E \<longleftrightarrow> c = CHR ''.''"
  using of_nat_byte_eq [of c "CHR ''.''"] by (simp add: low_byte_shift)

lemma shift_pre_not_dot:
  assumes "c \<noteq> CHR ''.''"
  shows "shift_pre pre c \<noteq> 0x2E2E" "shift_pre pre c \<noteq> 0x2F2E"
proof -
  have "low_byte 0x2E2E = 0x2E" "low_byte 0x2F2E = 0x2E" by (simp_all add: low_byte_def)
  with assms low_byte_dot [of pre c] show "shift_pre pre c \<noteq> 0x2E2E" "shift_pre pre c \<noteq> 0x2F2E" by auto
qed

text \<open>\<open>pre\<close> after the slash and the characters of a token.\<close>

definition pre_ok :: "16 word \<Rightarrow> char list \<Rightarrow> bool" where
  "pre_ok pre tok \<longleftrightarrow>
     (low_byte pre = 0x2F \<longleftrightarrow> tok = []) \<and>
     (low_byte pre = 0x2E \<longleftrightarrow> tok \<noteq> [] \<and> last tok = CHR ''.'') \<and>
     (pre = 0x2F2E \<longleftrightarrow> tok = ''.'') \<and>
     (length tok = 2 \<longrightarrow> (pre = 0x2E2E \<longleftrightarrow> tok = ''..''))"

lemma pre_ok_slash: "low_byte pre = 0x2F \<Longrightarrow> pre_ok pre []"
  by (auto simp: pre_ok_def) (auto simp: low_byte_def)

lemma pre_ok_snoc:
  assumes ok: "pre_ok pre tok" and c: "c \<noteq> CHR ''/''"
  shows "pre_ok (shift_pre pre c) (tok @ [c])"
proof (cases "c = CHR ''.''")
  case True
  have two: "length (tok @ [c]) = 2 \<Longrightarrow> tok \<noteq> [] \<and> last tok = CHR ''.'' \<longleftrightarrow> tok @ [c] = ''..''"
    using True by (cases tok) auto
  have one: "tok = [] \<longleftrightarrow> tok @ [c] = ''.''" using True by auto
  have "low_byte (shift_pre pre c) \<noteq> 0x2F" "low_byte (shift_pre pre c) = 0x2E"
    using True c by (simp_all add: low_byte_slash low_byte_dot)
  moreover have "shift_pre pre c = 0x2F2E \<longleftrightarrow> tok @ [c] = ''.''"
    using ok one unfolding pre_ok_def True shift_pre_dot by blast
  moreover have "shift_pre pre c = 0x2E2E \<longleftrightarrow> tok @ [c] = ''..''" if "length (tok @ [c]) = 2"
    using ok two [OF that] unfolding pre_ok_def True shift_pre_dot by blast
  moreover have "last (tok @ [c]) = CHR ''.''" using True by simp
  ultimately show ?thesis unfolding pre_ok_def by blast
next
  case False
  then show ?thesis
    using c low_byte_slash [of pre c] low_byte_dot [of pre c] shift_pre_not_dot [OF False, of pre]
    by (auto simp: pre_ok_def)
qed

lemma back_to_slash_stop:
  assumes "p = 0 \<or> m ! p = Some (CHR ''/'')"
    and "\<And>i. p < i \<Longrightarrow> i \<le> p + k \<Longrightarrow> m ! i \<noteq> Some (CHR ''/'')"
  shows "back_to_slash m (p + k) = p"
  using assms(2)
proof (induction k)
  case 0
  then show ?case using assms(1) by (cases p) auto
next
  case (Suc k)
  then show ?case by simp
qed

lemma back_to_slash_render:
  assumes cells: "take n m = map Some (render_path stack @ CHR ''/'' # x)"
    and n: "n = length (render_path stack) + 1 + length x" and x: "CHR ''/'' \<notin> set x"
  shows "back_to_slash m (n - 1) = length (render_path stack)"
proof -
  let ?p = "length (render_path stack)"
  have nth: "m ! i = Some ((render_path stack @ CHR ''/'' # x) ! i)" if "i < n" for i
  proof -
    have "m ! i = take n m ! i" using that by simp
    also have "\<dots> = Some ((render_path stack @ CHR ''/'' # x) ! i)"
      unfolding cells using that n by (subst nth_map) auto
    finally show ?thesis .
  qed
  have "n - 1 = ?p + length x" using n by simp
  moreover have "back_to_slash m (?p + length x) = ?p"
  proof (rule back_to_slash_stop)
    show "?p = 0 \<or> m ! ?p = Some CHR ''/''" using nth [of ?p] n by (simp add: nth_append)
  next
    fix i assume i: "?p < i" "i \<le> ?p + length x"
    then have "m ! i = Some (x ! (i - ?p - 1))" using nth [of i] n by (simp add: nth_append)
    moreover have "x ! (i - ?p - 1) \<in> set x" using i by (intro nth_mem) linarith
    ultimately show "m ! i \<noteq> Some CHR ''/''" using x by auto
  qed
  ultimately show ?thesis by simp
qed

text \<open>What a finished token does to the output.\<close>

lemma end_token_render:
  fixes c :: char
  assumes cells: "take out m = map Some (render_path stack @ CHR ''/'' # tok)"
    and out: "out = slash + 1 + length tok" and slash: "slash = length (render_path stack)"
    and stack: "\<forall>x \<in> set stack. CHR ''/'' \<notin> set x" and pre: "pre_ok pre tok"
  defines "res \<equiv> render_path (push_segment stack tok) @ (if is_special tok \<and> c = NUL then ''/'' else '''')"
  shows "end_token m slash out pre c = length res \<and> take (length res) m = map Some res \<and> length res \<le> out"
proof -
  have pre1: "take k m = map Some (take k (render_path stack @ CHR ''/'' # tok))" if "k \<le> out" for k
    using cells that by (rule take_map_Some_eqD)
  consider (dd) "tok = ''..''" | (skip) "tok = '''' \<or> tok = ''.''" | (plain) "\<not> is_special tok"
    by (auto simp: is_special_def)
  then show ?thesis
  proof cases
    case skip
    have a: "int out - int slash = 1 \<or> pre = 0x2F2E" using skip out pre by (auto simp: pre_ok_def)
    have b: "\<not> (int out - int slash = 3 \<and> pre = 0x2E2E)" using skip out by auto
    have "end_token m slash out pre c = (if c = NUL then slash + 1 else slash)"
      unfolding end_token_def Let_def if_not_P [OF b] if_P [OF a] ..
    moreover have "res = render_path stack @ (if c = NUL then ''/'' else '''')"
      using skip by (auto simp: res_def push_segment_def is_special_def)
    ultimately show ?thesis
      using pre1 [of slash] pre1 [of "slash + 1"] out slash by auto
  next
    case plain
    have "length tok \<noteq> 0" "tok \<noteq> ''.''" "tok \<noteq> ''..''" using plain by (auto simp: is_special_def)
    then have "int out - int slash \<noteq> 1" "int out - int slash = 3 \<Longrightarrow> length tok = 2" using out by linarith+
    moreover have "pre \<noteq> 0x2F2E" "length tok = 2 \<Longrightarrow> pre \<noteq> 0x2E2E"
      using pre \<open>tok \<noteq> ''.''\<close> \<open>tok \<noteq> ''..''\<close> unfolding pre_ok_def by blast+
    ultimately have a: "\<not> (int out - int slash = 1 \<or> pre = 0x2F2E)" and b: "\<not> (int out - int slash = 3 \<and> pre = 0x2E2E)"
      by blast+
    have "end_token m slash out pre c = out"
      unfolding end_token_def Let_def if_not_P [OF b] if_not_P [OF a] ..
    moreover have "res = render_path stack @ CHR ''/'' # tok"
      using plain by (auto simp: res_def push_segment_def is_special_def render_path_snoc)
    ultimately show ?thesis using cells out slash by auto
  next
    case dd
    have sp: "int out - int slash = 3 \<and> pre = 0x2E2E" using dd out pre by (auto simp: pre_ok_def)
    have res: "res = render_path (butlast stack) @ (if c = NUL then ''/'' else '''')"
      using dd by (auto simp: res_def push_segment_def is_special_def)
    show ?thesis
    proof (cases stack rule: rev_cases)
      case Nil
      then have "slash = 0" using slash by (simp add: render_path_def)
      then have "end_token m slash out pre c = (if c = NUL then 1 else 0)"
        unfolding end_token_def Let_def if_P [OF sp] by simp
      with res Nil pre1 [of 1] out show ?thesis by (auto simp: render_path_def)
    next
      case (snoc st x)
      let ?p = "length (render_path st)"
      have len: "slash = ?p + 1 + length x" using slash snoc by (simp add: render_path_snoc)
      have "take slash m = map Some (render_path st @ CHR ''/'' # x)"
        using pre1 [of slash] out slash snoc by (simp add: render_path_snoc)
      from back_to_slash_render [OF this len] stack snoc
      have "back_to_slash m (slash - 1) = ?p" by simp
      with len have "end_token m slash out pre c = (if c = NUL then ?p + 1 else ?p)"
        unfolding end_token_def Let_def if_P [OF sp] by simp
      moreover have "take ?p m = map Some (render_path st)"
        "take (?p + 1) m = map Some (render_path st @ ''/'')"
        using pre1 [of ?p] pre1 [of "?p + 1"] out len snoc by (simp_all add: render_path_snoc)
      moreover have "res = render_path st @ (if c = NUL then ''/'' else '''')" using res snoc by simp
      ultimately show ?thesis using out len by simp
    qed
  qed
qed

lemma finish_path_Cons: "segs \<noteq> [] \<Longrightarrow> finish_path stack (tok # segs) = finish_path (push_segment stack tok) segs"
  by (simp add: finish_path_def)

lemma push_segment_no_slash:
  assumes "\<forall>x \<in> set stack. CHR ''/'' \<notin> set x" and "CHR ''/'' \<notin> set tok"
  shows "\<forall>x \<in> set (push_segment stack tok). CHR ''/'' \<notin> set x"
  using assms by (auto simp: push_segment_def dest: in_set_butlastD)

lemma simplify_loop_render:
  assumes "NUL \<notin> set t"
    and "take out m = map Some (render_path stack @ CHR ''/'' # tok)"
    and "out = slash + 1 + length tok" and "slash = length (render_path stack)"
    and "\<forall>x \<in> set stack. CHR ''/'' \<notin> set x" and "CHR ''/'' \<notin> set tok" and "pre_ok pre tok"
    and "drop walk (if alias then m else sm) = map Some (tl (t @ [NUL])) @ r"
    and "out + length t < length m" and "alias \<longrightarrow> out \<le> walk"
  shows "\<exists>m'. simplify_loop alias sm m walk out slash pre (Some (hd (t @ [NUL])))
      = Some (m', length (finish_path stack (segments (tok @ t))))
    \<and> take (length (finish_path stack (segments (tok @ t)))) m' = map Some (finish_path stack (segments (tok @ t)))
    \<and> length m' = length m \<and> length (finish_path stack (segments (tok @ t))) < length m"
  using assms
proof (induction t arbitrary: m walk out slash pre tok stack)
  case Nil
  note e = end_token_render [OF Nil.prems(2,3,4,5,7), of NUL]
  have R: "finish_path stack (segments (tok @ [])) =
      render_path (push_segment stack tok) @ (if is_special tok \<and> NUL = NUL then ''/'' else '''')"
    using Nil.prems(6) by (simp add: segments_no_slash finish_path_def)
  have "simplify_loop alias sm m walk out slash pre (Some NUL) = Some (m, end_token m slash out pre NUL)"
    by (simp add: simplify_loop.simps)
  with e Nil.prems(9) show ?case unfolding R by (auto simp del: is_special_def)
next
  case (Cons c t)
  from Cons.prems(1) have c: "c \<noteq> NUL" and t: "NUL \<notin> set t" by auto
  let ?src = "if alias then m else sm"
  have walk: "drop walk ?src = map Some (t @ [NUL]) @ r" using Cons.prems(8) by simp
  then have "walk < length ?src" by (metis drop_all list.distinct(1) append_is_Nil_conv map_is_Nil_conv not_le_imp_less)
  moreover have "?src ! walk = Some (hd (t @ [NUL]))"
  proof -
    have "?src ! walk = hd (drop walk ?src)" using \<open>walk < length ?src\<close> by (simp add: hd_drop_conv_nth)
    then show ?thesis unfolding walk by (cases t) auto
  qed
  ultimately have rd: "read_cell walk ?src = Some (Some (hd (t @ [NUL])))" by (simp add: read_cell_def)
  have rest: "drop (walk + 1) (if alias then m[o1 := x] else sm) = map Some (tl (t @ [NUL])) @ r"
    if "o1 \<le> out" for o1 x
  proof -
    have "drop (walk + 1) ?src = map Some (tl (t @ [NUL])) @ r"
      using arg_cong [OF walk, of "drop 1"] by (cases t) (auto simp: drop_Suc)
    moreover have "alias \<Longrightarrow> drop (walk + 1) (m[o1 := x]) = drop (walk + 1) m"
      using that Cons.prems(10) by (intro drop_update_cancel) simp
    ultimately show ?thesis by (cases "alias") auto
  qed
  show ?case
  proof (cases "c = CHR ''/''")
    case True
    define st where "st = push_segment stack tok"
    define o1 where "o1 = length (render_path st)"
    have e: "end_token m slash out pre c = o1" "take o1 m = map Some (render_path st)" "o1 \<le> out"
      using end_token_render [OF Cons.prems(2,3,4,5,7), of c] True by (auto simp: o1_def st_def)
    have o1: "o1 < length m" using e(3) Cons.prems(9) by simp
    have loop: "simplify_loop alias sm m walk out slash pre (Some (hd ((c # t) @ [NUL])))
        = simplify_loop alias sm (m[o1 := Some c]) (walk + 1) (o1 + 1) o1 (shift_pre pre c) (Some (hd (t @ [NUL])))"
      using c True o1 rd by (simp add: simplify_loop.simps [of _ _ m] e(1) [unfolded True] del: if_split)
    have "take (o1 + 1) (m[o1 := Some c]) = map Some (render_path st @ CHR ''/'' # [])"
      using o1 e(2) True by (simp add: take_Suc_conv_app_nth)
    have pk: "pre_ok (shift_pre pre c) []" using True by (intro pre_ok_slash) (simp add: low_byte_slash)
    note \<open>take (o1 + 1) (m[o1 := Some c]) = _\<close>
    from Cons.IH [OF t this _ _ _ _ pk rest]
    have "\<exists>m'. simplify_loop alias sm (m[o1 := Some c]) (walk + 1) (o1 + 1) o1 (shift_pre pre c) (Some (hd (t @ [NUL])))
        = Some (m', length (finish_path st (segments ([] @ t))))
      \<and> take (length (finish_path st (segments ([] @ t)))) m' = map Some (finish_path st (segments ([] @ t)))
      \<and> length m' = length (m[o1 := Some c]) \<and> length (finish_path st (segments ([] @ t))) < length (m[o1 := Some c])"
      using push_segment_no_slash [OF Cons.prems(5,6)] True e(3) Cons.prems(9,10)
      by (auto simp: o1_def [symmetric] st_def [symmetric])
    moreover have "finish_path stack (segments (tok @ c # t)) = finish_path st (segments ([] @ t))"
      using True Cons.prems(6) by (simp add: segments_append_slash finish_path_Cons st_def)
    ultimately show ?thesis unfolding loop by simp
  next
    case False
    have o1: "out < length m" using Cons.prems(9) by simp
    have loop: "simplify_loop alias sm m walk out slash pre (Some (hd ((c # t) @ [NUL])))
        = simplify_loop alias sm (m[out := Some c]) (walk + 1) (out + 1) slash (shift_pre pre c) (Some (hd (t @ [NUL])))"
      using c False o1 rd by (simp add: simplify_loop.simps [of _ _ m] del: if_split)
    have "take (out + 1) (m[out := Some c]) = map Some (render_path stack @ CHR ''/'' # (tok @ [c]))"
      using o1 Cons.prems(2) by (simp add: take_Suc_conv_app_nth)
    from Cons.IH [OF t this _ Cons.prems(4,5) _ pre_ok_snoc [OF Cons.prems(7) False] rest]
    have "\<exists>m'. simplify_loop alias sm (m[out := Some c]) (walk + 1) (out + 1) slash (shift_pre pre c) (Some (hd (t @ [NUL])))
        = Some (m', length (finish_path stack (segments ((tok @ [c]) @ t))))
      \<and> take (length (finish_path stack (segments ((tok @ [c]) @ t)))) m' = map Some (finish_path stack (segments ((tok @ [c]) @ t)))
      \<and> length m' = length (m[out := Some c]) \<and> length (finish_path stack (segments ((tok @ [c]) @ t))) < length (m[out := Some c])"
      using Cons.prems False by auto
    then show ?thesis unfolding loop by simp
  qed
qed

lemma skip_spaces_string:
  "drop i m = map Some s @ Some NUL # r \<Longrightarrow>
     skip_spaces m i = Some (i + length (takeWhile (\<lambda>c. c = CHR '' '') s))"
proof (induction s arbitrary: i)
  case Nil
  then have "i < length m \<and> m ! i = Some NUL"
    by (metis append_Nil drop_all hd_drop_conv_nth list.distinct(1) list.sel(1) list.simps(8) not_le_imp_less)
  then show ?case by (simp add: skip_spaces.simps cell_at_def)
next
  case (Cons c s)
  then have i: "i < length m"
    by (metis drop_all list.distinct(1) append_Cons list.simps(9) not_le_imp_less)
  then have "m ! i = Some c" using Cons.prems by (simp add: hd_drop_conv_nth [symmetric])
  moreover have "drop (i + 1) m = map Some s @ Some NUL # r"
    using arg_cong [OF Cons.prems, of "drop 1"] by simp
  ultimately show ?case using i Cons.IH [of "i + 1"]
    by (simp add: skip_spaces.simps [of m i] cell_at_def)
qed

lemma simplify_cells_render:
  assumes s: "NUL \<notin> set s" and nonempty: "dropWhile (\<lambda>c. c = CHR '' '') s \<noteq> []"
    and src: "(if alias then m else sm) = map Some s @ Some NUL # r"
    and room: "length s + 2 \<le> length m"
  shows "\<exists>m'. simplify_cells alias sm m = Some (m', length (simplify_path s) + 1)
    \<and> take (length (simplify_path s) + 1) m' = map Some (simplify_path s @ [NUL]) \<and> length m' = length m
    \<and> length (simplify_path s) + 1 \<le> length m"
proof -
  let ?src = "if alias then m else sm"
  define sp where "sp = takeWhile (\<lambda>c. c = CHR '' '') s"
  obtain a t where p: "dropWhile (\<lambda>c. c = CHR '' '') s = a # t" using nonempty by (cases "dropWhile (\<lambda>c. c = CHR '' '') s") auto
  have s_eq: "s = sp @ a # t" using takeWhile_dropWhile_id [of "\<lambda>c. c = CHR '' ''" s] p by (simp add: sp_def)
  with s have a: "a \<noteq> NUL" and t: "NUL \<notin> set t" by auto
  let ?k = "length sp"
  have walk: "skip_spaces ?src 0 = Some ?k" using skip_spaces_string [of 0 ?src s r] src by (simp add: sp_def)
  have pre1: "cell_at ?k ?src = Some a" unfolding src s_eq by (simp add: cell_at_def nth_append)
  have c: "read_cell (?k + 1) ?src = Some (Some (hd (t @ [NUL])))"
    unfolding src s_eq by (cases t) (auto simp: read_cell_def nth_append)
  have rest: "drop (?k + 2) ?src = map Some (tl (t @ [NUL])) @ r"
    unfolding src s_eq by (cases t) auto
  have lenm: "length t + 3 \<le> length m" using room s_eq by simp
  define pfx where "pfx = (if a \<noteq> CHR ''/'' then [CHR ''/'', a] else [a])"
  define tok where "tok = (if a \<noteq> CHR ''/'' then [a] else [])"
  define pre where "pre = (if a \<noteq> CHR ''/'' then shift_pre 0x2F a else word_of_int (schar a))"
  define m0 where "m0 = map Some pfx @ drop (length pfx) m"
  have pfx: "pfx = CHR ''/'' # tok" by (auto simp: pfx_def tok_def)
  have m0: "mwrite 0 (map Some pfx) m = Some m0" using lenm by (auto simp: mwrite_def m0_def pfx_def)
  have len0: "length m0 = length m" using lenm by (auto simp: m0_def pfx_def)
  have "low_byte 0x2F = 0x2F" by (simp add: low_byte_def)
  then have ok: "pre_ok pre tok"
    using pre_ok_snoc [of "0x2F" "[]" a] pre_ok_slash [of "0x2F"] by (auto simp: pre_def tok_def schar_def)
  have drop0: "drop (?k + 2) (if alias then m0 else sm) = map Some (tl (t @ [NUL])) @ r"
    using rest by (cases "alias") (auto simp: m0_def pfx_def)
  have R: "simplify_path s = finish_path [] (segments (tok @ t))"
    by (simp add: simplify_path_def p tok_def)
  from simplify_loop_render [OF t, of "length pfx" m0 "[]" tok 0 pre "?k + 2" "alias" sm r]
  obtain m' where m': "simplify_loop alias sm m0 (?k + 2) (length pfx) 0 pre (Some (hd (t @ [NUL])))
      = Some (m', length (simplify_path s))"
    "take (length (simplify_path s)) m' = map Some (simplify_path s)" "length m' = length m"
    "length (simplify_path s) < length m"
    using ok drop0 lenm len0 unfolding R
    by (auto simp: m0_def pfx render_path_def tok_def split: if_splits)
  have "simplify_cells alias sm m = do {
      (m, out) \<leftarrow> simplify_loop alias sm m0 (?k + 2) (length pfx) 0 pre (Some (hd (t @ [NUL])));
      m \<leftarrow> mwrite out [Some NUL] m; Some (m, out + 1) }"
    unfolding simplify_cells_def Let_def walk bind.bind_lunit pre1 c pfx_def [symmetric] m0 pre_def [symmetric] if_not_P [OF a]
    by (auto simp: pfx_def numeral_2_eq_2)
  with m' show ?thesis by (simp add: mwrite_def)
qed

text \<open>In place and between two buffers, the code computes \<open>simplify_path\<close> for every path that is not
  blank, and stays inside the blocks.\<close>

lemma buffer_path_simplify_same:
  assumes repr: "buf_repr b (Some s)" and "NUL \<notin> set s" and "dropWhile (\<lambda>c. c = CHR '' '') s \<noteq> []"
  shows "\<exists>b'. buffer_path_simplify (Some b) Same_Buffer = Some (0, Some b') \<and> buf_repr b' (Some (simplify_path s))"
proof -
  note pa = prepare_append_spec [OF buf_repr_wf [OF repr], of 1]
  define b1 where "b1 = prepare_append b (Suc 0)"
  have "take (length s + 1) (bptr b1) = map Some (s @ [NUL])"
    using repr pa by (auto simp: buf_repr_def b1_def)
  then have cells: "bptr b1 = map Some s @ Some NUL # drop (length s + 1) (bptr b1)"
    using append_take_drop_id [of "length s + 1" "bptr b1"] by simp
  have room: "length s + 2 \<le> length (bptr b1)" using repr pa by (simp add: buf_repr_def b1_def)
  have "bsize b \<noteq> 0" using repr by (auto simp: buf_repr_def buf_wf_def)
  with simplify_cells_render [of s True "bptr b1" "[]" "drop (length s + 1) (bptr b1)"] assms(2,3) cells room pa
  show ?thesis
    by (auto simp: buffer_path_simplify_def b1_def [symmetric] buf_repr_def buf_wf_def Let_def)
qed

lemma buffer_path_simplify_other:
  assumes wf: "buf_wf d" and repr: "buf_repr b (Some s)" and "NUL \<notin> set s"
    and "dropWhile (\<lambda>c. c = CHR '' '') s \<noteq> []"
  shows "\<exists>d'. buffer_path_simplify (Some d) (Other_Buffer (Some b)) = Some (0, Some d')
    \<and> buf_repr d' (Some (simplify_path s))"
proof -
  note pc = prepare_copy_spec [OF wf, of "bused b + 1"]
  obtain r where cells: "bptr b = map Some s @ Some NUL # r" using repr buf_repr_cells by blast
  have used: "bused b = length s + 1" "bsize b \<noteq> 0" using repr by (auto simp: buf_repr_def buf_wf_def)
  with simplify_cells_render [of s False "bptr (prepare_copy d (bused b + 1))" "bptr b" r] assms(3,4) cells pc
  show ?thesis
    by (auto simp: buffer_path_simplify_def buf_repr_def buf_wf_def Let_def)
qed

text \<open>A blank path is given a length that counts the terminator twice.\<close>

lemma buffer_path_simplify_empty:
  assumes repr: "buf_repr b (Some [])"
  shows "\<exists>b'. buffer_path_simplify (Some b) Same_Buffer = Some (0, Some b') \<and> bused b' = 3
    \<and> take 2 (bptr b') = map Some [CHR ''/'', NUL]"
proof -
  note pa = prepare_append_spec [OF buf_repr_wf [OF repr], of 1]
  define b1 where "b1 = prepare_append b (Suc 0)"
  have "take 1 (bptr b1) = [Some NUL]" using repr pa by (auto simp: buf_repr_def b1_def)
  moreover have "2 \<le> length (bptr b1)" using repr pa by (simp add: buf_repr_def b1_def)
  ultimately obtain c r where cells: "bptr b1 = Some NUL # c # r"
    by (cases "bptr b1"; cases "tl (bptr b1)") auto
  have "bsize b \<noteq> 0" using repr by (auto simp: buf_repr_def buf_wf_def)
  then show ?thesis
    by (simp add: buffer_path_simplify_def b1_def [symmetric] simplify_cells_def skip_spaces.simps
        cells cell_at_def read_cell_def mwrite_def Let_def)
qed

section \<open>What the simplified path looks like\<close>

lemma push_segments_plain:
  assumes "\<forall>x \<in> set stack. \<not> is_special x \<and> CHR ''/'' \<notin> set x" and "\<forall>x \<in> set segs. CHR ''/'' \<notin> set x"
  shows "\<forall>x \<in> set (foldl push_segment stack segs). \<not> is_special x \<and> CHR ''/'' \<notin> set x"
  using assms
proof (induction segs arbitrary: stack)
  case Nil
  then show ?case by simp
next
  case (Cons seg segs)
  have "set (push_segment stack seg) \<subseteq> set stack \<union> (if is_special seg then {} else {seg})"
    by (auto simp: push_segment_def is_special_def dest: in_set_butlastD)
  with Cons.prems have "\<forall>x \<in> set (push_segment stack seg). \<not> is_special x \<and> CHR ''/'' \<notin> set x"
    by (cases "is_special seg") auto
  from Cons.IH [OF this] Cons.prems(2) show ?case by simp
qed

lemma simplify_path_shape:
  "\<exists>stack dir. simplify_path s = render_path stack @ (if dir then ''/'' else '''')
     \<and> (\<forall>x \<in> set stack. \<not> is_special x \<and> CHR ''/'' \<notin> set x) \<and> (stack = [] \<longrightarrow> dir)"
proof -
  define u where "u = (case dropWhile (\<lambda>c. c = CHR '' '') s of c # t \<Rightarrow>
      if c = CHR ''/'' then t else dropWhile (\<lambda>c. c = CHR '' '') s | [] \<Rightarrow> dropWhile (\<lambda>c. c = CHR '' '') s)"
  let ?segs = "segments u"
  have path: "simplify_path s = finish_path [] ?segs" by (simp add: simplify_path_def u_def Let_def)
  have plain: "\<forall>x \<in> set (foldl push_segment [] ?segs). \<not> is_special x \<and> CHR ''/'' \<notin> set x"
    using segments_have_no_slash by (intro push_segments_plain) auto
  have "foldl push_segment [] ?segs \<noteq> []" if "\<not> is_special (last ?segs)"
  proof (cases ?segs rule: rev_cases)
    case (snoc ys y)
    with that show ?thesis by (simp add: push_segment_def is_special_def)
  qed simp
  with path plain show ?thesis
    by (intro exI [of _ "foldl push_segment [] ?segs"] exI [of _ "is_special (last ?segs)"])
      (auto simp: finish_path_def)
qed

lemma segments_render:
  "stack \<noteq> [] \<Longrightarrow> \<forall>x \<in> set stack. CHR ''/'' \<notin> set x \<Longrightarrow> segments (tl (render_path stack) @ t) = butlast stack @ segments (last stack @ t)"
proof (induction stack)
  case Nil
  then show ?case by simp
next
  case (Cons x stack)
  show ?case
  proof (cases stack)
    case Nil
    then show ?thesis by (simp add: render_path_def)
  next
    case (Cons y ys)
    then have "tl (render_path (x # stack)) @ t = x @ CHR ''/'' # (tl (render_path stack) @ t)"
      by (simp add: render_path_def)
    with Cons.IH Cons.prems Cons show ?thesis by (simp add: segments_append_slash)
  qed
qed

lemma foldl_push_plain: "\<forall>x \<in> set segs. \<not> is_special x \<Longrightarrow> foldl push_segment stack segs = stack @ segs"
  by (induction segs arbitrary: stack) (auto simp: push_segment_def is_special_def)

lemma simplify_path_fixpoint:
  assumes plain: "\<forall>x \<in> set stack. \<not> is_special x \<and> CHR ''/'' \<notin> set x" and dir: "stack = [] \<longrightarrow> dir"
  shows "simplify_path (render_path stack @ (if dir then ''/'' else '''')) = render_path stack @ (if dir then ''/'' else '''')"
proof (cases stack rule: rev_cases)
  case Nil
  with dir show ?thesis by (simp add: simplify_path_def finish_path_def render_path_def push_segment_def is_special_def)
next
  case (snoc st x)
  then have ne: "stack \<noteq> []" by simp
  let ?d = "if dir then ''/'' else ''''"
  obtain u where u: "render_path stack = CHR ''/'' # u" using ne by (cases stack) (auto simp: render_path_def)
  have "simplify_path (render_path stack @ ?d) = finish_path [] (segments (tl (render_path stack) @ ?d))"
    by (simp add: simplify_path_def u)
  moreover have "segments (last stack @ ?d) = (if dir then [x, ''''] else [x])"
    using snoc plain segments_append_slash [of x "[]"] segments_no_slash [of x] by simp
  ultimately show ?thesis
    using segments_render [OF ne, of ?d] plain snoc foldl_push_plain [of stack "[]"]
    by (auto simp: finish_path_def push_segment_def is_special_def)
qed

lemma simplify_path_idem: "simplify_path (simplify_path s) = simplify_path s"
  using simplify_path_shape [of s] simplify_path_fixpoint by metis

section \<open>Properties\<close>

text \<open>C12: For every path that is not blank, \<open>buffer_path_simplify\<close> on one buffer, reading behind its own
  writes, succeeds inside the block and leaves the path the specification folds from the segments.\<close>

theorem path_simplify_in_place:
  assumes "buf_repr b (Some s)" and "NUL \<notin> set s" and "dropWhile (\<lambda>c. c = CHR '' '') s \<noteq> []"
  shows "\<exists>b'. buffer_path_simplify (Some b) Same_Buffer = Some (0, Some b') \<and> buf_repr b' (Some (simplify_path s))"
  using assms by (rule buffer_path_simplify_same)

definition sample_buffer :: "char list \<Rightarrow> buffer" where
  "sample_buffer s = \<lparr>bptr = map Some s @ [Some NUL], bused = length s + 1, bsize = length s + 1\<rparr>"

lemma sample_buffer_repr: "buf_repr (sample_buffer s) (Some s)"
  by (simp add: sample_buffer_def buf_repr_def buf_wf_def)

theorem path_simplify_in_place_witness:
  "\<exists>b'. buffer_path_simplify (Some (sample_buffer ''/a/../b'')) Same_Buffer = Some (0, Some b')
    \<and> buf_repr b' (Some ''/b'')"
proof -
  have "simplify_path ''/a/../b'' = ''/b''"
    by (simp add: simplify_path_def finish_path_def push_segment_def is_special_def render_path_def)
  then show ?thesis
    using path_simplify_in_place [OF sample_buffer_repr [of "''/a/../b''"]] by simp
qed



text \<open>On a blank path the two-character result is given a length of three: the byte behind its
  terminator, which the function never wrote, becomes part of the string.\<close>

theorem path_simplify_blank:
  assumes "buf_repr b (Some [])"
  shows "\<exists>b'. buffer_path_simplify (Some b) Same_Buffer = Some (0, Some b') \<and> bused b' = 3
    \<and> take 2 (bptr b') = map Some [CHR ''/'', NUL] \<and> simplify_path [] = ''/''"
  using buffer_path_simplify_empty [OF assms]
  by (simp add: simplify_path_def finish_path_def push_segment_def is_special_def render_path_def)

theorem path_simplify_blank_witness:
  "\<exists>b'. buffer_path_simplify (Some (sample_buffer [])) Same_Buffer = Some (0, Some b') \<and> bused b' = 3"
  using path_simplify_blank [OF sample_buffer_repr] by blast

end
