(* ===== verification/Bitset.thy ===== *)
theory Bitset imports Prelude begin

unbundle bit_operations_syntax

text \<open>
  \<open>src/src/bitset.c\<close>: a set of positions below \<open>nbits\<close> in an array of \<open>size_t\<close> words (32 bits in the
  checked-in \<open>config.h\<close>). \<open>None\<close> is \<open>SEGFAULT()\<close>, which the code raises for a position out of range.
  The abstract value of a set is the list of its truth values.
\<close>

record bitset =
  bits :: "32 word list"
  nbits :: nat

definition BITSET_BITS :: nat where
  "BITSET_BITS = 32"

definition BITSET_MASK :: "nat \<Rightarrow> 32 word" where
  "BITSET_MASK pos = push_bit (pos mod BITSET_BITS) 1"

definition BITSET_USED :: "nat \<Rightarrow> nat" where
  "BITSET_USED n = (n + (BITSET_BITS - 1)) mod 2 ^ 32 div BITSET_BITS"

definition bitset_init :: "nat \<Rightarrow> bitset" where
  "bitset_init n = \<lparr>bits = replicate (BITSET_USED n) 0, nbits = n\<rparr>"

definition bitset_reset :: "bitset \<Rightarrow> bitset" where
  "bitset_reset bset =
     bset\<lparr>bits := replicate (BITSET_USED (nbits bset)) 0 @ drop (BITSET_USED (nbits bset)) (bits bset)\<rparr>"

definition bitset_word :: "bitset \<Rightarrow> nat \<Rightarrow> 32 word option" where
  "bitset_word bset pos =
     (if pos div BITSET_BITS < length (bits bset) then Some (bits bset ! (pos div BITSET_BITS)) else None)"

definition bitset_update :: "(32 word \<Rightarrow> 32 word) \<Rightarrow> bitset \<Rightarrow> nat \<Rightarrow> bitset option" where
  "bitset_update f bset pos =
     (if pos \<ge> nbits bset then None
      else do { w \<leftarrow> bitset_word bset pos; Some (bset\<lparr>bits := (bits bset)[pos div BITSET_BITS := f w]\<rparr>) })"

definition bitset_clear_bit :: "bitset \<Rightarrow> nat \<Rightarrow> bitset option" where
  "bitset_clear_bit bset pos = bitset_update (\<lambda>w. w AND NOT (BITSET_MASK pos)) bset pos"

definition bitset_set_bit :: "bitset \<Rightarrow> nat \<Rightarrow> bitset option" where
  "bitset_set_bit bset pos = bitset_update (\<lambda>w. w OR BITSET_MASK pos) bset pos"

definition bitset_test_bit :: "bitset \<Rightarrow> nat \<Rightarrow> bool option" where
  "bitset_test_bit bset pos =
     (if pos \<ge> nbits bset then None
      else do { w \<leftarrow> bitset_word bset pos; Some (w AND BITSET_MASK pos \<noteq> 0) })"

section \<open>Abstraction\<close>

definition bitset_wf :: "bitset \<Rightarrow> bool" where
  "bitset_wf bset \<longleftrightarrow> nbits bset + 31 < 2 ^ 32 \<and> length (bits bset) = BITSET_USED (nbits bset)"

definition bitset_bit :: "bitset \<Rightarrow> nat \<Rightarrow> bool" where
  "bitset_bit bset pos \<longleftrightarrow> bit (bits bset ! (pos div 32)) (pos mod 32)"

definition bitset_abs :: "bitset \<Rightarrow> bool list" where
  "bitset_abs bset = map (bitset_bit bset) [0..<nbits bset]"

lemma bitset_index:
  assumes "bitset_wf bset" and "pos < nbits bset"
  shows "pos div 32 < length (bits bset)"
  using assms by (simp add: bitset_wf_def BITSET_USED_def BITSET_BITS_def div_less_iff_less_mult)

lemma bitset_word_wf:
  assumes "bitset_wf bset" and "pos < nbits bset"
  shows "bitset_word bset pos = Some (bits bset ! (pos div 32))"
  using bitset_index [OF assms] by (simp add: bitset_word_def BITSET_BITS_def)

lemma and_mask_bit: "w AND BITSET_MASK pos \<noteq> 0 \<longleftrightarrow> bit w (pos mod 32)"
proof
  assume b: "bit w (pos mod 32)"
  have "bit (w AND BITSET_MASK pos) (pos mod 32)"
    using b by (auto simp: BITSET_MASK_def BITSET_BITS_def bit_simps)
  then show "w AND BITSET_MASK pos \<noteq> 0" by auto
next
  assume "w AND BITSET_MASK pos \<noteq> 0"
  then obtain n where "bit (w AND BITSET_MASK pos) n" by (auto simp: bit_eq_iff)
  then show "bit w (pos mod 32)" by (auto simp: BITSET_MASK_def BITSET_BITS_def bit_simps)
qed

lemma bitset_wf_init [wf_intros]: "n + 31 < 2 ^ 32 \<Longrightarrow> bitset_wf (bitset_init n)"
  by (simp add: bitset_wf_def bitset_init_def)

lemma bitset_update_bit:
  assumes wf: "bitset_wf bset" and pos: "pos < nbits bset"
    and f: "\<And>w i. i < 32 \<Longrightarrow> bit (f w) i = (if i = pos mod 32 then b else bit w i)"
  shows "\<exists>bs'. bitset_update f bset pos = Some bs' \<and> bitset_wf bs'
    \<and> bitset_abs bs' = (bitset_abs bset)[pos := b]"
proof -
  let ?i = "pos div 32"
  let ?bs' = "bset\<lparr>bits := (bits bset)[?i := f (bits bset ! ?i)]\<rparr>"
  have i: "?i < length (bits bset)" by (rule bitset_index [OF wf pos])
  have upd: "bitset_update f bset pos = Some ?bs'"
    using pos bitset_word_wf [OF wf pos] by (simp add: bitset_update_def BITSET_BITS_def)
  have split: "p = pos \<longleftrightarrow> p div 32 = ?i \<and> p mod 32 = pos mod 32" for p by (metis div_mult_mod_eq)
  have bit: "bitset_bit ?bs' p = (if p = pos then b else bitset_bit bset p)" for p
  proof (cases "p div 32 = ?i")
    case True
    with i f [of "p mod 32"] split [of p] show ?thesis by (auto simp: bitset_bit_def)
  next
    case False
    with split [of p] show ?thesis by (auto simp: bitset_bit_def)
  qed
  have "bitset_abs ?bs' = (bitset_abs bset)[pos := b]"
    by (rule nth_equalityI) (auto simp: bitset_abs_def bit nth_list_update)
  moreover have "bitset_wf ?bs'" using wf by (simp add: bitset_wf_def)
  ultimately show ?thesis using upd by blast
qed

text \<open>The operations refine the operations on lists of truth values.\<close>

lemma bitset_set_bit_abs:
  assumes "bitset_wf bset" and "pos < nbits bset"
  shows "\<exists>bs'. bitset_set_bit bset pos = Some bs' \<and> bitset_wf bs' \<and> bitset_abs bs' = (bitset_abs bset)[pos := True]"
  unfolding bitset_set_bit_def using assms
  by (intro bitset_update_bit) (auto simp: BITSET_MASK_def BITSET_BITS_def bit_simps)

lemma bitset_clear_bit_abs:
  assumes "bitset_wf bset" and "pos < nbits bset"
  shows "\<exists>bs'. bitset_clear_bit bset pos = Some bs' \<and> bitset_wf bs' \<and> bitset_abs bs' = (bitset_abs bset)[pos := False]"
  unfolding bitset_clear_bit_def using assms
  by (intro bitset_update_bit) (auto simp: BITSET_MASK_def BITSET_BITS_def bit_simps)

lemma bitset_test_bit_abs:
  assumes "bitset_wf bset" and "pos < nbits bset"
  shows "bitset_test_bit bset pos = Some (bitset_abs bset ! pos)"
  using assms bitset_word_wf [OF assms]
  by (simp add: bitset_test_bit_def and_mask_bit bitset_abs_def bitset_bit_def)

lemma bitset_reset_abs:
  assumes "bitset_wf bset"
  shows "bitset_wf (bitset_reset bset) \<and> bitset_abs (bitset_reset bset) = replicate (nbits bset) False"
proof
  have nth: "bits (bitset_reset bset) ! i = 0" if "i < length (bits bset)" for i
    using assms that by (simp add: bitset_reset_def bitset_wf_def)
  have "bitset_bit (bitset_reset bset) p = False" if "p < nbits bset" for p
    using nth [OF bitset_index [OF assms that]] by (simp add: bitset_bit_def)
  then show "bitset_abs (bitset_reset bset) = replicate (nbits bset) False"
    by (intro nth_equalityI) (auto simp: bitset_abs_def bitset_reset_def)
  show "bitset_wf (bitset_reset bset)" using assms by (simp add: bitset_wf_def bitset_reset_def)
qed

lemma bitset_out_of_range:
  "nbits bset \<le> pos \<Longrightarrow> bitset_set_bit bset pos = None \<and> bitset_clear_bit bset pos = None \<and> bitset_test_bit bset pos = None"
  by (simp add: bitset_set_bit_def bitset_clear_bit_def bitset_test_bit_def bitset_update_def)

section \<open>Properties\<close>

text \<open>A bit of the set is changed by setting or clearing it and by nothing else; positions out of
  range are refused.\<close>

theorem bitset_is_a_bit_vector:
  assumes "bitset_wf b" and "pos < nbits b"
  shows "(\<exists>b'. bitset_set_bit b pos = Some b' \<and> bitset_wf b' \<and>
      (\<forall>p < nbits b. bitset_test_bit b' p = (if p = pos then Some True else bitset_test_bit b p))) \<and>
    (\<exists>b'. bitset_clear_bit b pos = Some b' \<and> bitset_wf b' \<and>
      (\<forall>p < nbits b. bitset_test_bit b' p = (if p = pos then Some False else bitset_test_bit b p))) \<and>
    bitset_set_bit b (nbits b) = None \<and> bitset_test_bit b (nbits b) = None"
proof -
  obtain b1 where b1: "bitset_set_bit b pos = Some b1" "bitset_wf b1" "bitset_abs b1 = (bitset_abs b)[pos := True]"
    using bitset_set_bit_abs [OF assms] by blast
  obtain b2 where b2: "bitset_clear_bit b pos = Some b2" "bitset_wf b2" "bitset_abs b2 = (bitset_abs b)[pos := False]"
    using bitset_clear_bit_abs [OF assms] by blast
  have len: "nbits b1 = nbits b" "nbits b2 = nbits b"
    using arg_cong [OF b1(3), of length] arg_cong [OF b2(3), of length] by (simp_all add: bitset_abs_def)
  have n: "length (bitset_abs b) = nbits b" by (simp add: bitset_abs_def)
  have "bitset_test_bit b1 p = (if p = pos then Some True else bitset_test_bit b p)"
    and "bitset_test_bit b2 p = (if p = pos then Some False else bitset_test_bit b p)" if "p < nbits b" for p
    using that bitset_test_bit_abs [OF b1(2), of p] bitset_test_bit_abs [OF b2(2), of p]
      bitset_test_bit_abs [OF assms(1), of p] b1(3) b2(3) len n by auto
  with b1 b2 bitset_out_of_range [of b "nbits b"] show ?thesis by auto
qed

theorem bitset_is_a_bit_vector_witness:
  "\<exists>b'. bitset_set_bit (bitset_init 40) 33 = Some b' \<and> bitset_test_bit b' 33 = Some True"
proof -
  have "bitset_wf (bitset_init 40)" by (rule bitset_wf_init) simp
  moreover have "nbits (bitset_init 40) = 40" by (simp add: bitset_init_def)
  ultimately show ?thesis using bitset_is_a_bit_vector [of "bitset_init 40" 33] by auto
qed

end
