(* ===== verification/Splaytree.thy ===== *)
theory Splaytree imports Interfaces begin

text \<open>
  \<open>src/src/splaytree.c\<close>: Sleator's top-down splay tree with subtree sizes, used by \<open>stat_cache.c\<close>. The
  loop hangs the nodes it passes on a left and a right tree through the pointers \<open>l\<close> and \<open>r\<close>; the two
  trees under construction are the lists \<open>L\<close> and \<open>R\<close>, outermost node first. \<open>malloc\<close> is taken to
  succeed. Keys are C ints; \<open>compare\<close> subtracts them, which is the order only while the difference
  does not overflow.
\<close>

datatype 'd splay_tree =
  Null | Node (left: "'d splay_tree") (key: int) (data: 'd) (nsize: int) (right: "'d splay_tree")

definition compare :: "int \<Rightarrow> int \<Rightarrow> int" where
  "compare i j = sint (word_of_int (i - j) :: 32 word)"

fun node_size :: "'d splay_tree \<Rightarrow> int" where
  "node_size Null = 0"
| "node_size (Node a k d s b) = s"

type_synonym 'd spine = "(int \<times> 'd \<times> 'd splay_tree) list"

function splay_loop ::
  "int \<Rightarrow> 'd spine \<Rightarrow> 'd spine \<Rightarrow> int \<Rightarrow> int \<Rightarrow> 'd splay_tree
    \<Rightarrow> 'd spine \<times> 'd spine \<times> int \<times> int \<times> 'd splay_tree" where
  "splay_loop i L R l_size r_size Null = (L, R, l_size, r_size, Null)"
| "splay_loop i L R l_size r_size (Node a k d s b) = (
     let comp = compare i k in
     if comp < 0 then
       (case a of
          Null \<Rightarrow> (L, R, l_size, r_size, Node a k d s b)
        | Node ya yk yd ys yb \<Rightarrow>
            if compare i yk < 0 then
              let t = Node yb k d (node_size yb + node_size b + 1) b in
              if ya = Null then (L, R, l_size, r_size, Node ya yk yd ys t)
              else splay_loop i L (R @ [(yk, yd, t)]) l_size (r_size + (1 + node_size t)) ya
            else splay_loop i L (R @ [(k, d, b)]) l_size (r_size + (1 + node_size b)) a)
     else if comp > 0 then
       (case b of
          Null \<Rightarrow> (L, R, l_size, r_size, Node a k d s b)
        | Node ya yk yd ys yb \<Rightarrow>
            if compare i yk > 0 then
              let t = Node a k d (node_size a + node_size ya + 1) ya in
              if yb = Null then (L, R, l_size, r_size, Node t yk yd ys yb)
              else splay_loop i (L @ [(yk, yd, t)]) R (l_size + (1 + node_size t)) r_size yb
            else splay_loop i (L @ [(k, d, a)]) R (l_size + (1 + node_size a)) r_size b)
     else (L, R, l_size, r_size, Node a k d s b))"
  by pat_completeness auto
termination
  by (relation "measure (\<lambda>(i, L, R, ls, rs, t). size t)") auto

declare splay_loop.simps(2) [simp del]

text \<open>The loops that correct the sizes along the two spines, and \<open>assemble\<close>.\<close>

fun build_left :: "int \<Rightarrow> 'd spine \<Rightarrow> 'd splay_tree \<Rightarrow> 'd splay_tree" where
  "build_left l_size [] inner = inner"
| "build_left l_size ((k, d, a) # L) inner =
     Node a k d l_size (build_left (l_size - (1 + node_size a)) L inner)"

fun build_right :: "int \<Rightarrow> 'd spine \<Rightarrow> 'd splay_tree \<Rightarrow> 'd splay_tree" where
  "build_right r_size [] inner = inner"
| "build_right r_size ((k, d, b) # R) inner =
     Node (build_right (r_size - (1 + node_size b)) R inner) k d r_size b"

definition splaytree_splay :: "'d splay_tree \<Rightarrow> int \<Rightarrow> 'd splay_tree" where
  "splaytree_splay t i =
     (case splay_loop i [] [] 0 0 t of
        (L, R, l_size, r_size, Node a k d s b) \<Rightarrow>
          let l_size = l_size + node_size a; r_size = r_size + node_size b
          in Node (build_left l_size L a) k d (l_size + r_size + 1) (build_right r_size R b)
      | _ \<Rightarrow> Null)"

definition splaytree_insert :: "'d splay_tree \<Rightarrow> int \<Rightarrow> 'd \<Rightarrow> 'd splay_tree" where
  "splaytree_insert t i x =
     (case splaytree_splay t i of
        Null \<Rightarrow> Node Null i x 1 Null
      | Node a k d s b \<Rightarrow>
          if compare i k = 0 then Node a k d s b
          else if compare i k < 0 then
            let t = Node Null k d (1 + node_size b) b in Node a i x (1 + node_size a + node_size t) t
          else
            let t = Node a k d (1 + node_size a) Null in Node t i x (1 + node_size t + node_size b) b)"

fun set_right :: "'d splay_tree \<Rightarrow> 'd splay_tree \<Rightarrow> 'd splay_tree" where
  "set_right Null r = Null"
| "set_right (Node a k d s b) r = Node a k d s r"

fun set_size :: "'d splay_tree \<Rightarrow> int \<Rightarrow> 'd splay_tree" where
  "set_size Null n = Null"
| "set_size (Node a k d s b) n = Node a k d n b"

definition splaytree_delete :: "'d splay_tree \<Rightarrow> int \<Rightarrow> 'd splay_tree" where
  "splaytree_delete t i =
     (case splaytree_splay t i of
        Null \<Rightarrow> Null
      | Node a k d s b \<Rightarrow>
          if compare i k = 0 then
            let x = (if a = Null then b else set_right (splaytree_splay a i) b)
            in set_size x (node_size t - 1)
          else Node a k d s b)"

section \<open>Specification\<close>

fun inorder :: "'d splay_tree \<Rightarrow> (int \<times> 'd) list" where
  "inorder Null = []"
| "inorder (Node a k d s b) = inorder a @ (k, d) # inorder b"

fun sizes_ok :: "'d splay_tree \<Rightarrow> bool" where
  "sizes_ok Null = True"
| "sizes_ok (Node a k d s b) \<longleftrightarrow>
     sizes_ok a \<and> sizes_ok b \<and> s = int (length (inorder (Node a k d s b)))"

text \<open>The keys \<open>stat_cache.c\<close> uses are below \<open>2^31\<close> and not negative.\<close>

definition valid_key :: "int \<Rightarrow> bool" where
  "valid_key k \<longleftrightarrow> 0 \<le> k \<and> k < 2 ^ 31"

definition sorted_keys :: "(int \<times> 'd) list \<Rightarrow> bool" where
  "sorted_keys xs \<longleftrightarrow> sorted_wrt (<) (map fst xs) \<and> (\<forall>k \<in> fst ` set xs. valid_key k)"

definition splay_inv :: "'d splay_tree \<Rightarrow> bool" where
  "splay_inv t \<longleftrightarrow> sizes_ok t \<and> sorted_keys (inorder t)"

lemma compare_valid:
  assumes "valid_key i" and "valid_key j"
  shows "compare i j = i - j"
proof -
  have "- (2 ^ 31) \<le> i - j" "i - j < 2 ^ 31" using assms by (auto simp: valid_key_def)
  then show ?thesis
    unfolding compare_def by (simp add: signed_of_int signed_take_bit_int_eq_self del: of_int_diff)
qed

section \<open>The loop\<close>

definition in_left :: "'d spine \<Rightarrow> (int \<times> 'd) list" where
  "in_left L = concat (map (\<lambda>(k, d, a). inorder a @ [(k, d)]) L)"

definition in_right :: "'d spine \<Rightarrow> (int \<times> 'd) list" where
  "in_right R = concat (map (\<lambda>(k, d, b). (k, d) # inorder b) (rev R))"

definition spine_sizes :: "'d spine \<Rightarrow> bool" where
  "spine_sizes S \<longleftrightarrow> (\<forall>(k, d, t) \<in> set S. sizes_ok t)"

lemma in_left_snoc [simp]: "in_left (L @ [(k, d, a)]) = in_left L @ inorder a @ [(k, d)]"
  and in_right_snoc [simp]: "in_right (R @ [(k, d, b)]) = (k, d) # inorder b @ in_right R"
  and in_left_Nil [simp]: "in_left [] = []" and in_right_Nil [simp]: "in_right [] = []"
  and in_left_Cons: "in_left ((k, d, a) # L) = inorder a @ (k, d) # in_left L"
  and in_right_Cons: "in_right ((k, d, b) # R) = in_right R @ (k, d) # inorder b"
  by (auto simp: in_left_def in_right_def)

lemma spine_sizes_snoc [simp]: "spine_sizes (S @ [(k, d, t)]) \<longleftrightarrow> spine_sizes S \<and> sizes_ok t"
  and spine_sizes_Nil [simp]: "spine_sizes []"
  and spine_sizes_Cons [simp]: "spine_sizes ((k, d, t) # S) \<longleftrightarrow> sizes_ok t \<and> spine_sizes S"
  by (auto simp: spine_sizes_def)

lemma node_size_inorder: "sizes_ok t \<Longrightarrow> node_size t = int (length (inorder t))"
  by (cases t) auto

lemma inorder_build_left: "inorder (build_left n L inner) = in_left L @ inorder inner"
  by (induction n L inner rule: build_left.induct) (auto simp: in_left_Cons)

lemma inorder_build_right: "inorder (build_right n R inner) = inorder inner @ in_right R"
  by (induction n R inner rule: build_right.induct) (auto simp: in_right_Cons)

lemma sizes_build_left:
  "spine_sizes L \<Longrightarrow> sizes_ok inner \<Longrightarrow> n = int (length (in_left L @ inorder inner)) \<Longrightarrow>
     sizes_ok (build_left n L inner)"
  by (induction n L inner rule: build_left.induct)
    (auto simp: in_left_Cons inorder_build_left node_size_inorder)

lemma sizes_build_right:
  "spine_sizes R \<Longrightarrow> sizes_ok inner \<Longrightarrow> n = int (length (inorder inner @ in_right R)) \<Longrightarrow>
     sizes_ok (build_right n R inner)"
  by (induction n R inner rule: build_right.induct)
    (auto simp: in_right_Cons inorder_build_right node_size_inorder)

text \<open>The children of the node the loop stops at have correct sizes; its own is corrected later.\<close>

fun kids_ok :: "'d splay_tree \<Rightarrow> bool" where
  "kids_ok Null = True"
| "kids_ok (Node a k d s b) \<longleftrightarrow> sizes_ok a \<and> sizes_ok b"

text \<open>Where the loop stops, and the rule by which invariants of the loop are proved: they survive the two
  rotations and the two links.\<close>

fun stops :: "int \<Rightarrow> 'd splay_tree \<Rightarrow> bool" where
  "stops i Null = True"
| "stops i (Node a k d s b) \<longleftrightarrow> (compare i k < 0 \<longrightarrow> a = Null) \<and> (compare i k > 0 \<longrightarrow> b = Null)"

lemma splay_loop_invariant:
  assumes init: "P L R ls rs t"
    and rotate_right: "\<And>L R ls rs ya yk yd ys yb k d s b.
      P L R ls rs (Node (Node ya yk yd ys yb) k d s b) \<Longrightarrow> compare i yk < 0 \<Longrightarrow>
      P L R ls rs (Node ya yk yd ys (Node yb k d (node_size yb + node_size b + 1) b))"
    and rotate_left: "\<And>L R ls rs ya yk yd ys yb k d s a.
      P L R ls rs (Node a k d s (Node ya yk yd ys yb)) \<Longrightarrow> compare i yk > 0 \<Longrightarrow>
      P L R ls rs (Node (Node a k d (node_size a + node_size ya + 1) ya) yk yd ys yb)"
    and link_right: "\<And>L R ls rs a k d s b. P L R ls rs (Node a k d s b) \<Longrightarrow> a \<noteq> Null \<Longrightarrow> compare i k < 0 \<Longrightarrow>
      P L (R @ [(k, d, b)]) ls (rs + (1 + node_size b)) a"
    and link_left: "\<And>L R ls rs a k d s b. P L R ls rs (Node a k d s b) \<Longrightarrow> b \<noteq> Null \<Longrightarrow> compare i k > 0 \<Longrightarrow>
      P (L @ [(k, d, a)]) R (ls + (1 + node_size a)) rs b"
  shows "splay_loop i L R ls rs t = (L', R', ls', rs', t') \<Longrightarrow> P L' R' ls' rs' t' \<and> stops i t'"
  using init
proof (induction t arbitrary: L R ls rs rule: measure_induct_rule [where f = size])
  case (less t)
  show ?case
  proof (cases t)
    case Null
    with less.prems show ?thesis by simp
  next
    case (Node a k d s b)
    note t = this
    note P = less.prems(2) [unfolded t]
    note run = less.prems(1) [unfolded t splay_loop.simps(2) [of i L R ls rs a k d s b]]
    consider (lt) "compare i k < 0" | (gt) "compare i k > 0" | (eq) "compare i k = 0" by linarith
    then show ?thesis
    proof cases
      case eq
      with P run show ?thesis by auto
    next
      case lt
      show ?thesis
      proof (cases a)
        case Null
        with lt P run show ?thesis by auto
      next
        case (Node ya yk yd ys yb)
        note a = this
        note rot = rotate_right [OF P [unfolded a]]
        from lt a run consider
          (stop) "compare i yk < 0" "ya = Null"
            "(L', R', ls', rs', t') = (L, R, ls, rs, Node ya yk yd ys (Node yb k d (node_size yb + node_size b + 1) b))"
          | (deep) "compare i yk < 0" "ya \<noteq> Null"
            "splay_loop i L (R @ [(yk, yd, Node yb k d (node_size yb + node_size b + 1) b)]) ls
               (rs + (1 + node_size (Node yb k d (node_size yb + node_size b + 1) b))) ya = (L', R', ls', rs', t')"
          | (link) "splay_loop i L (R @ [(k, d, b)]) ls (rs + (1 + node_size b)) a = (L', R', ls', rs', t')"
          by (auto simp: Let_def split: if_splits)
        then show ?thesis
        proof cases
          case stop
          with rot show ?thesis by auto
        next
          case deep
          from less.IH [OF _ deep(3) link_right [OF rot [OF deep(1)] deep(2,1)]] show ?thesis by (simp add: t a)
        next
          case link
          from less.IH [OF _ link link_right [OF P _ lt]] show ?thesis by (simp add: t a)
        qed
      qed
    next
      case gt
      then have nlt: "\<not> compare i k < 0" by simp
      show ?thesis
      proof (cases b)
        case Null
        with gt P run show ?thesis by auto
      next
        case (Node ya yk yd ys yb)
        note b = this
        note rot = rotate_left [OF P [unfolded b]]
        from gt b run consider
          (stop) "compare i yk > 0" "yb = Null"
            "(L', R', ls', rs', t') = (L, R, ls, rs, Node (Node a k d (node_size a + node_size ya + 1) ya) yk yd ys yb)"
          | (deep) "compare i yk > 0" "yb \<noteq> Null"
            "splay_loop i (L @ [(yk, yd, Node a k d (node_size a + node_size ya + 1) ya)]) R
               (ls + (1 + node_size (Node a k d (node_size a + node_size ya + 1) ya))) rs yb = (L', R', ls', rs', t')"
          | (link) "splay_loop i (L @ [(k, d, a)]) R (ls + (1 + node_size a)) rs b = (L', R', ls', rs', t')"
          by (auto simp: Let_def split: if_splits)
        then show ?thesis
        proof cases
          case stop
          with rot show ?thesis by auto
        next
          case deep
          from less.IH [OF _ deep(3) link_left [OF rot [OF deep(1)] deep(2,1)]] show ?thesis by (simp add: t b)
        next
          case link
          from less.IH [OF _ link link_left [OF P _ gt]] show ?thesis by (simp add: t b)
        qed
      qed
    qed
  qed
qed

definition loop_inv :: "(int \<times> 'd) list \<Rightarrow> int \<Rightarrow> 'd spine \<Rightarrow> 'd spine \<Rightarrow> int \<Rightarrow> int \<Rightarrow> 'd splay_tree \<Rightarrow> bool" where
  "loop_inv xs i L R ls rs t \<longleftrightarrow>
     xs = in_left L @ inorder t @ in_right R \<and> t \<noteq> Null \<and>
     spine_sizes L \<and> spine_sizes R \<and> kids_ok t \<and>
     ls = int (length (in_left L)) \<and> rs = int (length (in_right R)) \<and>
     (\<forall>x \<in> set (in_left L). fst x < i) \<and> (\<forall>x \<in> set (in_right R). i < fst x)"

lemma kids_ok_sizes: "sizes_ok t \<Longrightarrow> kids_ok t"
  by (cases t) auto

lemma splay_loop_inv:
  assumes xs: "sorted_keys xs" "valid_key i" and inv: "loop_inv xs i L R ls rs t"
    and run: "splay_loop i L R ls rs t = (L', R', ls', rs', t')"
  shows "loop_inv xs i L' R' ls' rs' t' \<and> stops i t'"
proof (rule splay_loop_invariant [where P = "loop_inv xs i", OF inv _ _ _ _ run])
  fix L R ls rs a k d s b
  assume inv: "loop_inv xs i L R ls rs (Node a k d s b)"
  have xs_eq: "xs = in_left L @ (inorder a @ (k, d) # inorder b) @ in_right R"
    using inv by (simp add: loop_inv_def)
  have k: "valid_key k" using xs(1) xs_eq by (auto simp: sorted_keys_def)
  have cmp: "compare i k = i - k" using compare_valid [OF xs(2) k] .
  have ab: "\<forall>x \<in> set (inorder a). fst x < k" "\<forall>x \<in> set (inorder b). k < fst x"
    using xs(1) xs_eq by (auto simp: sorted_keys_def sorted_wrt_append)
  show "a \<noteq> Null \<Longrightarrow> compare i k < 0 \<Longrightarrow> loop_inv xs i L (R @ [(k, d, b)]) ls (rs + (1 + node_size b)) a"
    using inv ab cmp by (auto simp: loop_inv_def node_size_inorder kids_ok_sizes)
  show "b \<noteq> Null \<Longrightarrow> 0 < compare i k \<Longrightarrow> loop_inv xs i (L @ [(k, d, a)]) R (ls + (1 + node_size a)) rs b"
    using inv ab cmp by (auto simp: loop_inv_def node_size_inorder kids_ok_sizes)
qed (auto simp: loop_inv_def node_size_inorder)

section \<open>The operations\<close>

text \<open>Splaying keeps the entries and the invariant, brings the key to the root when it is there, and
  otherwise a neighbour.\<close>

lemma splaytree_splay_Null [simp]: "splaytree_splay Null i = Null"
  by (simp add: splaytree_splay_def)

lemma splaytree_splay_spec:
  assumes inv: "splay_inv t" and i: "valid_key i" and t: "t \<noteq> Null"
  shows "\<exists>a k d s b. splaytree_splay t i = Node a k d s b \<and> inorder (Node a k d s b) = inorder t
    \<and> splay_inv (Node a k d s b) \<and>
    (i < k \<longrightarrow> (\<forall>x \<in> set (inorder a). fst x < i)) \<and> (k < i \<longrightarrow> (\<forall>x \<in> set (inorder b). i < fst x)) \<and>
    (i \<in> fst ` set (inorder t) \<longrightarrow> k = i) \<and> ((\<forall>x \<in> set (inorder t). fst x < i) \<longrightarrow> b = Null)"
proof -
  obtain L R ls rs t' where run: "splay_loop i [] [] 0 0 t = (L, R, ls, rs, t')"
    by (cases "splay_loop i [] [] 0 0 t") auto
  have srt: "sorted_keys (inorder t)" using inv by (simp add: splay_inv_def)
  have "loop_inv (inorder t) i [] [] 0 0 t"
    using inv t by (simp add: loop_inv_def splay_inv_def kids_ok_sizes)
  from splay_loop_inv [OF srt i this run]
  have li: "loop_inv (inorder t) i L R ls rs t'" and st: "stops i t'" by auto
  then obtain a k d s b where t': "t' = Node a k d s b" by (cases t') (auto simp: loop_inv_def)
  define ls' where "ls' = ls + node_size a"
  define rs' where "rs' = rs + node_size b"
  let ?a = "build_left ls' L a" and ?b = "build_right rs' R b"
  have eq: "splaytree_splay t i = Node ?a k d (ls' + rs' + 1) ?b"
    by (simp add: splaytree_splay_def run t' ls'_def rs'_def Let_def)
  have xs: "inorder t = (in_left L @ inorder a) @ (k, d) # (inorder b @ in_right R)"
    using li t' by (simp add: loop_inv_def)
  have ino: "inorder (Node ?a k d (ls' + rs' + 1) ?b) = inorder t"
    by (simp add: inorder_build_left inorder_build_right xs)
  have ls': "ls' = int (length (in_left L @ inorder a))" and rs': "rs' = int (length (inorder b @ in_right R))"
    using li t' by (auto simp: loop_inv_def ls'_def rs'_def node_size_inorder)
  have sa: "sizes_ok ?a" and sb: "sizes_ok ?b"
    using li t' ls' rs' by (auto simp: loop_inv_def intro!: sizes_build_left sizes_build_right)
  have "sizes_ok (Node ?a k d (ls' + rs' + 1) ?b)"
    using sa sb by (simp add: inorder_build_left inorder_build_right ls' rs')
  then have sinv: "splay_inv (Node ?a k d (ls' + rs' + 1) ?b)"
    using srt ino unfolding splay_inv_def by metis
  have "valid_key k" using srt xs by (auto simp: sorted_keys_def)
  then have cmp: "compare i k = i - k" by (rule compare_valid [OF i])
  have L: "\<forall>x \<in> set (in_left L). fst x < i" and R: "\<forall>x \<in> set (in_right R). i < fst x"
    using li by (auto simp: loop_inv_def)
  have ab: "\<forall>x \<in> set (inorder a). fst x < k" "\<forall>x \<in> set (inorder b). k < fst x"
    using srt xs by (auto simp: sorted_keys_def sorted_wrt_append)
  have stop: "i < k \<Longrightarrow> a = Null" "k < i \<Longrightarrow> b = Null" using st t' cmp by auto
  have below: "i < k \<longrightarrow> (\<forall>x \<in> set (inorder ?a). fst x < i)"
    using L stop(1) by (auto simp: inorder_build_left)
  have above: "k < i \<longrightarrow> (\<forall>x \<in> set (inorder ?b). i < fst x)"
    using R stop(2) by (auto simp: inorder_build_right)
  have found: "k = i" if "i \<in> fst ` set (inorder t)"
  proof (rule ccontr)
    assume "k \<noteq> i"
    then consider "i < k" | "k < i" by linarith
    then show False
    proof cases
      case 1
      with that xs stop(1) L R ab(2) show False by fastforce
    next
      case 2
      with that xs stop(2) L R ab(1) show False by fastforce
    qed
  qed
  have last: "?b = Null" if all: "\<forall>x \<in> set (inorder t). fst x < i"
  proof -
    have "k < i" using all xs by auto
    then have "b = Null" by (rule stop(2))
    moreover have "R = []"
    proof (cases R rule: rev_cases)
      case (snoc R1 x)
      obtain k1 d1 b1 where "x = (k1, d1, b1)" by (cases x) auto
      with snoc have "(k1, d1) \<in> set (in_right R)" by simp
      then have "i < k1" "(k1, d1) \<in> set (inorder t)" using R xs by auto
      moreover from this(2) all have "k1 < i" by fastforce
      ultimately show ?thesis by simp
    qed simp
    ultimately show ?thesis by simp
  qed
  show ?thesis using eq ino sinv below above found last by blast
qed

definition entries :: "'d splay_tree \<Rightarrow> int \<Rightarrow> 'd option" where
  "entries t = map_of (inorder t)"

text \<open>The lookup idiom of the callers: splay, then compare the key of the root.\<close>

definition splaytree_find :: "'d splay_tree \<Rightarrow> int \<Rightarrow> 'd option" where
  "splaytree_find t i =
     (case splaytree_splay t i of Null \<Rightarrow> None | Node a k d s b \<Rightarrow> if k = i then Some d else None)"

lemma splay_inv_Null [simp]: "splay_inv Null"
  by (simp add: splay_inv_def sorted_keys_def)

lemma splay_inv_NodeD:
  assumes "splay_inv (Node a k d s b)"
  shows "\<forall>x \<in> set (inorder a). fst x < k" "\<forall>x \<in> set (inorder b). k < fst x" "valid_key k"
    "sizes_ok a" "sizes_ok b" "sorted_keys (inorder a)" "sorted_keys (inorder b)"
  using assms by (auto simp: splay_inv_def sorted_keys_def sorted_wrt_append)

lemma splay_inv_NodeI:
  assumes "splay_inv a" "splay_inv b" "valid_key k"
    and ab: "\<forall>x \<in> set (inorder a). fst x < k" "\<forall>x \<in> set (inorder b). k < fst x"
    and s: "s = 1 + node_size a + node_size b"
  shows "splay_inv (Node a k d s b)"
proof -
  have "\<forall>x \<in> set (inorder a). \<forall>y \<in> set (inorder b). fst x < fst y"
    using ab by (meson order_less_trans)
  moreover have "sizes_ok (Node a k d s b)" using assms(1,2) s by (simp add: splay_inv_def node_size_inorder)
  ultimately show ?thesis using assms(1-3) ab by (auto simp: splay_inv_def sorted_keys_def sorted_wrt_append)
qed

lemma entries_Null [simp]: "entries Null = (\<lambda>j. None)"
  by (simp add: entries_def fun_eq_iff)

lemma map_of_absent: "\<forall>x \<in> set xs. fst x \<noteq> i \<Longrightarrow> map_of xs i = None"
  by (induction xs) auto

lemma entries_Node:
  assumes "splay_inv (Node a k d s b)"
  shows "entries (Node a k d s b) =
    (\<lambda>j. if j = k then Some d else if j < k then entries a j else entries b j)"
proof
  fix j
  note D = splay_inv_NodeD [OF assms]
  have "map_of (inorder a) j = None" if "k \<le> j" using D(1) that by (intro map_of_absent) fastforce
  moreover have "map_of (inorder b) j = None" if "j \<le> k" using D(2) that by (intro map_of_absent) fastforce
  ultimately show "entries (Node a k d s b) j = (if j = k then Some d else if j < k then entries a j else entries b j)"
    by (auto simp: entries_def map_add_def split: option.split)
qed

lemma entries_inorder: "inorder t = inorder t' \<Longrightarrow> entries t = entries t'"
  by (simp add: entries_def)

lemma entries_dom: "i \<in> fst ` set (inorder t) \<longleftrightarrow> entries t i \<noteq> None"
  by (simp add: entries_def map_of_eq_None_iff)

lemma splaytree_find_entries:
  assumes "splay_inv t" and "valid_key i"
  shows "splaytree_find t i = entries t i"
proof (cases "t = Null")
  case True
  then show ?thesis by (simp add: splaytree_find_def entries_def)
next
  case False
  from splaytree_splay_spec [OF assms False] obtain a k d s b where
    sp: "splaytree_splay t i = Node a k d s b" "inorder (Node a k d s b) = inorder t" "splay_inv (Node a k d s b)"
      "i \<in> fst ` set (inorder t) \<longrightarrow> k = i" by blast
  have ent: "entries t = (\<lambda>j. if j = k then Some d else if j < k then entries a j else entries b j)"
    using entries_Node [OF sp(3)] entries_inorder [OF sp(2)] by simp
  show ?thesis
  proof (cases "k = i")
    case True
    with ent show ?thesis by (simp add: splaytree_find_def sp(1))
  next
    case False
    with sp(4) have "entries t i = None" using entries_dom [of i t] by blast
    with False show ?thesis by (simp add: splaytree_find_def sp(1))
  qed
qed

lemma splay_inv_sub:
  assumes "splay_inv (Node a k d s b)"
  shows "splay_inv a" "splay_inv b"
  using splay_inv_NodeD [OF assms] by (simp_all add: splay_inv_def)

lemma entries_absent:
  assumes "\<forall>x \<in> set (inorder t). fst x < i \<or> i < fst x"
  shows "entries t i = None"
  unfolding entries_def using assms by (intro map_of_absent) fastforce

lemma splaytree_insert_spec:
  assumes inv: "splay_inv t" and i: "valid_key i"
  shows "splay_inv (splaytree_insert t i x) \<and>
    entries (splaytree_insert t i x) = (if entries t i = None then (entries t)(i \<mapsto> x) else entries t)"
proof (cases "t = Null")
  case True
  then show ?thesis
    using i by (auto simp: splaytree_insert_def entries_def splay_inv_def sorted_keys_def)
next
  case False
  from splaytree_splay_spec [OF inv i False] obtain a k d s b where
    sp: "splaytree_splay t i = Node a k d s b" "inorder (Node a k d s b) = inorder t" "splay_inv (Node a k d s b)"
      "i < k \<longrightarrow> (\<forall>x \<in> set (inorder a). fst x < i)" "k < i \<longrightarrow> (\<forall>x \<in> set (inorder b). i < fst x)" by blast
  note D = splay_inv_NodeD [OF sp(3)] and sub = splay_inv_sub [OF sp(3)]
  have ent: "entries t = (\<lambda>j. if j = k then Some d else if j < k then entries a j else entries b j)"
    using entries_Node [OF sp(3)] entries_inorder [OF sp(2)] by simp
  have cmp: "compare i k = i - k" by (rule compare_valid [OF i D(3)])
  consider (eq) "i = k" | (lt) "i < k" | (gt) "k < i" by linarith
  then show ?thesis
  proof cases
    case eq
    have "splaytree_insert t i x = Node a k d s b" using eq sp(1) cmp by (simp add: splaytree_insert_def)
    with sp(3) ent eq entries_Node [OF sp(3)] show ?thesis by simp
  next
    case lt
    let ?t = "Node Null k d (1 + node_size b) b"
    let ?n = "Node a i x (1 + node_size a + node_size ?t) ?t"
    have below: "\<forall>x \<in> set (inorder a). fst x < i" using sp(4) lt by blast
    have t: "splay_inv ?t" using sub D by (intro splay_inv_NodeI) auto
    have n: "splay_inv ?n" using sub t i D below lt by (intro splay_inv_NodeI) fastforce+
    have ins: "splaytree_insert t i x = ?n" using lt sp(1) cmp by (simp add: splaytree_insert_def Let_def)
    have "entries a i = None" using below by (intro entries_absent) auto
    moreover have "entries a j = None" if "i \<le> j" for j using below that by (intro entries_absent) fastforce
    moreover have "entries b j = None" if "j \<le> k" for j using D(2) that by (intro entries_absent) fastforce
    ultimately have "entries ?n = (entries t)(i \<mapsto> x) \<and> entries t i = None"
      unfolding entries_Node [OF n] entries_Node [OF t] ent using lt by (auto simp: fun_eq_iff)
    with n ins show ?thesis by simp
  next
    case gt
    let ?t = "Node a k d (1 + node_size a) Null"
    let ?n = "Node ?t i x (1 + node_size ?t + node_size b) b"
    have above: "\<forall>x \<in> set (inorder b). i < fst x" using sp(5) gt by blast
    have t: "splay_inv ?t" using sub D by (intro splay_inv_NodeI) auto
    have n: "splay_inv ?n" using sub t i D above gt by (intro splay_inv_NodeI) fastforce+
    have ins: "splaytree_insert t i x = ?n" using gt sp(1) cmp by (simp add: splaytree_insert_def Let_def)
    have "entries b j = None" if "j \<le> i" for j using above that by (intro entries_absent) fastforce
    moreover have "entries a j = None" if "k \<le> j" for j using D(1) that by (intro entries_absent) fastforce
    ultimately have "entries ?n = (entries t)(i \<mapsto> x) \<and> entries t i = None"
      unfolding entries_Node [OF n] entries_Node [OF t] ent using gt by (auto simp: fun_eq_iff)
    with n ins show ?thesis by simp
  qed
qed

lemma length_inorder_size: "splay_inv t \<Longrightarrow> node_size t = int (length (inorder t))"
  by (simp add: splay_inv_def node_size_inorder)

lemma splaytree_delete_spec:
  assumes inv: "splay_inv t" and i: "valid_key i"
  shows "splay_inv (splaytree_delete t i) \<and> entries (splaytree_delete t i) = (entries t)(i := None)"
proof (cases "t = Null")
  case True
  then show ?thesis by (auto simp: splaytree_delete_def entries_def)
next
  case False
  from splaytree_splay_spec [OF inv i False] obtain a k d s b where
    sp: "splaytree_splay t i = Node a k d s b" "inorder (Node a k d s b) = inorder t" "splay_inv (Node a k d s b)"
      "i \<in> fst ` set (inorder t) \<longrightarrow> k = i" by blast
  note D = splay_inv_NodeD [OF sp(3)] and sub = splay_inv_sub [OF sp(3)]
  have ent: "entries t = (\<lambda>j. if j = k then Some d else if j < k then entries a j else entries b j)"
    using entries_Node [OF sp(3)] entries_inorder [OF sp(2)] by simp
  have cmp: "compare i k = i - k" by (rule compare_valid [OF i D(3)])
  have beyond: "entries a j = None" if "k \<le> j" for j using D(1) that by (intro entries_absent) fastforce
  have before: "entries b j = None" if "j \<le> k" for j using D(2) that by (intro entries_absent) fastforce
  have tsize: "node_size t - 1 = node_size a + node_size b"
  proof -
    have "length (inorder t) = length (inorder a) + 1 + length (inorder b)"
      using arg_cong [OF sp(2), of length] by simp
    then show ?thesis using inv sub by (simp add: length_inorder_size)
  qed
  show ?thesis
  proof (cases "i = k")
    case False
    then have "entries t i = None" using sp(4) entries_dom by blast
    moreover have "splaytree_delete t i = Node a k d s b" using False sp(1) cmp by (simp add: splaytree_delete_def)
    ultimately show ?thesis using sp(3) entries_inorder [OF sp(2)] by (simp add: fun_upd_idem)
  next
    case True
    show ?thesis
    proof (cases "a = Null")
      case aN: True
      have "splaytree_delete t i = set_size b (node_size t - 1)"
        using True aN sp(1) cmp by (simp add: splaytree_delete_def)
      also have "\<dots> = b" using tsize aN by (cases b) auto
      finally have del: "splaytree_delete t i = b" .
      have "entries b = (entries t)(i := None)"
        unfolding ent using True beyond before aN by (auto simp: fun_eq_iff)
      with del sub show ?thesis by simp
    next
      case aN: False
      from splaytree_splay_spec [OF sub(1) i aN] obtain a' k' d' s' b' where
        sp': "splaytree_splay a i = Node a' k' d' s' b'" "inorder (Node a' k' d' s' b') = inorder a"
          "splay_inv (Node a' k' d' s' b')" "(\<forall>x \<in> set (inorder a). fst x < i) \<longrightarrow> b' = Null" by blast
      have b': "b' = Null" using sp'(4) D(1) True by simp
      note D' = splay_inv_NodeD [OF sp'(3)] and sub' = splay_inv_sub [OF sp'(3)]
      let ?x = "Node a' k' d' (node_size t - 1) b"
      have del: "splaytree_delete t i = ?x"
        using True aN sp(1) sp'(1) cmp by (simp add: splaytree_delete_def)
      have k': "(k', d') \<in> set (inorder a)" using arg_cong [OF sp'(2), of set] by auto
      then have kk: "k' < k" using D(1) by auto
      have "node_size a = 1 + node_size a'"
        using arg_cong [OF sp'(2), of length] sub sub' b' by (simp add: length_inorder_size)
      then have x: "splay_inv ?x"
        using sub sub' D D' kk tsize by (intro splay_inv_NodeI) fastforce+
      have enta: "entries a = (\<lambda>j. if j = k' then Some d' else if j < k' then entries a' j else entries b' j)"
        using entries_Node [OF sp'(3)] entries_inorder [OF sp'(2)] by simp
      have "entries ?x = (entries t)(i := None)"
        unfolding entries_Node [OF x] ent enta b' using True before kk beyond by (auto simp: fun_eq_iff)
      with del x show ?thesis by simp
    qed
  qed
qed

text \<open>The tree is a dictionary that keeps the entry already there.\<close>

interpretation tree: dictionary splay_inv valid_key "\<lambda>k. k" entries "\<lambda>k d t. splaytree_insert t k d" "\<lambda>old new. old"
  by unfold_locales (auto simp: splaytree_insert_spec split: option.split)

section \<open>Properties\<close>

text \<open>C14: Over keys that are C ints and not negative, the tree is a finite map under splaying: a lookup
  after an insertion finds the new entry unless the key was already there, a lookup after a deletion
  finds it gone, other keys are untouched, and ordering and size fields stay correct.\<close>

theorem splaytree_is_a_map:
  assumes "splay_inv t" and "valid_key i" and "valid_key j"
  shows "splaytree_find (splaytree_insert t i x) j =
      (if j = i then Some (case splaytree_find t i of None \<Rightarrow> x | Some d \<Rightarrow> d) else splaytree_find t j) \<and>
    splaytree_find (splaytree_delete t i) j = (if j = i then None else splaytree_find t j) \<and>
    splay_inv (splaytree_insert t i x) \<and> splay_inv (splaytree_delete t i)"
  using assms splaytree_insert_spec [OF assms(1,2), of x] splaytree_delete_spec [OF assms(1,2)]
  by (auto simp: splaytree_find_entries split: option.split)

theorem splaytree_is_a_map_witness:
  "splaytree_find (splaytree_insert (splaytree_insert Null 7 ''a'') 3 ''b'') 7 = Some ''a''"
proof -
  have keys: "valid_key 7" "valid_key 3" by (simp_all add: valid_key_def)
  note first = splaytree_is_a_map [OF splay_inv_Null keys(1) keys(1), of "''a''"]
  then have "splay_inv (splaytree_insert Null 7 ''a'')" by blast
  from splaytree_is_a_map [OF this keys(2) keys(1), of "''b''"] first
  show ?thesis by (simp add: splaytree_find_def)
qed

end
