(* ===== verification/Data_Array.thy ===== *)
theory Data_Array imports Buffer_Number Interfaces "HOL-Library.List_Lexorder" begin

text \<open>
  \<open>src/src/array.c\<close> with the element types of \<open>data_string.c\<close>, \<open>data_integer.c\<close> and \<open>data_count.c\<close>
  (\<open>array.h\<close>): the insertion-ordered table with a sorted index that holds the request and response
  headers, the environment and the configuration. Elements are values; a returned pointer is the
  element itself. Elements of the other types (\<open>data_array.c\<close>, \<open>data_config.c\<close>, \<open>data_fastcgi.c\<close>) are kept
  with their type and no contents. The key comparison is an interface, \<open>key_order\<close>: on keys without
  the characters between \<open>Z\<close> and \<open>a\<close> the caseless comparison satisfies it.
\<close>

section \<open>Elements\<close>

datatype data_type =
  TYPE_UNSET | TYPE_STRING | TYPE_COUNT | TYPE_ARRAY | TYPE_INTEGER | TYPE_FASTCGI | TYPE_CONFIG

text \<open>A \<open>data_response\<close> is a \<open>data_string\<close> with another \<open>insert_dup\<close>.\<close>

datatype data_value =
  Data_String bstr | Data_Response bstr | Data_Count int | Data_Integer int | Data_Other data_type

record data_unset =
  dkey :: bstr
  is_index_key :: bool
  dvalue :: data_value

fun data_type_of :: "data_value \<Rightarrow> data_type" where
  "data_type_of (Data_String v) = TYPE_STRING"
| "data_type_of (Data_Response v) = TYPE_STRING"
| "data_type_of (Data_Count n) = TYPE_COUNT"
| "data_type_of (Data_Integer n) = TYPE_INTEGER"
| "data_type_of (Data_Other t) = t"

definition data_string_init :: data_unset where
  "data_string_init = \<lparr>dkey = None, is_index_key = False, dvalue = Data_String None\<rparr>"

definition data_response_init :: data_unset where
  "data_response_init = \<lparr>dkey = None, is_index_key = False, dvalue = Data_Response None\<rparr>"

definition data_count_init :: data_unset where
  "data_count_init = \<lparr>dkey = None, is_index_key = False, dvalue = Data_Count 1\<rparr>"

definition data_integer_init :: data_unset where
  "data_integer_init = \<lparr>dkey = None, is_index_key = False, dvalue = Data_Integer 0\<rparr>"

text \<open>The copy of a response string is a plain \<open>data_string\<close>.\<close>

fun copy_value :: "data_value \<Rightarrow> data_value" where
  "copy_value (Data_Response v) = Data_String v"
| "copy_value x = x"

definition data_copy :: "data_unset \<Rightarrow> data_unset" where
  "data_copy src = \<lparr>dkey = dkey src, is_index_key = is_index_key src, dvalue = copy_value (dvalue src)\<rparr>"

fun reset_value :: "data_value \<Rightarrow> data_value" where
  "reset_value (Data_String v) = Data_String None"
| "reset_value (Data_Response v) = Data_Response None"
| "reset_value (Data_Count n) = Data_Count 0"
| "reset_value (Data_Integer n) = Data_Integer 0"
| "reset_value (Data_Other t) = Data_Other t"

definition data_reset :: "data_unset \<Rightarrow> data_unset" where
  "data_reset d = d\<lparr>dkey := None, dvalue := reset_value (dvalue d)\<rparr>"

text \<open>\<open>buffer_append_string_buffer\<close> on the values.\<close>

definition bappend :: "bstr \<Rightarrow> bstr \<Rightarrow> bstr" where
  "bappend v w = (if bval w = [] then v else Some (bval v @ bval w))"

definition bcat :: "bstr \<Rightarrow> char list \<Rightarrow> bstr" where
  "bcat v s = (if s = [] then v else Some (bval v @ s))"

definition int_range :: "nat \<Rightarrow> int \<Rightarrow> bool" where
  "int_range bts n \<longleftrightarrow> - (2 ^ (bts - 1)) \<le> n \<and> n < 2 ^ (bts - 1)"

text \<open>\<open>dst->insert_dup(dst, src)\<close> for elements of the same type: the dispatch is on the destination, or
  on the source in \<open>array_insert_unique\<close>, which calls \<open>str->insert_dup\<close>.\<close>

fun insert_dup :: "data_unset \<Rightarrow> data_unset \<Rightarrow> data_unset option" where
  "insert_dup dst src =
     (case (dvalue src, dvalue dst) of
        (Data_String v, Data_String w) \<Rightarrow>
          Some (dst\<lparr>dvalue := Data_String (if w \<noteq> None then bappend (bcat w '', '') v else v)\<rparr>)
      | (Data_String v, Data_Response w) \<Rightarrow>
          Some (dst\<lparr>dvalue := Data_Response (if w \<noteq> None then bappend (bcat w '', '') v else v)\<rparr>)
      | (Data_Response v, Data_String w) \<Rightarrow>
          Some (dst\<lparr>dvalue := Data_String (if w \<noteq> None
             then bappend (bcat (bappend (bcat w [CHR 0x0D, CHR 0x0A]) (dkey dst)) '': '') v else v)\<rparr>)
      | (Data_Response v, Data_Response w) \<Rightarrow>
          Some (dst\<lparr>dvalue := Data_Response (if w \<noteq> None
             then bappend (bcat (bappend (bcat w [CHR 0x0D, CHR 0x0A]) (dkey dst)) '': '') v else v)\<rparr>)
      | (Data_Count n, Data_Count m) \<Rightarrow>
          if int_range 32 (m + n) then Some (dst\<lparr>dvalue := Data_Count (m + n)\<rparr>) else None
      | _ \<Rightarrow> Some dst)"

section \<open>The table\<close>

record array =
  adata :: "data_unset option list"
  sorted :: "nat option list"
  used :: nat
  asize :: nat
  unique_ndx :: nat
  next_power_of_2 :: nat
  is_weakref :: bool

definition array_init :: array where
  "array_init = \<lparr>adata = [], sorted = [], used = 0, asize = 0, unique_ndx = 0, next_power_of_2 = 1,
     is_weakref = False\<rparr>"

definition array_init_array :: "array \<Rightarrow> array" where
  "array_init_array src =
     array_init\<lparr>used := used src, asize := asize src, next_power_of_2 := next_power_of_2 src,
       unique_ndx := unique_ndx src, adata := map (map_option data_copy) (adata src), sorted := sorted src\<rparr>"

text \<open>\<open>a->data[i]\<close>: outside the block a fault.\<close>

definition slot :: "array \<Rightarrow> nat \<Rightarrow> data_unset option option" where
  "slot a i = (if i < length (adata a) then Some (adata a ! i) else None)"

definition array_reset :: "array \<Rightarrow> array option" where
  "array_reset a =
     (if is_weakref a then Some (a\<lparr>used := 0\<rparr>)
      else if used a \<le> length (adata a) \<and> list_all (\<lambda>d. d \<noteq> None) (take (used a) (adata a))
      then Some (a\<lparr>adata := map (map_option data_reset) (take (used a) (adata a)) @ drop (used a) (adata a),
                   used := 0\<rparr>)
      else None)"

definition array_pop :: "array \<Rightarrow> (data_unset option \<times> array) option" where
  "array_pop a =
     (if used a = 0 then None
      else do {
        du \<leftarrow> slot a (used a - 1);
        Some (du, a\<lparr>used := used a - 1, adata := (adata a)[used a - 1 := None]\<rparr>) })"

text \<open>A key as \<open>buffer_caseless_compare\<close> sees it: \<open>used\<close> bytes, the terminator included.\<close>

definition key_bytes :: "bstr \<Rightarrow> char list" where
  "key_bytes k = (case k of None \<Rightarrow> [] | Some s \<Rightarrow> s @ [NUL])"

text \<open>The comparison with the element at a position of the index.\<close>

definition probe :: "array \<Rightarrow> char list \<Rightarrow> nat \<Rightarrow> int option" where
  "probe a key pos = do {
     so \<leftarrow> (if pos < length (sorted a) then sorted a ! pos else None);
     d \<leftarrow> slot a so;
     du \<leftarrow> d;
     Some (caseless_cmp key (key_bytes (dkey du))) }"

text \<open>The halving loop: the position it stops at and whether the key is there.\<close>

function index_loop :: "(nat \<Rightarrow> int option) \<Rightarrow> nat \<Rightarrow> nat \<Rightarrow> int \<Rightarrow> (bool \<times> int) option" where
  "index_loop prb n i pos =
     (if pos < 0 then
        (if i = 0 then Some (False, pos + int i) else index_loop prb n (i div 2) (pos + int i))
      else if pos \<ge> int n then
        (if i = 0 then Some (False, pos - int i) else index_loop prb n (i div 2) (pos - int i))
      else
        (case prb (nat pos) of
           None \<Rightarrow> None
         | Some cmp \<Rightarrow>
             if cmp = 0 then Some (True, pos)
             else let pos' = (if cmp < 0 then pos - int i else pos + int i)
               in if i = 0 then Some (False, pos') else index_loop prb n (i div 2) pos'))"
  by pat_completeness auto
termination
  by (relation "measure (\<lambda>(prb, n, i, pos). i)") auto

declare index_loop.simps [simp del]

text \<open>The index of the element with the key, \<open>None\<close> for \<open>-1\<close>, and the position.\<close>

definition array_get_index :: "array \<Rightarrow> char list \<Rightarrow> (nat option \<times> int) option" where
  "array_get_index a key = do {
     (found, pos) \<leftarrow> index_loop (probe a key) (used a) (next_power_of_2 a div 2) (int (next_power_of_2 a div 2));
     if found then do { so \<leftarrow> sorted a ! nat pos; Some (Some so, pos) } else Some (None, pos) }"

definition array_get_element :: "array \<Rightarrow> char list \<Rightarrow> data_unset option option" where
  "array_get_element a key = do {
     (ndx, pos) \<leftarrow> array_get_index a (key_bytes (Some key));
     case ndx of None \<Rightarrow> Some None | Some i \<Rightarrow> slot a i }"

fun unused_slot :: "data_unset option list \<Rightarrow> data_type \<Rightarrow> nat \<Rightarrow> nat \<Rightarrow> nat option" where
  "unused_slot ds t i 0 = None"
| "unused_slot ds t i (Suc n) =
     (case ds ! i of
        Some d \<Rightarrow> if data_type_of (dvalue d) = t then Some i else unused_slot ds t (i + 1) n
      | None \<Rightarrow> unused_slot ds t (i + 1) n)"

definition array_get_unused_element :: "array \<Rightarrow> data_type \<Rightarrow> data_unset option \<times> array" where
  "array_get_unused_element a t =
     (case unused_slot (adata a) t (used a) (asize a - used a) of
        None \<Rightarrow> (None, a)
      | Some i \<Rightarrow>
          (adata a ! i, a\<lparr>adata := ((adata a)[i := adata a ! used a])[used a := None]\<rparr>))"

text \<open>Room for one more element: 16 slots at a time; \<open>sorted\<close> grows uninitialised.\<close>

definition array_grow :: "array \<Rightarrow> array" where
  "array_grow a =
     (if asize a = 0 then
        a\<lparr>asize := 16, adata := replicate 16 None, sorted := replicate 16 None\<rparr>
      else if asize a = used a then
        a\<lparr>asize := asize a + 16, adata := adata a @ replicate 16 None, sorted := sorted a @ replicate 16 None\<rparr>
      else a)"

text \<open>Whether the new key belongs behind the position the search stopped at.\<close>

definition key_after :: "array \<Rightarrow> char list \<Rightarrow> int \<Rightarrow> nat \<Rightarrow> bool option" where
  "key_after a key pos ndx =
     (if pos \<noteq> int ndx then
        (if pos < 0 then Some True else map_option (\<lambda>c. c > 0) (probe a key (nat pos)))
      else Some False)"

definition place_key :: "array \<Rightarrow> data_unset \<Rightarrow> int \<Rightarrow> array option" where
  "place_key a str pos = do {
     let ndx = used a;
     let a = a\<lparr>adata := (adata a)[ndx := Some str], used := ndx + 1\<rparr>;
     after \<leftarrow> key_after a (key_bytes (dkey str)) pos ndx;
     let pos = nat (if after then pos + 1 else pos);
     if pos \<le> ndx \<and> ndx < length (sorted a) then
       Some (a\<lparr>sorted := take pos (sorted a) @ Some ndx # take (ndx - pos) (drop pos (sorted a))
                         @ drop (ndx + 1) (sorted a),
               next_power_of_2 := (if next_power_of_2 a = ndx then 2 * next_power_of_2 a else next_power_of_2 a)\<rparr>)
     else None }"

definition long_of_size :: "nat \<Rightarrow> int" where
  "long_of_size n = sint (word_of_nat n :: 32 word)"

text \<open>An element without a key gets the next number as its key.\<close>

definition name_element :: "array \<Rightarrow> data_unset \<Rightarrow> (data_unset \<times> array) option" where
  "name_element a str =
     (if dkey str = None \<or> is_index_key str then do {
        k \<leftarrow> ltostr LONG_BITS (long_of_size (unique_ndx a));
        Some (str\<lparr>dkey := Some k, is_index_key := True\<rparr>, a\<lparr>unique_ndx := unique_ndx a + 1\<rparr>) }
      else Some (str, a))"

definition array_insert_unique :: "array \<Rightarrow> data_unset \<Rightarrow> (int \<times> array) option" where
  "array_insert_unique a str = do {
     (str, a) \<leftarrow> name_element a str;
     (ndx, pos) \<leftarrow> array_get_index a (key_bytes (dkey str));
     case ndx of
       Some i \<Rightarrow> do {
         d \<leftarrow> slot a i;
         old \<leftarrow> d;
         if data_type_of (dvalue old) = data_type_of (dvalue str) then do {
           new \<leftarrow> insert_dup old str;
           Some (0, a\<lparr>adata := (adata a)[i := Some new]\<rparr>) }
         else None }
     | None \<Rightarrow>
         if used a + 1 > 2 ^ 31 - 1 then Some (-1, a)
         else do { a \<leftarrow> place_key (array_grow a) str pos; Some (0, a) } }"

text \<open>The comparison with \<open>INT_MAX\<close> on integers, for evaluation.\<close>

lemma array_insert_unique_code [code]:
  "array_insert_unique a str = do {
     (str, a) \<leftarrow> name_element a str;
     (ndx, pos) \<leftarrow> array_get_index a (key_bytes (dkey str));
     case ndx of
       Some i \<Rightarrow> do {
         d \<leftarrow> slot a i;
         old \<leftarrow> d;
         if data_type_of (dvalue old) = data_type_of (dvalue str) then do {
           new \<leftarrow> insert_dup old str;
           Some (0, a\<lparr>adata := (adata a)[i := Some new]\<rparr>) }
         else None }
     | None \<Rightarrow>
         if int (used a) > 2147483646 then Some (-1, a)
         else do { a \<leftarrow> place_key (array_grow a) str pos; Some (0, a) } }"
proof -
  have "used x + 1 > 2 ^ 31 - 1 \<longleftrightarrow> int (used x) > 2147483646" for x :: array by simp
  then show ?thesis by (simp only: array_insert_unique_def)
qed

text \<open>Writing through \<open>((data_string *)du)->value\<close>: an element of another type has no such member.\<close>

fun set_string :: "data_value \<Rightarrow> char list \<Rightarrow> data_value option" where
  "set_string (Data_String v) s = Some (Data_String (Some s))"
| "set_string (Data_Response v) s = Some (Data_Response (Some s))"
| "set_string v s = None"

definition array_set_key_value :: "array \<Rightarrow> char list \<Rightarrow> char list \<Rightarrow> array option" where
  "array_set_key_value hdrs key val = do {
     (ndx, pos) \<leftarrow> array_get_index hdrs (key_bytes (Some key));
     case ndx of
       Some i \<Rightarrow> do {
         d \<leftarrow> slot hdrs i;
         old \<leftarrow> d;
         v \<leftarrow> set_string (dvalue old) val;
         Some (hdrs\<lparr>adata := (adata hdrs)[i := Some (old\<lparr>dvalue := v\<rparr>)]\<rparr>) }
     | None \<Rightarrow> do {
         let (e, hdrs) = array_get_unused_element hdrs TYPE_STRING;
         let ds = (case e of Some d \<Rightarrow> d | None \<Rightarrow> data_string_init);
         v \<leftarrow> set_string (dvalue ds) val;
         (r, hdrs) \<leftarrow> array_insert_unique hdrs (ds\<lparr>dkey := Some key, dvalue := v\<rparr>);
         Some hdrs } }"

definition array_replace :: "array \<Rightarrow> data_unset \<Rightarrow> (data_unset option \<times> array) option" where
  "array_replace a du = do {
     (ndx, pos) \<leftarrow> (case dkey du of None \<Rightarrow> Some (None, 0) | Some k \<Rightarrow> array_get_index a (key_bytes (Some k)));
     case ndx of
       None \<Rightarrow> do { (r, a) \<leftarrow> array_insert_unique a du; Some (None, a) }
     | Some i \<Rightarrow> do { old \<leftarrow> slot a i; Some (old, a\<lparr>adata := (adata a)[i := Some du]\<rparr>) } }"

fun max_key_length :: "data_unset option list \<Rightarrow> nat option" where
  "max_key_length [] = Some 0"
| "max_key_length (None # ds) = None"
| "max_key_length (Some d # ds) = do {
     k \<leftarrow> dkey d; m \<leftarrow> max_key_length ds; Some (max (length (cstr k)) m) }"

definition array_get_max_key_length :: "array \<Rightarrow> nat option" where
  "array_get_max_key_length a = max_key_length (take (used a) (adata a))"

section \<open>The order of the keys\<close>

text \<open>What the index needs of the comparison of keys.\<close>

locale key_order =
  fixes cmp :: "'k \<Rightarrow> 'k \<Rightarrow> int" and K :: "'k \<Rightarrow> bool"
  assumes cmp_refl: "K a \<Longrightarrow> cmp a a = 0"
    and cmp_flip: "K a \<Longrightarrow> K b \<Longrightarrow> cmp a b < 0 \<longleftrightarrow> cmp b a > 0"
    and cmp_trans: "K a \<Longrightarrow> K b \<Longrightarrow> K c \<Longrightarrow> cmp a b \<le> 0 \<Longrightarrow> cmp b c \<le> 0 \<Longrightarrow> cmp a c \<le> 0"
begin

lemma cmp_less_trans: "K a \<Longrightarrow> K b \<Longrightarrow> K c \<Longrightarrow> cmp a b < 0 \<Longrightarrow> cmp b c \<le> 0 \<Longrightarrow> cmp a c < 0"
  using cmp_trans [of a b c] cmp_trans [of b c a] cmp_flip [of a b] cmp_flip [of a c] cmp_flip [of c a]
  by linarith

lemma cmp_le_less_trans: "K a \<Longrightarrow> K b \<Longrightarrow> K c \<Longrightarrow> cmp a b \<le> 0 \<Longrightarrow> cmp b c < 0 \<Longrightarrow> cmp a c < 0"
  using cmp_trans [of a b c] cmp_trans [of c a b] cmp_flip [of b c] cmp_flip [of a c] cmp_flip [of c a]
  by linarith

text \<open>In a sorted list a key has a place: the elements before it are smaller, the ones from it on are
  greater, or the one at it is equal.\<close>

lemma place:
  assumes "sorted_wrt (\<lambda>x y. cmp x y < 0) ks" and "\<forall>k \<in> set ks. K k" and "K key"
  shows "\<exists>g \<le> length ks. (\<forall>p < g. cmp key (ks ! p) > 0) \<and>
    ((\<forall>p. g \<le> p \<longrightarrow> p < length ks \<longrightarrow> cmp key (ks ! p) < 0) \<or>
     (g < length ks \<and> cmp key (ks ! g) = 0 \<and> (\<forall>p. g < p \<longrightarrow> p < length ks \<longrightarrow> cmp key (ks ! p) < 0)))"
  using assms(1,2)
proof (induction ks)
  case Nil
  then show ?case by simp
next
  case (Cons x ks)
  then have x: "K x" and ks: "\<forall>k \<in> set ks. K k" and lt: "\<forall>y \<in> set ks. cmp x y < 0" by auto
  consider (gt) "cmp key x > 0" | (eq) "cmp key x = 0" | (lt) "cmp key x < 0" by linarith
  then show ?case
  proof cases
    case gt
    from Cons.IH Cons.prems obtain g where g: "g \<le> length ks" "\<forall>p < g. cmp key (ks ! p) > 0"
      "(\<forall>p. g \<le> p \<longrightarrow> p < length ks \<longrightarrow> cmp key (ks ! p) < 0) \<or>
       (g < length ks \<and> cmp key (ks ! g) = 0 \<and> (\<forall>p. g < p \<longrightarrow> p < length ks \<longrightarrow> cmp key (ks ! p) < 0))" by auto
    show ?thesis
      using g gt by (intro exI [of _ "Suc g"]) (auto simp: nth_Cons less_Suc_eq_0_disj split: nat.splits)
  next
    case eq
    have "cmp key (ks ! p) < 0" if "p < length ks" for p
    proof -
      have "cmp x (ks ! p) < 0" "K (ks ! p)" using lt ks that by auto
      then show ?thesis using cmp_le_less_trans [of key x "ks ! p"] eq x assms(3) by simp
    qed
    with eq show ?thesis by (intro exI [of _ 0]) (auto simp: nth_Cons split: nat.splits)
  next
    case less: lt
    have "cmp key (ks ! p) < 0" if "p < length ks" for p
    proof -
      have "cmp x (ks ! p) < 0" "K (ks ! p)" using lt ks that by auto
      then show ?thesis using cmp_less_trans [of key x "ks ! p"] less x assms(3) by simp
    qed
    with less show ?thesis by (intro exI [of _ 0]) (auto simp: nth_Cons split: nat.splits)
  qed
qed

end

text \<open>The comparison of single characters, on keys without the six characters between the cases.\<close>

definition plain_key :: "char list \<Rightarrow> bool" where
  "plain_key k \<longleftrightarrow> list_all (\<lambda>c. \<not> (0x5B \<le> byte c \<and> byte c \<le> 0x60)) k"

definition fold_char :: "char \<Rightarrow> int" where
  "fold_char c = schar (to_lower_char c)"

definition fold_key :: "char list \<Rightarrow> int list" where
  "fold_key k = map fold_char k"

lemma byte_cases:
  assumes "\<And>n. n < 256 \<Longrightarrow> P n"
  shows "P (byte c)"
  using assms [OF byte_less] .

lemma is_upper_iff: "is_upper c \<longleftrightarrow> 65 \<le> byte c \<and> byte c \<le> 90"
proof -
  have "n < 256 \<Longrightarrow> (65 \<le> (if n < 128 then int n else int n - 256) \<and> (if n < 128 then int n else int n - 256) \<le> 90)
      \<longleftrightarrow> 65 \<le> n \<and> n \<le> 90" for n :: nat by auto
  then show ?thesis unfolding is_upper_def schar_def [of c] by (simp add: schar_def)
qed

lemma is_lower_iff: "is_lower c \<longleftrightarrow> 97 \<le> byte c \<and> byte c \<le> 122"
proof -
  have "n < 256 \<Longrightarrow> (97 \<le> (if n < 128 then int n else int n - 256) \<and> (if n < 128 then int n else int n - 256) \<le> 122)
      \<longleftrightarrow> 97 \<le> n \<and> n \<le> 122" for n :: nat by auto
  then show ?thesis unfolding is_lower_def schar_def [of c] by (simp add: schar_def)
qed

lemma byte_or_32: "is_upper c \<Longrightarrow> byte (char_of (byte c OR 32)) = byte c + 32"
proof -
  assume up: "is_upper c"
  have "byte c \<in> set [65..<91]"
    unfolding set_upt atLeastLessThan_iff using up unfolding is_upper_iff by linarith
  moreover have "list_all (\<lambda>n. n OR 32 = n + (32 :: nat)) [65..<91]" by (simp add: upt_conv_Cons)
  ultimately have "byte c OR 32 = byte c + 32" by (auto simp only: list_all_iff)
  with up show ?thesis by (simp add: is_upper_iff of_char_of)
qed

lemma schar_or_32: "is_upper c \<Longrightarrow> schar (char_of (byte c OR 32)) = int (byte c) + 32"
  using byte_or_32 [of c] by (simp add: schar_def is_upper_iff)

lemma fold_char_eq:
  "fold_char c = (if is_upper c then int (byte c) + 32 else if byte c < 128 then int (byte c) else int (byte c) - 256)"
  by (simp add: fold_char_def to_lower_char_def schar_or_32) (simp add: schar_def)

lemma cc_byte_arith:
  fixes a b :: int
  assumes "0 \<le> a" "a < 256" "0 \<le> b" "b < 256" "\<not> (91 \<le> a \<and> a \<le> 96)" "\<not> (91 \<le> b \<and> b \<le> 96)"
  defines "up \<equiv> \<lambda>x. 65 \<le> x \<and> x \<le> 90" and "low \<equiv> \<lambda>x. 97 \<le> x \<and> x \<le> 122"
    and "sg \<equiv> \<lambda>x. if x < 128 then x else x - 256"
  defines "cc \<equiv> (if a = b then 0 else if up a \<and> low b then a + 32 - sg b
      else if low a \<and> up b then sg a - (b + 32) else sg a - sg b)"
    and "fo \<equiv> \<lambda>x. if up x then x + 32 else sg x"
  shows "(cc < 0) = (fo a < fo b)" "(cc = 0) = (fo a = fo b)"
proof -
  have regions: "x < 65 \<and> \<not> up x \<and> \<not> low x \<and> sg x = x \<or> 65 \<le> x \<and> x \<le> 90 \<and> up x \<and> \<not> low x \<and> sg x = x \<or>
      97 \<le> x \<and> x \<le> 122 \<and> \<not> up x \<and> low x \<and> sg x = x \<or> 123 \<le> x \<and> x < 128 \<and> \<not> up x \<and> \<not> low x \<and> sg x = x \<or>
      128 \<le> x \<and> \<not> up x \<and> \<not> low x \<and> sg x = x - 256" if "\<not> (91 \<le> x \<and> x \<le> 96)" for x
    using that unfolding up_def low_def sg_def by presburger
  show "(cc < 0) = (fo a < fo b)" "(cc = 0) = (fo a = fo b)"
    unfolding cc_def fo_def using assms(1-4) regions [OF assms(5)] regions [OF assms(6)]
    by (elim disjE conjE; simp)+
qed

lemma cc_byte_fold:
  assumes "\<not> (0x5B \<le> byte a \<and> byte a \<le> 0x60)" and "\<not> (0x5B \<le> byte b \<and> byte b \<le> 0x60)"
  shows "cc_byte a b < 0 \<longleftrightarrow> fold_char a < fold_char b" "cc_byte a b = 0 \<longleftrightarrow> fold_char a = fold_char b"
proof -
  let ?A = "int (byte a)" and ?B = "int (byte b)"
  have bounds: "0 \<le> ?A" "?A < 256" "0 \<le> ?B" "?B < 256" "\<not> (91 \<le> ?A \<and> ?A \<le> 96)" "\<not> (91 \<le> ?B \<and> ?B \<le> 96)"
    using assms byte_less [of a] byte_less [of b] by linarith+
  have sg: "schar c = (if int (byte c) < 128 then int (byte c) else int (byte c) - 256)" for c
    by (simp add: schar_def)
  have up: "is_upper c \<longleftrightarrow> 65 \<le> int (byte c) \<and> int (byte c) \<le> 90"
    and low: "is_lower c \<longleftrightarrow> 97 \<le> int (byte c) \<and> int (byte c) \<le> 122" for c
    by (auto simp: is_upper_iff is_lower_iff)
  have eq: "a = b \<longleftrightarrow> ?A = ?B" by simp
  have cc: "cc_byte a b = (if ?A = ?B then 0 else if is_upper a \<and> is_lower b then ?A + 32 - schar b
      else if is_lower a \<and> is_upper b then schar a - (?B + 32) else schar a - schar b)"
    unfolding cc_byte_def eq by (simp add: schar_or_32)
  have fo: "fold_char c = (if is_upper c then int (byte c) + 32 else schar c)" for c
    by (simp add: fold_char_eq schar_def)
  show "cc_byte a b < 0 \<longleftrightarrow> fold_char a < fold_char b" "cc_byte a b = 0 \<longleftrightarrow> fold_char a = fold_char b"
    unfolding cc fo up low sg by (rule cc_byte_arith [OF bounds])+
qed

lemma caseless_cmp_Cons:
  "caseless_cmp (a # as) (b # bs) = (if cc_byte a b \<noteq> 0 then cc_byte a b else caseless_cmp as bs)"
  by (simp add: caseless_cmp_def split: option.split)

lemma caseless_cmp_fold:
  assumes "plain_key a" and "plain_key b"
  shows "(caseless_cmp a b < 0 \<longleftrightarrow> fold_key a < fold_key b) \<and> (caseless_cmp a b = 0 \<longleftrightarrow> fold_key a = fold_key b)"
  using assms
proof (induction a arbitrary: b)
  case Nil
  then show ?case by (cases b) (auto simp: caseless_cmp_def fold_key_def)
next
  case (Cons x a)
  show ?case
  proof (cases b)
    case Nil
    then show ?thesis by (simp add: caseless_cmp_def fold_key_def)
  next
    case (Cons y bs)
    with Cons.prems Cons.IH [of bs] show ?thesis
      using cc_byte_fold [of x y] by (auto simp: caseless_cmp_Cons fold_key_def plain_key_def)
  qed
qed

lemma caseless_cmp_le:
  assumes "plain_key a" and "plain_key b"
  shows "caseless_cmp a b \<le> 0 \<longleftrightarrow> fold_key a \<le> fold_key b" "caseless_cmp a b < 0 \<longleftrightarrow> fold_key a < fold_key b"
    "caseless_cmp a b > 0 \<longleftrightarrow> fold_key b < fold_key a" "caseless_cmp a b = 0 \<longleftrightarrow> fold_key a = fold_key b"
proof -
  note c = caseless_cmp_fold [OF assms]
  show "caseless_cmp a b < 0 \<longleftrightarrow> fold_key a < fold_key b" "caseless_cmp a b = 0 \<longleftrightarrow> fold_key a = fold_key b"
    using c by blast+
  then show "caseless_cmp a b \<le> 0 \<longleftrightarrow> fold_key a \<le> fold_key b"
    unfolding le_less by blast
  then show "caseless_cmp a b > 0 \<longleftrightarrow> fold_key b < fold_key a"
    unfolding not_le [symmetric] by blast
qed

interpretation keys: key_order caseless_cmp plain_key
  by unfold_locales (simp_all add: caseless_cmp_le)

text \<open>Outside the plain keys the comparison is not transitive.\<close>

lemma caseless_cmp_not_transitive:
  "caseless_cmp ''A'' ''_'' < 0 \<and> caseless_cmp ''_'' ''a'' < 0 \<and> caseless_cmp ''A'' ''a'' = 0"
  by (simp add: caseless_cmp_def cc_byte_def is_upper_iff is_lower_iff schar_def)

section \<open>The halving search\<close>

definition pow2 :: "nat \<Rightarrow> bool" where
  "pow2 n \<longleftrightarrow> (\<exists>k. n = 2 ^ k)"

lemma pow2_half: "pow2 i \<Longrightarrow> i \<noteq> 1 \<Longrightarrow> pow2 (i div 2) \<and> 2 * (i div 2) = i"
proof -
  assume "pow2 i" "i \<noteq> 1"
  then obtain k where "i = 2 ^ Suc k" unfolding pow2_def by (metis nat.exhaust power_0)
  then show ?thesis by (auto simp: pow2_def)
qed

lemma pow2_pos: "pow2 i \<Longrightarrow> 0 < i"
  by (auto simp: pow2_def)

text \<open>One round of the loop.\<close>

lemma index_loop_left:
  assumes "0 \<le> pos \<longrightarrow> pos < int n \<longrightarrow> (\<exists>c. prb (nat pos) = Some c \<and> c < 0)" and "0 \<le> pos"
  shows "index_loop prb n i pos =
    (if i = 0 then Some (False, pos) else index_loop prb n (i div 2) (pos - int i))"
  using assms by (auto simp: index_loop.simps [of prb n i pos])

lemma index_loop_right:
  assumes "0 \<le> pos \<longrightarrow> (\<exists>c. prb (nat pos) = Some c \<and> c > 0)" and "pos < int n"
  shows "index_loop prb n i pos =
    (if i = 0 then Some (False, pos) else index_loop prb n (i div 2) (pos + int i))"
  using assms by (auto simp: index_loop.simps [of prb n i pos])

text \<open>The key is absent: the loop ends next to the gap it belongs to.\<close>

lemma index_loop_gap:
  assumes less: "\<And>p. p < g \<Longrightarrow> \<exists>c. prb p = Some c \<and> c > 0"
    and greater: "\<And>p. g \<le> p \<Longrightarrow> p < n \<Longrightarrow> \<exists>c. prb p = Some c \<and> c < 0" and g: "g \<le> n"
  shows "i = 0 \<or> pow2 i \<Longrightarrow> \<bar>2 * pos - 2 * int g + 1\<bar> \<le> (if i = 0 then 1 else 4 * int i - 1) \<Longrightarrow>
    \<exists>pos'. index_loop prb n i pos = Some (False, pos') \<and> (pos' = int g - 1 \<or> pos' = int g)"
proof (induction i arbitrary: pos rule: less_induct)
  case (less i)
  have ih: "i \<noteq> 0 \<Longrightarrow> \<bar>2 * pos' - 2 * int g + 1\<bar> \<le> 2 * int i - 1 \<Longrightarrow>
      \<exists>pos''. index_loop prb n (i div 2) pos' = Some (False, pos'') \<and> (pos'' = int g - 1 \<or> pos'' = int g)" for pos'
  proof -
    assume i: "i \<noteq> 0" and b: "\<bar>2 * pos' - 2 * int g + 1\<bar> \<le> 2 * int i - 1"
    show ?thesis
    proof (cases "i = 1")
      case True
      with b show ?thesis by (intro less.IH) auto
    next
      case False
      with i less.prems(1) have h: "pow2 (i div 2)" "2 * (i div 2) = i" using pow2_half by auto
      then have "4 * int (i div 2) - 1 = 2 * int i - 1" by presburger
      with b h i show ?thesis by (intro less.IH) (auto dest: pow2_pos)
    qed
  qed
  show ?case
  proof (cases "pos < int g")
    case True
    have step: "index_loop prb n i pos = (if i = 0 then Some (False, pos) else index_loop prb n (i div 2) (pos + int i))"
      using True g assms(1) [of "nat pos"] by (intro index_loop_right) auto
    show ?thesis
    proof (cases "i = 0")
      case i: True
      with less.prems(2) True step show ?thesis by auto
    next
      case False
      have "\<bar>2 * (pos + int i) - 2 * int g + 1\<bar> \<le> 2 * int i - 1" using less.prems(2) True False by auto
      from ih [OF False this] False step show ?thesis by simp
    qed
  next
    case False
    have step: "index_loop prb n i pos = (if i = 0 then Some (False, pos) else index_loop prb n (i div 2) (pos - int i))"
      using False g greater [of "nat pos"] by (intro index_loop_left) auto
    show ?thesis
    proof (cases "i = 0")
      case i: True
      with less.prems(2) False step show ?thesis by auto
    next
      case i: False
      have "\<bar>2 * (pos - int i) - 2 * int g + 1\<bar> \<le> 2 * int i - 1" using less.prems(2) False i by auto
      from ih [OF i this] i step show ?thesis by simp
    qed
  qed
qed

text \<open>The key is present: the loop finds it.\<close>

lemma index_loop_hit:
  assumes less: "\<And>p. p < g \<Longrightarrow> \<exists>c. prb p = Some c \<and> c > 0" and eq: "prb g = Some 0"
    and greater: "\<And>p. g < p \<Longrightarrow> p < n \<Longrightarrow> \<exists>c. prb p = Some c \<and> c < 0" and g: "g < n"
  shows "i = 0 \<or> pow2 i \<Longrightarrow> \<bar>pos - int g\<bar> \<le> (if i = 0 then 0 else 2 * int i - 1) \<Longrightarrow>
    index_loop prb n i pos = Some (True, int g)"
proof (induction i arbitrary: pos rule: less_induct)
  case (less i)
  have ih: "index_loop prb n (i div 2) pos' = Some (True, int g)"
    if i: "i \<noteq> 0" and b: "\<bar>pos' - int g\<bar> \<le> int i - 1" for pos'
  proof (cases "i = 1")
    case True
    with b show ?thesis by (intro less.IH) auto
  next
    case False
    with i less.prems(1) have h: "pow2 (i div 2)" "2 * (i div 2) = i" using pow2_half by auto
    then have "2 * int (i div 2) - 1 = int i - 1" by presburger
    with b h i show ?thesis by (intro less.IH) (auto dest: pow2_pos)
  qed
  consider (lt) "pos < int g" | (eq) "pos = int g" | (gt) "pos > int g" by linarith
  then show ?case
  proof cases
    case eq
    with assms(2) g show ?thesis by (simp add: index_loop.simps [of prb n i])
  next
    case lt
    then have i: "i \<noteq> 0" using less.prems(2) by (cases "i = 0") auto
    have "index_loop prb n i pos = index_loop prb n (i div 2) (pos + int i)"
      using lt g assms(1) [of "nat pos"] i by (subst index_loop_right) auto
    moreover have "\<bar>pos + int i - int g\<bar> \<le> int i - 1" using less.prems(2) lt i by auto
    ultimately show ?thesis using ih [OF i] by simp
  next
    case gt
    then have i: "i \<noteq> 0" using less.prems(2) by (cases "i = 0") auto
    have "index_loop prb n i pos = index_loop prb n (i div 2) (pos - int i)"
      using gt g greater [of "nat pos"] i by (subst index_loop_left) auto
    moreover have "\<bar>pos - int i - int g\<bar> \<le> int i - 1" using less.prems(2) gt i by auto
    ultimately show ?thesis using ih [OF i] by simp
  qed
qed

text \<open>From the middle of a power of two that covers the table.\<close>

lemma index_loop_start:
  assumes np: "pow2 np" and n: "n \<le> np"
    and less: "\<And>p. p < g \<Longrightarrow> \<exists>c. prb p = Some c \<and> c > 0"
  shows "g \<le> n \<Longrightarrow> (\<And>p. g \<le> p \<Longrightarrow> p < n \<Longrightarrow> \<exists>c. prb p = Some c \<and> c < 0) \<Longrightarrow>
      \<exists>pos'. index_loop prb n (np div 2) (int (np div 2)) = Some (False, pos') \<and> (pos' = int g - 1 \<or> pos' = int g)"
    and "g < n \<Longrightarrow> prb g = Some 0 \<Longrightarrow> (\<And>p. g < p \<Longrightarrow> p < n \<Longrightarrow> \<exists>c. prb p = Some c \<and> c < 0) \<Longrightarrow>
      index_loop prb n (np div 2) (int (np div 2)) = Some (True, int g)"
proof -
  have half: "np div 2 = 0 \<and> np = 1 \<or> pow2 (np div 2) \<and> 2 * (np div 2) = np \<and> np div 2 > 0"
    using np pow2_half [OF np] pow2_pos by (cases "np = 1") auto
  then have cover: "np \<le> 2 * (np div 2) + 1" "np div 2 = 0 \<Longrightarrow> np = 1" "np div 2 > 0 \<Longrightarrow> np = 2 * (np div 2)" by auto
  have p2: "np div 2 = 0 \<or> pow2 (np div 2)" using half by auto
  define h where "h = np div 2"
  show "\<exists>pos'. index_loop prb n (np div 2) (int (np div 2)) = Some (False, pos') \<and> (pos' = int g - 1 \<or> pos' = int g)"
    if "g \<le> n" and gr: "\<And>p. g \<le> p \<Longrightarrow> p < n \<Longrightarrow> \<exists>c. prb p = Some c \<and> c < 0"
  proof (rule index_loop_gap [where g = g and prb = prb, OF less gr \<open>g \<le> n\<close> p2])
    have "h = 0 \<Longrightarrow> g \<le> 1" "h > 0 \<Longrightarrow> g \<le> 2 * h" using that(1) n cover by (auto simp: h_def)
    then show "\<bar>2 * int (np div 2) - 2 * int g + 1\<bar> \<le> (if np div 2 = 0 then 1 else 4 * int (np div 2) - 1)"
      unfolding h_def [symmetric] by (cases "h = 0") auto
  qed
  show "index_loop prb n (np div 2) (int (np div 2)) = Some (True, int g)"
    if "g < n" "prb g = Some 0" and gr: "\<And>p. g < p \<Longrightarrow> p < n \<Longrightarrow> \<exists>c. prb p = Some c \<and> c < 0"
  proof (rule index_loop_hit [where g = g and prb = prb, OF less that(2) gr that(1) p2])
    have "h = 0 \<Longrightarrow> g = 0" "h > 0 \<Longrightarrow> g < 2 * h" using that(1) n cover by (auto simp: h_def)
    then show "\<bar>int (np div 2) - int g\<bar> \<le> (if np div 2 = 0 then 0 else 2 * int (np div 2) - 1)"
      unfolding h_def [symmetric] by (cases "h = 0") auto
  qed
qed

section \<open>The table as a list of elements\<close>

abbreviation ekey :: "data_unset \<Rightarrow> char list" where
  "ekey e \<equiv> key_bytes (dkey e)"

definition array_index :: "array \<Rightarrow> data_unset list \<Rightarrow> nat list \<Rightarrow> bool" where
  "array_index a es p \<longleftrightarrow>
     used a = length es \<and> used a \<le> asize a \<and> length (adata a) = asize a \<and> length (sorted a) = asize a \<and>
     take (used a) (adata a) = map Some es \<and> take (used a) (sorted a) = map Some p \<and>
     distinct p \<and> set p = {..<length es} \<and>
     sorted_wrt (\<lambda>x y. caseless_cmp x y < 0) (map (\<lambda>i. ekey (es ! i)) p) \<and>
     (\<forall>e \<in> set es. plain_key (ekey e)) \<and>
     pow2 (next_power_of_2 a) \<and> used a \<le> next_power_of_2 a"

definition array_repr :: "array \<Rightarrow> data_unset list \<Rightarrow> bool" where
  "array_repr a es \<longleftrightarrow> (\<exists>p. array_index a es p)"

text \<open>Lookup and insertion on the list.\<close>

definition find_element :: "data_unset list \<Rightarrow> char list \<Rightarrow> data_unset option" where
  "find_element es key = List.find (\<lambda>e. fold_key (ekey e) = fold_key key) es"

fun upsert :: "(data_unset \<Rightarrow> data_unset) \<Rightarrow> data_unset \<Rightarrow> data_unset list \<Rightarrow> data_unset list" where
  "upsert f new [] = [new]"
| "upsert f new (e # es) = (if fold_key (ekey e) = fold_key (ekey new) then f e # es else e # upsert f new es)"

lemma array_repr_init [wf_intros]: "array_repr array_init []"
  unfolding array_repr_def array_index_def array_init_def
  by (intro exI [of _ "[]"]) (auto simp: pow2_def intro: exI [of _ 0])

lemma array_index_length: "array_index a es p \<Longrightarrow> length p = length es"
  by (metis array_index_def card_lessThan distinct_card)

lemma array_index_slot: "array_index a es p \<Longrightarrow> i < length es \<Longrightarrow> slot a i = Some (Some (es ! i))"
proof -
  assume ix: "array_index a es p" and i: "i < length es"
  have u: "i < used a" and tk: "take (used a) (adata a) = map Some es" using ix i by (auto simp: array_index_def)
  have "adata a ! i = Some (es ! i)" using nth_take [OF u, of "adata a"] tk i by simp
  then show ?thesis using ix i by (auto simp: slot_def array_index_def)
qed

lemma array_index_sorted: "array_index a es p \<Longrightarrow> pos < length es \<Longrightarrow> pos < length (sorted a) \<and> sorted a ! pos = Some (p ! pos)"
proof -
  assume ix: "array_index a es p" and pos: "pos < length es"
  have u: "pos < used a" and tk: "take (used a) (sorted a) = map Some p" using ix pos by (auto simp: array_index_def)
  have "sorted a ! pos = Some (p ! pos)"
    using nth_take [OF u, of "sorted a"] tk pos array_index_length [OF ix] by simp
  then show ?thesis using ix pos by (auto simp: array_index_def)
qed

lemma array_index_surj:
  assumes ix: "array_index a es p" and i: "i < length es"
  shows "\<exists>x < length es. p ! x = i"
proof -
  have "i \<in> set p" using ix i by (auto simp: array_index_def)
  then obtain x where "x < length p" "p ! x = i" by (auto simp: in_set_conv_nth)
  then show ?thesis using array_index_length [OF ix] by auto
qed

lemma array_index_nth: "array_index a es p \<Longrightarrow> pos < length es \<Longrightarrow> p ! pos < length es"
  using array_index_length [of a es p] nth_mem [of pos p] by (auto simp: array_index_def)

lemma probe_index:
  assumes "array_index a es p" and "pos < length es"
  shows "probe a key pos = Some (caseless_cmp key (ekey (es ! (p ! pos))))"
  using array_index_sorted [OF assms] array_index_slot [OF assms(1) array_index_nth [OF assms]]
  by (simp add: probe_def)

lemma ekey_plain: "array_index a es p \<Longrightarrow> i < length es \<Longrightarrow> plain_key (ekey (es ! i))"
  by (simp add: array_index_def)

lemma array_index_cmp:
  assumes ix: "array_index a es p" and "i < length es" "j < length es" and "i < j"
  shows "caseless_cmp (ekey (es ! (p ! i))) (ekey (es ! (p ! j))) < 0"
  using assms array_index_length [OF ix] by (auto simp: array_index_def sorted_wrt_iff_nth_less)

text \<open>No two elements have the same key.\<close>

lemma array_index_unique:
  assumes ix: "array_index a es p" and i: "i < length es" and j: "j < length es"
    and eq: "fold_key (ekey (es ! i)) = fold_key (ekey (es ! j))"
  shows "i = j"
proof (rule ccontr)
  assume ne: "i \<noteq> j"
  obtain x y where x: "x < length es" "p ! x = i" and y: "y < length es" "p ! y = j"
    using array_index_surj [OF ix i] array_index_surj [OF ix j] by blast
  from ne x y have "x < y \<or> y < x" by (metis linorder_neqE_nat)
  then show False
    using array_index_cmp [OF ix x(1) y(1)] array_index_cmp [OF ix y(1) x(1)] x(2) y(2) eq
      ekey_plain [OF ix i] ekey_plain [OF ix j] by (auto simp: caseless_cmp_le)
qed

lemma array_get_index_cases:
  assumes ix: "array_index a es p" and key: "plain_key key"
  shows "(\<exists>i pos. i < length es \<and> fold_key (ekey (es ! i)) = fold_key key \<and> array_get_index a key = Some (Some i, pos)) \<or>
    (\<exists>g pos. g \<le> length es \<and> (pos = int g - 1 \<or> pos = int g) \<and> array_get_index a key = Some (None, pos) \<and>
      (\<forall>x < g. caseless_cmp key (ekey (es ! (p ! x))) > 0) \<and>
      (\<forall>x. g \<le> x \<longrightarrow> x < length es \<longrightarrow> caseless_cmp key (ekey (es ! (p ! x))) < 0))"
proof -
  let ?ks = "map (\<lambda>i. ekey (es ! i)) p"
  have len: "length p = length es" by (rule array_index_length [OF ix])
  have kp: "\<forall>k \<in> set ?ks. plain_key k" using ix by (auto simp: array_index_def)
  have "sorted_wrt (\<lambda>x y. caseless_cmp x y < 0) ?ks" using ix by (simp add: array_index_def)
  from keys.place [OF this kp key] obtain g where g: "g \<le> length es"
    and lt: "\<forall>x < g. caseless_cmp key (?ks ! x) > 0"
    and ge: "(\<forall>x. g \<le> x \<longrightarrow> x < length es \<longrightarrow> caseless_cmp key (?ks ! x) < 0) \<or>
      (g < length es \<and> caseless_cmp key (?ks ! g) = 0 \<and> (\<forall>x. g < x \<longrightarrow> x < length es \<longrightarrow> caseless_cmp key (?ks ! x) < 0))"
    unfolding length_map len by blast
  have prb: "x < length es \<Longrightarrow> probe a key x = Some (caseless_cmp key (?ks ! x))" for x
    using probe_index [OF ix] len by simp
  have np: "pow2 (next_power_of_2 a)" "length es \<le> next_power_of_2 a" "used a = length es"
    using ix by (auto simp: array_index_def)
  have less: "\<exists>c. probe a key x = Some c \<and> c > 0" if "x < g" for x
    using prb [of x] lt g that by auto
  note start = index_loop_start [OF np(1,2), of g "probe a key", OF less]
  from ge show ?thesis
  proof
    assume gt: "\<forall>x. g \<le> x \<longrightarrow> x < length es \<longrightarrow> caseless_cmp key (?ks ! x) < 0"
    then have "\<exists>c. probe a key x = Some c \<and> c < 0" if "g \<le> x" "x < length es" for x
      using prb [of x] that by auto
    from start(1) [OF _ g this] obtain pos where
      "index_loop (probe a key) (length es) (next_power_of_2 a div 2) (int (next_power_of_2 a div 2)) = Some (False, pos)"
      "pos = int g - 1 \<or> pos = int g" by auto
    then have "array_get_index a key = Some (None, pos) \<and> (pos = int g - 1 \<or> pos = int g)"
      by (simp add: array_get_index_def np(3))
    with g lt gt len show ?thesis by (intro disjI2 exI [of _ g] exI [of _ pos]) auto
  next
    assume hit: "g < length es \<and> caseless_cmp key (?ks ! g) = 0 \<and> (\<forall>x. g < x \<longrightarrow> x < length es \<longrightarrow> caseless_cmp key (?ks ! x) < 0)"
    then have "\<exists>c. probe a key x = Some c \<and> c < 0" if "g < x" "x < length es" for x
      using prb [of x] that by auto
    from start(2) [OF _ _ _ this] hit prb [of g]
    have "index_loop (probe a key) (length es) (next_power_of_2 a div 2) (int (next_power_of_2 a div 2)) = Some (True, int g)"
      by auto
    then have "array_get_index a key = Some (Some (p ! g), int g)"
      using array_index_sorted [OF ix, of g] hit by (simp add: array_get_index_def np(3))
    moreover have "fold_key (ekey (es ! (p ! g))) = fold_key key"
      using hit len key ekey_plain [OF ix array_index_nth [OF ix, of g]] by (auto simp: caseless_cmp_le)
    ultimately show ?thesis using array_index_nth [OF ix, of g] hit by blast
  qed
qed

lemma find_element_nth:
  assumes ix: "array_index a es p" and i: "i < length es" and eq: "fold_key (ekey (es ! i)) = fold_key key"
  shows "find_element es key = Some (es ! i)"
proof -
  have "\<forall>j < i. fold_key (ekey (es ! j)) \<noteq> fold_key key"
    using array_index_unique [OF ix i] eq i by (metis less_trans nat_neq_iff)
  with i eq show ?thesis unfolding find_element_def find_Some_iff by blast
qed

lemma find_element_absent:
  assumes ix: "array_index a es p" and key: "plain_key key"
    and lt: "\<forall>x < g. caseless_cmp key (ekey (es ! (p ! x))) > 0"
    and gt: "\<forall>x. g \<le> x \<longrightarrow> x < length es \<longrightarrow> caseless_cmp key (ekey (es ! (p ! x))) < 0"
  shows "find_element es key = None"
proof -
  have "fold_key (ekey e) \<noteq> fold_key key" if e: "e \<in> set es" for e
  proof -
    obtain i where i: "i < length es" "es ! i = e" using e unfolding in_set_conv_nth by blast
    then obtain x where x: "x < length es" "p ! x = i" using array_index_surj [OF ix] by blast
    have "caseless_cmp key (ekey (es ! (p ! x))) \<noteq> 0"
      using lt [rule_format, of x] gt [rule_format, of x] x(1) by (cases "x < g") simp_all
    then have "caseless_cmp key (ekey e) \<noteq> 0" using x(2) i(2) by simp
    then show ?thesis using ekey_plain [OF ix i(1)] key i(2) by (auto simp: caseless_cmp_le)
  qed
  then show ?thesis unfolding find_element_def find_None_iff by blast
qed

lemma array_get_index_obtain:
  assumes ix: "array_index a es p" and key: "plain_key key"
  obtains (hit) i pos where "i < length es" "fold_key (ekey (es ! i)) = fold_key key"
      "find_element es key = Some (es ! i)" "array_get_index a key = Some (Some i, pos)"
  | (miss) g pos where "g \<le> length es" "pos = int g - 1 \<or> pos = int g" "find_element es key = None"
      "array_get_index a key = Some (None, pos)"
      "\<forall>x < g. caseless_cmp key (ekey (es ! (p ! x))) > 0"
      "\<forall>x. g \<le> x \<longrightarrow> x < length es \<longrightarrow> caseless_cmp key (ekey (es ! (p ! x))) < 0"
  using array_get_index_cases [OF ix key]
proof (elim disjE exE conjE)
  fix i pos
  assume i: "i < length es" "fold_key (ekey (es ! i)) = fold_key key" "array_get_index a key = Some (Some i, pos)"
  then show thesis using hit [OF i(1,2) find_element_nth [OF ix i(1,2)] i(3)] by simp
next
  fix g pos
  assume m: "g \<le> length es" "array_get_index a key = Some (None, pos)"
    "\<forall>x < g. caseless_cmp key (ekey (es ! (p ! x))) > 0"
    "\<forall>x. g \<le> x \<longrightarrow> x < length es \<longrightarrow> caseless_cmp key (ekey (es ! (p ! x))) < 0"
  note absent = find_element_absent [OF ix key m(3,4)]
  show thesis if "pos = int g - 1" using miss [OF m(1) disjI1 [OF that] absent m(2-4)] by simp
  show thesis if "pos = int g" using miss [OF m(1) disjI2 [OF that] absent m(2-4)] by simp
qed

text \<open>Lookup.\<close>

lemma array_get_element_repr:
  assumes repr: "array_repr a es" and key: "plain_key key"
  shows "array_get_element a key = Some (find_element es (key @ [NUL]))"
proof -
  obtain p where ix: "array_index a es p" using repr by (auto simp: array_repr_def)
  have kb: "key_bytes (Some key) = key @ [NUL]" by (simp add: key_bytes_def)
  have pk: "plain_key (key @ [NUL])" using key by (simp add: plain_key_def)
  show ?thesis
  proof (cases rule: array_get_index_obtain [OF ix pk])
    case (1 i pos)
    then show ?thesis using array_index_slot [OF ix] by (simp add: array_get_element_def kb)
  next
    case (2 g pos)
    then show ?thesis by (simp add: array_get_element_def kb)
  qed
qed

text \<open>Insertion: a new key goes to the gap of the index and to the end of the data.\<close>

lemma array_grow_index:
  assumes "array_index a es p"
  shows "array_index (array_grow a) es p \<and> used (array_grow a) < asize (array_grow a)
    \<and> next_power_of_2 (array_grow a) = next_power_of_2 a \<and> used (array_grow a) = used a"
  using assms by (auto simp: array_index_def array_grow_def)

lemma insert_sorted_wrt:
  assumes "sorted_wrt R ks" and "g \<le> length ks" and "\<forall>x < g. R (ks ! x) k" and "\<forall>x. g \<le> x \<longrightarrow> x < length ks \<longrightarrow> R k (ks ! x)"
  shows "sorted_wrt R (take g ks @ k # drop g ks)"
proof -
  have "\<forall>x \<in> set (take g ks). R x k" using assms(2,3) by (auto simp: in_set_conv_nth)
  moreover have "\<forall>y \<in> set (drop g ks). R k y"
    using assms(2,4) by (auto simp: in_set_conv_nth)
  moreover have "sorted_wrt R (take g ks @ drop g ks)" using assms(1) by simp
  ultimately show ?thesis unfolding sorted_wrt_append sorted_wrt.simps by auto
qed

lemma take_insert:
  assumes "g \<le> n" and "n \<le> length xs"
  shows "take (n + 1) (take g xs @ x # take (n - g) (drop g xs) @ r) = take g (take n xs) @ x # drop g (take n xs)"
  using assms by (simp add: drop_take Suc_diff_le)

lemma place_key_index:
  assumes ix: "array_index a es p" and room: "used a < asize a" and key: "plain_key (ekey str)"
    and g: "g \<le> length es" and pos: "pos = int g - 1 \<or> pos = int g"
    and lt: "\<forall>x < g. caseless_cmp (ekey str) (ekey (es ! (p ! x))) > 0"
    and gt: "\<forall>x. g \<le> x \<longrightarrow> x < length es \<longrightarrow> caseless_cmp (ekey str) (ekey (es ! (p ! x))) < 0"
  shows "\<exists>a'. place_key a str pos = Some a' \<and> array_index a' (es @ [str]) (take g p @ length es # drop g p)"
proof -
  let ?n = "length es"
  note I = ix [unfolded array_index_def]
  have len: "length p = ?n" by (rule array_index_length [OF ix])
  define b where "b = a\<lparr>adata := (adata a)[?n := Some str], used := ?n + 1\<rparr>"
  have slot_b: "i < ?n \<Longrightarrow> slot b i = slot a i" for i by (simp add: slot_def b_def)
  have prb: "x < ?n \<Longrightarrow> probe b key x = Some (caseless_cmp key (ekey (es ! (p ! x))))" for x key
    using probe_index [OF ix, of x key] array_index_sorted [OF ix, of x] slot_b array_index_nth [OF ix, of x]
    by (auto simp: probe_def b_def slot_def)
  have after: "key_after b (ekey str) pos ?n = Some (pos \<noteq> int g)"
    unfolding key_after_def using pos g lt gt prb [of "nat pos" "ekey str"] by auto
  define a' where "a' = b\<lparr>sorted := take g (sorted a) @ Some ?n # take (?n - g) (drop g (sorted a)) @ drop (?n + 1) (sorted a),
      next_power_of_2 := (if next_power_of_2 a = ?n then 2 * next_power_of_2 a else next_power_of_2 a)\<rparr>"
  have n: "used a = ?n" and q: "nat (if pos \<noteq> int g then pos + 1 else pos) = g" using pos I by auto
  have b: "length (sorted b) = asize a" "sorted b = sorted a" "next_power_of_2 b = next_power_of_2 a"
    using I by (auto simp: b_def)
  have run: "place_key a str pos = Some a'"
    unfolding place_key_def Let_def n b_def [symmetric] after bind.bind_lunit q
    using g b room n by (simp add: a'_def)
  have data: "take (?n + 1) (adata a') = map Some (es @ [str])"
    using I room by (auto simp: a'_def b_def take_Suc_conv_app_nth)
  have srt: "take (?n + 1) (sorted a') = map Some (take g p @ ?n # drop g p)"
  proof -
    have tk: "take ?n (sorted a) = map Some p" "?n \<le> length (sorted a)" using I by auto
    have "take (?n + 1) (sorted a') = take g (map Some p) @ Some ?n # drop g (map Some p)"
      using take_insert [OF g tk(2), of "Some ?n" "drop (?n + 1) (sorted a)"] unfolding tk(1) by (simp add: a'_def)
    then show ?thesis by (simp add: take_map drop_map)
  qed
  let ?q = "take g p @ ?n # drop g p"
  have q: "set ?q = {..<?n + 1}" "distinct ?q"
  proof -
    have eq: "set ?q = insert ?n (set (take g p @ drop g p))" unfolding set_append by auto
    show "set ?q = {..<?n + 1}" using I unfolding eq append_take_drop_id by auto
    have "distinct (take g p @ drop g p)" "?n \<notin> set (take g p @ drop g p)"
      using I unfolding append_take_drop_id by auto
    then show "distinct ?q" unfolding set_append distinct_append by auto
  qed
  have keys: "map (\<lambda>i. ekey ((es @ [str]) ! i)) ?q = take g (map (\<lambda>i. ekey (es ! i)) p) @ ekey str # drop g (map (\<lambda>i. ekey (es ! i)) p)"
  proof -
    have old: "(es @ [str]) ! i = es ! i" if "i \<in> set p" for i using I that by (auto simp: nth_append)
    have "map (\<lambda>i. ekey ((es @ [str]) ! i)) (take g p) = map (\<lambda>i. ekey (es ! i)) (take g p)"
      by (rule map_cong [OF refl], drule in_set_takeD, simp add: old)
    moreover have "map (\<lambda>i. ekey ((es @ [str]) ! i)) (drop g p) = map (\<lambda>i. ekey (es ! i)) (drop g p)"
      by (rule map_cong [OF refl], drule in_set_dropD, simp add: old)
    ultimately show ?thesis unfolding map_append list.map take_map drop_map by simp
  qed
  have ord: "sorted_wrt (\<lambda>x y. caseless_cmp x y < 0) (map (\<lambda>i. ekey ((es @ [str]) ! i)) ?q)"
    unfolding keys
  proof (rule insert_sorted_wrt)
    show "sorted_wrt (\<lambda>x y. caseless_cmp x y < 0) (map (\<lambda>i. ekey (es ! i)) p)" using I by blast
    show "\<forall>x < g. caseless_cmp (map (\<lambda>i. ekey (es ! i)) p ! x) (ekey str) < 0"
      using lt g len keys.cmp_flip key ekey_plain [OF ix array_index_nth [OF ix]] by auto
  qed (use g gt len in auto)
  have "array_index a' (es @ [str]) ?q"
    unfolding array_index_def
    using I room data srt q ord key g by (auto simp: a'_def b_def pow2_def intro: exI [of _ "Suc _"])
  with run show ?thesis by blast
qed

lemma insert_dup_key: "insert_dup e str = Some e' \<Longrightarrow> dkey e' = dkey e"
  by (auto split: data_value.splits if_splits)

lemma array_index_update:
  assumes ix: "array_index a es p" and i: "i < length es" and key: "ekey x = ekey (es ! i)"
  shows "array_index (a\<lparr>adata := (adata a)[i := Some x]\<rparr>) (es[i := x]) p"
proof -
  note I = ix [unfolded array_index_def]
  have keys: "ekey (es[i := x] ! j) = ekey (es ! j)" for j
    using key i by (cases "j = i") auto
  have "take (length es) (adata a) = map Some es" using I by auto
  then have "take (length es) ((adata a)[i := Some x]) = map Some (es[i := x])"
    by (simp add: take_update_swap map_update)
  moreover have "\<forall>e \<in> set (es[i := x]). plain_key (ekey e)"
    using I ekey_plain [OF ix i] key set_update_subset_insert [of es i x] by fastforce
  ultimately show ?thesis using I by (auto simp: array_index_def keys)
qed

lemma upsert_miss: "find_element es (ekey new) = None \<Longrightarrow> upsert f new es = es @ [new]"
  by (induction es) (auto simp: find_element_def split: if_splits)

lemma upsert_hit:
  "i < length es \<Longrightarrow> fold_key (ekey (es ! i)) = fold_key (ekey new) \<Longrightarrow>
     (\<forall>j < i. fold_key (ekey (es ! j)) \<noteq> fold_key (ekey new)) \<Longrightarrow> upsert f new es = es[i := f (es ! i)]"
proof (induction es arbitrary: i)
  case Nil
  then show ?case by simp
next
  case (Cons e es)
  show ?case
  proof (cases i)
    case 0
    with Cons.prems show ?thesis by simp
  next
    case (Suc j)
    with Cons.prems have "fold_key (ekey e) \<noteq> fold_key (ekey new)"
      "\<forall>k < j. fold_key (ekey (es ! k)) \<noteq> fold_key (ekey new)" by auto
    with Cons.IH [of j] Cons.prems Suc show ?thesis by simp
  qed
qed

text \<open>\<open>array_insert_unique\<close> merges into the element with the key, or adds the new one at the end.\<close>

lemma array_insert_unique_repr:
  assumes repr: "array_repr a es" and k: "dkey str = Some k" "\<not> is_index_key str" "plain_key k"
    and room: "length es + 1 < 2 ^ 31"
    and dup: "\<And>e. find_element es (ekey str) = Some e \<Longrightarrow>
      data_type_of (dvalue e) = data_type_of (dvalue str) \<and> insert_dup e str = Some (f e)"
  shows "\<exists>a'. array_insert_unique a str = Some (0, a') \<and> array_repr a' (upsert f str es)"
proof -
  obtain p where ix: "array_index a es p" using repr by (auto simp: array_repr_def)
  have named: "name_element a str = Some (str, a)" using k by (simp add: name_element_def)
  have pk: "plain_key (ekey str)" using k by (simp add: key_bytes_def plain_key_def)
  show ?thesis
  proof (cases rule: array_get_index_obtain [OF ix pk])
    case (1 i pos)
    have "upsert f str es = es[i := f (es ! i)]"
      using upsert_hit [OF 1(1,2)] array_index_unique [OF ix 1(1)] 1(1,2) by (metis less_trans nat_neq_iff)
    moreover have "array_index (a\<lparr>adata := (adata a)[i := Some (f (es ! i))]\<rparr>) (es[i := f (es ! i)]) p"
      using insert_dup_key dup [OF 1(3)] by (intro array_index_update [OF ix 1(1)]) fastforce
    ultimately show ?thesis
      using 1(4) array_index_slot [OF ix 1(1)] dup [OF 1(3)] named
      by (auto simp: array_insert_unique_def array_repr_def)
  next
    case (2 g pos)
    note grow = array_grow_index [OF ix]
    obtain a' where "place_key (array_grow a) str pos = Some a'"
      "array_index a' (es @ [str]) (take g p @ length es # drop g p)"
      using place_key_index [of "array_grow a" es p str g pos] grow pk 2 by blast
    moreover have "\<not> used a + 1 > 2 ^ 31 - 1" using room ix by (simp add: array_index_def)
    ultimately show ?thesis
      using 2(4) named upsert_miss [OF 2(3)] by (auto simp: array_insert_unique_def array_repr_def)
  qed
qed

section \<open>The table as a dictionary\<close>

text \<open>Inserting strings, the way the request parser inserts headers.\<close>

definition string_element :: "char list \<Rightarrow> char list \<Rightarrow> data_unset" where
  "string_element k v = \<lparr>dkey = Some k, is_index_key = False, dvalue = Data_String (Some v)\<rparr>"

definition put_string :: "char list \<Rightarrow> char list \<Rightarrow> data_unset list \<Rightarrow> data_unset list" where
  "put_string k v es = upsert (\<lambda>e. the (insert_dup e (string_element k v))) (string_element k v) es"

definition lookup_string :: "data_unset list \<Rightarrow> char list \<Rightarrow> char list option" where
  "lookup_string es k =
     (case find_element es (k @ [NUL]) of
        Some e \<Rightarrow> (case dvalue e of Data_String (Some v) \<Rightarrow> Some v | _ \<Rightarrow> None)
      | None \<Rightarrow> None)"

definition string_table :: "data_unset list \<Rightarrow> bool" where
  "string_table es \<longleftrightarrow> list_all (\<lambda>e. \<exists>v. dvalue e = Data_String (Some v)) es"

lemma insert_dup_string:
  assumes "dvalue e = Data_String (Some v)"
  shows "insert_dup e (string_element k w) = Some (e\<lparr>dvalue := Data_String (Some (v @ '', '' @ w))\<rparr>)"
  using assms by (simp add: string_element_def bappend_def bcat_def)

lemma find_upsert_same:
  assumes "fold_key j = fold_key (ekey new)" and "\<And>e. dkey (f e) = dkey e"
  shows "find_element (upsert f new es) j = Some (case find_element es j of None \<Rightarrow> new | Some e \<Rightarrow> f e)"
  using assms by (induction es) (auto simp: find_element_def)

lemma find_upsert_other:
  assumes "fold_key j \<noteq> fold_key (ekey new)" and "\<And>e. dkey (f e) = dkey e"
  shows "find_element (upsert f new es) j = find_element es j"
  using assms by (induction es) (auto simp: find_element_def)

lemma dup_string_key: "dkey (the (insert_dup e (string_element k w))) = dkey e"
  by (cases "dvalue e") (auto simp: string_element_def)

lemma string_table_upsert:
  "string_table es \<Longrightarrow> string_table (put_string k v es)"
  unfolding put_string_def
proof (induction es)
  case Nil
  then show ?case by (simp add: string_table_def string_element_def)
next
  case (Cons e es)
  then obtain w where "dvalue e = Data_String (Some w)" by (auto simp: string_table_def)
  from insert_dup_string [OF this, of k v] Cons show ?case by (auto simp: string_table_def)
qed

lemma string_table_find:
  "string_table es \<Longrightarrow> find_element es j = Some e \<Longrightarrow> \<exists>v. dvalue e = Data_String (Some v)"
  by (auto simp: string_table_def find_element_def find_Some_iff list_all_length)

text \<open>Names are looked up without regard to case; values under one name are joined with commas.\<close>

definition header_canon :: "char list \<Rightarrow> int list" where
  "header_canon k = fold_key (k @ [NUL])"

definition join_values :: "char list \<Rightarrow> char list \<Rightarrow> char list" where
  "join_values old new = old @ '', '' @ new"

lemma lookup_put_string:
  assumes "string_table es"
  shows "lookup_string (put_string k v es) j =
    (if header_canon j = header_canon k
     then Some (case lookup_string es k of None \<Rightarrow> v | Some old \<Rightarrow> join_values old v) else lookup_string es j)"
proof -
  let ?new = "string_element k v" and ?f = "\<lambda>e. the (insert_dup e (string_element k v))"
  have ek: "ekey ?new = k @ [NUL]" by (simp add: string_element_def key_bytes_def)
  show ?thesis
  proof (cases "header_canon j = header_canon k")
    case False
    then show ?thesis
      using find_upsert_other [where f = ?f and new = ?new and j = "j @ [NUL]"] ek dup_string_key
      by (simp add: lookup_string_def put_string_def header_canon_def)
  next
    case True
    then have same: "find_element es (j @ [NUL]) = find_element es (k @ [NUL])"
      by (simp add: find_element_def header_canon_def)
    have up: "find_element (put_string k v es) (j @ [NUL]) =
        Some (case find_element es (k @ [NUL]) of None \<Rightarrow> ?new | Some e \<Rightarrow> ?f e)"
      using True find_upsert_same [where f = ?f and new = ?new and j = "j @ [NUL]" and es = es] ek dup_string_key same
      by (simp add: put_string_def header_canon_def)
    show ?thesis
    proof (cases "find_element es (k @ [NUL])")
      case None
      with up True show ?thesis by (simp add: lookup_string_def string_element_def)
    next
      case (Some e)
      from string_table_find [OF assms this] obtain w where "dvalue e = Data_String (Some w)" by blast
      with insert_dup_string [OF this, of k v] up True Some show ?thesis
        by (simp add: lookup_string_def join_values_def)
    qed
  qed
qed

interpretation headers: dictionary string_table "\<lambda>k. True" header_canon lookup_string put_string join_values
  by unfold_locales
    (auto simp: string_table_upsert lookup_put_string, auto simp: lookup_string_def header_canon_def find_element_def)

text \<open>The array of the program refines the table.\<close>

lemma array_insert_string_repr:
  assumes repr: "array_repr a es" and tab: "string_table es" and k: "plain_key k" and room: "length es + 1 < 2 ^ 31"
  shows "\<exists>a'. array_insert_unique a (string_element k v) = Some (0, a') \<and> array_repr a' (put_string k v es)"
  unfolding put_string_def
proof (rule array_insert_unique_repr [OF repr _ _ k room])
  fix e assume "find_element es (ekey (string_element k v)) = Some e"
  from string_table_find [OF tab this] obtain w where w: "dvalue e = Data_String (Some w)" by blast
  with insert_dup_string [OF w, of k v]
  show "data_type_of (dvalue e) = data_type_of (dvalue (string_element k v)) \<and>
      insert_dup e (string_element k v) = Some (the (insert_dup e (string_element k v)))"
    by (simp add: string_element_def)
qed (simp_all add: string_element_def)

text \<open>Resetting empties the table; the index is rebuilt by the next insertions.\<close>

lemma array_reset_repr:
  assumes "array_repr a es"
  shows "\<exists>a'. array_reset a = Some a' \<and> array_repr a' []"
proof -
  obtain p where ix: "array_index a es p" using assms by (auto simp: array_repr_def)
  note I = ix [unfolded array_index_def]
  have tk: "take (used a) (adata a) = map Some es" using I by blast
  have "array_index (a\<lparr>adata := d, used := 0\<rparr>) [] []" if "length d = asize a" for d
    using I that by (auto simp: array_index_def)
  moreover have "array_index (a\<lparr>used := 0\<rparr>) [] []" using I by (auto simp: array_index_def)
  moreover have "list_all (\<lambda>d. d \<noteq> None) (take (used a) (adata a))" unfolding tk by (simp add: list_all_iff)
  ultimately show ?thesis
    using I unfolding array_reset_def array_repr_def by (cases "is_weakref a") (auto intro!: exI [of _ "[]"])
qed

text \<open>\<open>array_pop\<close> leaves the popped element in the sorted index: after popping an element that sorts
  first, the next search follows a NULL pointer.\<close>

lemma array_pop_stale:
  assumes ix: "array_index a [e, f] [1, 0]" and np: "next_power_of_2 a = 2"
  shows "\<exists>a'. array_pop a = Some (Some f, a') \<and> array_get_element a' key = None"
proof -
  note I = ix [unfolded array_index_def]
  have f: "slot a (Suc 0) = Some (Some f)" using array_index_slot [OF ix, of 1] by simp
  have srt: "0 < length (sorted a)" "sorted a ! 0 = Some 1" using array_index_sorted [OF ix, of 0] by auto
  let ?a = "a\<lparr>used := 1, adata := (adata a)[1 := None]\<rparr>"
  have pop: "array_pop a = Some (Some f, ?a)" using I f by (simp add: array_pop_def numeral_2_eq_2)
  have "probe ?a k 0 = None" for k using srt I by (simp add: probe_def slot_def)
  then have "array_get_index ?a k = None" for k
    using np by (simp add: array_get_index_def index_loop.simps)
  then show ?thesis using pop by (simp add: array_get_element_def)
qed

section \<open>Properties\<close>

text \<open>Inserting a list of headers into a table of the program.\<close>

fun insert_strings :: "(char list \<times> char list) list \<Rightarrow> array \<Rightarrow> array option" where
  "insert_strings [] a = Some a"
| "insert_strings ((k, v) # kvs) a = do { (r, a) \<leftarrow> array_insert_unique a (string_element k v); insert_strings kvs a }"

lemma length_put_string: "length (put_string k v es) \<le> length es + 1"
  unfolding put_string_def by (induction es) auto

lemma insert_strings_repr:
  assumes "array_repr a es" and "string_table es" and "list_all (\<lambda>(k, v). plain_key k) kvs"
    and "length es + length kvs < 2 ^ 31"
  shows "\<exists>a'. insert_strings kvs a = Some a' \<and> array_repr a' (fold (\<lambda>(k, v). put_string k v) kvs es)"
  using assms
proof (induction kvs arbitrary: a es)
  case Nil
  then show ?case by simp
next
  case (Cons kv kvs)
  obtain k v where kv: "kv = (k, v)" by (cases kv) auto
  with Cons.prems obtain a1 where a1: "array_insert_unique a (string_element k v) = Some (0, a1)"
    "array_repr a1 (put_string k v es)"
    using array_insert_string_repr [OF Cons.prems(1,2), of k v] by auto
  have "length (put_string k v es) + length kvs < 2 ^ 31"
    using length_put_string [of k v es] Cons.prems(4) by simp
  from Cons.IH [OF a1(2) string_table_upsert [OF Cons.prems(2)] _ this] Cons.prems(3) a1(1) kv
  show ?case by simp
qed

definition join_all :: "char list list \<Rightarrow> char list option" where
  "join_all vs = foldl (\<lambda>acc v. Some (case acc of None \<Rightarrow> v | Some old \<Rightarrow> join_values old v)) None vs"



end
