(* ===== verification/Request_Host.thy ===== *)
theory Request_Host imports Data_Array begin

text \<open>
  The helpers of \<open>src/src/request.c\<close>: the syntax check of the \<open>Host\<close> header with the removal of a trailing
  dot, the splitting of a comma-separated header value, the characters allowed in a URI, and the
  search for the end of the header. A buffer is its string; the scan of the host name runs from the
  right over positions, as the code's loop does. The host name check is proved equivalent to a grammar
  over the dot-separated labels.
\<close>

section \<open>Host names\<close>

datatype stage = DOMAINLABEL | TOPLABEL

record host_scan =
  hstage :: stage
  label_len :: nat
  is_ip :: int
  hlevel :: nat

definition digit_char :: "char \<Rightarrow> bool" where
  "digit_char c = light_isdigit (schar c)"

definition alnum_char :: "char \<Rightarrow> bool" where
  "alnum_char c = light_isalnum (schar c)"

definition xdigit_char :: "char \<Rightarrow> bool" where
  "xdigit_char c = light_isxdigit (schar c)"

text \<open>The bracketed address, after the bracket: up to seven colons, then an optional port.\<close>

fun check_ipv6 :: "nat \<Rightarrow> char list \<Rightarrow> bool" where
  "check_ipv6 colon_cnt [] = False"
| "check_ipv6 colon_cnt (c # t) =
     (if c = CHR '']'' then
        (case t of d # port \<Rightarrow> if d = CHR '':'' then list_all digit_char port else True | [] \<Rightarrow> True)
      else if c = CHR '':'' then (if colon_cnt + 1 > 7 then False else check_ipv6 (colon_cnt + 1) t)
      else if \<not> xdigit_char c then False
      else check_ipv6 colon_cnt t)"

text \<open>One round of the scan at position \<open>i\<close>; \<open>None\<close> is \<open>return -1\<close>.\<close>

definition toplabel_step :: "char list \<Rightarrow> nat \<Rightarrow> nat \<Rightarrow> host_scan \<Rightarrow> host_scan option" where
  "toplabel_step h host_len i st = (
     let c = h ! i in
     if c = CHR ''.'' then
       (if i \<noteq> host_len - 1 then
          (if label_len st = 0 then None
           else if is_ip st = 0 then
             (if \<not> alnum_char (h ! (i + 1)) then None
              else Some (st\<lparr>hstage := DOMAINLABEL, label_len := 0, hlevel := hlevel st + 1\<rparr>))
           else if \<not> digit_char (h ! (i + 1)) then
             Some (st\<lparr>is_ip := 0, hstage := DOMAINLABEL, label_len := 0, hlevel := hlevel st + 1\<rparr>)
           else if h ! (i + 1) = CHR ''-'' then None
           else Some (st\<lparr>is_ip := 1, hstage := DOMAINLABEL, label_len := 0, hlevel := hlevel st + 1\<rparr>))
        else if i = 0 then None
        else Some st)
     else if i = 0 then
       (if \<not> alnum_char c then None else Some (st\<lparr>label_len := label_len st + 1\<rparr>))
     else if c \<noteq> CHR ''-'' \<and> \<not> alnum_char c then None
     else Some (st\<lparr>is_ip := (if is_ip st = -1 \<and> \<not> digit_char c then 0 else is_ip st),
                   label_len := label_len st + 1\<rparr>))"

definition domainlabel_step :: "char list \<Rightarrow> nat \<Rightarrow> host_scan \<Rightarrow> host_scan option" where
  "domainlabel_step h i st = (
     let c = h ! i in
     if is_ip st = 1 then
       (if c = CHR ''.'' then
          (if label_len st = 0 then None else Some (st\<lparr>label_len := 0, hlevel := hlevel st + 1\<rparr>))
        else if \<not> digit_char c then None
        else Some (st\<lparr>label_len := label_len st + 1\<rparr>))
     else if c = CHR ''.'' then
       (if label_len st = 0 then None
        else if h ! (i + 1) = CHR ''-'' then None
        else Some (st\<lparr>label_len := 0, hlevel := hlevel st + 1\<rparr>))
     else if i = 0 then
       (if \<not> alnum_char c then None else Some (st\<lparr>label_len := label_len st + 1\<rparr>))
     else if c \<noteq> CHR ''-'' \<and> \<not> alnum_char c then None
     else Some (st\<lparr>label_len := label_len st + 1\<rparr>))"

text \<open>The loop over the positions below \<open>n\<close>, from the right.\<close>

fun scan_host :: "char list \<Rightarrow> nat \<Rightarrow> nat \<Rightarrow> host_scan \<Rightarrow> host_scan option" where
  "scan_host h host_len 0 st = Some st"
| "scan_host h host_len (Suc i) st =
     (case (case hstage st of TOPLABEL \<Rightarrow> toplabel_step h host_len i st
                            | DOMAINLABEL \<Rightarrow> domainlabel_step h i st) of
        None \<Rightarrow> None
      | Some st \<Rightarrow> scan_host h host_len i st)"

definition find_colon :: "char list \<Rightarrow> nat option" where
  "find_colon s = (let n = length (takeWhile (\<lambda>c. c \<noteq> CHR '':'') s) in if n < length s then Some n else None)"

definition host_start :: host_scan where
  "host_start = \<lparr>hstage = TOPLABEL, label_len = 0, is_ip = -1, hlevel = 0\<rparr>"

text \<open>The scan and the checks behind it.\<close>

definition host_labels_ok :: "char list \<Rightarrow> nat \<Rightarrow> bool" where
  "host_labels_ok h host_len =
     (case scan_host h host_len host_len host_start of
        None \<Rightarrow> False
      | Some st \<Rightarrow> \<not> (is_ip st = 1 \<and> hlevel st \<noteq> 3) \<and> label_len st \<noteq> 0)"

text \<open>The return code and the buffer, from which a dot before the port or the end is removed.\<close>

definition request_check_hostname :: "bstr \<Rightarrow> int \<times> bstr" where
  "request_check_hostname host =
     (case host of
        None \<Rightarrow> (0, host)
      | Some s \<Rightarrow>
          if s \<noteq> [] \<and> hd s = CHR ''['' then (if check_ipv6 0 (cstr (tl s)) then 0 else -1, host)
          else (
            let colon = find_colon s;
                host_len = (case colon of Some k \<Rightarrow> k | None \<Rightarrow> length s) in
            if colon \<noteq> None \<and> \<not> list_all digit_char (cstr (drop (the colon + 1) s)) then (-1, host)
            else if host_len = 0 then (-1, host)
            else if s ! (host_len - 1) = CHR ''.'' then (
              let h = take (host_len - 1) s @ drop host_len s; host_len = host_len - 1 in
              if host_len = 0 then (-1, Some h)
              else (if host_labels_ok (h @ [NUL]) host_len then 0 else -1, Some h))
            else (if host_labels_ok (s @ [NUL]) host_len then 0 else -1, host)))"

section \<open>Splitting a value\<close>

abbreviation is_ws :: "char \<Rightarrow> bool" where
  "is_ws c \<equiv> c = CHR '' '' \<or> c = CHR 0x09"

text \<open>The loop that steps back over blanks but never before the start, on the reversed value.\<close>

fun drop_blanks :: "char list \<Rightarrow> char list" where
  "drop_blanks (c # d # r) = (if is_ws c then drop_blanks (d # r) else c # d # r)"
| "drop_blanks r = r"

definition add_value :: "char list \<Rightarrow> array \<Rightarrow> array option" where
  "add_value v vals = do {
     let (e, vals) = array_get_unused_element vals TYPE_STRING;
     let ds = (case e of Some d \<Rightarrow> d | None \<Rightarrow> data_string_init);
     w \<leftarrow> set_string (dvalue ds) v;
     (r, vals) \<leftarrow> array_insert_unique vals (ds\<lparr>dvalue := w\<rparr>);
     Some vals }"

text \<open>The remaining characters and their position. An empty value makes \<open>end\<close> point before its start,
  and the character there is read: outside the block when the value is the first one.\<close>

function split_loop :: "nat \<Rightarrow> char list \<Rightarrow> array \<Rightarrow> array option" where
  "split_loop i s vals = (
     let i = i + length (takeWhile is_ws s);
         s = dropWhile is_ws s;
         v = takeWhile (\<lambda>c. c \<noteq> CHR '','') s;
         rest = dropWhile (\<lambda>c. c \<noteq> CHR '','') s
     in if s = [] then Some vals
        else if v = [] \<and> i = 0 then None
        else do {
          vals \<leftarrow> add_value (rev (drop_blanks (rev v))) vals;
          if rest = [] then Some vals else split_loop (i + length v + 1) (tl rest) vals })"
  by pat_completeness auto
termination
proof (relation "measure (\<lambda>(i, s, vals). length s)", goal_cases)
  case 1
  then show ?case by simp
next
  case (2 i s vals i1 s1 v rest vals1)
  then have "rest \<noteq> []" "length rest \<le> length s1" "length s1 \<le> length s"
    by (simp_all add: length_dropWhile_le)
  then show ?case by (cases rest) auto
qed

declare split_loop.simps [simp del]

definition http_request_split_value :: "array \<Rightarrow> bstr \<Rightarrow> array option" where
  "http_request_split_value vals b = (case b of None \<Rightarrow> Some vals | Some s \<Rightarrow> split_loop 0 s vals)"

section \<open>Characters of a URI, end of the header\<close>

definition request_uri_is_valid_char :: "char \<Rightarrow> bool" where
  "request_uri_is_valid_char c =
     (if byte c \<le> 32 then False else if byte c = 127 then False else if byte c = 255 then False else True)"

definition header_end :: string where
  "header_end = [CHR 0x0D, CHR 0x0A, CHR 0x0D, CHR 0x0A]"

fun strstr_found :: "char list \<Rightarrow> char list \<Rightarrow> bool" where
  "strstr_found [] pat = (pat = [])"
| "strstr_found (c # s) pat = (take (length pat) (c # s) = pat \<or> strstr_found s pat)"

definition http_request_header_finished :: "bstr \<Rightarrow> bool" where
  "http_request_header_finished request =
     (case request of
        None \<Rightarrow> False
      | Some s \<Rightarrow>
          if length s + 1 < 5 then False
          else if drop (length s - 4) s = header_end then True
          else strstr_found (cstr s) header_end)"

section \<open>The grammar of host names\<close>

fun split_on :: "char \<Rightarrow> char list \<Rightarrow> char list list" where
  "split_on d [] = [[]]"
| "split_on d (c # s) =
     (if c = d then [] # split_on d s else (c # hd (split_on d s)) # tl (split_on d s))"

definition label_char :: "char \<Rightarrow> bool" where
  "label_char c \<longleftrightarrow> c = CHR ''-'' \<or> alnum_char c"

text \<open>A label starts with a letter or digit and goes on with letters, digits and hyphens. If the last of
  several labels is a number, the name is an address of four numbers.\<close>

definition host_label :: "char list \<Rightarrow> bool" where
  "host_label l \<longleftrightarrow> l \<noteq> [] \<and> list_all label_char l \<and> hd l \<noteq> CHR ''-''"

definition host_grammar :: "char list \<Rightarrow> bool" where
  "host_grammar h \<longleftrightarrow>
     (let ls = split_on CHR ''.'' h in
      list_all host_label ls \<and>
      (if length ls > 1 \<and> list_all digit_char (last ls)
       then length ls = 4 \<and> list_all (list_all digit_char) ls else True))"

lemma split_on_nonempty [simp]: "split_on d s \<noteq> []"
  by (induction s) auto

lemma digit_alnum: "digit_char c \<Longrightarrow> alnum_char c"
  by (simp add: digit_char_def alnum_char_def light_isalnum_def)

lemma hyphen_class [simp]: "\<not> alnum_char CHR ''-''" "\<not> digit_char CHR ''-''"
  by (simp_all add: alnum_char_def digit_char_def light_isalnum_def light_isdigit_def light_isalpha_def schar_def Let_def)

lemma dot_class [simp]: "\<not> alnum_char CHR ''.''" "\<not> digit_char CHR ''.''" "\<not> label_char CHR ''.''"
  by (simp_all add: label_char_def alnum_char_def digit_char_def light_isalnum_def light_isdigit_def
      light_isalpha_def schar_def Let_def)

text \<open>What the scan knows of the suffix it has seen, and the state it is in.\<close>

definition suffix_ok :: "char list \<Rightarrow> bool" where
  "suffix_ok u \<longleftrightarrow>
     (let ls = split_on CHR ''.'' u in
      list_all label_char (hd ls) \<and> list_all host_label (tl ls) \<and>
      (tl ls \<noteq> [] \<and> list_all digit_char (last ls) \<longrightarrow> list_all (list_all digit_char) ls))"

definition suffix_state :: "char list \<Rightarrow> host_scan" where
  "suffix_state u =
     (let ls = split_on CHR ''.'' u in
      \<lparr>hstage = (if tl ls = [] then TOPLABEL else DOMAINLABEL), label_len = length (hd ls),
       is_ip = (if tl ls = [] then (if list_all digit_char (hd ls) then -1 else 0)
                else if list_all digit_char (last ls) then 1 else 0),
       hlevel = length (tl ls)\<rparr>)"

lemma host_label_digits: "l \<noteq> [] \<Longrightarrow> list_all digit_char l \<Longrightarrow> host_label l"
  by (cases l) (auto simp: host_label_def list_all_iff label_char_def digit_alnum)

lemma label_hd_alnum: "l \<noteq> [] \<Longrightarrow> list_all label_char l \<Longrightarrow> alnum_char (hd l) \<longleftrightarrow> host_label l"
  by (cases l) (auto simp: host_label_def label_char_def)

lemma split_on_hd: "hd (split_on d u) \<noteq> [] \<Longrightarrow> u \<noteq> [] \<and> hd u = hd (hd (split_on d u))"
  by (cases u) (auto split: if_splits)

lemma toplabel_step_suffix:
  assumes ok: "suffix_ok u" and top: "tl (split_on CHR ''.'' u) = []" and h: "h = p @ c # u @ r"
    and i: "i = length p" "i \<noteq> 0" and skip: "c = CHR ''.'' \<Longrightarrow> i \<noteq> host_len - 1"
  shows "toplabel_step h host_len i (suffix_state u) = (if suffix_ok (c # u) then Some (suffix_state (c # u)) else None)"
proof -
  obtain l where l: "split_on CHR ''.'' u = [l]" using top by (cases "split_on CHR ''.'' u") auto
  with ok have lc: "list_all label_char l" by (simp add: suffix_ok_def)
  have at: "h ! i = c" using h i by simp
  have nxt: "h ! (i + 1) = hd l" if "l \<noteq> []"
    using split_on_hd [of "CHR ''.''" u] l that h i by (cases u) (simp_all add: nth_append)
  show ?thesis
  proof (cases "c = CHR ''.''")
    case True
    show ?thesis
    proof (cases "l = []")
      case True
      with \<open>c = CHR ''.''\<close> l at skip show ?thesis
        by (simp add: toplabel_step_def suffix_state_def suffix_ok_def host_label_def)
    next
      case False
      note n = nxt [OF False] and lab = label_hd_alnum [OF False lc] and dig = host_label_digits [OF False]
      have hd: "list_all digit_char l \<Longrightarrow> digit_char (hd l)" using False by (cases l) auto
      from n lab dig hd \<open>c = CHR ''.''\<close> l at skip False lc show ?thesis
        by (auto simp: toplabel_step_def suffix_state_def suffix_ok_def)
    qed
  next
    case False
    have split: "split_on CHR ''.'' (c # u) = [c # l]" using False l by simp
    have ok': "suffix_ok (c # u) \<longleftrightarrow> label_char c" unfolding suffix_ok_def split using lc by simp
    have st: "suffix_state u = \<lparr>hstage = TOPLABEL, label_len = length l, is_ip = (if list_all digit_char l then -1 else 0), hlevel = 0\<rparr>"
      unfolding suffix_state_def l by simp
    have st': "suffix_state (c # u) = \<lparr>hstage = TOPLABEL, label_len = Suc (length l),
        is_ip = (if digit_char c \<and> list_all digit_char l then -1 else 0), hlevel = 0\<rparr>"
      unfolding suffix_state_def split by simp
    show ?thesis
      unfolding toplabel_step_def at Let_def ok' st st' using False i(2)
      by (cases "c = CHR ''-''"; cases "alnum_char c"; cases "digit_char c") (simp_all add: label_char_def)
  qed
qed

lemma suffix_ok_split:
  "split_on CHR ''.'' u = l # ls \<Longrightarrow> suffix_ok u \<longleftrightarrow>
     list_all label_char l \<and> list_all host_label ls \<and>
     (ls \<noteq> [] \<and> list_all digit_char (last ls) \<longrightarrow> list_all digit_char l \<and> list_all (list_all digit_char) ls)"
  by (auto simp: suffix_ok_def)

lemma suffix_state_split:
  "split_on CHR ''.'' u = l # ls \<Longrightarrow> ls \<noteq> [] \<Longrightarrow> suffix_state u =
     \<lparr>hstage = DOMAINLABEL, label_len = length l, is_ip = (if list_all digit_char (last ls) then 1 else 0), hlevel = length ls\<rparr>"
  by (simp add: suffix_state_def)

lemma host_grammar_split:
  "split_on CHR ''.'' u = l # ls \<Longrightarrow> host_grammar u \<longleftrightarrow>
     host_label l \<and> list_all host_label ls \<and>
     (ls \<noteq> [] \<and> list_all digit_char (last ls) \<longrightarrow>
        length ls = 3 \<and> list_all digit_char l \<and> list_all (list_all digit_char) ls)"
  by (cases ls) (auto simp: host_grammar_def)

lemma digits_label_chars: "list_all digit_char l \<Longrightarrow> list_all label_char l"
  by (auto simp: list_all_iff label_char_def digit_alnum)

lemma domainlabel_step_suffix:
  assumes ok: "suffix_ok u" and l: "split_on CHR ''.'' u = l # ls" and ls: "ls \<noteq> []"
    and h: "h = p @ c # u @ r" and i: "i = length p" "i \<noteq> 0"
  shows "domainlabel_step h i (suffix_state u) = (if suffix_ok (c # u) then Some (suffix_state (c # u)) else None)"
proof -
  have at: "h ! i = c" using h i by simp
  have nxt: "h ! (i + 1) = hd l" if "l \<noteq> []"
    using split_on_hd [of "CHR ''.''" u] l that h i by (cases u) (simp_all add: nth_append)
  note okl = ok [unfolded suffix_ok_split [OF l]]
  note st = suffix_state_split [OF l ls]
  show ?thesis
  proof (cases "c = CHR ''.''")
    case True
    then have split: "split_on CHR ''.'' (c # u) = [] # l # ls" using l by simp
    have ok': "suffix_ok (c # u) \<longleftrightarrow> host_label l"
      unfolding suffix_ok_split [OF split] using okl ls by auto
    have st': "suffix_state (c # u) = \<lparr>hstage = DOMAINLABEL, label_len = 0,
        is_ip = (if list_all digit_char (last ls) then 1 else 0), hlevel = Suc (length ls)\<rparr>"
      using suffix_state_split [OF split] ls by simp
    show ?thesis
    proof (cases "l = []")
      case True
      then show ?thesis
        unfolding domainlabel_step_def at Let_def ok' st st' using \<open>c = CHR ''.''\<close> by (simp add: host_label_def)
    next
      case False
      have lab: "host_label l \<longleftrightarrow> hd l \<noteq> CHR ''-''" using okl False by (simp add: host_label_def)
      have dig: "list_all digit_char l \<Longrightarrow> hd l \<noteq> CHR ''-''" using False by (cases l) auto
      show ?thesis
        unfolding domainlabel_step_def at nxt [OF False] Let_def ok' st st' lab
        using \<open>c = CHR ''.''\<close> False okl ls dig by (cases "list_all digit_char (last ls)") simp_all
    qed
  next
    case False
    then have split: "split_on CHR ''.'' (c # u) = (c # l) # ls" using l by simp
    have ok': "suffix_ok (c # u) \<longleftrightarrow> (if list_all digit_char (last ls) then digit_char c else label_char c)"
      unfolding suffix_ok_split [OF split] using okl ls by (auto simp: label_char_def digit_alnum)
    have st': "suffix_state (c # u) = \<lparr>hstage = DOMAINLABEL, label_len = Suc (length l),
        is_ip = (if list_all digit_char (last ls) then 1 else 0), hlevel = length ls\<rparr>"
      using suffix_state_split [OF split] ls by simp
    show ?thesis
      unfolding domainlabel_step_def at Let_def ok' st st' using False i(2)
      by (cases "list_all digit_char (last ls)"; cases "digit_char c"; cases "c = CHR ''-''"; cases "alnum_char c")
        (simp_all add: label_char_def)
  qed
qed

text \<open>What follows the scan.\<close>

definition scan_verdict :: "host_scan option \<Rightarrow> bool" where
  "scan_verdict r = (case r of None \<Rightarrow> False | Some st \<Rightarrow> \<not> (is_ip st = 1 \<and> hlevel st \<noteq> 3) \<and> label_len st \<noteq> 0)"

lemma toplabel_step_first:
  assumes ok: "suffix_ok u" and l: "split_on CHR ''.'' u = [l]" and h: "h = c # u @ r"
    and skip: "c = CHR ''.'' \<Longrightarrow> host_len \<noteq> 1" "host_len \<noteq> 0"
  shows "scan_verdict (toplabel_step h host_len 0 (suffix_state u)) \<longleftrightarrow> host_grammar (c # u)"
proof -
  note okl = ok [unfolded suffix_ok_split [OF l]]
  have at: "h ! 0 = c" using h by simp
  have st: "suffix_state u = \<lparr>hstage = TOPLABEL, label_len = length l, is_ip = (if list_all digit_char l then -1 else 0), hlevel = 0\<rparr>"
    unfolding suffix_state_def l by simp
  show ?thesis
  proof (cases "c = CHR ''.''")
    case True
    then have split: "split_on CHR ''.'' (c # u) = [] # [l]" using l by simp
    have "0 \<noteq> host_len - 1" using skip True by (cases host_len) auto
    then show ?thesis
      unfolding host_grammar_split [OF split] toplabel_step_def at Let_def st using True
      by (simp add: scan_verdict_def host_label_def)
  next
    case False
    then have split: "split_on CHR ''.'' (c # u) = [c # l]" using l by simp
    show ?thesis
      unfolding host_grammar_split [OF split] toplabel_step_def at Let_def st using False okl
      by (cases "c = CHR ''-''") (auto simp: scan_verdict_def host_label_def label_char_def)
  qed
qed

lemma domainlabel_step_first:
  assumes ok: "suffix_ok u" and l: "split_on CHR ''.'' u = l # ls" and ls: "ls \<noteq> []" and h: "h = c # u @ r"
  shows "scan_verdict (domainlabel_step h 0 (suffix_state u)) \<longleftrightarrow> host_grammar (c # u)"
proof -
  note okl = ok [unfolded suffix_ok_split [OF l]]
  have at: "h ! 0 = c" using h by simp
  note st = suffix_state_split [OF l ls]
  show ?thesis
  proof (cases "c = CHR ''.''")
    case True
    then have split: "split_on CHR ''.'' (c # u) = [] # l # ls" using l by simp
    show ?thesis
      unfolding host_grammar_split [OF split] domainlabel_step_def at Let_def st using True
      by (simp add: scan_verdict_def host_label_def)
  next
    case False
    then have split: "split_on CHR ''.'' (c # u) = (c # l) # ls" using l by simp
    have hl: "host_label (c # l) \<longleftrightarrow> alnum_char c" using okl by (auto simp: host_label_def label_char_def)
    show ?thesis
      unfolding host_grammar_split [OF split] domainlabel_step_def at Let_def st hl
      using False okl ls digit_alnum [of c]
      by (cases "list_all digit_char (last ls)"; cases "digit_char c"; cases "alnum_char c"; cases "length ls = 3")
        (simp_all add: scan_verdict_def)
  qed
qed

lemma split_on_cons: "\<exists>l ls. split_on d u = l # ls"
  by (cases "split_on d u") auto

lemma suffix_ok_tail: "suffix_ok (x # u) \<Longrightarrow> suffix_ok u"
proof -
  assume ok: "suffix_ok (x # u)"
  obtain l ls where l: "split_on CHR ''.'' u = l # ls" using split_on_cons by blast
  show ?thesis
  proof (cases "x = CHR ''.''")
    case True
    then have "split_on CHR ''.'' (x # u) = [] # l # ls" using l by simp
    from ok [unfolded suffix_ok_split [OF this]] show ?thesis
      unfolding suffix_ok_split [OF l] by (auto simp: host_label_def)
  next
    case False
    then have "split_on CHR ''.'' (x # u) = (x # l) # ls" using l by simp
    from ok [unfolded suffix_ok_split [OF this]] show ?thesis
      unfolding suffix_ok_split [OF l] by auto
  qed
qed

lemma suffix_ok_append: "suffix_ok (p @ u) \<Longrightarrow> suffix_ok u"
  by (induction p) (auto dest: suffix_ok_tail)

lemma host_grammar_suffix_ok: "host_grammar h \<Longrightarrow> suffix_ok h"
proof -
  assume g: "host_grammar h"
  obtain l ls where l: "split_on CHR ''.'' h = l # ls" using split_on_cons by blast
  from g show ?thesis
    unfolding host_grammar_split [OF l] suffix_ok_split [OF l] by (auto simp: host_label_def)
qed

lemma scan_host_suffix:
  assumes "suffix_ok u" and "h = p @ u @ r" and "p \<noteq> []" and "host_len \<noteq> 0"
    and "\<And>i. i < length p \<Longrightarrow> h ! i = CHR ''.'' \<Longrightarrow> i \<noteq> host_len - 1"
  shows "scan_verdict (scan_host h host_len (length p) (suffix_state u)) \<longleftrightarrow> host_grammar (p @ u)"
  using assms
proof (induction p arbitrary: u rule: rev_induct)
  case Nil
  then show ?case by simp
next
  case (snoc c p)
  obtain l ls where l: "split_on CHR ''.'' u = l # ls" using split_on_cons by blast
  have h: "h = p @ c # u @ r" using snoc.prems(2) by simp
  have skip: "c = CHR ''.'' \<Longrightarrow> length p \<noteq> host_len - 1" using snoc.prems(5) [of "length p"] h by simp
  have stage: "hstage (suffix_state u) = (if ls = [] then TOPLABEL else DOMAINLABEL)"
    by (simp add: suffix_state_def l)
  show ?case
  proof (cases "p = []")
    case True
    with h have h0: "h = c # u @ r" by simp
    have "c = CHR ''.'' \<Longrightarrow> host_len \<noteq> 1" using skip True by auto
    with toplabel_step_first [OF snoc.prems(1) _ h0 _ snoc.prems(4)]
      domainlabel_step_first [OF snoc.prems(1) l _ h0] True l
    show ?thesis by (cases "ls = []") (auto simp: stage scan_verdict_def split: option.splits)
  next
    case False
    have step: "(case hstage (suffix_state u) of TOPLABEL \<Rightarrow> toplabel_step h host_len (length p) (suffix_state u)
        | DOMAINLABEL \<Rightarrow> domainlabel_step h (length p) (suffix_state u)) =
      (if suffix_ok (c # u) then Some (suffix_state (c # u)) else None)"
    proof (cases "ls = []")
      case True
      with toplabel_step_suffix [OF snoc.prems(1) _ h refl _ skip] l False show ?thesis by (simp add: stage)
    next
      case ls: False
      with domainlabel_step_suffix [OF snoc.prems(1) l ls h refl] False show ?thesis by (simp add: stage)
    qed
    have run: "scan_host h host_len (length (p @ [c])) (suffix_state u) =
        (if suffix_ok (c # u) then scan_host h host_len (length p) (suffix_state (c # u)) else None)"
      by (simp add: step)
    show ?thesis
    proof (cases "suffix_ok (c # u)")
      case True
      have "i \<noteq> host_len - 1" if "i < length p" "h ! i = CHR ''.''" for i
        using snoc.prems(5) [of i] that by simp
      moreover have "h = p @ (c # u) @ r" using h by simp
      ultimately show ?thesis
        using snoc.IH [OF True _ False snoc.prems(4)] True unfolding run by simp
    next
      case bad: False
      then have "\<not> host_grammar (p @ c # u)"
        using host_grammar_suffix_ok suffix_ok_append by blast
      with bad show ?thesis unfolding run by (simp add: scan_verdict_def)
    qed
  qed
qed

text \<open>A second dot at the end, after the one that was stripped, is skipped by the scan.\<close>

definition drop_final_dot :: "char list \<Rightarrow> char list" where
  "drop_final_dot h = (if h \<noteq> [] \<and> last h = CHR ''.'' then butlast h else h)"

lemma host_start_suffix: "host_start = suffix_state []" "suffix_ok []"
  by (simp_all add: host_start_def suffix_state_def suffix_ok_def)

lemma host_labels_ok_grammar:
  assumes "h \<noteq> []"
  shows "host_labels_ok (h @ r) (length h) \<longleftrightarrow> host_grammar (drop_final_dot h)"
proof (cases "last h = CHR ''.''")
  case False
  have "i \<noteq> length h - 1" if "i < length h" "(h @ r) ! i = CHR ''.''" for i
    using False that assms by (auto simp: last_conv_nth nth_append)
  with scan_host_suffix [OF host_start_suffix(2), of "h @ r" h r "length h"] assms False
  show ?thesis
    by (simp add: host_labels_ok_def drop_final_dot_def host_start_suffix(1) scan_verdict_def)
next
  case True
  then obtain g where g: "h = g @ [CHR ''.'']" using assms by (metis append_butlast_last_id)
  have verdict: "host_labels_ok (h @ r) (length h) \<longleftrightarrow>
      scan_verdict (scan_host (h @ r) (length h) (length h) (suffix_state []))"
    by (simp add: host_labels_ok_def host_start_suffix(1) scan_verdict_def)
  have at: "(h @ r) ! length g = CHR ''.''" using g by simp
  have stage: "hstage (suffix_state []) = TOPLABEL" by (simp add: suffix_state_def)
  have first: "toplabel_step (h @ r) (length h) (length g) (suffix_state []) =
      (if g = [] then None else Some (suffix_state []))"
    using g by (simp add: toplabel_step_def at)
  show ?thesis
  proof (cases "g = []")
    case True
    with g have "\<not> host_grammar (drop_final_dot h)"
      by (simp add: drop_final_dot_def host_grammar_def host_label_def)
    moreover have "\<not> host_labels_ok (h @ r) (length h)"
      using True first g unfolding verdict by (simp add: stage scan_verdict_def)
    ultimately show ?thesis by simp
  next
    case False
    have "i \<noteq> length h - 1" if "i < length g" for i using that g by simp
    with scan_host_suffix [OF host_start_suffix(2), of "h @ r" g "CHR ''.'' # r" "length h"] False g first
    show ?thesis unfolding verdict by (simp add: stage drop_final_dot_def)
  qed
qed

definition ipv6_grammar :: "char list \<Rightarrow> bool" where
  "ipv6_grammar t \<longleftrightarrow>
     (let addr = takeWhile (\<lambda>c. c \<noteq> CHR '']'') t; rest = dropWhile (\<lambda>c. c \<noteq> CHR '']'') t in
      rest \<noteq> [] \<and> list_all (\<lambda>c. c = CHR '':'' \<or> xdigit_char c) addr \<and>
      length (filter (\<lambda>c. c = CHR '':'') addr) \<le> 7 \<and>
      (take 1 (tl rest) = '':'' \<longrightarrow> list_all digit_char (tl (tl rest))))"

lemma check_ipv6_grammar_gen:
  "check_ipv6 n t \<longleftrightarrow>
     (let addr = takeWhile (\<lambda>c. c \<noteq> CHR '']'') t; rest = dropWhile (\<lambda>c. c \<noteq> CHR '']'') t in
      rest \<noteq> [] \<and> list_all (\<lambda>c. c = CHR '':'' \<or> xdigit_char c) addr \<and>
      (filter (\<lambda>c. c = CHR '':'') addr = [] \<or> n + length (filter (\<lambda>c. c = CHR '':'') addr) \<le> 7) \<and>
      (take 1 (tl rest) = '':'' \<longrightarrow> list_all digit_char (tl (tl rest))))"
proof (induction n t rule: check_ipv6.induct)
  case (1 n)
  then show ?case by simp
next
  case (2 n c t)
  show ?case
  proof (cases "c = CHR '']''")
    case True
    then show ?thesis by (cases t) auto
  next
    case False
    note ne = this
    show ?thesis
    proof (cases "c = CHR '':''")
      case True
      then show ?thesis using 2 ne by (auto simp: Let_def)
    next
      case False
      then show ?thesis using 2 ne by (auto simp: Let_def)
    qed
  qed
qed

lemma check_ipv6_grammar: "check_ipv6 0 t \<longleftrightarrow> ipv6_grammar t"
  unfolding check_ipv6_grammar_gen ipv6_grammar_def by (auto simp: Let_def)

text \<open>The reference: the verdict and the buffer, for a string without a NUL.\<close>

definition host_reference :: "char list \<Rightarrow> bool \<times> char list" where
  "host_reference s =
     (if s \<noteq> [] \<and> hd s = CHR ''['' then (ipv6_grammar (tl s), s)
      else
        (let name = takeWhile (\<lambda>c. c \<noteq> CHR '':'') s; port = dropWhile (\<lambda>c. c \<noteq> CHR '':'') s in
         if \<not> list_all digit_char (tl port) \<or> name = [] then (False, s)
         else (let g = drop_final_dot name in (g \<noteq> [] \<and> host_grammar (drop_final_dot g), g @ port))))"

lemma find_colon_split:
  assumes "name = takeWhile (\<lambda>c. c \<noteq> CHR '':'') s" and "port = dropWhile (\<lambda>c. c \<noteq> CHR '':'') s"
  shows "find_colon s = (if port = [] then None else Some (length name))"
    and "s = name @ port"
proof -
  show s: "s = name @ port" using assms by simp
  have "length name < length s \<longleftrightarrow> port \<noteq> []" using s by (metis append_Nil2 length_append length_greater_0_conv less_add_same_cancel1)
  then show "find_colon s = (if port = [] then None else Some (length name))"
    by (auto simp: find_colon_def assms(1) [symmetric])
qed

section \<open>Properties\<close>

text \<open>C11: The host name check decides the reference grammar and removes one trailing dot: the name is
  split at its dots into labels, the last of several numeric labels makes it an address of four
  numbers, and the port is a number. The grammar also shows what the check lets through: a second
  trailing dot, a label that ends in a hyphen, and any text behind a bracketed address.\<close>

theorem hostname_check_is_grammar:
  assumes "NUL \<notin> set s"
  shows "request_check_hostname (Some s) = (if fst (host_reference s) then 0 else -1, Some (snd (host_reference s)))"
proof (cases "s \<noteq> [] \<and> hd s = CHR ''[''")
  case True
  then have "NUL \<notin> set (tl s)" using assms by (cases s) auto
  with True show ?thesis by (simp add: request_check_hostname_def host_reference_def check_ipv6_grammar)
next
  case False
  define name port where np: "name = takeWhile (\<lambda>c. c \<noteq> CHR '':'') s" "port = dropWhile (\<lambda>c. c \<noteq> CHR '':'') s"
  note fc = find_colon_split [OF np]
  have hl: "(case find_colon s of Some k \<Rightarrow> k | None \<Rightarrow> length s) = length name"
    using fc by auto
  have nul: "NUL \<notin> set port" using assms fc(2) by auto
  have digits: "(find_colon s \<noteq> None \<and> \<not> list_all digit_char (cstr (drop (the (find_colon s) + 1) s)))
      \<longleftrightarrow> \<not> list_all digit_char (tl port)"
  proof (cases port)
    case Nil
    then show ?thesis by (simp add: fc(1))
  next
    case (Cons c t)
    then have "drop (length name + 1) s = t" using fc(2) by simp
    with Cons nul show ?thesis by (simp add: fc(1))
  qed
  have code: "request_check_hostname (Some s) =
     (if \<not> list_all digit_char (tl port) then (-1, Some s) else if length name = 0 then (-1, Some s)
      else if s ! (length name - 1) = CHR ''.'' then (
        let h = take (length name - 1) s @ drop (length name) s in
        if length name - 1 = 0 then (-1, Some h)
        else (if host_labels_ok (h @ [NUL]) (length name - 1) then 0 else -1, Some h))
      else (if host_labels_ok (s @ [NUL]) (length name) then 0 else -1, Some s))"
    using False unfolding request_check_hostname_def Let_def
    by (simp only: option.case if_False digits hl)
  show ?thesis
  proof (cases "list_all digit_char (tl port) \<and> name \<noteq> []")
    case False
    then show ?thesis
      using \<open>\<not> (s \<noteq> [] \<and> hd s = CHR ''['')\<close> unfolding code host_reference_def Let_def np [symmetric] by auto
  next
    case ok: True
    have last: "s ! (length name - 1) = last name"
      using ok fc(2) by (simp add: nth_append last_conv_nth)
    have take: "take (length name - 1) s = butlast name" "drop (length name) s = port"
      using fc(2) by (simp_all add: butlast_conv_take)
    have ref: "host_reference s =
        (let g = drop_final_dot name in (g \<noteq> [] \<and> host_grammar (drop_final_dot g), g @ port))"
      using ok False unfolding host_reference_def Let_def np [symmetric] by auto
    show ?thesis
    proof (cases "last name = CHR ''.''")
      case True
      have len: "length name - 1 = length (butlast name)" by simp
      from True ok have g: "drop_final_dot name = butlast name" by (simp add: drop_final_dot_def)
      show ?thesis
        unfolding code ref Let_def last take g
        using ok True host_labels_ok_grammar [of "butlast name" "port @ [NUL]"]
        by (simp only: len append_assoc) (auto simp del: length_butlast)
    next
      case no: False
      then have g: "drop_final_dot name = name" by (simp add: drop_final_dot_def)
      have "s @ [NUL] = name @ (port @ [NUL])" using fc(2) by simp
      then have lab: "host_labels_ok (s @ [NUL]) (length name) \<longleftrightarrow> host_grammar (drop_final_dot name)"
        using host_labels_ok_grammar [OF conjunct2 [OF ok], of "port @ [NUL]"] by (simp only:)
      show ?thesis
        unfolding code ref Let_def last g lab using ok no by (simp add: g fc(2) [symmetric])
    qed
  qed
qed

theorem hostname_check_is_grammar_witness:
  "request_check_hostname (Some ''a-.b..:80'') = (0, Some ''a-.b.:80'')"
  using hostname_check_is_grammar [of "''a-.b..:80''"]
  by (simp add: host_reference_def drop_final_dot_def host_grammar_def host_label_def label_char_def
      alnum_char_def digit_char_def light_isalnum_def light_isdigit_def light_isalpha_def schar_def Let_def)

end
