(* ===== verification/Keyvalue.thy ===== *)
theory Keyvalue imports Prelude begin

text \<open>
  \<open>src/src/keyvalue.c\<close>: the tables of HTTP versions, methods, status texts and error pages with their
  two searches, and the four growing buffers of key-value entries the configuration is kept in. A
  table is the list of its entries before the one whose value is \<open>NULL\<close>; \<open>None\<close> stands for the \<open>NULL\<close> or
  the \<open>-1\<close> a search answers when nothing matches. \<open>pcre_compile\<close> and \<open>pcre_study\<close> are parameters.
\<close>

section \<open>Tables\<close>

datatype http_method =
  HTTP_METHOD_UNSET | HTTP_METHOD_GET | HTTP_METHOD_POST | HTTP_METHOD_HEAD | HTTP_METHOD_OPTIONS
  | HTTP_METHOD_PROPFIND | HTTP_METHOD_MKCOL | HTTP_METHOD_PUT | HTTP_METHOD_DELETE | HTTP_METHOD_COPY
  | HTTP_METHOD_MOVE | HTTP_METHOD_PROPPATCH | HTTP_METHOD_REPORT | HTTP_METHOD_CHECKOUT
  | HTTP_METHOD_CHECKIN | HTTP_METHOD_VERSION_CONTROL | HTTP_METHOD_UNCHECKOUT
  | HTTP_METHOD_MKACTIVITY | HTTP_METHOD_MERGE | HTTP_METHOD_LOCK | HTTP_METHOD_UNLOCK
  | HTTP_METHOD_LABEL | HTTP_METHOD_CONNECT

datatype http_version = HTTP_VERSION_UNSET | HTTP_VERSION_1_0 | HTTP_VERSION_1_1

definition http_versions :: "(http_version \<times> string) list" where
  "http_versions = [(HTTP_VERSION_1_1, ''HTTP/1.1''), (HTTP_VERSION_1_0, ''HTTP/1.0'')]"

definition http_methods :: "(http_method \<times> string) list" where
  "http_methods =
    [(HTTP_METHOD_GET, ''GET''),
     (HTTP_METHOD_POST, ''POST''),
     (HTTP_METHOD_HEAD, ''HEAD''),
     (HTTP_METHOD_PROPFIND, ''PROPFIND''),
     (HTTP_METHOD_PROPPATCH, ''PROPPATCH''),
     (HTTP_METHOD_REPORT, ''REPORT''),
     (HTTP_METHOD_OPTIONS, ''OPTIONS''),
     (HTTP_METHOD_MKCOL, ''MKCOL''),
     (HTTP_METHOD_PUT, ''PUT''),
     (HTTP_METHOD_DELETE, ''DELETE''),
     (HTTP_METHOD_COPY, ''COPY''),
     (HTTP_METHOD_MOVE, ''MOVE''),
     (HTTP_METHOD_LABEL, ''LABEL''),
     (HTTP_METHOD_CHECKOUT, ''CHECKOUT''),
     (HTTP_METHOD_CHECKIN, ''CHECKIN''),
     (HTTP_METHOD_MERGE, ''MERGE''),
     (HTTP_METHOD_LOCK, ''LOCK''),
     (HTTP_METHOD_UNLOCK, ''UNLOCK''),
     (HTTP_METHOD_MKACTIVITY, ''MKACTIVITY''),
     (HTTP_METHOD_UNCHECKOUT, ''UNCHECKOUT''),
     (HTTP_METHOD_VERSION_CONTROL, ''VERSION-CONTROL''),
     (HTTP_METHOD_CONNECT, ''CONNECT'')]"

definition http_status_table :: "(int \<times> string) list" where
  "http_status_table =
    [(100, ''Continue''),
     (101, ''Switching Protocols''),
     (102, ''Processing''),
     (200, ''OK''),
     (201, ''Created''),
     (202, ''Accepted''),
     (203, ''Non-Authoritative Information''),
     (204, ''No Content''),
     (205, ''Reset Content''),
     (206, ''Partial Content''),
     (207, ''Multi-status''),
     (300, ''Multiple Choices''),
     (301, ''Moved Permanently''),
     (302, ''Found''),
     (303, ''See Other''),
     (304, ''Not Modified''),
     (305, ''Use Proxy''),
     (306, ''(Unused)''),
     (307, ''Temporary Redirect''),
     (400, ''Bad Request''),
     (401, ''Unauthorized''),
     (402, ''Payment Required''),
     (403, ''Forbidden''),
     (404, ''Not Found''),
     (405, ''Method Not Allowed''),
     (406, ''Not Acceptable''),
     (407, ''Proxy Authentication Required''),
     (408, ''Request Timeout''),
     (409, ''Conflict''),
     (410, ''Gone''),
     (411, ''Length Required''),
     (412, ''Precondition Failed''),
     (413, ''Request Entity Too Large''),
     (414, ''Request-URI Too Long''),
     (415, ''Unsupported Media Type''),
     (416, ''Requested Range Not Satisfiable''),
     (417, ''Expectation Failed''),
     (422, ''Unprocessable Entity''),
     (423, ''Locked''),
     (424, ''Failed Dependency''),
     (426, ''Upgrade Required''),
     (500, ''Internal Server Error''),
     (501, ''Not Implemented''),
     (502, ''Bad Gateway''),
     (503, ''Service Not Available''),
     (504, ''Gateway Timeout''),
     (505, ''HTTP Version Not Supported''),
     (507, ''Insufficient Storage'')]"

definition http_status_body :: "(int \<times> string) list" where
  "http_status_body =
    [(400, ''400.html''),
     (401, ''401.html''),
     (403, ''403.html''),
     (404, ''404.html''),
     (411, ''411.html''),
     (416, ''416.html''),
     (500, ''500.html''),
     (501, ''501.html''),
     (503, ''503.html''),
     (505, ''505.html'')]"

fun keyvalue_get_value :: "('k \<times> string) list \<Rightarrow> 'k \<Rightarrow> string option" where
  "keyvalue_get_value [] k = None"
| "keyvalue_get_value ((key, val) # kv) k = (if key = k then Some val else keyvalue_get_value kv k)"

fun keyvalue_get_key :: "('k \<times> string) list \<Rightarrow> string \<Rightarrow> 'k option" where
  "keyvalue_get_key [] s = None"
| "keyvalue_get_key ((key, val) # kv) s = (if cstr s = val then Some key else keyvalue_get_key kv s)"

definition get_http_version_name :: "http_version \<Rightarrow> string option" where
  "get_http_version_name i = keyvalue_get_value http_versions i"

definition get_http_status_name :: "int \<Rightarrow> string option" where
  "get_http_status_name i = keyvalue_get_value http_status_table i"

definition get_http_method_name :: "http_method \<Rightarrow> string option" where
  "get_http_method_name i = keyvalue_get_value http_methods i"

definition get_http_status_body_name :: "int \<Rightarrow> string option" where
  "get_http_status_body_name i = keyvalue_get_value http_status_body i"

definition get_http_version_key :: "string \<Rightarrow> http_version option" where
  "get_http_version_key s = keyvalue_get_key http_versions s"

text \<open>The cast of \<open>-1\<close> to the enumeration is its first member.\<close>

definition get_http_method_key :: "string \<Rightarrow> http_method" where
  "get_http_method_key s = (case keyvalue_get_key http_methods s of None \<Rightarrow> HTTP_METHOD_UNSET | Some m \<Rightarrow> m)"

section \<open>Buffers of entries\<close>

text \<open>The structures the macro \<open>KVB\<close> declares: \<open>size\<close> entries are allocated and zeroed, \<open>used\<close> of them
  filled. A zeroed entry is \<open>None\<close>.\<close>

record 'e kvb =
  kv :: "'e option list"
  kvused :: nat
  kvsize :: nat

definition keyvalue_buffer_init :: "'e kvb" where
  "keyvalue_buffer_init = \<lparr>kv = [], kvused = 0, kvsize = 0\<rparr>"

text \<open>Four more entries when the buffer is full.\<close>

definition kvb_grow :: "'e kvb \<Rightarrow> 'e kvb" where
  "kvb_grow kvb =
     (if kvsize kvb = 0 then kvb\<lparr>kvsize := 4, kv := replicate 4 None\<rparr>
      else if kvused kvb = kvsize kvb then
        kvb\<lparr>kvsize := kvsize kvb + 4, kv := take (kvused kvb) (kv kvb) @ replicate 4 None\<rparr>
      else kvb)"

definition kvb_put :: "'e \<Rightarrow> 'e kvb \<Rightarrow> 'e kvb option" where
  "kvb_put e kvb =
     (if kvused kvb < length (kv kvb)
      then Some (kvb\<lparr>kv := (kv kvb)[kvused kvb := Some e], kvused := kvused kvb + 1\<rparr>) else None)"

definition keyvalue_buffer_append :: "(int \<times> string) kvb \<Rightarrow> int \<Rightarrow> string \<Rightarrow> (int \<times> string) kvb option" where
  "keyvalue_buffer_append kvb key val = kvb_put (key, cstr val) (kvb_grow kvb)"

text \<open>The first growth also resets \<open>used\<close>; the key may be \<open>NULL\<close>.\<close>

definition s_keyvalue_buffer_append ::
  "(string option \<times> string) kvb \<Rightarrow> string option \<Rightarrow> string \<Rightarrow> (string option \<times> string) kvb option" where
  "s_keyvalue_buffer_append kvb key val =
     (let kvb = kvb_grow (if kvsize kvb = 0 then kvb\<lparr>kvused := 0\<rparr> else kvb)
      in kvb_put (map_option cstr key, cstr val) kvb)"

datatype httpauth_type = HTTP_AUTH_BASIC | HTTP_AUTH_DIGEST

definition httpauth_keyvalue_buffer_append ::
  "(string \<times> string \<times> httpauth_type) kvb \<Rightarrow> string \<Rightarrow> string \<Rightarrow> httpauth_type
     \<Rightarrow> (string \<times> string \<times> httpauth_type) kvb option" where
  "httpauth_keyvalue_buffer_append kvb key realm type = kvb_put (cstr key, cstr realm, type) (kvb_grow kvb)"

text \<open>\<open>compile\<close> is \<open>pcre_compile\<close>, \<open>None\<close> when it rejects the pattern; \<open>study\<close> is \<open>pcre_study\<close>, \<open>None\<close> when it
  reports an error. The result pairs the return code with the buffer, which has grown in any case.\<close>

definition pcre_keyvalue_buffer_append ::
  "(string \<Rightarrow> 'p option) \<Rightarrow> ('p \<Rightarrow> 'x option) \<Rightarrow> ('p \<times> 'x \<times> string) kvb \<Rightarrow> string option \<Rightarrow> string
     \<Rightarrow> (int \<times> ('p \<times> 'x \<times> string) kvb) option" where
  "pcre_keyvalue_buffer_append compile study kvb key val =
     (case key of
        None \<Rightarrow> Some (-1, kvb)
      | Some k \<Rightarrow>
          let kvb = kvb_grow (if kvsize kvb = 0 then kvb\<lparr>kvused := 0\<rparr> else kvb)
          in (case compile (cstr k) of
                None \<Rightarrow> Some (-1, kvb)
              | Some p \<Rightarrow>
                  (case study p of
                     None \<Rightarrow> Some (-1, kvb)
                   | Some x \<Rightarrow> map_option (\<lambda>kvb. (0, kvb)) (kvb_put (p, x, cstr val) kvb))))"

section \<open>Lemmas\<close>

definition kvb_repr :: "'e kvb \<Rightarrow> 'e list \<Rightarrow> bool" where
  "kvb_repr kvb es \<longleftrightarrow>
     kvused kvb = length es \<and> kvused kvb \<le> kvsize kvb \<and> length (kv kvb) = kvsize kvb \<and>
     take (kvused kvb) (kv kvb) = map Some es"

lemma kvb_repr_init [wf_intros]: "kvb_repr keyvalue_buffer_init []"
  by (simp add: kvb_repr_def keyvalue_buffer_init_def)

lemma kvb_grow_repr [wf_intros]: "kvb_repr kvb es \<Longrightarrow> kvb_repr (kvb_grow kvb) es"
  by (auto simp: kvb_repr_def kvb_grow_def)

lemma kvb_grow_room: "kvb_repr kvb es \<Longrightarrow> kvused (kvb_grow kvb) < kvsize (kvb_grow kvb)"
  by (auto simp: kvb_repr_def kvb_grow_def)

lemma kvb_put_repr:
  assumes "kvb_repr kvb es" and "kvused kvb < kvsize kvb"
  shows "\<exists>kvb'. kvb_put e kvb = Some kvb' \<and> kvb_repr kvb' (es @ [e])"
proof -
  have u: "kvused kvb < length (kv kvb)" and tk: "take (kvused kvb) (kv kvb) = map Some es"
    using assms by (auto simp: kvb_repr_def)
  have "take (kvused kvb + 1) ((kv kvb)[kvused kvb := Some e]) = map Some (es @ [e])"
    using tk take_Suc_conv_app_nth [of "kvused kvb" "(kv kvb)[kvused kvb := Some e]"] u by simp
  with u assms show ?thesis by (simp add: kvb_repr_def kvb_put_def)
qed

lemma kvb_append_repr: "kvb_repr kvb es \<Longrightarrow> \<exists>kvb'. kvb_put e (kvb_grow kvb) = Some kvb' \<and> kvb_repr kvb' (es @ [e])"
  by (rule kvb_put_repr [OF kvb_grow_repr kvb_grow_room])

lemma kvb_reset_used: "kvb_repr kvb es \<Longrightarrow> (if kvsize kvb = 0 then kvb\<lparr>kvused := 0\<rparr> else kvb) = kvb"
  by (auto simp: kvb_repr_def)

lemma keyvalue_get_value_in: "keyvalue_get_value t k = Some v \<Longrightarrow> (k, v) \<in> set t"
  by (induction t k rule: keyvalue_get_value.induct) (auto split: if_splits)

lemma keyvalue_get_key_in:
  "(k, v) \<in> set t \<Longrightarrow> distinct (map snd t) \<Longrightarrow> cstr v = v \<Longrightarrow> keyvalue_get_key t v = Some k"
proof (induction t)
  case (Cons kv t)
  obtain k0 v0 where kv: "kv = (k0, v0)" by (cases kv) auto
  show ?case
  proof (cases "v0 = v")
    case True
    have "v \<notin> snd ` set t" using Cons.prems(2) True kv by simp
    then have "(k, v) \<notin> set t" by force
    with Cons.prems(1) True kv have "k0 = k" by simp
    with True Cons.prems(3) kv show ?thesis by simp
  next
    case False
    with Cons.prems(1) kv have "(k, v) \<in> set t" by simp
    with Cons.IH Cons.prems(2,3) kv False show ?thesis by simp
  qed
qed simp

lemma keyvalue_round_trip:
  assumes "distinct (map snd t)" and "list_all (\<lambda>(k, v). NUL \<notin> set v) t"
    and "keyvalue_get_value t k = Some v"
  shows "keyvalue_get_key t v = Some k"
proof -
  note i = keyvalue_get_value_in [OF assms(3)]
  with assms(2) have "NUL \<notin> set v" by (auto simp: list_all_iff)
  then show ?thesis using keyvalue_get_key_in [OF i assms(1)] by simp
qed

section \<open>Properties\<close>

text \<open>The name of every method and of every version is looked up to that method or version again.\<close>

theorem method_names_round_trip:
  "map_option get_http_method_key (get_http_method_name m) = (if m = HTTP_METHOD_UNSET then None else Some m) \<and>
   map_option get_http_version_key (get_http_version_name i) = (if i = HTTP_VERSION_UNSET then None else Some (Some i))"
proof -
  have d: "distinct (map snd http_methods)" "list_all (\<lambda>(k, v). NUL \<notin> set v) http_methods"
    by (simp_all add: http_methods_def)
  have m: "get_http_method_key v = m" if "get_http_method_name m = Some v" for m v
    using keyvalue_round_trip [OF d, of m v] that by (simp add: get_http_method_name_def get_http_method_key_def)
  have names: "get_http_method_name m = None \<longleftrightarrow> m = HTTP_METHOD_UNSET"
    by (cases m) (simp_all add: get_http_method_name_def http_methods_def)
  have "map_option get_http_version_key (get_http_version_name i) = (if i = HTTP_VERSION_UNSET then None else Some (Some i))"
    by (cases i) (simp_all add: get_http_version_name_def get_http_version_key_def http_versions_def)
  moreover have "map_option get_http_method_key (get_http_method_name m) = (if m = HTTP_METHOD_UNSET then None else Some m)"
    using m [of m] names by (cases "get_http_method_name m") auto
  ultimately show ?thesis by blast
qed

text \<open>Appending to a configuration buffer keeps the entries and adds one at the end, whether or not the
  buffer has to grow; a pattern that does not compile leaves the entries as they are.\<close>

theorem kvb_append_keeps:
  assumes "kvb_repr b es" and "kvb_repr p ps"
  shows "(\<exists>b'. s_keyvalue_buffer_append b key val = Some b' \<and> kvb_repr b' (es @ [(map_option cstr key, cstr val)]))
    \<and> (\<exists>r p'. pcre_keyvalue_buffer_append compile study p (Some pat) val = Some (r, p') \<and>
        kvb_repr p' (ps @ (case Option.bind (compile (cstr pat)) (\<lambda>c. map_option (Pair c) (study c)) of
          None \<Rightarrow> [] | Some (c, x) \<Rightarrow> [(c, x, cstr val)])))"
proof
  show "\<exists>b'. s_keyvalue_buffer_append b key val = Some b' \<and> kvb_repr b' (es @ [(map_option cstr key, cstr val)])"
    using kvb_append_repr [OF assms(1)] kvb_reset_used [OF assms(1)]
    by (simp add: s_keyvalue_buffer_append_def Let_def)
  have reset: "(if kvsize p = 0 then p\<lparr>kvused := 0\<rparr> else p) = p" using kvb_reset_used [OF assms(2)] .
  show "\<exists>r p'. pcre_keyvalue_buffer_append compile study p (Some pat) val = Some (r, p') \<and>
      kvb_repr p' (ps @ (case Option.bind (compile (cstr pat)) (\<lambda>c. map_option (Pair c) (study c)) of
        None \<Rightarrow> [] | Some (c, x) \<Rightarrow> [(c, x, cstr val)]))"
  proof (cases "compile (cstr pat)")
    case None
    then show ?thesis using kvb_grow_repr [OF assms(2)] by (simp add: pcre_keyvalue_buffer_append_def reset)
  next
    case (Some c)
    note c = this
    show ?thesis
    proof (cases "study c")
      case None
      with c show ?thesis using kvb_grow_repr [OF assms(2)] by (simp add: pcre_keyvalue_buffer_append_def reset)
    next
      case (Some x)
      obtain p' where "kvb_put (c, x, cstr val) (kvb_grow p) = Some p'" "kvb_repr p' (ps @ [(c, x, cstr val)])"
        using kvb_append_repr [OF assms(2)] by blast
      with c Some show ?thesis by (simp add: pcre_keyvalue_buffer_append_def reset)
    qed
  qed
qed

theorem kvb_append_keeps_witness:
  "\<exists>b. s_keyvalue_buffer_append keyvalue_buffer_init None ''x'' = Some b \<and> kvb_repr b [(None, ''x'')]"
  using kvb_append_keeps [OF kvb_repr_init kvb_repr_init, of None "''x''" "\<lambda>s. Some ()" "\<lambda>p. Some ()" "''''"]
  by (simp add: cstr_def)

end
