(* ===== verification/Request.thy ===== *)
theory Request imports Request_Host Keyvalue begin

text \<open>
  \<open>http_request_parse\<close> of \<open>src/src/request.c\<close>: the request line, the header fields with line folding, the
  fields the server interprets, and the checks behind the loop. \<open>parse_text\<close> holds the bytes of
  \<open>con->parse_request\<close>, the terminator included; the code's pointers into it are positions, and its
  writes of NUL bytes are kept. \<open>None\<close> is an access outside a block. A step ends in \<open>Inl\<close> when the code
  returns 0 with an error status, in \<open>Inr\<close> when it goes on. A pointer to the value of a header is the
  position of the element in the header table with an offset into its string; it dangles when the
  element was merged into another one and freed. Log output is left out.
\<close>

section \<open>State\<close>

datatype header_ptr = Null | Elem nat nat | Dangling

record request =
  request_line :: bstr
  uri :: bstr
  orig_uri :: bstr
  http_method :: http_method
  http_version :: http_version
  http_host :: header_ptr
  http_range :: header_ptr
  http_content_type :: header_ptr
  http_if_modified_since :: header_ptr
  http_if_none_match :: header_ptr
  headers :: array
  content_length :: nat

record con =
  request_count :: nat
  raw_request :: bstr
  parse_text :: "char list"
  req :: request
  http_status :: int
  keep_alive :: int
  response_keep_alive :: int
  header_len :: nat
  split_vals :: array

record conf =
  allow_http11 :: bool
  reject_expect_100_with_417 :: bool
  max_request_size :: nat

datatype connection_header = HTTP_CONNECTION_UNSET | HTTP_CONNECTION_KEEPALIVE | HTTP_CONNECTION_CLOSE

type_synonym 'a parse = "(con + 'a) option"

definition pbind :: "'a parse \<Rightarrow> ('a \<Rightarrow> 'b parse) \<Rightarrow> 'b parse" where
  "pbind m f = (case m of None \<Rightarrow> None | Some (Inl con) \<Rightarrow> Some (Inl con) | Some (Inr x) \<Rightarrow> f x)"

abbreviation peek :: "con \<Rightarrow> nat \<Rightarrow> char option" where
  "peek con i \<equiv> (if i < length (parse_text con) then Some (parse_text con ! i) else None)"

definition poke_nul :: "nat \<Rightarrow> con \<Rightarrow> con" where
  "poke_nul i con = con\<lparr>parse_text := (parse_text con)[i := NUL]\<rparr>"

text \<open>The C string at a position, and \<open>n\<close> bytes from it.\<close>

definition text_at :: "con \<Rightarrow> nat \<Rightarrow> string" where
  "text_at con i = cstr (drop i (parse_text con))"

definition bytes_at :: "con \<Rightarrow> nat \<Rightarrow> nat \<Rightarrow> string option" where
  "bytes_at con i n = mread i n (parse_text con)"

text \<open>The two shapes of an error: some of them leave \<open>response.keep_alive\<close> alone.\<close>

definition fail_status :: "int \<Rightarrow> con \<Rightarrow> con" where
  "fail_status st con = con\<lparr>http_status := st, keep_alive := 0\<rparr>"

definition fail_response :: "int \<Rightarrow> con \<Rightarrow> con" where
  "fail_response st con = con\<lparr>http_status := st, response_keep_alive := 0, keep_alive := 0\<rparr>"

section \<open>Header fields\<close>

text \<open>A new element of the header table: a reset one is reused.\<close>

definition new_header :: "con \<Rightarrow> string \<Rightarrow> string \<Rightarrow> (data_unset \<times> con) option" where
  "new_header con key val = do {
     let (e, hdrs) = array_get_unused_element (headers (req con)) TYPE_STRING;
     let ds = (case e of Some d \<Rightarrow> d | None \<Rightarrow> data_string_init);
     v \<leftarrow> set_string (dvalue ds) val;
     Some (ds\<lparr>dkey := Some key, dvalue := v\<rparr>, con\<lparr>req := (req con)\<lparr>headers := hdrs\<rparr>\<rparr>) }"

text \<open>Insertion, with what became of a pointer to the element's value.\<close>

definition insert_header :: "con \<Rightarrow> data_unset \<Rightarrow> (header_ptr \<times> con) option" where
  "insert_header con ds = do {
     (r, hdrs) \<leftarrow> array_insert_unique (headers (req con)) ds;
     let p = (if used hdrs = used (headers (req con)) then Dangling else Elem (used (headers (req con))) 0);
     Some (p, con\<lparr>req := (req con)\<lparr>headers := hdrs\<rparr>\<rparr>) }"

fun shift_ptr :: "nat \<Rightarrow> header_ptr \<Rightarrow> header_ptr" where
  "shift_ptr n (Elem i off) = Elem i (off + n)"
| "shift_ptr n p = p"

text \<open>The string behind a pointer.\<close>

fun header_string :: "con \<Rightarrow> header_ptr \<Rightarrow> bstr option" where
  "header_string con (Elem i off) = do {
     d \<leftarrow> slot (headers (req con)) i;
     du \<leftarrow> d;
     case dvalue du of
       Data_String v \<Rightarrow> Some (map_option (drop off) v)
     | Data_Response v \<Rightarrow> Some (map_option (drop off) v)
     | _ \<Rightarrow> None }"
| "header_string con p = None"

definition lower_string :: "string \<Rightarrow> string" where
  "lower_string s = map to_lower_char (cstr s)"

definition all_digits :: "string \<Rightarrow> bool" where
  "all_digits s = list_all (\<lambda>c. 48 \<le> byte c \<and> byte c \<le> 57) s"

definition ULONG_MAX :: nat where
  "ULONG_MAX = 2 ^ 32 - 1"

definition SSIZE_MAX :: nat where
  "SSIZE_MAX = 2 ^ 31 - 1"

text \<open>\<open>strtoul\<close> on a string of digits saturates.\<close>

definition strtoul_digits :: "string \<Rightarrow> nat" where
  "strtoul_digits s = min (dec_value s) ULONG_MAX"

text \<open>The fields the parser interprets, in the order of the comparisons. A comparison is made only while
  the key sorts behind the previous name.\<close>

datatype special =
  H_Connection | H_Content_Length | H_Content_Type | H_Expect | H_Host | H_If_Modified_Since
  | H_If_None_Match | H_Range

fun find_special :: "string \<Rightarrow> (string \<times> special) list \<Rightarrow> special option" where
  "find_special key [] = None"
| "find_special key ((name, h) # t) =
     (let cmp = caseless_cmp key name in
      if cmp = 0 then Some h else if cmp > 0 then find_special key t else None)"

definition special_headers :: "(string \<times> special) list" where
  "special_headers =
    [(''Connection'', H_Connection), (''Content-Length'', H_Content_Length), (''Content-Type'', H_Content_Type),
     (''Expect'', H_Expect), (''Host'', H_Host), (''If-Modified-Since'', H_If_Modified_Since),
     (''If-None-Match'', H_If_None_Match), (''Range'', H_Range)]"

text \<open>The first of the values that is \<open>keep-alive\<close> or \<open>close\<close>.\<close>

fun connection_option :: "data_unset option list \<Rightarrow> connection_header \<Rightarrow> connection_header option" where
  "connection_option [] ka = Some ka"
| "connection_option (None # ds) ka = None"
| "connection_option (Some d # ds) ka =
     (case dvalue d of
        Data_String v \<Rightarrow>
          if caseless_cmp (bval v) ''keep-alive'' = 0 then Some HTTP_CONNECTION_KEEPALIVE
          else if caseless_cmp (bval v) ''close'' = 0 then Some HTTP_CONNECTION_CLOSE
          else connection_option ds ka
      | _ \<Rightarrow> None)"

text \<open>What the header loop remembers between fields.\<close>

record flags =
  keep_alive_set :: connection_header
  con_length_set :: bool

definition handle_connection :: "data_unset \<Rightarrow> string \<Rightarrow> con \<Rightarrow> flags \<Rightarrow> (con \<times> flags) parse" where
  "handle_connection ds val con fl = do {
     vals \<leftarrow> array_reset (split_vals con);
     vals \<leftarrow> http_request_split_value vals (Some val);
     ka \<leftarrow> connection_option (take (used vals) (adata vals)) (keep_alive_set fl);
     (p, con) \<leftarrow> insert_header (con\<lparr>split_vals := vals\<rparr>) ds;
     Some (Inr (con, fl\<lparr>keep_alive_set := ka\<rparr>)) }"

definition reject_header :: "int \<Rightarrow> data_unset \<Rightarrow> con \<Rightarrow> 'a parse" where
  "reject_header st ds con = do {
     (p, con) \<leftarrow> insert_header (fail_status st con) ds;
     Some (Inl con) }"

definition handle_content_length :: "data_unset \<Rightarrow> string \<Rightarrow> con \<Rightarrow> flags \<Rightarrow> (con \<times> flags) parse" where
  "handle_content_length ds val con fl =
     (if con_length_set fl then reject_header 400 ds con
      else if \<not> all_digits val then reject_header 400 ds con
      else do {
        (p, con) \<leftarrow> insert_header (con\<lparr>req := (req con)\<lparr>content_length := strtoul_digits val\<rparr>\<rparr>) ds;
        Some (Inr (con, fl\<lparr>con_length_set := True\<rparr>)) })"

definition handle_content_type :: "data_unset \<Rightarrow> con \<Rightarrow> flags \<Rightarrow> (con \<times> flags) parse" where
  "handle_content_type ds con fl =
     (if http_content_type (req con) = Null then do {
        (p, con) \<leftarrow> insert_header con ds;
        Some (Inr (con\<lparr>req := (req con)\<lparr>http_content_type := p\<rparr>\<rparr>, fl)) }
      else reject_header 400 ds con)"

definition handle_expect :: "conf \<Rightarrow> data_unset \<Rightarrow> string \<Rightarrow> con \<Rightarrow> flags \<Rightarrow> (con \<times> flags) parse" where
  "handle_expect cf ds val con fl =
     (if reject_expect_100_with_417 cf \<and> caseless_cmp val ''100-continue'' = 0 then reject_header 417 ds con
      else do { (p, con) \<leftarrow> insert_header con ds; Some (Inr (con, fl)) })"

definition handle_host :: "bool \<Rightarrow> data_unset \<Rightarrow> con \<Rightarrow> flags \<Rightarrow> (con \<times> flags) parse" where
  "handle_host reqline_host ds con fl =
     (if reqline_host then Some (Inr (con, fl))
      else if http_host (req con) = Null then do {
        (p, con) \<leftarrow> insert_header con ds;
        Some (Inr (con\<lparr>req := (req con)\<lparr>http_host := p\<rparr>\<rparr>, fl)) }
      else reject_header 400 ds con)"

definition handle_if_modified_since :: "data_unset \<Rightarrow> string \<Rightarrow> con \<Rightarrow> flags \<Rightarrow> (con \<times> flags) parse" where
  "handle_if_modified_since ds val con fl =
     (if http_if_modified_since (req con) = Null then do {
        (p, con) \<leftarrow> insert_header con ds;
        Some (Inr (con\<lparr>req := (req con)\<lparr>http_if_modified_since := p\<rparr>\<rparr>, fl)) }
      else do {
        old \<leftarrow> header_string con (http_if_modified_since (req con));
        old \<leftarrow> old;
        if lower_string old = lower_string val then Some (Inr (con, fl)) else reject_header 400 ds con })"

definition handle_if_none_match :: "data_unset \<Rightarrow> con \<Rightarrow> flags \<Rightarrow> (con \<times> flags) parse" where
  "handle_if_none_match ds con fl =
     (if http_if_none_match (req con) = Null then do {
        (p, con) \<leftarrow> insert_header con ds;
        Some (Inr (con\<lparr>req := (req con)\<lparr>http_if_none_match := p\<rparr>\<rparr>, fl)) }
      else Some (Inr (con, fl)))"

definition handle_range :: "data_unset \<Rightarrow> string \<Rightarrow> con \<Rightarrow> flags \<Rightarrow> (con \<times> flags) parse" where
  "handle_range ds val con fl =
     (if http_range (req con) = Null then
        (if lower_string (take 6 val) = ''bytes='' \<and> CHR ''-'' \<in> set (drop 6 (cstr val)) then do {
           (p, con) \<leftarrow> insert_header con ds;
           Some (Inr (con\<lparr>req := (req con)\<lparr>http_range := shift_ptr 6 p\<rparr>\<rparr>, fl)) }
         else do { (p, con) \<leftarrow> insert_header con ds; Some (Inr (con, fl)) })
      else reject_header 400 ds con)"

text \<open>A complete field with a value that is not empty.\<close>

definition process_header :: "conf \<Rightarrow> bool \<Rightarrow> string \<Rightarrow> string \<Rightarrow> con \<Rightarrow> flags \<Rightarrow> (con \<times> flags) parse" where
  "process_header cf reqline_host key val con fl = do {
     (ds, con) \<leftarrow> new_header con key val;
     case find_special key special_headers of
       Some H_Connection \<Rightarrow> handle_connection ds val con fl
     | Some H_Content_Length \<Rightarrow> handle_content_length ds val con fl
     | Some H_Content_Type \<Rightarrow> handle_content_type ds con fl
     | Some H_Expect \<Rightarrow> handle_expect cf ds val con fl
     | Some H_Host \<Rightarrow> handle_host reqline_host ds con fl
     | Some H_If_Modified_Since \<Rightarrow> handle_if_modified_since ds val con fl
     | Some H_If_None_Match \<Rightarrow> handle_if_none_match ds con fl
     | Some H_Range \<Rightarrow> handle_range ds val con fl
     | None \<Rightarrow> do { (p, con) \<leftarrow> insert_header con ds; Some (Inr (con, fl)) } }"

section \<open>The header loop\<close>

text \<open>The local variables of the loop. \<open>value\<close> and \<open>key\<close> are positions in the text.\<close>

record locals =
  pos :: nat
  first :: nat
  is_key :: bool
  key_len :: nat
  in_folding :: bool
  val_at :: "nat option"
  key_at :: "nat option"
  hflags :: flags
  finished :: bool

definition separator :: "char \<Rightarrow> bool" where
  "separator c \<longleftrightarrow> c \<in> set [CHR ''('', CHR '')'', CHR ''<'', CHR ''>'', CHR ''@'', CHR '','', CHR '';'', CHR 0x5C,
     CHR 0x22, CHR ''/'', CHR ''['', CHR '']'', CHR ''?'', CHR ''='', CHR ''{'', CHR ''}'']"

text \<open>The control characters of the switch: 9, 10 and 13 are other cases or, like 10, among them.\<close>

definition control :: "char \<Rightarrow> bool" where
  "control c \<longleftrightarrow> byte c \<le> 8 \<or> 10 \<le> byte c \<and> byte c \<le> 12 \<or> 14 \<le> byte c \<and> byte c \<le> 31 \<or> byte c = 127"

text \<open>Blanks between the key and its colon: the colon is looked for from the next character on; the
  position before it is where the loop goes on.\<close>

definition skip_to_colon :: "con \<Rightarrow> nat \<Rightarrow> (nat option) option" where
  "skip_to_colon con i = (
     let ws = takeWhile is_ws (drop (i + 1) (parse_text con)); n = i + 1 + length ws
     in do { c \<leftarrow> peek con n; if c = CHR '':'' then Some (Some (n - 1)) else Some None })"

definition key_char :: "con \<Rightarrow> locals \<Rightarrow> char \<Rightarrow> (con \<times> locals) parse" where
  "key_char con lo c =
     (if c = CHR '':'' then
        Some (Inr (con, lo\<lparr>is_key := False, val_at := Some (pos lo + 1), key_len := pos lo - first lo\<rparr>))
      else if separator c then Some (Inl (fail_response 400 con))
      else if is_ws c then
        (if pos lo = first lo then Some (Inr (con, lo\<lparr>is_key := False, in_folding := True, val_at := Some (pos lo)\<rparr>))
         else do {
           j \<leftarrow> skip_to_colon con (pos lo);
           case j of
             Some i \<Rightarrow> Some (Inr (con, lo\<lparr>key_len := pos lo - first lo, pos := i\<rparr>))
           | None \<Rightarrow> Some (Inl (fail_response 400 con)) })
      else if c = CHR 0x0D then do {
        n \<leftarrow> peek con (pos lo + 1);
        if n = CHR 0x0A \<and> pos lo = first lo then
          Some (Inr (poke_nul (pos lo + 1) (poke_nul (pos lo) con), lo\<lparr>pos := pos lo + 1, finished := True\<rparr>))
        else Some (Inl (fail_response 400 con)) }
      else if control c then Some (Inl (fail_response 400 con))
      else Some (Inr (con, lo)))"

text \<open>A folded line is appended to the value of the previous key, blanks included.\<close>

definition append_folded :: "string \<Rightarrow> string \<Rightarrow> con \<Rightarrow> con option" where
  "append_folded key val con = do {
     (ndx, p) \<leftarrow> array_get_index (headers (req con)) (key_bytes (Some (cstr key)));
     case ndx of
       None \<Rightarrow> Some con
     | Some i \<Rightarrow> do {
         d \<leftarrow> slot (headers (req con)) i;
         du \<leftarrow> d;
         v \<leftarrow> (case dvalue du of Data_String v \<Rightarrow> Some (Data_String (Some (bval v @ val)))
                | Data_Response v \<Rightarrow> Some (Data_Response (Some (bval v @ val))) | _ \<Rightarrow> None);
         let hdrs = headers (req con);
         Some (con\<lparr>req := (req con)\<lparr>headers := hdrs\<lparr>adata := (adata hdrs)[i := Some (du\<lparr>dvalue := v\<rparr>)]\<rparr>\<rparr>\<rparr>) } }"

definition strip_blanks :: "string \<Rightarrow> string" where
  "strip_blanks v = rev (dropWhile is_ws (rev v))"

text \<open>The end of a field: \<open>CR LF\<close> have become NUL bytes.\<close>

definition end_of_field :: "conf \<Rightarrow> bool \<Rightarrow> con \<Rightarrow> locals \<Rightarrow> (con \<times> locals) parse" where
  "end_of_field cf reqline_host con lo =
     pbind
       (if in_folding lo then
          (case key_at lo of
             None \<Rightarrow> Some (Inl (fail_response 400 con))
           | Some k \<Rightarrow>
               if key_len lo = 0 then Some (Inl (fail_response 400 con))
               else do {
                 key \<leftarrow> bytes_at con k (key_len lo);
                 v \<leftarrow> val_at lo;
                 con \<leftarrow> append_folded key (text_at con v) con;
                 Some (Inr (con, lo)) })
        else do {
          v \<leftarrow> val_at lo;
          raw \<leftarrow> bytes_at con v (pos lo - v);
          let val = strip_blanks raw;
          let con = poke_nul (v + length val) con;
          let lo = lo\<lparr>key_at := Some (first lo)\<rparr>;
          if val = [] then Some (Inr (con, lo))
          else do {
            key \<leftarrow> bytes_at con (first lo) (key_len lo);
            r \<leftarrow> process_header cf reqline_host key val con (hflags lo);
            case r of
              Inl con \<Rightarrow> Some (Inl con)
            | Inr (con, fl) \<Rightarrow> Some (Inr (con, lo\<lparr>hflags := fl\<rparr>)) } })
       (\<lambda>(con, lo). Some (Inr (con, lo\<lparr>pos := pos lo + 1, first := pos lo + 2, is_key := True, val_at := None,
                                       in_folding := False\<rparr>)))"

definition value_char :: "conf \<Rightarrow> bool \<Rightarrow> con \<Rightarrow> locals \<Rightarrow> char \<Rightarrow> (con \<times> locals) parse" where
  "value_char cf reqline_host con lo c =
     (if c = CHR 0x0D then do {
        n \<leftarrow> peek con (pos lo + 1);
        if n = CHR 0x0A then end_of_field cf reqline_host (poke_nul (pos lo + 1) (poke_nul (pos lo) con)) lo
        else Some (Inl (fail_response 400 con)) }
      else
        (let lo = (if is_ws c \<and> val_at lo = Some (pos lo) then lo\<lparr>val_at := Some (pos lo + 1)\<rparr> else lo) in
         if schar c \<ge> 0 \<and> schar c < 32 \<and> c \<noteq> CHR 0x09 then Some (Inl (fail_status 400 con))
         else Some (Inr (con, lo))))"

text \<open>The loop, with a bound on its rounds: each of them advances the position.\<close>

fun header_loop :: "nat \<Rightarrow> conf \<Rightarrow> bool \<Rightarrow> con \<Rightarrow> locals \<Rightarrow> (con \<times> locals) parse" where
  "header_loop n cf reqline_host con lo =
     (if \<not> (pos lo < length (parse_text con) \<and> \<not> finished lo) then Some (Inr (con, lo))
      else case n of
        0 \<Rightarrow> None
      | Suc n \<Rightarrow>
          pbind (if is_key lo then key_char con lo (parse_text con ! pos lo)
                 else value_char cf reqline_host con lo (parse_text con ! pos lo))
            (\<lambda>(con, lo). header_loop n cf reqline_host con (lo\<lparr>pos := pos lo + 1\<rparr>)))"

declare header_loop.simps [simp del]

section \<open>The request line\<close>

definition is_space :: "char \<Rightarrow> bool" where
  "is_space c \<longleftrightarrow> c = CHR '' '' \<or> 9 \<le> byte c \<and> byte c \<le> 13"

text \<open>\<open>strtol\<close> in base 10: blanks, a sign, digits; the rest is the whole string when there is no digit.\<close>

definition LONG_MAX :: int where
  "LONG_MAX = 2 ^ 31 - 1"

definition strtol :: "string \<Rightarrow> int \<times> string" where
  "strtol s = (
     let t = dropWhile is_space s;
         neg = (t \<noteq> [] \<and> hd t = CHR ''-'');
         t = (if t \<noteq> [] \<and> (hd t = CHR ''-'' \<or> hd t = CHR ''+'') then tl t else t);
         ds = takeWhile (\<lambda>c. 48 \<le> byte c \<and> byte c \<le> 57) t;
         n = (if neg then - int (dec_value ds) else int (dec_value ds))
     in if ds = [] then (0, s)
        else (if n > LONG_MAX then LONG_MAX else if n < - LONG_MAX - 1 then - LONG_MAX - 1 else n,
              drop (length ds) t))"

text \<open>The version behind \<open>HTTP/\<close>: two numbers around the first dot.\<close>

definition parse_version :: "string \<Rightarrow> (int \<times> int) option" where
  "parse_version s = (
     let major = takeWhile (\<lambda>c. c \<noteq> CHR ''.'') s; rest = dropWhile (\<lambda>c. c \<noteq> CHR ''.'') s
     in if rest = [] \<or> major = [] \<or> tl rest = [] then None
        else (let (major_num, err1) = strtol major; (minor_num, err2) = strtol (tl rest)
              in if err1 \<noteq> [] \<or> err2 \<noteq> [] then None else Some (major_num, minor_num)))"

record request_line_scan =
  rl_pos :: nat
  rl_first :: nat
  rl_stage :: nat
  rl_method :: nat
  rl_uri :: nat
  rl_line :: nat
  rl_host :: "(nat \<times> nat) option"

text \<open>An absolute URI of one of the two schemes: the position of its path behind the host.\<close>

definition absolute_uri :: "string \<Rightarrow> string \<Rightarrow> nat option" where
  "absolute_uri scheme s =
     (if take (length scheme) s = scheme \<and> CHR ''/'' \<in> set (drop (length scheme) s)
      then Some (length scheme + length (takeWhile (\<lambda>c. c \<noteq> CHR ''/'') (drop (length scheme) s))) else None)"

text \<open>The URI from its position to the blank before the version, without scheme and host; the second
  component is where the host is.\<close>

definition copy_uri :: "con \<Rightarrow> nat \<Rightarrow> nat \<Rightarrow> ((nat \<times> nat) option \<times> con) option" where
  "copy_uri con u proto = (
     let s = text_at con u;
         abs = (case absolute_uri ''http://'' s of
                  Some n \<Rightarrow> Some (n, 7)
                | None \<Rightarrow> (case absolute_uri ''https://'' s of Some n \<Rightarrow> Some (n, 8) | None \<Rightarrow> None))
     in case abs of
          Some (n, k) \<Rightarrow> do {
            path \<leftarrow> bytes_at con (u + n) (proto - (u + n) - 1);
            Some (Some (u + k, n - k), con\<lparr>req := (req con)\<lparr>uri := Some path\<rparr>\<rparr>) }
        | None \<Rightarrow> do {
            path \<leftarrow> bytes_at con u (proto - u - 1);
            Some (None, con\<lparr>req := (req con)\<lparr>uri := Some path\<rparr>\<rparr>) })"

definition set_version :: "conf \<Rightarrow> string \<Rightarrow> con \<Rightarrow> con parse" where
  "set_version cf proto con =
     (if take 5 proto = ''HTTP/'' then
        (case parse_version (drop 5 proto) of
           None \<Rightarrow> Some (Inl (fail_status 400 con))
         | Some (major, minor) \<Rightarrow>
             if major = 1 \<and> minor = 1 then
               Some (Inr (con\<lparr>req := (req con)\<lparr>http_version :=
                 (if allow_http11 cf then HTTP_VERSION_1_1 else HTTP_VERSION_1_0)\<rparr>\<rparr>))
             else if major = 1 \<and> minor = 0 then
               Some (Inr (con\<lparr>req := (req con)\<lparr>http_version := HTTP_VERSION_1_0\<rparr>\<rparr>))
             else Some (Inl (con\<lparr>http_status := 505\<rparr>)))
      else Some (Inl (fail_status 400 con)))"

text \<open>The end of the request line at \<open>CR LF\<close>.\<close>

definition end_of_request_line :: "conf \<Rightarrow> con \<Rightarrow> request_line_scan \<Rightarrow> (con \<times> request_line_scan) parse" where
  "end_of_request_line cf con rl = do {
     let con = poke_nul (rl_pos rl + 1) (poke_nul (rl_pos rl) con);
     ln \<leftarrow> bytes_at con 0 (rl_pos rl);
     let con = con\<lparr>req := (req con)\<lparr>request_line := Some ln\<rparr>\<rparr>;
     if rl_stage rl \<noteq> 2 then Some (Inl (fail_response 400 con))
     else if rl_uri rl = 0 \<or> rl_first rl = 0 then None
     else do {
       let proto = rl_first rl;
       let con = poke_nul (proto - 1) (poke_nul (rl_uri rl - 1) con);
       let r = get_http_method_key (text_at con (rl_method rl));
       if r = HTTP_METHOD_UNSET then Some (Inl (fail_response 501 con))
       else pbind (set_version cf (text_at con proto) (con\<lparr>req := (req con)\<lparr>http_method := r\<rparr>\<rparr>)) (\<lambda>con. do {
         (host, con) \<leftarrow> copy_uri con (rl_uri rl) proto;
         if \<not> list_all request_uri_is_valid_char (bval (uri (req con))) then Some (Inl (fail_status 400 con))
         else Some (Inr (con\<lparr>req := (req con)\<lparr>orig_uri := uri (req con)\<rparr>, http_status := 0\<rparr>,
                         rl\<lparr>rl_pos := rl_pos rl + 1, rl_line := rl_line rl + 1, rl_first := rl_pos rl + 2,
                            rl_host := host\<rparr>)) }) } }"

definition request_line_char :: "conf \<Rightarrow> con \<Rightarrow> request_line_scan \<Rightarrow> char \<Rightarrow> (con \<times> request_line_scan) parse" where
  "request_line_char cf con rl c =
     (if c = CHR 0x0D then do {
        n \<leftarrow> peek con (rl_pos rl + 1);
        if n = CHR 0x0A then end_of_request_line cf con rl else Some (Inr (con, rl)) }
      else if c = CHR '' '' then
        (if rl_stage rl = 0 then
           Some (Inr (con, rl\<lparr>rl_method := rl_first rl, rl_first := rl_pos rl + 1, rl_stage := 1\<rparr>))
         else if rl_stage rl = 1 then
           Some (Inr (con, rl\<lparr>rl_uri := rl_first rl, rl_first := rl_pos rl + 1, rl_stage := 2\<rparr>))
         else Some (Inl (fail_response 400 con)))
      else Some (Inr (con, rl)))"

fun request_line_loop :: "nat \<Rightarrow> conf \<Rightarrow> con \<Rightarrow> request_line_scan \<Rightarrow> (con \<times> request_line_scan) parse" where
  "request_line_loop n cf con rl =
     (if \<not> (rl_pos rl < length (parse_text con) \<and> rl_line rl = 0) then Some (Inr (con, rl))
      else case n of
        0 \<Rightarrow> None
      | Suc n \<Rightarrow>
          pbind (request_line_char cf con rl (parse_text con ! rl_pos rl))
            (\<lambda>(con, rl). request_line_loop n cf con (rl\<lparr>rl_pos := rl_pos rl + 1\<rparr>)))"

declare request_line_loop.simps [simp del]

section \<open>The checks behind the loops\<close>

text \<open>\<open>buffer_is_empty(con->request.http_host)\<close>; a dangling pointer is followed.\<close>

definition host_missing :: "con \<Rightarrow> bool option" where
  "host_missing con =
     (if http_host (req con) = Null then Some True
      else do { v \<leftarrow> header_string con (http_host (req con)); Some (v = None) })"

definition decide_keep_alive :: "con \<Rightarrow> flags \<Rightarrow> con parse" where
  "decide_keep_alive con fl =
     (if http_version (req con) = HTTP_VERSION_1_1 then do {
        let con = con\<lparr>keep_alive := (if keep_alive_set fl \<noteq> HTTP_CONNECTION_CLOSE then 1 else 0)\<rparr>;
        missing \<leftarrow> host_missing con;
        if missing then Some (Inl (fail_response 400 con)) else Some (Inr con) }
      else Some (Inr (con\<lparr>keep_alive := (if keep_alive_set fl = HTTP_CONNECTION_KEEPALIVE then 1 else 0)\<rparr>)))"

text \<open>The host name is checked in place.\<close>

fun set_header_string :: "con \<Rightarrow> header_ptr \<Rightarrow> bstr \<Rightarrow> con option" where
  "set_header_string con (Elem i off) v = do {
     d \<leftarrow> slot (headers (req con)) i;
     du \<leftarrow> d;
     w \<leftarrow> (case dvalue du of Data_String x \<Rightarrow> Some (Data_String v) | Data_Response x \<Rightarrow> Some (Data_Response v) | _ \<Rightarrow> None);
     let hdrs = headers (req con);
     Some (con\<lparr>req := (req con)\<lparr>headers := hdrs\<lparr>adata := (adata hdrs)[i := Some (du\<lparr>dvalue := w\<rparr>)]\<rparr>\<rparr>\<rparr>) }"
| "set_header_string con p v = None"

definition check_host :: "con \<Rightarrow> con parse" where
  "check_host con =
     (if http_host (req con) = Null then Some (Inr con)
      else do {
        v \<leftarrow> header_string con (http_host (req con));
        let (r, v') = request_check_hostname v;
        con \<leftarrow> set_header_string con (http_host (req con)) v';
        if r \<noteq> 0 then Some (Inl (fail_response 400 con)) else Some (Inr con) })"

definition check_method :: "con \<Rightarrow> flags \<Rightarrow> con parse" where
  "check_method con fl =
     (case http_method (req con) of
        HTTP_METHOD_GET \<Rightarrow>
          if con_length_set fl \<and> content_length (req con) \<noteq> 0 then Some (Inl (fail_status 400 con)) else Some (Inr con)
      | HTTP_METHOD_HEAD \<Rightarrow>
          if con_length_set fl \<and> content_length (req con) \<noteq> 0 then Some (Inl (fail_status 400 con)) else Some (Inr con)
      | HTTP_METHOD_POST \<Rightarrow>
          if \<not> con_length_set fl then Some (Inl (fail_status 411 con)) else Some (Inr con)
      | _ \<Rightarrow> Some (Inr con))"

text \<open>Whether a body follows: the return value.\<close>

definition check_length :: "conf \<Rightarrow> con \<Rightarrow> flags \<Rightarrow> int \<times> con" where
  "check_length cf con fl =
     (if con_length_set fl then
        (if content_length (req con) > SSIZE_MAX then (0, fail_status 413 con)
         else if max_request_size cf \<noteq> 0 \<and> content_length (req con) div 1024 > max_request_size cf
         then (0, fail_status 413 con)
         else if content_length (req con) \<noteq> 0 then (1, con) else (0, con))
      else (0, con))"

definition finish_parse :: "conf \<Rightarrow> con \<Rightarrow> flags \<Rightarrow> (int \<times> con) option" where
  "finish_parse cf con fl =
     (case pbind (decide_keep_alive con fl) (\<lambda>con. pbind (check_host con) (\<lambda>con. check_method con fl)) of
        None \<Rightarrow> None
      | Some (Inl con) \<Rightarrow> Some (0, con)
      | Some (Inr con) \<Rightarrow> Some (check_length cf con fl))"

section \<open>The whole function\<close>

text \<open>After a POST request a keep-alive connection may still deliver the line end of its body.\<close>

definition fill_parse_request :: "con \<Rightarrow> con option" where
  "fill_parse_request con =
     (if request_count con > 1 \<and> raw_request con = None then None
      else if request_count con > 1 \<and> take 2 (bval (raw_request con)) = [CHR 0x0D, CHR 0x0A]
      then Some (con\<lparr>parse_text := drop 2 (bval (raw_request con)) @ [NUL]\<rparr>)
      else Some (con\<lparr>parse_text := (case raw_request con of None \<Rightarrow> [] | Some s \<Rightarrow> s @ [NUL])\<rparr>))"

definition line_start :: request_line_scan where
  "line_start = \<lparr>rl_pos = 0, rl_first = 0, rl_stage = 0, rl_method = 0, rl_uri = 0, rl_line = 0, rl_host = None\<rparr>"

definition flags_start :: flags where
  "flags_start = \<lparr>keep_alive_set = HTTP_CONNECTION_UNSET, con_length_set = False\<rparr>"

definition header_start :: "request_line_scan \<Rightarrow> locals" where
  "header_start rl =
     \<lparr>pos = rl_pos rl, first = rl_first rl, is_key = True, key_len = 0, in_folding = False, val_at = None,
      key_at = None, hflags = flags_start, finished = False\<rparr>"

text \<open>The host of an absolute URI becomes the \<open>Host\<close> field.\<close>

definition insert_reqline_host :: "con \<Rightarrow> (nat \<times> nat) option \<Rightarrow> con option" where
  "insert_reqline_host con host =
     (case host of
        None \<Rightarrow> Some con
      | Some (p, n) \<Rightarrow> do {
          h \<leftarrow> bytes_at con p n;
          (ds, con) \<leftarrow> new_header con ''Host'' h;
          (ptr, con) \<leftarrow> insert_header con ds;
          Some (con\<lparr>req := (req con)\<lparr>http_host := ptr\<rparr>\<rparr>) })"

definition parse_lines :: "conf \<Rightarrow> con \<Rightarrow> (con \<times> locals) parse" where
  "parse_lines cf con =
     pbind (request_line_loop (length (parse_text con)) cf con line_start) (\<lambda>(con, rl).
       if uri (req con) = Some [] then Some (Inl (fail_response 400 con))
       else do {
         con \<leftarrow> insert_reqline_host con (rl_host rl);
         header_loop (length (parse_text con)) cf (rl_host rl \<noteq> None) con (header_start rl) })"

definition http_request_parse :: "conf \<Rightarrow> con \<Rightarrow> (int \<times> con) option" where
  "http_request_parse cf con = do {
     con \<leftarrow> fill_parse_request con;
     r \<leftarrow> parse_lines cf con;
     case r of
       Inl con \<Rightarrow> Some (0, con)
     | Inr (con, lo) \<Rightarrow> finish_parse cf (con\<lparr>header_len := pos lo\<rparr>) (hflags lo) }"

end
