(* ===== verification/Array_Safe.thy ===== *)
theory Array_Safe imports Data_Array begin

text \<open>
  Memory safety of the arrays without any assumption on the keys: names sent by a client may contain
  characters on which the caseless comparison is no order, so the index need not be sorted. The search
  still stays inside the index and an insertion keeps the table well-formed. Elements are strings, as
  in the tables of headers.
\<close>

definition string_value :: "data_unset \<Rightarrow> bool" where
  "string_value d \<longleftrightarrow> (\<exists>v. dvalue d = Data_String v)"

definition filled_value :: "data_unset \<Rightarrow> bool" where
  "filled_value d \<longleftrightarrow> (\<exists>v. dvalue d = Data_String (Some v)) \<and> dkey d \<noteq> None"

definition array_safe :: "array \<Rightarrow> bool" where
  "array_safe a \<longleftrightarrow>
     used a \<le> asize a \<and> length (adata a) = asize a \<and> length (sorted a) = asize a \<and>
     (\<forall>i < used a. \<exists>d. adata a ! i = Some d \<and> filled_value d) \<and>
     (\<forall>i < used a. \<exists>j < used a. sorted a ! i = Some j) \<and>
     pow2 (next_power_of_2 a) \<and> used a \<le> next_power_of_2 a \<and>
     (\<forall>d. Some d \<in> set (adata a) \<longrightarrow> string_value d)"

text \<open>No element has a generated key.\<close>

definition no_index :: "array \<Rightarrow> bool" where
  "no_index a \<longleftrightarrow> (\<forall>d. Some d \<in> set (adata a) \<longrightarrow> \<not> is_index_key d)"

lemma no_index_update:
  "no_index a \<Longrightarrow> set ds \<subseteq> insert None (insert (Some d) (set (adata a))) \<Longrightarrow> \<not> is_index_key d \<Longrightarrow> no_index (a\<lparr>adata := ds\<rparr>)"
  by (auto simp: no_index_def)

lemma array_safe_init [wf_intros]: "array_safe array_init"
  by (auto simp: array_safe_def array_init_def pow2_def intro: exI [of _ 0])

lemma array_safe_slot:
  "array_safe a \<Longrightarrow> i < used a \<Longrightarrow> \<exists>d. slot a i = Some (Some d) \<and> filled_value d"
  by (force simp: array_safe_def slot_def)

lemma probe_safe: "array_safe a \<Longrightarrow> p < used a \<Longrightarrow> \<exists>c. probe a key p = Some c"
proof -
  assume a: "array_safe a" and p: "p < used a"
  then obtain j where "j < used a" "sorted a ! p = Some j" by (auto simp: array_safe_def)
  moreover have "p < length (sorted a)" using a p by (auto simp: array_safe_def)
  moreover from array_safe_slot [OF a \<open>j < used a\<close>] obtain d where "slot a j = Some (Some d)" by blast
  ultimately show ?thesis by (simp add: probe_def)
qed

text \<open>The loop moves at most by its step outside the range and comes back.\<close>

lemma index_loop_safe:
  assumes prb: "\<And>p. p < n \<Longrightarrow> \<exists>c. prb p = Some c"
  shows "i = 0 \<and> - 1 \<le> pos \<and> pos \<le> int n \<or> pow2 i \<and> - 2 * int i \<le> pos \<and> pos \<le> int n - 1 + 2 * int i \<Longrightarrow>
    \<exists>found pos'. index_loop prb n i pos = Some (found, pos') \<and> - 1 \<le> pos' \<and> pos' \<le> int n \<and>
      (found \<longrightarrow> 0 \<le> pos' \<and> pos' < int n \<and> prb (nat pos') = Some 0)"
proof (induction i arbitrary: pos rule: less_induct)
  case (less i)
  have ih: "\<exists>found pos'. index_loop prb n (i div 2) q = Some (found, pos') \<and> - 1 \<le> pos' \<and> pos' \<le> int n \<and>
      (found \<longrightarrow> 0 \<le> pos' \<and> pos' < int n \<and> prb (nat pos') = Some 0)"
    if "i \<noteq> 0" "- int i \<le> q" "q \<le> int n - 1 + int i" for q
  proof (cases "i = 1")
    case True
    with that show ?thesis by (intro less.IH) auto
  next
    case False
    with less.prems that(1) have "pow2 (i div 2)" "2 * (i div 2) = i" using pow2_half by auto
    then have "pow2 (i div 2)" "2 * int (i div 2) = int i" by (auto simp flip: of_nat_mult)
    with that show ?thesis by (intro less.IH) auto
  qed
  consider (neg) "pos < 0" | (big) "pos \<ge> int n" "pos \<ge> 0" | (mid) "0 \<le> pos" "pos < int n" by linarith
  then show ?case
  proof cases
    case neg
    then have "index_loop prb n i pos =
        (if i = 0 then Some (False, pos + int i) else index_loop prb n (i div 2) (pos + int i))"
      by (simp add: index_loop.simps [of prb n i pos])
    with neg less.prems ih [of "pos + int i"] show ?thesis by (cases "i = 0") auto
  next
    case big
    then have "index_loop prb n i pos =
        (if i = 0 then Some (False, pos - int i) else index_loop prb n (i div 2) (pos - int i))"
      by (simp add: index_loop.simps [of prb n i pos])
    with big less.prems ih [of "pos - int i"] show ?thesis by (cases "i = 0") auto
  next
    case mid
    then have "nat pos < n" by linarith
    with prb obtain c where c: "prb (nat pos) = Some c" by blast
    have eq: "index_loop prb n i pos = (if c = 0 then Some (True, pos)
        else if i = 0 then Some (False, if c < 0 then pos - int i else pos + int i)
        else index_loop prb n (i div 2) (if c < 0 then pos - int i else pos + int i))"
      using mid c by (simp add: index_loop.simps [of prb n i pos] Let_def)
    show ?thesis
    proof (cases "c = 0")
      case True
      with mid c eq show ?thesis by auto
    next
      case False
      with mid eq ih [of "pos - int i"] ih [of "pos + int i"] show ?thesis by (cases "i = 0"; cases "c < 0") auto
    qed
  qed
qed

lemma array_get_index_safe:
  assumes a: "array_safe a"
  shows "\<exists>r pos. array_get_index a key = Some (r, pos) \<and> - 1 \<le> pos \<and> pos \<le> int (used a) \<and>
    (\<forall>i. r = Some i \<longrightarrow> (\<exists>d. i < used a \<and> adata a ! i = Some d \<and> caseless_cmp key (key_bytes (dkey d)) = 0))"
proof -
  let ?np = "next_power_of_2 a"
  have np: "pow2 ?np" using a by (simp add: array_safe_def)
  have start: "?np div 2 = 0 \<and> - 1 \<le> int (?np div 2) \<and> int (?np div 2) \<le> int (used a) \<or>
      pow2 (?np div 2) \<and> - 2 * int (?np div 2) \<le> int (?np div 2) \<and> int (?np div 2) \<le> int (used a) - 1 + 2 * int (?np div 2)"
  proof (cases "?np = 1")
    case False
    with pow2_half [OF np] pow2_pos [OF np] have "pow2 (?np div 2)" "0 < ?np div 2" by auto
    then show ?thesis by linarith
  qed simp
  obtain found pos where loop: "index_loop (probe a key) (used a) (?np div 2) (int (?np div 2)) = Some (found, pos)"
    and pos: "- 1 \<le> pos" "pos \<le> int (used a)"
    and hit: "found \<longrightarrow> 0 \<le> pos \<and> pos < int (used a) \<and> probe a key (nat pos) = Some 0"
    using index_loop_safe [of "used a" "probe a key", OF _ start] probe_safe [OF a] by blast
  show ?thesis
  proof (cases found)
    case False
    with loop pos show ?thesis by (simp add: array_get_index_def)
  next
    case True
    with hit have p: "nat pos < used a" "probe a key (nat pos) = Some 0" by auto
    then obtain j where j: "j < used a" "sorted a ! nat pos = Some j" using a by (auto simp: array_safe_def)
    from array_safe_slot [OF a j(1)] obtain d where d: "slot a j = Some (Some d)" by blast
    with p j have "caseless_cmp key (key_bytes (dkey d)) = 0"
      by (auto simp: probe_def bind_Some_iff split: if_splits)
    moreover have "adata a ! j = Some d" using d by (simp add: slot_def split: if_splits)
    ultimately show ?thesis using loop pos j True by (auto simp: array_get_index_def)
  qed
qed

lemma array_grow_safe:
  assumes "array_safe a"
  shows "array_safe (array_grow a) \<and> used (array_grow a) = used a \<and> used a < asize (array_grow a) \<and>
    unique_ndx (array_grow a) = unique_ndx a \<and> take (used a) (adata (array_grow a)) = take (used a) (adata a)"
proof -
  have s: "Some d \<in> set (replicate n None) \<longleftrightarrow> False" for d :: data_unset and n by auto
  show ?thesis
    using assms by (auto simp: array_safe_def array_grow_def nth_append set_replicate_conv_if)
qed

lemma array_grow_data: "set (adata (array_grow a)) \<subseteq> insert None (set (adata a))"
  by (auto simp: array_grow_def)

lemma key_after_safe:
  assumes probe: "\<And>p. p < n \<Longrightarrow> \<exists>c. probe a key p = Some c" and pos: "- 1 \<le> pos" "pos \<le> int n"
  shows "\<exists>b. key_after a key pos n = Some b \<and> nat (if b then pos + 1 else pos) \<le> n"
proof -
  consider "pos = int n" | "pos = - 1" | "0 \<le> pos" "pos < int n" using pos by linarith
  then show ?thesis
  proof cases
    case 3
    then have "nat pos < n" by linarith
    with probe obtain c where "probe a key (nat pos) = Some c" by blast
    with 3 show ?thesis by (auto simp: key_after_def)
  qed (auto simp: key_after_def)
qed

lemma place_key_safe:
  assumes a: "array_safe a" and room: "used a < asize a" and pos: "- 1 \<le> pos" "pos \<le> int (used a)"
    and str: "filled_value str"
  shows "\<exists>a'. place_key a str pos = Some a' \<and> array_safe a' \<and> used a' = used a + 1 \<and> unique_ndx a' = unique_ndx a \<and>
    take (used a) (adata a') = take (used a) (adata a) \<and> adata a' ! used a = Some str \<and>
    adata a' = (adata a)[used a := Some str]"
proof -
  note S = a [unfolded array_safe_def]
  let ?n = "used a"
  let ?a = "a\<lparr>adata := (adata a)[?n := Some str], used := ?n + 1\<rparr>"
  have n: "?n < length (adata a)" "?n < length (sorted a)" using S room by auto
  have "\<exists>c. probe ?a key p = Some c" if p: "p < ?n" for key p
  proof -
    obtain j where j: "j < ?n" "sorted a ! p = Some j" using S p by blast
    then obtain d where "adata a ! j = Some d" using S by blast
    with j n p show ?thesis by (simp add: probe_def slot_def)
  qed
  from key_after_safe [of ?n ?a, OF this pos] obtain b where
    b: "key_after ?a (key_bytes (dkey str)) pos ?n = Some b" "nat (if b then pos + 1 else pos) \<le> ?n" by blast
  define g where "g = nat (if b then pos + 1 else pos)"
  let ?s = "take g (sorted a) @ Some ?n # take (?n - g) (drop g (sorted a)) @ drop (?n + 1) (sorted a)"
  let ?a' = "?a\<lparr>sorted := ?s, next_power_of_2 := (if next_power_of_2 a = ?n then 2 * next_power_of_2 a else next_power_of_2 a)\<rparr>"
  have g: "g \<le> ?n" using b(2) by (simp add: g_def)
  have place: "place_key a str pos = Some ?a'"
    using b(1) g n by (simp add: place_key_def Let_def g_def)
  have sorted: "\<exists>j < ?n + 1. ?s ! i = Some j" if i: "i < ?n + 1" for i
  proof -
    consider "i < g" | "i = g" | "g < i" by linarith
    then show ?thesis
    proof cases
      case 1
      with S g obtain j where "j < ?n" "sorted a ! i = Some j" by (meson less_le_trans)
      with 1 g n show ?thesis by (auto simp: nth_append min_def)
    next
      case 2
      with g n show ?thesis by (auto simp: nth_append min_def)
    next
      case 3
      with i have "i - 1 < ?n" by linarith
      with S obtain j where j: "j < ?n" "sorted a ! (i - 1) = Some j" by blast
      obtain k where k: "i = g + Suc k" using 3 less_iff_Suc_add by auto
      have "?s ! i = (take (?n - g) (drop g (sorted a)) @ drop (?n + 1) (sorted a)) ! k"
        using k g n by (simp add: nth_append min_def)
      also have "\<dots> = sorted a ! (g + k)"
      proof -
        have "k < ?n - g" "\<not> length (sorted a) - g \<le> ?n - g" using k i g n by auto
        then show ?thesis using g n by (simp add: nth_append min_def)
      qed
      finally show ?thesis using j k by auto
    qed
  qed
  have len: "length ?s = length (sorted a)" using g n by simp
  have data: "\<exists>d. (adata a)[?n := Some str] ! i = Some d \<and> filled_value d" if "i < ?n + 1" for i
    using S str n that by (cases "i = ?n") auto
  have vals: "string_value d" if "Some d \<in> set ((adata a)[?n := Some str])" for d
  proof (cases "d = str")
    case True
    with str show ?thesis by (auto simp: filled_value_def string_value_def)
  next
    case False
    with that set_update_subset_insert [of "adata a" ?n "Some str"] S show ?thesis by blast
  qed
  have pw: "pow2 (2 * m)" if "pow2 m" for m :: nat using that by (auto simp: pow2_def intro: exI [of _ "Suc _"])
  have "array_safe ?a'"
    unfolding array_safe_def using S n len sorted data vals room pow2_pos [of "next_power_of_2 a"] pw by auto
  with place n show ?thesis by simp
qed

lemma name_element_safe:
  assumes "unique_ndx a < 2 ^ 31 - 1"
  shows "\<exists>k b n. name_element a str = Some (str\<lparr>dkey := Some k, is_index_key := b\<rparr>, a\<lparr>unique_ndx := n\<rparr>) \<and>
    n \<le> unique_ndx a + 1 \<and> (dkey str \<noteq> None \<and> \<not> is_index_key str \<longrightarrow> dkey str = Some k \<and> \<not> b)"
proof (cases "dkey str = None \<or> is_index_key str")
  case True
  have "long_of_size (unique_ndx a) \<noteq> - (2 ^ (LONG_BITS - 1))"
  proof -
    have "long_of_size (unique_ndx a) = int (unique_ndx a)"
      using assms unfolding long_of_size_def
      by (simp add: sint_uint unsigned_of_nat take_bit_nat_eq_self signed_take_bit_int_eq_self)
    then show ?thesis by (simp add: LONG_BITS_def)
  qed
  from ltostr_show_int [OF this] True show ?thesis
    by (intro exI [of _ "show_int (long_of_size (unique_ndx a))"] exI [of _ True] exI [of _ "unique_ndx a + 1"])
      (auto simp: name_element_def)
next
  case False
  then obtain k where k: "dkey str = Some k" "\<not> is_index_key str" by auto
  have "str = str\<lparr>dkey := Some k, is_index_key := False\<rparr>" "a = a\<lparr>unique_ndx := unique_ndx a\<rparr>" using k by simp_all
  with False k show ?thesis
    by (intro exI [of _ k] exI [of _ False] exI [of _ "unique_ndx a"]) (simp add: name_element_def)
qed

lemma array_safe_rename: "array_safe a \<Longrightarrow> array_safe (a\<lparr>unique_ndx := n\<rparr>)"
  by (simp add: array_safe_def)

lemma array_safe_update:
  assumes a: "array_safe a" and d: "filled_value d" and i: "i < used a"
  shows "array_safe (a\<lparr>adata := (adata a)[i := Some d]\<rparr>)"
proof -
  note S = a [unfolded array_safe_def]
  have "string_value e" if "Some e \<in> set ((adata a)[i := Some d])" for e
  proof (cases "e = d")
    case True
    with d show ?thesis by (auto simp: filled_value_def string_value_def)
  next
    case False
    with that set_update_subset_insert [of "adata a" i "Some d"] S show ?thesis by blast
  qed
  moreover have "\<exists>e. (adata a)[i := Some d] ! j = Some e \<and> filled_value e" if "j < used a" for j
    using S d i that by (cases "j = i") auto
  ultimately show ?thesis using S by (simp add: array_safe_def)
qed

text \<open>What an insertion does to the table: a new last element, or a merge into an element whose key the
  comparison takes for the same.\<close>

definition inserted :: "array \<Rightarrow> bstr \<Rightarrow> array \<Rightarrow> bool" where
  "inserted a k a' \<longleftrightarrow>
     used a' = used a + 1 \<and> take (used a) (adata a') = take (used a) (adata a) \<and>
       (\<exists>d. adata a' ! used a = Some d \<and> dkey d = k)"

definition merged :: "array \<Rightarrow> bstr \<Rightarrow> array \<Rightarrow> bool" where
  "merged a k a' \<longleftrightarrow>
     used a' = used a \<and> (\<exists>i < used a. \<exists>old new. adata a ! i = Some old \<and>
       caseless_cmp (key_bytes k) (key_bytes (dkey old)) = 0 \<and> adata a' = (adata a)[i := Some new] \<and> dkey new = dkey old)"

lemma array_insert_safe:
  assumes a: "array_safe a" and v: "dvalue str = Data_String (Some v)"
    and room: "used a + 1 < 2 ^ 31" and ndx: "unique_ndx a < 2 ^ 31 - 1"
  shows "\<exists>k a'. array_insert_unique a str = Some (0, a') \<and> array_safe a' \<and> unique_ndx a' \<le> unique_ndx a + 1 \<and>
    (dkey str \<noteq> None \<and> \<not> is_index_key str \<longrightarrow> k = dkey str \<and> (no_index a \<longrightarrow> no_index a')) \<and>
    (inserted a k a' \<or> merged a k a')"
proof -
  obtain k b n where name: "name_element a str = Some (str\<lparr>dkey := Some k, is_index_key := b\<rparr>, a\<lparr>unique_ndx := n\<rparr>)"
    and n: "n \<le> unique_ndx a + 1" and k: "dkey str \<noteq> None \<and> \<not> is_index_key str \<longrightarrow> dkey str = Some k \<and> \<not> b"
    using name_element_safe [OF ndx] by blast
  let ?str = "str\<lparr>dkey := Some k, is_index_key := b\<rparr>" and ?a = "a\<lparr>unique_ndx := n\<rparr>"
  have a1: "array_safe ?a" using array_safe_rename [OF a] .
  have str: "filled_value ?str" using v by (simp add: filled_value_def)
  obtain r pos where get: "array_get_index ?a (key_bytes (dkey ?str)) = Some (r, pos)"
    and pos: "- 1 \<le> pos" "pos \<le> int (used ?a)"
    and hit: "\<And>i. r = Some i \<Longrightarrow> \<exists>d. i < used ?a \<and> adata ?a ! i = Some d \<and> caseless_cmp (key_bytes (dkey ?str)) (key_bytes (dkey d)) = 0"
    using array_get_index_safe [OF a1] by meson
  show ?thesis
  proof (cases r)
    case None
    obtain a' where a': "place_key (array_grow ?a) ?str pos = Some a'" "array_safe a'" "used a' = used a + 1"
        "unique_ndx a' = n" "take (used a) (adata a') = take (used a) (adata a)" "adata a' ! used a = Some ?str"
        "adata a' = (adata (array_grow ?a))[used a := Some ?str]"
      using place_key_safe [of "array_grow ?a" pos ?str] array_grow_safe [OF a1] pos str by auto
    have "array_insert_unique a str = Some (0, a')"
      using name get None room a'(1) by (simp add: array_insert_unique_def)
    moreover have "no_index a'" if "no_index a" "\<not> b"
    proof -
      have "set (adata a') \<subseteq> insert None (insert (Some ?str) (set (adata a)))"
        using a'(7) set_update_subset_insert [of "adata (array_grow ?a)" "used a" "Some ?str"] array_grow_data [of ?a]
        by auto
      then show ?thesis using that by (auto simp: no_index_def)
    qed
    ultimately show ?thesis using a' n k
      by (intro exI [of _ "Some k"] exI [of _ a']) (auto simp: inserted_def)
  next
    case (Some i)
    with hit obtain d where d: "i < used a" "adata a ! i = Some d" "caseless_cmp (key_bytes (Some k)) (key_bytes (dkey d)) = 0"
      by auto
    then have slot: "slot ?a i = Some (Some d)" and fd: "filled_value d"
      using a by (auto simp: array_safe_def slot_def)
    obtain w where w: "dvalue d = Data_String (Some w)" using fd by (auto simp: filled_value_def)
    obtain new where new: "insert_dup d ?str = Some new" "dkey new = dkey d" "filled_value new"
      using w v fd by (auto simp: filled_value_def bappend_def bcat_def)
    have "array_insert_unique a str = Some (0, ?a\<lparr>adata := (adata a)[i := Some new]\<rparr>)"
      using name get Some slot w v new(1) by (simp add: array_insert_unique_def)
    moreover have "array_safe (?a\<lparr>adata := (adata a)[i := Some new]\<rparr>)"
      using array_safe_update [OF a1 new(3)] d(1) by simp
    moreover have "no_index (?a\<lparr>adata := (adata a)[i := Some new]\<rparr>)" if "no_index a"
    proof -
      have "Some d \<in> set (adata a)" using d(1,2) a by (metis array_safe_def less_le_trans nth_mem)
      then have "\<not> is_index_key new" using that new(1) w v by (auto simp: no_index_def)
      then show ?thesis
        using that set_update_subset_insert [of "adata a" i "Some new"] by (auto simp: no_index_def)
    qed
    ultimately show ?thesis using n k d new(2)
      by (intro exI [of _ "Some k"] exI [of _ "?a\<lparr>adata := (adata a)[i := Some new]\<rparr>"]) (auto simp: merged_def)
  qed
qed

text \<open>A reused element has a string value, and taking it out of the spare ones leaves the table as it is.\<close>

lemma unused_slot_range: "unused_slot ds t i n = Some j \<Longrightarrow> i \<le> j \<and> j < i + n"
  by (induction ds t i n rule: unused_slot.induct) (auto split: option.splits if_splits)

lemma array_get_unused_safe:
  assumes a: "array_safe a"
  obtains e a' where "array_get_unused_element a TYPE_STRING = (e, a')" "array_safe a'" "used a' = used a"
    "unique_ndx a' = unique_ndx a" "take (used a) (adata a') = take (used a) (adata a)"
    "\<And>d. e = Some d \<Longrightarrow> string_value d \<and> Some d \<in> set (adata a)"
    "set (adata a') \<subseteq> insert None (set (adata a))"
proof (cases "unused_slot (adata a) TYPE_STRING (used a) (asize a - used a)")
  case None
  then have "array_get_unused_element a TYPE_STRING = (None, a)" by (simp add: array_get_unused_element_def)
  with a that show ?thesis by blast
next
  case (Some i)
  note S = a [unfolded array_safe_def]
  let ?d = "((adata a)[i := adata a ! used a])[used a := None]"
  from unused_slot_range [OF Some] S have i: "used a \<le> i" "i < length (adata a)" by auto
  have eq: "array_get_unused_element a TYPE_STRING = (adata a ! i, a\<lparr>adata := ?d\<rparr>)"
    using Some by (simp add: array_get_unused_element_def)
  have sub: "set ?d \<subseteq> insert None (set (adata a))"
  proof -
    have "set ?d \<subseteq> insert None (insert (adata a ! used a) (set (adata a)))"
      using set_update_subset_insert [of "(adata a)[i := adata a ! used a]" "used a" None]
        set_update_subset_insert [of "adata a" i "adata a ! used a"] by blast
    moreover have "adata a ! used a \<in> set (adata a)" using i by simp
    ultimately show ?thesis by auto
  qed
  then have "string_value d" if "Some d \<in> set ?d" for d using S that by blast
  then have "array_safe (a\<lparr>adata := ?d\<rparr>)" using S i by (simp add: array_safe_def)
  moreover have "string_value d \<and> Some d \<in> set (adata a)" if "adata a ! i = Some d" for d
    using S i that nth_mem [of i "adata a"] by metis
  moreover have "take (used a) ?d = take (used a) (adata a)" using i by simp
  ultimately show ?thesis using that [OF eq] sub by simp
qed

lemma array_reset_safe:
  assumes a: "array_safe a"
  shows "\<exists>a'. array_reset a = Some a' \<and> array_safe a' \<and> used a' = 0 \<and> unique_ndx a' = unique_ndx a"
proof (cases "is_weakref a")
  case True
  with a show ?thesis by (auto simp: array_reset_def array_safe_def)
next
  case False
  note S = a [unfolded array_safe_def]
  let ?d = "map (map_option data_reset) (take (used a) (adata a)) @ drop (used a) (adata a)"
  have "list_all (\<lambda>d. d \<noteq> None) (take (used a) (adata a))"
    using S by (auto simp: list_all_length)
  moreover have "string_value d" if "Some d \<in> set ?d" for d
  proof -
    from that consider x where "x \<in> set (take (used a) (adata a))" "Some d = map_option data_reset x"
      | "Some d \<in> set (drop (used a) (adata a))"
      by auto
    then show ?thesis
    proof cases
      case (1 x)
      obtain e where e: "x = Some e" "d = data_reset e" using 1(2) by (cases x) auto
      with 1 have "Some e \<in> set (adata a)" using in_set_takeD by fastforce
      with S e show ?thesis by (auto simp: string_value_def data_reset_def)
    next
      case 2
      then show ?thesis using S in_set_dropD by fastforce
    qed
  qed
  then have "array_safe (a\<lparr>adata := ?d, used := 0\<rparr>)" using S by (auto simp: array_safe_def)
  ultimately show ?thesis using False S by (simp add: array_reset_def)
qed

end
