(* ===== verification/Request_Safe.thy ===== *)
theory Request_Safe imports Request Array_Safe begin

text \<open>
  \<open>http_request_parse\<close> stays inside its blocks, ends, and leaves a consistent request, whatever bytes the
  client sends; the one exception is a field value that starts with a comma. The proofs carry an
  invariant of the connection through the steps: well-formed tables, live pointers, and a budget for
  the number of elements.
\<close>

section \<open>Equal keys\<close>

lemma cc_zero_arith:
  fixes a b :: int
  assumes "0 \<le> a" "a < 256" "0 \<le> b" "b < 256"
  defines "up \<equiv> \<lambda>x. 65 \<le> x \<and> x \<le> 90" and "low \<equiv> \<lambda>x. 97 \<le> x \<and> x \<le> 122"
    and "sg \<equiv> \<lambda>x. if x < 128 then x else x - 256"
  defines "cc \<equiv> (if a = b then 0 else if up a \<and> low b then a + 32 - sg b
      else if low a \<and> up b then sg a - (b + 32) else sg a - sg b)"
    and "fo \<equiv> \<lambda>x. if up x then x + 32 else sg x"
  shows "(cc = 0) = (fo a = fo b)"
proof -
  have regions: "x < 65 \<and> \<not> up x \<and> \<not> low x \<and> sg x = x \<or> 65 \<le> x \<and> x \<le> 90 \<and> up x \<and> \<not> low x \<and> sg x = x \<or>
      91 \<le> x \<and> x \<le> 96 \<and> \<not> up x \<and> \<not> low x \<and> sg x = x \<or>
      97 \<le> x \<and> x \<le> 122 \<and> \<not> up x \<and> low x \<and> sg x = x \<or> 123 \<le> x \<and> x < 128 \<and> \<not> up x \<and> \<not> low x \<and> sg x = x \<or>
      128 \<le> x \<and> \<not> up x \<and> \<not> low x \<and> sg x = x - 256" for x
    unfolding up_def low_def sg_def by presburger
  show ?thesis
    unfolding cc_def fo_def using assms(1-4) regions [of a] regions [of b]
    by (elim disjE conjE; simp)
qed

lemma cc_byte_zero: "cc_byte a b = 0 \<longleftrightarrow> fold_char a = fold_char b"
proof -
  let ?A = "int (byte a)" and ?B = "int (byte b)"
  have bounds: "0 \<le> ?A" "?A < 256" "0 \<le> ?B" "?B < 256"
    using byte_less [of a] byte_less [of b] by linarith+
  have sg: "schar c = (if int (byte c) < 128 then int (byte c) else int (byte c) - 256)" for c
    by (simp add: schar_def)
  have up: "is_upper c \<longleftrightarrow> 65 \<le> int (byte c) \<and> int (byte c) \<le> 90"
    and low: "is_lower c \<longleftrightarrow> 97 \<le> int (byte c) \<and> int (byte c) \<le> 122" for c
    by (auto simp: is_upper_iff is_lower_iff)
  have eq: "a = b \<longleftrightarrow> ?A = ?B" by simp
  have cc: "cc_byte a b = (if ?A = ?B then 0 else if is_upper a \<and> is_lower b then ?A + 32 - schar b
      else if is_lower a \<and> is_upper b then schar a - (?B + 32) else schar a - schar b)"
    unfolding cc_byte_def eq by (simp add: schar_or_32)
  have fo: "fold_char c = (if is_upper c then int (byte c) + 32 else schar c)" for c
    by (simp add: fold_char_eq schar_def)
  show ?thesis unfolding cc fo up low sg by (rule cc_zero_arith [OF bounds])
qed

text \<open>Two keys compare as equal exactly when they fold to the same letters, on all bytes.\<close>

lemma caseless_cmp_zero: "caseless_cmp a b = 0 \<longleftrightarrow> fold_key a = fold_key b"
proof (induction a arbitrary: b)
  case Nil
  then show ?case by (cases b) (auto simp: caseless_cmp_def fold_key_def)
next
  case (Cons x a)
  show ?case
  proof (cases b)
    case Nil
    then show ?thesis by (simp add: caseless_cmp_def fold_key_def)
  next
    case (Cons y bs)
    then show ?thesis
      using Cons.IH [of bs] cc_byte_zero [of x y] by (auto simp: caseless_cmp_Cons fold_key_def)
  qed
qed

lemma fold_key_snoc: "fold_key (a @ [NUL]) = fold_key (b @ [NUL]) \<longleftrightarrow> fold_key a = fold_key b"
  by (simp add: fold_key_def)

lemma caseless_cmp_first: "cc_byte c d \<noteq> 0 \<Longrightarrow> caseless_cmp (c # a) (d # b) = cc_byte c d"
  by (simp add: caseless_cmp_Cons)

lemma fold_char_letter:
  assumes "is_upper u" and "fold_char c = fold_char u"
  shows "c = u \<or> byte c = byte u + 32"
proof -
  have u: "65 \<le> byte u" "byte u \<le> 90" using assms(1) by (simp_all add: is_upper_iff)
  show ?thesis
  proof (cases "is_upper c")
    case True
    with assms have "int (byte c) = int (byte u)" by (simp add: fold_char_eq)
    then have "byte c = byte u" by (simp only: of_nat_eq_iff)
    then show ?thesis by simp
  next
    case False
    with assms have "int (byte c) = int (byte u) + 32 \<or> int (byte c) = int (byte u) + 288"
      by (auto simp: fold_char_eq split: if_splits)
    then show ?thesis using byte_less [of c] by linarith
  qed
qed

text \<open>A key that folds to one of the tracked names is recognised.\<close>

lemma find_special_host:
  assumes "fold_key k = fold_key ''Host''"
  shows "find_special k special_headers = Some H_Host"
proof -
  obtain c r where k: "k = c # r" "fold_char c = fold_char CHR ''H''"
    using assms by (cases k) (auto simp: fold_key_def)
  have "c = CHR ''H'' \<or> byte c = byte (CHR ''h'')" using fold_char_letter [OF _ k(2)] by (simp add: is_upper_iff)
  then have "c = CHR ''H'' \<or> c = CHR ''h''" by (simp only: of_char_eq_iff)
  then have pos: "cc_byte c CHR ''C'' > 0" "cc_byte c CHR ''E'' > 0"
    by (auto simp: cc_byte_def is_upper_iff is_lower_iff schar_def)
  have "caseless_cmp k ''Host'' = 0" using assms by (simp add: caseless_cmp_zero)
  moreover have "caseless_cmp k (CHR ''C'' # m) > 0" "caseless_cmp k (CHR ''E'' # m) > 0" for m
    using pos by (simp_all add: k(1) caseless_cmp_first)
  ultimately show ?thesis by (simp add: special_headers_def Let_def order_less_imp_not_eq2)
qed

lemma find_special_ims:
  assumes "fold_key k = fold_key ''If-Modified-Since''"
  shows "find_special k special_headers = Some H_If_Modified_Since"
proof -
  obtain c r where k: "k = c # r" "fold_char c = fold_char CHR ''I''"
    using assms by (cases k) (auto simp: fold_key_def)
  have "c = CHR ''I'' \<or> byte c = byte (CHR ''i'')" using fold_char_letter [OF _ k(2)] by (simp add: is_upper_iff)
  then have "c = CHR ''I'' \<or> c = CHR ''i''" by (simp only: of_char_eq_iff)
  then have pos: "cc_byte c CHR ''C'' > 0" "cc_byte c CHR ''E'' > 0" "cc_byte c CHR ''H'' > 0"
    by (auto simp: cc_byte_def is_upper_iff is_lower_iff schar_def)
  have "caseless_cmp k ''If-Modified-Since'' = 0" using assms by (simp add: caseless_cmp_zero)
  moreover have "caseless_cmp k (CHR ''C'' # m) > 0" "caseless_cmp k (CHR ''E'' # m) > 0" "caseless_cmp k (CHR ''H'' # m) > 0" for m
    using pos by (simp_all add: k(1) caseless_cmp_first)
  ultimately show ?thesis by (simp add: special_headers_def Let_def order_less_imp_not_eq2)
qed

lemma find_special_name:
  "find_special k special_headers = Some H_Host \<Longrightarrow> fold_key k = fold_key ''Host''"
  "find_special k special_headers = Some H_If_Modified_Since \<Longrightarrow> fold_key k = fold_key ''If-Modified-Since''"
  by (auto simp: special_headers_def Let_def caseless_cmp_zero split: if_splits)

section \<open>The invariant\<close>

definition keys_of :: "array \<Rightarrow> int list list" where
  "keys_of a = map (\<lambda>e. case e of None \<Rightarrow> [] | Some d \<Rightarrow> fold_key (key_bytes (dkey d))) (take (used a) (adata a))"

definition name_key :: "string \<Rightarrow> int list" where
  "name_key s = fold_key (key_bytes (Some s))"

text \<open>\<open>n\<close> bounds the number of elements inserted so far.\<close>

definition con_base :: "nat \<Rightarrow> con \<Rightarrow> bool" where
  "con_base n con \<longleftrightarrow>
     array_safe (headers (req con)) \<and> no_index (headers (req con)) \<and>
     used (headers (req con)) \<le> n \<and> unique_ndx (headers (req con)) \<le> n \<and>
     array_safe (split_vals con) \<and> unique_ndx (split_vals con) \<le> n"

text \<open>A pointer the parser follows is live, and while it is \<open>NULL\<close> no field of its name is in the table.\<close>

definition ptr_ok :: "array \<Rightarrow> string \<Rightarrow> header_ptr \<Rightarrow> bool" where
  "ptr_ok h name p \<longleftrightarrow>
     (case p of
        Null \<Rightarrow> name_key name \<notin> set (keys_of h)
      | Elem i off \<Rightarrow> i < used h \<and> off = 0
      | Dangling \<Rightarrow> False)"

definition con_ptrs :: "con \<Rightarrow> bool" where
  "con_ptrs con \<longleftrightarrow>
     ptr_ok (headers (req con)) ''Host'' (http_host (req con)) \<and>
     ptr_ok (headers (req con)) ''If-Modified-Since'' (http_if_modified_since (req con))"

definition con_safe :: "nat \<Rightarrow> con \<Rightarrow> bool" where
  "con_safe n con \<longleftrightarrow> con_base n con \<and> con_ptrs con"

text \<open>What the steps on fields leave alone.\<close>

definition same_line :: "con \<Rightarrow> con \<Rightarrow> bool" where
  "same_line con con' \<longleftrightarrow>
     parse_text con' = parse_text con \<and> http_status con' = http_status con \<and>
     http_method (req con') = http_method (req con) \<and> http_version (req con') = http_version (req con) \<and>
     uri (req con') = uri (req con)"

lemma same_line_refl [simp]: "same_line con con"
  by (simp add: same_line_def)

lemma same_line_trans: "same_line a b \<Longrightarrow> same_line b c \<Longrightarrow> same_line a c"
  by (simp add: same_line_def)

lemma con_base_mono: "con_base n con \<Longrightarrow> n \<le> m \<Longrightarrow> con_base m con"
  by (auto simp: con_base_def)

lemma con_safe_mono: "con_safe n con \<Longrightarrow> n \<le> m \<Longrightarrow> con_safe m con"
  using con_base_mono by (auto simp: con_safe_def)

lemma keys_of_inserted:
  assumes "array_safe a" and "array_safe a'" and "inserted a k a'"
  shows "keys_of a' = keys_of a @ [fold_key (key_bytes k)]"
proof -
  obtain d where d: "used a' = used a + 1" "take (used a) (adata a') = take (used a) (adata a)"
      "adata a' ! used a = Some d" "dkey d = k"
    using assms(3) by (auto simp: inserted_def)
  have "used a < length (adata a')" using d(1) assms(2) by (auto simp: array_safe_def)
  then have "take (used a') (adata a') = take (used a) (adata a) @ [Some d]"
    using d by (simp add: take_Suc_conv_app_nth)
  then show ?thesis using d(4) by (simp add: keys_of_def)
qed

lemma keys_of_merged:
  assumes "array_safe a" and "merged a k a'"
  shows "keys_of a' = keys_of a \<and> fold_key (key_bytes k) \<in> set (keys_of a)"
proof -
  obtain i old new where m: "used a' = used a" "i < used a" "adata a ! i = Some old"
      "fold_key (key_bytes k) = fold_key (key_bytes (dkey old))" "adata a' = (adata a)[i := Some new]" "dkey new = dkey old"
    using assms(2) by (auto simp: merged_def caseless_cmp_zero)
  have len: "i < length (take (used a) (adata a))" using m(2) assms(1) by (auto simp: array_safe_def)
  let ?f = "\<lambda>e. case e of None \<Rightarrow> [] | Some d \<Rightarrow> fold_key (key_bytes (dkey d))"
  have at: "keys_of a ! i = fold_key (key_bytes k)" "i < length (keys_of a)"
    using len m by (simp_all add: keys_of_def)
  have "keys_of a' = (keys_of a)[i := ?f (Some new)]"
    by (simp add: keys_of_def m(1,5) take_update_swap map_update del: option.case)
  also have "?f (Some new) = keys_of a ! i" using at m by simp
  finally show ?thesis using at by (metis list_update_id nth_mem)
qed

definition plain_header :: "data_unset \<Rightarrow> string \<Rightarrow> string \<Rightarrow> bool" where
  "plain_header ds key val \<longleftrightarrow> dkey ds = Some key \<and> \<not> is_index_key ds \<and> dvalue ds = Data_String (Some val)"

lemma new_header_safe:
  assumes "con_safe n con"
  shows "\<exists>ds con'. new_header con key val = Some (ds, con') \<and> con_safe n con' \<and> same_line con con' \<and>
    http_host (req con') = http_host (req con) \<and> plain_header ds key val"
proof -
  let ?h = "headers (req con)"
  have safe: "array_safe ?h" and idx: "no_index ?h" using assms by (auto simp: con_safe_def con_base_def)
  obtain e h where get: "array_get_unused_element ?h TYPE_STRING = (e, h)" and h: "array_safe h" "used h = used ?h"
      "unique_ndx h = unique_ndx ?h" "take (used ?h) (adata h) = take (used ?h) (adata ?h)"
    and e: "\<And>d. e = Some d \<Longrightarrow> string_value d \<and> Some d \<in> set (adata ?h)"
    and sub: "set (adata h) \<subseteq> insert None (set (adata ?h))"
    by (rule array_get_unused_safe [OF safe]) (rule that)
  define ds where "ds = (case e of Some d \<Rightarrow> d | None \<Rightarrow> data_string_init)"
  obtain v where v: "dvalue ds = Data_String v" "\<not> is_index_key ds"
  proof (cases e)
    case None
    with that show ?thesis by (simp add: ds_def data_string_init_def)
  next
    case (Some d)
    with e [of d] idx that show ?thesis by (auto simp: ds_def string_value_def no_index_def)
  qed
  have keys: "keys_of h = keys_of ?h" using h by (simp add: keys_of_def)
  have "no_index h" using sub idx by (auto simp: no_index_def)
  then have "con_safe n (con\<lparr>req := (req con)\<lparr>headers := h\<rparr>\<rparr>)"
    using assms h keys by (simp add: con_safe_def con_base_def con_ptrs_def ptr_ok_def cong: header_ptr.case_cong)
  moreover have "new_header con key val = Some (ds\<lparr>dkey := Some key, dvalue := Data_String (Some val)\<rparr>,
      con\<lparr>req := (req con)\<lparr>headers := h\<rparr>\<rparr>)"
    using get v by (simp add: new_header_def ds_def [symmetric])
  ultimately show ?thesis using v by (simp add: same_line_def plain_header_def)
qed

text \<open>Insertion: the new element is live, or its key was in the table already.\<close>

lemma insert_header_base:
  assumes base: "con_base n con" and n: "n + 1 < 2 ^ 31 - 1" and ds: "plain_header ds key val"
  shows "\<exists>p h. insert_header con ds = Some (p, con\<lparr>req := (req con)\<lparr>headers := h\<rparr>\<rparr>) \<and>
    con_base (n + 1) (con\<lparr>req := (req con)\<lparr>headers := h\<rparr>\<rparr>) \<and> used (headers (req con)) \<le> used h \<and>
    (p = Elem (used (headers (req con))) 0 \<and> used h = used (headers (req con)) + 1 \<and>
       keys_of h = keys_of (headers (req con)) @ [name_key key] \<or>
     p = Dangling \<and> keys_of h = keys_of (headers (req con)) \<and> name_key key \<in> set (keys_of (headers (req con))))"
proof -
  let ?h = "headers (req con)"
  have safe: "array_safe ?h" and idx: "no_index ?h" using base by (auto simp: con_base_def)
  have room: "used ?h + 1 < 2 ^ 31" "unique_ndx ?h < 2 ^ 31 - 1" using base n by (auto simp: con_base_def)
  obtain h where h: "array_insert_unique ?h ds = Some (0, h)" "array_safe h" "unique_ndx h \<le> unique_ndx ?h + 1"
      "no_index h" "inserted ?h (Some key) h \<or> merged ?h (Some key) h"
    using array_insert_safe [OF safe _ room, of ds val] ds idx unfolding plain_header_def by auto
  have new: "con_base (n + 1) (con\<lparr>req := (req con)\<lparr>headers := h\<rparr>\<rparr>)"
    using base h by (auto simp: con_base_def inserted_def merged_def)
  show ?thesis
  proof (cases "inserted ?h (Some key) h")
    case True
    then have "used h = used ?h + 1" by (simp add: inserted_def)
    with True new h keys_of_inserted [OF safe h(2) True] show ?thesis
      by (intro exI [of _ "Elem (used ?h) 0"] exI [of _ h]) (simp add: insert_header_def name_key_def)
  next
    case False
    with h(5) have m: "merged ?h (Some key) h" by blast
    then have "used h = used ?h" by (simp add: merged_def)
    with new h keys_of_merged [OF safe m] show ?thesis
      by (intro exI [of _ Dangling] exI [of _ h]) (simp add: insert_header_def name_key_def)
  qed
qed

lemma name_key_eq: "name_key a = name_key b \<longleftrightarrow> fold_key a = fold_key b"
  by (simp add: name_key_def key_bytes_def fold_key_snoc)

text \<open>A key may be inserted when it is not a tracked name whose pointer is still \<open>NULL\<close>.\<close>

definition may_insert :: "con \<Rightarrow> string \<Rightarrow> bool" where
  "may_insert con key \<longleftrightarrow>
     (http_host (req con) = Null \<longrightarrow> fold_key key \<noteq> fold_key ''Host'') \<and>
     (http_if_modified_since (req con) = Null \<longrightarrow> fold_key key \<noteq> fold_key ''If-Modified-Since'')"

lemma ptr_ok_grow:
  assumes "ptr_ok (headers (req con)) name p" and "used (headers (req con)) \<le> used h"
    and "p = Null \<Longrightarrow> name_key name \<notin> set (keys_of h)"
  shows "ptr_ok h name p"
  using assms by (auto simp: ptr_ok_def split: header_ptr.splits)

lemma insert_header_safe:
  assumes safe: "con_safe n con" and n: "n + 1 < 2 ^ 31 - 1" and ds: "plain_header ds key val" and may: "may_insert con key"
  shows "\<exists>p h. insert_header con ds = Some (p, con\<lparr>req := (req con)\<lparr>headers := h\<rparr>\<rparr>) \<and>
    con_safe (n + 1) (con\<lparr>req := (req con)\<lparr>headers := h\<rparr>\<rparr>)"
proof -
  have base: "con_base n con" using safe by (simp add: con_safe_def)
  obtain p h where ins: "insert_header con ds = Some (p, con\<lparr>req := (req con)\<lparr>headers := h\<rparr>\<rparr>)"
    and b: "con_base (n + 1) (con\<lparr>req := (req con)\<lparr>headers := h\<rparr>\<rparr>)" and u: "used (headers (req con)) \<le> used h"
    and alt: "p = Elem (used (headers (req con))) 0 \<and> used h = used (headers (req con)) + 1 \<and>
         keys_of h = keys_of (headers (req con)) @ [name_key key] \<or>
       p = Dangling \<and> keys_of h = keys_of (headers (req con)) \<and> name_key key \<in> set (keys_of (headers (req con)))"
    using insert_header_base [OF base n ds] by blast
  have keys: "set (keys_of h) \<subseteq> insert (name_key key) (set (keys_of (headers (req con))))"
    using alt by (elim disjE conjE) auto
  have "ptr_ok h ''Host'' (http_host (req con))"
  proof (rule ptr_ok_grow [OF _ u])
    show ok: "ptr_ok (headers (req con)) ''Host'' (http_host (req con))"
      using safe by (simp add: con_safe_def con_ptrs_def)
    show "name_key ''Host'' \<notin> set (keys_of h)" if "http_host (req con) = Null"
    proof -
      have "name_key ''Host'' \<noteq> name_key key" using may that by (auto simp: may_insert_def name_key_eq)
      moreover have "name_key ''Host'' \<notin> set (keys_of (headers (req con)))" using ok that by (simp add: ptr_ok_def)
      ultimately show ?thesis using keys by blast
    qed
  qed
  moreover have "ptr_ok h ''If-Modified-Since'' (http_if_modified_since (req con))"
  proof (rule ptr_ok_grow [OF _ u])
    show ok: "ptr_ok (headers (req con)) ''If-Modified-Since'' (http_if_modified_since (req con))"
      using safe by (simp add: con_safe_def con_ptrs_def)
    show "name_key ''If-Modified-Since'' \<notin> set (keys_of h)" if "http_if_modified_since (req con) = Null"
    proof -
      have "name_key ''If-Modified-Since'' \<noteq> name_key key" using may that by (auto simp: may_insert_def name_key_eq)
      moreover have "name_key ''If-Modified-Since'' \<notin> set (keys_of (headers (req con)))" using ok that by (simp add: ptr_ok_def)
      ultimately show ?thesis using keys by blast
    qed
  qed
  ultimately have "con_safe (n + 1) (con\<lparr>req := (req con)\<lparr>headers := h\<rparr>\<rparr>)"
    using b by (simp add: con_safe_def con_ptrs_def)
  with ins show ?thesis by blast
qed

text \<open>The first field of a tracked name: the pointer to it is live.\<close>

lemma insert_header_tracked:
  assumes safe: "con_safe n con" and n: "n + 1 < 2 ^ 31 - 1" and ds: "plain_header ds key val"
    and new: "name_key key \<notin> set (keys_of (headers (req con)))"
  shows "\<exists>h. insert_header con ds = Some (Elem (used (headers (req con))) 0, con\<lparr>req := (req con)\<lparr>headers := h\<rparr>\<rparr>) \<and>
    con_base (n + 1) (con\<lparr>req := (req con)\<lparr>headers := h\<rparr>\<rparr>) \<and> used h = used (headers (req con)) + 1 \<and>
    set (keys_of h) = insert (name_key key) (set (keys_of (headers (req con))))"
proof -
  have base: "con_base n con" using safe by (simp add: con_safe_def)
  obtain p h where ins: "insert_header con ds = Some (p, con\<lparr>req := (req con)\<lparr>headers := h\<rparr>\<rparr>)"
    and b: "con_base (n + 1) (con\<lparr>req := (req con)\<lparr>headers := h\<rparr>\<rparr>)"
    and alt: "p = Elem (used (headers (req con))) 0 \<and> used h = used (headers (req con)) + 1 \<and>
         keys_of h = keys_of (headers (req con)) @ [name_key key] \<or>
       p = Dangling \<and> keys_of h = keys_of (headers (req con)) \<and> name_key key \<in> set (keys_of (headers (req con)))"
    using insert_header_base [OF base n ds] by blast
  then show ?thesis using new by (intro exI [of _ h]) (elim disjE conjE; simp)
qed

lemma names_differ: "fold_key ''Host'' \<noteq> fold_key ''If-Modified-Since''"
  by (simp add: fold_key_def)

lemma insert_host_safe:
  assumes safe: "con_safe n con" and n: "n + 1 < 2 ^ 31 - 1" and ds: "plain_header ds key val"
    and key: "fold_key key = fold_key ''Host''" and null: "http_host (req con) = Null"
  shows "\<exists>p con1. insert_header con ds = Some (p, con1) \<and> same_line con con1 \<and>
    con_safe (n + 1) (con1\<lparr>req := (req con1)\<lparr>http_host := p\<rparr>\<rparr>)"
proof -
  have ptrs: "ptr_ok (headers (req con)) ''Host'' Null" "ptr_ok (headers (req con)) ''If-Modified-Since'' (http_if_modified_since (req con))"
    using safe null by (auto simp: con_safe_def con_ptrs_def)
  have k: "name_key key = name_key ''Host''" "name_key ''If-Modified-Since'' \<noteq> name_key ''Host''"
    using key names_differ by (auto simp: name_key_eq)
  obtain h where h: "insert_header con ds = Some (Elem (used (headers (req con))) 0, con\<lparr>req := (req con)\<lparr>headers := h\<rparr>\<rparr>)"
      "con_base (n + 1) (con\<lparr>req := (req con)\<lparr>headers := h\<rparr>\<rparr>)" "used h = used (headers (req con)) + 1"
      "set (keys_of h) = insert (name_key key) (set (keys_of (headers (req con))))"
    using insert_header_tracked [OF safe n ds] ptrs(1) k(1) by (auto simp: ptr_ok_def)
  let ?con = "con\<lparr>req := (req con)\<lparr>headers := h, http_host := Elem (used (headers (req con))) 0\<rparr>\<rparr>"
  have "ptr_ok h ''If-Modified-Since'' (http_if_modified_since (req con))"
    using ptrs(2) h(3,4) k by (auto simp: ptr_ok_def split: header_ptr.splits)
  moreover have "ptr_ok h ''Host'' (Elem (used (headers (req con))) 0)" using h(3) by (simp add: ptr_ok_def)
  ultimately have "con_safe (n + 1) ?con" using h(2) by (simp add: con_safe_def con_ptrs_def con_base_def)
  with h(1) show ?thesis by (simp add: same_line_def)
qed

lemma insert_ims_safe:
  assumes safe: "con_safe n con" and n: "n + 1 < 2 ^ 31 - 1" and ds: "plain_header ds key val"
    and key: "fold_key key = fold_key ''If-Modified-Since''" and null: "http_if_modified_since (req con) = Null"
  shows "\<exists>p con1. insert_header con ds = Some (p, con1) \<and> same_line con con1 \<and>
    con_safe (n + 1) (con1\<lparr>req := (req con1)\<lparr>http_if_modified_since := p\<rparr>\<rparr>)"
proof -
  have ptrs: "ptr_ok (headers (req con)) ''If-Modified-Since'' Null" "ptr_ok (headers (req con)) ''Host'' (http_host (req con))"
    using safe null by (auto simp: con_safe_def con_ptrs_def)
  have k: "name_key key = name_key ''If-Modified-Since''" "name_key ''If-Modified-Since'' \<noteq> name_key ''Host''"
    using key names_differ by (auto simp: name_key_eq)
  obtain h where h: "insert_header con ds = Some (Elem (used (headers (req con))) 0, con\<lparr>req := (req con)\<lparr>headers := h\<rparr>\<rparr>)"
      "con_base (n + 1) (con\<lparr>req := (req con)\<lparr>headers := h\<rparr>\<rparr>)" "used h = used (headers (req con)) + 1"
      "set (keys_of h) = insert (name_key key) (set (keys_of (headers (req con))))"
    using insert_header_tracked [OF safe n ds] ptrs(1) k(1) by (auto simp: ptr_ok_def)
  let ?con = "con\<lparr>req := (req con)\<lparr>headers := h, http_if_modified_since := Elem (used (headers (req con))) 0\<rparr>\<rparr>"
  have "ptr_ok h ''Host'' (http_host (req con))"
    using ptrs(2) h(3,4) k by (auto simp: ptr_ok_def split: header_ptr.splits)
  moreover have "ptr_ok h ''If-Modified-Since'' (Elem (used (headers (req con))) 0)" using h(3) by (simp add: ptr_ok_def)
  ultimately have "con_safe (n + 1) ?con" using h(2) by (simp add: con_safe_def con_ptrs_def con_base_def)
  with h(1) show ?thesis by (simp add: same_line_def)
qed

section \<open>Fields\<close>

definition step_ok :: "nat \<Rightarrow> con \<Rightarrow> (con \<times> 'a) parse \<Rightarrow> bool" where
  "step_ok n con r =
     (case r of
        None \<Rightarrow> False
      | Some (Inl c) \<Rightarrow> http_status c \<noteq> 0
      | Some (Inr (c, x)) \<Rightarrow> con_safe n c \<and> same_line con c)"

lemma con_safe_untracked [simp]:
  "con_safe n (con\<lparr>req := (req con)\<lparr>http_content_type := p\<rparr>\<rparr>) = con_safe n con"
  "con_safe n (con\<lparr>req := (req con)\<lparr>http_if_none_match := p\<rparr>\<rparr>) = con_safe n con"
  "con_safe n (con\<lparr>req := (req con)\<lparr>http_range := p\<rparr>\<rparr>) = con_safe n con"
  "con_safe n (con\<lparr>req := (req con)\<lparr>content_length := m\<rparr>\<rparr>) = con_safe n con"
  "con_safe n (fail_status st con) = con_safe n con"
  by (simp_all add: con_safe_def con_base_def con_ptrs_def ptr_ok_def fail_status_def)

lemma may_insert_untracked [simp]:
  "may_insert (con\<lparr>req := (req con)\<lparr>content_length := m\<rparr>\<rparr>) key = may_insert con key"
  "may_insert (fail_status st con) key = may_insert con key"
  "may_insert (con\<lparr>split_vals := vals\<rparr>) key = may_insert con key"
  by (simp_all add: may_insert_def fail_status_def)

lemma reject_header_step:
  assumes "con_safe n con" and "n + 1 < 2 ^ 31 - 1" and "plain_header ds key val" and "may_insert con key" and "st \<noteq> 0"
  shows "step_ok m con (reject_header st ds con :: (con \<times> flags) parse)"
proof -
  have safe: "con_safe n (fail_status st con)" and may: "may_insert (fail_status st con) key"
    using assms(1,4) by simp_all
  from insert_header_safe [OF safe assms(2,3) may] obtain p h where
    "insert_header (fail_status st con) ds = Some (p, (fail_status st con)\<lparr>req := (req (fail_status st con))\<lparr>headers := h\<rparr>\<rparr>)"
    by blast
  with assms(5) show ?thesis by (simp add: reject_header_def step_ok_def fail_status_def)
qed

lemma content_length_step:
  assumes "con_safe n con" and "n + 1 < 2 ^ 31 - 1" and "plain_header ds key val" and "may_insert con key"
  shows "step_ok (n + 1) con (handle_content_length ds v con fl)"
proof -
  let ?con = "con\<lparr>req := (req con)\<lparr>content_length := strtoul_digits v\<rparr>\<rparr>"
  have safe: "con_safe n ?con" and may: "may_insert ?con key" using assms(1,4) by simp_all
  obtain p h where "insert_header ?con ds = Some (p, ?con\<lparr>req := (req ?con)\<lparr>headers := h\<rparr>\<rparr>)"
      "con_safe (n + 1) (?con\<lparr>req := (req ?con)\<lparr>headers := h\<rparr>\<rparr>)"
    using insert_header_safe [OF safe assms(2,3) may] by blast
  then have "step_ok (n + 1) con (do { (p, c) \<leftarrow> insert_header ?con ds; Some (Inr (c, fl\<lparr>con_length_set := True\<rparr>)) })"
    by (simp add: step_ok_def same_line_def)
  then show ?thesis using reject_header_step [OF assms] by (simp add: handle_content_length_def)
qed

text \<open>Insertion followed by an update of an untracked pointer.\<close>

lemma insert_update_step:
  assumes "con_safe n con" and "n + 1 < 2 ^ 31 - 1" and "plain_header ds key val" and "may_insert con key"
    and g: "\<And>p c. con_safe (n + 1) c \<Longrightarrow> con_safe (n + 1) (g p c)" "\<And>p c. same_line c (g p c)"
  shows "step_ok (n + 1) con (do { (p, c) \<leftarrow> insert_header con ds; Some (Inr (g p c, x)) })"
proof -
  obtain p h where h: "insert_header con ds = Some (p, con\<lparr>req := (req con)\<lparr>headers := h\<rparr>\<rparr>)"
      "con_safe (n + 1) (con\<lparr>req := (req con)\<lparr>headers := h\<rparr>\<rparr>)"
    using insert_header_safe [OF assms(1-4)] by blast
  have "same_line con (con\<lparr>req := (req con)\<lparr>headers := h\<rparr>\<rparr>)" by (simp add: same_line_def)
  with h g show ?thesis by (simp add: step_ok_def) (meson same_line_trans)
qed

lemma content_type_step:
  assumes "con_safe n con" and "n + 1 < 2 ^ 31 - 1" and "plain_header ds key val" and "may_insert con key"
  shows "step_ok (n + 1) con (handle_content_type ds con fl)"
  using reject_header_step [OF assms, of 400 "n + 1"]
    insert_update_step [OF assms, where g = "\<lambda>p c. c\<lparr>req := (req c)\<lparr>http_content_type := p\<rparr>\<rparr>" and x = fl]
  by (simp add: handle_content_type_def same_line_def)

lemma expect_step:
  assumes "con_safe n con" and "n + 1 < 2 ^ 31 - 1" and "plain_header ds key val" and "may_insert con key"
  shows "step_ok (n + 1) con (handle_expect cf ds v con fl)"
  using reject_header_step [OF assms, of 417 "n + 1"] insert_update_step [OF assms, where g = "\<lambda>p c. c" and x = fl]
  by (simp add: handle_expect_def)

lemma if_none_match_step:
  assumes "con_safe n con" and "n + 1 < 2 ^ 31 - 1" and "plain_header ds key val" and "may_insert con key"
  shows "step_ok (n + 1) con (handle_if_none_match ds con fl)"
  using con_safe_mono [OF assms(1), of "n + 1"]
    insert_update_step [OF assms, where g = "\<lambda>p c. c\<lparr>req := (req c)\<lparr>http_if_none_match := p\<rparr>\<rparr>" and x = fl]
  by (simp add: handle_if_none_match_def same_line_def step_ok_def)

lemma range_step:
  assumes "con_safe n con" and "n + 1 < 2 ^ 31 - 1" and "plain_header ds key val" and "may_insert con key"
  shows "step_ok (n + 1) con (handle_range ds v con fl)"
  using reject_header_step [OF assms, of 400 "n + 1"] insert_update_step [OF assms, where g = "\<lambda>p c. c" and x = fl]
    insert_update_step [OF assms, where g = "\<lambda>p c. c\<lparr>req := (req c)\<lparr>http_range := shift_ptr 6 p\<rparr>\<rparr>" and x = fl]
  by (simp add: handle_range_def same_line_def)

lemma host_step:
  assumes "con_safe n con" and "n + 1 < 2 ^ 31 - 1" and "plain_header ds key val" and key: "fold_key key = fold_key ''Host''"
  shows "step_ok (n + 1) con (handle_host reqline ds con fl)"
proof (cases "http_host (req con) = Null")
  case True
  from insert_host_safe [OF assms True] con_safe_mono [OF assms(1), of "n + 1"] True show ?thesis
    by (auto simp: handle_host_def step_ok_def same_line_def)
next
  case False
  then have may: "may_insert con key" using key names_differ by (simp add: may_insert_def)
  with False con_safe_mono [OF assms(1), of "n + 1"] reject_header_step [OF assms(1-3) may, of 400 "n + 1"] show ?thesis
    by (auto simp: handle_host_def step_ok_def)
qed

lemma header_string_live:
  assumes "con_safe n con" and "ptr_ok (headers (req con)) name p" and "p \<noteq> Null"
  shows "\<exists>v. header_string con p = Some (Some v)"
proof -
  obtain i where i: "p = Elem i 0" "i < used (headers (req con))"
    using assms(2,3) by (auto simp: ptr_ok_def split: header_ptr.splits)
  have "array_safe (headers (req con))" using assms(1) by (simp add: con_safe_def con_base_def)
  from array_safe_slot [OF this i(2)] show ?thesis by (auto simp: i(1) filled_value_def)
qed

lemma if_modified_since_step:
  assumes "con_safe n con" and "n + 1 < 2 ^ 31 - 1" and "plain_header ds key val"
    and key: "fold_key key = fold_key ''If-Modified-Since''"
  shows "step_ok (n + 1) con (handle_if_modified_since ds v con fl)"
proof (cases "http_if_modified_since (req con) = Null")
  case True
  from insert_ims_safe [OF assms True] True show ?thesis
    by (auto simp: handle_if_modified_since_def step_ok_def same_line_def)
next
  case False
  then have may: "may_insert con key" using key names_differ by (simp add: may_insert_def)
  have "ptr_ok (headers (req con)) ''If-Modified-Since'' (http_if_modified_since (req con))"
    using assms(1) by (simp add: con_safe_def con_ptrs_def)
  from header_string_live [OF assms(1) this False] obtain old where
    "header_string con (http_if_modified_since (req con)) = Some (Some old)" by blast
  with False con_safe_mono [OF assms(1), of "n + 1"] reject_header_step [OF assms(1-3) may, of 400 "n + 1"] show ?thesis
    by (auto simp: handle_if_modified_since_def step_ok_def)
qed

text \<open>Splitting a value reads only inside it unless the value starts with a comma.\<close>

lemma add_value_safe:
  assumes safe: "array_safe a" and room: "used a + 1 < 2 ^ 31" "unique_ndx a < 2 ^ 31 - 1"
  shows "\<exists>a'. add_value v a = Some a' \<and> array_safe a' \<and> used a' \<le> used a + 1 \<and> unique_ndx a' \<le> unique_ndx a + 1"
proof -
  obtain e h where get: "array_get_unused_element a TYPE_STRING = (e, h)" and h: "array_safe h" "used h = used a"
      "unique_ndx h = unique_ndx a" and e: "\<And>d. e = Some d \<Longrightarrow> string_value d \<and> Some d \<in> set (adata a)"
    by (rule array_get_unused_safe [OF safe]) (rule that)
  define ds where "ds = (case e of Some d \<Rightarrow> d | None \<Rightarrow> data_string_init)"
  obtain w where w: "dvalue ds = Data_String w"
  proof (cases e)
    case None
    with that show ?thesis by (simp add: ds_def data_string_init_def)
  next
    case (Some d)
    with e [of d] that show ?thesis by (auto simp: ds_def string_value_def)
  qed
  have v: "dvalue (ds\<lparr>dvalue := Data_String (Some v)\<rparr>) = Data_String (Some v)" by simp
  obtain k a' where "array_insert_unique h (ds\<lparr>dvalue := Data_String (Some v)\<rparr>) = Some (0, a')" "array_safe a'"
      "unique_ndx a' \<le> unique_ndx h + 1" "inserted h k a' \<or> merged h k a'"
    using array_insert_safe [OF h(1) v] room h(2,3) by auto
  with get w h show ?thesis
    by (intro exI [of _ a']) (auto simp: add_value_def ds_def [symmetric] inserted_def merged_def)
qed

lemma split_loop_safe:
  assumes "array_safe a" and "used a + length s < 2 ^ 31 - 1" and "unique_ndx a + length s < 2 ^ 31 - 1"
    and "i = 0 \<Longrightarrow> take 1 s \<noteq> '',''"
  shows "\<exists>a'. split_loop i s a = Some a' \<and> array_safe a' \<and> used a' \<le> used a + length s \<and>
    unique_ndx a' \<le> unique_ndx a + length s"
  using assms
proof (induction "length s" arbitrary: i s a rule: less_induct)
  case less
  define s1 where "s1 = dropWhile is_ws s"
  define j where "j = i + length (takeWhile is_ws s)"
  define v where "v = takeWhile (\<lambda>c. c \<noteq> CHR '','') s1"
  define rest where "rest = dropWhile (\<lambda>c. c \<noteq> CHR '','') s1"
  have unfold: "split_loop i s a = (if s1 = [] then Some a else if v = [] \<and> j = 0 then None
      else do { a \<leftarrow> add_value (rev (drop_blanks (rev v))) a;
                if rest = [] then Some a else split_loop (j + length v + 1) (tl rest) a })"
    by (subst split_loop.simps) (simp only: Let_def s1_def j_def v_def rest_def)
  have len: "length s = length (takeWhile is_ws s) + length s1" "length s1 = length v + length rest"
    unfolding s1_def v_def rest_def by (metis length_append takeWhile_dropWhile_id)+
  show ?case
  proof (cases "s1 = []")
    case True
    with less.prems show ?thesis by (auto simp: unfold)
  next
    case False
    have start: "\<not> (v = [] \<and> j = 0)"
    proof
      assume *: "v = [] \<and> j = 0"
      then have "s1 = s" "i = 0" by (auto simp: j_def s1_def takeWhile_eq_Nil_iff dropWhile_eq_self_iff)
      moreover have "hd s1 = CHR '',''" using * False by (cases s1) (auto simp: v_def split: if_splits)
      ultimately show False using less.prems(4) False by (cases s) auto
    qed
    have pos: "0 < length s" using False len by (cases s1) auto
    obtain a1 where a1: "add_value (rev (drop_blanks (rev v))) a = Some a1" "array_safe a1"
        "used a1 \<le> used a + 1" "unique_ndx a1 \<le> unique_ndx a + 1"
      using add_value_safe [OF less.prems(1)] less.prems(2,3) pos by fastforce
    show ?thesis
    proof (cases "rest = []")
      case True
      moreover have "used a1 \<le> used a + length s" "unique_ndx a1 \<le> unique_ndx a + length s"
        using a1 pos by linarith+
      ultimately show ?thesis using False start a1(1,2) by (auto simp: unfold)
    next
      case rest: False
      then have l: "length (tl rest) < length s" "Suc (length (tl rest)) \<le> length s"
        using len by (cases rest; simp)+
      have "\<exists>a'. split_loop (j + length v + 1) (tl rest) a1 = Some a' \<and> array_safe a' \<and>
          used a' \<le> used a1 + length (tl rest) \<and> unique_ndx a' \<le> unique_ndx a1 + length (tl rest)"
        using l a1 less.prems(2,3) by (intro less.hyps) auto
      then obtain a' where "split_loop (j + length v + 1) (tl rest) a1 = Some a'" "array_safe a'"
        "used a' \<le> used a1 + length (tl rest)" "unique_ndx a' \<le> unique_ndx a1 + length (tl rest)" by blast
      with False start a1 rest l show ?thesis by (auto simp: unfold)
    qed
  qed
qed

lemma split_leading_comma: "split_loop 0 (CHR '','' # s) a = None"
  by (subst split_loop.simps) simp

lemma connection_option_safe:
  "list_all (\<lambda>e. \<exists>d. e = Some d \<and> filled_value d) ds \<Longrightarrow> \<exists>ka'. connection_option ds ka = Some ka'"
  by (induction ds ka rule: connection_option.induct) (auto simp: filled_value_def)

lemma con_safe_split:
  "con_safe n con \<Longrightarrow> n \<le> m \<Longrightarrow> array_safe vals \<Longrightarrow> unique_ndx vals \<le> m \<Longrightarrow> con_safe m (con\<lparr>split_vals := vals\<rparr>)"
  by (auto simp: con_safe_def con_base_def con_ptrs_def)

lemma connection_step:
  assumes safe: "con_safe n con" and n: "n + length v + 1 < 2 ^ 31 - 1" and ds: "plain_header ds key val" and may: "may_insert con key"
    and v: "take 1 v \<noteq> '',''"
  shows "step_ok (n + length v + 1) con (handle_connection ds v con fl)"
proof -
  have s: "array_safe (split_vals con)" "unique_ndx (split_vals con) \<le> n" using safe by (simp_all add: con_safe_def con_base_def)
  obtain a where a: "array_reset (split_vals con) = Some a" "array_safe a" "used a = 0" "unique_ndx a \<le> n"
    using array_reset_safe [OF s(1)] s(2) by auto
  obtain a' where a': "split_loop 0 v a = Some a'" "array_safe a'" "unique_ndx a' \<le> n + length v"
    using split_loop_safe [OF a(2), of v 0] a n v by auto
  obtain ka where ka: "connection_option (take (used a') (adata a')) (keep_alive_set fl) = Some ka"
    using connection_option_safe [of "take (used a') (adata a')"] a'(2) by (force simp: array_safe_def list_all_length)
  let ?con = "con\<lparr>split_vals := a'\<rparr>"
  have c: "con_safe (n + length v) ?con" using con_safe_split [OF safe _ a'(2,3)] by simp
  have "may_insert ?con key" using may by simp
  from insert_header_safe [OF c n ds this] obtain p h where
    h: "insert_header ?con ds = Some (p, ?con\<lparr>req := (req ?con)\<lparr>headers := h\<rparr>\<rparr>)"
       "con_safe (n + length v + 1) (?con\<lparr>req := (req ?con)\<lparr>headers := h\<rparr>\<rparr>)" by blast
  with a a' ka show ?thesis
    by (simp add: handle_connection_def http_request_split_value_def step_ok_def same_line_def)
qed

text \<open>A field never takes the parser out of its blocks unless its value starts with a comma.\<close>

lemma process_header_step:
  assumes safe: "con_safe n con" and n: "n + length val + 1 < 2 ^ 31 - 1" and val: "take 1 val \<noteq> '',''"
  shows "step_ok (n + length val + 1) con (process_header cf reqline key val con fl)"
proof -
  obtain ds con1 where new: "new_header con key val = Some (ds, con1)" "con_safe n con1" "same_line con con1" "plain_header ds key val"
    using new_header_safe [OF safe] by blast
  let ?m = "n + length val + 1"
  have lift: "step_ok ?m con r" if "step_ok k con1 r" "k \<le> ?m" for k and r :: "(con \<times> flags) parse"
    using that new(3) con_safe_mono [OF _ that(2)] same_line_trans [OF new(3)]
    by (auto simp: step_ok_def split: option.splits sum.splits)
  have n1: "n + 1 < 2 ^ 31 - 1" "n + 1 \<le> ?m" using n by auto
  show ?thesis
  proof (cases "find_special key special_headers = Some H_Host \<or> find_special key special_headers = Some H_If_Modified_Since")
    case True
    then consider (host) "find_special key special_headers = Some H_Host"
      | (ims) "find_special key special_headers = Some H_If_Modified_Since" by blast
    then show ?thesis
    proof cases
      case host
      from lift [OF host_step [OF new(2) n1(1) new(4) find_special_name(1) [OF host]] n1(2)] host new(1)
      show ?thesis by (simp add: process_header_def)
    next
      case ims
      from lift [OF if_modified_since_step [OF new(2) n1(1) new(4) find_special_name(2) [OF ims]] n1(2)] ims new(1)
      show ?thesis by (simp add: process_header_def)
    qed
  next
    case False
    then have may: "may_insert con1 key"
      using find_special_host find_special_ims by (auto simp: may_insert_def)
    note c = new(2) n1(1) new(4) may
    have other: "step_ok (n + 1) con1 (do { (p, c) \<leftarrow> insert_header con1 ds; Some (Inr (c, fl)) })"
      using insert_update_step [OF c, where g = "\<lambda>p c. c" and x = fl] by simp
    show ?thesis
    proof (cases "find_special key special_headers")
      case None
      with lift [OF other n1(2)] new(1) show ?thesis by (simp add: process_header_def)
    next
      case (Some h)
      with False new(1) show ?thesis
        using lift [OF connection_step [OF new(2) n new(4) may val]] lift [OF content_length_step [OF c] n1(2)]
          lift [OF content_type_step [OF c] n1(2)] lift [OF expect_step [OF c] n1(2)]
          lift [OF if_none_match_step [OF c] n1(2)] lift [OF range_step [OF c] n1(2)]
        by (cases h) (simp_all add: process_header_def)
    qed
  qed
qed

section \<open>The header loop\<close>

definition same_head :: "con \<Rightarrow> con \<Rightarrow> bool" where
  "same_head con con' \<longleftrightarrow>
     http_status con' = http_status con \<and> http_method (req con') = http_method (req con) \<and>
     http_version (req con') = http_version (req con) \<and> uri (req con') = uri (req con)"

lemma same_head_refl [simp]: "same_head con con"
  by (simp add: same_head_def)

lemma same_head_trans: "same_head a b \<Longrightarrow> same_head b c \<Longrightarrow> same_head a c"
  by (simp add: same_head_def)

lemma same_line_head: "same_line a b \<Longrightarrow> same_head a b"
  by (simp add: same_head_def same_line_def)

lemma poke_nul_simps [simp]:
  "req (poke_nul i con) = req con" "split_vals (poke_nul i con) = split_vals con" "http_status (poke_nul i con) = http_status con"
  "con_safe n (poke_nul i con) = con_safe n con" "length (parse_text (poke_nul i con)) = length (parse_text con)"
  "same_head c (poke_nul i con) = same_head c con"
  by (simp_all add: poke_nul_def con_safe_def con_base_def con_ptrs_def same_head_def)

lemma poke_nul_other: "i \<noteq> j \<Longrightarrow> parse_text (poke_nul i con) ! j = parse_text con ! j"
  by (simp add: poke_nul_def)

text \<open>The request has a field whose value starts with a comma.\<close>

fun comma_field :: "char list \<Rightarrow> bool" where
  "comma_field [] = False"
| "comma_field (c # s) = (c = CHR '':'' \<and> take 1 (dropWhile is_ws s) = '','' \<or> comma_field s)"

definition colon_before :: "char list \<Rightarrow> nat \<Rightarrow> bool" where
  "colon_before R v \<longleftrightarrow> (\<exists>k < v. R ! k = CHR '':'' \<and> (\<forall>j. k < j \<longrightarrow> j < v \<longrightarrow> is_ws (R ! j)))"

lemma comma_field_drop: "comma_field (drop k s) \<Longrightarrow> comma_field s"
proof (induction k arbitrary: s)
  case (Suc k)
  then show ?case by (cases s) auto
qed simp

lemma dropWhile_drop:
  "(\<And>j. k \<le> j \<Longrightarrow> j < v \<Longrightarrow> P (s ! j)) \<Longrightarrow> v < length s \<Longrightarrow> k \<le> v \<Longrightarrow> \<not> P (s ! v) \<Longrightarrow> dropWhile P (drop k s) = drop v s"
proof (induction "v - k" arbitrary: k)
  case 0
  then have "k = v" by simp
  moreover have "drop v s = s ! v # drop (Suc v) s" using 0 by (simp add: Cons_nth_drop_Suc)
  ultimately show ?case using 0 by simp
next
  case (Suc n)
  then have "drop k s = s ! k # drop (Suc k) s" "P (s ! k)" by (simp_all add: Cons_nth_drop_Suc)
  with Suc show ?case by simp
qed

lemma colon_comma:
  assumes "colon_before R v" and "v < length R" and "R ! v = CHR '',''"
  shows "comma_field R"
proof -
  obtain k where k: "k < v" "R ! k = CHR '':''" "\<And>j. k < j \<Longrightarrow> j < v \<Longrightarrow> is_ws (R ! j)"
    using assms(1) by (auto simp: colon_before_def)
  have "dropWhile is_ws (drop (Suc k) R) = drop v R"
    using k assms by (intro dropWhile_drop) auto
  moreover have "take 1 (drop v R) = '',''" using assms(2,3) by (simp add: take_Suc hd_drop_conv_nth)
  moreover have "drop k R = R ! k # drop (Suc k) R" using k(1) assms(2) by (metis Cons_nth_drop_Suc less_trans)
  ultimately have "comma_field (drop k R)" using k by simp
  then show ?thesis by (rule comma_field_drop)
qed

definition text_inv :: "char list \<Rightarrow> con \<Rightarrow> nat \<Rightarrow> bool" where
  "text_inv R con m \<longleftrightarrow>
     length (parse_text con) = length R \<and> (\<forall>j. m \<le> j \<longrightarrow> j < length R \<longrightarrow> parse_text con ! j = R ! j)"

definition loop_inv :: "char list \<Rightarrow> nat \<Rightarrow> con \<Rightarrow> locals \<Rightarrow> bool" where
  "loop_inv R N con lo \<longleftrightarrow>
     text_inv R con (first lo) \<and> first lo \<le> pos lo \<and> pos lo \<le> length R \<and> con_safe (N + first lo) con \<and>
     (\<forall>k. key_at lo = Some k \<longrightarrow> k \<le> first lo \<and> k + key_len lo \<le> pos lo) \<and> \<not> finished lo \<and>
     (if is_key lo then \<not> in_folding lo
      else (\<exists>v. val_at lo = Some v \<and> first lo \<le> v \<and> v \<le> pos lo \<and>
             (\<not> in_folding lo \<longrightarrow> first lo + key_len lo \<le> pos lo \<and> colon_before R v)))"

text \<open>What a round may end in; the position has yet to be advanced.\<close>

definition round_ok :: "char list \<Rightarrow> nat \<Rightarrow> con \<Rightarrow> nat \<Rightarrow> (con \<times> locals) parse \<Rightarrow> bool" where
  "round_ok R N con p r =
     (case r of
        None \<Rightarrow> False
      | Some (Inl c) \<Rightarrow> http_status c \<noteq> 0
      | Some (Inr (c, lo)) \<Rightarrow> same_head con c \<and> p \<le> pos lo \<and>
          (if finished lo then con_safe (N + length R) c \<and> length (parse_text c) = length R
           else loop_inv R N c (lo\<lparr>pos := pos lo + 1\<rparr>)))"

lemma fail_status_simps [simp]:
  "http_status (fail_status st con) = st" "http_status (fail_response st con) = st"
  by (simp_all add: fail_status_def fail_response_def)

lemma peek_next:
  assumes "text_inv R con m" and "m \<le> i" and "i < length R" and "last R = NUL" and "parse_text con ! i \<noteq> NUL"
  shows "i + 1 < length R \<and> peek con (i + 1) = Some (R ! (i + 1))"
proof -
  have "R ! i \<noteq> NUL" using assms by (simp add: text_inv_def)
  then have "i \<noteq> length R - 1" using assms(3,4) by (metis last_conv_nth length_0_conv not_less_zero)
  then show ?thesis using assms by (auto simp: text_inv_def)
qed

lemma takeWhile_before_last:
  assumes "k < length s" and "\<not> P (last s)"
  shows "k + length (takeWhile P (drop k s)) < length s" "\<not> P (s ! (k + length (takeWhile P (drop k s))))"
proof -
  have "last s \<in> set (drop k s)" using assms(1) by (metis drop_eq_Nil last_drop last_in_set not_less)
  with assms(2) have "takeWhile P (drop k s) \<noteq> drop k s" by (metis takeWhile_eq_all_conv)
  moreover from this have l: "length (takeWhile P (drop k s)) < length (drop k s)"
    by (metis length_takeWhile_le le_neq_implies_less takeWhile_eq_take take_all_iff le_refl)
  ultimately show "k + length (takeWhile P (drop k s)) < length s" by simp
  show "\<not> P (s ! (k + length (takeWhile P (drop k s))))"
    using nth_length_takeWhile [OF l] assms(1) by simp
qed

lemma text_inv_last: "text_inv R con m \<Longrightarrow> m < length R \<Longrightarrow> last R = NUL \<Longrightarrow> last (parse_text con) = NUL"
proof -
  assume t: "text_inv R con m" and m: "m < length R" and nul: "last R = NUL"
  then have ne: "R \<noteq> []" "parse_text con \<noteq> []" "length (parse_text con) = length R" by (auto simp: text_inv_def)
  have "parse_text con ! (length R - 1) = R ! (length R - 1)" using t m by (simp add: text_inv_def)
  then show "last (parse_text con) = NUL" using ne nul by (simp add: last_conv_nth)
qed

lemma key_char_round:
  assumes inv: "loop_inv R N con lo" and key: "is_key lo" and i: "pos lo < length R" and nul: "last R = NUL"
  shows "round_ok R N con (pos lo) (key_char con lo (parse_text con ! pos lo))"
proof -
  let ?c = "parse_text con ! pos lo"
  have t: "text_inv R con (first lo)" and f: "first lo \<le> pos lo" and s: "con_safe (N + first lo) con"
    and fin: "\<not> finished lo" and fold: "\<not> in_folding lo" and k: "\<And>k. key_at lo = Some k \<Longrightarrow> k \<le> first lo \<and> k + key_len lo \<le> pos lo"
    using inv key by (auto simp: loop_inv_def)
  have c: "?c = R ! pos lo" using t f i by (simp add: text_inv_def)
  consider (colon) "?c = CHR '':''" | (sep) "?c \<noteq> CHR '':''" "separator ?c"
    | (ws) "?c \<noteq> CHR '':''" "\<not> separator ?c" "is_ws ?c"
    | (cr) "?c = CHR 0x0D" | (other) "?c \<noteq> CHR '':''" "\<not> separator ?c" "\<not> is_ws ?c" "?c \<noteq> CHR 0x0D" by blast
  then show ?thesis
  proof cases
    case colon
    have "colon_before R (Suc (pos lo))"
      unfolding colon_before_def using colon c by (intro exI [of _ "pos lo"]) auto
    with colon t f i s fin fold k show ?thesis
      by (force simp: key_char_def round_ok_def loop_inv_def)
  next
    case sep
    then show ?thesis by (simp add: key_char_def round_ok_def)
  next
    case ws
    show ?thesis
    proof (cases "pos lo = first lo")
      case True
      with ws t f i s fin k show ?thesis by (force simp: key_char_def round_ok_def loop_inv_def)
    next
      case False
      have "?c \<noteq> NUL" using ws(3) by auto
      from peek_next [OF t f i nul this] have i1: "pos lo + 1 < length R" by blast
      have len: "length (parse_text con) = length R" using t by (simp add: text_inv_def)
      have last: "last (parse_text con) = NUL" using text_inv_last [OF t _ nul] f i by simp
      define n where "n = pos lo + 1 + length (takeWhile is_ws (drop (pos lo + 1) (parse_text con)))"
      have n: "n < length R" using takeWhile_before_last [of "pos lo + 1" "parse_text con" is_ws] i1 len last by (simp add: n_def)
      have skip: "skip_to_colon con (pos lo) = Some (if parse_text con ! n = CHR '':'' then Some (n - 1) else None)"
        using n len unfolding skip_to_colon_def Let_def n_def [symmetric] by simp
      show ?thesis
      proof (cases "parse_text con ! n = CHR '':''")
        case True
        have "loop_inv R N con (lo\<lparr>key_len := pos lo - first lo, pos := n\<rparr>)"
          using t f s fin fold key n k by (fastforce simp: loop_inv_def n_def)
        moreover have "n - 1 + 1 = n" "pos lo \<le> n - 1" by (simp_all add: n_def)
        ultimately show ?thesis using True False ws skip fin by (simp add: key_char_def round_ok_def)
      next
        case no: False
        then show ?thesis using False ws skip by (simp add: key_char_def round_ok_def)
      qed
    qed
  next
    case cr
    then have "?c \<noteq> NUL" by auto
    from peek_next [OF t f i nul this] have nxt: "pos lo + 1 < length R" "peek con (pos lo + 1) = Some (R ! (pos lo + 1))" by auto
    show ?thesis
    proof (cases "R ! (pos lo + 1) = CHR 0x0A \<and> pos lo = first lo")
      case True
      have "con_safe (N + length R) con" using con_safe_mono [OF s] f i by simp
      then show ?thesis
        using True cr nxt t by (simp add: key_char_def round_ok_def separator_def text_inv_def)
    next
      case False
      with cr nxt show ?thesis by (auto simp: key_char_def round_ok_def separator_def)
    qed
  next
    case other
    show ?thesis
    proof (cases "control ?c")
      case True
      with other show ?thesis by (auto simp: key_char_def round_ok_def)
    next
      case False
      have "loop_inv R N con (lo\<lparr>pos := pos lo + 1\<rparr>)"
        using t f i s fin fold key k by (fastforce simp: loop_inv_def)
      with False other fin show ?thesis by (simp add: key_char_def round_ok_def)
    qed
  qed
qed

lemma append_folded_safe:
  assumes safe: "con_safe n con"
  shows "\<exists>con'. append_folded key v con = Some con' \<and> con_safe n con' \<and> same_line con con'"
proof -
  let ?h = "headers (req con)"
  have h: "array_safe ?h" "no_index ?h" using safe by (simp_all add: con_safe_def con_base_def)
  obtain r p where get: "array_get_index ?h (key_bytes (Some (cstr key))) = Some (r, p)"
    and hit: "\<And>i. r = Some i \<Longrightarrow> \<exists>d. i < used ?h \<and> adata ?h ! i = Some d"
    using array_get_index_safe [OF h(1)] by blast
  show ?thesis
  proof (cases r)
    case None
    with get safe show ?thesis by (simp add: append_folded_def)
  next
    case (Some i)
    with hit obtain d where d: "i < used ?h" "adata ?h ! i = Some d" by blast
    from array_safe_slot [OF h(1) d(1)] d have slot: "slot ?h i = Some (Some d)" and fd: "filled_value d"
      by (auto simp: slot_def split: if_splits)
    then obtain w where w: "dvalue d = Data_String (Some w)" by (auto simp: filled_value_def)
    let ?d = "d\<lparr>dvalue := Data_String (Some (w @ v))\<rparr>"
    let ?h' = "?h\<lparr>adata := (adata ?h)[i := Some ?d]\<rparr>"
    have "filled_value ?d" using fd by (simp add: filled_value_def)
    from array_safe_update [OF h(1) this d(1)] have h': "array_safe ?h'" .
    have "Some d \<in> set (adata ?h)" using d h(1) by (metis array_safe_def less_le_trans nth_mem)
    then have idx: "no_index ?h'"
      using h(2) set_update_subset_insert [of "adata ?h" i "Some ?d"] by (auto simp: no_index_def)
    have "merged ?h (dkey d) ?h'"
      unfolding merged_def caseless_cmp_zero
      by (intro conjI exI [of _ i] exI [of _ d] exI [of _ ?d]) (simp_all add: d)
    from keys_of_merged [OF h(1) this] have keys: "keys_of ?h' = keys_of ?h" by blast
    have "con_safe n (con\<lparr>req := (req con)\<lparr>headers := ?h'\<rparr>\<rparr>)"
      using safe h' idx keys by (auto simp: con_safe_def con_base_def con_ptrs_def ptr_ok_def split: header_ptr.splits)
    with get Some slot w show ?thesis by (simp add: append_folded_def same_line_def Let_def)
  qed
qed

lemma hd_strip_blanks: "strip_blanks v \<noteq> [] \<Longrightarrow> v \<noteq> [] \<and> hd (strip_blanks v) = hd v"
proof -
  assume ne: "strip_blanks v \<noteq> []"
  have "v = strip_blanks v @ rev (takeWhile is_ws (rev v))"
    unfolding strip_blanks_def by (metis rev_append rev_rev_ident takeWhile_dropWhile_id)
  then show ?thesis using ne by (metis append_is_Nil_conv hd_append2)
qed

lemma length_strip_blanks: "length (strip_blanks v) \<le> length v"
  unfolding strip_blanks_def by (metis length_dropWhile_le length_rev)

lemma end_of_field_round:
  assumes inv: "loop_inv R N con lo" and key: "\<not> is_key lo" and i: "pos lo + 1 < length R"
    and room: "N + length R + 3 < 2 ^ 31 - 1" and comma: "\<not> comma_field R"
  shows "round_ok R N con (pos lo) (end_of_field cf reqline (poke_nul (pos lo + 1) (poke_nul (pos lo) con)) lo)"
proof -
  let ?c1 = "poke_nul (pos lo + 1) (poke_nul (pos lo) con)"
  have t: "text_inv R con (first lo)" and f: "first lo \<le> pos lo" and s: "con_safe (N + first lo) con"
    and fin: "\<not> finished lo" and k: "\<And>k. key_at lo = Some k \<Longrightarrow> k \<le> first lo \<and> k + key_len lo \<le> pos lo"
    using inv by (auto simp: loop_inv_def)
  obtain v where v: "val_at lo = Some v" "first lo \<le> v" "v \<le> pos lo"
      "\<not> in_folding lo \<Longrightarrow> first lo + key_len lo \<le> pos lo \<and> colon_before R v"
    using inv key by (auto simp: loop_inv_def)
  have len: "length (parse_text con) = length R" using t by (simp add: text_inv_def)
  have next_ok: "round_ok R N con (pos lo) (Some (Inr (c, lo'\<lparr>pos := pos lo + 1, first := pos lo + 2, is_key := True,
        val_at := None, in_folding := False\<rparr>)))"
    if c: "text_inv R c (pos lo + 2)" "con_safe (N + pos lo + 2) c" "same_head con c"
      and lo': "\<not> finished lo'" "\<And>k. key_at lo' = Some k \<Longrightarrow> k \<le> first lo \<and> k + key_len lo' \<le> pos lo"
    for c and lo' :: locals
    using that i f by (force simp: round_ok_def loop_inv_def)
  have t1: "text_inv R ?c1 (pos lo + 2)"
    using t f by (simp add: text_inv_def poke_nul_def)
  show ?thesis
  proof (cases "in_folding lo")
    case True
    show ?thesis
    proof (cases "\<exists>k. key_at lo = Some k \<and> key_len lo \<noteq> 0")
      case False
      with True show ?thesis
        by (auto simp: end_of_field_def pbind_def round_ok_def split: option.split)
    next
      case key: True
      then obtain k0 where k0: "key_at lo = Some k0" "key_len lo \<noteq> 0" by blast
      have "k0 + key_len lo \<le> length R" using k [OF k0(1)] i by simp
      then obtain ky where ky: "bytes_at ?c1 k0 (key_len lo) = Some ky" by (simp add: bytes_at_def mread_def len)
      have "con_safe (N + first lo) ?c1" using s by simp
      from append_folded_safe [OF this] obtain c where
        c: "append_folded ky (text_at ?c1 v) ?c1 = Some c" "con_safe (N + first lo) c" "same_line ?c1 c" by blast
      have "text_inv R c (pos lo + 2)" using t1 c(3) by (simp add: text_inv_def same_line_def)
      moreover have "con_safe (N + pos lo + 2) c" using con_safe_mono [OF c(2)] f by simp
      moreover have "same_head con c" using same_line_head [OF c(3)] by (simp add: same_head_def)
      ultimately show ?thesis using next_ok [of c lo] True k0 ky v(1) c(1) fin k
        by (simp add: end_of_field_def pbind_def)
    qed
  next
    case False
    note v4 = v(4) [OF False]
    define raw where "raw = take (pos lo - v) (drop v (parse_text ?c1))"
    have raw: "bytes_at ?c1 v (pos lo - v) = Some raw" using v(3) i len by (simp add: bytes_at_def mread_def raw_def)
    have lraw: "length raw = pos lo - v" using i len by (simp add: raw_def)
    define val where "val = strip_blanks raw"
    have lval: "v + length val \<le> pos lo" using length_strip_blanks [of raw] lraw v(3) by (simp add: val_def)
    let ?c2 = "poke_nul (v + length val) ?c1" and ?lo = "lo\<lparr>key_at := Some (first lo)\<rparr>"
    have t2: "text_inv R ?c2 (pos lo + 2)" using t1 lval by (simp add: text_inv_def poke_nul_other)
    have s2: "con_safe (N + first lo) ?c2" using s by simp
    have lo_ok: "\<not> finished ?lo" "\<And>k. key_at ?lo = Some k \<Longrightarrow> k \<le> first lo \<and> k + key_len ?lo \<le> pos lo"
      using fin v4 by auto
    show ?thesis
    proof (cases "val = []")
      case True
      have "con_safe (N + pos lo + 2) ?c2" using con_safe_mono [OF s2] f by simp
      then show ?thesis
        using next_ok [OF t2 _ _ lo_ok] False v(1) raw True
        by (simp add: end_of_field_def pbind_def val_def [symmetric])
    next
      case ne: False
      obtain ky where ky: "bytes_at ?c2 (first lo) (key_len lo) = Some ky"
        using v4 i len by (simp add: bytes_at_def mread_def)
      have "take 1 val \<noteq> '',''"
      proof
        assume t1: "take 1 val = '',''"
        have rv: "raw \<noteq> []" "hd raw = CHR '',''"
          using hd_strip_blanks [of raw] ne t1 unfolding val_def by (auto simp: take_Suc)
        then have lt: "v < pos lo" using lraw by (cases "pos lo - v") auto
        have "hd raw = parse_text ?c1 ! v"
          using lt i len by (simp add: raw_def hd_drop_conv_nth)
        also have "\<dots> = R ! v" using lt v(2) i t by (simp add: poke_nul_other text_inv_def)
        finally have "R ! v = CHR '',''" using rv by simp
        with colon_comma [of R v] v4 lt i comma show False by auto
      qed
      moreover have n: "N + first lo + length val + 1 < 2 ^ 31 - 1" using room lval v(2) i by linarith
      ultimately have step: "step_ok (N + first lo + length val + 1) ?c2 (process_header cf reqline ky val ?c2 (hflags lo))"
        using process_header_step [OF s2] by blast
      then consider (err) c where "process_header cf reqline ky val ?c2 (hflags lo) = Some (Inl c)" "http_status c \<noteq> 0"
        | (ok) c fl where "process_header cf reqline ky val ?c2 (hflags lo) = Some (Inr (c, fl))"
            "con_safe (N + first lo + length val + 1) c" "same_line ?c2 c"
        by (auto simp: step_ok_def split: option.splits sum.splits)
      then show ?thesis
      proof cases
        case err
        with False v(1) raw ne ky show ?thesis
          by (simp add: end_of_field_def pbind_def val_def [symmetric] round_ok_def)
      next
        case ok
        have "text_inv R c (pos lo + 2)" using t2 ok(3) by (simp add: text_inv_def same_line_def)
        moreover have "con_safe (N + pos lo + 2) c" using lval v(2) by (intro con_safe_mono [OF ok(2)]) simp
        moreover have "same_head con c" using same_line_head [OF ok(3)] by (simp add: same_head_def)
        ultimately show ?thesis
          using next_ok [of c "?lo\<lparr>hflags := fl\<rparr>"] False v(1) raw ne ky ok(1) lo_ok
          by (simp add: end_of_field_def pbind_def val_def [symmetric])
      qed
    qed
  qed
qed

lemma colon_before_ws: "colon_before R v \<Longrightarrow> is_ws (R ! v) \<Longrightarrow> colon_before R (Suc v)"
  unfolding colon_before_def by (metis less_Suc_eq)

lemma value_char_round:
  assumes inv: "loop_inv R N con lo" and key: "\<not> is_key lo" and i: "pos lo < length R" and nul: "last R = NUL"
    and room: "N + length R + 3 < 2 ^ 31 - 1" and comma: "\<not> comma_field R"
  shows "round_ok R N con (pos lo) (value_char cf reqline con lo (parse_text con ! pos lo))"
proof -
  let ?c = "parse_text con ! pos lo"
  have t: "text_inv R con (first lo)" and f: "first lo \<le> pos lo" and s: "con_safe (N + first lo) con"
    and fin: "\<not> finished lo" and k: "\<And>k. key_at lo = Some k \<Longrightarrow> k \<le> first lo \<and> k + key_len lo \<le> pos lo"
    using inv by (auto simp: loop_inv_def)
  obtain v where v: "val_at lo = Some v" "first lo \<le> v" "v \<le> pos lo"
      "\<not> in_folding lo \<Longrightarrow> first lo + key_len lo \<le> pos lo \<and> colon_before R v"
    using inv key by (auto simp: loop_inv_def)
  have c: "?c = R ! pos lo" using t f i by (simp add: text_inv_def)
  show ?thesis
  proof (cases "?c = CHR 0x0D")
    case True
    then have "?c \<noteq> NUL" by auto
    from peek_next [OF t f i nul this] have nxt: "pos lo + 1 < length R" "peek con (pos lo + 1) = Some (R ! (pos lo + 1))" by auto
    show ?thesis
    proof (cases "R ! (pos lo + 1) = CHR 0x0A")
      case nl: True
      with True nxt end_of_field_round [OF inv key nxt(1) room comma] show ?thesis by (simp add: value_char_def)
    next
      case False
      with True nxt show ?thesis by (auto simp: value_char_def round_ok_def)
    qed
  next
    case False
    define lo1 where "lo1 = (if is_ws ?c \<and> val_at lo = Some (pos lo) then lo\<lparr>val_at := Some (pos lo + 1)\<rparr> else lo)"
    have "loop_inv R N con (lo1\<lparr>pos := pos lo + 1\<rparr>)"
    proof (cases "is_ws ?c \<and> val_at lo = Some (pos lo)")
      case True
      then have "colon_before R (pos lo) \<Longrightarrow> colon_before R (Suc (pos lo))" using colon_before_ws c by simp
      with True t f i s fin k v key show ?thesis by (force simp: loop_inv_def lo1_def)
    next
      case False
      with t f i s fin k v key show ?thesis by (force simp: loop_inv_def lo1_def)
    qed
    moreover have "pos lo1 = pos lo" "\<not> finished lo1" using fin by (simp_all add: lo1_def)
    ultimately show ?thesis using False by (simp add: value_char_def lo1_def [symmetric] round_ok_def Let_def)
  qed
qed

text \<open>The whole loop: enough rounds, no fault, and the invariant at the end.\<close>

lemma header_loop_safe:
  assumes "loop_inv R N con lo" and "length R \<le> pos lo + n" and nul: "last R = NUL"
    and room: "N + length R + 3 < 2 ^ 31 - 1" and comma: "\<not> comma_field R"
  shows "case header_loop n cf reqline con lo of
      None \<Rightarrow> False
    | Some (Inl c) \<Rightarrow> http_status c \<noteq> 0
    | Some (Inr (c, lo')) \<Rightarrow> same_head con c \<and> con_safe (N + length R) c"
  using assms(1,2)
proof (induction n arbitrary: con lo)
  case 0
  have "parse_text con = parse_text con" by simp
  from 0 have "\<not> pos lo < length (parse_text con)" by (auto simp: loop_inv_def text_inv_def)
  moreover have "con_safe (N + length R) con"
    using 0 con_safe_mono [of "N + first lo" con "N + length R"] by (auto simp: loop_inv_def)
  ultimately show ?case by (simp add: header_loop.simps [of 0])
next
  case (Suc n)
  have len: "length (parse_text con) = length R" and fin: "\<not> finished lo"
    using Suc.prems(1) by (auto simp: loop_inv_def text_inv_def)
  show ?case
  proof (cases "pos lo < length R")
    case False
    moreover have "con_safe (N + length R) con"
      using Suc.prems(1) con_safe_mono [of "N + first lo" con "N + length R"] by (auto simp: loop_inv_def)
    ultimately show ?thesis by (simp add: header_loop.simps [of "Suc n"] len)
  next
    case True
    let ?r = "if is_key lo then key_char con lo (parse_text con ! pos lo)
      else value_char cf reqline con lo (parse_text con ! pos lo)"
    have r: "round_ok R N con (pos lo) ?r"
      using key_char_round [OF Suc.prems(1) _ True nul] value_char_round [OF Suc.prems(1) _ True nul room comma] by simp
    have unfold: "header_loop (Suc n) cf reqline con lo =
        pbind ?r (\<lambda>(con, lo). header_loop n cf reqline con (lo\<lparr>pos := pos lo + 1\<rparr>))"
      using True len fin by (simp add: header_loop.simps [of "Suc n"])
    from r consider (err) c where "?r = Some (Inl c)" "http_status c \<noteq> 0"
      | (fin) c lo1 where "?r = Some (Inr (c, lo1))" "same_head con c" "finished lo1" "con_safe (N + length R) c"
          "length (parse_text c) = length R"
      | (go) c lo1 where "?r = Some (Inr (c, lo1))" "same_head con c" "\<not> finished lo1"
          "loop_inv R N c (lo1\<lparr>pos := pos lo1 + 1\<rparr>)" "pos lo \<le> pos lo1"
      unfolding round_ok_def by (cases ?r rule: option.exhaust) (auto split: sum.splits if_splits prod.splits)
    then show ?thesis
    proof cases
      case err
      then show ?thesis unfolding unfold by (simp add: pbind_def)
    next
      case fin
      then have "header_loop n cf reqline c (lo1\<lparr>pos := pos lo1 + 1\<rparr>) = Some (Inr (c, lo1\<lparr>pos := pos lo1 + 1\<rparr>))"
        by (simp add: header_loop.simps [of n])
      with fin show ?thesis unfolding unfold by (simp add: pbind_def)
    next
      case go
      have "length R \<le> pos (lo1\<lparr>pos := pos lo1 + 1\<rparr>) + n" using Suc.prems(2) go(5) by simp
      from Suc.IH [OF go(4) this] go show ?thesis
        unfolding unfold by (auto simp: pbind_def split: option.splits sum.splits dest: same_head_trans)
    qed
  qed
qed

section \<open>The request line\<close>

definition line_inv :: "char list \<Rightarrow> nat \<Rightarrow> con \<Rightarrow> request_line_scan \<Rightarrow> bool" where
  "line_inv R N con rl \<longleftrightarrow>
     text_inv R con 0 \<and> rl_first rl \<le> rl_pos rl \<and> rl_pos rl \<le> length R \<and> con_safe N con \<and>
     http_host (req con) = Null \<and> rl_line rl = 0 \<and> rl_host rl = None \<and> rl_stage rl \<le> 2 \<and>
     (rl_stage rl = 1 \<longrightarrow> 1 \<le> rl_first rl) \<and> (rl_stage rl = 2 \<longrightarrow> 1 \<le> rl_uri rl \<and> rl_uri rl < rl_first rl)"

text \<open>A complete request line.\<close>

definition valid_line :: "con \<Rightarrow> bool" where
  "valid_line con \<longleftrightarrow> http_status con = 0 \<and> http_method (req con) \<noteq> HTTP_METHOD_UNSET \<and>
     http_version (req con) \<noteq> HTTP_VERSION_UNSET \<and> list_all request_uri_is_valid_char (bval (uri (req con)))"

definition line_done :: "char list \<Rightarrow> nat \<Rightarrow> con \<Rightarrow> request_line_scan \<Rightarrow> bool" where
  "line_done R N con rl \<longleftrightarrow>
     text_inv R con (rl_first rl) \<and> rl_first rl = rl_pos rl + 1 \<and> rl_first rl \<le> length R \<and> con_safe N con \<and>
     (\<forall>p n. rl_host rl = Some (p, n) \<longrightarrow> p + n \<le> length R) \<and> http_host (req con) = Null \<and> valid_line con"

definition line_round_ok :: "char list \<Rightarrow> nat \<Rightarrow> nat \<Rightarrow> (con \<times> request_line_scan) parse \<Rightarrow> bool" where
  "line_round_ok R N p r =
     (case r of
        None \<Rightarrow> False
      | Some (Inl c) \<Rightarrow> http_status c \<noteq> 0
      | Some (Inr (c, rl)) \<Rightarrow> p \<le> rl_pos rl \<and>
          (if rl_line rl = 0 then line_inv R N c (rl\<lparr>rl_pos := rl_pos rl + 1\<rparr>) else line_done R N c rl))"

lemma con_safe_line [simp]:
  "con_safe n (con\<lparr>req := (req con)\<lparr>request_line := l\<rparr>\<rparr>) = con_safe n con"
  "con_safe n (con\<lparr>req := (req con)\<lparr>http_method := m\<rparr>\<rparr>) = con_safe n con"
  "con_safe n (con\<lparr>req := (req con)\<lparr>http_version := w\<rparr>\<rparr>) = con_safe n con"
  "con_safe n (con\<lparr>req := (req con)\<lparr>uri := u\<rparr>\<rparr>) = con_safe n con"
  "con_safe n (con\<lparr>req := (req con)\<lparr>orig_uri := u\<rparr>\<rparr>) = con_safe n con"
  "con_safe n (con\<lparr>req := (req con)\<lparr>orig_uri := u\<rparr>, http_status := st\<rparr>) = con_safe n con"
  "con_safe n (con\<lparr>keep_alive := k\<rparr>) = con_safe n con"
  "con_safe n (con\<lparr>header_len := hl\<rparr>) = con_safe n con"
  "con_safe n (con\<lparr>parse_text := t\<rparr>) = con_safe n con"
  by (simp_all add: con_safe_def con_base_def con_ptrs_def)

lemma length_cstr_nul: "i < length s \<Longrightarrow> s ! i = NUL \<Longrightarrow> length (cstr s) \<le> i"
proof (induction s arbitrary: i)
  case (Cons c s)
  then show ?case by (cases i) (auto simp: cstr_def)
qed simp

lemma absolute_uri_length: "absolute_uri scheme s = Some n \<Longrightarrow> length scheme \<le> n \<and> n \<le> length s"
proof -
  assume a: "absolute_uri scheme s = Some n"
  then have t: "take (length scheme) s = scheme" and n: "n = length scheme + length (takeWhile (\<lambda>c. c \<noteq> CHR ''/'') (drop (length scheme) s))"
    by (auto simp: absolute_uri_def split: if_splits)
  have "length scheme \<le> length s" using t by (metis length_take min.cobounded1)
  moreover have "length (takeWhile (\<lambda>c. c \<noteq> CHR ''/'') (drop (length scheme) s)) \<le> length (drop (length scheme) s)"
    by (rule length_takeWhile_le)
  ultimately show ?thesis using n by simp
qed

text \<open>Where the scheme and host end.\<close>

definition uri_split :: "string \<Rightarrow> (nat \<times> nat) option" where
  "uri_split s =
     (case absolute_uri ''http://'' s of
        Some n \<Rightarrow> Some (n, 7)
      | None \<Rightarrow> (case absolute_uri ''https://'' s of Some n \<Rightarrow> Some (n, 8) | None \<Rightarrow> None))"

lemma uri_split_length: "uri_split s = Some (n, k) \<Longrightarrow> k \<le> n \<and> n \<le> length s"
  using absolute_uri_length [of "''http://''" s] absolute_uri_length [of "''https://''" s]
  by (auto simp: uri_split_def split: option.splits)

lemma copy_uri_safe:
  assumes len: "length (parse_text con) = length R" and u: "u < proto" "proto \<le> length R"
    and nul: "parse_text con ! (proto - 1) = NUL"
  shows "\<exists>host path. copy_uri con u proto = Some (host, con\<lparr>req := (req con)\<lparr>uri := Some path\<rparr>\<rparr>) \<and>
    (\<forall>p n. host = Some (p, n) \<longrightarrow> p + n \<le> length R)"
proof -
  have "drop u (parse_text con) ! (proto - 1 - u) = NUL" "proto - 1 - u < length (drop u (parse_text con))"
    using nul u len by simp_all
  from length_cstr_nul [OF this(2,1)] have s: "length (text_at con u) \<le> proto - 1 - u" by (simp add: text_at_def)
  show ?thesis
  proof (cases "uri_split (text_at con u)")
    case None
    have "bytes_at con u (proto - u - 1) \<noteq> None" using u len by (simp add: bytes_at_def mread_def)
    with None show ?thesis by (auto simp: copy_uri_def uri_split_def Let_def split: option.splits)
  next
    case (Some nk)
    obtain n k where nk: "nk = (n, k)" by (cases nk)
    with Some uri_split_length s have b: "k \<le> n" "n \<le> proto - 1 - u" by (auto intro: le_trans)
    have "u + n + (proto - (u + n) - 1) \<le> length R" using b u by linarith
    then have "bytes_at con (u + n) (proto - (u + n) - 1) \<noteq> None" using len by (simp add: bytes_at_def mread_def)
    moreover have "u + k + (n - k) \<le> length R" using b u by linarith
    ultimately show ?thesis using Some nk by (auto simp: copy_uri_def uri_split_def [symmetric] Let_def)
  qed
qed

lemma set_version_cases:
  obtains (err) c where "set_version cf p con = Some (Inl c)" "http_status c \<noteq> 0"
  | (ok) w where "set_version cf p con = Some (Inr (con\<lparr>req := (req con)\<lparr>http_version := w\<rparr>\<rparr>))" "w \<noteq> HTTP_VERSION_UNSET"
proof (cases "take 5 p = ''HTTP/''")
  case False
  then show ?thesis by (intro err [of "fail_status 400 con"]) (simp_all add: set_version_def)
next
  case True
  show ?thesis
  proof (cases "parse_version (drop 5 p)")
    case None
    with True show ?thesis by (intro err [of "fail_status 400 con"]) (simp_all add: set_version_def)
  next
    case (Some mm)
    obtain a b where mm: "mm = (a, b)" by (cases mm)
    consider "a = 1 \<and> b = 1" | "a = 1 \<and> b = 0" | "\<not> (a = 1 \<and> b = 1)" "\<not> (a = 1 \<and> b = 0)" by blast
    then show ?thesis
    proof cases
      case 1
      with True Some mm show ?thesis
        by (intro ok [of "if allow_http11 cf then HTTP_VERSION_1_1 else HTTP_VERSION_1_0"]) (simp_all add: set_version_def)
    next
      case 2
      with True Some mm show ?thesis by (intro ok [of HTTP_VERSION_1_0]) (simp_all add: set_version_def)
    next
      case 3
      with True Some mm show ?thesis by (intro err [of "con\<lparr>http_status := 505\<rparr>"]) (auto simp: set_version_def)
    qed
  qed
qed

lemma end_of_request_line_round:
  assumes inv: "line_inv R N con rl" and i: "rl_pos rl + 1 < length R"
  shows "line_round_ok R N (rl_pos rl) (end_of_request_line cf con rl)"
proof -
  have t: "text_inv R con 0" and f: "rl_first rl \<le> rl_pos rl" and s: "con_safe N con" and line: "rl_line rl = 0" and hh: "http_host (req con) = Null"
    using inv by (auto simp: line_inv_def)
  let ?c1 = "poke_nul (rl_pos rl + 1) (poke_nul (rl_pos rl) con)"
  have len: "length (parse_text con) = length R" using t by (simp add: text_inv_def)
  obtain ln where ln: "bytes_at ?c1 0 (rl_pos rl) = Some ln" using i len by (simp add: bytes_at_def mread_def)
  let ?c2 = "?c1\<lparr>req := (req ?c1)\<lparr>request_line := Some ln\<rparr>\<rparr>"
  show ?thesis
  proof (cases "rl_stage rl = 2")
    case False
    with ln show ?thesis by (simp add: end_of_request_line_def Let_def line_round_ok_def)
  next
    case True
    with inv have u: "1 \<le> rl_uri rl" "rl_uri rl < rl_first rl" by (auto simp: line_inv_def)
    let ?c3 = "poke_nul (rl_first rl - 1) (poke_nul (rl_uri rl - 1) ?c2)"
    let ?m = "get_http_method_key (text_at ?c3 (rl_method rl))"
    let ?c4 = "?c3\<lparr>req := (req ?c3)\<lparr>http_method := ?m\<rparr>\<rparr>"
    have s4: "con_safe N ?c4" using s by (simp add: con_safe_def con_base_def con_ptrs_def)
    have len4: "length (parse_text ?c4) = length R" using len by simp
    have t4: "text_inv R ?c4 (rl_pos rl + 2)"
      using t f u by (simp add: text_inv_def poke_nul_def)
    show ?thesis
    proof (cases "?m = HTTP_METHOD_UNSET")
      case True
      with ln \<open>rl_stage rl = 2\<close> u show ?thesis by (simp add: end_of_request_line_def Let_def line_round_ok_def)
    next
      case m: False
      let ?p = "text_at ?c3 (rl_first rl)"
      show ?thesis
      proof (rule set_version_cases [of cf ?p ?c4])
        fix c assume "set_version cf ?p ?c4 = Some (Inl c)" "http_status c \<noteq> 0"
        with ln \<open>rl_stage rl = 2\<close> u m show ?thesis
          by (simp add: end_of_request_line_def Let_def line_round_ok_def pbind_def)
      next
        fix w assume w: "set_version cf ?p ?c4 = Some (Inr (?c4\<lparr>req := (req ?c4)\<lparr>http_version := w\<rparr>\<rparr>))" "w \<noteq> HTTP_VERSION_UNSET"
        let ?c5 = "?c4\<lparr>req := (req ?c4)\<lparr>http_version := w\<rparr>\<rparr>"
        have len5: "length (parse_text ?c5) = length R" using len4 by simp
        have nul5: "parse_text ?c5 ! (rl_first rl - 1) = NUL" using u f i len by (simp add: poke_nul_def)
        have "rl_first rl \<le> length R" using f i by simp
        from copy_uri_safe [OF len5 u(2) this nul5] obtain host path where
          cu: "copy_uri ?c5 (rl_uri rl) (rl_first rl) = Some (host, ?c5\<lparr>req := (req ?c5)\<lparr>uri := Some path\<rparr>\<rparr>)"
            "\<forall>p n. host = Some (p, n) \<longrightarrow> p + n \<le> length R" by blast
        have main: "end_of_request_line cf con rl = (if \<not> list_all request_uri_is_valid_char path
            then Some (Inl (fail_status 400 (?c5\<lparr>req := (req ?c5)\<lparr>uri := Some path\<rparr>\<rparr>)))
            else Some (Inr (?c5\<lparr>req := (req ?c5)\<lparr>uri := Some path, orig_uri := Some path\<rparr>, http_status := 0\<rparr>,
              rl\<lparr>rl_pos := rl_pos rl + 1, rl_line := rl_line rl + 1, rl_first := rl_pos rl + 2, rl_host := host\<rparr>)))"
          using ln \<open>rl_stage rl = 2\<close> u m w cu(1) by (simp add: end_of_request_line_def Let_def pbind_def)
        have s5: "con_safe N (?c5\<lparr>req := (req ?c5)\<lparr>uri := Some path, orig_uri := Some path\<rparr>, http_status := 0\<rparr>)"
          using s4 by (simp add: con_safe_def con_base_def con_ptrs_def)
        show ?thesis
          unfolding main using s5 t4 i cu(2) line m w(2) hh
          by (auto simp: line_round_ok_def line_done_def valid_line_def text_inv_def)
      qed
    qed
  qed
qed

lemma request_line_char_round:
  assumes inv: "line_inv R N con rl" and i: "rl_pos rl < length R" and nul: "last R = NUL"
  shows "line_round_ok R N (rl_pos rl) (request_line_char cf con rl (parse_text con ! rl_pos rl))"
proof -
  let ?c = "parse_text con ! rl_pos rl"
  have t: "text_inv R con 0" using inv by (simp add: line_inv_def)
  consider (cr) "?c = CHR 0x0D" | (sp) "?c = CHR '' ''" | (other) "?c \<noteq> CHR 0x0D" "?c \<noteq> CHR '' ''" by blast
  then show ?thesis
  proof cases
    case cr
    then have "?c \<noteq> NUL" by auto
    from peek_next [OF t _ i nul this] have nxt: "rl_pos rl + 1 < length R" "peek con (rl_pos rl + 1) = Some (R ! (rl_pos rl + 1))" by auto
    show ?thesis
    proof (cases "R ! (rl_pos rl + 1) = CHR 0x0A")
      case True
      with cr nxt end_of_request_line_round [OF inv nxt(1)] show ?thesis by (simp add: request_line_char_def)
    next
      case False
      with cr nxt inv show ?thesis by (auto simp: request_line_char_def line_round_ok_def line_inv_def)
    qed
  next
    case sp
    with inv i show ?thesis by (auto simp: request_line_char_def line_round_ok_def line_inv_def)
  next
    case other
    with inv i show ?thesis by (auto simp: request_line_char_def line_round_ok_def line_inv_def)
  qed
qed

lemma request_line_loop_safe:
  assumes "line_inv R N con rl" and "length R \<le> rl_pos rl + n" and nul: "last R = NUL"
    and "uri (req con) = None" "http_status con = 0"
  shows "case request_line_loop n cf con rl of
      None \<Rightarrow> False
    | Some (Inl c) \<Rightarrow> http_status c \<noteq> 0
    | Some (Inr (c, rl')) \<Rightarrow>
        (line_inv R N c rl' \<and> rl_pos rl' = length R \<and> uri (req c) = None \<and> http_status c = 0) \<or>
        (\<exists>rl1. rl' = rl1\<lparr>rl_pos := rl_pos rl1 + 1\<rparr> \<and> line_done R N c rl1)"
  using assms(1,2,4,5)
proof (induction n arbitrary: con rl)
  case 0
  then have "rl_pos rl = length R" by (auto simp: line_inv_def)
  with 0 show ?case by (simp add: request_line_loop.simps [of 0]) (auto simp: line_inv_def text_inv_def)
next
  case (Suc n)
  have len: "length (parse_text con) = length R" and line: "rl_line rl = 0"
    using Suc.prems(1) by (auto simp: line_inv_def text_inv_def)
  show ?case
  proof (cases "rl_pos rl < length R")
    case False
    then have "rl_pos rl = length R" using Suc.prems(1) by (auto simp: line_inv_def)
    with Suc.prems show ?thesis by (simp add: request_line_loop.simps [of "Suc n"] len)
  next
    case True
    let ?r = "request_line_char cf con rl (parse_text con ! rl_pos rl)"
    have r: "line_round_ok R N (rl_pos rl) ?r" by (rule request_line_char_round [OF Suc.prems(1) True nul])
    have unfold: "request_line_loop (Suc n) cf con rl =
        pbind ?r (\<lambda>(con, rl). request_line_loop n cf con (rl\<lparr>rl_pos := rl_pos rl + 1\<rparr>))"
      using True len line by (simp add: request_line_loop.simps [of "Suc n"])
    have frame: "uri (req c) = None \<and> http_status c = 0" if "?r = Some (Inr (c, rl1))" "rl_line rl1 = 0" for c rl1
    proof -
      have "rl_line rl1 \<noteq> 0" if "end_of_request_line cf con rl = Some (Inr (c, rl1))"
        using that by (auto simp: end_of_request_line_def Let_def pbind_def bind_Some_iff split: if_splits option.splits sum.splits)
      with that Suc.prems(3,4) show ?thesis by (auto simp: request_line_char_def bind_Some_iff split: if_splits)
    qed
    from r consider (err) c where "?r = Some (Inl c)" "http_status c \<noteq> 0"
      | (fin) c rl1 where "?r = Some (Inr (c, rl1))" "line_done R N c rl1" "rl_line rl1 \<noteq> 0"
      | (go) c rl1 where "?r = Some (Inr (c, rl1))" "rl_line rl1 = 0" "rl_pos rl \<le> rl_pos rl1"
          "line_inv R N c (rl1\<lparr>rl_pos := rl_pos rl1 + 1\<rparr>)"
      unfolding line_round_ok_def by (cases ?r rule: option.exhaust) (auto split: sum.splits if_splits prod.splits)
    then show ?thesis
    proof cases
      case err
      then show ?thesis unfolding unfold by (simp add: pbind_def)
    next
      case fin
      then have "request_line_loop n cf c (rl1\<lparr>rl_pos := rl_pos rl1 + 1\<rparr>) = Some (Inr (c, rl1\<lparr>rl_pos := rl_pos rl1 + 1\<rparr>))"
        by (simp add: request_line_loop.simps [of n])
      with fin show ?thesis unfolding unfold by (auto simp: pbind_def)
    next
      case go
      have "length R \<le> rl_pos (rl1\<lparr>rl_pos := rl_pos rl1 + 1\<rparr>) + n" using Suc.prems(2) go(3) by simp
      from Suc.IH [OF go(4) this] frame [OF go(1,2)] go(1) show ?thesis
        unfolding unfold by (simp add: pbind_def)
    qed
  qed
qed

section \<open>The rest of the function\<close>

definition parsed_ok :: "nat \<Rightarrow> con \<Rightarrow> bool" where
  "parsed_ok n con \<longleftrightarrow> con_safe n con \<and> http_status con = 0 \<and> (uri (req con) = None \<or> valid_line con)"

lemma insert_reqline_host_safe:
  assumes safe: "con_safe N con" and null: "http_host (req con) = Null" and n: "N + 1 < 2 ^ 31 - 1"
    and host: "\<And>p k. host = Some (p, k) \<Longrightarrow> p + k \<le> length (parse_text con)"
  shows "\<exists>c. insert_reqline_host con host = Some c \<and> con_safe (N + 1) c \<and> same_line con c"
proof (cases host)
  case None
  with con_safe_mono [OF safe, of "N + 1"] show ?thesis by (simp add: insert_reqline_host_def)
next
  case (Some pk)
  obtain p k where pk: "pk = (p, k)" by (cases pk)
  with host Some obtain h where h: "bytes_at con p k = Some h" by (auto simp: bytes_at_def mread_def)
  obtain ds c1 where c1: "new_header con ''Host'' h = Some (ds, c1)" "con_safe N c1" "same_line con c1"
      "http_host (req c1) = Null" "plain_header ds ''Host'' h"
    using new_header_safe [OF safe] null by metis
  obtain q c2 where c2: "insert_header c1 ds = Some (q, c2)" "same_line c1 c2"
      "con_safe (N + 1) (c2\<lparr>req := (req c2)\<lparr>http_host := q\<rparr>\<rparr>)"
    using insert_host_safe [OF c1(2) n c1(5) refl c1(4)] by blast
  have "same_line con (c2\<lparr>req := (req c2)\<lparr>http_host := q\<rparr>\<rparr>)"
    using same_line_trans [OF c1(3) c2(2)] by (simp add: same_line_def)
  with Some pk h c1 c2 show ?thesis by (simp add: insert_reqline_host_def)
qed

lemma parse_lines_safe:
  assumes safe: "con_safe N con" and null: "http_host (req con) = Null" "uri (req con) = None" "http_status con = 0"
    and nul: "parse_text con \<noteq> []" "last (parse_text con) = NUL"
    and room: "N + length (parse_text con) + 4 < 2 ^ 31 - 1" and comma: "\<not> comma_field (parse_text con)"
  shows "case parse_lines cf con of
      None \<Rightarrow> False
    | Some (Inl c) \<Rightarrow> http_status c \<noteq> 0
    | Some (Inr (c, lo)) \<Rightarrow> parsed_ok (N + 1 + length (parse_text con)) c"
proof -
  let ?R = "parse_text con"
  have "line_inv ?R N con line_start"
    using safe null by (auto simp: line_inv_def line_start_def text_inv_def)
  from request_line_loop_safe [OF this _ nul(2) null(2,3), of "length ?R" cf]
  consider (err) c where "request_line_loop (length ?R) cf con line_start = Some (Inl c)" "http_status c \<noteq> 0"
    | (none) c rl where "request_line_loop (length ?R) cf con line_start = Some (Inr (c, rl))"
        "line_inv ?R N c rl" "uri (req c) = None" "http_status c = 0"
    | (line) c rl where "request_line_loop (length ?R) cf con line_start = Some (Inr (c, rl\<lparr>rl_pos := rl_pos rl + 1\<rparr>))"
        "line_done ?R N c rl"
    by (auto split: option.splits sum.splits)
  then show ?thesis
  proof cases
    case err
    then show ?thesis by (simp add: parse_lines_def pbind_def)
  next
    case none
    have c: "con_safe (N + 1) c" using none(2) con_safe_mono [of N c "N + 1"] by (auto simp: line_inv_def)
    have inv: "loop_inv ?R (N + 1) c (header_start rl)"
      using none(2) con_safe_mono [OF c, of "N + 1 + rl_first rl"]
      by (auto simp: loop_inv_def line_inv_def header_start_def text_inv_def)
    have host: "rl_host rl = None" and lens: "length (parse_text c) = length ?R"
      using none(2) by (auto simp: line_inv_def text_inv_def)
    have run: "parse_lines cf con = header_loop (length ?R) cf False c (header_start rl)"
      using none host lens by (simp add: parse_lines_def pbind_def insert_reqline_host_def)
    have "length ?R \<le> pos (header_start rl) + length ?R" "(N + 1) + length ?R + 3 < 2 ^ 31 - 1" using room by simp_all
    from header_loop_safe [OF inv this(1) nul(2) this(2) comma, of cf False] none(3,4) show ?thesis
      unfolding run by (auto simp: parsed_ok_def same_head_def split: option.splits sum.splits)
  next
    case line
    let ?rl = "rl\<lparr>rl_pos := rl_pos rl + 1\<rparr>"
    have d: "text_inv ?R c (rl_first rl)" "rl_first rl = rl_pos rl + 1" "rl_first rl \<le> length ?R" "con_safe N c"
        "http_host (req c) = Null" "valid_line c"
      using line(2) by (auto simp: line_done_def)
    show ?thesis
    proof (cases "uri (req c) = Some []")
      case True
      with line(1) show ?thesis by (simp add: parse_lines_def pbind_def)
    next
      case False
      have lens: "length (parse_text c) = length ?R" using d(1) by (simp add: text_inv_def)
      obtain c1 where c1: "insert_reqline_host c (rl_host rl) = Some c1" "con_safe (N + 1) c1" "same_line c c1"
        using insert_reqline_host_safe [OF d(4,5), of "rl_host rl"] line(2) room lens by (auto simp: line_done_def)
      have inv: "loop_inv ?R (N + 1) c1 (header_start ?rl)"
        using d c1(3) con_safe_mono [OF c1(2), of "N + 1 + rl_first rl"]
        by (auto simp: loop_inv_def header_start_def text_inv_def same_line_def)
      have run: "parse_lines cf con = header_loop (length ?R) cf (rl_host rl \<noteq> None) c1 (header_start ?rl)"
        using line(1) False c1(1) lens c1(3) by (simp add: parse_lines_def pbind_def same_line_def)
      have "length ?R \<le> pos (header_start ?rl) + length ?R" "(N + 1) + length ?R + 3 < 2 ^ 31 - 1" using room by simp_all
      from header_loop_safe [OF inv this(1) nul(2) this(2) comma, of cf "rl_host rl \<noteq> None"] d(6) c1(3) show ?thesis
        unfolding run by (auto simp: parsed_ok_def same_head_def same_line_def valid_line_def split: option.splits sum.splits)
    qed
  qed
qed

text \<open>What an accepted request satisfies, with the return code.\<close>

definition accepted :: "conf \<Rightarrow> int \<Rightarrow> con \<Rightarrow> bool" where
  "accepted cf r con \<longleftrightarrow>
     (http_version (req con) = HTTP_VERSION_1_1 \<longrightarrow> http_host (req con) \<noteq> Null) \<and>
     (http_host (req con) \<noteq> Null \<longrightarrow>
        (\<exists>h v. request_check_hostname (Some h) = (0, v) \<and> header_string con (http_host (req con)) = Some v)) \<and>
     (r \<noteq> 0 \<longrightarrow> r = 1 \<and> 0 < content_length (req con) \<and> content_length (req con) \<le> SSIZE_MAX \<and>
        (max_request_size cf \<noteq> 0 \<longrightarrow> content_length (req con) div 1024 \<le> max_request_size cf) \<and>
        http_method (req con) \<noteq> HTTP_METHOD_GET \<and> http_method (req con) \<noteq> HTTP_METHOD_HEAD)"

lemma decide_keep_alive_cases:
  assumes "con_safe n con"
  obtains (err) c where "decide_keep_alive con fl = Some (Inl c)" "http_status c \<noteq> 0"
  | (ok) k where "decide_keep_alive con fl = Some (Inr (con\<lparr>keep_alive := k\<rparr>))"
      "http_version (req con) = HTTP_VERSION_1_1 \<longrightarrow> http_host (req con) \<noteq> Null"
proof (cases "http_version (req con) = HTTP_VERSION_1_1")
  case False
  then show ?thesis
    by (intro ok [of "if keep_alive_set fl = HTTP_CONNECTION_KEEPALIVE then 1 else 0"]) (simp_all add: decide_keep_alive_def)
next
  case True
  let ?c = "con\<lparr>keep_alive := (if keep_alive_set fl \<noteq> HTTP_CONNECTION_CLOSE then 1 else 0)\<rparr>"
  show ?thesis
  proof (cases "http_host (req con) = Null")
    case null: True
    with True show ?thesis by (intro err [of "fail_response 400 ?c"]) (simp_all add: decide_keep_alive_def host_missing_def)
  next
    case False
    have "ptr_ok (headers (req ?c)) ''Host'' (http_host (req ?c))" "con_safe n ?c"
      using assms by (simp_all add: con_safe_def con_base_def con_ptrs_def)
    from header_string_live [OF this(2,1)] False obtain v where "header_string ?c (http_host (req con)) = Some (Some v)" by auto
    then have "decide_keep_alive con fl = Some (Inr ?c)"
      using True False by (simp add: decide_keep_alive_def host_missing_def)
    with False show ?thesis by (intro ok) simp_all
  qed
qed

lemma check_host_cases:
  assumes "con_safe n con"
  obtains (err) c where "check_host con = Some (Inl c)" "http_status c \<noteq> 0"
  | (ok) c where "check_host con = Some (Inr c)" "same_head con c" "content_length (req c) = content_length (req con)"
      "http_host (req c) = http_host (req con)"
      "http_host (req con) \<noteq> Null \<longrightarrow>
        (\<exists>h v. request_check_hostname (Some h) = (0, v) \<and> header_string c (http_host (req con)) = Some v)"
proof (cases "http_host (req con) = Null")
  case True
  then show ?thesis by (intro ok [of con]) (simp_all add: check_host_def)
next
  case False
  have "ptr_ok (headers (req con)) ''Host'' (http_host (req con))"
    using assms by (simp add: con_safe_def con_ptrs_def)
  then obtain i where i: "http_host (req con) = Elem i 0" "i < used (headers (req con))"
    using False by (auto simp: ptr_ok_def split: header_ptr.splits)
  have safe: "array_safe (headers (req con))" using assms by (simp add: con_safe_def con_base_def)
  from array_safe_slot [OF safe i(2)] obtain d h where d: "slot (headers (req con)) i = Some (Some d)" "dvalue d = Data_String (Some h)"
    by (auto simp: filled_value_def)
  obtain r v where rv: "request_check_hostname (Some h) = (r, v)" by (cases "request_check_hostname (Some h)")
  let ?h = "headers (req con)"
  let ?c = "con\<lparr>req := (req con)\<lparr>headers := ?h\<lparr>adata := (adata ?h)[i := Some (d\<lparr>dvalue := Data_String v\<rparr>)]\<rparr>\<rparr>\<rparr>"
  have code: "check_host con = (if r \<noteq> 0 then Some (Inl (fail_response 400 ?c)) else Some (Inr ?c))"
    using False i d rv by (simp add: check_host_def Let_def)
  show ?thesis
  proof (cases "r = 0")
    case no: False
    with code show ?thesis by (intro err [of "fail_response 400 ?c"]) simp_all
  next
    case True
    have len: "i < length (adata ?h)" using safe i(2) by (auto simp: array_safe_def)
    then have "header_string ?c (Elem i 0) = Some v" by (simp add: slot_def option.map_ident)
    with code True rv i(1) show ?thesis by (intro ok [of ?c]) (auto simp: same_head_def)
  qed
qed

lemma finish_parse_safe:
  assumes safe: "con_safe n con"
  shows "\<exists>r c. finish_parse cf con fl = Some (r, c) \<and>
    (http_status c \<noteq> 0 \<or> same_head con c \<and> accepted cf r c)"
proof (rule decide_keep_alive_cases [OF safe, of fl])
  fix c assume "decide_keep_alive con fl = Some (Inl c)" "http_status c \<noteq> 0"
  then show ?thesis by (simp add: finish_parse_def pbind_def)
next
  fix k assume ka: "decide_keep_alive con fl = Some (Inr (con\<lparr>keep_alive := k\<rparr>))"
    and host: "http_version (req con) = HTTP_VERSION_1_1 \<longrightarrow> http_host (req con) \<noteq> Null"
  let ?con = "con\<lparr>keep_alive := k\<rparr>"
  have safe1: "con_safe n ?con" using safe by simp
  show ?thesis
  proof (rule check_host_cases [OF safe1])
    fix c assume "check_host ?con = Some (Inl c)" "http_status c \<noteq> 0"
    with ka show ?thesis by (simp add: finish_parse_def pbind_def)
  next
    fix c assume c: "check_host ?con = Some (Inr c)" "same_head ?con c" "content_length (req c) = content_length (req ?con)"
        "http_host (req c) = http_host (req ?con)"
        "http_host (req ?con) \<noteq> Null \<longrightarrow>
          (\<exists>h v. request_check_hostname (Some h) = (0, v) \<and> header_string c (http_host (req ?con)) = Some v)"
    have head: "same_head con c" using c(2) by (simp add: same_head_def)
    have m: "check_method c fl = Some (Inl (fail_status 400 c)) \<or> check_method c fl = Some (Inl (fail_status 411 c)) \<or>
        check_method c fl = Some (Inr c) \<and> \<not> (con_length_set fl \<and> content_length (req c) \<noteq> 0 \<and>
          (http_method (req c) = HTTP_METHOD_GET \<or> http_method (req c) = HTTP_METHOD_HEAD))"
      by (cases "http_method (req c)") (simp_all add: check_method_def)
    have run: "finish_parse cf con fl = (case check_method c fl of None \<Rightarrow> None | Some (Inl con) \<Rightarrow> Some (0, con)
        | Some (Inr con) \<Rightarrow> Some (check_length cf con fl))"
      using ka c(1) by (simp add: finish_parse_def pbind_def)
    from m show ?thesis
    proof (elim disjE conjE)
      assume ok: "check_method c fl = Some (Inr c)" and nogood: "\<not> (con_length_set fl \<and> content_length (req c) \<noteq> 0 \<and>
          (http_method (req c) = HTTP_METHOD_GET \<or> http_method (req c) = HTTP_METHOD_HEAD))"
      have acc: "accepted cf r c" if "r = 0 \<or> r = 1 \<and> con_length_set fl \<and> content_length (req c) \<noteq> 0 \<and>
          content_length (req c) \<le> SSIZE_MAX \<and> (max_request_size cf \<noteq> 0 \<longrightarrow> content_length (req c) div 1024 \<le> max_request_size cf)" for r
        using that nogood host c(4,5) head by (auto simp: accepted_def same_head_def)
      show ?thesis
        unfolding run ok using acc [of 0] acc [of 1] head by (simp add: check_length_def)
    qed (simp_all add: run)
  qed
qed

lemma comma_field_snoc: "comma_field (s @ [NUL]) = comma_field s"
proof (induction s)
  case (Cons c s)
  have "take 1 (dropWhile is_ws (s @ [NUL])) = '','' \<longleftrightarrow> take 1 (dropWhile is_ws s) = '',''"
    by (induction s) auto
  with Cons show ?case by simp
qed simp

text \<open>A connection before its request: the tables well-formed, everything reset.\<close>

definition fresh_con :: "nat \<Rightarrow> con \<Rightarrow> bool" where
  "fresh_con N con \<longleftrightarrow>
     con_base N con \<and> used (headers (req con)) = 0 \<and> http_host (req con) = Null \<and>
     http_if_modified_since (req con) = Null \<and> uri (req con) = None \<and> http_status con = 0"

lemma fresh_con_safe: "fresh_con N con \<Longrightarrow> con_safe N con"
  by (simp add: fresh_con_def con_safe_def con_ptrs_def ptr_ok_def keys_of_def)

lemma http_request_parse_result:
  assumes fresh: "fresh_con N con" and raw: "raw_request con = Some s" and room: "N + length s + 5 < 2 ^ 31 - 1"
    and comma: "\<not> comma_field s"
  shows "\<exists>r c. http_request_parse cf con = Some (r, c) \<and>
    (http_status c \<noteq> 0 \<or> (uri (req c) = None \<or> valid_line c) \<and> accepted cf r c)"
proof -
  obtain c0 t where c0: "fill_parse_request con = Some c0" "c0 = con\<lparr>parse_text := t @ [NUL]\<rparr>" "length t \<le> length s" "\<not> comma_field t"
  proof (cases "request_count con > 1 \<and> take 2 s = [CHR 0x0D, CHR 0x0A]")
    case True
    with raw comma comma_field_drop [of 2 s] show ?thesis
      by (intro that [of _ "drop 2 s"]) (auto simp: fill_parse_request_def)
  next
    case False
    with raw comma show ?thesis by (intro that [of _ s]) (auto simp: fill_parse_request_def)
  qed
  have safe: "con_safe N c0" using fresh_con_safe [OF fresh] c0(2) by simp
  have start: "http_host (req c0) = Null" "uri (req c0) = None" "http_status c0 = 0"
    using fresh c0(2) by (simp_all add: fresh_con_def)
  have pt: "parse_text c0 \<noteq> []" "last (parse_text c0) = NUL" "N + length (parse_text c0) + 4 < 2 ^ 31 - 1"
      "\<not> comma_field (parse_text c0)"
    using c0 room by (simp_all add: comma_field_snoc)
  from parse_lines_safe [OF safe start pt, of cf]
  consider (err) c where "parse_lines cf c0 = Some (Inl c)" "http_status c \<noteq> 0"
    | (ok) c lo where "parse_lines cf c0 = Some (Inr (c, lo))" "parsed_ok (N + 1 + length (parse_text c0)) c"
    by (auto split: option.splits sum.splits)
  then show ?thesis
  proof cases
    case err
    with c0(1) show ?thesis by (simp add: http_request_parse_def)
  next
    case ok
    have "con_safe (N + 1 + length (parse_text c0)) (c\<lparr>header_len := pos lo\<rparr>)" using ok(2) by (simp add: parsed_ok_def)
    from finish_parse_safe [OF this, of cf "hflags lo"] obtain r c' where
      "finish_parse cf (c\<lparr>header_len := pos lo\<rparr>) (hflags lo) = Some (r, c')"
      "http_status c' \<noteq> 0 \<or> same_head (c\<lparr>header_len := pos lo\<rparr>) c' \<and> accepted cf r c'" by blast
    moreover from this ok(2) have "http_status c' \<noteq> 0 \<or> (uri (req c') = None \<or> valid_line c') \<and> accepted cf r c'"
      by (auto simp: parsed_ok_def same_head_def valid_line_def)
    ultimately show ?thesis using c0(1) ok(1) by (simp add: http_request_parse_def)
  qed
qed

section \<open>Properties\<close>


definition sample_con :: "char list \<Rightarrow> con" where
  "sample_con s =
     \<lparr>request_count = 1, raw_request = Some s, parse_text = [],
      req = \<lparr>request_line = None, uri = None, orig_uri = None, http_method = HTTP_METHOD_UNSET,
        http_version = HTTP_VERSION_UNSET, http_host = Null, http_range = Null, http_content_type = Null,
        http_if_modified_since = Null, http_if_none_match = Null, headers = array_init, content_length = 0\<rparr>,
      http_status = 0, keep_alive = 0, response_keep_alive = 0, header_len = 0, split_vals = array_init\<rparr>"

lemma sample_con_fresh: "fresh_con 0 (sample_con s)"
  using array_safe_init
  by (simp add: fresh_con_def sample_con_def con_base_def no_index_def array_init_def)

lemma sample_con_raw: "raw_request (sample_con s) = Some s"
  by (simp add: sample_con_def)

definition CRLF :: string where
  "CRLF = [CHR 0x0D, CHR 0x0A]"

definition sample_conf :: conf where
  "sample_conf = \<lparr>allow_http11 = True, reject_expect_100_with_417 = False, max_request_size = 0\<rparr>"


text \<open>C2: A request with a request line that is not answered with an error has a known method and version
  and a URI without control characters; an HTTP/1.1 request names a host; a host that is named has
  passed the host name check; and a body is announced only with a length between 1 and \<open>SSIZE_MAX\<close>
  within the configured limit, never for \<open>GET\<close> and \<open>HEAD\<close>.\<close>

theorem accepted_request_is_valid:
  assumes "fresh_con N con" and "raw_request con = Some s" and "N + length s + 5 < 2 ^ 31 - 1"
    and "\<not> comma_field s" and "http_request_parse cf con = Some (r, c)" and "http_status c = 0" and "uri (req c) \<noteq> None"
  shows "http_method (req c) \<noteq> HTTP_METHOD_UNSET \<and> http_version (req c) \<noteq> HTTP_VERSION_UNSET \<and>
    list_all request_uri_is_valid_char (bval (uri (req c))) \<and>
    (http_version (req c) = HTTP_VERSION_1_1 \<longrightarrow> http_host (req c) \<noteq> Null) \<and>
    (http_host (req c) \<noteq> Null \<longrightarrow>
      (\<exists>h v. request_check_hostname (Some h) = (0, v) \<and> header_string c (http_host (req c)) = Some v)) \<and>
    (r \<noteq> 0 \<longrightarrow> r = 1 \<and> 0 < content_length (req c) \<and> content_length (req c) \<le> SSIZE_MAX \<and>
      (max_request_size cf \<noteq> 0 \<longrightarrow> content_length (req c) div 1024 \<le> max_request_size cf) \<and>
      http_method (req c) \<noteq> HTTP_METHOD_GET \<and> http_method (req c) \<noteq> HTTP_METHOD_HEAD)"
proof -
  obtain r' c' where *: "http_request_parse cf con = Some (r', c')"
      "http_status c' \<noteq> 0 \<or> (uri (req c') = None \<or> valid_line c') \<and> accepted cf r' c'"
    using http_request_parse_result [OF assms(1-4), of cf] by blast
  with assms(5-7) have "valid_line c" "accepted cf r c" by auto
  then show ?thesis by (simp add: valid_line_def accepted_def)
qed

definition sample_request :: string where
  "sample_request = ''GET / HTTP/1.0'' @ CRLF @ CRLF"

lemma sample_run:
  "map_option (\<lambda>(r, c). (r, http_status c, uri (req c))) (http_request_parse sample_conf (sample_con sample_request)) =
    Some (0, 0, Some ''/'')"
  by code_simp

theorem accepted_request_is_valid_witness:
  "\<exists>c. http_request_parse sample_conf (sample_con sample_request) = Some (0, c) \<and> http_status c = 0 \<and>
    http_method (req c) \<noteq> HTTP_METHOD_UNSET \<and> list_all request_uri_is_valid_char (bval (uri (req c)))"
proof -
  obtain c where c: "http_request_parse sample_conf (sample_con sample_request) = Some (0, c)" "http_status c = 0"
      "uri (req c) = Some ''/''"
    using sample_run by auto
  have "\<not> comma_field sample_request" "0 + length sample_request + 5 < 2 ^ 31 - 1"
    by (simp_all add: sample_request_def CRLF_def)
  with accepted_request_is_valid [OF sample_con_fresh sample_con_raw _ _ c(1,2)] c show ?thesis by simp
qed



end
