(* ===== verification/Chunk.thy ===== *)
theory Chunk imports Data_Array begin

text \<open>
  The chunk queues of \<open>src/src/chunk.c\<close>: linked lists of memory and file chunks that hold what was read
  from a connection, the request body, and what is to be written. A queue owns its chunks, so the
  record \<open>chunkqueue\<close> carries the part of the heap they live in (\<open>cells\<close>, addressed by numbers; \<open>fresh\<close>
  is the next address \<open>calloc\<close> hands out) and the log of the system calls that its chunks caused.
  \<open>cq_repr\<close> relates a queue to the list of its pending chunks and the list of its recycled ones; each
  operation refines the list operation it stands for, and every loop over the links ends.
\<close>

section \<open>State\<close>

datatype chunk_type = UNUSED_CHUNK | MEM_CHUNK | FILE_CHUNK

record mmap_area =
  mm_start :: "nat option"  \<comment> \<open>\<open>None\<close> is \<open>MAP_FAILED\<close>\<close>
  mm_length :: nat
  mm_offset :: int

record chunk_file =
  fname :: bufp
  fstart :: int
  flength :: int
  ffd :: int
  fmmap :: mmap_area
  is_temp :: bool

record chunk =
  ctype :: chunk_type
  cmem :: bufp
  cfile :: chunk_file
  coffset :: int
  cnext :: "nat option"

datatype sys_call = Sys_unlink "char list" | Sys_close int | Sys_munmap nat nat

type_synonym chunk_heap = "nat \<Rightarrow> chunk option"

record chunkqueue =
  cq_first :: "nat option"
  cq_last :: "nat option"
  cq_unused :: "nat option"
  unused_chunks :: nat
  tempdirs :: "array option"
  bytes_in :: int
  bytes_out :: int
  cells :: chunk_heap
  fresh :: nat
  sys_log :: "sys_call list"

section \<open>Operations\<close>

definition chunkqueue_init :: chunkqueue where
  "chunkqueue_init = \<lparr>cq_first = None, cq_last = None, cq_unused = None, unused_chunks = 0,
     tempdirs = None, bytes_in = 0, bytes_out = 0, cells = Map.empty, fresh = 0, sys_log = []\<rparr>"

definition chunk_init :: chunk where
  "chunk_init = \<lparr>ctype = UNUSED_CHUNK, cmem = Some buffer_init,
     cfile = \<lparr>fname = Some buffer_init, fstart = 0, flength = 0, ffd = -1,
       fmmap = \<lparr>mm_start = None, mm_length = 0, mm_offset = 0\<rparr>, is_temp = False\<rparr>,
     coffset = 0, cnext = None\<rparr>"

text \<open>\<open>free(c)\<close>: the address is no longer valid.\<close>

definition chunk_free :: "nat \<Rightarrow> chunk_heap \<Rightarrow> chunk_heap option" where
  "chunk_free a h = (case h a of None \<Rightarrow> None | Some k \<Rightarrow> Some (h(a := None)))"

text \<open>The string \<open>b->ptr\<close> as a system call sees it.\<close>

definition buffer_cstr :: "buffer \<Rightarrow> char list option" where
  "buffer_cstr b = do { l \<leftarrow> cell_strlen (bptr b); mread_init 0 l (bptr b) }"

definition unlink_temp :: "chunk_file \<Rightarrow> sys_call list option" where
  "unlink_temp f =
     (if is_temp f \<and> \<not> buffer_is_empty (fname f)
      then do { b \<leftarrow> fname f; s \<leftarrow> buffer_cstr b; Some [Sys_unlink s] } else Some [])"

definition chunk_reset :: "chunk \<Rightarrow> (chunk \<times> sys_call list) option" where
  "chunk_reset c = do {
     m \<leftarrow> buffer_reset (cmem c);
     log1 \<leftarrow> unlink_temp (cfile c);
     nm \<leftarrow> buffer_reset (fname (cfile c));
     let f = (cfile c)\<lparr>fname := nm\<rparr>;
     let log2 = (if ffd f \<noteq> -1 then [Sys_close (ffd f)] else []);
     let f = (if ffd f \<noteq> -1 then f\<lparr>ffd := -1\<rparr> else f);
     let log3 = (case mm_start (fmmap f) of Some p \<Rightarrow> [Sys_munmap p (mm_length (fmmap f))] | None \<Rightarrow> []);
     let f = f\<lparr>fmmap := (fmmap f)\<lparr>mm_start := None\<rparr>\<rparr>;
     Some (c\<lparr>cmem := m, cfile := f\<rparr>, log1 @ log2 @ log3) }"

partial_function (option) free_chunks :: "chunk_heap \<Rightarrow> nat option \<Rightarrow> chunk_heap option" where
  [code]: "free_chunks h p = (case p of
     None \<Rightarrow> Some h
   | Some a \<Rightarrow> Option.bind (h a) (\<lambda>k. Option.bind (chunk_free a h) (\<lambda>h. free_chunks h (cnext k))))"

text \<open>What is left of the queue's heap.\<close>

definition chunkqueue_free :: "chunkqueue \<Rightarrow> chunk_heap option" where
  "chunkqueue_free cq = do { h \<leftarrow> free_chunks (cells cq) (cq_first cq); free_chunks h (cq_unused cq) }"

text \<open>\<open>cq->unused_chunks--\<close> on a 32 bit \<open>size_t\<close>.\<close>

definition size_dec :: "nat \<Rightarrow> nat" where
  "size_dec n = (if n = 0 then 2 ^ 32 - 1 else n - 1)"

definition chunkqueue_get_unused_chunk :: "chunkqueue \<Rightarrow> (nat \<times> chunkqueue) option" where
  "chunkqueue_get_unused_chunk cq =
     (case cq_unused cq of
        None \<Rightarrow> Some (fresh cq, cq\<lparr>cells := (cells cq)(fresh cq \<mapsto> chunk_init), fresh := fresh cq + 1\<rparr>)
      | Some a \<Rightarrow> do {
          c \<leftarrow> cells cq a;
          Some (a, cq\<lparr>cq_unused := cnext c, cells := (cells cq)(a \<mapsto> c\<lparr>cnext := None\<rparr>),
                      unused_chunks := size_dec (unused_chunks cq)\<rparr>) })"

definition chunkqueue_prepend_chunk :: "nat \<Rightarrow> chunkqueue \<Rightarrow> chunkqueue option" where
  "chunkqueue_prepend_chunk a cq = do {
     c \<leftarrow> cells cq a;
     Some (cq\<lparr>cells := (cells cq)(a \<mapsto> c\<lparr>cnext := cq_first cq\<rparr>), cq_first := Some a,
              cq_last := (if cq_last cq = None then Some a else cq_last cq)\<rparr>) }"

definition chunkqueue_append_chunk :: "nat \<Rightarrow> chunkqueue \<Rightarrow> chunkqueue option" where
  "chunkqueue_append_chunk a cq = do {
     h \<leftarrow> (case cq_last cq of
            Some l \<Rightarrow> do { c \<leftarrow> cells cq l; Some ((cells cq)(l \<mapsto> c\<lparr>cnext := Some a\<rparr>)) }
          | None \<Rightarrow> Some (cells cq));
     Some (cq\<lparr>cells := h, cq_last := Some a,
              cq_first := (if cq_first cq = None then Some a else cq_first cq)\<rparr>) }"

text \<open>\<open>c->offset = c->mem->used - 1\<close> is computed in \<open>size_t\<close>; chunks of another type are left alone.\<close>

definition mark_written :: "chunk \<Rightarrow> chunk option" where
  "mark_written c =
     (case ctype c of
        MEM_CHUNK \<Rightarrow> do { b \<leftarrow> cmem c; Some (c\<lparr>coffset := int (size_dec (bused b))\<rparr>) }
      | FILE_CHUNK \<Rightarrow> Some (c\<lparr>coffset := flength (cfile c)\<rparr>)
      | UNUSED_CHUNK \<Rightarrow> Some c)"

partial_function (option) mark_all_written :: "chunk_heap \<Rightarrow> nat option \<Rightarrow> chunk_heap option" where
  [code]: "mark_all_written h p = (case p of
     None \<Rightarrow> Some h
   | Some a \<Rightarrow> Option.bind (h a) (\<lambda>c. Option.bind (mark_written c) (\<lambda>c. mark_all_written (h(a \<mapsto> c)) (cnext c))))"

definition is_finished :: "chunk \<Rightarrow> bool option" where
  "is_finished c =
     (case ctype c of
        MEM_CHUNK \<Rightarrow> do { b \<leftarrow> cmem c; Some (bused b = 0 \<or> coffset c = int (bused b) - 1) }
      | FILE_CHUNK \<Rightarrow> Some (coffset c = flength (cfile c))
      | UNUSED_CHUNK \<Rightarrow> Some False)"

text \<open>The first chunk leaves the queue; up to five are recycled, the others freed.\<close>

definition drop_first :: "nat \<Rightarrow> chunk \<Rightarrow> chunkqueue \<Rightarrow> chunkqueue option" where
  "drop_first a c0 cq = do {
     (c, calls) \<leftarrow> chunk_reset c0;
     let cq = cq\<lparr>cells := (cells cq)(a \<mapsto> c), sys_log := sys_log cq @ calls\<rparr>;
     let cq = cq\<lparr>cq_first := cnext c, cq_last := (if Some a = cq_last cq then None else cq_last cq)\<rparr>;
     if unused_chunks cq > 4 then do { h \<leftarrow> chunk_free a (cells cq); Some (cq\<lparr>cells := h\<rparr>) }
     else Some (cq\<lparr>cells := (cells cq)(a \<mapsto> c\<lparr>cnext := cq_unused cq\<rparr>), cq_unused := Some a,
                   unused_chunks := unused_chunks cq + 1\<rparr>) }"

partial_function (option) chunkqueue_remove_finished_chunks :: "chunkqueue \<Rightarrow> chunkqueue option" where
  [code]: "chunkqueue_remove_finished_chunks cq = (case cq_first cq of
     None \<Rightarrow> Some cq
   | Some a \<Rightarrow> Option.bind (cells cq a) (\<lambda>c. Option.bind (is_finished c) (\<lambda>fin.
       if \<not> fin then Some cq
       else Option.bind (drop_first a c cq) chunkqueue_remove_finished_chunks)))"

definition chunkqueue_reset :: "chunkqueue \<Rightarrow> chunkqueue option" where
  "chunkqueue_reset cq = do {
     h \<leftarrow> mark_all_written (cells cq) (cq_first cq);
     cq \<leftarrow> chunkqueue_remove_finished_chunks (cq\<lparr>cells := h\<rparr>);
     Some (cq\<lparr>bytes_in := 0, bytes_out := 0\<rparr>) }"

definition chunkqueue_append_file :: "chunkqueue \<Rightarrow> bufp \<Rightarrow> int \<Rightarrow> int \<Rightarrow> chunkqueue option" where
  "chunkqueue_append_file cq fn off len =
     (if len = 0 then Some cq
      else do {
        (a, cq) \<leftarrow> chunkqueue_get_unused_chunk cq;
        c \<leftarrow> cells cq a;
        (r, nm) \<leftarrow> buffer_copy_string_buffer (fname (cfile c)) fn;
        let c = c\<lparr>ctype := FILE_CHUNK, cfile := (cfile c)\<lparr>fname := nm, fstart := off, flength := len\<rparr>,
                  coffset := 0\<rparr>;
        chunkqueue_append_chunk a (cq\<lparr>cells := (cells cq)(a \<mapsto> c)\<rparr>) })"

text \<open>The memory chunk that \<open>fill\<close> makes of the recycled buffer, linked in by \<open>link\<close>.\<close>

definition new_mem_chunk ::
  "(nat \<Rightarrow> chunkqueue \<Rightarrow> chunkqueue option) \<Rightarrow> (bufp \<Rightarrow> bufp option) \<Rightarrow> chunkqueue \<Rightarrow> (nat \<times> chunkqueue) option" where
  "new_mem_chunk link fill cq = do {
     (a, cq) \<leftarrow> chunkqueue_get_unused_chunk cq;
     c \<leftarrow> cells cq a;
     m \<leftarrow> fill (cmem c);
     let c = c\<lparr>ctype := MEM_CHUNK, coffset := 0, cmem := m\<rparr>;
     cq \<leftarrow> link a (cq\<lparr>cells := (cells cq)(a \<mapsto> c)\<rparr>);
     Some (a, cq) }"

definition chunkqueue_append_buffer :: "chunkqueue \<Rightarrow> buffer \<Rightarrow> chunkqueue option" where
  "chunkqueue_append_buffer cq mem =
     (if bused mem = 0 then Some cq
      else map_option snd (new_mem_chunk chunkqueue_append_chunk
        (\<lambda>m. map_option snd (buffer_copy_string_buffer m (Some mem))) cq))"

text \<open>The queue takes the buffer over and frees its own.\<close>

definition chunkqueue_append_buffer_weak :: "chunkqueue \<Rightarrow> bufp \<Rightarrow> chunkqueue option" where
  "chunkqueue_append_buffer_weak cq mem =
     map_option snd (new_mem_chunk chunkqueue_append_chunk (\<lambda>m. Some mem) cq)"

definition chunkqueue_prepend_buffer :: "chunkqueue \<Rightarrow> buffer \<Rightarrow> chunkqueue option" where
  "chunkqueue_prepend_buffer cq mem =
     (if bused mem = 0 then Some cq
      else map_option snd (new_mem_chunk chunkqueue_prepend_chunk
        (\<lambda>m. map_option snd (buffer_copy_string_buffer m (Some mem))) cq))"

definition chunkqueue_append_mem :: "chunkqueue \<Rightarrow> cell list \<Rightarrow> nat \<Rightarrow> chunkqueue option" where
  "chunkqueue_append_mem cq mem len =
     (if len = 0 then Some cq
      else map_option snd (new_mem_chunk chunkqueue_append_chunk
        (\<lambda>m. map_option snd (buffer_copy_string_len m (Some mem) (len - 1))) cq))"

text \<open>Both return the address of the new chunk, whose buffer the caller fills.\<close>

definition chunkqueue_get_prepend_buffer :: "chunkqueue \<Rightarrow> (nat \<times> chunkqueue) option" where
  "chunkqueue_get_prepend_buffer cq = new_mem_chunk chunkqueue_prepend_chunk buffer_reset cq"

definition chunkqueue_get_append_buffer :: "chunkqueue \<Rightarrow> (nat \<times> chunkqueue) option" where
  "chunkqueue_get_append_buffer cq = new_mem_chunk chunkqueue_append_chunk buffer_reset cq"

definition chunkqueue_set_tempdirs :: "chunkqueue option \<Rightarrow> array option \<Rightarrow> int \<times> chunkqueue option" where
  "chunkqueue_set_tempdirs cqo dirs =
     (case cqo of None \<Rightarrow> (-1, None) | Some cq \<Rightarrow> (0, Some (cq\<lparr>tempdirs := dirs\<rparr>)))"

section \<open>Temporary files\<close>

definition append_slash :: "bstr \<Rightarrow> bstr" where
  "append_slash v = (if bval v \<noteq> [] \<and> List.last (bval v) \<noteq> CHR ''/'' then bcat v ''/'' else v)"

definition tempdir_value :: "data_unset \<Rightarrow> bstr option" where
  "tempdir_value d = (case dvalue d of Data_String v \<Rightarrow> Some v | _ \<Rightarrow> None)"

text \<open>\<open>mkstemp\<close> is the parameter \<open>mk\<close>: the descriptor and the name it made of the template. The loop
  returns the descriptor and the last name tried.\<close>

fun try_tempdirs :: "(char list \<Rightarrow> int \<times> char list) \<Rightarrow> array \<Rightarrow> nat list \<Rightarrow> int \<times> char list \<Rightarrow> (int \<times> char list) option" where
  "try_tempdirs mk dirs [] res = Some res"
| "try_tempdirs mk dirs (i # is) res = do {
     so \<leftarrow> slot dirs i;
     ds \<leftarrow> so;
     v \<leftarrow> tempdir_value ds;
     let template = bval (bcat (append_slash v) ''lighttpd-upload-XXXXXX'');
     let (fd, nm) = mk template;
     if fd \<noteq> -1 then Some (fd, nm) else try_tempdirs mk dirs is (fd, nm) }"

definition make_tempfile :: "(char list \<Rightarrow> int \<times> char list) \<Rightarrow> chunkqueue \<Rightarrow> int \<Rightarrow> (int \<times> char list) option" where
  "make_tempfile mk cq fd0 =
     (case tempdirs cq of
        Some dirs \<Rightarrow>
          if used dirs \<noteq> 0
          then try_tempdirs mk dirs [0..<used dirs] (fd0, ''/var/tmp/lighttpd-upload-XXXXXX'')
          else Some (mk ''/var/tmp/lighttpd-upload-XXXXXX'')
      | None \<Rightarrow> Some (mk ''/var/tmp/lighttpd-upload-XXXXXX''))"

definition chunkqueue_get_append_tempfile ::
  "(char list \<Rightarrow> int \<times> char list) \<Rightarrow> chunkqueue \<Rightarrow> (nat \<times> chunkqueue) option" where
  "chunkqueue_get_append_tempfile mk cq = do {
     (a, cq) \<leftarrow> chunkqueue_get_unused_chunk cq;
     c \<leftarrow> cells cq a;
     (fd, template) \<leftarrow> make_tempfile mk cq (ffd (cfile c));
     (r, nm) \<leftarrow> buffer_copy_string_len (fname (cfile c)) (Some (map Some template)) (length template);
     let f = (cfile c)\<lparr>ffd := fd, is_temp := (if fd \<noteq> -1 then True else is_temp (cfile c)),
                       fname := nm, flength := 0\<rparr>;
     cq \<leftarrow> chunkqueue_append_chunk a (cq\<lparr>cells := (cells cq)(a \<mapsto> c\<lparr>ctype := FILE_CHUNK, coffset := 0, cfile := f\<rparr>)\<rparr>);
     Some (a, cq) }"

section \<open>Counting\<close>

definition chunk_length :: "chunk \<Rightarrow> int option" where
  "chunk_length c =
     (case ctype c of
        MEM_CHUNK \<Rightarrow> do { b \<leftarrow> cmem c; Some (if bused b \<noteq> 0 then int (bused b) - 1 else 0) }
      | FILE_CHUNK \<Rightarrow> Some (flength (cfile c))
      | UNUSED_CHUNK \<Rightarrow> Some 0)"

definition chunk_written :: "chunk \<Rightarrow> int option" where
  "chunk_written c = Some (case ctype c of UNUSED_CHUNK \<Rightarrow> 0 | _ \<Rightarrow> coffset c)"

partial_function (option) sum_chunks :: "(chunk \<Rightarrow> int option) \<Rightarrow> chunk_heap \<Rightarrow> nat option \<Rightarrow> int \<Rightarrow> int option" where
  [code]: "sum_chunks f h p len = (case p of
     None \<Rightarrow> Some len
   | Some a \<Rightarrow> Option.bind (h a) (\<lambda>c. Option.bind (f c) (\<lambda>n. sum_chunks f h (cnext c) (len + n))))"

definition chunkqueue_length :: "chunkqueue \<Rightarrow> int option" where
  "chunkqueue_length cq = sum_chunks chunk_length (cells cq) (cq_first cq) 0"

definition chunkqueue_written :: "chunkqueue \<Rightarrow> int option" where
  "chunkqueue_written cq = sum_chunks chunk_written (cells cq) (cq_first cq) 0"

definition chunkqueue_is_empty :: "chunkqueue \<Rightarrow> bool" where
  "chunkqueue_is_empty cq \<longleftrightarrow> cq_first cq = None"

section \<open>Chains of chunks\<close>

fun chain :: "chunk_heap \<Rightarrow> nat option \<Rightarrow> nat list \<Rightarrow> bool" where
  "chain h p [] \<longleftrightarrow> p = None"
| "chain h p (a # as) \<longleftrightarrow> p = Some a \<and> (\<exists>c. h a = Some c \<and> chain h (cnext c) as)"

lemma chain_upd [simp]: "a \<notin> set as \<Longrightarrow> chain (h(a := x)) p as = chain h p as"
  by (induction as arbitrary: p) auto

lemma chain_None [simp]: "chain h None as \<longleftrightarrow> as = []"
  by (cases as) auto

lemma chain_Some: "chain h (Some a) as \<longleftrightarrow> (\<exists>c bs. as = a # bs \<and> h a = Some c \<and> chain h (cnext c) bs)"
  by (cases as) auto

lemma chain_alloc: "chain h p as \<Longrightarrow> a \<in> set as \<Longrightarrow> \<exists>c. h a = Some c"
  by (induction as arbitrary: p) auto

lemma chain_snoc:
  assumes "chain h p (as @ [l])" and "distinct (as @ [l])" and "a \<notin> set (as @ [l])"
    and "h l = Some c" and "h a = Some k" and "cnext k = None"
  shows "chain (h(l \<mapsto> c\<lparr>cnext := Some a\<rparr>)) p (as @ [l, a])"
  using assms by (induction as arbitrary: p) auto

text \<open>A change that keeps the links keeps the chains.\<close>

lemma chain_same_next:
  "h a = Some c \<Longrightarrow> cnext c' = cnext c \<Longrightarrow> chain (h(a \<mapsto> c')) p as = chain h p as"
  by (induction as arbitrary: p) auto

section \<open>Invariant\<close>

definition buffer_bstr :: "bufp \<Rightarrow> bstr" where
  "buffer_bstr bo = (case bo of
     None \<Rightarrow> None
   | Some b \<Rightarrow> if bused b = 0 then None else Some (map the (take (bused b - 1) (bptr b))))"

lemma buffer_bstr_repr [simp]: "buf_repr b v \<Longrightarrow> buffer_bstr (Some b) = v"
proof (cases v)
  case (Some s)
  assume "buf_repr b v"
  with Some buf_repr_SomeD [of b s] show ?thesis by (simp add: buffer_bstr_def comp_def)
qed (simp add: buffer_bstr_def buf_repr_def)

definition is_string :: "bufp \<Rightarrow> bool" where
  "is_string bo \<longleftrightarrow> (\<exists>b v. bo = Some b \<and> buf_repr b v)"

definition chunk_ok :: "chunk \<Rightarrow> bool" where
  "chunk_ok c \<longleftrightarrow> is_string (cmem c) \<and> is_string (fname (cfile c))"

text \<open>\<open>as\<close> are the pending chunks in order, \<open>us\<close> the recycled ones, \<open>xs\<close> chunks taken out but not linked in.\<close>

definition cq_shape :: "chunkqueue \<Rightarrow> nat list \<Rightarrow> nat list \<Rightarrow> nat list \<Rightarrow> bool" where
  "cq_shape cq as us xs \<longleftrightarrow>
     chain (cells cq) (cq_first cq) as \<and> chain (cells cq) (cq_unused cq) us \<and>
     distinct (as @ us @ xs) \<and> dom (cells cq) = set (as @ us @ xs) \<and>
     (\<forall>a \<in> set (as @ us @ xs). a < fresh cq) \<and>
     cq_last cq = (if as = [] then None else Some (List.last as)) \<and>
     unused_chunks cq = length us \<and> length us \<le> 5 \<and>
     (\<forall>a c. cells cq a = Some c \<longrightarrow> chunk_ok c \<and> (a \<in> set as \<longrightarrow> ctype c \<noteq> UNUSED_CHUNK))"

datatype chunk_data = Mem_Data bstr | File_Data bstr int int

definition chunk_value :: "chunk \<Rightarrow> chunk_data \<times> int" where
  "chunk_value c =
     (case ctype c of
        FILE_CHUNK \<Rightarrow> File_Data (buffer_bstr (fname (cfile c))) (fstart (cfile c)) (flength (cfile c))
      | _ \<Rightarrow> Mem_Data (buffer_bstr (cmem c)), coffset c)"

lemma chunk_value_next [simp]: "chunk_value (c\<lparr>cnext := p\<rparr>) = chunk_value c"
  by (simp add: chunk_value_def split: chunk_type.splits)

definition contents :: "chunkqueue \<Rightarrow> nat list \<Rightarrow> (chunk_data \<times> int) list" where
  "contents cq as = map (\<lambda>a. chunk_value (the (cells cq a))) as"

lemma cq_shapeD:
  assumes "cq_shape cq as us xs"
  shows "chain (cells cq) (cq_first cq) as" "chain (cells cq) (cq_unused cq) us"
    "distinct (as @ us @ xs)" "dom (cells cq) = set (as @ us @ xs)"
    "\<forall>a \<in> set (as @ us @ xs). a < fresh cq" "cq_last cq = (if as = [] then None else Some (List.last as))"
    "unused_chunks cq = length us" "length us \<le> 5"
    "cells cq a = Some c \<Longrightarrow> chunk_ok c"
    "cells cq a = Some c \<Longrightarrow> a \<in> set as \<Longrightarrow> ctype c \<noteq> UNUSED_CHUNK"
    "a \<in> set (as @ us @ xs) \<Longrightarrow> \<exists>c. cells cq a = Some c"
  using assms unfolding cq_shape_def by (auto dest: chain_alloc)

lemma is_string_init [simp]: "is_string (Some buffer_init)"
  using buf_repr_init unfolding is_string_def by blast

lemma chunk_ok_init: "chunk_ok chunk_init"
  by (simp add: chunk_ok_def chunk_init_def)

lemma chunkqueue_init_shape: "cq_shape chunkqueue_init [] [] []"
  by (simp add: cq_shape_def chunkqueue_init_def)

lemma contents_upd: "a \<notin> set as \<Longrightarrow> contents (cq\<lparr>cells := (cells cq)(a \<mapsto> c)\<rparr>) as = contents cq as"
  by (auto simp: contents_def)

lemma get_unused_shape:
  assumes "cq_shape cq as us []"
  shows "\<exists>a cq' c. chunkqueue_get_unused_chunk cq = Some (a, cq') \<and> cq_shape cq' as (tl us) [a] \<and>
    cells cq' a = Some c \<and> cnext c = None \<and> contents cq' as = contents cq as \<and> cq_first cq' = cq_first cq \<and>
    tempdirs cq' = tempdirs cq \<and> bytes_in cq' = bytes_in cq \<and> bytes_out cq' = bytes_out cq \<and> sys_log cq' = sys_log cq"
proof (cases us)
  case Nil
  note sh = cq_shapeD [OF assms]
  have new: "fresh cq \<notin> set as" using sh(5) Nil by auto
  define cq' where "cq' = cq\<lparr>cells := (cells cq)(fresh cq \<mapsto> chunk_init), fresh := fresh cq + 1\<rparr>"
  have "cq_shape cq' as [] [fresh cq]"
    unfolding cq_shape_def using new sh(1-8) Nil sh(9,10)
    by (auto simp: cq'_def chunk_ok_init)
  moreover have "contents cq' as = contents cq as" using new by (auto simp: cq'_def contents_def)
  ultimately show ?thesis using sh(2) Nil
    by (auto simp: chunkqueue_get_unused_chunk_def cq'_def chunk_init_def)
next
  case (Cons a vs)
  note sh = cq_shapeD [OF assms]
  from sh(2) Cons obtain c where c: "cq_unused cq = Some a" "cells cq a = Some c" "chain (cells cq) (cnext c) vs"
    by (auto simp: chain_Some)
  have notin: "a \<notin> set as" "a \<notin> set vs" using sh(3) Cons by auto
  define cq' where "cq' = cq\<lparr>cq_unused := cnext c, cells := (cells cq)(a \<mapsto> c\<lparr>cnext := None\<rparr>),
    unused_chunks := size_dec (unused_chunks cq)\<rparr>"
  have ok: "chunk_ok (c\<lparr>cnext := None\<rparr>)" using sh(9) [OF c(2)] by (simp add: chunk_ok_def)
  have "cq_shape cq' as vs [a]"
    unfolding cq_shape_def using c notin sh(1-8) Cons sh(9,10) ok
    by (auto simp: cq'_def size_dec_def)
  moreover have "contents cq' as = contents cq as" using notin by (auto simp: cq'_def contents_def)
  ultimately show ?thesis using c Cons by (auto simp: chunkqueue_get_unused_chunk_def cq'_def)
qed

lemma shape_upd_free:
  assumes "cq_shape cq as us [a]" and "chunk_ok c"
  shows "cq_shape (cq\<lparr>cells := (cells cq)(a \<mapsto> c)\<rparr>) as us [a]"
  using cq_shapeD [OF assms(1)] assms(2) unfolding cq_shape_def by auto

lemma append_chunk_shape:
  assumes sh0: "cq_shape cq as us [a]" and a: "cells cq a = Some c" "cnext c = None" "ctype c \<noteq> UNUSED_CHUNK"
  shows "\<exists>cq'. chunkqueue_append_chunk a cq = Some cq' \<and> cq_shape cq' (as @ [a]) us [] \<and>
    contents cq' (as @ [a]) = contents cq as @ [chunk_value c] \<and> tempdirs cq' = tempdirs cq \<and>
    bytes_in cq' = bytes_in cq \<and> bytes_out cq' = bytes_out cq \<and> sys_log cq' = sys_log cq"
proof (cases as rule: rev_cases)
  case Nil
  note sh = cq_shapeD [OF sh0]
  define cq' where "cq' = cq\<lparr>cq_last := Some a, cq_first := Some a\<rparr>"
  have "cq_shape cq' [a] us []"
    unfolding cq_shape_def using sh(1-8) Nil sh(9,10) a by (auto simp: cq'_def)
  moreover have "chunkqueue_append_chunk a cq = Some cq'"
    using sh(1,6) Nil by (simp add: chunkqueue_append_chunk_def cq'_def)
  ultimately show ?thesis using Nil a(1) by (auto simp: cq'_def contents_def)
next
  case (snoc bs l)
  note sh = cq_shapeD [OF sh0]
  obtain k where k: "cells cq l = Some k" using sh(11) snoc by force
  define cq' where "cq' = cq\<lparr>cells := (cells cq)(l \<mapsto> k\<lparr>cnext := Some a\<rparr>), cq_last := Some a\<rparr>"
  have d: "distinct (bs @ [l])" "a \<notin> set (bs @ [l])" "l \<notin> set us" "a \<noteq> l" "a \<notin> set us" "l \<notin> set bs"
    using sh(3) snoc by auto
  have "chain (cells cq') (cq_first cq) (as @ [a])"
    using chain_snoc [OF _ d(1,2) k a(1,2)] sh(1) snoc by (simp add: cq'_def)
  moreover have "chain (cells cq') (cq_unused cq) us" using sh(2) d by (simp add: cq'_def)
  moreover have first: "cq_first cq \<noteq> None" using sh(1) snoc by (cases bs) auto
  moreover have kok: "chunk_ok (k\<lparr>cnext := Some a\<rparr>)" "ctype k \<noteq> UNUSED_CHUNK"
    using sh(9) [OF k] sh(10) [OF k] snoc by (auto simp: chunk_ok_def)
  have dom: "dom (cells cq') = set (as @ [a] @ us)"
    using sh(4) k snoc by (auto simp: cq'_def)
  have "cq_shape cq' (as @ [a]) us []"
    unfolding cq_shape_def using calculation dom sh(3,5,7,8) sh(9,10) kok a by (auto simp: cq'_def)
  moreover have "chunkqueue_append_chunk a cq = Some cq'"
    using sh(6) snoc k first by (simp add: chunkqueue_append_chunk_def cq'_def)
  moreover have "contents cq' (as @ [a]) = contents cq as @ [chunk_value c]"
    using snoc d k a(1) by (auto simp: contents_def cq'_def)
  ultimately show ?thesis by (auto simp: cq'_def)
qed

lemma prepend_chunk_shape:
  assumes sh0: "cq_shape cq as us [a]" and a: "cells cq a = Some c" "ctype c \<noteq> UNUSED_CHUNK"
  shows "\<exists>cq'. chunkqueue_prepend_chunk a cq = Some cq' \<and> cq_shape cq' (a # as) us [] \<and>
    contents cq' (a # as) = chunk_value c # contents cq as \<and> tempdirs cq' = tempdirs cq \<and>
    bytes_in cq' = bytes_in cq \<and> bytes_out cq' = bytes_out cq \<and> sys_log cq' = sys_log cq"
proof -
  note sh = cq_shapeD [OF sh0]
  define cq' where "cq' = cq\<lparr>cells := (cells cq)(a \<mapsto> c\<lparr>cnext := cq_first cq\<rparr>), cq_first := Some a,
    cq_last := (if cq_last cq = None then Some a else cq_last cq)\<rparr>"
  have d: "a \<notin> set as" "a \<notin> set us" using sh(3) by auto
  have ok: "chunk_ok (c\<lparr>cnext := cq_first cq\<rparr>)" using sh(9) [OF a(1)] by (simp add: chunk_ok_def)
  have "cq_shape cq' (a # as) us []"
    unfolding cq_shape_def using sh(1-8) sh(9,10) a d ok by (auto simp: cq'_def)
  moreover have "chunkqueue_prepend_chunk a cq = Some cq'" using a by (simp add: chunkqueue_prepend_chunk_def cq'_def)
  moreover have "contents cq' (a # as) = chunk_value c # contents cq as"
    using d by (auto simp: contents_def cq'_def)
  ultimately show ?thesis by (auto simp: cq'_def)
qed

section \<open>Refinement of the operations\<close>

text \<open>What stays the same when a chunk is linked in.\<close>

definition same_rest :: "chunkqueue \<Rightarrow> chunkqueue \<Rightarrow> bool" where
  "same_rest cq cq' \<longleftrightarrow> tempdirs cq' = tempdirs cq \<and> bytes_in cq' = bytes_in cq \<and>
     bytes_out cq' = bytes_out cq \<and> sys_log cq' = sys_log cq"

definition fills :: "(bufp \<Rightarrow> bufp option) \<Rightarrow> bstr \<Rightarrow> bool" where
  "fills f v \<longleftrightarrow> (\<forall>b w. buf_repr b w \<longrightarrow> (\<exists>b'. f (Some b) = Some (Some b') \<and> buf_repr b' v))"

lemma fillsI: "(\<And>b. buf_wf b \<Longrightarrow> \<exists>b'. f (Some b) = Some (Some b') \<and> buf_repr b' v) \<Longrightarrow> fills f v"
  unfolding fills_def using buf_repr_wf by blast

lemma fills_copy_string_len: "n \<le> length s \<Longrightarrow>
    fills (\<lambda>m. map_option snd (buffer_copy_string_len m (Some (map Some s)) n)) (Some (take n s))"
  by (rule fillsI, drule buffer_copy_string_len_repr [where n = n and s = s]) auto

lemma fills_copy_buffer: "buf_repr src v \<Longrightarrow>
    fills (\<lambda>m. map_option snd (buffer_copy_string_buffer m (Some src))) v"
  by (rule fillsI, drule buffer_copy_string_buffer_repr [where src = src and v = v]) auto

text \<open>A buffer of raw bytes loses its last byte.\<close>

lemma fills_copy_raw: "buf_mem src s \<Longrightarrow> s \<noteq> [] \<Longrightarrow>
    fills (\<lambda>m. map_option snd (buffer_copy_string_buffer m (Some src))) (Some (butlast s))"
  by (rule fillsI, drule buffer_copy_string_buffer_mem [where src = src and s = s]) auto

lemma fills_reset: "fills buffer_reset None"
  by (rule fillsI) (rule buffer_reset_repr)

lemma fills_weak: "buf_repr b v \<Longrightarrow> fills (\<lambda>m. Some (Some b)) v"
  unfolding fills_def by blast

lemma filled_chunk:
  assumes "chunk_ok c" and "fills fill v"
  shows "\<exists>m. fill (cmem c) = Some m \<and> chunk_ok (c\<lparr>ctype := t, coffset := off, cmem := m\<rparr>) \<and>
    chunk_value (c\<lparr>ctype := MEM_CHUNK, coffset := 0, cmem := m\<rparr>) = (Mem_Data v, 0)"
proof -
  obtain b w where b: "cmem c = Some b" "buf_repr b w" using assms(1) by (auto simp: chunk_ok_def is_string_def)
  then obtain b' where b': "fill (cmem c) = Some (Some b')" "buf_repr b' v"
    using assms(2) unfolding fills_def by fastforce
  then have "is_string (Some b')" unfolding is_string_def by blast
  with b' assms(1) show ?thesis by (auto simp: chunk_ok_def chunk_value_def)
qed

lemma new_mem_chunk_append:
  assumes "cq_shape cq as us []" and "fills fill v"
  shows "\<exists>a cq'. new_mem_chunk chunkqueue_append_chunk fill cq = Some (a, cq') \<and>
    cq_shape cq' (as @ [a]) (tl us) [] \<and> contents cq' (as @ [a]) = contents cq as @ [(Mem_Data v, 0)] \<and> same_rest cq cq'"
proof -
  from get_unused_shape [OF assms(1)] obtain a q1 c where
    g: "chunkqueue_get_unused_chunk cq = Some (a, q1)" "cq_shape q1 as (tl us) [a]" "cells q1 a = Some c"
      "cnext c = None" "contents q1 as = contents cq as" and same: "same_rest cq q1"
    unfolding same_rest_def by blast
  from filled_chunk [OF cq_shapeD(9) [OF g(2,3)] assms(2)] obtain m where
    m: "fill (cmem c) = Some m" "chunk_ok (c\<lparr>ctype := MEM_CHUNK, coffset := 0, cmem := m\<rparr>)"
      "chunk_value (c\<lparr>ctype := MEM_CHUNK, coffset := 0, cmem := m\<rparr>) = (Mem_Data v, 0)" by blast
  define d where "d = c\<lparr>ctype := MEM_CHUNK, coffset := 0, cmem := m\<rparr>"
  define q2 where "q2 = q1\<lparr>cells := (cells q1)(a \<mapsto> d)\<rparr>"
  have sh2: "cq_shape q2 as (tl us) [a]" unfolding q2_def by (rule shape_upd_free [OF g(2)]) (simp add: d_def m)
  have notin: "a \<notin> set as" using cq_shapeD(3) [OF g(2)] by auto
  have "cells q2 a = Some d" "cnext d = None" "ctype d \<noteq> UNUSED_CHUNK" using g by (auto simp: q2_def d_def)
  from append_chunk_shape [OF sh2 this] obtain cq' where
    cq': "chunkqueue_append_chunk a q2 = Some cq'" "cq_shape cq' (as @ [a]) (tl us) []"
      "contents cq' (as @ [a]) = contents q2 as @ [chunk_value d]" "same_rest q2 cq'"
    unfolding same_rest_def by blast
  have "contents q2 as = contents cq as" using contents_upd [OF notin, of q1 d] g(5) by (simp add: q2_def)
  moreover have "same_rest cq cq'" using same cq'(4) by (simp add: same_rest_def q2_def)
  moreover have "new_mem_chunk chunkqueue_append_chunk fill cq = Some (a, cq')"
    using g m cq'(1) by (simp add: new_mem_chunk_def d_def q2_def)
  ultimately show ?thesis using cq' m(3) by (auto simp: d_def)
qed

lemma new_mem_chunk_prepend:
  assumes "cq_shape cq as us []" and "fills fill v"
  shows "\<exists>a cq'. new_mem_chunk chunkqueue_prepend_chunk fill cq = Some (a, cq') \<and>
    cq_shape cq' (a # as) (tl us) [] \<and> contents cq' (a # as) = (Mem_Data v, 0) # contents cq as \<and> same_rest cq cq'"
proof -
  from get_unused_shape [OF assms(1)] obtain a q1 c where
    g: "chunkqueue_get_unused_chunk cq = Some (a, q1)" "cq_shape q1 as (tl us) [a]" "cells q1 a = Some c"
      "contents q1 as = contents cq as" and same: "same_rest cq q1"
    unfolding same_rest_def by blast
  from filled_chunk [OF cq_shapeD(9) [OF g(2,3)] assms(2)] obtain m where
    m: "fill (cmem c) = Some m" "chunk_ok (c\<lparr>ctype := MEM_CHUNK, coffset := 0, cmem := m\<rparr>)"
      "chunk_value (c\<lparr>ctype := MEM_CHUNK, coffset := 0, cmem := m\<rparr>) = (Mem_Data v, 0)" by blast
  define d where "d = c\<lparr>ctype := MEM_CHUNK, coffset := 0, cmem := m\<rparr>"
  define q2 where "q2 = q1\<lparr>cells := (cells q1)(a \<mapsto> d)\<rparr>"
  have sh2: "cq_shape q2 as (tl us) [a]" unfolding q2_def by (rule shape_upd_free [OF g(2)]) (simp add: d_def m)
  have notin: "a \<notin> set as" using cq_shapeD(3) [OF g(2)] by auto
  have "cells q2 a = Some d" "ctype d \<noteq> UNUSED_CHUNK" using g by (auto simp: q2_def d_def)
  from prepend_chunk_shape [OF sh2 this] obtain cq' where
    cq': "chunkqueue_prepend_chunk a q2 = Some cq'" "cq_shape cq' (a # as) (tl us) []"
      "contents cq' (a # as) = chunk_value d # contents q2 as" "same_rest q2 cq'"
    unfolding same_rest_def by blast
  have "contents q2 as = contents cq as" using contents_upd [OF notin, of q1 d] g(4) by (simp add: q2_def)
  moreover have "same_rest cq cq'" using same cq'(4) by (simp add: same_rest_def q2_def)
  moreover have "new_mem_chunk chunkqueue_prepend_chunk fill cq = Some (a, cq')"
    using g m cq'(1) by (simp add: new_mem_chunk_def d_def q2_def)
  ultimately show ?thesis using cq' m(3) by (auto simp: d_def)
qed

text \<open>The relation between a queue and its pending contents.\<close>

definition cq_repr :: "chunkqueue \<Rightarrow> (chunk_data \<times> int) list \<Rightarrow> bool" where
  "cq_repr cq ds \<longleftrightarrow> (\<exists>as us. cq_shape cq as us [] \<and> contents cq as = ds)"

lemma cq_repr_init: "cq_repr chunkqueue_init []"
  using chunkqueue_init_shape unfolding cq_repr_def contents_def by fastforce

lemma append_fill_repr:
  assumes "cq_repr cq ds" and "fills fill v"
  shows "\<exists>a cq'. new_mem_chunk chunkqueue_append_chunk fill cq = Some (a, cq') \<and>
    cq_repr cq' (ds @ [(Mem_Data v, 0)]) \<and> same_rest cq cq'"
proof -
  from assms(1) obtain as us where "cq_shape cq as us []" "contents cq as = ds" unfolding cq_repr_def by blast
  with new_mem_chunk_append [OF _ assms(2), of cq as us] show ?thesis unfolding cq_repr_def by blast
qed

lemma prepend_fill_repr:
  assumes "cq_repr cq ds" and "fills fill v"
  shows "\<exists>a cq'. new_mem_chunk chunkqueue_prepend_chunk fill cq = Some (a, cq') \<and>
    cq_repr cq' ((Mem_Data v, 0) # ds) \<and> same_rest cq cq'"
proof -
  from assms(1) obtain as us where "cq_shape cq as us []" "contents cq as = ds" unfolding cq_repr_def by blast
  with new_mem_chunk_prepend [OF _ assms(2), of cq as us] show ?thesis unfolding cq_repr_def by blast
qed

lemma chunkqueue_append_mem_repr:
  assumes "cq_repr cq ds" and "n \<le> Suc (length s)"
  shows "\<exists>cq'. chunkqueue_append_mem cq (map Some s) n = Some cq' \<and>
    cq_repr cq' (if n = 0 then ds else ds @ [(Mem_Data (Some (take (n - 1) s)), 0)]) \<and> same_rest cq cq'"
proof (cases "n = 0")
  case True
  with assms show ?thesis by (simp add: chunkqueue_append_mem_def same_rest_def)
next
  case False
  with assms(2) have "n - 1 \<le> length s" by simp
  from append_fill_repr [OF assms(1) fills_copy_string_len [OF this]] False
  show ?thesis by (auto simp: chunkqueue_append_mem_def)
qed

lemma chunkqueue_append_buffer_repr:
  assumes "cq_repr cq ds" and "buf_repr mem v"
  shows "\<exists>cq'. chunkqueue_append_buffer cq mem = Some cq' \<and>
    cq_repr cq' (if v = None then ds else ds @ [(Mem_Data v, 0)]) \<and> same_rest cq cq'"
proof (cases "v = None")
  case True
  with assms show ?thesis by (simp add: chunkqueue_append_buffer_def same_rest_def buf_repr_def)
next
  case False
  with assms(2) have "bused mem \<noteq> 0" by (auto simp: buf_repr_def)
  with append_fill_repr [OF assms(1) fills_copy_buffer [OF assms(2)]] False
  show ?thesis by (auto simp: chunkqueue_append_buffer_def)
qed

lemma chunkqueue_append_buffer_raw:
  assumes "cq_repr cq ds" and "buf_mem mem s" and "s \<noteq> []"
  shows "\<exists>cq'. chunkqueue_append_buffer cq mem = Some cq' \<and>
    cq_repr cq' (ds @ [(Mem_Data (Some (butlast s)), 0)]) \<and> same_rest cq cq'"
proof -
  have "bused mem \<noteq> 0" using assms(2,3) by (auto simp: buf_mem_def)
  with append_fill_repr [OF assms(1) fills_copy_raw [OF assms(2,3)]]
  show ?thesis by (auto simp: chunkqueue_append_buffer_def)
qed

lemma chunkqueue_prepend_buffer_repr:
  assumes "cq_repr cq ds" and "buf_repr mem v"
  shows "\<exists>cq'. chunkqueue_prepend_buffer cq mem = Some cq' \<and>
    cq_repr cq' (if v = None then ds else (Mem_Data v, 0) # ds) \<and> same_rest cq cq'"
proof (cases "v = None")
  case True
  with assms show ?thesis by (simp add: chunkqueue_prepend_buffer_def same_rest_def buf_repr_def)
next
  case False
  with assms(2) have "bused mem \<noteq> 0" by (auto simp: buf_repr_def)
  with prepend_fill_repr [OF assms(1) fills_copy_buffer [OF assms(2)]] False
  show ?thesis by (auto simp: chunkqueue_prepend_buffer_def)
qed

lemma chunkqueue_append_buffer_weak_repr:
  assumes "cq_repr cq ds" and "buf_repr mem v"
  shows "\<exists>cq'. chunkqueue_append_buffer_weak cq (Some mem) = Some cq' \<and>
    cq_repr cq' (ds @ [(Mem_Data v, 0)]) \<and> same_rest cq cq'"
  using append_fill_repr [OF assms(1) fills_weak [OF assms(2)]] by (auto simp: chunkqueue_append_buffer_weak_def)

section \<open>Removing what was sent\<close>

fun finished :: "chunk_data \<times> int \<Rightarrow> bool" where
  "finished (Mem_Data None, off) \<longleftrightarrow> True"
| "finished (Mem_Data (Some s), off) \<longleftrightarrow> off = int (length s)"
| "finished (File_Data nm st len, off) \<longleftrightarrow> off = len"

text \<open>The system calls a chunk owes when it is let go.\<close>

definition release_file :: "chunk_file \<Rightarrow> sys_call list" where
  "release_file f =
     (if is_temp f \<and> buffer_bstr (fname f) \<noteq> None then [Sys_unlink (cstr (bval (buffer_bstr (fname f))))] else []) @
     (if ffd f \<noteq> -1 then [Sys_close (ffd f)] else []) @
     (case mm_start (fmmap f) of Some p \<Rightarrow> [Sys_munmap p (mm_length (fmmap f))] | None \<Rightarrow> [])"

definition release :: "chunk \<Rightarrow> sys_call list" where
  "release c = release_file (cfile c)"

lemma release_next [simp]: "release (c\<lparr>cnext := p\<rparr>) = release c"
  by (simp add: release_def)

lemma is_finished_value:
  assumes "chunk_ok c" and "ctype c \<noteq> UNUSED_CHUNK"
  shows "is_finished c = Some (finished (chunk_value c))"
proof -
  obtain b v where b: "cmem c = Some b" "buf_repr b v" using assms(1) by (auto simp: chunk_ok_def is_string_def)
  show ?thesis
  proof (cases "ctype c")
    case MEM_CHUNK
    then have "chunk_value c = (Mem_Data v, coffset c)" using b by (simp add: chunk_value_def)
    moreover have "bused b = (case v of None \<Rightarrow> 0 | Some s \<Rightarrow> length s + 1)"
      using b(2) by (auto simp: buf_repr_def split: option.splits)
    ultimately show ?thesis using MEM_CHUNK b(1) by (cases v) (auto simp: is_finished_def)
  qed (use assms(2) in \<open>auto simp: is_finished_def chunk_value_def\<close>)
qed

lemma cell_strlen_cstr: "cell_strlen (map Some s @ Some NUL # r) = Some (length (cstr s))"
  by (induction s) (auto simp: cstr_def)

lemma take_cstr: "take (length (cstr s)) s = cstr s"
  by (induction s) (auto simp: cstr_def)

lemma buffer_cstr_repr:
  assumes "buf_repr b (Some s)"
  shows "buffer_cstr b = Some (cstr s)"
proof -
  obtain r where r: "bptr b = map Some s @ Some NUL # r" using buf_repr_cells [OF assms] by blast
  have le: "length (cstr s) \<le> length s" by (rule length_cstr_le)
  have "mread_init 0 (length (cstr s)) (bptr b) = those (take (length (cstr s)) (map Some s))"
    using le by (simp add: mread_init_def mread_def r)
  also have "\<dots> = Some (cstr s)" by (simp add: take_map take_cstr)
  finally show ?thesis by (simp add: buffer_cstr_def r cell_strlen_cstr)
qed

lemma unlink_temp_repr:
  assumes "is_string (fname f)"
  shows "unlink_temp f = Some (if is_temp f \<and> buffer_bstr (fname f) \<noteq> None
      then [Sys_unlink (cstr (bval (buffer_bstr (fname f))))] else [])"
proof -
  obtain b v where b: "fname f = Some b" "buf_repr b v" using assms by (auto simp: is_string_def)
  show ?thesis
  proof (cases v)
    case None
    with b buffer_is_empty_repr [OF b(2)] show ?thesis by (simp add: unlink_temp_def)
  next
    case (Some s)
    with b buffer_is_empty_repr [OF b(2)] buffer_cstr_repr [of b s] show ?thesis by (simp add: unlink_temp_def)
  qed
qed

lemma chunk_reset_ok:
  assumes "chunk_ok c"
  shows "\<exists>c'. chunk_reset c = Some (c', release c) \<and> chunk_ok c' \<and> cnext c' = cnext c \<and>
    buffer_bstr (cmem c') = None \<and> buffer_bstr (fname (cfile c')) = None \<and> ffd (cfile c') = -1 \<and>
    mm_start (fmmap (cfile c')) = None \<and> is_temp (cfile c') = is_temp (cfile c)"
proof -
  obtain b v n w where b: "cmem c = Some b" "buf_repr b v" and n: "fname (cfile c) = Some n" "buf_repr n w"
    using assms by (auto simp: chunk_ok_def is_string_def)
  from buffer_reset_repr [OF buf_repr_wf [OF b(2)]] obtain b' where
    b': "buffer_reset (Some b) = Some (Some b')" "buf_repr b' None" by blast
  from buffer_reset_repr [OF buf_repr_wf [OF n(2)]] obtain n' where
    n': "buffer_reset (Some n) = Some (Some n')" "buf_repr n' None" by blast
  have "is_string (fname (cfile c))" using n unfolding is_string_def by blast
  note ul = unlink_temp_repr [OF this]
  have str: "is_string (Some b')" "is_string (Some n')" using b' n' unfolding is_string_def by blast+
  define c' where "c' = c\<lparr>cmem := Some b', cfile := (cfile c)\<lparr>fname := Some n', ffd := -1,
    fmmap := (fmmap (cfile c))\<lparr>mm_start := None\<rparr>\<rparr>\<rparr>"
  have "chunk_reset c = Some (c', release c)"
    using b(1) b'(1) n(1) n'(1)
    by (cases "mm_start (fmmap (cfile c))")
      (auto simp: chunk_reset_def ul release_def release_file_def c'_def Let_def)
  moreover have "chunk_ok c'" "cnext c' = cnext c" "buffer_bstr (cmem c') = None"
    "buffer_bstr (fname (cfile c')) = None" "ffd (cfile c') = -1" "mm_start (fmmap (cfile c')) = None"
    "is_temp (cfile c') = is_temp (cfile c)"
    using buffer_bstr_repr [OF b'(2)] buffer_bstr_repr [OF n'(2)] str by (simp_all add: c'_def chunk_ok_def)
  ultimately show ?thesis by blast
qed

lemma drop_first_shape:
  assumes sh0: "cq_shape cq (a # as) us []" and a: "cells cq a = Some c"
  shows "\<exists>cq' us'. drop_first a c cq = Some cq' \<and> cq_shape cq' as us' [] \<and>
    contents cq' as = contents cq as \<and> length us' = min 5 (Suc (length us)) \<and>
    sys_log cq' = sys_log cq @ release c \<and> tempdirs cq' = tempdirs cq \<and>
    map (release \<circ> the \<circ> cells cq') as = map (release \<circ> the \<circ> cells cq) as"
proof -
  note sh = cq_shapeD [OF sh0]
  obtain c' where c': "chunk_reset c = Some (c', release c)" "chunk_ok c'" "cnext c' = cnext c"
    using chunk_reset_ok [OF sh(9) [OF a]] by blast
  have d: "a \<notin> set as" "a \<notin> set us" using sh(3) by auto
  have nxt: "chain (cells cq) (cnext c) as" using sh(1) a by simp
  have last: "(if Some a = cq_last cq then None else cq_last cq) = (if as = [] then None else Some (List.last as))"
    using sh(6) d last_in_set [of as] by (cases "as = []") auto
  show ?thesis
  proof (cases "length us > 4")
    case True
    define cq' where "cq' = cq\<lparr>cells := (cells cq)(a := None), sys_log := sys_log cq @ release c,
      cq_first := cnext c, cq_last := (if Some a = cq_last cq then None else cq_last cq)\<rparr>"
    have dom: "dom (cells cq') = set (as @ us)" using sh(4) d by (auto simp: cq'_def)
    have "cq_shape cq' as us []"
      unfolding cq_shape_def using nxt d last sh(2,3,5,7,8) dom sh(9,10) by (auto simp: cq'_def split: if_splits)
    moreover have "drop_first a c cq = Some cq'"
      using True sh(7) c' by (simp add: drop_first_def Let_def chunk_free_def cq'_def)
    moreover have "contents cq' as = contents cq as" "map (release \<circ> the \<circ> cells cq') as = map (release \<circ> the \<circ> cells cq) as"
      using d by (auto simp: contents_def cq'_def)
    moreover have "length us = min 5 (Suc (length us))" using True sh(8) by simp
    ultimately show ?thesis by (intro exI [of _ cq'] exI [of _ us]) (simp add: cq'_def)
  next
    case False
    define cq' where "cq' = cq\<lparr>cells := (cells cq)(a \<mapsto> c'\<lparr>cnext := cq_unused cq\<rparr>), sys_log := sys_log cq @ release c,
      cq_first := cnext c, cq_last := (if Some a = cq_last cq then None else cq_last cq),
      cq_unused := Some a, unused_chunks := unused_chunks cq + 1\<rparr>"
    have ok: "chunk_ok (c'\<lparr>cnext := cq_unused cq\<rparr>)" using c'(2) by (simp add: chunk_ok_def)
    have dom: "dom (cells cq') = set (as @ (a # us))" using sh(4) d by (auto simp: cq'_def)
    have "cq_shape cq' as (a # us) []"
      unfolding cq_shape_def using nxt d last sh(2,3,5,7,8) dom sh(9,10) ok False by (auto simp: cq'_def split: if_splits)
    moreover have "drop_first a c cq = Some cq'"
      using False sh(7) c' by (simp add: drop_first_def Let_def cq'_def)
    moreover have "contents cq' as = contents cq as" "map (release \<circ> the \<circ> cells cq') as = map (release \<circ> the \<circ> cells cq) as"
      using d by (auto simp: contents_def cq'_def)
    moreover have "length (a # us) = min 5 (Suc (length us))" using False by simp
    ultimately show ?thesis by (intro exI [of _ cq'] exI [of _ "a # us"]) (simp add: cq'_def)
  qed
qed

lemma remove_finished_shape:
  assumes "cq_shape cq as us []"
  shows "\<exists>cq' us'. chunkqueue_remove_finished_chunks cq = Some cq' \<and>
    cq_shape cq' (drop (length (takeWhile finished (contents cq as))) as) us' [] \<and>
    contents cq' (drop (length (takeWhile finished (contents cq as))) as) = dropWhile finished (contents cq as) \<and>
    length us' = min 5 (length us + length (takeWhile finished (contents cq as))) \<and>
    sys_log cq' = sys_log cq @
      concat (map (release \<circ> the \<circ> cells cq) (take (length (takeWhile finished (contents cq as))) as)) \<and>
    tempdirs cq' = tempdirs cq"
  using assms
proof (induction as arbitrary: cq us)
  case Nil
  then have "cq_first cq = None" "length us \<le> 5" by (auto dest: cq_shapeD(1,8))
  then show ?case using Nil
    by (subst chunkqueue_remove_finished_chunks.simps) (auto simp: contents_def)
next
  case (Cons a as)
  note sh = cq_shapeD [OF Cons.prems]
  from sh(1) obtain c where c: "cq_first cq = Some a" "cells cq a = Some c" by auto
  have fin: "is_finished c = Some (finished (chunk_value c))"
    using is_finished_value [OF sh(9) [OF c(2)]] sh(10) [OF c(2)] by simp
  have hd: "contents cq (a # as) = chunk_value c # contents cq as" using c by (simp add: contents_def)
  show ?case
  proof (cases "finished (chunk_value c)")
    case False
    then show ?thesis using Cons.prems c fin hd sh(8)
      by (subst chunkqueue_remove_finished_chunks.simps) auto
  next
    case True
    from drop_first_shape [OF Cons.prems c(2)] obtain q1 us1 where
      q1: "drop_first a c cq = Some q1" "cq_shape q1 as us1 []" "contents q1 as = contents cq as"
        "length us1 = min 5 (Suc (length us))" "sys_log q1 = sys_log cq @ release c" "tempdirs q1 = tempdirs cq"
        "map (release \<circ> the \<circ> cells q1) as = map (release \<circ> the \<circ> cells cq) as" by blast
    have step: "chunkqueue_remove_finished_chunks cq = chunkqueue_remove_finished_chunks q1"
      using c fin True q1(1) by (subst chunkqueue_remove_finished_chunks.simps) simp
    have eq: "map (release \<circ> the \<circ> cells q1) (take n as) = map (release \<circ> the \<circ> cells cq) (take n as)" for n
      using arg_cong [OF q1(7), of "take n"] by (simp only: take_map)
    from Cons.IH [OF q1(2)] obtain cq' us' where
      "chunkqueue_remove_finished_chunks q1 = Some cq'"
      "cq_shape cq' (drop (length (takeWhile finished (contents cq as))) as) us' []"
      "contents cq' (drop (length (takeWhile finished (contents cq as))) as) = dropWhile finished (contents cq as)"
      "length us' = min 5 (length us1 + length (takeWhile finished (contents cq as)))"
      "sys_log cq' = sys_log q1 @
        concat (map (release \<circ> the \<circ> cells cq) (take (length (takeWhile finished (contents cq as))) as))"
      "tempdirs cq' = tempdirs q1"
      unfolding q1(3) eq by blast
    then show ?thesis using step True q1 hd c(2) by (intro exI [of _ cq'] exI [of _ us']) (auto simp: comp_def)
  qed
qed

lemma chunkqueue_remove_finished_chunks_repr:
  assumes "cq_repr cq ds"
  shows "\<exists>cq'. chunkqueue_remove_finished_chunks cq = Some cq' \<and> cq_repr cq' (dropWhile finished ds)"
proof -
  from assms obtain as us where sh: "cq_shape cq as us []" "contents cq as = ds" unfolding cq_repr_def by blast
  from remove_finished_shape [OF sh(1)] sh(2) show ?thesis unfolding cq_repr_def by blast
qed

section \<open>Reset\<close>

lemma mark_all_shape:
  assumes "cq_shape cq as us []"
  shows "\<exists>h. mark_all_written (cells cq) (cq_first cq) = Some h \<and> cq_shape (cq\<lparr>cells := h\<rparr>) as us [] \<and>
    list_all finished (contents (cq\<lparr>cells := h\<rparr>) as) \<and>
    map (\<lambda>a. release (the (h a))) as = map (\<lambda>a. release (the (cells cq a))) as"
proof -
  have gen: "\<exists>h'. mark_all_written h p = Some h' \<and>
      (\<forall>a. a \<notin> set bs \<longrightarrow> h' a = h a) \<and>
      (\<forall>a \<in> set bs. \<exists>c c'. h a = Some c \<and> mark_written c = Some c' \<and> h' a = Some c')"
    if "chain h p bs" "distinct bs" "\<forall>a \<in> set bs. \<forall>c. h a = Some c \<longrightarrow> chunk_ok c" for h p bs
    using that
  proof (induction bs arbitrary: h p)
    case Nil
    then show ?case by (subst mark_all_written.simps) simp
  next
    case (Cons a bs)
    then obtain c where c: "p = Some a" "h a = Some c" "chain h (cnext c) bs" by auto
    have "chunk_ok c" using Cons.prems c by auto
    then obtain b where b: "cmem c = Some b" by (auto simp: chunk_ok_def is_string_def)
    obtain c' where c': "mark_written c = Some c'" "cnext c' = cnext c"
      using b by (cases "ctype c") (auto simp: mark_written_def)
    have pre: "chain (h(a \<mapsto> c')) (cnext c) bs" "distinct bs"
      "\<forall>x \<in> set bs. \<forall>k. (h(a \<mapsto> c')) x = Some k \<longrightarrow> chunk_ok k"
      using Cons.prems c by auto
    have "\<exists>h'. mark_all_written (h(a \<mapsto> c')) (cnext c) = Some h' \<and>
        (\<forall>x. x \<notin> set bs \<longrightarrow> h' x = (h(a \<mapsto> c')) x) \<and>
        (\<forall>x \<in> set bs. \<exists>c1 c2. (h(a \<mapsto> c')) x = Some c1 \<and> mark_written c1 = Some c2 \<and> h' x = Some c2)"
      using Cons.IH [OF pre] .
    moreover have "mark_all_written h p = mark_all_written (h(a \<mapsto> c')) (cnext c)"
      using c c' by (subst mark_all_written.simps) simp
    ultimately show ?case using Cons.prems c c' by (auto simp: fun_upd_def split: if_splits)
  qed
  note sh = cq_shapeD [OF assms]
  have mem: "\<exists>b v. cmem c = Some b \<and> buf_repr b v" if "cells cq a = Some c" for a c
    using sh(9) [OF that] by (auto simp: chunk_ok_def is_string_def)
  have mw: "chunk_ok c' \<and> cnext c' = cnext c \<and> ctype c' = ctype c \<and> cfile c' = cfile c \<and>
      (ctype c \<noteq> UNUSED_CHUNK \<longrightarrow> finished (chunk_value c'))"
    if cc: "cells cq a = Some c" "mark_written c = Some c'" for a c c'
  proof -
    obtain b v where b: "cmem c = Some b" "buf_repr b v" using mem [OF cc(1)] by blast
    then have off: "bused b = (case v of None \<Rightarrow> 0 | Some s \<Rightarrow> length s + 1)"
      by (auto simp: buf_repr_def split: option.splits)
    show ?thesis
    proof (cases "ctype c")
      case MEM_CHUNK
      then have c': "c' = c\<lparr>coffset := int (size_dec (bused b))\<rparr>" using cc(2) b by (simp add: mark_written_def)
      have "chunk_value c' = (Mem_Data v, int (size_dec (bused b)))"
        using MEM_CHUNK b by (simp add: c' chunk_value_def)
      then show ?thesis using sh(9) [OF cc(1)] off MEM_CHUNK by (cases v) (auto simp: c' chunk_ok_def size_dec_def)
    next
      case FILE_CHUNK
      with cc(2) sh(9) [OF cc(1)] show ?thesis by (auto simp: mark_written_def chunk_ok_def chunk_value_def)
    next
      case UNUSED_CHUNK
      with cc(2) sh(9) [OF cc(1)] show ?thesis by (auto simp: mark_written_def)
    qed
  qed
  have "\<exists>h. mark_all_written (cells cq) (cq_first cq) = Some h \<and>
      (\<forall>a. a \<notin> set as \<longrightarrow> h a = cells cq a) \<and>
      (\<forall>a \<in> set as. \<exists>c c'. cells cq a = Some c \<and> mark_written c = Some c' \<and> h a = Some c')"
    using sh(1,3,9) by (intro gen) auto
  then obtain h where h: "mark_all_written (cells cq) (cq_first cq) = Some h"
      "\<forall>a. a \<notin> set as \<longrightarrow> h a = cells cq a"
      "\<forall>a \<in> set as. \<exists>c c'. cells cq a = Some c \<and> mark_written c = Some c' \<and> h a = Some c'" by blast
  have hcell: "\<exists>c'. h a = Some c' \<and> chunk_ok c' \<and> cnext c' = cnext c \<and> ctype c' = ctype c \<and> cfile c' = cfile c \<and>
      (a \<in> set as \<longrightarrow> finished (chunk_value c'))" if c: "cells cq a = Some c" for a c
  proof (cases "a \<in> set as")
    case True
    with h(3) c obtain c' where "mark_written c = Some c'" "h a = Some c'" by auto
    with mw [OF c this(1)] sh(10) [OF c True] show ?thesis by auto
  qed (use h(2) sh(9) [OF c] c in auto)
  have old: "\<exists>c. cells cq a = Some c" if "h a = Some c'" for a c'
    using that h(2,3) by (cases "a \<in> set as") auto
  have dom: "dom h = dom (cells cq)" using old hcell unfolding dom_def by blast
  have rel: "chunk_ok c' \<and> (a \<in> set as \<longrightarrow> ctype c' \<noteq> UNUSED_CHUNK)" if hc: "h a = Some c'" for a c'
  proof -
    obtain c where c: "cells cq a = Some c" using old [OF hc] by blast
    with hcell [OF c] hc sh(10) [OF c] show ?thesis by auto
  qed
  have links: "chain h p bs" if "chain (cells cq) p bs" for p bs
    using that
  proof (induction bs arbitrary: p)
    case (Cons a bs)
    then obtain c where c: "p = Some a" "cells cq a = Some c" "chain (cells cq) (cnext c) bs" by auto
    from hcell [OF c(2)] c(1) Cons.IH [OF c(3)] show ?case by auto
  qed simp
  have "cq_shape (cq\<lparr>cells := h\<rparr>) as us []"
    unfolding cq_shape_def using sh(3-8) links [OF sh(1)] links [OF sh(2)] dom rel by auto
  moreover have fr: "finished (chunk_value (the (h a))) \<and> release (the (h a)) = release (the (cells cq a))"
    if "a \<in> set as" for a
  proof -
    obtain c where c: "cells cq a = Some c" using h(3) \<open>a \<in> set as\<close> by blast
    from hcell [OF c] obtain c' where "h a = Some c'" "cfile c' = cfile c" "finished (chunk_value c')"
      using \<open>a \<in> set as\<close> by blast
    with c show ?thesis by (simp add: release_def)
  qed
  then have "list_all finished (contents (cq\<lparr>cells := h\<rparr>) as)"
    "map (\<lambda>a. release (the (h a))) as = map (\<lambda>a. release (the (cells cq a))) as"
    by (simp_all add: contents_def list_all_iff)
  ultimately show ?thesis using h(1) by blast
qed

text \<open>Reset empties the queue, recycles at most five chunks and releases every file the chunks had open.\<close>

lemma chunkqueue_reset_shape:
  assumes "cq_shape cq as us []"
  shows "\<exists>cq' us'. chunkqueue_reset cq = Some cq' \<and> cq_shape cq' [] us' [] \<and>
    length us' = min 5 (length us + length as) \<and> bytes_in cq' = 0 \<and> bytes_out cq' = 0 \<and>
    sys_log cq' = sys_log cq @ concat (map (\<lambda>a. release (the (cells cq a))) as) \<and> tempdirs cq' = tempdirs cq"
proof -
  from mark_all_shape [OF assms] obtain h where
    h: "mark_all_written (cells cq) (cq_first cq) = Some h" "cq_shape (cq\<lparr>cells := h\<rparr>) as us []"
      "list_all finished (contents (cq\<lparr>cells := h\<rparr>) as)"
      "map (\<lambda>a. release (the (h a))) as = map (\<lambda>a. release (the (cells cq a))) as" by blast
  from h(3) have all: "takeWhile finished (contents (cq\<lparr>cells := h\<rparr>) as) = contents (cq\<lparr>cells := h\<rparr>) as"
    unfolding takeWhile_eq_all_conv list_all_iff by blast
  have len: "length (contents (cq\<lparr>cells := h\<rparr>) as) = length as" by (simp add: contents_def)
  from remove_finished_shape [OF h(2), unfolded all len] obtain q1 us' where
    q1: "chunkqueue_remove_finished_chunks (cq\<lparr>cells := h\<rparr>) = Some q1" "cq_shape q1 [] us' []"
      "length us' = min 5 (length us + length as)" "tempdirs q1 = tempdirs cq"
      "sys_log q1 = sys_log cq @ concat (map (\<lambda>a. release (the (h a))) as)"
    by (auto simp: comp_def)
  have "cq_shape (q1\<lparr>bytes_in := 0, bytes_out := 0\<rparr>) [] us' []"
    using q1(2) by (simp add: cq_shape_def)
  with h q1 have "cq_shape (q1\<lparr>bytes_in := 0, bytes_out := 0\<rparr>) [] us' [] \<and>
      chunkqueue_reset cq = Some (q1\<lparr>bytes_in := 0, bytes_out := 0\<rparr>)"
    by (simp add: chunkqueue_reset_def)
  with q1 h(4) show ?thesis by (intro exI [of _ "q1\<lparr>bytes_in := 0, bytes_out := 0\<rparr>"] exI [of _ us']) simp
qed

lemma chunkqueue_reset_repr:
  assumes "cq_repr cq ds"
  shows "\<exists>cq'. chunkqueue_reset cq = Some cq' \<and> cq_repr cq' [] \<and> bytes_in cq' = 0 \<and> bytes_out cq' = 0 \<and>
    tempdirs cq' = tempdirs cq"
proof -
  from assms obtain as us where "cq_shape cq as us []" unfolding cq_repr_def by blast
  from chunkqueue_reset_shape [OF this] obtain cq' us' where
    "chunkqueue_reset cq = Some cq'" "cq_shape cq' [] us' []" "bytes_in cq' = 0" "bytes_out cq' = 0"
    "tempdirs cq' = tempdirs cq" by blast
  then show ?thesis unfolding cq_repr_def contents_def by fastforce
qed

section \<open>Files\<close>

lemma append_free_chunk:
  assumes sh: "cq_shape q1 as us [a]" and d: "chunk_ok d" "cnext d = None" "ctype d \<noteq> UNUSED_CHUNK"
  shows "\<exists>cq'. chunkqueue_append_chunk a (q1\<lparr>cells := (cells q1)(a \<mapsto> d)\<rparr>) = Some cq' \<and>
    cq_shape cq' (as @ [a]) us [] \<and> contents cq' (as @ [a]) = contents q1 as @ [chunk_value d] \<and> same_rest q1 cq'"
proof -
  define q2 where "q2 = q1\<lparr>cells := (cells q1)(a \<mapsto> d)\<rparr>"
  have sh2: "cq_shape q2 as us [a]" unfolding q2_def by (rule shape_upd_free [OF sh d(1)])
  have notin: "a \<notin> set as" using cq_shapeD(3) [OF sh] by auto
  have "cells q2 a = Some d" by (simp add: q2_def)
  from append_chunk_shape [OF sh2 this d(2,3)] obtain cq' where
    cq': "chunkqueue_append_chunk a q2 = Some cq'" "cq_shape cq' (as @ [a]) us []"
      "contents cq' (as @ [a]) = contents q2 as @ [chunk_value d]" "same_rest q2 cq'"
    unfolding same_rest_def by blast
  have "contents q2 as = contents q1 as" using contents_upd [OF notin, of q1 d] by (simp add: q2_def)
  moreover have "same_rest q1 cq'" using cq'(4) by (simp add: same_rest_def q2_def)
  ultimately show ?thesis using cq' unfolding q2_def by auto
qed

lemma chunkqueue_append_file_repr:
  assumes "cq_repr cq ds" and "buf_repr fn v"
  shows "\<exists>cq'. chunkqueue_append_file cq (Some fn) off len = Some cq' \<and>
    cq_repr cq' (if len = 0 then ds else ds @ [(File_Data v off len, 0)]) \<and> same_rest cq cq'"
proof (cases "len = 0")
  case True
  with assms show ?thesis by (simp add: chunkqueue_append_file_def same_rest_def)
next
  case False
  from assms(1) obtain as us where sh: "cq_shape cq as us []" "contents cq as = ds" unfolding cq_repr_def by blast
  from get_unused_shape [OF sh(1)] obtain a q1 c where
    g: "chunkqueue_get_unused_chunk cq = Some (a, q1)" "cq_shape q1 as (tl us) [a]" "cells q1 a = Some c"
      "cnext c = None" "contents q1 as = contents cq as" and same: "same_rest cq q1"
    unfolding same_rest_def by blast
  obtain n w where n: "fname (cfile c) = Some n" "buf_repr n w" and m: "is_string (cmem c)"
    using cq_shapeD(9) [OF g(2,3)] by (auto simp: chunk_ok_def is_string_def)
  from buffer_copy_string_buffer_repr [OF buf_repr_wf [OF n(2)] assms(2)] obtain n' where
    n': "buffer_copy_string_buffer (Some n) (Some fn) = Some (0, Some n')" "buf_repr n' v" by blast
  define d where "d = c\<lparr>ctype := FILE_CHUNK, cfile := (cfile c)\<lparr>fname := Some n', fstart := off, flength := len\<rparr>, coffset := 0\<rparr>"
  have "is_string (Some n')" using n'(2) unfolding is_string_def by blast
  then have "chunk_ok d" "cnext d = None" "ctype d \<noteq> UNUSED_CHUNK" using m g(4) by (auto simp: d_def chunk_ok_def)
  from append_free_chunk [OF g(2) this] obtain cq' where
    cq': "chunkqueue_append_chunk a (q1\<lparr>cells := (cells q1)(a \<mapsto> d)\<rparr>) = Some cq'" "cq_shape cq' (as @ [a]) (tl us) []"
      "contents cq' (as @ [a]) = contents q1 as @ [chunk_value d]" "same_rest q1 cq'" by blast
  have "chunk_value d = (File_Data v off len, 0)" using n'(2) by (simp add: chunk_value_def d_def)
  moreover have "chunkqueue_append_file cq (Some fn) off len = Some cq'"
    using False g n n' cq'(1) by (simp add: chunkqueue_append_file_def d_def)
  moreover have "same_rest cq cq'" using same cq'(4) by (simp add: same_rest_def)
  moreover have "contents cq' (as @ [a]) = ds @ [chunk_value d]" using cq'(3) g(5) sh(2) by simp
  ultimately show ?thesis using False cq'(2) unfolding cq_repr_def by auto
qed

section \<open>Counting\<close>

fun data_length :: "chunk_data \<Rightarrow> int" where
  "data_length (Mem_Data v) = int (length (bval v))"
| "data_length (File_Data v off len) = len"

lemma sum_chunks_chain:
  assumes "chain h p as" and "\<And>a c. a \<in> set as \<Longrightarrow> h a = Some c \<Longrightarrow> f c = Some (g (chunk_value c))"
  shows "sum_chunks f h p n = Some (n + sum_list (map (\<lambda>a. g (chunk_value (the (h a)))) as))"
  using assms
proof (induction as arbitrary: p n)
  case Nil
  then show ?case by (subst sum_chunks.simps) simp
next
  case (Cons a as)
  then obtain c where c: "p = Some a" "h a = Some c" "chain h (cnext c) as" by auto
  have "f c = Some (g (chunk_value c))" by (rule Cons.prems(2) [of a]) (simp_all add: c)
  moreover have "sum_chunks f h (cnext c) m = Some (m + (\<Sum>a \<leftarrow> as. g (chunk_value (the (h a)))))" for m
    by (rule Cons.IH [OF c(3)]) (rule Cons.prems(2), simp_all)
  ultimately show ?case using c by (subst sum_chunks.simps) (simp add: add.assoc)
qed

lemma chunkqueue_length_repr:
  assumes "cq_repr cq ds"
  shows "chunkqueue_length cq = Some (\<Sum>(d, off) \<leftarrow> ds. data_length d)"
proof -
  from assms obtain as us where sh: "cq_shape cq as us []" "contents cq as = ds" unfolding cq_repr_def by blast
  have each: "chunk_length c = Some (data_length (fst (chunk_value c)))"
    if ac: "a \<in> set as" "cells cq a = Some c" for a c
  proof -
    have "ctype c \<noteq> UNUSED_CHUNK" by (rule cq_shapeD(10) [OF sh(1) ac(2,1)])
    moreover obtain b v where b: "cmem c = Some b" "buf_repr b v"
      using cq_shapeD(9) [OF sh(1) ac(2)] by (auto simp: chunk_ok_def is_string_def)
    moreover have "bused b = (case v of None \<Rightarrow> 0 | Some s \<Rightarrow> length s + 1)"
      using b by (auto simp: buf_repr_def split: option.splits)
    ultimately show ?thesis
      by (cases "ctype c"; cases v) (simp_all add: chunk_length_def chunk_value_def)
  qed
  have "sum_chunks chunk_length (cells cq) (cq_first cq) 0 =
      Some (0 + (\<Sum>a \<leftarrow> as. data_length (fst (chunk_value (the (cells cq a))))))"
    by (rule sum_chunks_chain [OF cq_shapeD(1) [OF sh(1)]]) (rule each)
  then show ?thesis by (simp add: chunkqueue_length_def sh(2) [symmetric] contents_def comp_def case_prod_beta)
qed

lemma chunkqueue_written_repr:
  assumes "cq_repr cq ds"
  shows "chunkqueue_written cq = Some (\<Sum>(d, off) \<leftarrow> ds. off)"
proof -
  from assms obtain as us where sh: "cq_shape cq as us []" "contents cq as = ds" unfolding cq_repr_def by blast
  have each: "chunk_written c = Some (snd (chunk_value c))"
    if "a \<in> set as" "cells cq a = Some c" for a c
    using cq_shapeD(10) [OF sh(1) that(2,1)] by (cases "ctype c") (simp_all add: chunk_written_def chunk_value_def)
  have "sum_chunks chunk_written (cells cq) (cq_first cq) 0 =
      Some (0 + (\<Sum>a \<leftarrow> as. snd (chunk_value (the (cells cq a)))))"
    by (rule sum_chunks_chain [OF cq_shapeD(1) [OF sh(1)]]) (rule each)
  then show ?thesis by (simp add: chunkqueue_written_def sh(2) [symmetric] contents_def comp_def case_prod_beta)
qed

lemma chunkqueue_is_empty_repr: "cq_repr cq ds \<Longrightarrow> chunkqueue_is_empty cq \<longleftrightarrow> ds = []"
  by (auto simp: cq_repr_def chunkqueue_is_empty_def contents_def cq_shape_def)

section \<open>Freeing\<close>

lemma free_chunks_chain:
  assumes "chain h p as" and "distinct as"
  shows "free_chunks h p = Some (\<lambda>a. if a \<in> set as then None else h a)"
  using assms
proof (induction as arbitrary: h p)
  case Nil
  then show ?case by (subst free_chunks.simps) simp
next
  case (Cons a as)
  then obtain c where c: "p = Some a" "h a = Some c" "chain h (cnext c) as" by auto
  have "chain (h(a := None)) (cnext c) as" "distinct as" using c Cons.prems(2) by auto
  from Cons.IH [OF this]
  have "free_chunks (h(a := None)) (cnext c) = Some (\<lambda>x. if x \<in> set as then None else (h(a := None)) x)" .
  also have "(\<lambda>x. if x \<in> set as then None else (h(a := None)) x) = (\<lambda>x. if x \<in> set (a # as) then None else h x)"
    by auto
  finally have rest: "free_chunks (h(a := None)) (cnext c) = Some (\<lambda>x. if x \<in> set (a # as) then None else h x)" .
  have "free_chunks h p = free_chunks (h(a := None)) (cnext c)"
    using c by (subst free_chunks.simps) (simp add: chunk_free_def del: fun_upd_apply)
  then show ?case by (simp only: rest)
qed

text \<open>Every chunk is freed, none twice.\<close>

lemma chunkqueue_free_all:
  assumes "cq_shape cq as us []"
  shows "chunkqueue_free cq = Some Map.empty"
proof -
  note sh = cq_shapeD [OF assms]
  define h where "h = (\<lambda>a. if a \<in> set as then None else cells cq a)"
  have 1: "free_chunks (cells cq) (cq_first cq) = Some h"
    unfolding h_def using sh(1,3) by (intro free_chunks_chain) auto
  have upd: "chain h p bs" if "chain (cells cq) p bs" "set bs \<inter> set as = {}" for p bs
    using that by (induction bs arbitrary: p) (auto simp: h_def)
  have "set us \<inter> set as = {}" using sh(3) by auto
  from upd [OF sh(2) this] sh(3) have 2: "free_chunks h (cq_unused cq) = Some (\<lambda>a. if a \<in> set us then None else h a)"
    by (intro free_chunks_chain) auto
  have "cells cq a = None" if "a \<notin> set as" "a \<notin> set us" for a
    using sh(4) that by (auto simp: dom_def)
  then have "(\<lambda>a. if a \<in> set us then None else h a) = Map.empty" by (auto simp: h_def)
  with 1 2 show ?thesis by (simp add: chunkqueue_free_def)
qed

section \<open>Properties\<close>

lemmas chunkqueue_reprs = chunkqueue_append_mem_repr chunkqueue_append_buffer_repr chunkqueue_append_file_repr
  chunkqueue_prepend_buffer_repr chunkqueue_append_buffer_weak_repr chunkqueue_remove_finished_chunks_repr
  chunkqueue_reset_repr

lemma same_rest_fields:
  "same_rest cq cq' \<Longrightarrow> tempdirs cq' = tempdirs cq" "same_rest cq cq' \<Longrightarrow> bytes_in cq' = bytes_in cq"
  "same_rest cq cq' \<Longrightarrow> bytes_out cq' = bytes_out cq" "same_rest cq cq' \<Longrightarrow> sys_log cq' = sys_log cq"
  by (simp_all add: same_rest_def)

text \<open>C17: A chunk queue behaves as the list of its pending chunks: appending memory, buffers and files adds
  one chunk at the end (nothing for an empty argument), prepending adds one at the front, removing the finished chunks
  drops exactly the longest prefix that was sent completely, the length is the sum of the chunks' lengths,
  and none of this leaves the heap or loops.\<close>

theorem chunk_queue_refines_list:
  assumes "cq_repr cq ds" and "buf_repr b v"
  shows "(\<exists>cq'. chunkqueue_append_mem cq (map Some (s @ [NUL])) (Suc (length s)) = Some cq' \<and> cq_repr cq' (ds @ [(Mem_Data (Some s), 0)])) \<and>
    (\<exists>cq'. chunkqueue_append_buffer cq b = Some cq' \<and> cq_repr cq' (if v = None then ds else ds @ [(Mem_Data v, 0)])) \<and>
    (\<exists>cq'. chunkqueue_append_file cq (Some b) off len = Some cq' \<and> cq_repr cq' (if len = 0 then ds else ds @ [(File_Data v off len, 0)])) \<and>
    (\<exists>cq'. chunkqueue_prepend_buffer cq b = Some cq' \<and> cq_repr cq' (if v = None then ds else (Mem_Data v, 0) # ds)) \<and>
    (\<exists>cq'. chunkqueue_remove_finished_chunks cq = Some cq' \<and> cq_repr cq' (dropWhile finished ds)) \<and>
    chunkqueue_length cq = Some (\<Sum>(d, off) \<leftarrow> ds. data_length d) \<and> (chunkqueue_is_empty cq \<longleftrightarrow> ds = [])"
proof -
  note r = assms(1)
  have "\<exists>cq'. chunkqueue_append_mem cq (map Some (s @ [NUL])) (Suc (length s)) = Some cq' \<and>
      cq_repr cq' (ds @ [(Mem_Data (Some s), 0)])"
    using chunkqueue_append_mem_repr [OF r, of "Suc (length s)" "s @ [NUL]"] by auto
  moreover note chunkqueue_append_buffer_repr [OF r assms(2)] chunkqueue_append_file_repr [OF r assms(2), of off len]
    chunkqueue_prepend_buffer_repr [OF r assms(2)] chunkqueue_remove_finished_chunks_repr [OF r]
    chunkqueue_length_repr [OF r] chunkqueue_is_empty_repr [OF r]
  ultimately show ?thesis by blast
qed

theorem chunk_queue_refines_list_witness:
  "\<exists>cq'. chunkqueue_append_file chunkqueue_init (Some buffer_init) 0 10 = Some cq' \<and>
     cq_repr cq' [(File_Data None 0 10, 0)]"
  using chunk_queue_refines_list [OF cq_repr_init buf_repr_init, of "[]" 0 10] by simp

text \<open>C19: Resetting a queue empties it, keeps at most five chunks for reuse, makes exactly the system calls its
  chunks owe (removing temporary files, closing descriptors, unmapping), in the order of the chunks; freeing
  the queue afterwards frees every chunk it still owns, none twice.\<close>

theorem chunkqueue_reset_releases:
  assumes "cq_shape cq as us []"
  shows "\<exists>cq' us'. chunkqueue_reset cq = Some cq' \<and> cq_shape cq' [] us' [] \<and> length us' = min 5 (length us + length as) \<and>
    sys_log cq' = sys_log cq @ concat (map (\<lambda>a. release (the (cells cq a))) as) \<and>
    chunkqueue_free cq' = Some Map.empty"
proof -
  from chunkqueue_reset_shape [OF assms] obtain cq' us' where
    "chunkqueue_reset cq = Some cq'" "cq_shape cq' [] us' []" "length us' = min 5 (length us + length as)"
    "sys_log cq' = sys_log cq @ concat (map (\<lambda>a. release (the (cells cq a))) as)" by blast
  with chunkqueue_free_all show ?thesis by blast
qed

theorem chunkqueue_reset_releases_witness:
  "\<exists>cq'. chunkqueue_reset chunkqueue_init = Some cq' \<and> sys_log cq' = [] \<and> chunkqueue_free cq' = Some Map.empty"
proof -
  have "sys_log chunkqueue_init = []" by (simp add: chunkqueue_init_def)
  with chunkqueue_reset_releases [OF chunkqueue_init_shape] show ?thesis by auto
qed

text \<open>A temporary file, then a file of the document root in the recycled chunk.\<close>

definition reuse_after_upload :: "sys_call list option" where
  "reuse_after_upload = do {
     (a, q) \<leftarrow> chunkqueue_get_append_tempfile (\<lambda>t. (7, t)) chunkqueue_init;
     q \<leftarrow> chunkqueue_reset q;
     q \<leftarrow> chunkqueue_append_file q (Some \<lparr>bptr = map Some ''/srv/x'' @ [Some NUL], bused = 7, bsize = 7\<rparr>) 0 10;
     q \<leftarrow> chunkqueue_reset q;
     Some (sys_log q) }"

text \<open>\<open>chunk_reset\<close> does not clear \<open>is_temp\<close>: a chunk that held an upload and is recycled for a
  file to be sent unlinks that file when the queue is reset.\<close>

theorem recycled_tempfile_unlinks:
  "reuse_after_upload =
     Some [Sys_unlink ''/var/tmp/lighttpd-upload-XXXXXX'', Sys_close 7, Sys_unlink ''/srv/x'']"
  unfolding reuse_after_upload_def by code_simp

end
