(* ===== verification/Http_Chunk.thy ===== *)
theory Http_Chunk imports Chunk begin

text \<open>
  \<open>src/src/http_chunk.c\<close>: output is put on the write queue of a connection, framed as HTTP/1.1 chunks when
  the response uses the chunked transfer encoding. \<open>chunked\<close> is the test of
  \<open>con->response.transfer_encoding\<close>, \<open>b\<close> the scratch buffer \<open>srv->tmp_chunk_len\<close>. The decoder \<open>dechunk\<close> is
  the client's side of the format; what is framed here decodes to what was sent.
\<close>

section \<open>Framing\<close>

text \<open>\<open>size_t\<close> and the other \<open>long\<close> types have 32 bits.\<close>

definition size_t_of :: "int \<Rightarrow> nat" where
  "size_t_of n = nat (n mod 2 ^ 32)"

function count_digits :: "nat \<Rightarrow> nat \<Rightarrow> nat" where
  "count_digits i len = (if i < 8 \<and> len \<noteq> 0 then count_digits (i + 1) (drop_bit 4 len) else i)"
  by pat_completeness auto
termination
  by (relation "measure (\<lambda>(i, len). 8 - i)") auto

declare count_digits.simps [simp del]

definition chunk_digit :: "nat \<Rightarrow> char" where
  "chunk_digit len = char_of ((len AND 0xf) + (if (len AND 0xf) \<le> 9 then of_char (CHR ''0'') else of_char (CHR ''a'') - 10))"

text \<open>The loop over \<open>j = i - 1, ..., 0\<close>.\<close>

fun put_digits :: "nat \<Rightarrow> nat \<Rightarrow> cell list \<Rightarrow> cell list option" where
  "put_digits 0 len m = Some m"
| "put_digits (Suc j) len m = do {
     m \<leftarrow> mwrite j [Some (chunk_digit len)] m;
     put_digits j (drop_bit 4 len) m }"

definition line_end :: "char list" where
  "line_end = [CHR 0x0D, CHR 0x0A]"

definition http_chunk_append_len :: "buffer \<Rightarrow> chunkqueue \<Rightarrow> nat \<Rightarrow> (buffer \<times> chunkqueue) option" where
  "http_chunk_append_len b cq len = do {
     b \<leftarrow> (if len = 0 then copy_bytes b ''0''
          else do {
            let i = count_digits 0 len;
            let b = prepare_copy b (i + 1);
            m \<leftarrow> put_digits i len (bptr b);
            m \<leftarrow> mwrite i [Some NUL] m;
            Some (b\<lparr>bptr := m, bused := i + 1\<rparr>) });
     b \<leftarrow> append_bytes b line_end;
     cq \<leftarrow> chunkqueue_append_buffer cq b;
     Some (b, cq) }"

definition append_line_end :: "chunkqueue \<Rightarrow> chunkqueue option" where
  "append_line_end cq = chunkqueue_append_mem cq (map Some (line_end @ [NUL])) (2 + 1)"

definition http_chunk_append_file ::
  "bool \<Rightarrow> buffer \<Rightarrow> chunkqueue \<Rightarrow> bufp \<Rightarrow> int \<Rightarrow> int \<Rightarrow> (buffer \<times> chunkqueue) option" where
  "http_chunk_append_file chunked b cq fn off len = do {
     (b, cq) \<leftarrow> (if chunked then http_chunk_append_len b cq (size_t_of len) else Some (b, cq));
     cq \<leftarrow> chunkqueue_append_file cq fn off len;
     cq \<leftarrow> (if chunked \<and> len > 0 then append_line_end cq else Some cq);
     Some (b, cq) }"

definition http_chunk_append_buffer ::
  "bool \<Rightarrow> buffer \<Rightarrow> chunkqueue \<Rightarrow> buffer \<Rightarrow> (buffer \<times> chunkqueue) option" where
  "http_chunk_append_buffer chunked b cq mem = do {
     (b, cq) \<leftarrow> (if chunked then http_chunk_append_len b cq (size_dec (bused mem)) else Some (b, cq));
     cq \<leftarrow> chunkqueue_append_buffer cq mem;
     cq \<leftarrow> (if chunked \<and> bused mem > 0 then append_line_end cq else Some cq);
     Some (b, cq) }"

definition http_chunk_append_mem ::
  "bool \<Rightarrow> buffer \<Rightarrow> chunkqueue \<Rightarrow> cell list \<Rightarrow> nat \<Rightarrow> (buffer \<times> chunkqueue) option" where
  "http_chunk_append_mem chunked b cq mem len =
     (if len = 0 then do {
        cq \<leftarrow> (if chunked then chunkqueue_append_mem cq (map Some (''0'' @ line_end @ line_end @ [NUL])) (5 + 1)
              else chunkqueue_append_mem cq [Some NUL] 1);
        Some (b, cq) }
      else do {
        (b, cq) \<leftarrow> (if chunked then http_chunk_append_len b cq (len - 1) else Some (b, cq));
        cq \<leftarrow> chunkqueue_append_mem cq mem len;
        cq \<leftarrow> (if chunked then append_line_end cq else Some cq);
        Some (b, cq) })"

definition http_chunkqueue_length :: "chunkqueue \<Rightarrow> int option" where
  "http_chunkqueue_length cq = chunkqueue_length cq"

section \<open>The digits of a length\<close>

lemma chunk_digit_hex: "chunk_digit len = hex_char (int len)"
proof -
  have le: "len AND 0xf = len mod 16" using take_bit_eq_mask [of 4 len] by (simp add: mask_eq_exp_minus_1 take_bit_eq_mod)
  have "len mod 16 \<in> set [0..<16]" by simp
  moreover have "list_all (\<lambda>k. char_of (k + (if k \<le> 9 then of_char (CHR ''0'') else of_char (CHR ''a'') - 10 :: nat)) = hex_char (int k)) [0..<16]"
    by code_simp
  ultimately have "char_of (len mod 16 + (if len mod 16 \<le> 9 then of_char (CHR ''0'') else of_char (CHR ''a'') - 10 :: nat)) = hex_char (int (len mod 16))"
    by (auto simp only: list_all_iff)
  then show ?thesis using hex_char_mod [of len] by (simp add: chunk_digit_def le)
qed

lemma hex_out_snoc: "hex_out len (Suc j) = hex_out (drop_bit 4 len) j @ [hex_char (int len)]"
  by (induction j) (auto simp: drop_bit_drop_bit add.commute simp del: drop_bit_eq_div)

lemma put_digits_hex:
  "j \<le> length m \<Longrightarrow> put_digits j len m = Some (map Some (hex_out len j) @ drop j m)"
proof (induction j arbitrary: len m)
  case 0
  then show ?case by simp
next
  case (Suc j)
  then have "mwrite j [Some (chunk_digit len)] m = Some (take j m @ Some (chunk_digit len) # drop (Suc j) m)"
    by (simp add: mwrite_def)
  moreover have "put_digits j (drop_bit 4 len) (take j m @ Some (chunk_digit len) # drop (Suc j) m) =
      Some (map Some (hex_out (drop_bit 4 len) j) @ Some (chunk_digit len) # drop (Suc j) m)"
    using Suc by simp
  moreover have "map Some (hex_out len (Suc j)) = map Some (hex_out (drop_bit 4 len) j) @ [Some (chunk_digit len)]"
    unfolding hex_out_snoc by (simp add: chunk_digit_hex)
  ultimately show ?case by simp
qed

lemma count_digits_bound:
  "len < 16 ^ (8 - i) \<Longrightarrow> i \<le> 8 \<Longrightarrow> i \<le> count_digits i len \<and> len < 16 ^ (count_digits i len - i) \<and> count_digits i len \<le> 8"
proof (induction i len rule: count_digits.induct)
  case (1 i len)
  show ?case
  proof (cases "i < 8 \<and> len \<noteq> 0")
    case True
    then have "8 - i = Suc (8 - (i + 1))" by arith
    with 1(2) have "len < 16 * 16 ^ (8 - (i + 1))" by simp
    then have small: "drop_bit 4 len < 16 ^ (8 - (i + 1))"
      by (simp add: drop_bit_eq_div div_less_iff_less_mult mult.commute)
    from 1(1) [OF True small] True have
      ih: "i + 1 \<le> count_digits (i + 1) (drop_bit 4 len)" "count_digits (i + 1) (drop_bit 4 len) \<le> 8"
        "drop_bit 4 len < 16 ^ (count_digits (i + 1) (drop_bit 4 len) - (i + 1))" by auto
    define k where "k = count_digits (i + 1) (drop_bit 4 len) - (i + 1)"
    have "count_digits i len = count_digits (i + 1) (drop_bit 4 len)"
      using True by (subst count_digits.simps) simp
    moreover have "len < 16 * 16 ^ k"
      using ih(3) unfolding k_def [symmetric] by (simp add: drop_bit_eq_div div_less_iff_less_mult mult.commute)
    moreover have "count_digits (i + 1) (drop_bit 4 len) - i = Suc k" using ih(1) by (simp add: k_def)
    ultimately show ?thesis using ih by simp
  next
    case False
    then have "count_digits i len = i" by (subst count_digits.simps) (simp only: if_False)
    with False 1(2,3) show ?thesis by (cases "i = 8") auto
  qed
qed

text \<open>The line that announces a chunk.\<close>

definition chunk_head :: "nat \<Rightarrow> char list" where
  "chunk_head len = (if len = 0 then ''0'' else hex_out len (count_digits 0 len))"

lemma chunk_head_value: "len < 2 ^ 32 \<Longrightarrow> hex_value (chunk_head len) = len"
proof (cases "len = 0")
  case True
  then show ?thesis by (simp add: chunk_head_def hex_value_def hex_digit_def)
next
  case False
  assume "len < 2 ^ 32"
  then have "len < 16 ^ count_digits 0 len" using count_digits_bound [of len 0] by simp
  then show ?thesis using False by (simp add: chunk_head_def hex_value_def foldl_hex_out)
qed

lemma hex_out_digits: "c \<in> set (hex_out len k) \<Longrightarrow> hex_digit c \<noteq> None"
  by (induction k) (auto simp: hex_digit_hex_char)

lemma chunk_head_digits: "c \<in> set (chunk_head len) \<Longrightarrow> hex_digit c \<noteq> None"
  using hex_out_digits [of c len "count_digits 0 len"]
  by (cases "len = 0") (auto simp: chunk_head_def hex_digit_def [of "CHR ''0''"])

lemma chunk_head_nonempty: "chunk_head len \<noteq> []"
proof (cases "len = 0")
  case False
  then have "count_digits 0 len = count_digits 1 (drop_bit 4 len)" by (subst count_digits.simps) simp
  moreover have "i \<le> count_digits i n" for i n
    by (induction i n rule: count_digits.induct) (subst count_digits.simps, auto)
  then have "1 \<le> count_digits 1 (drop_bit 4 len)" .
  ultimately have "length (hex_out len (count_digits 0 len)) \<noteq> 0" by simp
  with False show ?thesis by (simp add: chunk_head_def del: length_hex_out)
qed (simp add: chunk_head_def)

lemma http_chunk_append_len_repr:
  assumes "cq_repr cq ds" and "buf_repr b v" and "len < 2 ^ 32"
  shows "\<exists>b' cq'. http_chunk_append_len b cq len = Some (b', cq') \<and>
    cq_repr cq' (ds @ [(Mem_Data (Some (chunk_head len @ line_end)), 0)]) \<and> buf_repr b' (Some (chunk_head len @ line_end))"
proof -
  have "\<exists>b1. (if len = 0 then copy_bytes b ''0'' else do {
        let i = count_digits 0 len;
        let b = prepare_copy b (i + 1);
        m \<leftarrow> put_digits i len (bptr b);
        m \<leftarrow> mwrite i [Some NUL] m;
        Some (b\<lparr>bptr := m, bused := i + 1\<rparr>) }) = Some b1 \<and> buf_repr b1 (Some (chunk_head len))"
  proof (cases "len = 0")
    case True
    with heap_buffer.copy_rep [OF assms(2), of "''0''"] show ?thesis by (simp add: chunk_head_def)
  next
    case False
    define i where "i = count_digits 0 len"
    define b0 where "b0 = prepare_copy b (Suc i)"
    note pc = prepare_copy_spec [OF buf_repr_wf [OF assms(2)], of "Suc i", folded b0_def]
    have "put_digits i len (bptr b0) = Some (map Some (hex_out len i) @ drop i (bptr b0))"
      using pc by (intro put_digits_hex) simp
    moreover have "mwrite i [Some NUL] (map Some (hex_out len i) @ drop i (bptr b0)) =
        Some (map Some (hex_out len i) @ Some NUL # drop (Suc i) (bptr b0))"
      using pc by (simp add: mwrite_def)
    moreover have "buf_repr (b0\<lparr>bptr := map Some (hex_out len i) @ Some NUL # drop (Suc i) (bptr b0), bused := Suc i\<rparr>)
        (Some (hex_out len i))"
      using pc by (simp add: buf_repr_def buf_wf_def)
    ultimately show ?thesis using False by (simp add: i_def [symmetric] b0_def [symmetric] chunk_head_def Let_def)
  qed
  then obtain b1 where b1: "(if len = 0 then copy_bytes b ''0'' else do {
        let i = count_digits 0 len;
        let b = prepare_copy b (i + 1);
        m \<leftarrow> put_digits i len (bptr b);
        m \<leftarrow> mwrite i [Some NUL] m;
        Some (b\<lparr>bptr := m, bused := i + 1\<rparr>) }) = Some b1" "buf_repr b1 (Some (chunk_head len))" by blast
  from heap_buffer.append_rep [OF b1(2), of line_end] obtain b2 where
    b2: "append_bytes b1 line_end = Some b2" "buf_repr b2 (Some (chunk_head len @ line_end))" by (auto simp: line_end_def)
  from chunkqueue_append_buffer_repr [OF assms(1) b2(2)] obtain cq' where
    cq': "chunkqueue_append_buffer cq b2 = Some cq'" "cq_repr cq' (ds @ [(Mem_Data (Some (chunk_head len @ line_end)), 0)])"
    by auto
  have "http_chunk_append_len b cq len = Some (b2, cq')"
    unfolding http_chunk_append_len_def b1(1) using b2(1) cq'(1) by simp
  with cq'(2) b2(2) show ?thesis by blast
qed

section \<open>The three sources of output\<close>

lemma append_line_end_repr:
  assumes "cq_repr cq ds"
  shows "\<exists>cq'. append_line_end cq = Some cq' \<and> cq_repr cq' (ds @ [(Mem_Data (Some line_end), 0)])"
  using chunkqueue_append_mem_repr [OF assms, of 3 "line_end @ [NUL]"]
  by (auto simp: append_line_end_def line_end_def)

text \<open>What a piece adds to the queue.\<close>

definition framed :: "bool \<Rightarrow> nat \<Rightarrow> chunk_data \<Rightarrow> (chunk_data \<times> int) list" where
  "framed chunked len d =
     (if chunked then [(Mem_Data (Some (chunk_head len @ line_end)), 0), (d, 0), (Mem_Data (Some line_end), 0)]
      else [(d, 0)])"

lemma http_chunk_append_mem_repr:
  assumes cq: "cq_repr cq ds" and b: "buf_repr b v" and len: "length s < 2 ^ 32"
  shows "\<exists>b' cq'. http_chunk_append_mem chunked b cq (map Some (s @ [NUL])) (Suc (length s)) = Some (b', cq') \<and>
    cq_repr cq' (ds @ framed chunked (length s) (Mem_Data (Some s))) \<and> (\<exists>v. buf_repr b' v)"
proof -
  have mem: "\<exists>cq'. chunkqueue_append_mem q (map Some (s @ [NUL])) (Suc (length s)) = Some cq' \<and>
      cq_repr cq' (es @ [(Mem_Data (Some s), 0)])" if "cq_repr q es" for q es
    using chunkqueue_append_mem_repr [OF that, of "Suc (length s)" "s @ [NUL]"] by auto
  show ?thesis
  proof (cases chunked)
    case False
    with mem [OF cq] b show ?thesis by (auto simp: http_chunk_append_mem_def framed_def)
  next
    case True
    from http_chunk_append_len_repr [OF cq b len] obtain b1 q1 where
      q1: "http_chunk_append_len b cq (length s) = Some (b1, q1)"
        "cq_repr q1 (ds @ [(Mem_Data (Some (chunk_head (length s) @ line_end)), 0)])"
        "buf_repr b1 (Some (chunk_head (length s) @ line_end))" by blast
    from mem [OF q1(2)] obtain q2 where
      q2: "chunkqueue_append_mem q1 (map Some (s @ [NUL])) (Suc (length s)) = Some q2"
        "cq_repr q2 ((ds @ [(Mem_Data (Some (chunk_head (length s) @ line_end)), 0)]) @ [(Mem_Data (Some s), 0)])" by blast
    from append_line_end_repr [OF q2(2)] obtain q3 where
      q3: "append_line_end q2 = Some q3"
        "cq_repr q3 (((ds @ [(Mem_Data (Some (chunk_head (length s) @ line_end)), 0)]) @ [(Mem_Data (Some s), 0)]) @
          [(Mem_Data (Some line_end), 0)])" by blast
    from True q1 q2 q3 show ?thesis by (auto simp: http_chunk_append_mem_def framed_def simp del: list.map)
  qed
qed

lemma http_chunk_append_buffer_repr:
  assumes cq: "cq_repr cq ds" and b: "buf_repr b v" and mem: "buf_repr mem (Some s)" and len: "length s < 2 ^ 32"
  shows "\<exists>b' cq'. http_chunk_append_buffer chunked b cq mem = Some (b', cq') \<and>
    cq_repr cq' (ds @ framed chunked (length s) (Mem_Data (Some s))) \<and> (\<exists>v. buf_repr b' v)"
proof -
  have used: "size_dec (bused mem) = length s" "bused mem > 0" using mem by (auto simp: buf_repr_def size_dec_def)
  have app: "\<exists>cq'. chunkqueue_append_buffer q mem = Some cq' \<and> cq_repr cq' (es @ [(Mem_Data (Some s), 0)])"
    if "cq_repr q es" for q es
    using chunkqueue_append_buffer_repr [OF that mem] by auto
  show ?thesis
  proof (cases chunked)
    case False
    with app [OF cq] b show ?thesis by (auto simp: http_chunk_append_buffer_def framed_def)
  next
    case True
    from http_chunk_append_len_repr [OF cq b len] obtain b1 q1 where
      q1: "http_chunk_append_len b cq (length s) = Some (b1, q1)"
        "cq_repr q1 (ds @ [(Mem_Data (Some (chunk_head (length s) @ line_end)), 0)])"
        "buf_repr b1 (Some (chunk_head (length s) @ line_end))" by blast
    from app [OF q1(2)] obtain q2 where
      q2: "chunkqueue_append_buffer q1 mem = Some q2"
        "cq_repr q2 ((ds @ [(Mem_Data (Some (chunk_head (length s) @ line_end)), 0)]) @ [(Mem_Data (Some s), 0)])" by blast
    from append_line_end_repr [OF q2(2)] obtain q3 where
      q3: "append_line_end q2 = Some q3"
        "cq_repr q3 (((ds @ [(Mem_Data (Some (chunk_head (length s) @ line_end)), 0)]) @ [(Mem_Data (Some s), 0)]) @
          [(Mem_Data (Some line_end), 0)])" by blast
    from True used q1 q2 q3 show ?thesis by (auto simp: http_chunk_append_buffer_def framed_def)
  qed
qed

lemma http_chunk_append_mem_end:
  assumes "cq_repr cq ds"
  shows "\<exists>cq'. http_chunk_append_mem True b cq mem 0 = Some (b, cq') \<and>
    cq_repr cq' (ds @ [(Mem_Data (Some (''0'' @ line_end @ line_end)), 0)])"
  using chunkqueue_append_mem_repr [OF assms, of 6 "''0'' @ line_end @ line_end @ [NUL]"]
  by (auto simp: http_chunk_append_mem_def line_end_def)

section \<open>Decoding\<close>

text \<open>The bytes the memory chunks of a queue send.\<close>

fun data_bytes :: "chunk_data \<Rightarrow> char list" where
  "data_bytes (Mem_Data v) = bval v"
| "data_bytes (File_Data v off len) = []"

definition queue_bytes :: "(chunk_data \<times> int) list \<Rightarrow> char list" where
  "queue_bytes ds = concat (map (data_bytes \<circ> fst) ds)"

definition is_hex :: "char \<Rightarrow> bool" where
  "is_hex c \<longleftrightarrow> hex_digit c \<noteq> None"

text \<open>A reader of the chunked coding without extensions and trailers.\<close>

function dechunk :: "char list \<Rightarrow> char list option" where
  "dechunk t =
     (let ds = takeWhile is_hex t;
          r = dropWhile is_hex t;
          n = hex_value ds;
          body = drop 2 r
      in if ds = [] \<or> take 2 r \<noteq> line_end then None
         else if n = 0 then (if body = line_end then Some [] else None)
         else if length body < n + 2 \<or> take 2 (drop n body) \<noteq> line_end then None
         else map_option ((@) (take n body)) (dechunk (drop (n + 2) body)))"
  by pat_completeness auto
termination
proof (relation "measure length", goal_cases)
  case (2 t ds r n body)
  then have "take 2 r = line_end" by simp
  then have "r \<noteq> []" by (cases r) (simp_all add: line_end_def)
  moreover have "length r \<le> length t" unfolding 2(2) by (rule length_dropWhile_le)
  moreover have "length (drop (n + 2) body) \<le> length r - 2" unfolding 2(4) by simp
  ultimately have "length (drop (n + 2) body) < length t" by (cases r) auto
  then show ?case by simp
qed simp

declare dechunk.simps [simp del]

lemma dechunk_frame:
  assumes "s \<noteq> []" and "length s < 2 ^ 32"
  shows "dechunk (chunk_head (length s) @ line_end @ s @ line_end @ t) = map_option ((@) s) (dechunk t)"
proof -
  have cr: "\<not> is_hex (CHR 0x0D)" by (simp add: is_hex_def hex_digit_def)
  have head: "\<forall>c \<in> set (chunk_head (length s)). is_hex c" using chunk_head_digits by (simp add: is_hex_def)
  have tw: "takeWhile is_hex (chunk_head (length s) @ line_end @ u) = chunk_head (length s)"
    "dropWhile is_hex (chunk_head (length s) @ line_end @ u) = line_end @ u" for u
    using head cr by (auto simp: takeWhile_append2 dropWhile_append2 line_end_def)
  have two: "length line_end = 2" "take 2 (line_end @ u) = line_end" "drop 2 (line_end @ u) = u" for u
    by (simp_all add: line_end_def)
  show ?thesis
    by (subst dechunk.simps)
      (simp add: tw Let_def two chunk_head_nonempty chunk_head_value [OF assms(2)] assms(1))
qed

lemma dechunk_end: "dechunk (''0'' @ line_end @ line_end) = Some []"
  by (subst dechunk.simps) (simp add: line_end_def is_hex_def hex_digit_def hex_value_def)

text \<open>A body sent piece by piece, alternately from memory and from buffers.\<close>

fun send_pieces :: "char list list \<Rightarrow> buffer \<times> chunkqueue \<Rightarrow> (buffer \<times> chunkqueue) option" where
  "send_pieces [] (b, cq) = http_chunk_append_mem True b cq [] 0"
| "send_pieces (s # ss) (b, cq) = do {
     res \<leftarrow> http_chunk_append_mem True b cq (map Some (s @ [NUL])) (Suc (length s));
     send_pieces ss res }"

lemma send_pieces_repr:
  assumes "cq_repr cq ds" and "buf_repr b v" and "\<forall>s \<in> set ss. s \<noteq> [] \<and> length s < 2 ^ 32"
  shows "\<exists>b' cq' es. send_pieces ss (b, cq) = Some (b', cq') \<and> cq_repr cq' (ds @ es) \<and>
    dechunk (queue_bytes es) = Some (concat ss)"
  using assms
proof (induction ss arbitrary: b v cq ds)
  case Nil
  have "dechunk (queue_bytes [(Mem_Data (Some (''0'' @ line_end @ line_end)), 0)]) = Some []"
    using dechunk_end by (simp add: queue_bytes_def)
  then show ?case using http_chunk_append_mem_end [OF Nil(1), of b "[]"] by fastforce
next
  case (Cons s ss)
  then have s: "s \<noteq> []" "length s < 2 ^ 32" and ss: "\<forall>s \<in> set ss. s \<noteq> [] \<and> length s < 2 ^ 32" by auto
  from http_chunk_append_mem_repr [OF Cons.prems(1,2) s(2), of True] obtain b1 cq1 w where
    1: "http_chunk_append_mem True b cq (map Some (s @ [NUL])) (Suc (length s)) = Some (b1, cq1)"
      "cq_repr cq1 (ds @ framed True (length s) (Mem_Data (Some s)))" "buf_repr b1 w" by blast
  from Cons.IH [OF 1(2,3) ss] obtain b2 cq2 es where
    2: "send_pieces ss (b1, cq1) = Some (b2, cq2)" "cq_repr cq2 ((ds @ framed True (length s) (Mem_Data (Some s))) @ es)"
      "dechunk (queue_bytes es) = Some (concat ss)" by blast
  have "queue_bytes (framed True (length s) (Mem_Data (Some s)) @ es) =
      chunk_head (length s) @ line_end @ s @ line_end @ queue_bytes es"
    by (simp add: queue_bytes_def framed_def)
  then have "dechunk (queue_bytes (framed True (length s) (Mem_Data (Some s)) @ es)) = Some (s @ concat ss)"
    using dechunk_frame [OF s] 2(3) by simp
  moreover have "send_pieces (s # ss) (b, cq) = Some (b2, cq2)" using 1(1) 2(1) by (simp del: list.map)
  ultimately show ?case using 2(2) by auto
qed

section \<open>Properties\<close>

text \<open>C18: A body of non-empty pieces sent with the chunked coding never fails, and a reader of the format
  decodes what was queued to exactly the concatenation of the pieces.\<close>

theorem chunked_body_round_trip:
  assumes "cq_repr cq ds" and "buf_repr b v" and "\<forall>s \<in> set ss. s \<noteq> [] \<and> length s < 2 ^ 32"
  shows "\<exists>b' cq' es. send_pieces ss (b, cq) = Some (b', cq') \<and> cq_repr cq' (ds @ es) \<and>
    dechunk (queue_bytes es) = Some (concat ss)"
  using assms by (rule send_pieces_repr)

theorem chunked_body_round_trip_witness:
  "\<exists>b' cq' es. send_pieces [''hello'', ''world''] (buffer_init, chunkqueue_init) = Some (b', cq') \<and> cq_repr cq' es \<and>
     dechunk (queue_bytes es) = Some ''helloworld''"
  using chunked_body_round_trip [OF cq_repr_init buf_repr_init, of "[''hello'', ''world'']"] by simp

text \<open>The chunk length is a 32 bit \<open>size_t\<close>: a file whose length is a positive multiple of 4 GiB is
  announced by the line of the last chunk, so the reader stops before the file.\<close>

theorem large_file_ends_body:
  assumes "cq_repr cq ds" and "buf_repr b v" and "buf_repr fn w" and "0 < k"
  shows "\<exists>b' cq'. http_chunk_append_file True b cq (Some fn) off (k * 2 ^ 32) = Some (b', cq') \<and>
    cq_repr cq' (ds @ [(Mem_Data (Some (''0'' @ line_end)), 0), (File_Data w off (k * 2 ^ 32), 0),
      (Mem_Data (Some line_end), 0)])"
proof -
  have z: "size_t_of (k * 2 ^ 32) = 0" by (simp add: size_t_of_def)
  from http_chunk_append_len_repr [OF assms(1,2), of 0] obtain b1 q1 where
    q1: "http_chunk_append_len b cq 0 = Some (b1, q1)" "cq_repr q1 (ds @ [(Mem_Data (Some (''0'' @ line_end)), 0)])"
    by (auto simp: chunk_head_def)
  from chunkqueue_append_file_repr [OF q1(2) assms(3), of off "k * 2 ^ 32"] assms(4) obtain q2 where
    q2: "chunkqueue_append_file q1 (Some fn) off (k * 2 ^ 32) = Some q2"
      "cq_repr q2 ((ds @ [(Mem_Data (Some (''0'' @ line_end)), 0)]) @ [(File_Data w off (k * 2 ^ 32), 0)])" by auto
  from append_line_end_repr [OF q2(2)] obtain q3 where
    q3: "append_line_end q2 = Some q3" "cq_repr q3 (((ds @ [(Mem_Data (Some (''0'' @ line_end)), 0)]) @
      [(File_Data w off (k * 2 ^ 32), 0)]) @ [(Mem_Data (Some line_end), 0)])" by blast
  have "http_chunk_append_file True b cq (Some fn) off (k * 2 ^ 32) = Some (b1, q3)"
    using q1(1) q2(1) q3(1) assms(4) unfolding http_chunk_append_file_def z by simp
  with q3(2) show ?thesis by auto
qed

theorem large_file_ends_body_witness:
  "\<exists>b' cq'. http_chunk_append_file True buffer_init chunkqueue_init (Some buffer_init) 0 (1 * 2 ^ 32) = Some (b', cq')"
  using large_file_ends_body [OF cq_repr_init buf_repr_init buf_repr_init, of 1 0] by auto

end
