(* ===== verification/C_String.thy ===== *)
theory C_String imports Request begin

text \<open>
  The part of \<open>string.h\<close>, \<open>stdlib.h\<close> and \<open>stdio.h\<close> the thumbnail module calls on character arrays of fixed
  size. An array is a list of cells; every call that would write or read behind it is \<open>None\<close>. The
  lemmas give the value of each call when it stays inside.
\<close>

section \<open>Searching\<close>

definition strchr :: "char list \<Rightarrow> char \<Rightarrow> nat option" where
  "strchr s c = (let n = length (takeWhile (\<lambda>x. x \<noteq> c) s) in if n < length s then Some n else None)"

definition strrchr :: "char list \<Rightarrow> char \<Rightarrow> nat option" where
  "strrchr s c = map_option (\<lambda>n. length s - 1 - n) (strchr (rev s) c)"

lemma strchr_append [simp]: "c \<notin> set s \<Longrightarrow> strchr (s @ c # t) c = Some (length s)"
  by (induction s) (auto simp: strchr_def Let_def split: if_splits)

lemma strchr_None [simp]: "strchr s c = None \<longleftrightarrow> c \<notin> set s"
  by (induction s) (auto simp: strchr_def Let_def)

lemma strrchr_append [simp]: "c \<notin> set t \<Longrightarrow> strrchr (s @ c # t) c = Some (length s)"
  using strchr_append [of c "rev t" "rev s"] by (simp add: strrchr_def)

lemma strrchr_None [simp]: "strrchr s c = None \<longleftrightarrow> c \<notin> set s"
  by (simp add: strrchr_def)

lemma strchr_absent [simp]: "c \<notin> set s \<Longrightarrow> strchr s c = None" "c \<notin> set s \<Longrightarrow> strrchr s c = None"
  by simp_all

lemma strchr_SomeD: "strchr s c = Some n \<Longrightarrow> n < length s \<and> take n s @ c # drop (Suc n) s = s \<and> c \<notin> set (take n s)"
proof (induction s arbitrary: n)
  case Nil
  then show ?case by (simp add: strchr_def)
next
  case (Cons x s)
  show ?case
  proof (cases "x = c")
    case True
    with Cons.prems show ?thesis by (auto simp: strchr_def Let_def)
  next
    case False
    with Cons.prems obtain m where "strchr s c = Some m" "n = Suc m" by (auto simp: strchr_def Let_def split: if_splits)
    with Cons.IH False show ?thesis by auto
  qed
qed

section \<open>Copying into arrays\<close>

definition char_array :: "nat \<Rightarrow> cell list" where
  "char_array n = replicate n (Some NUL)"

text \<open>The string at the start of an array.\<close>

definition array_string :: "cell list \<Rightarrow> char list option" where
  "array_string m = do { n \<leftarrow> cell_strlen m; mread_init 0 n m }"

definition c_strcpy :: "cell list \<Rightarrow> char list \<Rightarrow> cell list option" where
  "c_strcpy dst s = mwrite 0 (map Some (s @ [NUL])) dst"

definition c_strncpy :: "cell list \<Rightarrow> char list \<Rightarrow> nat \<Rightarrow> cell list option" where
  "c_strncpy dst s n = mwrite 0 (map Some (take n s @ replicate (n - length s) NUL)) dst"

definition put_char :: "cell list \<Rightarrow> nat \<Rightarrow> char \<Rightarrow> cell list option" where
  "put_char m i c = mwrite i [Some c] m"

lemma array_string_cells: "NUL \<notin> set s \<Longrightarrow> array_string (map Some s @ Some NUL # r) = Some s"
  by (simp add: array_string_def mread_init_def mread_def)

lemma c_strcpy_Some: "length s < length dst \<Longrightarrow>
    c_strcpy dst s = Some (map Some s @ Some NUL # drop (Suc (length s)) dst)"
  by (simp add: c_strcpy_def mwrite_def)

lemma c_strcpy_None: "length dst \<le> length s \<Longrightarrow> c_strcpy dst s = None"
  by (simp add: c_strcpy_def mwrite_def)

lemma c_strncpy_Some: "n \<le> length s \<Longrightarrow> n \<le> length dst \<Longrightarrow>
    c_strncpy dst s n = Some (map Some (take n s) @ drop n dst)"
  by (simp add: c_strncpy_def mwrite_def min_def)

lemma c_strncpy_None: "length dst < n \<Longrightarrow> c_strncpy dst s n = None"
  by (auto simp: c_strncpy_def mwrite_def min_def)

text \<open>Copying fewer characters than the array has into a zeroed array leaves it terminated.\<close>

lemma c_strncpy_array:
  assumes "n \<le> length s" and "n < k" and "NUL \<notin> set s"
  shows "\<exists>m. c_strncpy (char_array k) s n = Some m \<and> array_string m = Some (take n s) \<and> length m = k"
proof -
  have nul: "drop n (char_array k) = Some NUL # drop (Suc n) (char_array k)"
    using assms(2) Cons_nth_drop_Suc [of n "char_array k"] by (simp add: char_array_def)
  have "NUL \<notin> set (take n s)" using assms(3) by (auto dest: in_set_takeD)
  then have "array_string (map Some (take n s) @ drop n (char_array k)) = Some (take n s)"
    unfolding nul by (rule array_string_cells)
  moreover have "c_strncpy (char_array k) s n = Some (map Some (take n s) @ drop n (char_array k))"
    using assms by (intro c_strncpy_Some) (auto simp: char_array_def)
  ultimately show ?thesis using assms by (auto simp: char_array_def)
qed

lemma c_strcpy_array:
  assumes "length s < length dst" and "NUL \<notin> set s"
  shows "\<exists>m. c_strcpy dst s = Some m \<and> array_string m = Some s \<and> length m = length dst"
  using c_strcpy_Some [OF assms(1)] array_string_cells [OF assms(2)] assms(1) by auto

text \<open>Copying as many characters as the array has leaves it without a terminator.\<close>

lemma cell_strlen_open: "NUL \<notin> set t \<Longrightarrow> cell_strlen (map Some t) = None"
  by (induction t) auto

lemma c_strncpy_full:
  assumes "n \<le> length s" and "n = length dst" and "NUL \<notin> set s"
  shows "\<exists>m. c_strncpy dst s n = Some m \<and> array_string m = None"
proof -
  have "NUL \<notin> set (take n s)" using assms(3) by (auto dest: in_set_takeD)
  from cell_strlen_open [OF this] show ?thesis using c_strncpy_Some [of n s dst] assms by (simp add: array_string_def)
qed

section \<open>Numbers\<close>

text \<open>\<open>atoi\<close> and \<open>atol\<close>: \<open>long\<close> and \<open>int\<close> have 32 bits.\<close>

definition c_atol :: "char list \<Rightarrow> int" where
  "c_atol s = fst (strtol s)"

end
