(* ===== verification/Thumb_Uri.thy ===== *)
theory Thumb_Uri imports C_String begin

text \<open>
  \<open>src/src/autothumb/common.c\<close>: the information about a picture that a URL carries, and the parameters of
  a query. The fields of a \<open>file_info_t\<close> are arrays of the sizes in \<open>common.h\<close>; a name that does not fit
  is a write behind its array, which the model shows as \<open>None\<close>. The two local arrays of \<open>parse_uri\<close> are
  not initialised, so what the stack held before is an argument.
\<close>

section \<open>State\<close>

definition HTTPD_MAX_PARAMS :: nat where "HTTPD_MAX_PARAMS = 32"
definition FI_FILE_EXTENSION_SIZE :: nat where "FI_FILE_EXTENSION_SIZE = 5"
definition FI_FULL_FILENAME_SIZE :: nat where "FI_FULL_FILENAME_SIZE = 128"
definition FI_ORIG_FILENAME_SIZE :: nat where "FI_ORIG_FILENAME_SIZE = 128"
definition FI_OUTER_FORMAT_SIZE :: nat where "FI_OUTER_FORMAT_SIZE = 16"
definition FI_INNER_FORMAT_SIZE :: nat where "FI_INNER_FORMAT_SIZE = 32"
definition FI_SUFFIX_SIZE :: nat where "FI_SUFFIX_SIZE = 32"
definition MAX_SUFFIX_SIZE :: nat where "MAX_SUFFIX_SIZE = 12"

record file_info =
  rotate_degree :: "32 word"
  quality :: "32 word"
  file_extension :: "cell list"
  full_filename :: "cell list"
  orig_filename :: "cell list"
  outer_format :: "cell list"
  inner_format :: "cell list"
  suffix_text :: "cell list"
  create_timestamp :: int

definition file_info_init :: file_info where
  "file_info_init = \<lparr>rotate_degree = 0, quality = 0,
     file_extension = char_array FI_FILE_EXTENSION_SIZE, full_filename = char_array FI_FULL_FILENAME_SIZE,
     orig_filename = char_array FI_ORIG_FILENAME_SIZE, outer_format = char_array FI_OUTER_FORMAT_SIZE,
     inner_format = char_array FI_INNER_FORMAT_SIZE, suffix_text = char_array FI_SUFFIX_SIZE,
     create_timestamp = 0\<rparr>"

section \<open>Parsing a picture's URL\<close>

text \<open>A number of at most \<open>n\<close> characters behind the last \<open>mark\<close> of the format, through the second local array,
  in which \<open>strncpy\<close> writes no terminator.\<close>

definition marked_number :: "cell list \<Rightarrow> char list \<Rightarrow> char \<Rightarrow> nat \<Rightarrow> (32 word option \<times> cell list) option" where
  "marked_number arr2 fmt mark n =
     (case strrchr fmt mark of
        None \<Rightarrow> Some (None, arr2)
      | Some i \<Rightarrow> do {
          arr2 \<leftarrow> c_strncpy arr2 (drop (Suc i) fmt) n;
          s \<leftarrow> array_string arr2;
          Some (Some (word_of_int (c_atol s)), arr2) })"

definition parse_format :: "cell list \<Rightarrow> char list \<Rightarrow> file_info \<Rightarrow> file_info option" where
  "parse_format arr2 fmt fi =
     (case strchr fmt (CHR ''_'') of
        None \<Rightarrow> do { m \<leftarrow> c_strcpy (outer_format fi) fmt; Some (fi\<lparr>outer_format := m\<rparr>) }
      | Some k \<Rightarrow> do {
          m \<leftarrow> c_strncpy (outer_format fi) fmt k;
          (q, arr2) \<leftarrow> marked_number arr2 fmt (CHR ''q'') 1;
          (r, arr2) \<leftarrow> marked_number arr2 fmt (CHR ''r'') 2;
          Some (fi\<lparr>outer_format := m,
                   quality := (case q of None \<Rightarrow> quality fi | Some v \<Rightarrow> v),
                   rotate_degree := (case r of None \<Rightarrow> rotate_degree fi | Some v \<Rightarrow> v)\<rparr>) })"

text \<open>\<open>sprintf(arr, "_q%d", v)\<close> into an array of \<open>MAX_SUFFIX_SIZE\<close> when the number is positive; it is then
  multiplied by ten.\<close>

definition option_text :: "char list \<Rightarrow> 32 word \<Rightarrow> (char list \<times> 32 word) option" where
  "option_text tag v =
     (if v > 0 then do {
        let t = tag @ show_int (sint v);
        m \<leftarrow> c_strcpy (char_array MAX_SUFFIX_SIZE) t;
        Some (t, v * 10) }
      else Some ('''', v))"

definition make_suffix :: "file_info \<Rightarrow> file_info option" where
  "make_suffix fi = do {
     outer \<leftarrow> array_string (outer_format fi);
     if outer = [] then Some fi
     else do {
       (t1, q) \<leftarrow> option_text ''_q'' (quality fi);
       (t2, r) \<leftarrow> option_text ''_r'' (rotate_degree fi);
       m \<leftarrow> c_strcpy (suffix_text fi) (''_'' @ outer @ t1 @ t2);
       Some (fi\<lparr>quality := q, rotate_degree := r, suffix_text := m\<rparr>) } }"

text \<open>\<open>sprintf(fi->orig_filename, "%s.%s", fi->orig_filename, ...)\<close> has its destination among its arguments;
  the C library in use copies the name onto itself and appends to it.\<close>

definition make_filenames :: "file_info \<Rightarrow> file_info option" where
  "make_filenames fi = do {
     orig \<leftarrow> array_string (orig_filename fi);
     suf \<leftarrow> array_string (suffix_text fi);
     ext \<leftarrow> array_string (file_extension fi);
     full \<leftarrow> c_strcpy (full_filename fi) (orig @ suf @ ''.'' @ ext);
     orig' \<leftarrow> c_strcpy (orig_filename fi) (orig @ ''.'' @ ext);
     Some (fi\<lparr>full_filename := full, orig_filename := orig'\<rparr>) }"

text \<open>The part behind the name: \<open>Inl\<close> is the early return.\<close>

definition parse_name :: "cell list \<Rightarrow> cell list \<Rightarrow> file_info \<Rightarrow> (int \<times> file_info + file_info) option" where
  "parse_name arr1 arr2 fi = do {
     full \<leftarrow> array_string (full_filename fi);
     case strchr full (CHR ''='') of
       None \<Rightarrow> do {
         outer \<leftarrow> put_char (outer_format fi) 0 NUL;
         suf \<leftarrow> put_char (suffix_text fi) 0 NUL;
         orig \<leftarrow> c_strcpy (orig_filename fi) full;
         Some (Inr (fi\<lparr>outer_format := outer, suffix_text := suf, orig_filename := orig\<rparr>)) }
     | Some k \<Rightarrow> do {
         orig \<leftarrow> c_strncpy (orig_filename fi) full k;
         let fmt = drop (Suc k) full;
         if length fmt > MAX_SUFFIX_SIZE then Some (Inl (-2, fi\<lparr>orig_filename := orig\<rparr>))
         else do {
           arr1 \<leftarrow> c_strcpy arr1 fmt;
           fi \<leftarrow> parse_format arr2 fmt (fi\<lparr>orig_filename := orig\<rparr>);
           Some (Inr fi) } } }"

definition parse_uri :: "char list \<Rightarrow> char list \<Rightarrow> char list \<Rightarrow> file_info \<Rightarrow> (int \<times> file_info) option" where
  "parse_uri stk1 stk2 url fi = (
     let u = (if url \<noteq> [] \<and> hd url = CHR ''/'' then tl url else url) in
     case strrchr u (CHR ''.'') of
       None \<Rightarrow> Some (-1, fi)
     | Some n \<Rightarrow> do {
         full \<leftarrow> c_strncpy (full_filename fi) u n;
         res \<leftarrow> parse_name (map Some stk1) (map Some stk2) (fi\<lparr>full_filename := full\<rparr>);
         case res of
           Inl r \<Rightarrow> Some r
         | Inr fi \<Rightarrow> do {
             ext \<leftarrow> c_strcpy (file_extension fi) (drop (Suc n) u);
             fi \<leftarrow> make_suffix (fi\<lparr>file_extension := ext\<rparr>);
             fi \<leftarrow> make_filenames fi;
             Some (0, fi) } })"

section \<open>What the fields hold\<close>

lemmas sizes = FI_FILE_EXTENSION_SIZE_def FI_FULL_FILENAME_SIZE_def FI_ORIG_FILENAME_SIZE_def
  FI_OUTER_FORMAT_SIZE_def FI_INNER_FORMAT_SIZE_def FI_SUFFIX_SIZE_def MAX_SUFFIX_SIZE_def

text \<open>The information a well-formed URL carries.\<close>

definition file_info_holds :: "file_info \<Rightarrow> char list \<Rightarrow> char list \<Rightarrow> char list \<Rightarrow> char list \<Rightarrow> char list \<Rightarrow> bool" where
  "file_info_holds fi full orig outer suf ext \<longleftrightarrow>
     array_string (full_filename fi) = Some full \<and> array_string (orig_filename fi) = Some orig \<and>
     array_string (outer_format fi) = Some outer \<and> array_string (suffix_text fi) = Some suf \<and>
     array_string (file_extension fi) = Some ext"

lemma length_char_array [simp]: "length (char_array n) = n"
  by (simp add: char_array_def)

lemma put_nul_array: "0 < length m \<Longrightarrow> \<exists>m'. put_char m 0 NUL = Some m' \<and> array_string m' = Some [] \<and> length m' = length m"
  using array_string_cells [of "[]" "drop 1 m"] by (cases m) (auto simp: put_char_def mwrite_def)

lemma array_string_no_nul:
  assumes "array_string m = Some s"
  shows "NUL \<notin> set s \<and> length s < length m"
proof -
  from assms obtain n where n: "cell_strlen m = Some n" "mread_init 0 n m = Some s"
    by (auto simp: array_string_def bind_Some_iff)
  from cell_strlen_SomeD [OF n(1)] obtain t where
    t: "length t = n" "NUL \<notin> set t" "take (Suc n) m = map Some (t @ [NUL])" "n < length m" by blast
  have "take n m = take n (map Some (t @ [NUL]))" using arg_cong [OF t(3), of "take n"] by simp
  then have "take n m = map Some t" using t(1) by simp
  then have "s = t" using n(2) t(4) by (simp add: mread_init_def mread_def)
  with t show ?thesis by simp
qed

lemma make_filenames_fits:
  assumes h: "array_string (orig_filename fi) = Some orig" "array_string (suffix_text fi) = Some suf"
      "array_string (file_extension fi) = Some ext"
    and len: "length (full_filename fi) = 128" "length (orig_filename fi) = 128"
  shows "if length orig + length suf + 1 + length ext < 128
    then \<exists>fi'. make_filenames fi = Some fi' \<and> array_string (full_filename fi') = Some (orig @ suf @ ''.'' @ ext) \<and>
      array_string (orig_filename fi') = Some (orig @ ''.'' @ ext) \<and> outer_format fi' = outer_format fi \<and>
      suffix_text fi' = suffix_text fi \<and> file_extension fi' = file_extension fi \<and>
      quality fi' = quality fi \<and> rotate_degree fi' = rotate_degree fi
    else make_filenames fi = None"
proof (cases "length orig + length suf + 1 + length ext < 128")
  case True
  have nul: "NUL \<notin> set (orig @ suf @ ''.'' @ ext)" "NUL \<notin> set (orig @ ''.'' @ ext)"
    using array_string_no_nul [OF h(1)] array_string_no_nul [OF h(2)] array_string_no_nul [OF h(3)] by auto
  have le: "length (orig @ suf @ ''.'' @ ext) < length (full_filename fi)" "length (orig @ ''.'' @ ext) < length (orig_filename fi)"
    using True len by auto
  from c_strcpy_array [OF le(1) nul(1)] c_strcpy_array [OF le(2) nul(2)] obtain m1 m2 where
    "c_strcpy (full_filename fi) (orig @ suf @ ''.'' @ ext) = Some m1" "array_string m1 = Some (orig @ suf @ ''.'' @ ext)"
    "c_strcpy (orig_filename fi) (orig @ ''.'' @ ext) = Some m2" "array_string m2 = Some (orig @ ''.'' @ ext)" by blast
  then show ?thesis using True h by (simp add: make_filenames_def)
next
  case False
  then have "c_strcpy (full_filename fi) (orig @ suf @ ''.'' @ ext) = None"
    using len by (intro c_strcpy_None) auto
  then show ?thesis using False h by (simp add: make_filenames_def)
qed

lemma parse_uri_split:
  assumes "CHR ''.'' \<notin> set ext"
  shows "parse_uri stk1 stk2 (CHR ''/'' # name @ CHR ''.'' # ext) fi = do {
     full \<leftarrow> c_strncpy (full_filename fi) (name @ CHR ''.'' # ext) (length name);
     res \<leftarrow> parse_name (map Some stk1) (map Some stk2) (fi\<lparr>full_filename := full\<rparr>);
     case res of
       Inl r \<Rightarrow> Some r
     | Inr fi \<Rightarrow> do {
         e \<leftarrow> c_strcpy (file_extension fi) ext;
         fi \<leftarrow> make_suffix (fi\<lparr>file_extension := e\<rparr>);
         fi \<leftarrow> make_filenames fi;
         Some (0, fi) } }"
  using assms by (simp add: parse_uri_def)

lemma init_fields [simp]:
  "full_filename file_info_init = char_array 128" "orig_filename file_info_init = char_array 128"
  "outer_format file_info_init = char_array 16" "suffix_text file_info_init = char_array 32"
  "file_extension file_info_init = char_array 5" "quality file_info_init = 0" "rotate_degree file_info_init = 0"
  by (simp_all add: file_info_init_def sizes)

text \<open>A picture without a format: its name and its original name are the URL.\<close>

lemma parse_uri_plain:
  assumes name: "CHR ''='' \<notin> set name" "NUL \<notin> set name" and ext: "CHR ''.'' \<notin> set ext" "NUL \<notin> set ext"
  shows "if length ext < 5 \<and> length name + 1 + length ext < 128
    then \<exists>fi. parse_uri stk1 stk2 (CHR ''/'' # name @ CHR ''.'' # ext) file_info_init = Some (0, fi) \<and>
      file_info_holds fi (name @ ''.'' @ ext) (name @ ''.'' @ ext) [] [] ext \<and> quality fi = 0 \<and> rotate_degree fi = 0
    else parse_uri stk1 stk2 (CHR ''/'' # name @ CHR ''.'' # ext) file_info_init = None"
proof (cases "length name < 128")
  case False
  have "(case c_strncpy (char_array 128) (name @ CHR ''.'' # ext) (length name) of
      None \<Rightarrow> True | Some full \<Rightarrow> array_string full = None)"
  proof (cases "length name = 128")
    case True
    have "NUL \<notin> set (name @ CHR ''.'' # ext)" using name ext by simp
    then obtain m where "c_strncpy (char_array 128) (name @ CHR ''.'' # ext) (length name) = Some m" "array_string m = None"
      using c_strncpy_full [of "length name" "name @ CHR ''.'' # ext" "char_array 128"] True by auto
    then show ?thesis by simp
  next
    case False
    with \<open>\<not> length name < 128\<close> have "c_strncpy (char_array 128) (name @ CHR ''.'' # ext) (length name) = None"
      by (intro c_strncpy_None) simp
    then show ?thesis by simp
  qed
  then have "parse_uri stk1 stk2 (CHR ''/'' # name @ CHR ''.'' # ext) file_info_init = None"
    unfolding parse_uri_split [OF ext(1)] by (auto simp: parse_name_def split: option.splits bind_split)
  with False show ?thesis by simp
next
  case True
  have "NUL \<notin> set (name @ CHR ''.'' # ext)" using name ext by simp
  from c_strncpy_array [OF _ True this] obtain full where
    full: "c_strncpy (char_array 128) (name @ CHR ''.'' # ext) (length name) = Some full"
      "array_string full = Some name" "length full = 128" by auto
  from put_nul_array [of "char_array 16"] put_nul_array [of "char_array 32"] obtain o1 s1 where
    os: "put_char (char_array 16) 0 NUL = Some o1" "array_string o1 = Some []"
      "put_char (char_array 32) 0 NUL = Some s1" "array_string s1 = Some []" by auto
  from c_strcpy_array [of name "char_array 128"] True name(2) obtain orig where
    orig: "c_strcpy (char_array 128) name = Some orig" "array_string orig = Some name" "length orig = 128" by auto
  define fi1 where "fi1 = file_info_init\<lparr>full_filename := full, outer_format := o1, suffix_text := s1, orig_filename := orig\<rparr>"
  have pn: "parse_name a1 a2 (file_info_init\<lparr>full_filename := full\<rparr>) = Some (Inr fi1)" for a1 a2
    using name(1) full os orig by (simp add: parse_name_def fi1_def)
  show ?thesis
  proof (cases "length ext < 5")
    case False
    then have "c_strcpy (char_array 5) ext = None" by (intro c_strcpy_None) simp
    then have "parse_uri stk1 stk2 (CHR ''/'' # name @ CHR ''.'' # ext) file_info_init = None"
      unfolding parse_uri_split [OF ext(1)] using full(1) pn by (simp add: fi1_def)
    with False show ?thesis by simp
  next
    case ext5: True
    from c_strcpy_array [of ext "char_array 5"] ext5 ext(2) obtain e where
      e: "c_strcpy (char_array 5) ext = Some e" "array_string e = Some ext" by auto
    define fi2 where "fi2 = fi1\<lparr>file_extension := e\<rparr>"
    have ms: "make_suffix fi2 = Some fi2" using os(2) by (simp add: make_suffix_def fi2_def fi1_def)
    have run: "parse_uri stk1 stk2 (CHR ''/'' # name @ CHR ''.'' # ext) file_info_init =
        do { fi \<leftarrow> make_filenames fi2; Some (0, fi) }"
      unfolding parse_uri_split [OF ext(1)] using full(1) pn e(1) ms by (simp add: fi2_def [symmetric]) (simp add: fi1_def fi2_def e(1))
    have "array_string (orig_filename fi2) = Some name" "array_string (suffix_text fi2) = Some []"
      "array_string (file_extension fi2) = Some ext" "length (full_filename fi2) = 128" "length (orig_filename fi2) = 128"
      using orig os e full by (simp_all add: fi2_def fi1_def)
    moreover have "array_string (outer_format fi2) = Some []" "quality fi2 = 0" "rotate_degree fi2 = 0"
      using os by (simp_all add: fi2_def fi1_def)
    ultimately show ?thesis
      using make_filenames_fits [of fi2 name "[]" ext] ext5 unfolding run by (auto simp: file_info_holds_def)
  qed
qed

text \<open>A picture in a format: the format separates the two names.\<close>

lemma parse_uri_formatted:
  assumes name: "CHR ''='' \<notin> set name" "NUL \<notin> set name"
    and fmt: "fmt \<noteq> []" "CHR ''_'' \<notin> set fmt" "NUL \<notin> set fmt" "length fmt < 12"
    and ext: "CHR ''.'' \<notin> set ext" "NUL \<notin> set ext" "length ext < 5"
    and len: "length name + 1 + length fmt < 128" "length name + 2 + length fmt + length ext < 128"
    and stk: "length stk1 = 12"
  shows "\<exists>fi. parse_uri stk1 stk2 (CHR ''/'' # (name @ CHR ''='' # fmt) @ CHR ''.'' # ext) file_info_init = Some (0, fi) \<and>
    file_info_holds fi (name @ ''_'' @ fmt @ ''.'' @ ext) (name @ ''.'' @ ext) fmt (''_'' @ fmt) ext \<and>
    quality fi = 0 \<and> rotate_degree fi = 0"
proof -
  let ?n = "name @ CHR ''='' # fmt"
  have "NUL \<notin> set (?n @ CHR ''.'' # ext)" "length ?n < 128" using name ext fmt len by auto
  from c_strncpy_array [OF _ this(2,1)] obtain full where
    full: "c_strncpy (char_array 128) (?n @ CHR ''.'' # ext) (length ?n) = Some full"
      "array_string full = Some ?n" "length full = 128" by auto
  have "length name \<le> length ?n" "length name < 128" "NUL \<notin> set ?n" using name fmt len by auto
  from c_strncpy_array [OF this] obtain orig where
    orig: "c_strncpy (char_array 128) ?n (length name) = Some orig" "array_string orig = Some name" "length orig = 128"
    by auto
  have "length fmt < length (map Some stk1 :: cell list)" using fmt(4) stk by simp
  from c_strcpy_array [OF this fmt(3)] obtain arr1 where arr1: "c_strcpy (map Some stk1) fmt = Some arr1" by blast
  have "length fmt < length (char_array 16)" using fmt(4) by simp
  from c_strcpy_array [OF this fmt(3)] obtain outer where
    outer: "c_strcpy (char_array 16) fmt = Some outer" "array_string outer = Some fmt" by blast
  define fi1 where "fi1 = file_info_init\<lparr>full_filename := full, orig_filename := orig, outer_format := outer\<rparr>"
  have "parse_format a2 fmt (file_info_init\<lparr>full_filename := full, orig_filename := orig\<rparr>) = Some fi1" for a2
    using fmt(2) outer(1) by (simp add: parse_format_def fi1_def)
  then have pn: "parse_name (map Some stk1) a2 (file_info_init\<lparr>full_filename := full\<rparr>) = Some (Inr fi1)" for a2
    using name(1) full(2) orig(1) arr1 fmt(4) by (simp add: parse_name_def sizes)
  have "length ext < length (char_array 5)" using ext(3) by simp
  from c_strcpy_array [OF this ext(2)] obtain e where e: "c_strcpy (char_array 5) ext = Some e" "array_string e = Some ext" by blast
  have "NUL \<notin> set (''_'' @ fmt)" "length (''_'' @ fmt) < length (char_array 32)" using fmt by auto
  from c_strcpy_array [OF this(2,1)] obtain suf where
    suf: "c_strcpy (char_array 32) (''_'' @ fmt) = Some suf" "array_string suf = Some (''_'' @ fmt)" by blast
  define fi2 where "fi2 = fi1\<lparr>file_extension := e\<rparr>"
  define fi3 where "fi3 = fi2\<lparr>suffix_text := suf\<rparr>"
  have ms: "make_suffix fi2 = Some fi3"
    using outer(2) fmt(1) suf(1) by (simp add: make_suffix_def option_text_def fi3_def fi2_def fi1_def)
  have ext1: "c_strcpy (file_extension fi1) ext = Some e" using e(1) by (simp add: fi1_def)
  have run: "parse_uri stk1 stk2 (CHR ''/'' # ?n @ CHR ''.'' # ext) file_info_init =
      do { fi \<leftarrow> make_filenames fi3; Some (0, fi) }"
    unfolding parse_uri_split [OF ext(1)] using full(1) pn ext1 ms by (simp add: fi2_def [symmetric])
  have h: "array_string (orig_filename fi3) = Some name" "array_string (suffix_text fi3) = Some (''_'' @ fmt)"
    "array_string (file_extension fi3) = Some ext" "length (full_filename fi3) = 128" "length (orig_filename fi3) = 128"
    "array_string (outer_format fi3) = Some fmt" "quality fi3 = 0" "rotate_degree fi3 = 0"
    using orig suf e full outer by (simp_all add: fi3_def fi2_def fi1_def)
  show ?thesis
    using make_filenames_fits [OF h(1-5)] len(2) h(6-8) unfolding run by (auto simp: file_info_holds_def h)
qed

section \<open>Query parameters\<close>

text \<open>The pairs \<open>key=value\<close> between the ampersands behind the question mark, at most \<open>max_count\<close> of them; a
  part without an equals sign or with an empty key is skipped. \<open>decode\<close> is the client library's
  \<open>urldecode\<close>. A pair is the two strings its pointers denote; the first component is \<open>url\<close> as the call leaves it.\<close>

definition key_value :: "(char list \<Rightarrow> char list) \<Rightarrow> char list \<Rightarrow> (char list \<times> char list) option" where
  "key_value decode part =
     (case strchr part (CHR ''='') of
        None \<Rightarrow> None
      | Some n \<Rightarrow> if n = 0 then None else Some (take n part, decode (drop (Suc n) part)))"

fun params_loop :: "(char list \<Rightarrow> char list) \<Rightarrow> nat \<Rightarrow> char list list \<Rightarrow> (char list \<times> char list) list" where
  "params_loop decode n [] = []"
| "params_loop decode 0 parts = []"
| "params_loop decode (Suc n) (part # parts) =
     (case key_value decode part of
        None \<Rightarrow> params_loop decode (Suc n) parts
      | Some pr \<Rightarrow> pr # params_loop decode n parts)"

text \<open>The loop ends at an empty rest, so a trailing ampersand adds no part.\<close>

definition query_parts :: "char list \<Rightarrow> char list list" where
  "query_parts q = (let ps = split_on (CHR ''&'') q in if last ps = [] then butlast ps else ps)"

definition parse_uri_params :: "(char list \<Rightarrow> char list) \<Rightarrow> char list \<Rightarrow> nat \<Rightarrow> char list \<times> (char list \<times> char list) list" where
  "parse_uri_params decode url max_count =
     (case strchr url (CHR ''?'') of
        None \<Rightarrow> (url, [])
      | Some n \<Rightarrow> (take n url, params_loop decode max_count (query_parts (drop (Suc n) url))))"

fun get_uri_param :: "char list \<Rightarrow> (char list \<times> char list) list \<Rightarrow> char list option" where
  "get_uri_param name [] = None"
| "get_uri_param name ((k, v) # ps) = (if k = name then Some v else get_uri_param name ps)"

lemma get_uri_param_map_of: "get_uri_param name ps = map_of ps name"
  by (induction ps) auto

text \<open>A query as a form sends it.\<close>

definition render_query :: "(char list \<times> char list) list \<Rightarrow> char list" where
  "render_query ps = concat (map (\<lambda>(k, v). k @ ''='' @ v @ ''&'') ps)"

lemma split_on_part: "c \<notin> set s \<Longrightarrow> split_on c (s @ c # t) = s # split_on c t"
  by (induction s) (auto simp: split_on_nonempty)

lemma key_value_pair: "k \<noteq> [] \<Longrightarrow> CHR ''='' \<notin> set k \<Longrightarrow> key_value decode (k @ CHR ''='' # v) = Some (k, decode v)"
  by (simp add: key_value_def)

lemma split_render:
  assumes "\<forall>(k, v) \<in> set ps. CHR ''&'' \<notin> set k \<and> CHR ''&'' \<notin> set v"
  shows "split_on (CHR ''&'') (render_query ps) = map (\<lambda>(k, v). k @ CHR ''='' # v) ps @ [[]]"
  using assms
proof (induction ps)
  case Nil
  then show ?case by (simp add: render_query_def)
next
  case (Cons pr ps)
  obtain k v where kv: "pr = (k, v)" by (cases pr)
  have "split_on (CHR ''&'') ((k @ CHR ''='' # v) @ CHR ''&'' # render_query ps) =
      (k @ CHR ''='' # v) # split_on (CHR ''&'') (render_query ps)"
    using Cons.prems kv by (intro split_on_part) auto
  with Cons kv show ?case by (simp add: render_query_def)
qed

lemma params_loop_pairs:
  assumes "\<forall>(k, v) \<in> set ps. k \<noteq> [] \<and> CHR ''='' \<notin> set k"
  shows "params_loop decode n (map (\<lambda>(k, v). k @ CHR ''='' # v) ps) = take n (map (\<lambda>(k, v). (k, decode v)) ps)"
  using assms
proof (induction ps arbitrary: n)
  case Nil
  then show ?case by simp
next
  case (Cons pr ps)
  obtain k v where kv: "pr = (k, v)" by (cases pr)
  with Cons.prems have "key_value decode (k @ CHR ''='' # v) = Some (k, decode v)" by (intro key_value_pair) auto
  with Cons kv show ?case by (cases n) auto
qed

section \<open>Properties\<close>



text \<open>C37: For a URL without a format, parsing stays inside the arrays of a \<open>file_info_t\<close> exactly when the extension has at
  most four characters and the whole name at most 127; a longer one, which the client chooses, is written behind its array.\<close>

theorem plain_url_fits_iff:
  assumes "CHR ''='' \<notin> set name" "NUL \<notin> set name" and "CHR ''.'' \<notin> set ext" "NUL \<notin> set ext"
  shows "parse_uri stk1 stk2 (CHR ''/'' # name @ CHR ''.'' # ext) file_info_init \<noteq> None \<longleftrightarrow>
    length ext < 5 \<and> length name + 1 + length ext < 128"
  using parse_uri_plain [OF assms, of stk1 stk2] by (auto split: if_splits)

theorem plain_url_fits_iff_witness:
  "parse_uri [] [] ''/photo.image'' file_info_init = None"
  using plain_url_fits_iff [of "''photo''" "''image''" "[]" "[]"]
  by (cases "parse_uri [] [] ''/photo.image'' file_info_init") auto

text \<open>The quality behind \<open>q\<close> is read from an array that holds one copied character and whatever the stack held: the
  same URL names two different files.\<close>

theorem quality_reads_stack:
  "map_option (\<lambda>(r, fi). (array_string (full_filename fi), quality fi))
     (parse_uri (replicate 12 NUL) (replicate 12 NUL) ''/a=w_q3.jpg'' file_info_init) = Some (Some ''a_w_q3.jpg'', 30) \<and>
   map_option (\<lambda>(r, fi). (array_string (full_filename fi), quality fi))
     (parse_uri (replicate 12 NUL) (CHR ''x'' # CHR ''2'' # replicate 10 NUL) ''/a=w_q3.jpg'' file_info_init)
     = Some (Some ''a_w_q32.jpg'', 320)"
  by code_simp

text \<open>C38: Parsing the query of a URL returns the pairs it was built from, the first \<open>max_count\<close> of them in order, each value
  decoded, and looking a name up returns its first value.\<close>

theorem query_params_round_trip:
  assumes "\<forall>(k, v) \<in> set ps. k \<noteq> [] \<and> CHR ''='' \<notin> set k \<and> CHR ''&'' \<notin> set k \<and> CHR ''&'' \<notin> set v"
    and "CHR ''?'' \<notin> set path"
  shows "parse_uri_params decode (path @ CHR ''?'' # render_query ps) n = (path, take n (map (\<lambda>(k, v). (k, decode v)) ps)) \<and>
    get_uri_param name (snd (parse_uri_params decode (path @ CHR ''?'' # render_query ps) n)) =
      map_of (take n (map (\<lambda>(k, v). (k, decode v)) ps)) name"
proof -
  have "query_parts (render_query ps) = map (\<lambda>(k, v). k @ CHR ''='' # v) ps"
  proof -
    have "\<forall>(k, v) \<in> set ps. CHR ''&'' \<notin> set k \<and> CHR ''&'' \<notin> set v" using assms(1) by auto
    from split_render [OF this] show ?thesis by (simp add: query_parts_def)
  qed
  moreover have "params_loop decode n (map (\<lambda>(k, v). k @ CHR ''='' # v) ps) = take n (map (\<lambda>(k, v). (k, decode v)) ps)"
    using assms(1) by (intro params_loop_pairs) auto
  ultimately have "parse_uri_params decode (path @ CHR ''?'' # render_query ps) n = (path, take n (map (\<lambda>(k, v). (k, decode v)) ps))"
    using assms(2) by (simp add: parse_uri_params_def)
  then show ?thesis by (simp add: get_uri_param_map_of)
qed

theorem query_params_round_trip_witness:
  "get_uri_param ''h'' (snd (parse_uri_params id (''/x'' @ CHR ''?'' # render_query [(''w'', ''10''), (''h'', ''20'')]) 32)) = Some ''20''"
  using query_params_round_trip [of "[(''w'', ''10''), (''h'', ''20'')]" "''/x''" id 32 "''h''"] by simp

end
