(* ===== verification/Thumbnail.thy ===== *)
theory Thumbnail imports Thumb_Uri begin

text \<open>
  \<open>src/src/autothumb/thumbnail.c\<close>: how a picture is converted. ImageMagick is not part of the repository: the
  size of a picture, the geometry parser and the encoder are parameters, and a conversion is the list of
  the operations requested for each image of the file. \<open>size_t\<close> and \<open>unsigned long\<close> are words of 32 bits, so that the
  arithmetic of the crop rectangle wraps as it does in the program.
\<close>

type_synonym size = "32 word"

section \<open>The crop rectangle\<close>

definition CROP_ITEM_COUNT :: nat where "CROP_ITEM_COUNT = 5"

text \<open>The tokens \<open>strtok_r\<close> returns.\<close>

function strtok_all :: "char list \<Rightarrow> char list \<Rightarrow> char list list" where
  "strtok_all delim s = (
     let t = dropWhile (\<lambda>c. c \<in> set delim) s in
     if t = [] then []
     else takeWhile (\<lambda>c. c \<notin> set delim) t # strtok_all delim (dropWhile (\<lambda>c. c \<notin> set delim) t))"
  by pat_completeness auto
termination
proof (relation "measure (\<lambda>(d, s). length s)", goal_cases)
  case (2 delim s t)
  from 2(2) obtain c u where t: "t = c # u" by (cases t) simp_all
  from 2(1) t have dw: "dropWhile (\<lambda>c. c \<in> set delim) s = c # u" by simp
  have "c \<notin> set delim" using hd_dropWhile [of "\<lambda>c. c \<in> set delim" s] unfolding dw by simp
  then have "dropWhile (\<lambda>c. c \<notin> set delim) t = dropWhile (\<lambda>c. c \<notin> set delim) u" by (simp add: t)
  moreover have "length (dropWhile (\<lambda>c. c \<notin> set delim) u) \<le> length u" by (rule length_dropWhile_le)
  moreover have "length t \<le> length s" unfolding 2(1) by (rule length_dropWhile_le)
  ultimately show ?case by (simp add: t)
qed simp

declare strtok_all.simps [simp del]

text \<open>The result, the size of the cut and the two percentages.\<close>

definition get_Crop_width_height :: "char list option \<Rightarrow> int \<times> size \<times> size \<times> size \<times> size" where
  "get_Crop_width_height inner =
     (case inner of
        None \<Rightarrow> (0, 0, 0, 0, 0)
      | Some s \<Rightarrow>
          let tokens = strtok_all ''x+ '' s;
              j = min CROP_ITEM_COUNT (length tokens);
              num = (\<lambda>i. word_of_int (c_atol (tokens ! i)))
          in if j < 2 \<or> j > 4 then (0, 0, 0, 0, 0)
             else (1, num 0, num 1, (if j = 3 then num 2 else if j \<ge> 4 then num 2 else 0), (if j \<ge> 4 then num 3 else 0)))"

definition get_pixels_by_rate :: "size \<Rightarrow> size \<Rightarrow> size \<Rightarrow> size" where
  "get_pixels_by_rate a b c =
     (if c = 0 then 0 else if (a * b) mod c \<noteq> 0 then a * b div c + 1 else a * b div c)"

definition IMAGE_FOR_MIN :: "size \<Rightarrow> size \<Rightarrow> size" where
  "IMAGE_FOR_MIN x y = (if x < y then x else y)"

text \<open>The offset along the axis that is longer than the cut; \<open>None\<close> is a division by zero.\<close>

definition crop_offset :: "size \<Rightarrow> size \<Rightarrow> size \<Rightarrow> size \<Rightarrow> size option" where
  "crop_offset len room x y =
     (if x = 0 \<and> y = 0 then Some 0
      else if x = 0 then (let off = len * (100 - y) div 100 in Some (off - IMAGE_FOR_MIN off room))
      else if y = 0 then (let off = len * x div 100 in Some (IMAGE_FOR_MIN off (len - room)))
      else if x + y = 0 then None
      else Some ((len - room) * x div (x + y)))"

text \<open>Width, height and offsets of the scaled picture.\<close>

definition get_Crop_offset_and_wh ::
  "size \<Rightarrow> size \<Rightarrow> size \<Rightarrow> size \<Rightarrow> size \<Rightarrow> size \<Rightarrow> (size \<times> size \<times> size \<times> size) option" where
  "get_Crop_offset_and_wh cw ch old_width old_height x y =
     (if cw * old_height \<ge> ch * old_width
      then (let height = get_pixels_by_rate cw old_height old_width in
            do { off \<leftarrow> crop_offset height ch x y; Some (cw, height, 0, off) })
      else (let width = get_pixels_by_rate ch old_width old_height in
            do { off \<leftarrow> crop_offset width cw x y; Some (width, ch, off, 0) }))"

section \<open>Converting a picture\<close>

datatype magick_op =
    Thumbnail_Image size size
  | Crop_Image size size int int
  | Rotate_Image size
  | Compression_Quality size
  | Strip_Image

record picture =
  pic_width :: size
  pic_height :: size
  pic_format_known :: bool

type_synonym geometry_parser = "char list \<Rightarrow> size \<Rightarrow> size \<Rightarrow> int \<times> int \<times> size \<times> size"

text \<open>The operations on every image: scaling or cutting, rotation, quality, and removal of the profiles. The
  flags for GIF and JPEG files are never set.\<close>

definition frame_ops :: "file_info \<Rightarrow> magick_op list \<Rightarrow> magick_op list" where
  "frame_ops fi shape =
     shape @ (if rotate_degree fi > 0 then [Rotate_Image (rotate_degree fi)] else []) @
     (if quality fi > 0 then [Compression_Quality (quality fi)] else []) @ [Strip_Image]"

text \<open>The shape of the result: the inner \<open>None\<close> is the return of NULL for a format that cannot be read.\<close>

definition conversion_shape :: "geometry_parser \<Rightarrow> picture \<Rightarrow> char list \<Rightarrow> (size \<times> size \<times> bool \<times> magick_op list) option option" where
  "conversion_shape geo pic inner = (
     let w = pic_width pic; h = pic_height pic in
     if inner \<noteq> [] \<and> hd inner = CHR ''c'' then
       (let (i, j, w', h') = geo (tl inner) w h in Some (Some (w', h', False, [Crop_Image w' h' i j])))
     else if inner \<noteq> [] \<and> hd inner = CHR ''C'' then
       (let (r, cw, ch, x, y) = get_Crop_width_height (Some (tl inner)) in
        if 0 \<ge> r then Some None
        else do {
          (w', h', xo, yo) \<leftarrow> get_Crop_offset_and_wh cw ch w h x y;
          Some (Some (w', h', True, [Thumbnail_Image w' h', Crop_Image cw ch (uint xo) (uint yo)])) })
     else
       (let (i, j, w', h') = geo inner w h in
        Some (Some (w', h', False, if w' = w \<and> h' = h then [] else [Thumbnail_Image w' h']))))"

definition covert_image :: "geometry_parser \<Rightarrow> picture \<Rightarrow> file_info \<Rightarrow> magick_op list option option" where
  "covert_image geo pic fi =
     (if \<not> pic_format_known pic then Some None
      else do {
        inner \<leftarrow> array_string (inner_format fi);
        shape \<leftarrow> conversion_shape geo pic inner;
        case shape of
          None \<Rightarrow> Some None
        | Some (w, h, is_Crop, ops) \<Rightarrow>
            if pic_width pic = w \<and> pic_height pic = h \<and> \<not> is_Crop \<and> rotate_degree fi = 0 \<and> quality fi = 0
            then Some (Some [])
            else if w = 0 \<or> h = 0 then Some None
            else Some (Some (frame_ops fi ops)) })"

text \<open>\<open>decode\<close> reads the picture, \<open>encode\<close> writes it after the operations on each image.\<close>

definition get_transition_image_blob ::
  "geometry_parser \<Rightarrow> ('a \<Rightarrow> picture option) \<Rightarrow> ('a \<Rightarrow> magick_op list \<Rightarrow> 'b) \<Rightarrow> 'a option \<Rightarrow> file_info option \<Rightarrow> 'b option option" where
  "get_transition_image_blob geo decode encode file_buf fio =
     (case (file_buf, fio) of
        (Some buf, Some fi) \<Rightarrow> do {
          inner \<leftarrow> array_string (inner_format fi);
          if rotate_degree fi = 0 \<and> inner = [] \<and> quality fi = 0 then Some None
          else (case decode buf of
                  None \<Rightarrow> Some None
                | Some pic \<Rightarrow> do {
                    r \<leftarrow> covert_image geo pic fi;
                    Some (map_option (encode buf) r) }) }
      | _ \<Rightarrow> Some None)"

text \<open>The same for a picture in a file, named by \<open>full_filename\<close>.\<close>

definition get_transition_image ::
  "geometry_parser \<Rightarrow> (char list \<Rightarrow> picture option) \<Rightarrow> (char list \<Rightarrow> magick_op list \<Rightarrow> 'b) \<Rightarrow> char list option \<Rightarrow> file_info option \<Rightarrow> 'b option option" where
  "get_transition_image geo decode encode full fio =
     (case (full, fio) of
        (Some nm, Some fi) \<Rightarrow> do {
          inner \<leftarrow> array_string (inner_format fi);
          if rotate_degree fi = 0 \<and> inner = [] \<and> quality fi = 0 then Some None
          else (case decode nm of
                  None \<Rightarrow> Some None
                | Some pic \<Rightarrow> do {
                    r \<leftarrow> covert_image geo pic fi;
                    Some (map_option (encode nm) r) }) }
      | _ \<Rightarrow> Some None)"

section \<open>The arithmetic without wrap-around\<close>

lemma unat_mult_small: "unat a * unat b < 2 ^ 32 \<Longrightarrow> unat (a * b :: size) = unat a * unat b"
  by (simp add: unat_word_ariths)

lemma unat_add_small: "unat a + unat b < 2 ^ 32 \<Longrightarrow> unat (a + b :: size) = unat a + unat b"
  by (simp add: unat_word_ariths)

lemma ceil_div_bounds:
  fixes a c :: nat
  assumes "0 < c"
  defines "q \<equiv> (if a mod c \<noteq> 0 then a div c + 1 else a div c)"
  shows "a \<le> q * c" and "q \<le> a"
proof -
  have a: "a = a div c * c + a mod c" by simp
  have "a mod c < c" using assms(1) by simp
  then have "a \<le> a div c * c + c" using a by linarith
  then show "a \<le> q * c" unfolding q_def using a by (cases "a mod c = 0") (simp_all add: algebra_simps)
  show "q \<le> a"
  proof (cases "a mod c = 0")
    case True
    then show ?thesis by (simp add: q_def)
  next
    case False
    have "a div c * 1 \<le> a div c * c" using assms(1) by (intro mult_le_mono2) simp
    then have "a div c + 1 \<le> a" using False a by linarith
    with False show ?thesis by (simp add: q_def)
  qed
qed

lemma pixels_by_rate_small:
  assumes "c \<noteq> 0" and "unat a * unat b < 2 ^ 32"
  shows "unat (get_pixels_by_rate a b c) =
    (if unat a * unat b mod unat c \<noteq> 0 then unat a * unat b div unat c + 1 else unat a * unat b div unat c)"
proof -
  let ?n = "unat a * unat b"
  have m: "unat (a * b) = ?n" by (rule unat_mult_small [OF assms(2)])
  have c: "0 < unat c" using assms(1) by (simp add: unat_gt_0)
  have md: "unat (a * b mod c) = ?n mod unat c" "unat (a * b div c) = ?n div unat c"
    by (simp_all add: unat_mod unat_div m)
  have nz: "a * b mod c \<noteq> 0 \<longleftrightarrow> ?n mod unat c \<noteq> 0" unfolding md(1) [symmetric] by (simp add: unat_eq_zero)
  show ?thesis
  proof (cases "?n mod unat c = 0")
    case True
    with nz md assms(1) show ?thesis by (simp add: get_pixels_by_rate_def)
  next
    case False
    then have "?n div unat c + 1 \<le> ?n" using ceil_div_bounds(2) [OF c, of ?n] by simp
    then have "?n div unat c + 1 < 2 ^ 32" using assms(2) by simp
    then have "unat (a * b div c + 1) = ?n div unat c + 1" using unat_add_small [of "a * b div c" 1] md(2) by simp
    with False nz assms(1) show ?thesis by (simp add: get_pixels_by_rate_def)
  qed
qed

text \<open>An offset leaves room for the cut.\<close>

lemma crop_offset_inside:
  assumes "unat room \<le> unat len" and "unat x \<le> 100" and "unat y \<le> 100" and "unat len * 100 < 2 ^ 32"
  shows "\<exists>off. crop_offset len room x y = Some off \<and> unat off + unat room \<le> unat len"
proof -
  have hundred: "unat (100 :: size) = 100" by simp
  consider "x = 0" "y = 0" | "x = 0" "y \<noteq> 0" | "x \<noteq> 0" "y = 0" | "x \<noteq> 0" "y \<noteq> 0" by blast
  then show ?thesis
  proof cases
    case 1
    with assms show ?thesis by (simp add: crop_offset_def)
  next
    case 2
    have "y \<le> 100" using assms(3) by (simp add: word_le_nat_alt)
    then have sub: "unat (100 - y) = 100 - unat y" by (simp add: unat_sub)
    have "unat len * unat (100 - y) \<le> unat len * 100" unfolding sub by (intro mult_le_mono2) simp
    from le_less_trans [OF this assms(4)]
    have "unat (len * (100 - y)) = unat len * unat (100 - y)" by (rule unat_mult_small)
    then have off: "unat (len * (100 - y) div 100) = unat len * unat (100 - y) div 100" by (simp add: unat_div)
    have "unat len * unat (100 - y) div 100 \<le> unat len * 100 div 100"
      unfolding sub by (intro div_le_mono mult_le_mono2) simp
    then have le: "unat (len * (100 - y) div 100) \<le> unat len" unfolding off by simp
    define o1 where "o1 = len * (100 - y) div 100"
    have "IMAGE_FOR_MIN o1 room \<le> o1" by (auto simp: IMAGE_FOR_MIN_def)
    then have "unat (o1 - IMAGE_FOR_MIN o1 room) = unat o1 - unat (IMAGE_FOR_MIN o1 room)" by (simp add: unat_sub)
    moreover have "unat o1 \<le> unat len" using le by (simp add: o1_def)
    moreover have "unat (IMAGE_FOR_MIN o1 room) = min (unat o1) (unat room)"
      by (auto simp: IMAGE_FOR_MIN_def word_less_nat_alt)
    ultimately have "unat (o1 - IMAGE_FOR_MIN o1 room) + unat room \<le> unat len" using assms(1) by linarith
    with 2 show ?thesis by (simp add: crop_offset_def o1_def [symmetric] Let_def)
  next
    case 3
    have "room \<le> len" using assms(1) by (simp add: word_le_nat_alt)
    then have sub: "unat (len - room) = unat len - unat room" by (simp add: unat_sub)
    have "unat (IMAGE_FOR_MIN (len * x div 100) (len - room)) \<le> unat (len - room)"
      by (auto simp: IMAGE_FOR_MIN_def word_less_nat_alt)
    with 3 sub assms(1) show ?thesis by (simp add: crop_offset_def Let_def)
  next
    case 4
    have "room \<le> len" using assms(1) by (simp add: word_le_nat_alt)
    then have sub: "unat (len - room) = unat len - unat room" by (simp add: unat_sub)
    have xy: "unat (x + y) = unat x + unat y" using assms(2,3) by (intro unat_add_small) simp
    have pos: "0 < unat x" using 4 by (simp add: unat_gt_0)
    then have nz: "x + y \<noteq> 0" using xy by (metis add_gr_0 less_irrefl unat_0)
    have "unat (len - room) * unat x \<le> unat len * 100" unfolding sub using assms(2) by (intro mult_le_mono) auto
    from le_less_trans [OF this assms(4)]
    have m: "unat ((len - room) * x) = unat (len - room) * unat x" by (rule unat_mult_small)
    have "unat (len - room) * unat x div (unat x + unat y) \<le> unat (len - room) * (unat x + unat y) div (unat x + unat y)"
      by (intro div_le_mono mult_le_mono2) simp
    also have "\<dots> = unat (len - room)" using pos by simp
    finally have "unat ((len - room) * x div (x + y)) \<le> unat (len - room)" by (simp add: unat_div m xy)
    with 4 nz sub assms(1) show ?thesis by (simp add: crop_offset_def)
  qed
qed

lemma get_Crop_offset_and_wh_inside:
  assumes pos: "cw \<noteq> 0" "ch \<noteq> 0" "w \<noteq> 0" "h \<noteq> 0"
    and small: "unat cw * unat h * 100 < 2 ^ 32" "unat ch * unat w * 100 < 2 ^ 32"
    and percent: "unat x \<le> 100" "unat y \<le> 100" and fit: "unat cw * 100 < 2 ^ 32" "unat ch * 100 < 2 ^ 32"
  shows "\<exists>w' h' xo yo. get_Crop_offset_and_wh cw ch w h x y = Some (w', h', xo, yo) \<and>
    unat xo + unat cw \<le> unat w' \<and> unat yo + unat ch \<le> unat h' \<and> w' \<noteq> 0 \<and> h' \<noteq> 0"
proof -
  have m1: "unat (cw * h) = unat cw * unat h" "unat cw * unat h < 2 ^ 32" using small(1) by (auto intro!: unat_mult_small)
  have m2: "unat (ch * w) = unat ch * unat w" "unat ch * unat w < 2 ^ 32" using small(2) by (auto intro!: unat_mult_small)
  have nz: "0 < unat cw" "0 < unat ch" "0 < unat w" "0 < unat h" using pos by (simp_all add: unat_gt_0)
  show ?thesis
  proof (cases "cw * h \<ge> ch * w")
    case True
    define ht where "ht = get_pixels_by_rate cw h w"
    note px = pixels_by_rate_small [OF pos(3) m1(2), folded ht_def]
    note cd = ceil_div_bounds [OF nz(3), of "unat cw * unat h", folded px]
    have "unat ch * unat w \<le> unat cw * unat h" using True m1 m2 by (simp add: word_le_nat_alt)
    with cd(1) have "unat ch * unat w \<le> unat ht * unat w" by linarith
    then have le: "unat ch \<le> unat ht" using nz(3) by simp
    have "unat ht * 100 \<le> unat cw * unat h * 100" using cd(2) by simp
    from le_less_trans [OF this small(1)] obtain off where
      "crop_offset ht ch x y = Some off" "unat off + unat ch \<le> unat ht"
      using crop_offset_inside [OF le percent] by blast
    moreover have "ht \<noteq> 0" using le nz(2) by (metis le_zero_eq not_less_zero unat_0)
    ultimately show ?thesis using True pos(1)
      by (simp add: get_Crop_offset_and_wh_def ht_def [symmetric] Let_def)
  next
    case False
    define wd where "wd = get_pixels_by_rate ch w h"
    note px = pixels_by_rate_small [OF pos(4) m2(2), folded wd_def]
    note cd = ceil_div_bounds [OF nz(4), of "unat ch * unat w", folded px]
    have "unat cw * unat h \<le> unat ch * unat w" using False m1 m2 by (simp add: word_le_nat_alt)
    with cd(1) have "unat cw * unat h \<le> unat wd * unat h" by linarith
    then have le: "unat cw \<le> unat wd" using nz(4) by simp
    have "unat wd * 100 \<le> unat ch * unat w * 100" using cd(2) by simp
    from le_less_trans [OF this small(2)] obtain off where
      "crop_offset wd cw x y = Some off" "unat off + unat cw \<le> unat wd"
      using crop_offset_inside [OF le percent] by blast
    moreover have "wd \<noteq> 0" using le nz(1) by (metis le_zero_eq not_less_zero unat_0)
    ultimately show ?thesis using False pos(2)
      by (simp add: get_Crop_offset_and_wh_def wd_def [symmetric] Let_def)
  qed
qed

lemma strtok_all_first:
  assumes "t \<noteq> []" "\<forall>c \<in> set t. c \<notin> set delim" "d \<in> set delim"
  shows "strtok_all delim (t @ d # s) = t # strtok_all delim s"
proof -
  obtain c u where t: "t = c # u" using assms(1) by (cases t) auto
  have "dropWhile (\<lambda>c. c \<in> set delim) (t @ d # s) = t @ d # s" using assms(2) t by simp
  moreover have "takeWhile (\<lambda>c. c \<notin> set delim) (t @ d # s) = t" "dropWhile (\<lambda>c. c \<notin> set delim) (t @ d # s) = d # s"
    using assms(2,3) by (auto simp: takeWhile_append2 dropWhile_append2)
  ultimately have "strtok_all delim (t @ d # s) = t # strtok_all delim (d # s)"
    by (subst strtok_all.simps) (simp add: t)
  moreover have "strtok_all delim (d # s) = strtok_all delim s"
    using assms(3) by (subst (1 2) strtok_all.simps) simp
  ultimately show ?thesis by simp
qed

section \<open>Properties\<close>

text \<open>C39: The rectangle that a crop format cuts out lies inside the scaled picture, for every picture and cut whose sizes do not
  overflow the 32 bit products and percentages of at most 100, and the scaled picture is not empty.\<close>

theorem crop_stays_inside:
  assumes "cw \<noteq> 0" "ch \<noteq> 0" "w \<noteq> 0" "h \<noteq> 0"
    and "unat cw * unat h * 100 < 2 ^ 32" "unat ch * unat w * 100 < 2 ^ 32"
    and "unat x \<le> 100" "unat y \<le> 100" and "unat cw * 100 < 2 ^ 32" "unat ch * 100 < 2 ^ 32"
  shows "\<exists>w' h' xo yo. get_Crop_offset_and_wh cw ch w h x y = Some (w', h', xo, yo) \<and>
    unat xo + unat cw \<le> unat w' \<and> unat yo + unat ch \<le> unat h' \<and> w' \<noteq> 0 \<and> h' \<noteq> 0"
  using assms by (rule get_Crop_offset_and_wh_inside)

theorem crop_stays_inside_witness:
  "\<exists>w' h' xo yo. get_Crop_offset_and_wh 300 300 640 480 50 0 = Some (w', h', xo, yo) \<and>
     unat xo + 300 \<le> unat w' \<and> unat yo + 300 \<le> unat h'"
  using crop_stays_inside [of 300 300 640 480 50 0] by auto

text \<open>A percentage above 100 makes \<open>100 - y\<close> wrap around: the cut then starts far outside the picture. Four numbers are
  accepted, five are not.\<close>

theorem crop_percent_wraps:
  "get_Crop_width_height (Some ''100x100+0+101'') = (1, 100, 100, 0, 101) \<and>
   get_Crop_offset_and_wh 100 100 100 200 0 101 = Some (100, 200, 0, 42949570) \<and>
   get_Crop_width_height (Some ''100x100+0+10+1'') = (0, 0, 0, 0, 0)"
  by (intro conjI; code_simp)

end
