(* ===== verification/Connection_State.thy ===== *)
theory Connection_State imports Request Chunk begin

text \<open>
  The connection of \<open>src/src/base.h\<close> with the names of its states (\<open>connections-glue.c\<close>), the lists of
  connections that wait for work (\<open>joblist.c\<close>) and the handler results of \<open>settings.h\<close>. The record
  extends the part the request parser works on, so that a connection is handed to the parser as it is.
  Buffers are their values. \<open>mode\<close> is 0 for \<open>DIRECT\<close> and the id of a plugin otherwise.
\<close>

section \<open>States\<close>

datatype connection_state =
    CON_STATE_CONNECT
  | CON_STATE_REQUEST_START
  | CON_STATE_READ
  | CON_STATE_REQUEST_END
  | CON_STATE_READ_POST
  | CON_STATE_HANDLE_REQUEST
  | CON_STATE_RESPONSE_START
  | CON_STATE_WRITE
  | CON_STATE_RESPONSE_END
  | CON_STATE_ERROR
  | CON_STATE_CLOSE

text \<open>The enumeration is in the order in which a request is processed.\<close>

fun state_index :: "connection_state \<Rightarrow> nat" where
  "state_index CON_STATE_CONNECT = 0"
| "state_index CON_STATE_REQUEST_START = 1"
| "state_index CON_STATE_READ = 2"
| "state_index CON_STATE_REQUEST_END = 3"
| "state_index CON_STATE_READ_POST = 4"
| "state_index CON_STATE_HANDLE_REQUEST = 5"
| "state_index CON_STATE_RESPONSE_START = 6"
| "state_index CON_STATE_WRITE = 7"
| "state_index CON_STATE_RESPONSE_END = 8"
| "state_index CON_STATE_ERROR = 9"
| "state_index CON_STATE_CLOSE = 10"

lemma state_index_inj: "state_index s = state_index t \<longleftrightarrow> s = t"
  by (cases s; cases t) simp_all

instantiation connection_state :: linorder
begin

definition less_eq_connection_state :: "connection_state \<Rightarrow> connection_state \<Rightarrow> bool" where
  "less_eq_connection_state s t \<longleftrightarrow> state_index s \<le> state_index t"

definition less_connection_state :: "connection_state \<Rightarrow> connection_state \<Rightarrow> bool" where
  "less_connection_state s t \<longleftrightarrow> state_index s < state_index t"

instance
  by standard (auto simp: less_eq_connection_state_def less_connection_state_def state_index_inj)

end

fun connection_get_state :: "connection_state \<Rightarrow> char list" where
  "connection_get_state CON_STATE_CONNECT = ''connect''"
| "connection_get_state CON_STATE_READ = ''read''"
| "connection_get_state CON_STATE_READ_POST = ''readpost''"
| "connection_get_state CON_STATE_WRITE = ''write''"
| "connection_get_state CON_STATE_CLOSE = ''close''"
| "connection_get_state CON_STATE_ERROR = ''error''"
| "connection_get_state CON_STATE_HANDLE_REQUEST = ''handle-req''"
| "connection_get_state CON_STATE_REQUEST_START = ''req-start''"
| "connection_get_state CON_STATE_REQUEST_END = ''req-end''"
| "connection_get_state CON_STATE_RESPONSE_START = ''resp-start''"
| "connection_get_state CON_STATE_RESPONSE_END = ''resp-end''"

fun connection_get_short_state :: "connection_state \<Rightarrow> char list" where
  "connection_get_short_state CON_STATE_CONNECT = ''.''"
| "connection_get_short_state CON_STATE_READ = ''r''"
| "connection_get_short_state CON_STATE_READ_POST = ''R''"
| "connection_get_short_state CON_STATE_WRITE = ''W''"
| "connection_get_short_state CON_STATE_CLOSE = ''C''"
| "connection_get_short_state CON_STATE_ERROR = ''E''"
| "connection_get_short_state CON_STATE_HANDLE_REQUEST = ''h''"
| "connection_get_short_state CON_STATE_REQUEST_START = ''q''"
| "connection_get_short_state CON_STATE_REQUEST_END = ''Q''"
| "connection_get_short_state CON_STATE_RESPONSE_START = ''s''"
| "connection_get_short_state CON_STATE_RESPONSE_END = ''S''"

datatype handler_t =
    HANDLER_UNSET
  | HANDLER_GO_ON
  | HANDLER_FINISHED
  | HANDLER_COMEBACK
  | HANDLER_WAIT_FOR_EVENT
  | HANDLER_ERROR
  | HANDLER_WAIT_FOR_FD

section \<open>Conditions of the configuration\<close>

text \<open>The fields a condition tests, its three-valued result and the entry of a condition in the cache of a connection.
  \<open>comp_value\<close> is a pointer to the buffer that was matched: \<open>cond_value\<close> says which one.\<close>

datatype comp_key_t =
    COMP_UNSET
  | COMP_SERVER_SOCKET
  | COMP_HTTP_URL
  | COMP_HTTP_HOST
  | COMP_HTTP_REFERER
  | COMP_HTTP_USER_AGENT
  | COMP_HTTP_LANGUAGE
  | COMP_HTTP_COOKIE
  | COMP_HTTP_REMOTE_IP
  | COMP_HTTP_QUERY_STRING
  | COMP_HTTP_SCHEME
  | COMP_HTTP_REQUEST_METHOD

datatype cond_result_t = COND_RESULT_UNSET | COND_RESULT_FALSE | COND_RESULT_TRUE

datatype cond_value =
    Authority_Value
  | Check_Buf
  | Empty_String
  | Address_Value
  | Scheme_Value
  | Path_Value
  | Query_Value
  | Token_Value
  | Header_Value "char list"
  | Tmp_Buf

record cond_cache_t =
  cc_result :: cond_result_t
  cc_patterncount :: int
  cc_matches :: "int list"
  cc_comp_value :: "cond_value option"
  cc_comp_type :: comp_key_t

definition cond_cache_init :: cond_cache_t where
  "cond_cache_init = \<lparr>cc_result = COND_RESULT_UNSET, cc_patterncount = 0, cc_matches = replicate 30 0, cc_comp_value = None, cc_comp_type = COMP_UNSET\<rparr>"

text \<open>The listening socket a connection came in on.\<close>

record server_socket =
  srv_token :: bstr
  srv_port :: nat

section \<open>Connections\<close>

record request_uri =
  uri_scheme :: bstr
  uri_authority :: bstr
  uri_path :: bstr
  uri_path_raw :: bstr
  uri_query :: bstr

record physical =
  phys_path :: bstr
  phys_basedir :: bstr
  phys_doc_root :: bstr
  phys_rel_path :: bstr
  phys_etag :: bstr

text \<open>The bits of \<open>parsed_response\<close> the server core tests.\<close>

record response =
  resp_content_length :: int
  resp_headers :: array
  resp_chunked :: bool
  resp_has_length :: bool
  resp_has_connection :: bool
  resp_has_date :: bool
  resp_has_location :: bool

record specific_config =
  cf_is_ssl :: bool
  cf_errorfile_prefix :: bstr
  cf_error_handler :: bstr
  cf_document_root :: bstr
  cf_server_name :: bstr
  cf_server_tag :: bstr
  cf_mimetypes :: array
  cf_request :: conf
  cf_range_requests :: bool
  cf_follow_symlink :: bool
  cf_force_lowercase :: bool
  cf_max_keep_alive_requests :: nat
  cf_max_keep_alive_idle :: nat
  cf_kbytes_per_second :: nat
  cf_global_kbytes_per_second :: nat
  cf_etag_use_inode :: bool
  cf_etag_use_mtime :: bool
  cf_etag_use_size :: bool

record connection = con +
  state :: connection_state
  read_idle_ts :: int
  close_timeout_ts :: int
  write_request_ts :: int
  connection_start :: int
  request_start :: int
  loops_per_request :: nat
  fd :: int
  fde_ndx :: int
  ndx :: int
  is_readable :: bool
  is_writable :: bool
  file_started :: bool
  file_finished :: bool
  write_queue :: chunkqueue
  read_queue :: chunkqueue
  request_content_queue :: chunkqueue
  traffic_limit_reached :: bool
  bytes_written :: int
  bytes_written_cur_second :: int
  bytes_read :: int
  bytes_header :: int
  dst_addr_buf :: bstr
  conuri :: request_uri
  pathinfo :: bstr
  phys :: physical
  resp :: response
  authed_user :: bstr
  environment :: array
  got_response :: bool
  in_joblist :: bool
  mode :: nat
  plugin_ctx :: "nat option list"
  cconf :: specific_config
  con_server_name :: bstr
  con_error_handler :: bstr
  error_handler_saved_status :: int
  in_error_handler :: bool
  keep_alive_idle :: int
  srv_socket :: server_socket
  dst_addr :: "32 word option"
  cond_cache :: "nat \<Rightarrow> cond_cache_t"
  conditional_is_valid :: "comp_key_t \<Rightarrow> bool"

definition connection_set_state :: "connection \<Rightarrow> connection_state \<Rightarrow> connection" where
  "connection_set_state c st = c\<lparr>state := st\<rparr>"

text \<open>\<open>connection_init\<close>: \<open>calloc\<close> and fresh buffers, queues and tables; \<open>cf\<close> is what \<open>config_setup_connection\<close> copies.\<close>

definition request_init :: request where
  "request_init = \<lparr>request_line = None, uri = None, orig_uri = None, http_method = HTTP_METHOD_GET,
     http_version = HTTP_VERSION_1_0, http_host = Null, http_range = Null, http_content_type = Null,
     http_if_modified_since = Null, http_if_none_match = Null, headers = array_init, content_length = 0\<rparr>"

definition con_init :: con where
  "con_init = \<lparr>request_count = 0, raw_request = None, parse_text = [], req = request_init, http_status = 0,
     keep_alive = 0, response_keep_alive = 0, header_len = 0, split_vals = array_init\<rparr>"

definition connection_init :: "specific_config \<Rightarrow> array option \<Rightarrow> nat \<Rightarrow> connection" where
  "connection_init cf dirs nplugins = con.extend con_init
     \<lparr>state = CON_STATE_CONNECT, read_idle_ts = 0, close_timeout_ts = 0, write_request_ts = 0,
      connection_start = 0, request_start = 0, loops_per_request = 0, fd = 0, fde_ndx = -1, ndx = -1,
      is_readable = False, is_writable = False, file_started = False, file_finished = False,
      write_queue = chunkqueue_init, read_queue = chunkqueue_init,
      request_content_queue = chunkqueue_init\<lparr>tempdirs := dirs\<rparr>,
      traffic_limit_reached = False, bytes_written = 0, bytes_written_cur_second = 0, bytes_read = 0,
      bytes_header = 0, dst_addr_buf = None,
      conuri = \<lparr>uri_scheme = None, uri_authority = None, uri_path = None, uri_path_raw = None, uri_query = None\<rparr>,
      pathinfo = None,
      phys = \<lparr>phys_path = None, phys_basedir = None, phys_doc_root = None, phys_rel_path = None, phys_etag = None\<rparr>,
      resp = \<lparr>resp_content_length = 0, resp_headers = array_init, resp_chunked = False, resp_has_length = False,
        resp_has_connection = False, resp_has_date = False, resp_has_location = False\<rparr>,
      authed_user = None, environment = array_init, got_response = False, in_joblist = False, mode = 0,
      plugin_ctx = replicate (nplugins + 1) None, cconf = cf, con_server_name = None, con_error_handler = None,
      error_handler_saved_status = 0, in_error_handler = False, keep_alive_idle = 0,
      srv_socket = \<lparr>srv_token = None, srv_port = 0\<rparr>, dst_addr = None, cond_cache = (\<lambda>_. cond_cache_init), conditional_is_valid = (\<lambda>_. False)\<rparr>"

definition config_none :: specific_config where
  "config_none = \<lparr>cf_is_ssl = False, cf_errorfile_prefix = None, cf_error_handler = None, cf_document_root = None,
     cf_server_name = None, cf_server_tag = None, cf_mimetypes = array_init,
     cf_request = \<lparr>allow_http11 = True, reject_expect_100_with_417 = False, max_request_size = 0\<rparr>,
     cf_range_requests = True, cf_follow_symlink = True, cf_force_lowercase = False, cf_max_keep_alive_requests = 16, cf_max_keep_alive_idle = 5,
     cf_kbytes_per_second = 0, cf_global_kbytes_per_second = 0,
     cf_etag_use_inode = True, cf_etag_use_mtime = True, cf_etag_use_size = True\<rparr>"

text \<open>A function on the parser's part of a connection.\<close>

definition on_con :: "(con \<Rightarrow> ('r \<times> con) option) \<Rightarrow> connection \<Rightarrow> ('r \<times> connection) option" where
  "on_con f c = do { (r, k) \<leftarrow> f (con.truncate c); Some (r, con.extend k (con.more c)) }"

lemma on_con_more:
  assumes "on_con f c = Some (r, d)"
  shows "con.more d = con.more c \<and> f (con.truncate c) = Some (r, con.truncate d)"
proof -
  from assms obtain k where "f (con.truncate c) = Some (r, k)" "d = con.extend k (con.more c)"
    by (auto simp: on_con_def bind_Some_iff)
  then show ?thesis by (simp add: con.defs)
qed

section \<open>Lists of connections\<close>

text \<open>A growing array of pointers to connections, named by their numbers. \<open>in_job\<close> is the flag \<open>in_joblist\<close> of the connection.\<close>

record con_list =
  cl_ptr :: "nat option list"
  cl_size :: nat
  cl_used :: nat

definition con_list_init :: con_list where
  "con_list_init = \<lparr>cl_ptr = [], cl_size = 0, cl_used = 0\<rparr>"

definition con_list_grow :: "con_list \<Rightarrow> con_list" where
  "con_list_grow l =
     (if cl_size l = 0 then l\<lparr>cl_size := 16, cl_ptr := replicate 16 None\<rparr>
      else if cl_used l = cl_size l
      then l\<lparr>cl_size := cl_size l + 16, cl_ptr := cl_ptr l @ replicate 16 None\<rparr>
      else l)"

definition con_list_add :: "con_list \<Rightarrow> nat \<Rightarrow> con_list option" where
  "con_list_add l c = (
     let l = con_list_grow l in do {
       p \<leftarrow> mwrite (cl_used l) [Some c] (cl_ptr l);
       Some (l\<lparr>cl_ptr := p, cl_used := cl_used l + 1\<rparr>) })"

definition joblist_append :: "con_list \<Rightarrow> bool \<Rightarrow> nat \<Rightarrow> con_list option" where
  "joblist_append l in_job c = (if in_job then Some l else con_list_add l c)"

definition fdwaitqueue_append :: "con_list \<Rightarrow> nat \<Rightarrow> con_list option" where
  "fdwaitqueue_append l c = con_list_add l c"

definition fdwaitqueue_unshift :: "con_list \<Rightarrow> (nat option \<times> con_list) option" where
  "fdwaitqueue_unshift l =
     (if cl_used l = 0 then Some (None, l)
      else do {
        c \<leftarrow> (if cl_ptr l = [] then None else Some (hd (cl_ptr l)));
        xs \<leftarrow> mread 1 (cl_used l - 1) (cl_ptr l);
        p \<leftarrow> mwrite 0 xs (cl_ptr l);
        Some (c, l\<lparr>cl_ptr := p, cl_used := cl_used l - 1\<rparr>) })"

text \<open>What the list holds.\<close>

definition con_list_repr :: "con_list \<Rightarrow> nat list \<Rightarrow> bool" where
  "con_list_repr l cs \<longleftrightarrow> length (cl_ptr l) = cl_size l \<and> cl_used l = length cs \<and>
     cl_used l \<le> cl_size l \<and> take (cl_used l) (cl_ptr l) = map Some cs"

lemma con_list_repr_init: "con_list_repr con_list_init []"
  by (simp add: con_list_repr_def con_list_init_def)

lemma con_list_grow_repr:
  "con_list_repr l cs \<Longrightarrow> con_list_repr (con_list_grow l) cs \<and> cl_used (con_list_grow l) < cl_size (con_list_grow l)"
  by (auto simp: con_list_repr_def con_list_grow_def)

lemma con_list_add_repr:
  assumes "con_list_repr l cs"
  shows "\<exists>l'. con_list_add l c = Some l' \<and> con_list_repr l' (cs @ [c])"
proof -
  have g: "length (cl_ptr (con_list_grow l)) = cl_size (con_list_grow l)" "cl_used (con_list_grow l) = length cs"
    "length cs < cl_size (con_list_grow l)" "take (length cs) (cl_ptr (con_list_grow l)) = map Some cs"
    using con_list_grow_repr [OF assms] by (auto simp: con_list_repr_def)
  then have "mwrite (length cs) [Some c] (cl_ptr (con_list_grow l)) =
      Some (map Some cs @ Some c # drop (Suc (length cs)) (cl_ptr (con_list_grow l)))"
    by (simp add: mwrite_def)
  with g show ?thesis by (auto simp: con_list_add_def Let_def con_list_repr_def)
qed

lemma fdwaitqueue_unshift_repr:
  assumes "con_list_repr l cs"
  shows "\<exists>l'. fdwaitqueue_unshift l = Some (case cs of [] \<Rightarrow> None | c # _ \<Rightarrow> Some c, l') \<and> con_list_repr l' (tl cs)"
proof (cases cs)
  case Nil
  with assms show ?thesis by (simp add: fdwaitqueue_unshift_def con_list_repr_def)
next
  case (Cons c ds)
  with assms obtain p where p: "cl_ptr l = Some c # p" "take (length ds) p = map Some ds" "length ds \<le> length p"
      "cl_used l = Suc (length ds)" "Suc (length p) = cl_size l"
    by (cases "cl_ptr l") (auto simp: con_list_repr_def)
  have "mread 1 (length ds) (cl_ptr l) = Some (map Some ds)" using p by (simp add: mread_def)
  moreover have "mwrite 0 (map Some ds) (cl_ptr l) = Some (map Some ds @ drop (length ds) (cl_ptr l))"
    using p by (simp add: mwrite_def)
  ultimately show ?thesis using Cons p by (auto simp: fdwaitqueue_unshift_def con_list_repr_def)
qed

section \<open>Properties\<close>

text \<open>Appending and taking from the front, as the server's wait queue does.\<close>

fun queue_ops :: "nat option list \<Rightarrow> con_list \<Rightarrow> (nat option list \<times> con_list) option" where
  "queue_ops [] l = Some ([], l)"
| "queue_ops (Some c # ops) l = do { l \<leftarrow> fdwaitqueue_append l c; queue_ops ops l }"
| "queue_ops (None # ops) l = do {
     (r, l) \<leftarrow> fdwaitqueue_unshift l; (rs, l) \<leftarrow> queue_ops ops l; Some (r # rs, l) }"

fun queue_spec :: "nat option list \<Rightarrow> nat list \<Rightarrow> nat option list \<times> nat list" where
  "queue_spec [] cs = ([], cs)"
| "queue_spec (Some c # ops) cs = queue_spec ops (cs @ [c])"
| "queue_spec (None # ops) cs = (case queue_spec ops (tl cs) of (rs, es) \<Rightarrow> ((case cs of [] \<Rightarrow> None | c # _ \<Rightarrow> Some c) # rs, es))"

lemma queue_ops_spec:
  assumes "con_list_repr l cs"
  shows "\<exists>l'. queue_ops ops l = Some (fst (queue_spec ops cs), l') \<and> con_list_repr l' (snd (queue_spec ops cs))"
  using assms
proof (induction ops arbitrary: l cs)
  case Nil
  then show ?case by simp
next
  case (Cons op ops)
  show ?case
  proof (cases op)
    case None
    from fdwaitqueue_unshift_repr [OF Cons.prems] obtain l1 where
      l1: "fdwaitqueue_unshift l = Some (case cs of [] \<Rightarrow> None | c # _ \<Rightarrow> Some c, l1)" "con_list_repr l1 (tl cs)" by blast
    from Cons.IH [OF l1(2)] obtain l2 where
      "queue_ops ops l1 = Some (fst (queue_spec ops (tl cs)), l2)" "con_list_repr l2 (snd (queue_spec ops (tl cs)))" by blast
    with None l1(1) show ?thesis by (simp add: case_prod_beta)
  next
    case (Some c)
    from con_list_add_repr [OF Cons.prems, of c] obtain l1 where
      l1: "con_list_add l c = Some l1" "con_list_repr l1 (cs @ [c])" by blast
    from Cons.IH [OF l1(2)] Some l1(1) show ?thesis by (simp add: fdwaitqueue_append_def)
  qed
qed

text \<open>The queue of connections that wait for a file descriptor is first in, first out, whatever the sequence of operations.\<close>

theorem fdwaitqueue_is_fifo:
  "\<exists>l. queue_ops ops con_list_init = Some (fst (queue_spec ops []), l) \<and> con_list_repr l (snd (queue_spec ops []))"
  by (rule queue_ops_spec [OF con_list_repr_init])

text \<open>Nothing sets the flag \<open>in_joblist\<close> that \<open>joblist_append\<close> tests: a connection appended twice is in the job list twice.\<close>

theorem joblist_holds_twice:
  assumes "con_list_repr l cs"
  shows "\<exists>l'. Option.bind (joblist_append l False c) (\<lambda>l. joblist_append l False c) = Some l' \<and> con_list_repr l' (cs @ [c, c])"
proof -
  from con_list_add_repr [OF assms, of c] obtain l1 where
    l1: "con_list_add l c = Some l1" "con_list_repr l1 (cs @ [c])" by blast
  with con_list_add_repr [OF l1(2), of c] show ?thesis by (auto simp: joblist_append_def)
qed

theorem joblist_holds_twice_witness:
  "\<exists>l'. Option.bind (joblist_append con_list_init False 3) (\<lambda>l. joblist_append l False 3) = Some l' \<and> con_list_repr l' [3, 3]"
  using joblist_holds_twice [OF con_list_repr_init, of 3] by simp

end
