(* ===== verification/Header_Glue.thy ===== *)
theory Header_Glue imports Connection_State C_String begin

text \<open>
  \<open>src/src/http-header-glue.c\<close> and \<open>src/src/etag.c\<close>: setting, overwriting and appending fields of the response
  header, the redirect to a directory, the cache of formatted times, and the answer to conditional
  requests. The calendar (\<open>gmtime\<close> with \<open>strftime\<close>, \<open>strptime\<close> with \<open>mktime\<close>) and the resolver are parameters.
\<close>

section \<open>Fields of the response\<close>

text \<open>\<open>buffer_copy_string_len(ds->value, value, vallen)\<close>; a NULL value leaves the buffer alone.\<close>

definition copy_value_into :: "data_unset \<Rightarrow> bstr \<Rightarrow> data_unset option" where
  "copy_value_into d v =
     (case v of None \<Rightarrow> Some d | Some s \<Rightarrow> do { x \<leftarrow> set_string (dvalue d) s; Some (d\<lparr>dvalue := x\<rparr>) })"

definition response_header_insert :: "array \<Rightarrow> char list \<Rightarrow> bstr \<Rightarrow> array option" where
  "response_header_insert hdrs key val = do {
     let (e, hdrs) = array_get_unused_element hdrs TYPE_STRING;
     let ds = (case e of Some d \<Rightarrow> d | None \<Rightarrow> data_response_init);
     ds \<leftarrow> copy_value_into (ds\<lparr>dkey := Some key\<rparr>) val;
     (r, hdrs) \<leftarrow> array_insert_unique hdrs ds;
     Some hdrs }"

text \<open>The element with that name is changed in place.\<close>

definition change_element :: "array \<Rightarrow> char list \<Rightarrow> (data_unset \<Rightarrow> data_unset option) \<Rightarrow> array option option" where
  "change_element hdrs key f = do {
     (i, pos) \<leftarrow> array_get_index hdrs (key_bytes (Some key));
     case i of
       None \<Rightarrow> Some None
     | Some i \<Rightarrow> do {
         d \<leftarrow> slot hdrs i;
         ds \<leftarrow> d;
         ds \<leftarrow> f ds;
         Some (Some (hdrs\<lparr>adata := (adata hdrs)[i := Some ds]\<rparr>)) } }"

definition response_header_overwrite :: "array \<Rightarrow> char list \<Rightarrow> bstr \<Rightarrow> array option" where
  "response_header_overwrite hdrs key val = do {
     r \<leftarrow> change_element hdrs key (\<lambda>ds. copy_value_into ds (map_option cstr val));
     case r of Some hdrs \<Rightarrow> Some hdrs | None \<Rightarrow> response_header_insert hdrs key val }"

fun append_to_value :: "data_value \<Rightarrow> bstr \<Rightarrow> data_value option" where
  "append_to_value (Data_String v) w = Some (Data_String (bappend (bcat v '', '') w))"
| "append_to_value (Data_Response v) w = Some (Data_Response (bappend (bcat v '', '') w))"
| "append_to_value x w = None"

definition response_header_append :: "array \<Rightarrow> char list \<Rightarrow> bstr \<Rightarrow> array option" where
  "response_header_append hdrs key val = do {
     r \<leftarrow> change_element hdrs key (\<lambda>ds. do { x \<leftarrow> append_to_value (dvalue ds) val; Some (ds\<lparr>dvalue := x\<rparr>) });
     case r of Some hdrs \<Rightarrow> Some hdrs | None \<Rightarrow> response_header_insert hdrs key val }"

definition set_resp_headers :: "array \<Rightarrow> connection \<Rightarrow> connection" where
  "set_resp_headers hdrs c = c\<lparr>resp := (resp c)\<lparr>resp_headers := hdrs\<rparr>\<rparr>"

section \<open>Redirect to a directory\<close>

text \<open>What the socket calls and the resolver say about the local address.\<close>

datatype local_name = No_Sockname | Local_Name "char list" | Other_Family

definition redirect_host :: "connection \<Rightarrow> local_name \<Rightarrow> int \<Rightarrow> (int + char list)" where
  "redirect_host c name port =
     (case uri_authority (conuri c) of
        Some a \<Rightarrow> Inr a
      | None \<Rightarrow>
          (case name of
             No_Sockname \<Rightarrow> Inl 0
           | Other_Family \<Rightarrow> Inl (-1)
           | Local_Name h \<Rightarrow>
               Inr (h @ (if (\<not> cf_is_ssl (cconf c) \<and> port = 80) \<or> (cf_is_ssl (cconf c) \<and> port = 443) then ''''
                         else '':'' @ show_int port))))"

definition http_response_redirect_to_directory :: "connection \<Rightarrow> local_name \<Rightarrow> int \<Rightarrow> (int \<times> connection) option" where
  "http_response_redirect_to_directory c name port = (
     let sch = (if cf_is_ssl (cconf c) then ''https://'' else ''http://'') in
     case redirect_host c name port of
       Inl r \<Rightarrow> Some (r, if r = 0 then c\<lparr>http_status := 500\<rparr> else c)
     | Inr host \<Rightarrow> do {
         let o1 = bcat (bappend (Some (sch @ host)) (uri_path (conuri c))) ''/'';
         let o2 = (case uri_query (conuri c) of None \<Rightarrow> o1 | Some q \<Rightarrow> bappend (bcat o1 [CHR 0x3F]) (Some q));
         hdrs \<leftarrow> response_header_insert (resp_headers (resp c)) ''Location'' o2;
         Some (0, (set_resp_headers hdrs c)\<lparr>http_status := 301, file_finished := True\<rparr>) })"

section \<open>Formatted times\<close>

definition FILE_CACHE_MAX :: nat where "FILE_CACHE_MAX = 16"

type_synonym mtime_cache = "(int \<times> bstr) list"

text \<open>The entry of a time, or the slot to use for it.\<close>

fun mtime_slot :: "mtime_cache \<Rightarrow> int \<Rightarrow> nat \<Rightarrow> nat + nat" where
  "mtime_slot [] t i = Inr 0"
| "mtime_slot ((m, s) # es) t i = (if m = t then Inl i else if m = 0 then Inr i else mtime_slot es t (i + 1))"

definition strftime_cache_get :: "(int \<Rightarrow> char list) \<Rightarrow> mtime_cache \<Rightarrow> int \<Rightarrow> bstr \<times> mtime_cache" where
  "strftime_cache_get format cache last_mod =
     (case mtime_slot cache last_mod 0 of
        Inl i \<Rightarrow> (snd (cache ! i), cache)
      | Inr i \<Rightarrow> (Some (format last_mod), cache[i := (last_mod, Some (format last_mod))]))"

definition mtime_cache_init :: mtime_cache where
  "mtime_cache_init = replicate FILE_CACHE_MAX (0, None)"

definition mtime_cache_ok :: "(int \<Rightarrow> char list) \<Rightarrow> mtime_cache \<Rightarrow> bool" where
  "mtime_cache_ok format cache \<longleftrightarrow> length cache = FILE_CACHE_MAX \<and>
     (\<forall>(m, s) \<in> set cache. m \<noteq> 0 \<longrightarrow> s = Some (format m))"

lemma mtime_slot_Inl: "mtime_slot es t i = Inl k \<Longrightarrow> i \<le> k \<and> k < i + length es \<and> fst (es ! (k - i)) = t"
  by (induction es t i rule: mtime_slot.induct) (auto simp: nth_Cons' split: if_splits)

lemma mtime_slot_Inr: "mtime_slot es t i = Inr k \<Longrightarrow> k = 0 \<or> k < i + length es"
  by (induction es t i rule: mtime_slot.induct) (auto split: if_splits)

lemma mtime_cache_ok_init: "mtime_cache_ok format mtime_cache_init"
  by (auto simp: mtime_cache_ok_def mtime_cache_init_def FILE_CACHE_MAX_def)

lemma strftime_cache_get_ok:
  assumes "mtime_cache_ok format cache" and "t \<noteq> 0"
  shows "fst (strftime_cache_get format cache t) = Some (format t) \<and>
    mtime_cache_ok format (snd (strftime_cache_get format cache t))"
proof (cases "mtime_slot cache t 0")
  case (Inl i)
  from mtime_slot_Inl [OF Inl] have i: "i < length cache" "fst (cache ! i) = t" by auto
  then obtain s where s: "cache ! i = (t, s)" by (cases "cache ! i") auto
  have "cache ! i \<in> set cache" using i by simp
  then have "(t, s) \<in> set cache" by (simp only: s)
  then have "s = Some (format t)" using assms by (auto simp: mtime_cache_ok_def)
  with Inl s assms(1) show ?thesis by (simp add: strftime_cache_get_def)
next
  case (Inr i)
  have "i < length cache" using mtime_slot_Inr [OF Inr] assms(1) by (auto simp: mtime_cache_ok_def FILE_CACHE_MAX_def)
  then show ?thesis
    using Inr assms by (auto simp: strftime_cache_get_def mtime_cache_ok_def dest!: set_update_subset_insert [THEN subsetD])
qed

section \<open>Entity tags\<close>

definition etag_is_equal :: "bstr \<Rightarrow> char list \<Rightarrow> bool" where
  "etag_is_equal etag matches \<longleftrightarrow> (case etag of None \<Rightarrow> False | Some e \<Rightarrow> cstr e = matches)"

record etag_flags =
  etag_use_inode :: bool
  etag_use_mtime :: bool
  etag_use_size :: bool

record stat =
  st_ino :: int
  st_size :: int
  st_mtime :: int
  st_isdir :: bool
  st_isreg :: bool

definition etag_create :: "bstr \<Rightarrow> stat \<Rightarrow> etag_flags \<Rightarrow> bstr" where
  "etag_create etag st flags =
     (if \<not> etag_use_inode flags \<and> \<not> etag_use_mtime flags \<and> \<not> etag_use_size flags then etag
      else (let e = None;
                e = (if etag_use_inode flags then bcat (bcat e (show_int (st_ino st))) ''-'' else e);
                e = (if etag_use_size flags then bcat (bcat e (show_int (st_size st))) ''-'' else e)
            in if etag_use_mtime flags then bcat e (show_int (st_mtime st)) else e))"

text \<open>One round of the hash, on a signed \<open>char\<close>.\<close>

definition etag_hash_step :: "32 word \<Rightarrow> char \<Rightarrow> 32 word" where
  "etag_hash_step h c = (let a = push_bit 5 h; b = drop_bit 27 h in xor (xor a b) (word_of_int (schar c)))"

text \<open>\<open>etag->used - 1\<close> is \<open>SIZE_MAX\<close> for an empty buffer: the loop then runs off the block.\<close>

definition etag_mutate :: "bstr \<Rightarrow> bstr option" where
  "etag_mutate etag =
     (case etag of
        None \<Rightarrow> None
      | Some e \<Rightarrow> Some (Some ([CHR 0x22] @ show_int (uint (foldl etag_hash_step 0 e)) @ [CHR 0x22])))"

section \<open>Conditional requests\<close>

text \<open>The string behind one of the pointers of the request.\<close>

definition request_string :: "connection \<Rightarrow> header_ptr \<Rightarrow> char list option" where
  "request_string c p = do { v \<leftarrow> header_string (con.truncate c) p; s \<leftarrow> v; Some (cstr s) }"

definition HTTP_DATE_SIZE :: nat where
  "HTTP_DATE_SIZE = 30"  \<comment> \<open>\<open>sizeof("Sat, 23 Jul 2005 21:20:01 GMT")\<close>\<close>

text \<open>The date without what follows a semicolon.\<close>

definition date_part :: "char list \<Rightarrow> char list" where
  "date_part s = (case strchr s (CHR '';'') of None \<Rightarrow> s | Some n \<Rightarrow> take n s)"

text \<open>\<open>0 == strncmp(date, mtime, used_len)\<close>, and whether \<open>mtime\<close> ends there.\<close>

definition same_prefix :: "char list \<Rightarrow> char list \<Rightarrow> bool" where
  "same_prefix d mt \<longleftrightarrow> length d \<le> length mt \<and> take (length d) mt = d"

text \<open>Comparing the date of the request with the date of the file. \<open>parse_date\<close> is \<open>strptime\<close> with \<open>mktime\<close>; the file's
  date is in that format, or the result is not determined. \<open>bad\<close> is the answer to a date that is no date.\<close>

definition date_answer ::
  "(char list \<Rightarrow> int option) \<Rightarrow> char list \<Rightarrow> char list \<Rightarrow> (connection \<Rightarrow> handler_t \<times> connection) \<Rightarrow> connection \<Rightarrow> (handler_t \<times> connection) option" where
  "date_answer parse_date ims mt bad c = (
     let d = date_part ims in
     if same_prefix d mt then Some (HANDLER_FINISHED, if length d = length mt then c\<lparr>http_status := 304\<rparr> else c)
     else if length d \<ge> HTTP_DATE_SIZE then Some (bad c)
     else (case parse_date d of
             None \<Rightarrow> Some (bad c)
           | Some t_header \<Rightarrow> do {
               t_file \<leftarrow> parse_date mt;
               if t_file > t_header then Some (HANDLER_GO_ON, c)
               else Some (HANDLER_FINISHED, c\<lparr>http_status := 304\<rparr>) }))"

definition precondition_failed :: "connection \<Rightarrow> handler_t \<times> connection" where
  "precondition_failed c = (HANDLER_FINISHED, c\<lparr>http_status := 412, mode := 0\<rparr>)"

definition http_response_handle_cachable ::
  "(char list \<Rightarrow> int option) \<Rightarrow> char list \<Rightarrow> connection \<Rightarrow> (handler_t \<times> connection) option" where
  "http_response_handle_cachable parse_date mt c =
     (if http_if_none_match (req c) \<noteq> Null then do {
        inm \<leftarrow> request_string c (http_if_none_match (req c));
        if etag_is_equal (phys_etag (phys c)) inm then
          (if http_method (req c) = HTTP_METHOD_GET \<or> http_method (req c) = HTTP_METHOD_HEAD then
             (if http_if_modified_since (req c) \<noteq> Null then do {
                ims \<leftarrow> request_string c (http_if_modified_since (req c));
                date_answer parse_date ims mt precondition_failed c }
              else Some (HANDLER_FINISHED, c\<lparr>http_status := 304\<rparr>))
           else Some (precondition_failed c))
        else Some (HANDLER_GO_ON, c) }
      else if http_if_modified_since (req c) \<noteq> Null then do {
        ims \<leftarrow> request_string c (http_if_modified_since (req c));
        date_answer parse_date ims mt (\<lambda>c. (HANDLER_GO_ON, c)) c }
      else Some (HANDLER_GO_ON, c))"

section \<open>What the answers say\<close>

lemma date_answer_304:
  assumes "date_answer parse_date ims mt bad c = Some (r, c')" and "http_status c' = 304" and "http_status c \<noteq> 304"
    and "\<And>r c'. bad c = (r, c') \<Longrightarrow> http_status c' \<noteq> 304"
  shows "r = HANDLER_FINISHED \<and> (date_part ims = mt \<or>
    (\<exists>t_header t_file. parse_date (date_part ims) = Some t_header \<and> parse_date mt = Some t_file \<and> t_file \<le> t_header))"
  using assms
  by (auto simp: date_answer_def Let_def same_prefix_def bind_Some_iff split: if_splits option.splits)

lemma show_int_inj: "show_int m = show_int n \<Longrightarrow> m = n"
  using read_int_show_int by metis

lemma show_int_no_dash: "0 \<le> n \<Longrightarrow> CHR ''-'' \<notin> set (show_int n)"
proof -
  assume "0 \<le> n"
  then have "set (show_int n) = set (dec_digits (nat n))" by (simp add: show_int_def)
  then show ?thesis using dec_digits_digit [of "CHR ''-''"] by auto
qed

lemma append_eq_at_mark:
  assumes "s @ x # t = s' @ x # t'" and "x \<notin> set s" and "x \<notin> set s'"
  shows "s = s' \<and> t = t'"
  using assms by (induction s arbitrary: s') (case_tac s'; auto)+

section \<open>Properties\<close>

text \<open>C40: The server answers 304 only to a request whose copy is current: an \<open>If-None-Match\<close> field must name the entity tag,
  in a GET or HEAD request, and a date that is taken into account must be the date of the file or not before it.\<close>

theorem not_modified_is_current:
  assumes "http_response_handle_cachable parse_date mt c = Some (r, c')"
    and "http_status c' = 304" and "http_status c \<noteq> 304"
  shows "r = HANDLER_FINISHED \<and>
    (http_if_none_match (req c) \<noteq> Null \<longrightarrow>
       (\<exists>inm. request_string c (http_if_none_match (req c)) = Some inm \<and> etag_is_equal (phys_etag (phys c)) inm) \<and>
       http_method (req c) \<in> {HTTP_METHOD_GET, HTTP_METHOD_HEAD}) \<and>
    (http_if_none_match (req c) \<noteq> Null \<or> http_if_modified_since (req c) \<noteq> Null) \<and>
    (http_if_modified_since (req c) \<noteq> Null \<longrightarrow>
       (\<exists>ims. request_string c (http_if_modified_since (req c)) = Some ims \<and>
          (date_part ims = mt \<or> (\<exists>t_header t_file. parse_date (date_part ims) = Some t_header \<and>
             parse_date mt = Some t_file \<and> t_file \<le> t_header))))"
proof (cases "http_if_none_match (req c) = Null")
  case True
  with assms obtain ims where ims: "http_if_modified_since (req c) \<noteq> Null"
    "request_string c (http_if_modified_since (req c)) = Some ims"
    "date_answer parse_date ims mt (\<lambda>c. (HANDLER_GO_ON, c)) c = Some (r, c')"
    by (auto simp: http_response_handle_cachable_def bind_Some_iff split: if_splits)
  have "r = HANDLER_FINISHED \<and> (date_part ims = mt \<or> (\<exists>t_header t_file. parse_date (date_part ims) = Some t_header \<and>
      parse_date mt = Some t_file \<and> t_file \<le> t_header))"
    by (rule date_answer_304 [OF ims(3) assms(2,3)]) (use assms(3) in auto)
  with True ims show ?thesis by blast
next
  case False
  with assms obtain inm where inm: "request_string c (http_if_none_match (req c)) = Some inm"
    "etag_is_equal (phys_etag (phys c)) inm" "http_method (req c) \<in> {HTTP_METHOD_GET, HTTP_METHOD_HEAD}"
    and rest: "if http_if_modified_since (req c) \<noteq> Null then
        Option.bind (request_string c (http_if_modified_since (req c))) (\<lambda>ims. date_answer parse_date ims mt precondition_failed c) = Some (r, c')
      else r = HANDLER_FINISHED"
    by (auto simp: http_response_handle_cachable_def bind_Some_iff precondition_failed_def split: if_splits)
  show ?thesis
  proof (cases "http_if_modified_since (req c) = Null")
    case True
    with False inm rest show ?thesis by auto
  next
    case ims0: False
    with rest obtain ims where ims: "request_string c (http_if_modified_since (req c)) = Some ims"
      "date_answer parse_date ims mt precondition_failed c = Some (r, c')" by (auto simp: bind_Some_iff)
    have "r = HANDLER_FINISHED \<and> (date_part ims = mt \<or> (\<exists>t_header t_file. parse_date (date_part ims) = Some t_header \<and>
        parse_date mt = Some t_file \<and> t_file \<le> t_header))"
      by (rule date_answer_304 [OF ims(2) assms(2,3)]) (auto simp: precondition_failed_def)
    with False ims0 ims inm show ?thesis by blast
  qed
qed

definition dated_request :: "char list \<Rightarrow> connection" where
  "dated_request d = (connection_init config_none None 0)\<lparr>req := request_init\<lparr>http_if_modified_since := Elem 0 0,
     headers := array_init\<lparr>adata := [Some \<lparr>dkey = Some ''If-Modified-Since'', is_index_key = False, dvalue = Data_String (Some d)\<rparr>]\<rparr>\<rparr>\<rparr>"

lemma dated_request_string:
  "http_if_none_match (req (dated_request d)) = Null" "http_if_modified_since (req (dated_request d)) = Elem 0 0"
  "request_string (dated_request d) (Elem 0 0) = Some (cstr d)"
  "http_status (dated_request d) = 0"
  by (simp_all add: dated_request_def request_init_def request_string_def slot_def con.defs connection_init_def con_init_def)

theorem not_modified_is_current_witness:
  "\<exists>ims. request_string (dated_request ''7'') (Elem 0 0) = Some ims \<and>
     (date_part ims = ''5'' \<or> (\<exists>t_header t_file. Some (read_int (date_part ims)) = Some t_header \<and> Some (read_int ''5'') = Some t_file \<and> t_file \<le> t_header))"
proof -
  have "http_response_handle_cachable (\<lambda>s. Some (read_int s)) ''5'' (dated_request ''7'') =
      Some (HANDLER_FINISHED, (dated_request ''7'')\<lparr>http_status := 304\<rparr>)"
    by (simp add: http_response_handle_cachable_def dated_request_string date_answer_def date_part_def strchr_def
        same_prefix_def HTTP_DATE_SIZE_def dec_value_def)
  from not_modified_is_current [OF this] show ?thesis by (simp add: dated_request_string)
qed

text \<open>The date comparison accepts a prefix: a field that holds only the beginning of the file's date ends the request with no
  status and no content.\<close>

theorem truncated_date_ends_request:
  assumes "http_if_none_match (req c) = Null" and "http_if_modified_since (req c) \<noteq> Null"
    and "request_string c (http_if_modified_since (req c)) = Some d" and "CHR '';'' \<notin> set d" and "mt = d @ t" and "t \<noteq> []"
  shows "http_response_handle_cachable parse_date mt c = Some (HANDLER_FINISHED, c)"
  using assms by (auto simp: http_response_handle_cachable_def date_answer_def date_part_def same_prefix_def Let_def)

theorem truncated_date_ends_request_witness:
  "http_response_handle_cachable (\<lambda>s. None) ''Sat, 23 Jul 2005 21:20:01 GMT'' (dated_request ''Sat'') = Some (HANDLER_FINISHED, dated_request ''Sat'')"
  by (rule truncated_date_ends_request [where d = "''Sat''" and t = "'', 23 Jul 2005 21:20:01 GMT''"])
    (simp_all add: dated_request_string)

text \<open>Entity tags made from inode, size and modification time differ whenever one of them differs.\<close>

theorem etag_create_injective:
  assumes "etag_use_inode flags" "etag_use_size flags" "etag_use_mtime flags"
    and "0 \<le> st_ino s" "0 \<le> st_size s" "0 \<le> st_ino t" "0 \<le> st_size t"
    and "etag_create e s flags = etag_create e' t flags"
  shows "st_ino s = st_ino t \<and> st_size s = st_size t \<and> st_mtime s = st_mtime t"
proof -
  have ne: "show_int n \<noteq> []" for n by (auto simp: show_int_def)
  have form: "etag_create e s flags = Some (show_int (st_ino s) @ CHR ''-'' # show_int (st_size s) @ CHR ''-'' # show_int (st_mtime s))"
    for e s using assms(1-3) ne by (simp add: etag_create_def bcat_def Let_def)
  from assms(8) have eq: "show_int (st_ino s) @ CHR ''-'' # show_int (st_size s) @ CHR ''-'' # show_int (st_mtime s) =
      show_int (st_ino t) @ CHR ''-'' # show_int (st_size t) @ CHR ''-'' # show_int (st_mtime t)"
    unfolding form by simp
  from append_eq_at_mark [OF this show_int_no_dash [OF assms(4)] show_int_no_dash [OF assms(6)]]
  have 1: "show_int (st_ino s) = show_int (st_ino t)"
    and eq2: "show_int (st_size s) @ CHR ''-'' # show_int (st_mtime s) = show_int (st_size t) @ CHR ''-'' # show_int (st_mtime t)"
    by blast+
  from append_eq_at_mark [OF eq2 show_int_no_dash [OF assms(5)] show_int_no_dash [OF assms(7)]]
  have 2: "show_int (st_size s) = show_int (st_size t)" and 3: "show_int (st_mtime s) = show_int (st_mtime t)" by blast+
  show ?thesis using show_int_inj 1 2 3 by blast
qed

theorem etag_create_injective_witness:
  "etag_create None \<lparr>st_ino = 1, st_size = 23, st_mtime = 4, st_isdir = False, st_isreg = True\<rparr> \<lparr>etag_use_inode = True, etag_use_mtime = True, etag_use_size = True\<rparr> =
     etag_create None \<lparr>st_ino = 1, st_size = 23, st_mtime = 4, st_isdir = True, st_isreg = False\<rparr> \<lparr>etag_use_inode = True, etag_use_mtime = True, etag_use_size = True\<rparr> \<and>
   st_size \<lparr>st_ino = 1, st_size = 23, st_mtime = 4, st_isdir = False, st_isreg = True\<rparr> = st_size \<lparr>st_ino = 1, st_size = 23, st_mtime = 4, st_isdir = True, st_isreg = False\<rparr>"
proof -
  let ?s = "\<lparr>st_ino = 1, st_size = 23, st_mtime = 4, st_isdir = False, st_isreg = True\<rparr>"
  let ?t = "\<lparr>st_ino = 1, st_size = 23, st_mtime = 4, st_isdir = True, st_isreg = False\<rparr>"
  let ?f = "\<lparr>etag_use_inode = True, etag_use_mtime = True, etag_use_size = True\<rparr>"
  have eq: "etag_create None ?s ?f = etag_create None ?t ?f" by (simp add: etag_create_def)
  have "st_size ?s = st_size ?t" using etag_create_injective [OF _ _ _ _ _ _ _ eq] by simp
  with eq show ?thesis by blast
qed

text \<open>The cache of formatted times returns the formatted time for every time but 0, which marks its empty slots: for it the
  buffer of the first unused slot is returned, which in a new cache was never filled.\<close>

theorem mtime_cache_correct:
  assumes "mtime_cache_ok format cache" and "t \<noteq> 0"
  shows "fst (strftime_cache_get format cache t) = Some (format t) \<and>
    mtime_cache_ok format (snd (strftime_cache_get format cache t)) \<and> fst (strftime_cache_get format mtime_cache_init 0) = None"
  using strftime_cache_get_ok [OF assms]
  by (simp add: strftime_cache_get_def mtime_cache_init_def FILE_CACHE_MAX_def eval_nat_numeral)

theorem mtime_cache_correct_witness:
  "fst (strftime_cache_get show_int mtime_cache_init 5) = Some (show_int 5)"
  using mtime_cache_correct [OF mtime_cache_ok_init, of 5 show_int] by simp

end
