(* ===== verification/Thumb_Store.thy ===== *)
theory Thumb_Store imports Thumb_Uri begin

text \<open>
  The stores of the thumbnail module (\<open>src/src/autothumb/store_plugin\<close>): the interface \<open>store_plugin_t\<close> of
  \<open>common.h\<close>, the store in a directory (\<open>file_store.c\<close>) on an explicit file system, and the store in FastDFS
  (\<open>fastdfs_store.c\<close>), whose client library is a parameter. The locale \<open>thumb_store\<close> states what the module
  relies on: what was saved is fetched under the name the URL stands for.
\<close>

section \<open>The interface\<close>

datatype result_t = RESULT_UNSET | RESULT_SUCCESS | RESULT_FAILED | RESULT_EXCEPTION

text \<open>The operations on a store of type \<open>'w\<close>. Saving cuts the original name at its extension and fills the array of
  the new name; fetching yields the content.\<close>

record 'w store_plugin =
  sp_version :: int
  sp_name :: "char list"
  save_slave_file :: "'w \<Rightarrow> char list \<Rightarrow> cell list \<Rightarrow> char list \<Rightarrow> char list \<Rightarrow> cell list
    \<Rightarrow> (result_t \<times> 'w \<times> cell list \<times> cell list) option"
  fetch_file :: "'w \<Rightarrow> char list \<Rightarrow> (result_t \<times> char list \<times> 'w) option"
  get_file_info :: "'w \<Rightarrow> char list \<Rightarrow> file_info \<Rightarrow> (result_t \<times> file_info) option"

definition LIGHTTPD_VERSION_ID :: int where
  "LIGHTTPD_VERSION_ID = 0x1041C"

section \<open>The file system\<close>

text \<open>Regular files with content and modification time; \<open>can_write\<close> tells whether a path can be opened for writing,
  \<open>can_seek\<close> whether it is seekable; \<open>open_files\<close> counts the streams that were not closed.\<close>

record filesys =
  files :: "char list \<Rightarrow> (char list \<times> int) option"
  can_write :: "char list \<Rightarrow> bool"
  can_seek :: "char list \<Rightarrow> bool"
  clock :: int
  open_files :: nat

record 'd store_world =
  store_root :: "cell list"
  fs :: filesys
  dfs :: 'd

definition fopen_fs :: "filesys \<Rightarrow> filesys" where
  "fopen_fs f = f\<lparr>open_files := open_files f + 1\<rparr>"

definition fclose_fs :: "filesys \<Rightarrow> filesys" where
  "fclose_fs f = f\<lparr>open_files := open_files f - 1\<rparr>"

definition write_file :: "char list \<Rightarrow> char list \<Rightarrow> filesys \<Rightarrow> filesys" where
  "write_file path buff f = f\<lparr>files := (files f)(path \<mapsto> (buff, clock f))\<rparr>"

text \<open>\<open>sprintf\<close> of the root, a slash and the name into a local array of \<open>n\<close> characters.\<close>

definition store_path :: "'d store_world \<Rightarrow> nat \<Rightarrow> char list \<Rightarrow> char list option" where
  "store_path w n name = do {
     root \<leftarrow> array_string (store_root w);
     if length root + 1 + length name < n then Some (root @ ''/'' @ name) else None }"

section \<open>The store in a directory\<close>

definition file_save_slave_file :: "'d store_world \<Rightarrow> char list \<Rightarrow> cell list \<Rightarrow> char list \<Rightarrow> char list \<Rightarrow> cell list
    \<Rightarrow> (result_t \<times> 'd store_world \<times> cell list \<times> cell list) option" where
  "file_save_slave_file w buff orig suf ext last_filename = do {
     name \<leftarrow> array_string orig;
     case strrchr name (CHR ''.'') of
       None \<Rightarrow> Some (RESULT_FAILED, w, orig, last_filename)
     | Some p \<Rightarrow> do {
         orig \<leftarrow> put_char orig p NUL;
         name \<leftarrow> array_string orig;
         root \<leftarrow> array_string (store_root w);
         let path = root @ ''/'' @ name @ suf @ ''.'' @ ext;
         last_filename \<leftarrow> c_strcpy last_filename path;
         if \<not> can_write (fs w) path then Some (RESULT_FAILED, w, orig, last_filename)
         else Some (RESULT_SUCCESS, w\<lparr>fs := fclose_fs (write_file path buff (fopen_fs (fs w)))\<rparr>, orig, last_filename) } }"

definition file_fetch_file :: "'d store_world \<Rightarrow> char list \<Rightarrow> (result_t \<times> char list \<times> 'd store_world) option" where
  "file_fetch_file w file_id = do {
     path \<leftarrow> store_path w 256 file_id;
     case files (fs w) path of
       None \<Rightarrow> Some (RESULT_FAILED, [], w)
     | Some (content, _) \<Rightarrow>
         if \<not> can_seek (fs w) path then Some (RESULT_FAILED, [], w\<lparr>fs := fopen_fs (fs w)\<rparr>)
         else Some (RESULT_SUCCESS, content, w\<lparr>fs := fclose_fs (fopen_fs (fs w))\<rparr>) }"

definition file_get_file_info :: "'d store_world \<Rightarrow> char list \<Rightarrow> file_info \<Rightarrow> (result_t \<times> file_info) option" where
  "file_get_file_info w file_id fi = do {
     path \<leftarrow> store_path w 256 file_id;
     case files (fs w) path of
       None \<Rightarrow> Some (RESULT_FAILED, fi)
     | Some (_, mtime) \<Rightarrow> Some (RESULT_SUCCESS, fi\<lparr>create_timestamp := mtime\<rparr>) }"

text \<open>\<open>fgets\<close>: at most \<open>n - 1\<close> characters, up to and with the newline; \<open>None\<close> at the end of the file.\<close>

definition fgets_line :: "nat \<Rightarrow> char list \<Rightarrow> char list option" where
  "fgets_line n content = (
     let l = take (n - 1) content; k = length (takeWhile (\<lambda>c. c \<noteq> CHR 0x0A) l) in
     if l = [] then None else Some (take (Suc k) l))"

text \<open>A configuration that cannot be opened is closed all the same.\<close>

definition file_client_init :: "'d store_world \<Rightarrow> char list \<Rightarrow> (result_t \<times> 'd store_world) option" where
  "file_client_init w cfg =
     (case files (fs w) cfg of
        None \<Rightarrow> None
      | Some (content, _) \<Rightarrow>
          (case fgets_line 128 content of
             None \<Rightarrow> Some (RESULT_FAILED, w\<lparr>fs := fopen_fs (fs w)\<rparr>)
           | Some line \<Rightarrow> do {
               root \<leftarrow> c_strcpy (store_root w) line;
               Some (RESULT_SUCCESS, w\<lparr>store_root := root, fs := fclose_fs (fopen_fs (fs w))\<rparr>) }))"

definition file_store :: "'d store_world store_plugin" where
  "file_store = \<lparr>sp_version = LIGHTTPD_VERSION_ID, sp_name = ''file'', save_slave_file = file_save_slave_file,
     fetch_file = file_fetch_file, get_file_info = file_get_file_info\<rparr>"

definition file_store_init :: "'d store_world \<Rightarrow> char list \<Rightarrow> ('d store_world store_plugin option \<times> 'd store_world) option" where
  "file_store_init w cfg = do {
     (r, w) \<leftarrow> file_client_init w cfg;
     Some (if r = RESULT_FAILED then None else Some file_store, w) }"

section \<open>The store in FastDFS\<close>

text \<open>The client library. A failing upload or download leaves the wrapper without a return value.\<close>

record 'd fdfs_client =
  fdfs_init :: "'d \<Rightarrow> char list \<Rightarrow> int \<times> bool \<times> 'd"
  fdfs_upload :: "'d \<Rightarrow> char list \<Rightarrow> char list \<Rightarrow> char list \<Rightarrow> char list \<Rightarrow> cell list \<Rightarrow> int \<times> 'd \<times> cell list"
  fdfs_download :: "'d \<Rightarrow> char list \<Rightarrow> int \<times> char list \<times> 'd"
  fdfs_info :: "'d \<Rightarrow> char list \<Rightarrow> int \<times> int"
  fdfs_close :: "'d \<Rightarrow> 'd"

definition fastdfs_save_slave_file :: "'d fdfs_client \<Rightarrow> 'd store_world \<Rightarrow> char list \<Rightarrow> cell list \<Rightarrow> char list \<Rightarrow> char list \<Rightarrow> cell list
    \<Rightarrow> (result_t \<times> 'd store_world \<times> cell list \<times> cell list) option" where
  "fastdfs_save_slave_file cl w buff orig suf ext last_filename = do {
     name \<leftarrow> array_string orig;
     let (r, d, last_filename) = fdfs_upload cl (dfs w) buff name suf ext last_filename;
     if r = 0 then Some (RESULT_SUCCESS, w\<lparr>dfs := d\<rparr>, orig, last_filename) else None }"

definition fastdfs_fetch_file :: "'d fdfs_client \<Rightarrow> 'd store_world \<Rightarrow> char list \<Rightarrow> (result_t \<times> char list \<times> 'd store_world) option" where
  "fastdfs_fetch_file cl w file_id = (
     let (r, content, d) = fdfs_download cl (dfs w) file_id in
     if r = 0 then Some (RESULT_SUCCESS, content, w\<lparr>dfs := d\<rparr>) else None)"

definition fastdfs_get_file_info :: "'d fdfs_client \<Rightarrow> 'd store_world \<Rightarrow> char list \<Rightarrow> file_info \<Rightarrow> (result_t \<times> file_info) option" where
  "fastdfs_get_file_info cl w file_id fi = (
     let (r, ts) = fdfs_info cl (dfs w) file_id in
     Some (if r = 0 then (RESULT_SUCCESS, fi\<lparr>create_timestamp := ts\<rparr>) else (RESULT_FAILED, fi)))"

definition fastdfs_store :: "'d fdfs_client \<Rightarrow> 'd store_world store_plugin" where
  "fastdfs_store cl = \<lparr>sp_version = LIGHTTPD_VERSION_ID, sp_name = ''fastdfs'',
     save_slave_file = fastdfs_save_slave_file cl, fetch_file = fastdfs_fetch_file cl,
     get_file_info = fastdfs_get_file_info cl\<rparr>"

definition fastdfs_store_init ::
  "'d fdfs_client \<Rightarrow> 'd store_world \<Rightarrow> char list \<Rightarrow> ('d store_world store_plugin option \<times> 'd store_world) option" where
  "fastdfs_store_init cl w cfg = (
     let (r, connected, d) = fdfs_init cl (dfs w) cfg in
     Some (if r \<noteq> 0 \<or> \<not> connected then None else Some (fastdfs_store cl), w\<lparr>dfs := d\<rparr>))"

definition fastdfs_store_free :: "'d fdfs_client \<Rightarrow> 'd store_world \<Rightarrow> 'd store_world" where
  "fastdfs_store_free cl w = w\<lparr>dfs := fdfs_close cl (dfs w)\<rparr>"

section \<open>What the module relies on\<close>

text \<open>\<open>stored w\<close> maps the names of files to their contents; \<open>valid\<close> names fit the path arrays.\<close>

locale thumb_store =
  fixes sp :: "'w store_plugin" and ok :: "'w \<Rightarrow> bool" and valid :: "char list \<Rightarrow> bool"
    and stored :: "'w \<Rightarrow> char list \<Rightarrow> char list option"
  assumes fetch_law: "ok w \<Longrightarrow> valid name \<Longrightarrow> \<exists>w'. ok w' \<and> stored w' = stored w \<and>
      fetch_file sp w name = Some (case stored w name of None \<Rightarrow> (RESULT_FAILED, [], w') | Some d \<Rightarrow> (RESULT_SUCCESS, d, w'))"
    and save_law: "ok w \<Longrightarrow> array_string orig = Some (base @ CHR ''.'' # ext) \<Longrightarrow> CHR ''.'' \<notin> set ext \<Longrightarrow>
      save_slave_file sp w buff orig suf ext last_filename = Some (RESULT_SUCCESS, w', orig', last') \<Longrightarrow>
      ok w' \<and> stored w' = (stored w)(base @ suf @ ''.'' @ ext \<mapsto> buff)"
    and info_law: "ok w \<Longrightarrow> valid name \<Longrightarrow> \<exists>r ts. get_file_info sp w name fi = Some (r, fi\<lparr>create_timestamp := ts\<rparr>)"
begin

text \<open>A picture saved for an original is fetched under its own name, and nothing else changes.\<close>

lemma fetch_saved:
  assumes "ok w" and "array_string orig = Some (base @ CHR ''.'' # ext)" and "CHR ''.'' \<notin> set ext"
    and "save_slave_file sp w buff orig suf ext last_filename = Some (RESULT_SUCCESS, w', orig', last')"
    and "valid (base @ suf @ ''.'' @ ext)"
  shows "\<exists>w''. fetch_file sp w' (base @ suf @ ''.'' @ ext) = Some (RESULT_SUCCESS, buff, w'') \<and> ok w'' \<and> stored w'' = stored w'"
proof -
  from save_law [OF assms(1-4)] have "ok w'" "stored w' (base @ suf @ ''.'' @ ext) = Some buff" by auto
  with fetch_law [OF this(1) assms(5)] show ?thesis by auto
qed

lemma fetch_other:
  assumes "ok w" and "array_string orig = Some (base @ CHR ''.'' # ext)" and "CHR ''.'' \<notin> set ext"
    and "save_slave_file sp w buff orig suf ext last_filename = Some (RESULT_SUCCESS, w', orig', last')"
    and "valid name" and "name \<noteq> base @ suf @ ''.'' @ ext"
  shows "map_option (\<lambda>(r, d, _). (r, d)) (fetch_file sp w' name) = map_option (\<lambda>(r, d, _). (r, d)) (fetch_file sp w name)"
proof -
  from save_law [OF assms(1-4)] assms(6) have s: "ok w'" "stored w' name = stored w name" by auto
  from fetch_law [OF s(1) assms(5)] obtain w1 where
    "fetch_file sp w' name = Some (case stored w' name of None \<Rightarrow> (RESULT_FAILED, [], w1) | Some d \<Rightarrow> (RESULT_SUCCESS, d, w1))" by blast
  moreover from fetch_law [OF assms(1,5)] obtain w2 where
    "fetch_file sp w name = Some (case stored w name of None \<Rightarrow> (RESULT_FAILED, [], w2) | Some d \<Rightarrow> (RESULT_SUCCESS, d, w2))" by blast
  ultimately show ?thesis using s(2) by (simp split: option.split)
qed

end

section \<open>The directory provides it\<close>

definition file_store_ok :: "char list \<Rightarrow> 'd store_world \<Rightarrow> bool" where
  "file_store_ok root w \<longleftrightarrow> array_string (store_root w) = Some root \<and> (\<forall>path. can_seek (fs w) path)"

definition file_name_ok :: "char list \<Rightarrow> char list \<Rightarrow> bool" where
  "file_name_ok root name \<longleftrightarrow> length root + 1 + length name < 256"

definition stored_file :: "char list \<Rightarrow> 'd store_world \<Rightarrow> char list \<Rightarrow> char list option" where
  "stored_file root w name = map_option fst (files (fs w) (root @ ''/'' @ name))"

lemma put_nul_cuts:
  assumes "array_string m = Some s" and "n < length s"
  shows "\<exists>m'. put_char m n NUL = Some m' \<and> array_string m' = Some (take n s)"
proof -
  have nul: "NUL \<notin> set s" using array_string_no_nul [OF assms(1)] by simp
  from assms(1) obtain k where k: "cell_strlen m = Some k" "mread_init 0 k m = Some s"
    by (auto simp: array_string_def bind_Some_iff)
  from cell_strlen_SomeD [OF k(1)] obtain t where
    t: "length t = k" "take (Suc k) m = map Some (t @ [NUL])" "k < length m" by blast
  have tk: "take k m = map Some t" using arg_cong [OF t(2), of "take k"] t(1) by simp
  then have s: "s = t" using k(2) t(1,3) by (simp add: mread_init_def mread_def)
  have n: "n < k" using assms(2) s t(1) by simp
  have "take n m = take n (map Some t)" using arg_cong [OF tk, of "take n"] n by (simp add: min_def)
  then have "put_char m n NUL = Some (map Some (take n t) @ Some NUL # drop (Suc n) m)"
    using n t(3) by (simp add: put_char_def mwrite_def take_map)
  moreover have "NUL \<notin> set (take n t)" using nul s by (auto dest: in_set_takeD)
  ultimately show ?thesis using array_string_cells s by fastforce
qed

lemma file_save_slave_file_SomeD:
  assumes "file_save_slave_file w buff orig suf ext last_filename = Some (RESULT_SUCCESS, w', orig', last')"
    and "array_string orig = Some (base @ CHR ''.'' # e)" and "CHR ''.'' \<notin> set e" and "array_string (store_root w) = Some root"
  shows "w' = w\<lparr>fs := fclose_fs (write_file (root @ ''/'' @ base @ suf @ ''.'' @ ext) buff (fopen_fs (fs w)))\<rparr>"
proof -
  from put_nul_cuts [OF assms(2), of "length base"] obtain m where
    "put_char orig (length base) NUL = Some m" "array_string m = Some base" by auto
  with assms show ?thesis by (auto simp: file_save_slave_file_def Let_def bind_Some_iff split: if_splits)
qed

interpretation directory: thumb_store file_store "file_store_ok root" "file_name_ok root" "stored_file root" for root
proof
  fix w :: "'d store_world" and name
  assume "file_store_ok root w" "file_name_ok root name"
  then show "\<exists>w'. file_store_ok root w' \<and> stored_file root w' = stored_file root w \<and>
      fetch_file file_store w name = Some (case stored_file root w name of None \<Rightarrow> (RESULT_FAILED, [], w') | Some d \<Rightarrow> (RESULT_SUCCESS, d, w'))"
    by (cases "files (fs w) (root @ ''/'' @ name)")
       (auto simp: file_store_def file_fetch_file_def store_path_def file_store_ok_def file_name_ok_def stored_file_def
         fopen_fs_def fclose_fs_def)
next
  fix w w' :: "'d store_world" and orig base ext buff suf last_filename orig' last'
  assume ok: "file_store_ok root w" and orig: "array_string orig = Some (base @ CHR ''.'' # ext)" "CHR ''.'' \<notin> set ext"
    and save: "save_slave_file file_store w buff orig suf ext last_filename = Some (RESULT_SUCCESS, w', orig', last')"
  from ok have "array_string (store_root w) = Some root" by (simp add: file_store_ok_def)
  with save orig have "w' = w\<lparr>fs := fclose_fs (write_file (root @ ''/'' @ base @ suf @ ''.'' @ ext) buff (fopen_fs (fs w)))\<rparr>"
    by (intro file_save_slave_file_SomeD) (simp_all add: file_store_def)
  with ok show "file_store_ok root w' \<and> stored_file root w' = (stored_file root w)(base @ suf @ ''.'' @ ext \<mapsto> buff)"
    by (auto simp: file_store_ok_def stored_file_def fclose_fs_def fopen_fs_def write_file_def fun_eq_iff)
next
  fix w :: "'d store_world" and name fi
  assume "file_store_ok root w" "file_name_ok root name"
  then have "get_file_info file_store w name fi = Some (case files (fs w) (root @ ''/'' @ name) of
      None \<Rightarrow> (RESULT_FAILED, fi\<lparr>create_timestamp := create_timestamp fi\<rparr>)
    | Some (_, mtime) \<Rightarrow> (RESULT_SUCCESS, fi\<lparr>create_timestamp := mtime\<rparr>))"
    by (cases "files (fs w) (root @ ''/'' @ name)")
       (auto simp: file_store_def file_get_file_info_def store_path_def file_store_ok_def file_name_ok_def)
  then show "\<exists>r ts. get_file_info file_store w name fi = Some (r, fi\<lparr>create_timestamp := ts\<rparr>)"
  proof (cases "files (fs w) (root @ ''/'' @ name)")
    case None
    with \<open>get_file_info file_store w name fi = _\<close> show ?thesis
      by (intro exI [of _ RESULT_FAILED] exI [of _ "create_timestamp fi"]) simp
  qed (auto simp: case_prod_unfold)
qed

end
