(* ===== verification/Autothumb.thy ===== *)
theory Autothumb imports Thumb_Store Thumbnail Header_Glue begin

text \<open>
  The module \<open>src/src/mod_autothumb.c\<close>: its configuration, the two handlers, and the answer to a request for a
  picture. A picture that is not in the store is converted from its original and saved. ImageMagick, the
  calendar and the FastDFS client are parameters, as in the theories of the parts; the logging and the timer
  of the debug build are left out.
\<close>

section \<open>Configuration\<close>

record thumb_config =
  tc_enable :: bool
  tc_file_types :: array
  tc_file_formats :: array
  tc_store_type :: bstr
  tc_store_conf :: bstr
  tc_style_bgcolor :: bstr
  tc_style_water_image :: bstr
  tc_style_water_text :: bstr

text \<open>An option named in a matching block replaces the one in force.\<close>

definition patch_option :: "thumb_config \<Rightarrow> bstr \<Rightarrow> thumb_config \<Rightarrow> thumb_config" where
  "patch_option s key conf =
     (if key = Some ''autothumb.enable'' then conf\<lparr>tc_enable := tc_enable s\<rparr>
      else if key = Some ''autothumb.convert-filetypes'' then conf\<lparr>tc_file_types := tc_file_types s\<rparr>
      else if key = Some ''autothumb.convert-formats'' then conf\<lparr>tc_file_formats := tc_file_formats s\<rparr>
      else if key = Some ''autothumb.store-type'' then conf\<lparr>tc_store_type := tc_store_type s\<rparr>
      else if key = Some ''autothumb.store-conf'' then conf\<lparr>tc_store_conf := tc_store_conf s\<rparr>
      else if key = Some ''autothumb.style-bgcolor'' then conf\<lparr>tc_style_bgcolor := tc_style_bgcolor s\<rparr>
      else if key = Some ''autothumb.style-water-image'' then conf\<lparr>tc_style_water_image := tc_style_water_image s\<rparr>
      else if key = Some ''autothumb.style-water-text'' then conf\<lparr>tc_style_water_text := tc_style_water_text s\<rparr>
      else conf)"

text \<open>The blocks behind the global one: whether the condition matched, the keys in the block, its values.\<close>

fun patch_blocks :: "(bool \<times> bstr list \<times> thumb_config) list \<Rightarrow> thumb_config \<Rightarrow> thumb_config" where
  "patch_blocks [] conf = conf"
| "patch_blocks ((hit, keys, s) # bs) conf =
     patch_blocks bs (if hit then fold (patch_option s) keys conf else conf)"

definition autothumb_patch_connection :: "thumb_config \<Rightarrow> (bool \<times> bstr list \<times> thumb_config) list \<Rightarrow> thumb_config" where
  "autothumb_patch_connection glob blocks = patch_blocks blocks glob"

definition thumb_config_default :: thumb_config where
  "thumb_config_default = \<lparr>tc_enable = True, tc_file_types = array_init, tc_file_formats = array_init,
     tc_store_type = None, tc_store_conf = None, tc_style_bgcolor = None, tc_style_water_image = None,
     tc_style_water_text = None\<rparr>"

text \<open>\<open>config_insert_values_global\<close> is \<open>put_values\<close>: the return value and the values of a block.\<close>

fun read_blocks :: "('b \<Rightarrow> thumb_config \<Rightarrow> int \<times> thumb_config) \<Rightarrow> 'b list \<Rightarrow> thumb_config list option" where
  "read_blocks put_values [] = Some []"
| "read_blocks put_values (b # bs) = (
     let (r, s) = put_values b thumb_config_default in
     if r \<noteq> 0 then None else map_option ((#) s) (read_blocks put_values bs))"

definition autothumb_set_defaults :: "('b \<Rightarrow> thumb_config \<Rightarrow> int \<times> thumb_config) \<Rightarrow> 'b list \<Rightarrow> handler_t \<times> thumb_config list" where
  "autothumb_set_defaults put_values blocks =
     (case read_blocks put_values blocks of
        None \<Rightarrow> (HANDLER_ERROR, [])
      | Some ss \<Rightarrow>
          (case ss of
             [] \<Rightarrow> (HANDLER_ERROR, ss)
           | s # _ \<Rightarrow> (if tc_store_type s = None \<or> tc_store_conf s = None then HANDLER_ERROR else HANDLER_GO_ON, ss)))"

definition autothumb_physical_handler ::
  "nat \<Rightarrow> thumb_config \<Rightarrow> (bool \<times> bstr list \<times> thumb_config) list \<Rightarrow> thumb_config \<Rightarrow> connection
    \<Rightarrow> handler_t \<times> thumb_config \<times> connection" where
  "autothumb_physical_handler ident glob blocks conf c =
     (if http_status c \<noteq> 0 \<or> uri_path (conuri c) = None \<or> phys_path (phys c) = None \<or> mode c \<noteq> 0 \<or> file_finished c
      then (HANDLER_GO_ON, conf, c)
      else (HANDLER_GO_ON, autothumb_patch_connection glob blocks, c\<lparr>mode := ident\<rparr>))"

section \<open>The response\<close>

definition header_text :: "data_unset \<Rightarrow> bstr option" where
  "header_text d = (case dvalue d of Data_String v \<Rightarrow> Some v | Data_Response v \<Rightarrow> Some v | _ \<Rightarrow> None)"

text \<open>\<open>strncasecmp\<close> of the end of the path with the extension.\<close>

definition path_ends_with :: "char list \<Rightarrow> char list \<Rightarrow> bool" where
  "path_ends_with path ext \<longleftrightarrow> length ext \<le> length path \<and>
     map to_lower_char (cstr (drop (length path - length ext) path)) = map to_lower_char (cstr ext)"

fun mime_type :: "char list \<Rightarrow> data_unset option list \<Rightarrow> bstr option" where
  "mime_type path [] = Some None"
| "mime_type path (None # ds) = None"
| "mime_type path (Some d # ds) =
     (case dkey d of
        None \<Rightarrow> mime_type path ds
      | Some ext \<Rightarrow> if path_ends_with path ext then header_text d else mime_type path ds)"

definition content_type_header :: "connection \<Rightarrow> array option" where
  "content_type_header c = do {
     path \<leftarrow> phys_path (phys c);
     let types = cf_mimetypes (cconf c);
     ty \<leftarrow> mime_type path (take (used types) (adata types));
     old \<leftarrow> array_get_element (resp_headers (resp c)) ''Content-Type'';
     if old \<noteq> None then Some (resp_headers (resp c))
     else response_header_overwrite (resp_headers (resp c)) ''Content-Type''
       (if ty = None then Some ''application/octet-stream'' else ty) }"

text \<open>The date of the picture, or the one the client sent. \<open>strftime\<close> into a buffer that was never filled
  writes nothing and returns the length, so the field \<open>Expires\<close> gets a NULL value.\<close>

definition subrequest_headers :: "(int \<Rightarrow> char list) \<Rightarrow> int \<Rightarrow> mtime_cache \<Rightarrow> connection \<Rightarrow> file_info \<Rightarrow> (mtime_cache \<times> array) option" where
  "subrequest_headers format now cache c fi = do {
     hdrs \<leftarrow> content_type_header c;
     ims \<leftarrow> array_get_element (headers (req c)) ''If-Modified-Since'';
     (mtime, cache) \<leftarrow> (case ims of
         None \<Rightarrow> Some (strftime_cache_get format cache (create_timestamp fi))
       | Some d \<Rightarrow> do { v \<leftarrow> header_text d; Some (v, cache) });
     hdrs \<leftarrow> response_header_append hdrs ''Last-Modified'' mtime;
     hdrs \<leftarrow> response_header_append hdrs ''Expires'' None;
     hdrs \<leftarrow> response_header_append hdrs ''Cache-Control''
       (bcat (Some ''max-age='') (show_int (create_timestamp fi + 864000 - now)));
     Some (cache, hdrs) }"

definition subrequest_output ::
  "(int \<Rightarrow> char list) \<Rightarrow> int \<Rightarrow> mtime_cache \<Rightarrow> connection \<Rightarrow> char list \<Rightarrow> file_info \<Rightarrow> (mtime_cache \<times> connection) option" where
  "subrequest_output format now cache c buff fi = do {
     (cache, hdrs) \<leftarrow> subrequest_headers format now cache c fi;
     let c = set_resp_headers hdrs c;
     let (_, content) = buffer_prepare_append (Some buffer_init) (length buff + 1);
     (_, content) \<leftarrow> buffer_copy_memory content (Some (map Some buff)) (length buff);
     b \<leftarrow> content;
     q \<leftarrow> chunkqueue_append_buffer (write_queue c) b;
     Some (cache, c\<lparr>write_queue := q\<rparr>) }"

section \<open>Serving a picture\<close>

text \<open>\<open>_transfer_format\<close>: the \<open>memcpy\<close> is bounded by the configured value, not by the array.\<close>

definition value_cells :: "bstr \<Rightarrow> cell list" where
  "value_cells v = (case v of None \<Rightarrow> [] | Some s \<Rightarrow> map Some (s @ [NUL]))"

definition transfer_format :: "array \<Rightarrow> file_info \<Rightarrow> (result_t \<times> file_info) option" where
  "transfer_format formats fi = do {
     outer \<leftarrow> array_string (outer_format fi);
     if outer = [] then Some (RESULT_SUCCESS, fi)
     else do {
       d \<leftarrow> array_get_element formats outer;
       case d of
         None \<Rightarrow> Some (RESULT_FAILED, fi)
       | Some ds \<Rightarrow> do {
           v \<leftarrow> header_text ds;
           m \<leftarrow> mwrite 0 (value_cells v) (inner_format fi);
           Some (RESULT_SUCCESS, fi\<lparr>inner_format := m\<rparr>) } } }"

text \<open>What the loop of \<open>_mod_autothumb_subrequest\<close> leaves behind: the result, the status, \<open>file_data1\<close> with
  \<open>file_size1\<close>, and the information about the file.\<close>

record thumb_run =
  tr_result :: handler_t
  tr_status :: int
  tr_data :: "char list"
  tr_info :: file_info

definition failed_run :: "int \<Rightarrow> file_info \<Rightarrow> thumb_run" where
  "failed_run st fi = \<lparr>tr_result = HANDLER_FINISHED, tr_status = st, tr_data = [], tr_info = fi\<rparr>"

text \<open>ImageMagick: the parser of geometries, reading a picture, and writing it after the operations.\<close>

record magick =
  mg_geometry :: geometry_parser
  mg_decode :: "char list \<Rightarrow> picture option"
  mg_encode :: "char list \<Rightarrow> magick_op list \<Rightarrow> char list"

definition make_thumb ::
  "magick \<Rightarrow> 'w store_plugin \<Rightarrow> cell list \<Rightarrow> file_info \<Rightarrow> int \<Rightarrow> 'w \<Rightarrow> (thumb_run \<times> 'w) option" where
  "make_thumb mg sp last_filename fi st w = do {
     orig \<leftarrow> array_string (orig_filename fi);
     (res, data2, w) \<leftarrow> fetch_file sp w orig;
     if res \<noteq> RESULT_SUCCESS then Some (failed_run 404 fi, w)
     else do {
       img \<leftarrow> get_transition_image_blob (mg_geometry mg) (mg_decode mg) (mg_encode mg) (Some data2) (Some fi);
       case img of
         None \<Rightarrow> Some (failed_run 500 fi, w)
       | Some data1 \<Rightarrow> do {
           suf \<leftarrow> array_string (suffix_text fi);
           ext \<leftarrow> array_string (file_extension fi);
           (res, w, origc, last_filename) \<leftarrow> save_slave_file sp w data1 (orig_filename fi) suf ext last_filename;
           let fi = fi\<lparr>orig_filename := origc\<rparr>;
           if res \<noteq> RESULT_SUCCESS
           then Some (\<lparr>tr_result = HANDLER_FINISHED, tr_status = 500, tr_data = data1, tr_info = fi\<rparr>, w)
           else do {
             name \<leftarrow> array_string last_filename;
             (_, fi) \<leftarrow> get_file_info sp w name fi;
             Some (\<lparr>tr_result = HANDLER_FINISHED, tr_status = st, tr_data = data1, tr_info = fi\<rparr>, w) } } } }"

text \<open>The picture itself from the store, or a new one.\<close>

definition fetch_or_make ::
  "magick \<Rightarrow> 'w store_plugin \<Rightarrow> cell list \<Rightarrow> file_info \<Rightarrow> int \<Rightarrow> 'w \<Rightarrow> (thumb_run \<times> 'w) option" where
  "fetch_or_make mg sp last_filename fi st w = do {
     full \<leftarrow> array_string (full_filename fi);
     (res, data1, w) \<leftarrow> fetch_file sp w full;
     if res = RESULT_SUCCESS
     then do {
       (_, fi) \<leftarrow> get_file_info sp w full fi;
       Some (\<lparr>tr_result = HANDLER_FINISHED, tr_status = st, tr_data = data1, tr_info = fi\<rparr>, w) }
     else make_thumb mg sp last_filename fi st w }"

text \<open>The local arrays of \<open>parse_uri\<close> and \<open>last_filename\<close> are not initialised: \<open>stk1\<close>, \<open>stk2\<close> and \<open>last_filename\<close> are
  what they hold. The return value of \<open>parse_uri\<close> is ignored.\<close>

definition serve_thumb ::
  "magick \<Rightarrow> thumb_config \<Rightarrow> 'w store_plugin option \<Rightarrow> char list \<Rightarrow> char list \<Rightarrow> cell list \<Rightarrow> char list \<Rightarrow> int \<Rightarrow> 'w
    \<Rightarrow> (thumb_run \<times> 'w) option" where
  "serve_thumb mg conf spo stk1 stk2 last_filename path st w =
     (if \<not> tc_enable conf
      then Some (\<lparr>tr_result = HANDLER_GO_ON, tr_status = st, tr_data = [], tr_info = file_info_init\<rparr>, w)
      else case spo of
        None \<Rightarrow> Some (\<lparr>tr_result = HANDLER_ERROR, tr_status = 500, tr_data = [], tr_info = file_info_init\<rparr>, w)
      | Some sp \<Rightarrow> do {
          (_, fi) \<leftarrow> parse_uri stk1 stk2 path file_info_init;
          (t, fi) \<leftarrow> transfer_format (tc_file_formats conf) fi;
          if t = RESULT_FAILED then Some (failed_run 404 fi, w)
          else do {
            ext \<leftarrow> array_string (file_extension fi);
            ty \<leftarrow> array_get_element (tc_file_types conf) ext;
            if ty = None then Some (failed_run 404 fi, w)
            else fetch_or_make mg sp last_filename fi st w } })"

definition init_store :: "'d fdfs_client \<Rightarrow> thumb_config \<Rightarrow> 'd store_world \<Rightarrow> ('d store_world store_plugin option \<times> 'd store_world) option" where
  "init_store cl conf w =
     (if tc_store_type conf = Some ''fastdfs'' then do { cfg \<leftarrow> tc_store_conf conf; fastdfs_store_init cl w (cstr cfg) }
      else if tc_store_type conf = Some ''file'' then do { cfg \<leftarrow> tc_store_conf conf; file_store_init w (cstr cfg) }
      else Some (None, w))"

definition free_store :: "'d fdfs_client \<Rightarrow> thumb_config \<Rightarrow> 'd store_world \<Rightarrow> 'd store_world" where
  "free_store cl conf w = (if tc_store_type conf = Some ''fastdfs'' then fastdfs_store_free cl w else w)"

record 'd thumb_env =
  te_magick :: magick
  te_client :: "'d fdfs_client"
  te_format :: "int \<Rightarrow> char list"
  te_now :: int
  te_stk1 :: "char list"
  te_stk2 :: "char list"
  te_last :: "cell list"

definition subrequest_run :: "'d thumb_env \<Rightarrow> thumb_config \<Rightarrow> connection \<Rightarrow> 'd store_world \<Rightarrow> (thumb_run \<times> 'd store_world) option" where
  "subrequest_run env conf c w = do {
     path \<leftarrow> uri_path (conuri c);
     (sp, w) \<leftarrow> init_store (te_client env) conf w;
     serve_thumb (te_magick env) conf sp (te_stk1 env) (te_stk2 env) (te_last env) (cstr path) (http_status c) w }"

definition autothumb_subrequest ::
  "'d thumb_env \<Rightarrow> nat \<Rightarrow> thumb_config \<Rightarrow> mtime_cache \<Rightarrow> connection \<Rightarrow> 'd store_world
    \<Rightarrow> (handler_t \<times> mtime_cache \<times> connection \<times> 'd store_world) option" where
  "autothumb_subrequest env ident conf cache c w =
     (if mode c \<noteq> 0 \<and> mode c \<noteq> ident \<or> http_status c \<noteq> 0 \<or> uri_path (conuri c) = None \<or> phys_path (phys c) = None
         \<or> file_finished c \<or> http_method (req c) \<noteq> HTTP_METHOD_GET
      then Some (HANDLER_GO_ON, cache, c\<lparr>mode := 0\<rparr>, w)
      else do {
        (run, w) \<leftarrow> subrequest_run env conf c w;
        let c = c\<lparr>http_status := tr_status run\<rparr>;
        (cache, c) \<leftarrow>
          (if tr_data run \<noteq> [] then do {
             (cache, c) \<leftarrow> subrequest_output (te_format env) (te_now env) cache c (tr_data run) (tr_info run);
             Some (cache, c\<lparr>file_finished := True\<rparr>) }
           else Some (cache, c));
        Some (tr_result run, cache, c\<lparr>mode := 0\<rparr>, free_store (te_client env) conf w) })"

section \<open>What a request leaves in the store\<close>

lemma parse_format_frame:
  "parse_format arr2 fmt fi = Some fi' \<Longrightarrow> inner_format fi' = inner_format fi \<and> create_timestamp fi' = create_timestamp fi"
  by (auto simp: parse_format_def bind_Some_iff split: option.splits)

lemma parse_name_frame:
  "parse_name arr1 arr2 fi = Some r \<Longrightarrow>
    inner_format (case r of Inl (_, x) \<Rightarrow> x | Inr x \<Rightarrow> x) = inner_format fi \<and>
    create_timestamp (case r of Inl (_, x) \<Rightarrow> x | Inr x \<Rightarrow> x) = create_timestamp fi"
  by (auto simp: parse_name_def bind_Some_iff Let_def simp del: strchr_None split: option.splits if_splits
      dest!: parse_format_frame)

lemma make_suffix_frame:
  "make_suffix fi = Some fi' \<Longrightarrow> inner_format fi' = inner_format fi \<and> create_timestamp fi' = create_timestamp fi"
  by (auto simp: make_suffix_def bind_Some_iff Let_def split: if_splits)

lemma make_filenames_frame:
  "make_filenames fi = Some fi' \<Longrightarrow> inner_format fi' = inner_format fi \<and> create_timestamp fi' = create_timestamp fi"
  by (auto simp: make_filenames_def bind_Some_iff)

lemma parse_uri_frame:
  assumes "parse_uri stk1 stk2 url fi = Some (r, fi')"
  shows "inner_format fi' = inner_format fi \<and> create_timestamp fi' = create_timestamp fi"
proof -
  define u where "u = (if url \<noteq> [] \<and> hd url = CHR ''/'' then tl url else url)"
  show ?thesis
  proof (cases "strrchr u (CHR ''.'')")
    case None
    with assms show ?thesis by (simp add: parse_uri_def u_def [symmetric] Let_def)
  next
    case (Some n)
    with assms obtain full res where res:
      "parse_name (map Some stk1) (map Some stk2) (fi\<lparr>full_filename := full\<rparr>) = Some res"
      "(case res of Inl r \<Rightarrow> Some r | Inr fi \<Rightarrow> do {
          ext \<leftarrow> c_strcpy (file_extension fi) (drop (Suc n) u);
          fi \<leftarrow> make_suffix (fi\<lparr>file_extension := ext\<rparr>);
          fi \<leftarrow> make_filenames fi;
          Some (0, fi) }) = Some (r, fi')"
      by (auto simp: parse_uri_def u_def [symmetric] Let_def bind_Some_iff)
    show ?thesis
    proof (cases res)
      case (Inl a)
      with res parse_name_frame [OF res(1)] show ?thesis by auto
    next
      case (Inr x)
      with res(2) show ?thesis
        using parse_name_frame [OF res(1)] by (auto simp: bind_Some_iff dest!: make_suffix_frame make_filenames_frame)
    qed
  qed
qed

lemma transfer_format_SomeD:
  assumes "transfer_format formats fi = Some (t, fi')"
  shows "fi' = fi\<lparr>inner_format := inner_format fi'\<rparr>"
  using assms by (auto simp: transfer_format_def bind_Some_iff split: if_splits option.splits)

lemma transfer_format_same:
  assumes t: "transfer_format formats fi = Some (t, fi')"
    and x: "array_string (outer_format x) = array_string (outer_format fi)" "inner_format x = inner_format fi"
  shows "\<exists>m. transfer_format formats x = Some (t, x\<lparr>inner_format := m\<rparr>)"
proof -
  have id: "x = x\<lparr>inner_format := inner_format x\<rparr>" by simp
  from t obtain outer where o: "array_string (outer_format fi) = Some outer" by (auto simp: transfer_format_def bind_Some_iff)
  show ?thesis
  proof (cases "outer = [] \<or> array_get_element formats outer = Some None")
    case True
    then have "transfer_format formats x = Some (t, x)" using t x o by (auto simp: transfer_format_def)
    then show ?thesis by (subst (asm) (2) id) blast
  next
    case False
    then obtain ds where ds: "array_get_element formats outer = Some (Some ds)"
      using t o by (cases "array_get_element formats outer") (auto simp: transfer_format_def)
    from t o ds False obtain v m where "header_text ds = Some v" "mwrite 0 (value_cells v) (inner_format fi) = Some m"
      "t = RESULT_SUCCESS" by (auto simp: transfer_format_def bind_Some_iff)
    then show ?thesis using x o ds False by (intro exI [of _ m]) (simp add: transfer_format_def)
  qed
qed

text \<open>Serving a URL that names \<open>full\<close>, made from \<open>base.ext\<close>.\<close>

definition url_names :: "char list \<Rightarrow> char list \<Rightarrow> char list \<Rightarrow> char list \<Rightarrow> char list \<Rightarrow> char list \<Rightarrow> char list \<Rightarrow> bool" where
  "url_names stk1 stk2 path base fmt suf ext \<longleftrightarrow> CHR ''.'' \<notin> set ext \<and>
     (\<exists>fi. parse_uri stk1 stk2 path file_info_init = Some (0, fi) \<and>
        file_info_holds fi (base @ suf @ ''.'' @ ext) (base @ ''.'' @ ext) fmt suf ext)"

lemma make_thumb_SomeD:
  assumes "make_thumb mg sp last_filename fi st w = Some (run, w')"
    and "tr_status run = 0"
  obtains orig data2 w1 suf ext origc last' nm r where "array_string (orig_filename fi) = Some orig"
    "fetch_file sp w orig = Some (RESULT_SUCCESS, data2, w1)" "array_string (suffix_text fi) = Some suf"
    "array_string (file_extension fi) = Some ext"
    "save_slave_file sp w1 (tr_data run) (orig_filename fi) suf ext last_filename = Some (RESULT_SUCCESS, w', origc, last')"
    "array_string last' = Some nm" "get_file_info sp w' nm (fi\<lparr>orig_filename := origc\<rparr>) = Some (r, tr_info run)"
  using assms by (auto simp: make_thumb_def bind_Some_iff failed_run_def Let_def split: if_splits option.splits prod.splits)

lemma serve_thumb_parsed:
  assumes "tc_enable conf" and "parse_uri stk1 stk2 path file_info_init = Some (r, fi)"
    and "transfer_format (tc_file_formats conf) fi = Some (t, fi2)" and "array_string (file_extension fi2) = Some ext"
  shows "serve_thumb mg conf (Some sp) stk1 stk2 last_filename path st w =
    (if t = RESULT_FAILED then Some (failed_run 404 fi2, w)
     else Option.bind (array_get_element (tc_file_types conf) ext)
       (\<lambda>ty. if ty = None then Some (failed_run 404 fi2, w) else fetch_or_make mg sp last_filename fi2 st w))"
  using assms by (simp add: serve_thumb_def)

lemma serve_thumb_served:
  assumes "serve_thumb mg conf (Some sp) stk1 stk2 last_filename path st w = Some (run, w')"
    and "tc_enable conf" and "parse_uri stk1 stk2 path file_info_init = Some (r, fi)" and "tr_status run = 0"
  obtains t fi2 ext y where "transfer_format (tc_file_formats conf) fi = Some (t, fi2)" "t \<noteq> RESULT_FAILED"
    "array_string (file_extension fi2) = Some ext" "array_get_element (tc_file_types conf) ext = Some (Some y)"
    "fetch_or_make mg sp last_filename fi2 st w = Some (run, w')"
proof -
  from assms(1-3) obtain t fi2 where t: "transfer_format (tc_file_formats conf) fi = Some (t, fi2)"
    by (cases "transfer_format (tc_file_formats conf) fi") (auto simp: serve_thumb_def)
  have tf: "t \<noteq> RESULT_FAILED" using assms t by (auto simp: serve_thumb_def failed_run_def)
  then obtain ext where ext: "array_string (file_extension fi2) = Some ext"
    using assms(1-3) t by (cases "array_string (file_extension fi2)") (auto simp: serve_thumb_def)
  note run = assms(1) [unfolded serve_thumb_parsed [OF assms(2,3) t ext]]
  show ?thesis
  proof (cases "array_get_element (tc_file_types conf) ext")
    case None
    with run tf show ?thesis by simp
  next
    case (Some ty)
    with run tf assms(4) obtain y where y: "ty = Some y" by (cases ty) (auto simp: failed_run_def)
    from that [OF t tf ext Some [unfolded y]] run tf Some y show ?thesis by simp
  qed
qed

context thumb_store
begin

lemma served_again:
  assumes ok: "ok w" and url: "url_names stk1 stk2 path base fmt suf ext" "url_names stk1' stk2' path base fmt suf ext"
    and names: "valid (base @ suf @ ''.'' @ ext)" "valid (base @ ''.'' @ ext)"
    and run: "serve_thumb mg conf (Some sp) stk1 stk2 last_filename path 0 w = Some (run, w')"
      "tr_status run = 0" "tr_data run \<noteq> []"
  shows "\<exists>run' w''. serve_thumb mg' conf (Some sp) stk1' stk2' last_filename' path 0 w' = Some (run', w'') \<and>
    tr_result run' = HANDLER_FINISHED \<and> tr_status run' = 0 \<and> tr_data run' = tr_data run \<and> stored w'' = stored w'"
proof -
  let ?full = "base @ suf @ ''.'' @ ext"
  from url obtain fi x where dot: "CHR ''.'' \<notin> set ext"
    and fi: "parse_uri stk1 stk2 path file_info_init = Some (0, fi)" "file_info_holds fi ?full (base @ ''.'' @ ext) fmt suf ext"
    and x: "parse_uri stk1' stk2' path file_info_init = Some (0, x)" "file_info_holds x ?full (base @ ''.'' @ ext) fmt suf ext"
    by (auto simp: url_names_def)
  have en: "tc_enable conf" using run(1,3) by (auto simp: serve_thumb_def split: if_splits)
  obtain t fi2 ext' y where
    t: "transfer_format (tc_file_formats conf) fi = Some (t, fi2)" "t \<noteq> RESULT_FAILED"
    and ty: "array_string (file_extension fi2) = Some ext'" "array_get_element (tc_file_types conf) ext' = Some (Some y)"
    and fm: "fetch_or_make mg sp last_filename fi2 0 w = Some (run, w')"
    by (rule serve_thumb_served [OF run(1) en fi(1) run(2)])
  have fi2: "file_info_holds fi2 ?full (base @ ''.'' @ ext) fmt suf ext"
    using fi(2) by (subst transfer_format_SomeD [OF t(1)]) (simp add: file_info_holds_def)
  have ext': "ext' = ext" using ty(1) fi2 by (simp add: file_info_holds_def)
  have "array_string (outer_format x) = array_string (outer_format fi)" "inner_format x = inner_format fi"
    using fi x parse_uri_frame [OF fi(1)] parse_uri_frame [OF x(1)] by (simp_all add: file_info_holds_def)
  from transfer_format_same [OF t(1) this] obtain m where m: "transfer_format (tc_file_formats conf) x = Some (t, x\<lparr>inner_format := m\<rparr>)" ..
  define x2 where "x2 = x\<lparr>inner_format := m\<rparr>"
  have x2: "file_info_holds x2 ?full (base @ ''.'' @ ext) fmt suf ext" using x(2) by (simp add: x2_def file_info_holds_def)
  have step: "serve_thumb mg' conf (Some sp) stk1' stk2' last_filename' path 0 v = fetch_or_make mg' sp last_filename' x2 0 v" for v
    using serve_thumb_parsed [OF en x(1) m, of ext] x2 t(2) ty(2) ext' by (simp add: x2_def file_info_holds_def)
  have again: "\<exists>run' w''. serve_thumb mg' conf (Some sp) stk1' stk2' last_filename' path 0 w' = Some (run', w'') \<and>
      tr_result run' = HANDLER_FINISHED \<and> tr_status run' = 0 \<and> tr_data run' = tr_data run \<and> stored w'' = stored w'"
    if w': "ok w'" "stored w' ?full = Some (tr_data run)"
  proof -
    from fetch_law [OF w'(1) names(1)] w'(2) obtain v where
      v: "ok v" "stored v = stored w'" "fetch_file sp w' ?full = Some (RESULT_SUCCESS, tr_data run, v)" by auto
    from info_law [OF v(1) names(1)] obtain r ts where "get_file_info sp v ?full x2 = Some (r, x2\<lparr>create_timestamp := ts\<rparr>)" by blast
    with v step x2 show ?thesis by (simp add: fetch_or_make_def file_info_holds_def)
  qed
  have "ok w' \<and> stored w' ?full = Some (tr_data run)"
  proof -
    from fetch_law [OF ok names(1)] obtain w1 where w1: "ok w1" "stored w1 = stored w"
      "fetch_file sp w ?full = Some (case stored w ?full of None \<Rightarrow> (RESULT_FAILED, [], w1) | Some d \<Rightarrow> (RESULT_SUCCESS, d, w1))"
      by blast
    show ?thesis
    proof (cases "stored w ?full")
      case (Some d)
      with fm fi2 w1 show ?thesis by (auto simp: fetch_or_make_def file_info_holds_def bind_Some_iff)
    next
      case None
      with fm fi2 w1 have "make_thumb mg sp last_filename fi2 0 w1 = Some (run, w')"
        by (auto simp: fetch_or_make_def file_info_holds_def bind_Some_iff)
      from make_thumb_SomeD [OF this run(2)] obtain orig data2 w2 suf' e origc last' nm r where
        mk: "array_string (orig_filename fi2) = Some orig" "fetch_file sp w1 orig = Some (RESULT_SUCCESS, data2, w2)"
          "array_string (suffix_text fi2) = Some suf'" "array_string (file_extension fi2) = Some e"
          "save_slave_file sp w2 (tr_data run) (orig_filename fi2) suf' e last_filename = Some (RESULT_SUCCESS, w', origc, last')"
          "array_string last' = Some nm" "get_file_info sp w' nm (fi2\<lparr>orig_filename := origc\<rparr>) = Some (r, tr_info run)" .
      then have eq: "orig = base @ ''.'' @ ext" "suf' = suf" "e = ext" using fi2 by (simp_all add: file_info_holds_def)
      from fetch_law [OF w1(1) names(2)] mk(2) eq have "ok w2" by (auto split: option.splits)
      with save_law [OF this _ dot mk(5) [unfolded eq]] mk(1) eq show ?thesis by auto
    qed
  qed
  with again show ?thesis by blast
qed

end

section \<open>What is sent\<close>

lemma init_buffer_filled:
  assumes "s \<noteq> []"
  shows "\<exists>b. (do { (_, content) \<leftarrow> buffer_copy_memory (snd (buffer_prepare_append (Some buffer_init) (length s + 1)))
      (Some (map Some s)) (length s); content }) = Some b \<and> buf_mem b s"
proof -
  have "buf_wf (prepare_append buffer_init (length s + 1))"
    by (simp add: prepare_append_def buffer_init_def buf_wf_def malloc_cells_def)
  from buffer_copy_memory_mem [OF this, of "length s" s] show ?thesis
    by (auto simp: buffer_prepare_append_def)
qed

lemma subrequest_output_queue:
  assumes "subrequest_output format now cache c s fi = Some (cache', c')" and "s \<noteq> []" and "cq_repr (write_queue c) ds"
  shows "cq_repr (write_queue c') (ds @ [(Mem_Data (Some (butlast s)), 0)])"
proof -
  from init_buffer_filled [OF assms(2)] obtain r b where
    b: "buffer_copy_memory (snd (buffer_prepare_append (Some buffer_init) (length s + 1))) (Some (map Some s)) (length s) = Some (r, Some b)"
      "buf_mem b s" by (auto simp: bind_Some_iff)
  from chunkqueue_append_buffer_raw [OF assms(3) b(2) assms(2)] obtain q where
    q: "chunkqueue_append_buffer (write_queue c) b = Some q" "cq_repr q (ds @ [(Mem_Data (Some (butlast s)), 0)])" by blast
  have "write_queue (set_resp_headers hdrs c) = write_queue c" for hdrs by (simp add: set_resp_headers_def)
  then have "write_queue c' = q"
    using assms(1) b(1) q(1) by (auto simp: subrequest_output_def bind_Some_iff case_prod_unfold Let_def)
  with q(2) show ?thesis by simp
qed

section \<open>Properties\<close>

lemma directory_names_ok:
  assumes "length m = 128" and "array_string m = Some root" and "length name < 128"
  shows "file_name_ok root name"
  using array_string_no_nul [OF assms(2)] assms by (simp add: file_name_ok_def)


text \<open>A store with one picture, and a converter that answers every picture with two letters.\<close>

definition one_string :: "char list \<Rightarrow> char list \<Rightarrow> array" where
  "one_string k v = array_init\<lparr>adata := [Some \<lparr>dkey = Some k, is_index_key = False, dvalue = Data_String (Some v)\<rparr>],
     sorted := [Some 0], used := 1, asize := 1, next_power_of_2 := 1\<rparr>"

definition sample_store :: "unit store_world" where
  "sample_store = \<lparr>store_root = map Some ''/d'' @ replicate 126 (Some NUL),
     fs = \<lparr>files = [''/d/a.jpg'' \<mapsto> (''PIC'', 7)], can_write = (\<lambda>_. True), can_seek = (\<lambda>_. True), clock = 9, open_files = 0\<rparr>, dfs = ()\<rparr>"

definition sample_magick :: magick where
  "sample_magick = \<lparr>mg_geometry = (\<lambda>s w h. (0, 0, 5, 5)),
     mg_decode = (\<lambda>d. Some \<lparr>pic_width = 10, pic_height = 10, pic_format_known = True\<rparr>), mg_encode = (\<lambda>d ops. ''XY'')\<rparr>"

definition sample_thumb_config :: thumb_config where
  "sample_thumb_config = thumb_config_default\<lparr>tc_file_types := one_string ''jpg'' ''1'', tc_file_formats := one_string ''w'' ''5x5''\<rparr>"

lemma sample_thumb_served:
  "map_option (\<lambda>(run, w). (tr_status run, tr_data run, files (fs w) ''/d//d/a_w.jpg'', files (fs w) ''/d/a_w.jpg''))
     (serve_thumb sample_magick sample_thumb_config (Some file_store) (replicate 12 NUL) [] (replicate 128 (Some NUL)) ''/a=w.jpg'' 0 sample_store)
   = Some (0, ''XY'', None, Some (''XY'', 9))"
  by code_simp


text \<open>C29: Every picture is sent without its last byte: the handler fills a buffer that has no terminator and appends it to the
  write queue as a string.\<close>

theorem image_loses_last_byte:
  assumes "autothumb_subrequest env ident conf cache c w = Some (r, cache', c', w')"
    and "file_finished c'" and "\<not> file_finished c" and "cq_repr (write_queue c) ds"
  shows "\<exists>run w1. subrequest_run env conf c w = Some (run, w1) \<and> tr_data run \<noteq> [] \<and>
    cq_repr (write_queue c') (ds @ [(Mem_Data (Some (butlast (tr_data run))), 0)])"
proof -
  define out where "out = (\<lambda>run :: thumb_run. if tr_data run \<noteq> [] then do {
       (cache, c) \<leftarrow> subrequest_output (te_format env) (te_now env) cache (c\<lparr>http_status := tr_status run\<rparr>) (tr_data run) (tr_info run);
       Some (cache, c\<lparr>file_finished := True\<rparr>) } else Some (cache, c\<lparr>http_status := tr_status run\<rparr>))"
  have "(mode c \<noteq> 0 \<and> mode c \<noteq> ident \<or> http_status c \<noteq> 0 \<or> uri_path (conuri c) = None \<or> phys_path (phys c) = None
         \<or> file_finished c \<or> http_method (req c) \<noteq> HTTP_METHOD_GET) = False"
    using assms(1-3) by (auto simp: autothumb_subrequest_def split: if_splits)
  with assms(1) obtain run w1 c2 where run: "subrequest_run env conf c w = Some (run, w1)" "out run = Some (cache', c2)"
    "c' = c2\<lparr>mode := 0\<rparr>"
    unfolding autothumb_subrequest_def out_def by (auto simp: bind_Some_iff Let_def simp del: if_split)
  have data: "tr_data run \<noteq> []"
  proof
    assume "tr_data run = []"
    with run have "file_finished c' = file_finished c" by (auto simp: out_def)
    with assms(2,3) show False by simp
  qed
  with run(2) obtain c1 where c1:
    "subrequest_output (te_format env) (te_now env) cache (c\<lparr>http_status := tr_status run\<rparr>) (tr_data run) (tr_info run) = Some (cache', c1)"
    "c2 = c1\<lparr>file_finished := True\<rparr>" by (auto simp: out_def bind_Some_iff)
  have "cq_repr (write_queue (c\<lparr>http_status := tr_status run\<rparr>)) ds" using assms(4) by simp
  from subrequest_output_queue [OF c1(1) data this] run(1,3) data c1(2) show ?thesis by auto
qed

text \<open>A new picture is asked for under the path it was written to, which the store extends by its root once more.\<close>

lemma make_thumb_undated:
  assumes run: "make_thumb mg file_store last_filename fi 0 w = Some (run, w')" "tr_status run = 0"
    and fi: "file_info_holds fi (base @ suf @ ''.'' @ ext) (base @ ''.'' @ ext) fmt suf ext" "CHR ''.'' \<notin> set ext"
    and root: "array_string (store_root w) = Some root"
    and absent: "files (fs w') (root @ ''/'' @ root @ ''/'' @ base @ suf @ ''.'' @ ext) = None"
  shows "create_timestamp (tr_info run) = create_timestamp fi \<and>
    files (fs w') (root @ ''/'' @ base @ suf @ ''.'' @ ext) = Some (tr_data run, clock (fs w'))"
proof -
  let ?path = "root @ ''/'' @ base @ suf @ ''.'' @ ext"
  have s: "array_string (orig_filename fi) = Some (base @ CHR ''.'' # ext)" "array_string (suffix_text fi) = Some suf"
    "array_string (file_extension fi) = Some ext" using fi(1) by (simp_all add: file_info_holds_def)
  from make_thumb_SomeD [OF run] obtain orig data2 w1 sf e origc last' nm r where
    mk: "array_string (orig_filename fi) = Some orig" "fetch_file file_store w orig = Some (RESULT_SUCCESS, data2, w1)"
      "array_string (suffix_text fi) = Some sf" "array_string (file_extension fi) = Some e"
      "save_slave_file file_store w1 (tr_data run) (orig_filename fi) sf e last_filename = Some (RESULT_SUCCESS, w', origc, last')"
      "array_string last' = Some nm" "get_file_info file_store w' nm (fi\<lparr>orig_filename := origc\<rparr>) = Some (r, tr_info run)" .
  then have f: "file_fetch_file w (base @ CHR ''.'' # ext) = Some (RESULT_SUCCESS, data2, w1)"
    and sv: "file_save_slave_file w1 (tr_data run) (orig_filename fi) suf ext last_filename = Some (RESULT_SUCCESS, w', origc, last')"
    using s by (simp_all add: file_store_def)
  have root1: "array_string (store_root w1) = Some root"
    using f root by (auto simp: file_fetch_file_def bind_Some_iff split: option.splits if_splits)
  from file_save_slave_file_SomeD [OF sv s(1) fi(2) root1] have
    w': "w' = w1\<lparr>fs := fclose_fs (write_file ?path (tr_data run) (fopen_fs (fs w1)))\<rparr>" .
  from put_nul_cuts [OF s(1), of "length base"] obtain m where
    m: "put_char (orig_filename fi) (length base) NUL = Some m" "array_string m = Some base" by auto
  have "c_strcpy last_filename ?path = Some last'"
    using sv s(1) m fi(2) root1 by (auto simp: file_save_slave_file_def bind_Some_iff Let_def split: if_splits)
  moreover from this have "length ?path < length last_filename"
    using c_strcpy_None [of last_filename ?path] by (cases "length ?path < length last_filename") (auto simp: not_less)
  moreover have "NUL \<notin> set ?path"
    using array_string_no_nul [OF root] array_string_no_nul [OF m(2)] array_string_no_nul [OF s(2)] array_string_no_nul [OF s(3)] by auto
  ultimately have last': "array_string last' = Some ?path"
    using c_strcpy_array [of ?path last_filename] by auto
  with mk(6,7) have "file_get_file_info w' ?path (fi\<lparr>orig_filename := origc\<rparr>) = Some (r, tr_info run)"
    by (simp add: file_store_def)
  then have "tr_info run = fi\<lparr>orig_filename := origc\<rparr>"
    using absent root1 w' by (auto simp: file_get_file_info_def store_path_def bind_Some_iff split: if_splits)
  with w' show ?thesis by (simp add: write_file_def fclose_fs_def fopen_fs_def)
qed

lemma fetch_or_make_new:
  assumes "fetch_or_make mg file_store last_filename fi st w = Some (run, w')" and "array_string (full_filename fi) = Some full"
    and "array_string (store_root w) = Some root" and "files (fs w) (root @ ''/'' @ full) = None"
  shows "make_thumb mg file_store last_filename fi st w = Some (run, w')"
proof -
  have "file_fetch_file w full = None \<or> file_fetch_file w full = Some (RESULT_FAILED, [], w)"
    using assms(3,4) by (auto simp: file_fetch_file_def store_path_def)
  then show ?thesis
    using assms(1,2) unfolding fetch_or_make_def by (auto simp: bind_Some_iff) (auto simp: file_store_def)
qed

text \<open>A picture that is made by a request is sent without its date: the path given to \<open>get_file_info\<close> holds the root of the
  store already and the store puts it in front once more. The time stays 0 although the file was just written.\<close>

theorem new_thumbnail_undated:
  assumes "CHR ''='' \<notin> set name" "NUL \<notin> set name"
    and "fmt \<noteq> []" "CHR ''_'' \<notin> set fmt" "NUL \<notin> set fmt" "length fmt < 12"
    and "CHR ''.'' \<notin> set ext" "NUL \<notin> set ext" "length ext < 5"
    and len: "length name + 2 + length fmt + length ext < 128" and "length stk1 = 12"
    and root: "array_string (store_root w) = Some root"
    and run: "serve_thumb mg conf (Some file_store) stk1 stk2 last1 (CHR ''/'' # (name @ CHR ''='' # fmt) @ CHR ''.'' # ext) 0 w = Some (run, w')"
      "tr_status run = 0" "tr_data run \<noteq> []"
    and new: "files (fs w) (root @ ''/'' @ name @ ''_'' @ fmt @ ''.'' @ ext) = None"
    and absent: "files (fs w') (root @ ''/'' @ root @ ''/'' @ name @ ''_'' @ fmt @ ''.'' @ ext) = None"
  shows "create_timestamp (tr_info run) = 0 \<and>
    files (fs w') (root @ ''/'' @ name @ ''_'' @ fmt @ ''.'' @ ext) = Some (tr_data run, clock (fs w'))"
proof -
  have "length name + 1 + length fmt < 128" using len by simp
  from parse_uri_formatted [OF assms(1-9) this len assms(11), of stk2] obtain fi where
    fi: "parse_uri stk1 stk2 (CHR ''/'' # (name @ CHR ''='' # fmt) @ CHR ''.'' # ext) file_info_init = Some (0, fi)"
      "file_info_holds fi (name @ ''_'' @ fmt @ ''.'' @ ext) (name @ ''.'' @ ext) fmt (''_'' @ fmt) ext" by blast
  have "tc_enable conf" using run(1,3) by (auto simp: serve_thumb_def split: if_splits)
  from serve_thumb_served [OF run(1) this fi(1) run(2)] obtain t fi2 where
    t: "transfer_format (tc_file_formats conf) fi = Some (t, fi2)" and fm: "fetch_or_make mg file_store last1 fi2 0 w = Some (run, w')" .
  have fi2: "file_info_holds fi2 (name @ (''_'' @ fmt) @ ''.'' @ ext) (name @ ''.'' @ ext) fmt (''_'' @ fmt) ext" "create_timestamp fi2 = 0"
    using fi(2) parse_uri_frame [OF fi(1)]
    by (subst transfer_format_SomeD [OF t], simp add: file_info_holds_def file_info_init_def)+
  have "array_string (full_filename fi2) = Some (name @ ''_'' @ fmt @ ''.'' @ ext)" using fi2(1) by (simp add: file_info_holds_def)
  from fetch_or_make_new [OF fm this root new]
  have "make_thumb mg file_store last1 fi2 0 w = Some (run, w')" .
  from make_thumb_undated [OF this run(2) fi2(1) assms(7) root] absent fi2(2) show ?thesis by simp
qed

theorem new_thumbnail_undated_witness:
  "\<exists>run w'. serve_thumb sample_magick sample_thumb_config (Some file_store) (replicate 12 NUL) [] (replicate 128 (Some NUL))
     ''/a=w.jpg'' 0 sample_store = Some (run, w') \<and> create_timestamp (tr_info run) = 0 \<and> files (fs w') ''/d/a_w.jpg'' = Some (''XY'', clock (fs w'))"
proof -
  from sample_thumb_served obtain run w' where run: "serve_thumb sample_magick sample_thumb_config (Some file_store) (replicate 12 NUL) []
      (replicate 128 (Some NUL)) ''/a=w.jpg'' 0 sample_store = Some (run, w')" "tr_status run = 0" "tr_data run = ''XY''"
      "files (fs w') ''/d//d/a_w.jpg'' = None"
    by auto
  have root: "array_string (store_root sample_store) = Some ''/d''"
    using array_string_cells [of "''/d''" "replicate 125 (Some NUL)"] by (simp add: sample_store_def eval_nat_numeral)
  have "create_timestamp (tr_info run) = 0 \<and> files (fs w') ''/d/a_w.jpg'' = Some (''XY'', clock (fs w'))"
    using new_thumbnail_undated [of "''a''" "''w''" "''jpg''" "replicate 12 NUL" sample_store "''/d''" sample_magick
        sample_thumb_config "[]" "replicate 128 (Some NUL)" run w'] run root
    by (simp add: sample_store_def)
  with run show ?thesis by blast
qed

definition sample_env :: "unit thumb_env" where
  "sample_env = \<lparr>te_magick = sample_magick,
     te_client = \<lparr>fdfs_init = (\<lambda>d s. (1, False, d)), fdfs_upload = (\<lambda>d a b e f l. (1, d, l)), fdfs_download = (\<lambda>d s. (1, [], d)),
       fdfs_info = (\<lambda>d s. (1, 0)), fdfs_close = id\<rparr>,
     te_format = show_int, te_now = 863993, te_stk1 = replicate 12 NUL, te_stk2 = [], te_last = replicate 128 (Some NUL)\<rparr>"

definition sample_thumb_con :: connection where
  "sample_thumb_con = (connection_init config_none None 0)\<lparr>conuri := \<lparr>uri_scheme = None, uri_authority = None,
     uri_path = Some ''/a=w.jpg'', uri_path_raw = None, uri_query = None\<rparr>,
     phys := \<lparr>phys_path = Some ''/www/a=w.jpg'', phys_basedir = None, phys_doc_root = None, phys_rel_path = None, phys_etag = None\<rparr>\<rparr>"

definition sample_module_config :: thumb_config where
  "sample_module_config = sample_thumb_config\<lparr>tc_store_type := Some ''file'', tc_store_conf := Some ''/c''\<rparr>"

definition sample_files :: "unit store_world" where
  "sample_files = sample_store\<lparr>store_root := char_array 128,
     fs := (fs sample_store)\<lparr>files := [''/d/a.jpg'' \<mapsto> (''PIC'', 7), ''/c'' \<mapsto> (''/d'', 1)]\<rparr>\<rparr>"

lemma sample_subrequest:
  "(case autothumb_subrequest sample_env 1 sample_module_config mtime_cache_init sample_thumb_con sample_files of
     None \<Rightarrow> False | Some (r, cache, c, w) \<Rightarrow> r = HANDLER_FINISHED \<and> file_finished c) \<and>
   map_option (\<lambda>(run, w). tr_data run) (subrequest_run sample_env sample_module_config sample_thumb_con sample_files) = Some ''XY''"
  by code_simp

theorem image_loses_last_byte_witness:
  "\<exists>r cache c w. autothumb_subrequest sample_env 1 sample_module_config mtime_cache_init sample_thumb_con sample_files = Some (r, cache, c, w) \<and>
     cq_repr (write_queue c) [(Mem_Data (Some ''X''), 0)]"
proof -
  from sample_subrequest obtain r cache c w where
    run: "autothumb_subrequest sample_env 1 sample_module_config mtime_cache_init sample_thumb_con sample_files = Some (r, cache, c, w)"
      "file_finished c" by (auto split: option.splits)
  have "write_queue sample_thumb_con = chunkqueue_init" "\<not> file_finished sample_thumb_con"
    by (simp_all add: sample_thumb_con_def connection_init_def con.defs)
  with image_loses_last_byte [OF run, of "[]"] run(1) sample_subrequest show ?thesis by (auto simp: cq_repr_init)
qed

end
