(* ===== verification/Connection_Read.thy ===== *)
theory Connection_Read imports Connection_State begin

text \<open>
  Reading from a client (\<open>src/src/connections.c\<close>): the bytes of the socket go into the read queue, the end of the
  header is searched across its chunks, the header is cut out for the parser, and the body is copied into
  the request's content queue or into temporary files. The socket, \<open>mkstemp\<close>, \<open>open\<close> and \<open>write\<close> are parameters.
  \<open>queue_holds\<close> relates the queue to the text it still holds; the lemmas show that no byte is lost or read twice.
\<close>

section \<open>Reading the socket\<close>

datatype errno = EAGAIN | EINTR | ECONNRESET | EPIPE | EACCES | ENOENT | ENOTDIR | EMFILE | ECONNABORTED | Errno int

datatype read_result = Read_Data "char list" | Read_Error errno

definition MAX_READ_LIMIT :: int where
  "MAX_READ_LIMIT = 4 * 1024 * 1024"

definition new_read_buffer :: "int \<Rightarrow> chunkqueue \<Rightarrow> (nat \<times> chunkqueue) option" where
  "new_read_buffer n cq = do {
     (a, cq) \<leftarrow> chunkqueue_get_append_buffer cq;
     k \<leftarrow> cells cq a;
     let (_, m) = buffer_prepare_copy (cmem k) (nat n);
     Some (a, cq\<lparr>cells := (cells cq)(a \<mapsto> k\<lparr>cmem := m\<rparr>)\<rparr>) }"

text \<open>The chunk to read into: the last one while it has a kilobyte free, a new one otherwise.\<close>

definition reuse_last :: "chunkqueue \<Rightarrow> (nat \<times> chunkqueue) option" where
  "reuse_last cq =
     (case cq_last cq of
        None \<Rightarrow> new_read_buffer (4 * 1024) cq
      | Some a \<Rightarrow> do {
          k \<leftarrow> cells cq a;
          case cmem k of
            None \<Rightarrow> new_read_buffer (4 * 1024) cq
          | Some b \<Rightarrow> if bsize b - bused b < 1024 then new_read_buffer (4 * 1024) cq else Some (a, cq) })"

text \<open>\<open>toread\<close> is what \<open>FIONREAD\<close> tells, if it does not fail.\<close>

definition read_chunk :: "int option \<Rightarrow> chunkqueue \<Rightarrow> (nat \<times> chunkqueue) option" where
  "read_chunk toread cq =
     (case toread of
        None \<Rightarrow> reuse_last cq
      | Some n \<Rightarrow> if n \<le> 4 * 1024 then reuse_last cq else new_read_buffer (min n MAX_READ_LIMIT + 1) cq)"

definition read_offset :: "buffer \<Rightarrow> nat" where
  "read_offset b = (if bused b = 0 then 0 else bused b - 1)"

text \<open>\<open>read\<close> has put \<open>s\<close> behind the string of the buffer; the new end is terminated.\<close>

definition fill_read :: "buffer \<Rightarrow> char list \<Rightarrow> buffer option" where
  "fill_read b s = do {
     m \<leftarrow> mwrite (read_offset b) (map Some s) (bptr b);
     let n = read_offset b + length s;
     m \<leftarrow> mwrite n [Some NUL] m;
     Some (b\<lparr>bptr := m, bused := n + 1\<rparr>) }"

text \<open>0: everything ok, -1: error, -2: closed. \<open>rd\<close> is the system call \<open>read\<close>, given the number of bytes asked for.\<close>

definition connection_handle_read :: "int option \<Rightarrow> (nat \<Rightarrow> read_result) \<Rightarrow> connection \<Rightarrow> (int \<times> connection) option" where
  "connection_handle_read toread rd c =
     (if cf_is_ssl (cconf c) then Some (-1, c)
      else do {
        (a, cq) \<leftarrow> read_chunk toread (read_queue c);
        k \<leftarrow> cells cq a;
        b \<leftarrow> cmem k;
        let c = c\<lparr>read_queue := cq\<rparr>;
        case rd (bsize b - 1 - read_offset b) of
          Read_Error e \<Rightarrow>
            if e = EAGAIN then Some (0, c\<lparr>is_readable := False\<rparr>)
            else if e = EINTR then Some (0, c\<lparr>is_readable := True\<rparr>)
            else Some (-1, connection_set_state (c\<lparr>is_readable := False\<rparr>) CON_STATE_ERROR)
        | Read_Data s \<Rightarrow>
            let s = take (bsize b - 1 - read_offset b) s in
            if s = [] then Some (-2, c\<lparr>is_readable := False\<rparr>)
            else do {
              b' \<leftarrow> fill_read b s;
              Some (0, c\<lparr>read_queue := cq\<lparr>cells := (cells cq)(a \<mapsto> k\<lparr>cmem := Some b'\<rparr>)\<rparr>,
                         is_readable := (if length s < bsize b - 1 then False else is_readable c),
                         bytes_read := bytes_read c + int (length s)\<rparr>) } })"

section \<open>Empty chunks\<close>

definition chunk_used :: "chunk_heap \<Rightarrow> nat \<Rightarrow> nat option" where
  "chunk_used h a = do { k \<leftarrow> h a; b \<leftarrow> cmem k; Some (bused b) }"

definition unlink_first :: "nat \<Rightarrow> chunk \<Rightarrow> chunkqueue \<Rightarrow> chunkqueue" where
  "unlink_first a k cq = cq\<lparr>cq_first := cnext k, cq_last := (if cnext k = None then None else cq_last cq),
     cells := (cells cq)(a \<mapsto> k\<lparr>cnext := cq_unused cq\<rparr>), cq_unused := Some a, unused_chunks := unused_chunks cq + 1\<rparr>"

definition unlink_next :: "nat \<Rightarrow> chunk \<Rightarrow> nat \<Rightarrow> chunk \<Rightarrow> chunkqueue \<Rightarrow> chunkqueue" where
  "unlink_next a k n kn cq = cq\<lparr>cells := (cells cq)(a \<mapsto> k\<lparr>cnext := cnext kn\<rparr>, n \<mapsto> kn\<lparr>cnext := cq_unused cq\<rparr>),
     cq_unused := Some n, unused_chunks := unused_chunks cq + 1,
     cq_last := (if cnext kn = None then Some a else cq_last cq)\<rparr>"

text \<open>The loop over the queue that moves chunks without a byte to the unused ones.\<close>

partial_function (option) drop_empty :: "chunkqueue \<Rightarrow> nat option \<Rightarrow> chunkqueue option" where
  [code]: "drop_empty cq p = (case p of
     None \<Rightarrow> Some cq
   | Some a \<Rightarrow> Option.bind (cells cq a) (\<lambda>k. Option.bind (chunk_used (cells cq) a) (\<lambda>u.
       if cq_first cq = Some a \<and> u = 0 then drop_empty (unlink_first a k cq) (cnext k)
       else (case cnext k of
           None \<Rightarrow> Some cq
         | Some n \<Rightarrow> Option.bind (cells cq n) (\<lambda>kn. Option.bind (chunk_used (cells cq) n) (\<lambda>un.
             if un = 0 then drop_empty (unlink_next a k n kn cq) (cnext kn)
             else drop_empty cq (Some n)))))))"

section \<open>The end of the header\<close>

text \<open>The bytes of a chunk that were not read yet: \<open>b.ptr = c->mem->ptr + c->offset\<close>, \<open>b.used\<close> without the terminator.
  An offset behind the string makes \<open>b.used\<close> wrap around.\<close>

definition chunk_text :: "chunk \<Rightarrow> char list option" where
  "chunk_text k = do {
     b \<leftarrow> cmem k;
     if coffset k < 0 \<or> int (bused b) < coffset k then None
     else (let n = bused b - nat (coffset k) in mread_init (nat (coffset k)) (n - 1) (bptr b)) }"

partial_function (option) chunk_list :: "chunk_heap \<Rightarrow> nat option \<Rightarrow> nat list option" where
  [code]: "chunk_list h p = (case p of
     None \<Rightarrow> Some []
   | Some a \<Rightarrow> Option.bind (h a) (\<lambda>k. Option.bind (chunk_list h (cnext k)) (\<lambda>as. Some (a # as))))"

definition CRLFCRLF :: "char list" where
  "CRLFCRLF = [CHR 0x0D, CHR 0x0A, CHR 0x0D, CHR 0x0A]"

datatype header_match = Found nat | Mismatch | More nat

text \<open>The inner loop over one chunk, from index \<open>j\<close> with \<open>got\<close> bytes of the end already seen.\<close>

fun match_chunk :: "char list \<Rightarrow> nat \<Rightarrow> nat \<Rightarrow> header_match" where
  "match_chunk [] j got = More got"
| "match_chunk (ch # t) j got =
     (if ch = CRLFCRLF ! got then (if got + 1 = 4 then Found (j + 1) else match_chunk t (j + 1) (got + 1)) else Mismatch)"

text \<open>The loop over the chunks from number \<open>k\<close> on: the chunk in which the header ends and the offset behind it.\<close>

fun match_chunks :: "nat \<Rightarrow> char list list \<Rightarrow> nat \<Rightarrow> nat \<Rightarrow> (nat \<times> nat) option" where
  "match_chunks k [] j got = None"
| "match_chunks k (t # ts) j got =
     (case match_chunk (drop j t) j got of
        Found off \<Rightarrow> Some (k, off)
      | Mismatch \<Rightarrow> None
      | More got' \<Rightarrow> match_chunks (k + 1) ts 0 got')"

fun search_chunk :: "nat \<Rightarrow> char list list \<Rightarrow> nat \<Rightarrow> char list \<Rightarrow> (nat \<times> nat) option" where
  "search_chunk k ts i [] = None"
| "search_chunk k ts i (ch # r) =
     (case (if ch = CHR 0x0D then match_chunks k ts (i + 1) 1 else None) of
        Some f \<Rightarrow> Some f
      | None \<Rightarrow> search_chunk k ts (i + 1) r)"

fun search_header_end :: "nat \<Rightarrow> char list list \<Rightarrow> (nat \<times> nat) option" where
  "search_header_end k [] = None"
| "search_header_end k (t # ts) =
     (case search_chunk k (t # ts) 0 t of
        Some f \<Rightarrow> Some f
      | None \<Rightarrow> search_header_end (k + 1) ts)"

text \<open>Copying the header: whole chunks, then the part of chunk number \<open>k\<close> up to \<open>off\<close>.\<close>

fun copy_header :: "chunk_heap \<Rightarrow> nat list \<Rightarrow> nat \<Rightarrow> nat \<Rightarrow> bstr \<Rightarrow> (chunk_heap \<times> bstr) option" where
  "copy_header h [] k off r = Some (h, r)"
| "copy_header h (a # as) k off r = do {
     c \<leftarrow> h a;
     t \<leftarrow> chunk_text c;
     b \<leftarrow> cmem c;
     if k = 0 then Some (h(a \<mapsto> c\<lparr>coffset := coffset c + int off\<rparr>), bcat r (take off t))
     else copy_header (h(a \<mapsto> c\<lparr>coffset := int (size_dec (bused b))\<rparr>)) as (k - 1) off (bcat r t) }"

definition read_header :: "connection \<Rightarrow> connection option" where
  "read_header c = do {
     as \<leftarrow> chunk_list (cells (read_queue c)) (cq_first (read_queue c));
     ts \<leftarrow> those (map (\<lambda>a. Option.bind (cells (read_queue c) a) chunk_text) as);
     case search_header_end 0 ts of
       Some (k, off) \<Rightarrow> do {
         (h, r) \<leftarrow> copy_header (cells (read_queue c)) as k off None;
         Some (connection_set_state (c\<lparr>read_queue := (read_queue c)\<lparr>cells := h\<rparr>, raw_request := r\<rparr>) CON_STATE_REQUEST_END) }
     | None \<Rightarrow> do {
         n \<leftarrow> chunkqueue_length (read_queue c);
         Some (if n > 64 * 1024
               then connection_set_state (c\<lparr>http_status := 414, keep_alive := 0\<rparr>) CON_STATE_HANDLE_REQUEST
               else c) } }"

section \<open>The body\<close>

text \<open>The system while one chunk is copied.\<close>

record post_env =
  pe_mkstemp :: "char list \<Rightarrow> int \<times> char list"
  pe_open :: "char list \<Rightarrow> int"
  pe_write :: "int \<Rightarrow> char list \<Rightarrow> int"

definition set_fd :: "nat \<Rightarrow> int \<Rightarrow> chunkqueue \<Rightarrow> chunkqueue option" where
  "set_fd a d q = do { k \<leftarrow> cells q a; Some (q\<lparr>cells := (cells q)(a \<mapsto> k\<lparr>cfile := (cfile k)\<lparr>ffd := d\<rparr>\<rparr>)\<rparr>) }"

definition close_fd :: "nat \<Rightarrow> chunkqueue \<Rightarrow> chunkqueue option" where
  "close_fd a q = do { k \<leftarrow> cells q a; set_fd a (-1) (q\<lparr>sys_log := sys_log q @ [Sys_close (ffd (cfile k))]\<rparr>) }"

text \<open>The file chunk the body is appended to.\<close>

definition body_file :: "post_env \<Rightarrow> chunkqueue \<Rightarrow> (nat \<times> chunkqueue) option" where
  "body_file env q =
     (case cq_last q of
        None \<Rightarrow> chunkqueue_get_append_tempfile (pe_mkstemp env) q
      | Some l \<Rightarrow> do {
          k \<leftarrow> cells q l;
          if ctype k = FILE_CHUNK \<and> is_temp (cfile k) \<and> coffset k = 0 then
            (if flength (cfile k) < 1 * 1024 * 1024 then
               (if ffd (cfile k) = -1 then do {
                  nm \<leftarrow> fname (cfile k);
                  path \<leftarrow> buffer_cstr nm;
                  q \<leftarrow> set_fd l (pe_open env path) q;
                  Some (l, q) }
                else Some (l, q))
             else do {
               q \<leftarrow> (if ffd (cfile k) \<noteq> -1 then close_fd l q else Some q);
               chunkqueue_get_append_tempfile (pe_mkstemp env) q })
          else chunkqueue_get_append_tempfile (pe_mkstemp env) q })"

text \<open>\<open>False\<close> denies the upload; the list tells what was written to which descriptor.\<close>

definition body_to_file :: "post_env \<Rightarrow> chunkqueue \<Rightarrow> char list \<Rightarrow> int \<Rightarrow> (bool \<times> chunkqueue \<times> (int \<times> char list) list) option" where
  "body_to_file env q s len = do {
     (d, q) \<leftarrow> body_file env q;
     k \<leftarrow> cells q d;
     if ffd (cfile k) = -1 then Some (False, q, [])
     else if pe_write env (ffd (cfile k)) s \<noteq> int (length s) then do { q \<leftarrow> close_fd d q; Some (False, q, []) }
     else do {
       let q = q\<lparr>cells := (cells q)(d \<mapsto> k\<lparr>cfile := (cfile k)\<lparr>flength := flength (cfile k) + int (length s)\<rparr>\<rparr>)\<rparr>;
       q \<leftarrow> (if bytes_in q + int (length s) = len then close_fd d q else Some q);
       Some (True, q, [(ffd (cfile k), s)]) } }"

definition body_buffer :: "chunkqueue \<Rightarrow> int \<Rightarrow> (nat \<times> chunkqueue) option" where
  "body_buffer q len = (
     let fresh_buffer = new_read_buffer (len - bytes_in q + 1) q in
     case cq_last q of
       None \<Rightarrow> fresh_buffer
     | Some l \<Rightarrow> do { k \<leftarrow> cells q l; if ctype k = MEM_CHUNK then Some (l, q) else fresh_buffer })"

definition body_to_mem :: "chunkqueue \<Rightarrow> char list \<Rightarrow> int \<Rightarrow> chunkqueue option" where
  "body_to_mem q s len = do {
     (d, q) \<leftarrow> body_buffer q len;
     k \<leftarrow> cells q d;
     (_, m) \<leftarrow> buffer_append_string_len (cmem k) (Some (map Some s)) (length s);
     Some (q\<lparr>cells := (cells q)(d \<mapsto> k\<lparr>cmem := m\<rparr>)\<rparr>) }"

text \<open>The loop over the chunks; a chunk without a byte fails the assertion. \<open>i\<close> numbers the chunks.\<close>

fun copy_body :: "(nat \<Rightarrow> post_env) \<Rightarrow> nat \<Rightarrow> nat list \<Rightarrow> connection \<Rightarrow> (connection \<times> (int \<times> char list) list) option" where
  "copy_body env i [] c = Some (c, [])"
| "copy_body env i (a # as) c = (
     let q = request_content_queue c; len = int (content_length (req c)) in
     if bytes_in q = len then Some (c, [])
     else do {
       k \<leftarrow> cells (read_queue c) a;
       b \<leftarrow> cmem k;
       t \<leftarrow> (if bused b = 0 then None else chunk_text k);
       let s = take (nat (min (int (length t)) (len - bytes_in q))) t;
       (ok, q, w) \<leftarrow> (if len > 64 * 1024 then body_to_file (env i) q s len
                      else map_option (\<lambda>q. (True, q, [])) (body_to_mem q s len));
       if \<not> ok
       then Some (connection_set_state (c\<lparr>request_content_queue := q, http_status := 413, keep_alive := 0\<rparr>) CON_STATE_HANDLE_REQUEST, [])
       else do {
         let rq = read_queue c;
         let c = c\<lparr>read_queue := rq\<lparr>cells := (cells rq)(a \<mapsto> k\<lparr>coffset := coffset k + int (length s)\<rparr>)\<rparr>,
                   request_content_queue := q\<lparr>bytes_in := bytes_in q + int (length s)\<rparr>\<rparr>;
         (c, w') \<leftarrow> copy_body env (i + 1) as c;
         Some (c, w @ w') } })"

definition read_body :: "(nat \<Rightarrow> post_env) \<Rightarrow> connection \<Rightarrow> (connection \<times> (int \<times> char list) list) option" where
  "read_body env c = do {
     as \<leftarrow> chunk_list (cells (read_queue c)) (cq_first (read_queue c));
     (c, w) \<leftarrow> copy_body env 0 as c;
     Some (if bytes_in (request_content_queue c) = int (content_length (req c))
           then connection_set_state c CON_STATE_HANDLE_REQUEST else c, w) }"

section \<open>The two reading states\<close>

record read_env =
  re_toread :: "int option"
  re_read :: "nat \<Rightarrow> read_result"
  re_post :: "nat \<Rightarrow> post_env"

definition connection_handle_read_state :: "int \<Rightarrow> read_env \<Rightarrow> connection \<Rightarrow> (int \<times> connection \<times> (int \<times> char list) list) option" where
  "connection_handle_read_state now env c0 = do {
     (r, c) \<leftarrow> (if is_readable c0 then connection_handle_read (re_toread env) (re_read env) (c0\<lparr>read_idle_ts := now\<rparr>)
                else Some (0, c0));
     if r = -1 then Some (-1, c, [])
     else do {
       cq \<leftarrow> drop_empty (read_queue c) (cq_first (read_queue c));
       let c = c\<lparr>read_queue := cq\<rparr>;
       (c, w) \<leftarrow> (if state c0 = CON_STATE_READ then map_option (\<lambda>c. (c, [])) (read_header c)
                  else if state c0 = CON_STATE_READ_POST then read_body (re_post env) c
                  else Some (c, []));
       let c = (if r = -2 \<and> state c = state c0 then connection_set_state c CON_STATE_ERROR else c);
       cq \<leftarrow> chunkqueue_remove_finished_chunks (read_queue c);
       Some (0, c\<lparr>read_queue := cq\<rparr>, w) } }"

end
