(* ===== verification/Header_Search.thy ===== *)
theory Header_Search imports Connection_Read "HOL-Library.Sublist" begin

text \<open>
  The search for the end of the header is correct: the nested loops over the chunks with their \<open>goto\<close> find the first
  CRLF CRLF of the concatenated text, wherever the chunks are cut, and nothing else.
\<close>

text \<open>The length of the text up to and with the first CRLF CRLF.\<close>

fun find_header_end :: "char list \<Rightarrow> nat option" where
  "find_header_end [] = None"
| "find_header_end (c # t) = (if prefix CRLFCRLF (c # t) then Some 4 else map_option Suc (find_header_end t))"

lemma find_header_end_SomeD:
  "find_header_end t = Some n \<Longrightarrow> n \<le> length t \<and> 4 \<le> n \<and> drop (n - 4) (take n t) = CRLFCRLF"
proof (induction t arbitrary: n)
  case Nil
  then show ?case by simp
next
  case (Cons c t)
  show ?case
  proof (cases "prefix CRLFCRLF (c # t)")
    case True
    with Cons.prems show ?thesis by (auto simp: prefix_def CRLFCRLF_def)
  next
    case False
    with Cons.prems obtain m where m: "find_header_end t = Some m" "n = Suc m" by auto
    from Cons.IH [OF m(1)] have ih: "m \<le> length t" "4 \<le> m" "drop (m - 4) (take m t) = CRLFCRLF" by auto
    then have "n - 4 = Suc (m - 4)" using m(2) by simp
    with ih m(2) show ?thesis by simp
  qed
qed

lemma find_header_end_None: "find_header_end t = None \<longleftrightarrow> (\<forall>i. \<not> prefix CRLFCRLF (drop i t))"
proof (induction t)
  case Nil
  then show ?case by (simp add: CRLFCRLF_def)
next
  case (Cons c t)
  have "(\<forall>i. \<not> prefix CRLFCRLF (drop i (c # t))) \<longleftrightarrow> \<not> prefix CRLFCRLF (c # t) \<and> (\<forall>i. \<not> prefix CRLFCRLF (drop i t))"
    by (metis drop_0 drop_Suc_Cons not0_implies_Suc)
  with Cons show ?case by auto
qed

text \<open>It is the first one: the text in front of it, without the last byte, has none.\<close>

lemma find_header_end_first: "find_header_end t = Some n \<Longrightarrow> i + 4 < n \<Longrightarrow> \<not> prefix CRLFCRLF (drop i t)"
proof (induction t arbitrary: n i)
  case Nil
  then show ?case by simp
next
  case (Cons c t)
  then have no: "\<not> prefix CRLFCRLF (c # t)" by (auto split: if_splits)
  with Cons.prems obtain m where m: "find_header_end t = Some m" "n = Suc m" by auto
  show ?case
  proof (cases i)
    case 0
    with no show ?thesis by simp
  next
    case (Suc j)
    with Cons.IH [OF m(1), of j] Cons.prems m(2) show ?thesis by simp
  qed
qed

lemma CRLFCRLF_drop: "got < 4 \<Longrightarrow> drop got CRLFCRLF = CRLFCRLF ! got # drop (Suc got) CRLFCRLF"
  by (rule Cons_nth_drop_Suc [symmetric]) (simp add: CRLFCRLF_def)

lemma length_CRLFCRLF [simp]: "length CRLFCRLF = 4"
  by (simp add: CRLFCRLF_def)

lemma match_chunk_result:
  "got < 4 \<Longrightarrow>
   (case match_chunk t j got of
      Found off \<Rightarrow> off = j + (4 - got) \<and> prefix (drop got CRLFCRLF) t
    | Mismatch \<Rightarrow> \<not> prefix (drop got CRLFCRLF) (t @ x)
    | More g \<Rightarrow> got \<le> g \<and> g < 4 \<and> j + (4 - got) = j + length t + (4 - g) \<and>
        (prefix (drop got CRLFCRLF) (t @ x) \<longleftrightarrow> prefix (drop g CRLFCRLF) x))"
proof (induction t j got rule: match_chunk.induct)
  case (1 j got)
  then show ?case by simp
next
  case (2 ch t j got)
  note d = CRLFCRLF_drop [OF 2(2)]
  show ?case
  proof (cases "ch = CRLFCRLF ! got")
    case False
    with d show ?thesis by simp
  next
    case eq: True
    show ?thesis
    proof (cases "got + 1 = 4")
      case True
      then have "drop (Suc got) CRLFCRLF = []" by simp
      with eq True d show ?thesis by simp
    next
      case False
      with 2 have "got + 1 < 4" by simp
      from 2(1) [OF eq False this] eq False 2(2) d show ?thesis
        by (auto split: header_match.splits)
    qed
  qed
qed

lemma match_chunks_Some:
  "match_chunks k ts j got = Some (k', off) \<Longrightarrow> got < 4 \<Longrightarrow> (ts \<noteq> [] \<longrightarrow> j \<le> length (hd ts)) \<Longrightarrow>
    prefix (drop got CRLFCRLF) (drop j (concat ts)) \<and> k \<le> k' \<and> k' - k < length ts \<and> off \<le> length (ts ! (k' - k)) \<and>
    length (concat (take (k' - k) ts)) + off = j + (4 - got)"
proof (induction k ts j got rule: match_chunks.induct)
  case (1 k j got)
  then show ?case by simp
next
  case (2 k t ts j got)
  have r: "case match_chunk (drop j t) j got of
      Found off \<Rightarrow> off = j + (4 - got) \<and> prefix (drop got CRLFCRLF) (drop j t)
    | Mismatch \<Rightarrow> \<not> prefix (drop got CRLFCRLF) (drop j t @ concat ts)
    | More g \<Rightarrow> got \<le> g \<and> g < 4 \<and> j + (4 - got) = j + length (drop j t) + (4 - g) \<and>
        (prefix (drop got CRLFCRLF) (drop j t @ concat ts) \<longleftrightarrow> prefix (drop g CRLFCRLF) (concat ts))"
    by (rule match_chunk_result [OF 2(3)])
  have j: "j \<le> length t" "drop j (concat (t # ts)) = drop j t @ concat ts" using 2(4) by simp_all
  show ?case
  proof (cases "match_chunk (drop j t) j got")
    case (Found f)
    with r 2(2) j have f: "off = f" "k' = k" "f = j + (4 - got)" "prefix (drop got CRLFCRLF) (drop j t)" by auto
    have "length (drop got CRLFCRLF) \<le> length (drop j t)" using f(4) by (rule prefix_length_le)
    with f j 2(3) show ?thesis by (auto intro: prefix_prefix)
  next
    case Mismatch
    with 2(2) show ?thesis by simp
  next
    case (More g)
    with r have g: "g < 4" "j + (4 - got) = length t + (4 - g)"
      "prefix (drop got CRLFCRLF) (drop j t @ concat ts) \<longleftrightarrow> prefix (drop g CRLFCRLF) (concat ts)" using j(1) by auto
    from More 2(2) have m: "match_chunks (k + 1) ts 0 g = Some (k', off)" by simp
    from 2(1) [OF More m g(1)] have ih: "prefix (drop g CRLFCRLF) (concat ts)" "k + 1 \<le> k'" "k' - (k + 1) < length ts"
      "off \<le> length (ts ! (k' - (k + 1)))" "length (concat (take (k' - (k + 1)) ts)) + off = 4 - g" by auto
    have kk: "k' - k = Suc (k' - (k + 1))" using ih(2) by simp
    have "length (concat (take (k' - k) (t # ts))) + off = length t + (length (concat (take (k' - (k + 1)) ts)) + off)"
      unfolding kk by simp
    also have "\<dots> = j + (4 - got)" using ih(5) g(2) by simp
    finally show ?thesis using ih(1-4) g(3) j kk by simp
  qed
qed

lemma match_chunks_None:
  "match_chunks k ts j got = None \<Longrightarrow> got < 4 \<Longrightarrow> (ts \<noteq> [] \<longrightarrow> j \<le> length (hd ts)) \<Longrightarrow>
    \<not> prefix (drop got CRLFCRLF) (drop j (concat ts))"
proof (induction k ts j got rule: match_chunks.induct)
  case (1 k j got)
  then show ?case by (simp add: CRLFCRLF_drop)
next
  case (2 k t ts j got)
  have j: "drop j (concat (t # ts)) = drop j t @ concat ts" using 2(4) by simp
  have r: "case match_chunk (drop j t) j got of
      Found off \<Rightarrow> off = j + (4 - got) \<and> prefix (drop got CRLFCRLF) (drop j t)
    | Mismatch \<Rightarrow> \<not> prefix (drop got CRLFCRLF) (drop j t @ concat ts)
    | More g \<Rightarrow> got \<le> g \<and> g < 4 \<and> j + (4 - got) = j + length (drop j t) + (4 - g) \<and>
        (prefix (drop got CRLFCRLF) (drop j t @ concat ts) \<longleftrightarrow> prefix (drop g CRLFCRLF) (concat ts))"
    by (rule match_chunk_result [OF 2(3)])
  show ?case
  proof (cases "match_chunk (drop j t) j got")
    case (Found f)
    with 2(2) show ?thesis by simp
  next
    case Mismatch
    with r j show ?thesis by simp
  next
    case (More g)
    with 2(2) have m: "match_chunks (k + 1) ts 0 g = None" by simp
    from More r have g: "g < 4" by simp
    from 2(1) [OF More m g] More r j show ?thesis by simp
  qed
qed

lemma CRLFCRLF_Cons: "CRLFCRLF = CHR 0x0D # drop 1 CRLFCRLF"
  by (simp add: CRLFCRLF_def)

text \<open>The place a search reports: chunk \<open>k'\<close> of the chunks from \<open>k\<close> on, \<open>n\<close> bytes behind their start.\<close>

definition place :: "nat \<Rightarrow> char list list \<Rightarrow> nat \<times> nat \<Rightarrow> nat \<Rightarrow> bool" where
  "place k ts f n \<longleftrightarrow> k \<le> fst f \<and> fst f - k < length ts \<and> snd f \<le> length (ts ! (fst f - k)) \<and>
     length (concat (take (fst f - k) ts)) + snd f = n"

lemma search_chunk_result:
  "r = drop i t \<Longrightarrow> i \<le> length t \<Longrightarrow>
    (case search_chunk k (t # ts) i r of
       Some f \<Rightarrow> (\<exists>n. find_header_end (drop i t @ concat ts) = Some n \<and> place k (t # ts) f (i + n))
     | None \<Rightarrow> find_header_end (drop i t @ concat ts) = map_option ((+) (length t - i)) (find_header_end (concat ts)))"
proof (induction r arbitrary: i)
  case Nil
  then have "length t = i" by simp
  then show ?case by (cases "find_header_end (concat ts)") auto
next
  case (Cons ch r)
  have i: "i < length t" using Cons.prems by (metis drop_all leI list.distinct(1))
  have r1: "drop i t = ch # r" using Cons.prems by simp
  have r: "drop i t = ch # r" "r = drop (Suc i) t" using r1 Cons_nth_drop_Suc [OF i] by simp_all
  have rest: "drop (i + 1) (concat (t # ts)) = r @ concat ts" using i r by simp
  have pre: "prefix CRLFCRLF (drop i t @ concat ts) \<longleftrightarrow> ch = CHR 0x0D \<and> prefix (drop 1 CRLFCRLF) (r @ concat ts)"
    unfolding r(1) by (subst CRLFCRLF_Cons) auto
  have fits: "t # ts \<noteq> [] \<longrightarrow> i + 1 \<le> length (hd (t # ts))" using i by simp
  show ?case
  proof (cases "prefix CRLFCRLF (drop i t @ concat ts)")
    case True
    with pre rest match_chunks_None [of k "t # ts" "i + 1" 1] fits obtain f where
      f: "match_chunks k (t # ts) (i + 1) 1 = Some f" by (cases "match_chunks k (t # ts) (i + 1) 1") auto
    obtain k' off where kf: "f = (k', off)" by (cases f)
    have "place k (t # ts) f (i + 4)"
      using match_chunks_Some [OF f [unfolded kf] _ fits] kf by (simp add: place_def)
    moreover have "find_header_end (drop i t @ concat ts) = Some 4" using True r(1) by simp
    ultimately show ?thesis using True pre f by auto
  next
    case False
    have none: "(if ch = CHR 0x0D then match_chunks k (t # ts) (i + 1) 1 else None) = None"
    proof (cases "ch = CHR 0x0D")
      case True
      with False pre have "\<not> prefix (drop 1 CRLFCRLF) (r @ concat ts)" by simp
      with True match_chunks_Some [of k "t # ts" "i + 1" 1] fits rest show ?thesis
        by (cases "match_chunks k (t # ts) (i + 1) 1") auto
    qed simp
    have step: "find_header_end (drop i t @ concat ts) = map_option Suc (find_header_end (r @ concat ts))"
      using False r(1) by simp
    have "case search_chunk k (t # ts) (Suc i) r of
       Some f \<Rightarrow> (\<exists>n. find_header_end (drop (Suc i) t @ concat ts) = Some n \<and> place k (t # ts) f (Suc i + n))
     | None \<Rightarrow> find_header_end (drop (Suc i) t @ concat ts) = map_option ((+) (length t - Suc i)) (find_header_end (concat ts))"
      using Cons.IH [OF r(2)] i by simp
    moreover have "length t - i = Suc (length t - Suc i)" using i by simp
    ultimately show ?thesis
      using none step r(2) by (auto simp: option.map_comp comp_def split: option.splits)
  qed
qed

lemma search_header_end_result:
  "case search_header_end k ts of
     Some f \<Rightarrow> (\<exists>n. find_header_end (concat ts) = Some n \<and> place k ts f n)
   | None \<Rightarrow> find_header_end (concat ts) = None"
proof (induction k ts rule: search_header_end.induct)
  case (1 k)
  then show ?case by simp
next
  case (2 k t ts)
  from search_chunk_result [where r = t and i = 0 and t = t and k = k and ts = ts] have r: "case search_chunk k (t # ts) 0 t of
       Some f \<Rightarrow> (\<exists>n. find_header_end (t @ concat ts) = Some n \<and> place k (t # ts) f n)
     | None \<Rightarrow> find_header_end (t @ concat ts) = map_option ((+) (length t)) (find_header_end (concat ts))"
    by (cases "search_chunk k (t # ts) 0 t") simp_all
  show ?case
  proof (cases "search_chunk k (t # ts) 0 t")
    case (Some f)
    with r show ?thesis by simp
  next
    case None
    from 2 [OF this] show ?thesis
    proof (cases "search_header_end (k + 1) ts")
      case (Some f)
      with 2 [OF None] obtain n where n: "find_header_end (concat ts) = Some n" "place (k + 1) ts f n" by auto
      then have "fst f - k = Suc (fst f - (k + 1))" by (auto simp: place_def)
      with n have "place k (t # ts) f (length t + n)" by (auto simp: place_def)
      with r None Some n show ?thesis by simp
    qed (use r None in simp)
  qed
qed

text \<open>The search finds the end of the header exactly when there is one.\<close>

lemma search_header_end_Some:
  "search_header_end 0 ts = Some (k, off) \<Longrightarrow>
    find_header_end (concat ts) = Some (length (concat (take k ts)) + off) \<and> k < length ts \<and> off \<le> length (ts ! k)"
  using search_header_end_result [where k = 0 and ts = ts] by (auto simp: place_def)

lemma search_header_end_None: "search_header_end 0 ts = None \<longleftrightarrow> find_header_end (concat ts) = None"
  using search_header_end_result [where k = 0 and ts = ts] by (auto split: option.splits)

end
