(* ===== verification/Read_Queue.thy ===== *)
theory Read_Queue imports Header_Search begin

text \<open>
  The read queue as a text. \<open>queue_holds cq t\<close> says that the chunks of the queue, from their offsets on, hold the
  text \<open>t\<close>; reading appends to it, and cutting out the header takes the front off. The operations on the
  links are followed on the heap.
\<close>

section \<open>Changing a chunk in place\<close>

lemma shape_upd:
  assumes sh0: "cq_shape cq as us xs" and c: "cells cq a = Some c"
    and c': "cnext c' = cnext c" "ctype c' = ctype c" "chunk_ok c'"
  shows "cq_shape (cq\<lparr>cells := (cells cq)(a \<mapsto> c')\<rparr>) as us xs"
proof -
  note sh = cq_shapeD [OF sh0]
  have "chain ((cells cq)(a \<mapsto> c')) (cq_first cq) as" "chain ((cells cq)(a \<mapsto> c')) (cq_unused cq) us"
    using sh(1,2) by (simp_all add: chain_same_next [where h = "cells cq" and a = a, OF c c'(1)])
  moreover have "dom ((cells cq)(a \<mapsto> c')) = set (as @ us @ xs)" using sh(4) c by auto
  ultimately show ?thesis
    unfolding cq_shape_def using sh(3,5-8) sh(9,10) c c' by auto
qed

text \<open>Heaps that differ in the offsets only.\<close>

definition same_chunks :: "chunk_heap \<Rightarrow> chunk_heap \<Rightarrow> bool" where
  "same_chunks h h' \<longleftrightarrow> (\<forall>a. map_option (\<lambda>c. c\<lparr>coffset := 0\<rparr>) (h a) = map_option (\<lambda>c. c\<lparr>coffset := 0\<rparr>) (h' a))"

lemma same_chunks_refl [simp]: "same_chunks h h"
  by (simp add: same_chunks_def)

lemma same_chunks_upd: "same_chunks h h' \<Longrightarrow> h a = Some c \<Longrightarrow> same_chunks h (h'(a \<mapsto> c\<lparr>coffset := n\<rparr>))"
  unfolding same_chunks_def
proof (intro allI)
  fix x
  assume "\<forall>a. map_option (\<lambda>c. c\<lparr>coffset := 0\<rparr>) (h a) = map_option (\<lambda>c. c\<lparr>coffset := 0\<rparr>) (h' a)" and "h a = Some c"
  then show "map_option (\<lambda>c. c\<lparr>coffset := 0\<rparr>) (h x) = map_option (\<lambda>c. c\<lparr>coffset := 0\<rparr>) ((h'(a \<mapsto> c\<lparr>coffset := n\<rparr>)) x)"
    by (cases "x = a") simp_all
qed

lemma same_chunksD:
  assumes "same_chunks h h'" and "h a = Some c"
  shows "\<exists>c'. h' a = Some c' \<and> cnext c' = cnext c \<and> ctype c' = ctype c \<and> cmem c' = cmem c \<and> cfile c' = cfile c"
proof -
  from assms have "map_option (\<lambda>c. c\<lparr>coffset := 0\<rparr>) (h' a) = Some (c\<lparr>coffset := 0\<rparr>)"
    unfolding same_chunks_def by (metis option.simps(9))
  then obtain c' where c': "h' a = Some c'" "c'\<lparr>coffset := 0\<rparr> = c\<lparr>coffset := 0\<rparr>" by auto
  from arg_cong [OF c'(2), of cnext] arg_cong [OF c'(2), of ctype] arg_cong [OF c'(2), of cmem] arg_cong [OF c'(2), of cfile]
  show ?thesis using c'(1) by simp
qed

lemma same_chunks_sym: "same_chunks h h' \<Longrightarrow> same_chunks h' h"
  by (simp add: same_chunks_def)

lemma same_chunks_dom: "same_chunks h h' \<Longrightarrow> dom h' = dom h"
  by (auto simp: dom_def dest: same_chunksD same_chunksD [OF same_chunks_sym])

lemma same_chunks_chain: "same_chunks h h' \<Longrightarrow> chain h p as \<Longrightarrow> chain h' p as"
proof (induction as arbitrary: p)
  case (Cons a as)
  then obtain c where "p = Some a" "h a = Some c" "chain h (cnext c) as" by auto
  with Cons same_chunksD [OF Cons.prems(1), of a c] show ?case by auto
qed simp

lemma shape_same_chunks:
  assumes sh0: "cq_shape cq as us xs" and same: "same_chunks (cells cq) h"
  shows "cq_shape (cq\<lparr>cells := h\<rparr>) as us xs"
proof -
  note sh = cq_shapeD [OF sh0]
  have "chunk_ok c' \<and> (a \<in> set as \<longrightarrow> ctype c' \<noteq> UNUSED_CHUNK)" if c': "h a = Some c'" for a c'
  proof -
    from same_chunksD [OF same_chunks_sym [OF same] c'] obtain c where c: "cells cq a = Some c" "ctype c = ctype c'"
      "cmem c = cmem c'" "cfile c = cfile c'" by auto
    with sh(9) [OF c(1)] sh(10) [OF c(1)] show ?thesis by (simp add: chunk_ok_def)
  qed
  then show ?thesis
    unfolding cq_shape_def using same_chunks_chain [OF same sh(1)] same_chunks_chain [OF same sh(2)] same_chunks_dom [OF same] sh(3-8)
    by auto
qed

section \<open>The text of a queue\<close>

fun chunk_rest :: "chunk_data \<times> int \<Rightarrow> char list" where
  "chunk_rest (Mem_Data v, off) = drop (nat off) (bval v)"
| "chunk_rest (File_Data nm st len, off) = []"

fun text_chunk :: "chunk_data \<times> int \<Rightarrow> bool" where
  "text_chunk (Mem_Data v, off) \<longleftrightarrow> v \<noteq> None \<and> 0 \<le> off \<and> off \<le> int (length (bval v))"
| "text_chunk (File_Data nm st len, off) \<longleftrightarrow> False"

definition queue_text :: "(chunk_data \<times> int) list \<Rightarrow> char list" where
  "queue_text ds = concat (map chunk_rest ds)"

definition queue_holds :: "chunkqueue \<Rightarrow> char list \<Rightarrow> bool" where
  "queue_holds cq t \<longleftrightarrow> (\<exists>ds. cq_repr cq ds \<and> list_all text_chunk ds \<and> queue_text ds = t)"

lemma queue_text_simps [simp]:
  "queue_text [] = []" "queue_text (d # ds) = chunk_rest d @ queue_text ds" "queue_text (ds @ es) = queue_text ds @ queue_text es"
  by (simp_all add: queue_text_def)

lemma queue_holds_init: "queue_holds chunkqueue_init []"
  using cq_repr_init by (auto simp: queue_holds_def intro!: exI [of _ "[]"])

lemma queue_text_dropWhile: "list_all text_chunk ds \<Longrightarrow>
    queue_text (dropWhile finished ds) = queue_text ds \<and> list_all text_chunk (dropWhile finished ds)"
proof (induction ds)
  case (Cons d ds)
  then obtain s off where "d = (Mem_Data (Some s), off)" "0 \<le> off" "off \<le> int (length s)"
    by (cases d; cases "fst d") auto
  with Cons show ?case by auto
qed simp

lemma remove_finished_holds:
  assumes "queue_holds cq t"
  shows "\<exists>cq'. chunkqueue_remove_finished_chunks cq = Some cq' \<and> queue_holds cq' t"
proof -
  from assms obtain ds where ds: "cq_repr cq ds" "list_all text_chunk ds" "queue_text ds = t" by (auto simp: queue_holds_def)
  from chunkqueue_remove_finished_chunks_repr [OF ds(1)] queue_text_dropWhile [OF ds(2)] ds(3) show ?thesis
    unfolding queue_holds_def by blast
qed

text \<open>What a chunk with text looks like.\<close>

lemma text_chunkD:
  assumes "text_chunk (chunk_value c)" and "chunk_ok c" and "ctype c \<noteq> UNUSED_CHUNK"
  shows "\<exists>b s. cmem c = Some b \<and> buf_repr b (Some s) \<and> ctype c = MEM_CHUNK \<and> chunk_value c = (Mem_Data (Some s), coffset c) \<and>
    0 \<le> coffset c \<and> coffset c \<le> int (length s)"
proof -
  have t: "ctype c = MEM_CHUNK" using assms by (cases "ctype c") (auto simp: chunk_value_def)
  obtain b v where b: "cmem c = Some b" "buf_repr b v" using assms(2) by (auto simp: chunk_ok_def is_string_def)
  with t have "chunk_value c = (Mem_Data v, coffset c)" by (simp add: chunk_value_def)
  with assms(1) b t show ?thesis by (cases v) auto
qed

lemma chunk_text_rest:
  assumes "text_chunk (chunk_value c)" and "chunk_ok c" and "ctype c \<noteq> UNUSED_CHUNK"
  shows "chunk_text c = Some (chunk_rest (chunk_value c))"
proof -
  from text_chunkD [OF assms] obtain b s where b: "cmem c = Some b" "buf_repr b (Some s)"
    "chunk_value c = (Mem_Data (Some s), coffset c)" "0 \<le> coffset c" "coffset c \<le> int (length s)" by blast
  note d = buf_repr_SomeD [OF b(2)]
  have n: "bused b - nat (coffset c) - 1 = length s - nat (coffset c)" using d by simp
  have "take (length s - nat (coffset c)) (drop (nat (coffset c)) (bptr b)) = drop (nat (coffset c)) (take (length s) (bptr b))"
    by (simp add: drop_take)
  then have "mread_init (nat (coffset c)) (length s - nat (coffset c)) (bptr b) = Some (drop (nat (coffset c)) s)"
    using d b(4,5) by (simp add: mread_init_def mread_def drop_map)
  then show ?thesis using b d n by (simp add: chunk_text_def Let_def)
qed

section \<open>Reading into a buffer\<close>

lemma fill_read_repr:
  assumes b: "buf_repr b v" and len: "read_offset b + length s + 1 \<le> bsize b"
  shows "\<exists>b'. fill_read b s = Some b' \<and> buf_repr b' (Some (bval v @ s)) \<and> bsize b' = bsize b"
proof -
  have wf: "length (bptr b) = bsize b" "bused b \<le> bsize b" using b by (simp_all add: buf_repr_def buf_wf_def)
  have off: "read_offset b = length (bval v)" "take (length (bval v)) (bptr b) = map Some (bval v)"
    using b buf_repr_SomeD [of b "bval v"] by (auto simp: buf_repr_def read_offset_def split: option.splits)
  let ?n = "length (bval v)"
  have "fill_read b s = Some (b\<lparr>bptr := map Some (bval v) @ map Some s @ Some NUL # drop (?n + length s + 1) (bptr b), bused := ?n + length s + 1\<rparr>)"
    using len wf off by (simp add: fill_read_def mwrite_def Let_def)
  moreover have "buf_repr (b\<lparr>bptr := map Some (bval v) @ map Some s @ Some NUL # drop (?n + length s + 1) (bptr b), bused := ?n + length s + 1\<rparr>)
      (Some (bval v @ s))"
    using len wf off by (auto simp: buf_repr_def buf_wf_def)
  ultimately show ?thesis by auto
qed

lemma prepare_copy_repr:
  assumes "buf_wf b"
  shows "buf_repr (prepare_copy b n) None \<and> n \<le> bsize (prepare_copy b n)"
  using assms round_piece_gt [of n] by (auto simp: prepare_copy_def buf_repr_def buf_wf_def malloc_cells_def intro: less_imp_le)

lemma new_read_buffer_shape:
  assumes sh: "cq_shape cq as us []"
  shows "\<exists>a q k b. new_read_buffer n cq = Some (a, q) \<and> cq_shape q (as @ [a]) (tl us) [] \<and>
    contents q (as @ [a]) = contents cq as @ [(Mem_Data None, 0)] \<and> same_rest cq q \<and>
    cells q a = Some k \<and> cmem k = Some b \<and> buf_repr b None \<and> nat n \<le> bsize b"
proof -
  from new_mem_chunk_append [OF sh fills_reset] obtain a q1 where
    q1: "chunkqueue_get_append_buffer cq = Some (a, q1)" "cq_shape q1 (as @ [a]) (tl us) []"
      "contents q1 (as @ [a]) = contents cq as @ [(Mem_Data None, 0)]" "same_rest cq q1"
    by (auto simp: chunkqueue_get_append_buffer_def)
  from cq_shapeD(11) [OF q1(2), of a] obtain k where k: "cells q1 a = Some k" by auto
  from cq_shapeD(9) [OF q1(2) k] obtain b v where b: "cmem k = Some b" "buf_repr b v" by (auto simp: chunk_ok_def is_string_def)
  have val: "chunk_value k = (Mem_Data None, 0)" using q1(3) k by (simp add: contents_def)
  have ty: "ctype k = MEM_CHUNK" using val cq_shapeD(10) [OF q1(2) k] by (cases "ctype k") (auto simp: chunk_value_def)
  define b' where "b' = prepare_copy b (nat n)"
  have b': "buf_repr b' None" "nat n \<le> bsize b'" using prepare_copy_repr [OF buf_repr_wf [OF b(2)]] by (simp_all add: b'_def)
  define k' where "k' = k\<lparr>cmem := Some b'\<rparr>"
  have "is_string (Some b')" using b'(1) unfolding is_string_def by blast
  then have k': "chunk_ok k'" using cq_shapeD(9) [OF q1(2) k] by (simp add: k'_def chunk_ok_def)
  define q where "q = q1\<lparr>cells := (cells q1)(a \<mapsto> k')\<rparr>"
  have "cq_shape q (as @ [a]) (tl us) []" unfolding q_def by (rule shape_upd [OF q1(2) k _ _ k']) (simp_all add: k'_def)
  moreover have "a \<notin> set as" using cq_shapeD(3) [OF q1(2)] by simp
  then have "contents q (as @ [a]) = contents cq as @ [(Mem_Data None, 0)]"
    using q1(3) k val ty b'(1) by (auto simp: contents_def q_def k'_def chunk_value_def)
  moreover have "new_read_buffer n cq = Some (a, q)"
    using q1(1) k b(1) by (simp add: new_read_buffer_def buffer_prepare_copy_def b'_def q_def k'_def)
  ultimately show ?thesis using q1(4) b' by (auto simp: q_def k'_def same_rest_def)
qed

text \<open>The chunk that is read into is the last one and has room.\<close>

lemma read_chunk_shape:
  assumes sh: "cq_shape cq as us []" and tcs: "list_all text_chunk (contents cq as)"
  shows "\<exists>bs a q us' k b v ds off. read_chunk toread cq = Some (a, q) \<and> cq_shape q (bs @ [a]) us' [] \<and>
    contents q (bs @ [a]) = ds @ [(Mem_Data v, off)] \<and> list_all text_chunk ds \<and> (v = None \<and> off = 0 \<and> length us' < 5 \<or> text_chunk (Mem_Data v, off)) \<and>
    queue_text ds @ drop (nat off) (bval v) = queue_text (contents cq as) \<and> same_rest cq q \<and>
    cells q a = Some k \<and> cmem k = Some b \<and> buf_repr b v \<and> coffset k = off \<and> ctype k = MEM_CHUNK \<and> read_offset b + 1 < bsize b"
proof -
  have new: ?thesis if n: "read_chunk toread cq = new_read_buffer n cq" "1 < n" for n
  proof -
    from new_read_buffer_shape [OF sh, of n] obtain a q k b where
      a: "new_read_buffer n cq = Some (a, q)" "cq_shape q (as @ [a]) (tl us) []"
        "contents q (as @ [a]) = contents cq as @ [(Mem_Data None, 0)]" "same_rest cq q"
        "cells q a = Some k" "cmem k = Some b" "buf_repr b None" "nat n \<le> bsize b" by blast
    have "length (tl us) < 5" using cq_shapeD(8) [OF sh] by simp
    moreover have "chunk_value k = (Mem_Data None, 0)" using a(3,5) by (simp add: contents_def)
    then have "coffset k = 0" "ctype k = MEM_CHUNK"
      using cq_shapeD(10) [OF a(2,5)] by (cases "ctype k"; auto simp: chunk_value_def)+
    moreover have "read_offset b + 1 < bsize b" using a(7,8) n(2) by (simp add: read_offset_def buf_repr_def)
    ultimately show ?thesis using a n(1) tcs
      by (intro exI [of _ as] exI [of _ a] exI [of _ q] exI [of _ "tl us"] exI [of _ k] exI [of _ b] exI [of _ None]
          exI [of _ "contents cq as"] exI [of _ 0]) simp
  qed
  have reuse: ?thesis if r: "read_chunk toread cq = reuse_last cq"
  proof (cases as rule: rev_cases)
    case Nil
    with r cq_shapeD(6) [OF sh] have "read_chunk toread cq = new_read_buffer (4 * 1024) cq" by (simp add: reuse_last_def)
    from new [OF this] show ?thesis by simp
  next
    case (snoc bs a)
    from cq_shapeD(11) [OF sh, of a] snoc obtain k where k: "cells cq a = Some k" by auto
    have tk: "text_chunk (chunk_value k)" "contents cq as = contents cq bs @ [chunk_value k]" using tcs snoc k by (simp_all add: contents_def)
    have "a \<in> set as" using snoc by simp
    from text_chunkD [OF tk(1) cq_shapeD(9) [OF sh k] cq_shapeD(10) [OF sh k this]] obtain b s where
      b: "cmem k = Some b" "buf_repr b (Some s)" "ctype k = MEM_CHUNK" "chunk_value k = (Mem_Data (Some s), coffset k)"
        "0 \<le> coffset k" "coffset k \<le> int (length s)" by blast
    have last: "cq_last cq = Some a" using cq_shapeD(6) [OF sh] snoc by simp
    show ?thesis
    proof (cases "bsize b - bused b < 1024")
      case True
      with r last k b(1) have "read_chunk toread cq = new_read_buffer (4 * 1024) cq" by (simp add: reuse_last_def)
      from new [OF this] show ?thesis by simp
    next
      case False
      then have "read_offset b + 1 < bsize b" using b(2) by (auto simp: read_offset_def buf_repr_def)
      moreover have "read_chunk toread cq = Some (a, cq)" using r last k b(1) False by (simp add: reuse_last_def)
      moreover have "list_all text_chunk (contents cq bs)" using tcs tk(2) by simp
      moreover have "same_rest cq cq" by (simp add: same_rest_def)
      ultimately show ?thesis using sh snoc tk k b
        by (intro exI [of _ bs] exI [of _ a] exI [of _ cq] exI [of _ us] exI [of _ k] exI [of _ b] exI [of _ "Some s"]
            exI [of _ "contents cq bs"] exI [of _ "coffset k"]) simp
    qed
  qed
  show ?thesis
  proof (cases "toread = None \<or> the toread \<le> 4 * 1024")
    case True
    then have "read_chunk toread cq = reuse_last cq" by (cases toread) (auto simp: read_chunk_def)
    then show ?thesis by (rule reuse)
  next
    case False
    then obtain n where "toread = Some n" "n > 4 * 1024" by auto
    then have "read_chunk toread cq = new_read_buffer (min n MAX_READ_LIMIT + 1) cq" "1 < min n MAX_READ_LIMIT + 1"
      by (auto simp: read_chunk_def MAX_READ_LIMIT_def)
    then show ?thesis by (rule new)
  qed
qed

section \<open>Dropping the empty chunk\<close>

lemma chunk_used_value:
  assumes "cq_shape cq as us xs" and "cells cq a = Some c" and "ctype c = MEM_CHUNK"
  shows "\<exists>v. chunk_value c = (Mem_Data v, coffset c) \<and> chunk_used (cells cq) a = Some (case v of None \<Rightarrow> 0 | Some s \<Rightarrow> length s + 1)"
proof -
  from cq_shapeD(9) [OF assms(1,2)] obtain b v where b: "cmem c = Some b" "buf_repr b v" by (auto simp: chunk_ok_def is_string_def)
  then have "bused b = (case v of None \<Rightarrow> 0 | Some s \<Rightarrow> length s + 1)" by (auto simp: buf_repr_def split: option.splits)
  with b assms(2,3) show ?thesis by (auto simp: chunk_value_def chunk_used_def)
qed

definition nonempty_chunk :: "chunk_heap \<Rightarrow> nat \<Rightarrow> bool" where
  "nonempty_chunk h a \<longleftrightarrow> (\<exists>u. chunk_used h a = Some u \<and> u \<noteq> 0)"

lemma text_nonempty:
  assumes "cq_shape cq as us xs" and "a \<in> set as" and "text_chunk (chunk_value (the (cells cq a)))"
  shows "nonempty_chunk (cells cq) a"
proof -
  from cq_shapeD(11) [OF assms(1), of a] assms(2) obtain c where c: "cells cq a = Some c" by auto
  from text_chunkD [of c] assms(3) c cq_shapeD(9,10) [OF assms(1) c] assms(2) obtain s where
    s: "ctype c = MEM_CHUNK" "chunk_value c = (Mem_Data (Some s), coffset c)" by fastforce
  from chunk_used_value [OF assms(1) c s(1)] s(2) show ?thesis by (auto simp: nonempty_chunk_def)
qed

lemma drop_empty_none:
  "chain (cells cq) p as \<Longrightarrow> \<forall>a \<in> set as. nonempty_chunk (cells cq) a \<Longrightarrow> drop_empty cq p = Some cq"
proof (induction as arbitrary: p)
  case Nil
  then show ?case by (subst drop_empty.simps) simp
next
  case (Cons a as)
  then obtain c u where c: "p = Some a" "cells cq a = Some c" "chain (cells cq) (cnext c) as"
    "chunk_used (cells cq) a = Some u" "u \<noteq> 0" by (auto simp: nonempty_chunk_def)
  show ?case
  proof (cases as)
    case Nil
    with c have "cnext c = None" by simp
    with c show ?thesis by (subst drop_empty.simps) simp
  next
    case (Cons b bs)
    with c Cons.prems obtain d w where d: "cnext c = Some b" "cells cq b = Some d" "chunk_used (cells cq) b = Some w" "w \<noteq> 0"
      by (auto simp: nonempty_chunk_def)
    with c have "drop_empty cq p = drop_empty cq (Some b)" by (subst drop_empty.simps) simp
    also have "\<dots> = Some cq" using Cons.IH [OF c(3)] Cons.prems d(1) by simp
    finally show ?thesis .
  qed
qed

lemma drop_empty_last:
  "chain (cells cq) p (as @ [l, a]) \<Longrightarrow> \<forall>x \<in> set (as @ [l]). nonempty_chunk (cells cq) x \<Longrightarrow> chunk_used (cells cq) a = Some 0 \<Longrightarrow>
    \<exists>kl ka. cells cq l = Some kl \<and> cells cq a = Some ka \<and> cnext ka = None \<and> drop_empty cq p = Some (unlink_next l kl a ka cq)"
proof (induction as arbitrary: p)
  case Nil
  then obtain kl ka u where k: "p = Some l" "cells cq l = Some kl" "cnext kl = Some a" "cells cq a = Some ka" "cnext ka = None"
    "chunk_used (cells cq) l = Some u" "u \<noteq> 0" by (auto simp: nonempty_chunk_def)
  moreover have "drop_empty (unlink_next l kl a ka cq) None = Some (unlink_next l kl a ka cq)" by (subst drop_empty.simps) simp
  ultimately have "drop_empty cq p = Some (unlink_next l kl a ka cq)" using Nil(3) by (subst drop_empty.simps) simp
  with k show ?case by blast
next
  case (Cons x as)
  then obtain c u where c: "p = Some x" "cells cq x = Some c" "chain (cells cq) (cnext c) (as @ [l, a])"
    "chunk_used (cells cq) x = Some u" "u \<noteq> 0" by (auto simp: nonempty_chunk_def)
  obtain y ys where y: "as @ [l, a] = y # ys" "y \<in> set (as @ [l])" by (cases as) auto
  with c Cons.prems obtain d w where d: "cnext c = Some y" "cells cq y = Some d" "chunk_used (cells cq) y = Some w" "w \<noteq> 0"
    by (fastforce simp: nonempty_chunk_def)
  with c have "drop_empty cq p = drop_empty cq (cnext c)" by (subst drop_empty.simps) simp
  with Cons.IH [OF c(3)] Cons.prems show ?case by simp
qed

text \<open>The queue without its last, empty chunk.\<close>

lemma unlink_next_shape:
  assumes sh0: "cq_shape cq (bs @ [l, a]) us []" and kl: "cells cq l = Some kl" and ka: "cells cq a = Some ka" "cnext ka = None"
    and len: "length us < 5"
  shows "cq_shape (unlink_next l kl a ka cq) (bs @ [l]) (a # us) [] \<and>
    contents (unlink_next l kl a ka cq) (bs @ [l]) = contents cq (bs @ [l])"
proof -
  note sh = cq_shapeD [OF sh0]
  define q where "q = unlink_next l kl a ka cq"
  have d: "l \<notin> set bs" "a \<notin> set bs" "a \<noteq> l" "l \<notin> set us" "a \<notin> set us" "set bs \<inter> set us = {}" using sh(3) by auto
  have cells: "cells q = (cells cq)(l \<mapsto> kl\<lparr>cnext := None\<rparr>, a \<mapsto> ka\<lparr>cnext := cq_unused cq\<rparr>)"
    using ka(2) by (simp add: q_def unlink_next_def)
  have "chain (cells cq) p (xs @ [l, a]) \<Longrightarrow> l \<notin> set xs \<Longrightarrow> a \<notin> set xs \<Longrightarrow> chain (cells q) p (xs @ [l])" for p xs
    unfolding cells using kl d(3) by (induction xs arbitrary: p) auto
  from this [OF sh(1) d(1,2)] have ch: "chain (cells q) (cq_first cq) (bs @ [l])" .
  have us: "chain (cells q) (Some a) (a # us)" unfolding cells using sh(2) d by simp
  have dom: "dom (cells q) = set ((bs @ [l]) @ a # us)" unfolding cells using sh(4) by auto
  have ok: "chunk_ok c \<and> (x \<in> set (bs @ [l]) \<longrightarrow> ctype c \<noteq> UNUSED_CHUNK)" if x: "cells q x = Some c" for x c
  proof (cases "x = a")
    case True
    with x have "c = ka\<lparr>cnext := cq_unused cq\<rparr>" unfolding cells by simp
    with sh(9) [OF ka(1)] True d show ?thesis by (simp add: chunk_ok_def)
  next
    case False
    show ?thesis
    proof (cases "x = l")
      case True
      with x False have "c = kl\<lparr>cnext := None\<rparr>" unfolding cells by simp
      with sh(9) [OF kl] sh(10) [OF kl] show ?thesis by (simp add: chunk_ok_def)
    next
      case neq: False
      with x False have "cells cq x = Some c" unfolding cells by simp
      with sh(9) [OF this] sh(10) [OF this] show ?thesis by auto
    qed
  qed
  have "cq_shape q (bs @ [l]) (a # us) []"
    unfolding cq_shape_def using ch us dom ok sh(3,5,7) len d by (auto simp: q_def unlink_next_def ka(2))
  moreover have "contents q (bs @ [l]) = contents cq (bs @ [l])" unfolding contents_def cells using kl d by auto
  ultimately show ?thesis by (simp add: q_def)
qed

lemma unlink_first_shape:
  assumes sh0: "cq_shape cq [a] us []" and ka: "cells cq a = Some ka" and len: "length us < 5"
  shows "cq_shape (unlink_first a ka cq) [] (a # us) []"
proof -
  note sh = cq_shapeD [OF sh0]
  have n: "cnext ka = None" using sh(1) ka by simp
  have d: "a \<notin> set us" using sh(3) by auto
  show ?thesis
    unfolding cq_shape_def using sh(2-5,7) sh(9) ka n len d by (auto simp: unlink_first_def chunk_ok_def split: if_splits)
qed

lemma drop_empty_holds:
  assumes sh: "cq_shape cq (bs @ [a]) us []" and con: "contents cq (bs @ [a]) = ds @ [(Mem_Data v, off)]"
    and tcs: "list_all text_chunk ds" and v: "v = None \<and> length us < 5 \<or> text_chunk (Mem_Data v, off)"
  shows "\<exists>q as' us'. drop_empty cq (cq_first cq) = Some q \<and> cq_shape q as' us' [] \<and> list_all text_chunk (contents q as') \<and>
    queue_text (contents q as') = queue_text ds @ drop (nat off) (bval v)"
proof -
  have ds: "ds = contents cq bs" and last: "chunk_value (the (cells cq a)) = (Mem_Data v, off)"
    using con by (simp_all add: contents_def)
  have bs: "nonempty_chunk (cells cq) x" if "x \<in> set bs" for x
    by (rule text_nonempty [OF sh]) (use that tcs ds in \<open>auto simp: contents_def list_all_iff\<close>)
  note ch = cq_shapeD(1) [OF sh]
  from cq_shapeD(11) [OF sh, of a] obtain k where k: "cells cq a = Some k" by auto
  show ?thesis
  proof (cases v)
    case (Some s)
    with v have "text_chunk (chunk_value (the (cells cq a)))" using last by auto
    with text_nonempty [OF sh, of a] bs have "\<forall>x \<in> set (bs @ [a]). nonempty_chunk (cells cq) x" by simp
    from drop_empty_none [OF ch this] show ?thesis using sh con tcs v Some
      by (intro exI [of _ cq] exI [of _ "bs @ [a]"] exI [of _ us]) simp
  next
    case None
    with v have len: "length us < 5" by auto
    have "ctype k = MEM_CHUNK" using last k cq_shapeD(10) [OF sh k] by (cases "ctype k") (auto simp: chunk_value_def)
    from chunk_used_value [OF sh k this] last k None have used: "chunk_used (cells cq) a = Some 0" by auto
    show ?thesis
    proof (cases bs rule: rev_cases)
      case Nil
      have "drop_empty (unlink_first a k cq) None = Some (unlink_first a k cq)" by (subst drop_empty.simps) simp
      then have "drop_empty cq (cq_first cq) = Some (unlink_first a k cq)"
        using ch k used Nil by (subst drop_empty.simps) auto
      with unlink_first_shape [OF sh [unfolded Nil append_Nil] k len] None ds Nil show ?thesis
        by (intro exI [of _ "unlink_first a k cq"] exI [of _ "[]"] exI [of _ "a # us"]) (simp add: contents_def)
    next
      case (snoc xs l)
      have ch': "chain (cells cq) (cq_first cq) (xs @ [l, a])" using ch snoc by simp
      from drop_empty_last [OF ch' _ used] bs snoc obtain kl ka where
        d: "cells cq l = Some kl" "cells cq a = Some ka" "cnext ka = None"
          "drop_empty cq (cq_first cq) = Some (unlink_next l kl a ka cq)" by auto
      have "cq_shape cq (xs @ [l, a]) us []" using sh snoc by simp
      from unlink_next_shape [OF this d(1-3) len] d(4) None ds tcs snoc show ?thesis
        by (intro exI [of _ "unlink_next l kl a ka cq"] exI [of _ bs] exI [of _ "a # us"]) simp
    qed
  qed
qed

section \<open>Reading\<close>

text \<open>\<open>s\<close> is what the system call delivered when it was asked for some bytes.\<close>

definition delivered :: "(nat \<Rightarrow> read_result) \<Rightarrow> char list \<Rightarrow> bool" where
  "delivered rd s \<longleftrightarrow> (\<exists>n>0. s = (case rd n of Read_Data d \<Rightarrow> take n d | Read_Error e \<Rightarrow> []))"

text \<open>The fields that reading does not touch.\<close>

definition read_frame :: "connection \<Rightarrow> connection \<Rightarrow> bool" where
  "read_frame c d \<longleftrightarrow> (\<exists>q b n st. d = c\<lparr>read_queue := q, is_readable := b, bytes_read := n, state := st\<rparr>)"

lemma handle_read_appends:
  assumes ssl: "\<not> cf_is_ssl (cconf c)" and sh: "cq_shape (read_queue c) as us []" and tcs: "list_all text_chunk (contents (read_queue c) as)"
  shows "\<exists>r d s q as' us'. connection_handle_read toread rd c = Some (r, d) \<and> read_frame c d \<and> delivered rd s \<and> r \<in> {-2, -1, 0} \<and>
    (r = -1 \<longrightarrow> state d = CON_STATE_ERROR) \<and> (r \<noteq> -1 \<longrightarrow> state d = state c) \<and> (r \<noteq> 0 \<longrightarrow> s = []) \<and>
    bytes_read d = bytes_read c + int (length s) \<and> same_rest (read_queue c) (read_queue d) \<and>
    drop_empty (read_queue d) (cq_first (read_queue d)) = Some q \<and> cq_shape q as' us' [] \<and> list_all text_chunk (contents q as') \<and>
    queue_text (contents q as') = queue_text (contents (read_queue c) as) @ s"
proof -
  from read_chunk_shape [OF sh tcs] obtain bs a q us' k b v ds off where
    rc: "read_chunk toread (read_queue c) = Some (a, q)" and q: "cq_shape q (bs @ [a]) us' []" "contents q (bs @ [a]) = ds @ [(Mem_Data v, off)]"
      "list_all text_chunk ds" "v = None \<and> off = 0 \<and> length us' < 5 \<or> text_chunk (Mem_Data v, off)"
      "queue_text ds @ drop (nat off) (bval v) = queue_text (contents (read_queue c) as)" "same_rest (read_queue c) q"
    and k: "cells q a = Some k" "cmem k = Some b" "buf_repr b v" "coffset k = off" "ctype k = MEM_CHUNK" "read_offset b + 1 < bsize b"
    by blast
  define n where "n = bsize b - 1 - read_offset b"
  have n: "0 < n" using k(6) by (simp add: n_def)
  have v: "v = None \<and> length us' < 5 \<or> text_chunk (Mem_Data v, off)" using q(4) by blast
  from drop_empty_holds [OF q(1-3) v] obtain q0 as0 us0 where
    q0: "drop_empty q (cq_first q) = Some q0" "cq_shape q0 as0 us0 []" "list_all text_chunk (contents q0 as0)"
      "queue_text (contents q0 as0) = queue_text (contents (read_queue c) as)" using q(5) by auto
  have unread: ?thesis
    if "connection_handle_read toread rd c = Some (r, c\<lparr>read_queue := q, is_readable := x, state := st\<rparr>)" "r \<in> {-2, -1, 0}"
      "(r = -1 \<longrightarrow> st = CON_STATE_ERROR) \<and> (r \<noteq> -1 \<longrightarrow> st = state c)" "delivered rd []" for r x st
  proof -
    have fr: "read_frame c (c\<lparr>read_queue := q, is_readable := x, state := st\<rparr>)"
      unfolding read_frame_def by (intro exI [of _ q] exI [of _ x] exI [of _ "bytes_read c"] exI [of _ st]) simp
    show ?thesis
      by (rule exI [of _ r], rule exI [of _ "c\<lparr>read_queue := q, is_readable := x, state := st\<rparr>"], rule exI [of _ "[]"],
          rule exI [of _ q0], rule exI [of _ as0], rule exI [of _ us0]) (use that fr q0 q(6) in simp)
  qed
  show ?thesis
  proof (cases "rd n")
    case (Read_Error e)
    with n have dl: "delivered rd []" by (auto simp: delivered_def intro!: exI [of _ n])
    show ?thesis
    proof (cases "e = EAGAIN \<or> e = EINTR")
      case True
      with Read_Error ssl rc k have run: "connection_handle_read toread rd c = Some (0, c\<lparr>read_queue := q, is_readable := (e = EINTR), state := state c\<rparr>)"
        by (auto simp: connection_handle_read_def n_def)
      show ?thesis by (rule unread [OF run]) (simp_all add: dl)
    next
      case False
      with Read_Error ssl rc k have run: "connection_handle_read toread rd c = Some (-1, c\<lparr>read_queue := q, is_readable := False, state := CON_STATE_ERROR\<rparr>)"
        by (auto simp: connection_handle_read_def n_def connection_set_state_def)
      show ?thesis by (rule unread [OF run]) (simp_all add: dl)
    qed
  next
    case (Read_Data dt)
    show ?thesis
    proof (cases "take n dt = []")
      case True
      with n Read_Data have dl: "delivered rd []" by (auto simp: delivered_def intro!: exI [of _ n])
      from True Read_Data ssl rc k have run: "connection_handle_read toread rd c = Some (-2, c\<lparr>read_queue := q, is_readable := False, state := state c\<rparr>)"
        by (simp add: connection_handle_read_def n_def)
      show ?thesis by (rule unread [OF run]) (simp_all add: dl)
    next
      case False
      define s where "s = take n dt"
      have s: "s \<noteq> []" "length s \<le> n" using False by (simp_all add: s_def)
      have "read_offset b + length s + 1 \<le> bsize b" using s(2) n by (simp add: n_def)
      from fill_read_repr [OF k(3) this] obtain b' where b': "fill_read b s = Some b'" "buf_repr b' (Some (bval v @ s))" by blast
      define k' where "k' = k\<lparr>cmem := Some b'\<rparr>"
      define q1 where "q1 = q\<lparr>cells := (cells q)(a \<mapsto> k')\<rparr>"
      have "is_string (Some b')" using b'(2) unfolding is_string_def by blast
      then have "chunk_ok k'" using cq_shapeD(9) [OF q(1) k(1)] by (simp add: k'_def chunk_ok_def)
      then have sh1: "cq_shape q1 (bs @ [a]) us' []"
        unfolding q1_def by (intro shape_upd [OF q(1) k(1)]) (simp_all add: k'_def)
      have "a \<notin> set bs" using cq_shapeD(3) [OF q(1)] by simp
      then have con1: "contents q1 (bs @ [a]) = ds @ [(Mem_Data (Some (bval v @ s)), off)]"
        using q(2) b'(2) k(4,5) by (auto simp: contents_def q1_def k'_def chunk_value_def)
      have off: "0 \<le> off" "nat off \<le> length (bval v)" using q(4) by auto
      then have tc: "text_chunk (Mem_Data (Some (bval v @ s)), off)" by auto
      from drop_empty_holds [OF sh1 con1 q(3)] tc obtain q2 as2 us2 where
        q2: "drop_empty q1 (cq_first q1) = Some q2" "cq_shape q2 as2 us2 []" "list_all text_chunk (contents q2 as2)"
          "queue_text (contents q2 as2) = queue_text (contents (read_queue c) as) @ s" using q(5) off by auto
      have run: "connection_handle_read toread rd c = Some (0, c\<lparr>read_queue := q1,
          is_readable := (if length s < bsize b - 1 then False else is_readable c), bytes_read := bytes_read c + int (length s)\<rparr>)"
        using Read_Data ssl rc k b'(1) s(1) by (simp add: connection_handle_read_def n_def s_def q1_def k'_def Let_def)
      have dl: "delivered rd s" using Read_Data n by (auto simp: delivered_def s_def intro!: exI [of _ n])
      have fr: "read_frame c (c\<lparr>read_queue := q1, is_readable := x, bytes_read := m\<rparr>)" for x m
        unfolding read_frame_def by (intro exI [of _ q1] exI [of _ x] exI [of _ m] exI [of _ "state c"]) simp
      have sr: "same_rest (read_queue c) q1" using q(6) by (simp add: q1_def same_rest_def)
      show ?thesis
        by (intro exI conjI, rule run, rule fr, rule dl) (use q2 s sr in simp_all)
    qed
  qed
qed

section \<open>Cutting out the header\<close>

lemma chunk_list_chain: "chain h p as \<Longrightarrow> chunk_list h p = Some as"
  by (induction as arbitrary: p) (subst chunk_list.simps, auto)+

lemma bcat_bcat: "bcat (bcat v s) t = bcat v (s @ t)"
  by (simp add: bcat_def)

definition text_heap :: "chunk_heap \<Rightarrow> nat list \<Rightarrow> bool" where
  "text_heap h as \<longleftrightarrow> (\<forall>a \<in> set as. \<exists>c. h a = Some c \<and> chunk_ok c \<and> ctype c \<noteq> UNUSED_CHUNK \<and> text_chunk (chunk_value c))"

definition heap_values :: "chunk_heap \<Rightarrow> nat list \<Rightarrow> (chunk_data \<times> int) list" where
  "heap_values h as = map (\<lambda>a. chunk_value (the (h a))) as"

lemma shape_text_heap:
  assumes "cq_shape cq as us xs" and "list_all text_chunk (contents cq as)"
  shows "text_heap (cells cq) as"
  unfolding text_heap_def
proof
  fix a
  assume a: "a \<in> set as"
  with cq_shapeD(11) [OF assms(1), of a] obtain c where c: "cells cq a = Some c" by auto
  have "text_chunk (chunk_value c)" using assms(2) a c by (auto simp: contents_def list_all_iff)
  with c cq_shapeD(9,10) [OF assms(1) c] a
  show "\<exists>c. cells cq a = Some c \<and> chunk_ok c \<and> ctype c \<noteq> UNUSED_CHUNK \<and> text_chunk (chunk_value c)" by blast
qed

lemma heap_texts:
  "text_heap h as \<Longrightarrow> those (map (\<lambda>a. Option.bind (h a) chunk_text) as) = Some (map chunk_rest (heap_values h as))"
proof (induction as)
  case (Cons a as)
  then obtain c where "h a = Some c" "chunk_ok c" "ctype c \<noteq> UNUSED_CHUNK" "text_chunk (chunk_value c)"
    by (auto simp: text_heap_def)
  with chunk_text_rest [of c] Cons show ?case by (simp add: text_heap_def heap_values_def)
qed (simp add: heap_values_def)

lemma heap_values_upd: "a \<notin> set as \<Longrightarrow> heap_values (h(a := x)) as = heap_values h as"
  by (auto simp: heap_values_def)

text \<open>Moving the offset of a chunk with text.\<close>

lemma chunk_advance:
  assumes "chunk_ok c" "ctype c \<noteq> UNUSED_CHUNK" "text_chunk (chunk_value c)" and "n \<le> length (chunk_rest (chunk_value c))"
  shows "chunk_rest (chunk_value (c\<lparr>coffset := coffset c + int n\<rparr>)) = drop n (chunk_rest (chunk_value c)) \<and>
    text_chunk (chunk_value (c\<lparr>coffset := coffset c + int n\<rparr>))"
proof -
  from text_chunkD [OF assms(3,1,2)] obtain b s where b: "cmem c = Some b" "buf_repr b (Some s)" "ctype c = MEM_CHUNK"
    "chunk_value c = (Mem_Data (Some s), coffset c)" "0 \<le> coffset c" "coffset c \<le> int (length s)" by blast
  then have "chunk_value (c\<lparr>coffset := coffset c + int n\<rparr>) = (Mem_Data (Some s), coffset c + int n)" by (simp add: chunk_value_def)
  with b assms(4) show ?thesis by (simp add: nat_add_distrib add.commute)
qed

lemma chunk_all_read:
  assumes "chunk_ok c" "ctype c \<noteq> UNUSED_CHUNK" "text_chunk (chunk_value c)"
  shows "\<exists>b. cmem c = Some b \<and> int (size_dec (bused b)) = coffset c + int (length (chunk_rest (chunk_value c)))"
proof -
  from text_chunkD [OF assms(3,1,2)] obtain b s where b: "cmem c = Some b" "buf_repr b (Some s)"
    "chunk_value c = (Mem_Data (Some s), coffset c)" "0 \<le> coffset c" "coffset c \<le> int (length s)" by blast
  moreover have "size_dec (bused b) = length s" using buf_repr_SomeD [OF b(2)] by (simp add: size_dec_def)
  ultimately show ?thesis by auto
qed

lemma copy_header_result:
  assumes "text_heap h as" and "distinct as" and "k < length as" and "off \<le> length (chunk_rest (heap_values h as ! k))"
  shows "\<exists>h'. copy_header h as k off r =
      Some (h', bcat r (concat (take k (map chunk_rest (heap_values h as))) @ take off (chunk_rest (heap_values h as ! k)))) \<and>
    same_chunks h h' \<and> (\<forall>a. a \<notin> set as \<longrightarrow> h' a = h a) \<and> list_all text_chunk (heap_values h' as) \<and>
    queue_text (heap_values h' as) = drop off (chunk_rest (heap_values h as ! k)) @ concat (drop (Suc k) (map chunk_rest (heap_values h as)))"
  using assms
proof (induction as arbitrary: h k r)
  case Nil
  then show ?case by simp
next
  case (Cons a as)
  then obtain c where c: "h a = Some c" "chunk_ok c" "ctype c \<noteq> UNUSED_CHUNK" "text_chunk (chunk_value c)"
    by (auto simp: text_heap_def)
  note t = chunk_text_rest [OF c(4,2,3)]
  obtain b where b: "cmem c = Some b" "int (size_dec (bused b)) = coffset c + int (length (chunk_rest (chunk_value c)))"
    using chunk_all_read [OF c(2-4)] by blast
  have notin: "a \<notin> set as" using Cons.prems(2) by simp
  have vals: "heap_values h (a # as) = chunk_value c # heap_values h as" using c(1) by (simp add: heap_values_def)
  have rest: "list_all text_chunk (heap_values h as)" using Cons.prems(1) by (fastforce simp: text_heap_def heap_values_def list_all_iff)
  show ?case
  proof (cases k)
    case 0
    define h' where "h' = h(a \<mapsto> c\<lparr>coffset := coffset c + int off\<rparr>)"
    have off: "off \<le> length (chunk_rest (chunk_value c))" using Cons.prems(4) 0 vals by simp
    have "heap_values h' (a # as) = chunk_value (c\<lparr>coffset := coffset c + int off\<rparr>) # heap_values h as"
      using heap_values_upd [OF notin] by (simp add: h'_def heap_values_def)
    moreover have "same_chunks h h'" unfolding h'_def by (rule same_chunks_upd [where h = h and a = a, OF same_chunks_refl c(1)])
    moreover have "copy_header h (a # as) k off r = Some (h', bcat r (take off (chunk_rest (chunk_value c))))"
      using 0 c(1) t b(1) by (simp add: h'_def)
    moreover have "\<forall>x. x \<notin> set (a # as) \<longrightarrow> h' x = h x" by (simp add: h'_def)
    ultimately show ?thesis
      using chunk_advance [OF c(2-4) off] 0 vals rest by (intro exI [of _ h']) (simp add: queue_text_def)
  next
    case (Suc j)
    define h1 where "h1 = h(a \<mapsto> c\<lparr>coffset := int (size_dec (bused b))\<rparr>)"
    have h1: "heap_values h1 as = heap_values h as" "text_heap h1 as"
      using heap_values_upd [OF notin] Cons.prems(1) notin by (auto simp: h1_def text_heap_def)
    from Cons.IH [OF h1(2), of j "bcat r (chunk_rest (chunk_value c))"] Cons.prems Suc vals h1(1) obtain h' where
      h': "copy_header h1 as j off (bcat r (chunk_rest (chunk_value c))) = Some (h', bcat (bcat r (chunk_rest (chunk_value c)))
          (concat (take j (map chunk_rest (heap_values h as))) @ take off (chunk_rest (heap_values h as ! j))))"
        "same_chunks h1 h'" "\<forall>x. x \<notin> set as \<longrightarrow> h' x = h1 x" "list_all text_chunk (heap_values h' as)"
        "queue_text (heap_values h' as) = drop off (chunk_rest (heap_values h as ! j)) @ concat (drop (Suc j) (map chunk_rest (heap_values h as)))"
      by auto
    have "same_chunks h h1" unfolding h1_def by (rule same_chunks_upd [where h = h and a = a, OF same_chunks_refl c(1)])
    then have "same_chunks h h'" using h'(2) by (simp add: same_chunks_def)
    moreover have "h' a = Some (c\<lparr>coffset := coffset c + int (length (chunk_rest (chunk_value c)))\<rparr>)"
      using h'(3) notin b(2) by (simp add: h1_def)
    with chunk_advance [OF c(2-4) order_refl] h'(4,5)
    have "list_all text_chunk (heap_values h' (a # as))" "queue_text (heap_values h' (a # as)) = queue_text (heap_values h' as)"
      by (simp_all add: heap_values_def)
    moreover have "\<forall>x. x \<notin> set (a # as) \<longrightarrow> h' x = h x" using h'(3) by (simp add: h1_def)
    moreover have "copy_header h (a # as) k off r = copy_header h1 as j off (bcat r (chunk_rest (chunk_value c)))"
      using c(1) t b(1) Suc by (simp add: h1_def)
    ultimately show ?thesis using h'(1,5) vals Suc by (intro exI [of _ h']) (simp add: bcat_bcat)
  qed
qed

lemma concat_take_drop_nth:
  assumes "k < length ts" and "off \<le> length (ts ! k)"
  shows "take (length (concat (take k ts)) + off) (concat ts) = concat (take k ts) @ take off (ts ! k)"
    and "drop (length (concat (take k ts)) + off) (concat ts) = drop off (ts ! k) @ concat (drop (Suc k) ts)"
proof -
  have "concat ts = concat (take k ts) @ ts ! k @ concat (drop (Suc k) ts)"
    using id_take_nth_drop [OF assms(1)] concat_append [of "take k ts" "ts ! k # drop (Suc k) ts"] by simp
  then show "take (length (concat (take k ts)) + off) (concat ts) = concat (take k ts) @ take off (ts ! k)"
    and "drop (length (concat (take k ts)) + off) (concat ts) = drop off (ts ! k) @ concat (drop (Suc k) ts)"
    using assms(2) by simp_all
qed

lemma data_length_text: "list_all text_chunk ds \<Longrightarrow> int (length (queue_text ds)) \<le> (\<Sum>(d, off) \<leftarrow> ds. data_length d)"
proof (induction ds)
  case (Cons d ds)
  then obtain s off where "d = (Mem_Data (Some s), off)" by (cases d; cases "fst d") auto
  with Cons show ?case by simp
qed simp

lemma read_header_result:
  assumes sh: "cq_shape (read_queue c) as us []" and tcs: "list_all text_chunk (contents (read_queue c) as)"
    and t: "queue_text (contents (read_queue c) as) = t"
  shows "\<exists>d. read_header c = Some d \<and>
    (case find_header_end t of
       Some n \<Rightarrow> (\<exists>q. d = c\<lparr>read_queue := q, raw_request := Some (take n t), state := CON_STATE_REQUEST_END\<rparr> \<and> queue_holds q (drop n t))
     | None \<Rightarrow> d = c \<and> length t \<le> 64 * 1024 \<or> d = c\<lparr>http_status := 414, keep_alive := 0, state := CON_STATE_HANDLE_REQUEST\<rparr>)"
proof -
  define q0 where "q0 = read_queue c"
  define vs where "vs = heap_values (cells q0) as"
  have th: "text_heap (cells q0) as" using shape_text_heap [OF sh tcs] by (simp add: q0_def)
  have vals: "contents (read_queue c) as = vs" "length vs = length as" by (simp_all add: contents_def vs_def heap_values_def q0_def)
  have tx: "concat (map chunk_rest vs) = t" using t vals by (simp add: queue_text_def)
  have walk: "chunk_list (cells q0) (cq_first q0) = Some as" using chunk_list_chain [OF cq_shapeD(1) [OF sh]] by (simp add: q0_def)
  note texts = heap_texts [OF th]
  show ?thesis
  proof (cases "search_header_end 0 (map chunk_rest vs)")
    case None
    have "cq_repr q0 vs" using sh vals by (auto simp: cq_repr_def q0_def)
    from chunkqueue_length_repr [OF this] have len: "chunkqueue_length q0 = Some (\<Sum>(d, off) \<leftarrow> vs. data_length d)" .
    have "int (length t) \<le> (\<Sum>(d, off) \<leftarrow> vs. data_length d)" using data_length_text [of vs] tcs vals t by simp
    then show ?thesis
      using None search_header_end_None [of "map chunk_rest vs"] walk texts len tx
      by (auto simp: read_header_def q0_def [symmetric] vs_def [symmetric] connection_set_state_def)
  next
    case (Some f)
    obtain k off where f: "f = (k, off)" by (cases f)
    note se = search_header_end_Some [OF Some [unfolded f]]
    have n: "find_header_end t = Some (length (concat (take k (map chunk_rest vs))) + off)" using se tx by simp
    have k: "k < length (map chunk_rest vs)" "off \<le> length (map chunk_rest vs ! k)" using se by blast+
    have kk: "k < length as" "off \<le> length (chunk_rest (heap_values (cells q0) as ! k))" using k vals(2) by (simp_all add: vs_def)
    have dist: "distinct as" using cq_shapeD(3) [OF sh] by simp
    from copy_header_result [OF th dist kk, of None] obtain h' where
      h': "copy_header (cells q0) as k off None = Some (h', bcat None (concat (take k (map chunk_rest vs)) @ take off (chunk_rest (vs ! k))))"
        "same_chunks (cells q0) h'" "list_all text_chunk (heap_values h' as)"
        "queue_text (heap_values h' as) = drop off (chunk_rest (vs ! k)) @ concat (drop (Suc k) (map chunk_rest vs))"
      unfolding vs_def by blast
    note cut = concat_take_drop_nth [OF k, unfolded tx]
    define m where "m = length (concat (take k (map chunk_rest vs))) + off"
    have "4 \<le> m \<and> m \<le> length t" using find_header_end_SomeD [OF n] unfolding m_def by blast
    then have ne: "take m t \<noteq> []" by auto
    have hd: "bcat None (concat (take k (map chunk_rest vs)) @ take off (chunk_rest (vs ! k))) = Some (take m t)"
      using cut(1) ne k(1) by (simp add: m_def bcat_def)
    define q where "q = q0\<lparr>cells := h'\<rparr>"
    have "cq_shape q as us []" using shape_same_chunks [OF sh] h'(2) by (simp add: q_def q0_def)
    moreover have "contents q as = heap_values h' as" by (simp add: contents_def heap_values_def q_def)
    ultimately have "queue_holds q (drop m t)"
      using h'(3,4) cut(2) k(1) by (auto simp: queue_holds_def cq_repr_def m_def)
    moreover have "read_header c = Some (c\<lparr>read_queue := q, raw_request := Some (take m t), state := CON_STATE_REQUEST_END\<rparr>)"
      using walk texts Some f h'(1) hd by (simp add: read_header_def q0_def [symmetric] vs_def [symmetric] connection_set_state_def q_def)
    ultimately show ?thesis using n by (auto simp: m_def)
  qed
qed

text \<open>What both reading states begin with: the socket is read if it is readable, and an empty chunk is dropped.\<close>

definition socket_read :: "int \<Rightarrow> read_env \<Rightarrow> connection \<Rightarrow> (int \<times> connection) option" where
  "socket_read now env c =
     (if is_readable c then connection_handle_read (re_toread env) (re_read env) (c\<lparr>read_idle_ts := now\<rparr>) else Some (0, c))"

lemma socket_read_result:
  assumes "queue_holds (read_queue c) t" and "\<not> cf_is_ssl (cconf c)"
  shows "\<exists>r d s q as us. socket_read now env c = Some (r, d) \<and> (if is_readable c then delivered (re_read env) s else s = []) \<and>
      (r = -1 \<longrightarrow> is_readable c \<and> state d = CON_STATE_ERROR) \<and> (r \<noteq> -1 \<longrightarrow> state d = state c) \<and> raw_request d = raw_request c \<and>
      req d = req c \<and> request_content_queue d = request_content_queue c \<and>
      drop_empty (read_queue d) (cq_first (read_queue d)) = Some q \<and> cq_shape q as us [] \<and> list_all text_chunk (contents q as) \<and>
      queue_text (contents q as) = t @ s"
proof -
  from assms(1) obtain as us where sh: "cq_shape (read_queue c) as us []" and tcs: "list_all text_chunk (contents (read_queue c) as)"
    and t: "queue_text (contents (read_queue c) as) = t" by (auto simp: queue_holds_def cq_repr_def)
  show ?thesis
  proof (cases "is_readable c")
    case True
    define c1 where "c1 = c\<lparr>read_idle_ts := now\<rparr>"
    have c1: "read_queue c1 = read_queue c" "state c1 = state c" "cconf c1 = cconf c" "raw_request c1 = raw_request c" by (simp_all add: c1_def)
    have "\<not> cf_is_ssl (cconf c1)" "cq_shape (read_queue c1) as us []" "list_all text_chunk (contents (read_queue c1) as)"
      using assms(2) sh tcs c1 by simp_all
    from handle_read_appends [OF this, of "re_toread env" "re_read env"] obtain r d s q as' us' where
      h: "connection_handle_read (re_toread env) (re_read env) c1 = Some (r, d)" "read_frame c1 d"
      "delivered (re_read env) s" "r = -1 \<longrightarrow> state d = CON_STATE_ERROR" "r \<noteq> -1 \<longrightarrow> state d = state c1"
      "drop_empty (read_queue d) (cq_first (read_queue d)) = Some q" "cq_shape q as' us' []" "list_all text_chunk (contents q as')"
      "queue_text (contents q as') = queue_text (contents (read_queue c1) as) @ s" by blast
    have "raw_request d = raw_request c" "req d = req c" "request_content_queue d = request_content_queue c"
      using h(2) by (auto simp: read_frame_def c1_def)
    with h True c1 t show ?thesis
      by (intro exI [of _ r] exI [of _ d] exI [of _ s] exI [of _ q] exI [of _ as'] exI [of _ us']) (simp add: socket_read_def c1_def [symmetric])
  next
    case False
    have "\<forall>a \<in> set as. nonempty_chunk (cells (read_queue c)) a"
      using text_nonempty [OF sh] tcs by (auto simp: contents_def list_all_iff)
    from drop_empty_none [OF cq_shapeD(1) [OF sh] this] sh tcs t False show ?thesis
      by (intro exI [of _ 0] exI [of _ c] exI [of _ "[]"] exI [of _ "read_queue c"] exI [of _ as] exI [of _ us]) (simp add: socket_read_def)
  qed
qed

section \<open>Properties\<close>

text \<open>C5: In the state that reads a header, whatever the socket delivers and however the bytes are cut into chunks: the text that was
  pending and the bytes that were read are searched for the first CRLF CRLF. If there is one, the text up to it is the request
  and the text behind it stays in the queue; if there is none, the text stays in the queue, and more than 64 kB of it are refused.\<close>

theorem header_is_cut_out:
  assumes "queue_holds (read_queue c) t" and "state c = CON_STATE_READ" and "\<not> cf_is_ssl (cconf c)"
  shows "\<exists>r d w s. connection_handle_read_state now env c = Some (r, d, w) \<and> (if is_readable c then delivered (re_read env) s else s = []) \<and>
    (if r = -1 then is_readable c \<and> state d = CON_STATE_ERROR
     else r = 0 \<and> (case find_header_end (t @ s) of
         Some n \<Rightarrow> state d = CON_STATE_REQUEST_END \<and> raw_request d = Some (take n (t @ s)) \<and> queue_holds (read_queue d) (drop n (t @ s))
       | None \<Rightarrow> queue_holds (read_queue d) (t @ s) \<and> raw_request d = raw_request c \<and>
           (state d = CON_STATE_HANDLE_REQUEST \<and> http_status d = 414 \<or>
            state d \<in> {CON_STATE_READ, CON_STATE_ERROR} \<and> length (t @ s) \<le> 64 * 1024)))"
proof -
  from socket_read_result [OF assms(1,3), of now env, unfolded assms(2)] obtain r d s q as' us' where x: "socket_read now env c = Some (r, d)" and s: "if is_readable c then delivered (re_read env) s else s = []"
    and d: "r = -1 \<longrightarrow> is_readable c \<and> state d = CON_STATE_ERROR" "r \<noteq> -1 \<longrightarrow> state d = CON_STATE_READ" "raw_request d = raw_request c"
    and q: "drop_empty (read_queue d) (cq_first (read_queue d)) = Some q" "cq_shape q as' us' []" "list_all text_chunk (contents q as')"
      "queue_text (contents q as') = t @ s" by blast
  show ?thesis
  proof (cases "r = -1")
    case True
    with x have "connection_handle_read_state now env c = Some (-1, d, [])"
      by (simp add: connection_handle_read_state_def socket_read_def [symmetric])
    with True s d show ?thesis by (intro exI [of _ r] exI [of _ d] exI [of _ "[]"] exI [of _ s]) simp
  next
    case False
    define e where "e = d\<lparr>read_queue := q\<rparr>"
    have "cq_shape (read_queue e) as' us' []" "list_all text_chunk (contents (read_queue e) as')" "queue_text (contents (read_queue e) as') = t @ s"
      using q by (simp_all add: e_def)
    from read_header_result [OF this] obtain f where f: "read_header e = Some f"
      "case find_header_end (t @ s) of
         Some n \<Rightarrow> (\<exists>q. f = e\<lparr>read_queue := q, raw_request := Some (take n (t @ s)), state := CON_STATE_REQUEST_END\<rparr> \<and> queue_holds q (drop n (t @ s)))
       | None \<Rightarrow> f = e \<and> length (t @ s) \<le> 64 * 1024 \<or> f = e\<lparr>http_status := 414, keep_alive := 0, state := CON_STATE_HANDLE_REQUEST\<rparr>" by blast
    define g where "g = (if r = -2 \<and> state f = state c then connection_set_state f CON_STATE_ERROR else f)"
    have hold: "queue_holds (read_queue e) (t @ s)" using q by (auto simp: e_def queue_holds_def cq_repr_def)
    obtain u where u: "queue_holds (read_queue f) u" "u = (case find_header_end (t @ s) of Some n \<Rightarrow> drop n (t @ s) | None \<Rightarrow> t @ s)"
      using f(2) hold by (auto split: option.splits)
    from remove_finished_holds [OF u(1)] obtain q' where q': "chunkqueue_remove_finished_chunks (read_queue f) = Some q'" "queue_holds q' u" by blast
    have rq: "read_queue g = read_queue f" by (simp add: g_def connection_set_state_def)
    have run: "connection_handle_read_state now env c = Some (0, g\<lparr>read_queue := q'\<rparr>, [])"
      using False x q(1) f(1) assms(2) q'(1) rq
      by (simp add: connection_handle_read_state_def socket_read_def [symmetric] e_def [symmetric] g_def Let_def)
    have "state e = CON_STATE_READ" "raw_request e = raw_request c" using False d by (simp_all add: e_def)
    note st = this
    define D where "D = g\<lparr>read_queue := q'\<rparr>"
    have D: "read_queue D = q'" "state D = state g" "raw_request D = raw_request g" "http_status D = http_status g" by (simp_all add: D_def)
    have concl: "case find_header_end (t @ s) of
         Some n \<Rightarrow> state D = CON_STATE_REQUEST_END \<and> raw_request D = Some (take n (t @ s)) \<and> queue_holds (read_queue D) (drop n (t @ s))
       | None \<Rightarrow> queue_holds (read_queue D) (t @ s) \<and> raw_request D = raw_request c \<and>
           (state D = CON_STATE_HANDLE_REQUEST \<and> http_status D = 414 \<or>
            state D \<in> {CON_STATE_READ, CON_STATE_ERROR} \<and> length (t @ s) \<le> 64 * 1024)"
    proof (cases "find_header_end (t @ s)")
      case None
      with u(2) q'(2) have holds: "queue_holds (read_queue D) (t @ s)" by (simp add: D)
      from f(2) None consider "f = e" "length (t @ s) \<le> 64 * 1024" | "f = e\<lparr>http_status := 414, keep_alive := 0, state := CON_STATE_HANDLE_REQUEST\<rparr>"
        by auto
      then show ?thesis
      proof cases
        case 1
        then show ?thesis using None holds st assms(2) by (simp add: D g_def connection_set_state_def)
      next
        case 2
        then show ?thesis using None holds st assms(2) by (simp add: D g_def)
      qed
    next
      case (Some n)
      with f(2) obtain q2 where "f = e\<lparr>read_queue := q2, raw_request := Some (take n (t @ s)), state := CON_STATE_REQUEST_END\<rparr>" by auto
      then show ?thesis using Some u(2) q'(2) assms(2) by (simp add: D g_def)
    qed
    have "(0 :: int) \<noteq> -1" by simp
    with run concl s show ?thesis unfolding D_def [symmetric]
      by (intro exI [of _ 0] exI [of _ D] exI [of _ "[]"] exI [of _ s]) (simp only: if_False simp_thms)
  qed
qed

definition header_conn :: "connection option" where
  "header_conn = map_option (\<lambda>q. (connection_init config_none None 0)\<lparr>state := CON_STATE_READ, read_queue := q\<rparr>)
     (chunkqueue_append_mem chunkqueue_init (map Some (''GET / HTTP/1.0'' @ CRLFCRLF @ ''GET'')) 22)"

lemma header_conn_holds: "\<exists>c. header_conn = Some c \<and> queue_holds (read_queue c) (''GET / HTTP/1.0'' @ CRLFCRLF @ ''GET'') \<and>
    state c = CON_STATE_READ \<and> \<not> cf_is_ssl (cconf c) \<and> \<not> is_readable c"
proof -
  have "22 \<le> Suc (length (''GET / HTTP/1.0'' @ CRLFCRLF @ ''GET''))" by (simp add: CRLFCRLF_def)
  from chunkqueue_append_mem_repr [OF cq_repr_init this] obtain q where
    "chunkqueue_append_mem chunkqueue_init (map Some (''GET / HTTP/1.0'' @ CRLFCRLF @ ''GET'')) 22 = Some q"
    "cq_repr q [(Mem_Data (Some (''GET / HTTP/1.0'' @ CRLFCRLF @ ''GET'')), 0)]"
    by (auto simp: CRLFCRLF_def)
  then show ?thesis
    by (auto simp: header_conn_def queue_holds_def connection_init_def con_init_def con.defs config_none_def intro!: exI)
qed

theorem header_is_cut_out_witness:
  "\<exists>c d w. header_conn = Some c \<and>
     connection_handle_read_state 5 \<lparr>re_toread = None, re_read = (\<lambda>n. Read_Error EAGAIN), re_post = (\<lambda>i. \<lparr>pe_mkstemp = (\<lambda>p. (-1, p)), pe_open = (\<lambda>p. -1), pe_write = (\<lambda>d s. -1)\<rparr>)\<rparr> c = Some (0, d, w) \<and>
     state d = CON_STATE_REQUEST_END \<and> raw_request d = Some (''GET / HTTP/1.0'' @ CRLFCRLF) \<and> queue_holds (read_queue d) ''GET''"
proof -
  obtain c where c: "header_conn = Some c" "queue_holds (read_queue c) (''GET / HTTP/1.0'' @ CRLFCRLF @ ''GET'')"
    "state c = CON_STATE_READ" "\<not> cf_is_ssl (cconf c)" "\<not> is_readable c" using header_conn_holds by blast
  have n: "find_header_end (''GET / HTTP/1.0'' @ CRLFCRLF @ ''GET'') = Some 18" by (simp add: CRLFCRLF_def)
  define env where "env = \<lparr>re_toread = None, re_read = (\<lambda>n. Read_Error EAGAIN),
    re_post = (\<lambda>i. \<lparr>pe_mkstemp = (\<lambda>p. (-1, p)), pe_open = (\<lambda>p. -1), pe_write = (\<lambda>d s. -1)\<rparr>)\<rparr>"
  from header_is_cut_out [OF c(2-4), of 5 env] c(5) n obtain d w where
    d: "connection_handle_read_state 5 env c = Some (0, d, w)" "state d = CON_STATE_REQUEST_END"
      "raw_request d = Some (take 18 (''GET / HTTP/1.0'' @ CRLFCRLF @ ''GET''))"
      "queue_holds (read_queue d) (drop 18 (''GET / HTTP/1.0'' @ CRLFCRLF @ ''GET''))"
    by (auto split: if_splits simp del: take_append drop_append append_assoc)
  have "take 18 (''GET / HTTP/1.0'' @ CRLFCRLF @ ''GET'') = ''GET / HTTP/1.0'' @ CRLFCRLF"
    "drop 18 (''GET / HTTP/1.0'' @ CRLFCRLF @ ''GET'') = ''GET''" by (simp_all add: CRLFCRLF_def)
  with d c(1) show ?thesis unfolding env_def by metis
qed

end
