(* ===== verification/Read_Body.thy ===== *)
theory Read_Body imports Read_Queue begin

text \<open>
  The body of a request (\<open>connection_handle_read_state\<close> in \<open>src/src/connections.c\<close>, the state \<open>CON_STATE_READ_POST\<close>):
  a body of at most 64 kB is collected in memory chunks. The lemmas follow the copy loop over the chunks of the read
  queue; the property says that exactly the announced number of bytes leaves the read queue, in order.
\<close>

section \<open>The content queue\<close>

text \<open>A queue that holds a body: memory chunks of which nothing was written yet.\<close>

fun body_chunk :: "chunk_data \<times> int \<Rightarrow> bool" where
  "body_chunk (Mem_Data v, off) \<longleftrightarrow> off = 0"
| "body_chunk (File_Data nm st len, off) \<longleftrightarrow> False"

definition body_holds :: "chunkqueue \<Rightarrow> char list \<Rightarrow> bool" where
  "body_holds q u \<longleftrightarrow> (\<exists>ds. cq_repr q ds \<and> list_all body_chunk ds \<and> queue_text ds = u)"

lemma body_holds_init: "body_holds (chunkqueue_init\<lparr>tempdirs := dirs\<rparr>) []"
proof -
  have "cq_repr (chunkqueue_init\<lparr>tempdirs := dirs\<rparr>) []"
    using chunkqueue_init_shape unfolding cq_repr_def cq_shape_def contents_def by fastforce
  then show ?thesis by (auto simp: body_holds_def intro!: exI [of _ "[]"])
qed

text \<open>The last chunk of a queue of memory chunks, or a new one.\<close>

lemma body_buffer_last:
  assumes sh: "cq_shape q as us []" and bc: "list_all body_chunk (contents q as)"
  shows "\<exists>bs a q' us' k b v. body_buffer q len = Some (a, q') \<and> cq_shape q' (bs @ [a]) us' [] \<and>
    list_all body_chunk (contents q' bs) \<and> queue_text (contents q' bs) @ bval v = queue_text (contents q as) \<and>
    same_rest q q' \<and> cells q' a = Some k \<and> cmem k = Some b \<and> buf_repr b v \<and> coffset k = 0 \<and> ctype k = MEM_CHUNK"
proof (cases "as = []")
  case True
  then have l: "cq_last q = None" using cq_shapeD(6) [OF sh] by simp
  from new_read_buffer_shape [OF sh, of "len - bytes_in q + 1"] obtain a q' k b where
    q': "new_read_buffer (len - bytes_in q + 1) q = Some (a, q')" "cq_shape q' (as @ [a]) (tl us) []"
      "contents q' (as @ [a]) = contents q as @ [(Mem_Data None, 0)]" "same_rest q q'" "cells q' a = Some k" "cmem k = Some b" "buf_repr b None"
    by blast
  have val: "chunk_value k = (Mem_Data None, 0)" using q'(3,5) by (simp add: contents_def)
  have "ctype k = MEM_CHUNK" "coffset k = 0"
    using val cq_shapeD(10) [OF q'(2,5)] by (cases "ctype k"; simp add: chunk_value_def)+
  moreover have "body_buffer q len = Some (a, q')" using q'(1) l by (simp add: body_buffer_def)
  ultimately show ?thesis using True q'
    by (intro exI [of _ "[]"] exI [of _ a] exI [of _ q'] exI [of _ "tl us"] exI [of _ k] exI [of _ b] exI [of _ None]) (simp add: contents_def)
next
  case False
  then obtain bs a where as: "as = bs @ [a]" by (metis rev_exhaust)
  have l: "cq_last q = Some a" using cq_shapeD(6) [OF sh] as by simp
  from cq_shapeD(11) [OF sh, of a] as obtain k where k: "cells q a = Some k" by auto
  from cq_shapeD(9) [OF sh k] obtain b v where b: "cmem k = Some b" "buf_repr b v" by (auto simp: chunk_ok_def is_string_def)
  have c: "contents q as = contents q bs @ [chunk_value k]" using as k by (simp add: contents_def)
  then have bk: "body_chunk (chunk_value k)" using bc by simp
  have ty: "ctype k = MEM_CHUNK" using bk cq_shapeD(10) [OF sh k] as by (cases "ctype k") (auto simp: chunk_value_def)
  with bk b have val: "chunk_value k = (Mem_Data v, 0)" "coffset k = 0" by (simp_all add: chunk_value_def)
  moreover have "body_buffer q len = Some (a, q)" using l k ty by (simp add: body_buffer_def)
  ultimately show ?thesis using sh as c k b ty bc
    by (intro exI [of _ bs] exI [of _ a] exI [of _ q] exI [of _ us] exI [of _ k] exI [of _ b] exI [of _ v]) (simp add: same_rest_def)
qed

lemma body_to_mem_holds:
  assumes "body_holds q u"
  shows "\<exists>q'. body_to_mem q s len = Some q' \<and> body_holds q' (u @ s) \<and> same_rest q q'"
proof -
  from assms obtain as us where sh: "cq_shape q as us []" and bc: "list_all body_chunk (contents q as)" and u: "queue_text (contents q as) = u"
    by (auto simp: body_holds_def cq_repr_def)
  from body_buffer_last [OF sh bc, of len] obtain bs a q1 us1 k b v where
    q1: "body_buffer q len = Some (a, q1)" "cq_shape q1 (bs @ [a]) us1 []" "list_all body_chunk (contents q1 bs)"
      "queue_text (contents q1 bs) @ bval v = u" "same_rest q q1"
    and k: "cells q1 a = Some k" "cmem k = Some b" "buf_repr b v" "coffset k = 0" "ctype k = MEM_CHUNK" using u by blast
  from buffer_append_string_len_repr [OF k(3), of "length s" s, unfolded take_all [OF order_refl] length_0_conv, OF order_refl] obtain b' where
    b': "buffer_append_string_len (Some b) (Some (map Some s)) (length s) = Some (0, Some b')" "buf_repr b' (if s = [] then v else Some (bval v @ s))"
    by blast
  define k' where "k' = k\<lparr>cmem := Some b'\<rparr>"
  define q2 where "q2 = q1\<lparr>cells := (cells q1)(a \<mapsto> k')\<rparr>"
  have "is_string (Some b')" using b'(2) unfolding is_string_def by blast
  then have ok: "chunk_ok k'" using cq_shapeD(9) [OF q1(2) k(1)] by (simp add: k'_def chunk_ok_def)
  have sh2: "cq_shape q2 (bs @ [a]) us1 []" unfolding q2_def by (rule shape_upd [OF q1(2) k(1) _ _ ok]) (simp_all add: k'_def)
  have "a \<notin> set bs" using cq_shapeD(3) [OF q1(2)] by simp
  then have "contents q2 (bs @ [a]) = contents q1 bs @ [(Mem_Data (if s = [] then v else Some (bval v @ s)), 0)]"
    using b'(2) k(4,5) by (auto simp: contents_def q2_def k'_def chunk_value_def)
  moreover have "bval (if s = [] then v else Some (bval v @ s)) = bval v @ s" by simp
  ultimately have "list_all body_chunk (contents q2 (bs @ [a]))" "queue_text (contents q2 (bs @ [a])) = u @ s"
    using q1(3,4) by simp_all
  with sh2 have "body_holds q2 (u @ s)" unfolding body_holds_def cq_repr_def by blast
  moreover have "body_to_mem q s len = Some q2" using q1(1) k b'(1) by (simp add: body_to_mem_def q2_def k'_def)
  moreover have "same_rest q q2" using q1(5) by (simp add: same_rest_def q2_def)
  ultimately show ?thesis by blast
qed

section \<open>The copy loop\<close>

lemma copy_body_done:
  assumes "bytes_in (request_content_queue c) = int (content_length (req c))"
  shows "copy_body env i as c = Some (c, [])"
  using assms by (cases as) (simp_all add: Let_def)

lemma bind_pair_Some: "x \<bind> (\<lambda>(a, b). Some (a, b)) = x"
  by (cases x) auto

lemma text_used:
  assumes "chunk_ok c" "ctype c \<noteq> UNUSED_CHUNK" "text_chunk (chunk_value c)"
  shows "\<exists>b. cmem c = Some b \<and> bused b \<noteq> 0"
  using text_chunkD [OF assms(3,1,2)] buf_repr_SomeD by fastforce

text \<open>One round of the loop, when bytes are still wanted.\<close>

lemma copy_body_step:
  assumes k: "cells (read_queue c) a = Some k" "chunk_ok k" "ctype k \<noteq> UNUSED_CHUNK" "text_chunk (chunk_value k)"
    and u: "body_holds (request_content_queue c) u" "bytes_in (request_content_queue c) = int (length u)"
    and len: "content_length (req c) \<le> 64 * 1024" "length u < content_length (req c)"
    and s: "s = take (content_length (req c) - length u) (chunk_rest (chunk_value k))"
  shows "\<exists>q. copy_body env i (a # as) c = copy_body env (i + 1) as
      (c\<lparr>read_queue := (read_queue c)\<lparr>cells := (cells (read_queue c))(a \<mapsto> k\<lparr>coffset := coffset k + int (length s)\<rparr>)\<rparr>,
        request_content_queue := q\<rparr>) \<and> body_holds q (u @ s) \<and> bytes_in q = int (length (u @ s)) \<and>
      tempdirs q = tempdirs (request_content_queue c)"
proof -
  obtain b where b: "cmem k = Some b" "bused b \<noteq> 0" using text_used [OF k(2-4)] by blast
  note t = chunk_text_rest [OF k(4,2,3)]
  from body_to_mem_holds [OF u(1), of s "int (content_length (req c))"] obtain q where
    q: "body_to_mem (request_content_queue c) s (int (content_length (req c))) = Some q" "body_holds q (u @ s)"
      "same_rest (request_content_queue c) q" by blast
  define q' where "q' = q\<lparr>bytes_in := bytes_in q + int (length s)\<rparr>"
  have n: "take (nat (min (int (length (chunk_rest (chunk_value k)))) (int (content_length (req c)) - int (length u)))) (chunk_rest (chunk_value k)) = s"
  proof -
    have "nat (min (int (length (chunk_rest (chunk_value k)))) (int (content_length (req c)) - int (length u))) =
        min (content_length (req c) - length u) (length (chunk_rest (chunk_value k)))" using len(2) by linarith
    then show ?thesis by (simp add: s min_def)
  qed
  have "body_holds q' (u @ s)"
    using q(2) unfolding q'_def body_holds_def cq_repr_def cq_shape_def contents_def by simp
  moreover have "bytes_in q' = int (length (u @ s))" "tempdirs q' = tempdirs (request_content_queue c)"
    using q(3) u(2) by (simp_all add: q'_def same_rest_def)
  moreover have "copy_body env i (a # as) c = copy_body env (i + 1) as
      (c\<lparr>read_queue := (read_queue c)\<lparr>cells := (cells (read_queue c))(a \<mapsto> k\<lparr>coffset := coffset k + int (length s)\<rparr>)\<rparr>,
        request_content_queue := q'\<rparr>)"
  proof -
    have "\<not> int (content_length (req c)) > 64 * 1024" "int (length u) \<noteq> int (content_length (req c))" using len by simp_all
    with b(2) show ?thesis
      by (simp only: copy_body.simps Let_def k(1) b(1) t u(2) n q(1) bind.bind_lunit if_False if_True option.map prod.case simp_thms q'_def append_Nil bind_pair_Some)
  qed
  ultimately show ?thesis by (intro exI [of _ q'] conjI)
qed

lemma copy_body_result:
  assumes "text_heap (cells (read_queue c)) as" and "distinct as"
    and "body_holds (request_content_queue c) u" and "bytes_in (request_content_queue c) = int (length u)"
    and "content_length (req c) \<le> 64 * 1024" and "length u \<le> content_length (req c)"
    and "t = queue_text (heap_values (cells (read_queue c)) as)" and "n = content_length (req c) - length u"
  shows "\<exists>h q. copy_body env i as c = Some (c\<lparr>read_queue := (read_queue c)\<lparr>cells := h\<rparr>, request_content_queue := q\<rparr>, []) \<and>
    same_chunks (cells (read_queue c)) h \<and> (\<forall>a. a \<notin> set as \<longrightarrow> h a = cells (read_queue c) a) \<and>
    list_all text_chunk (heap_values h as) \<and> queue_text (heap_values h as) = drop n t \<and>
    body_holds q (u @ take n t) \<and> bytes_in q = int (length (u @ take n t)) \<and> tempdirs q = tempdirs (request_content_queue c)"
  using assms
proof (induction as arbitrary: c i u t n)
  case Nil
  then show ?case by (intro exI [of _ "cells (read_queue c)"] exI [of _ "request_content_queue c"]) (simp add: heap_values_def)
next
  case (Cons a as)
  define h where "h = cells (read_queue c)"
  from Cons.prems(1) obtain k where k: "h a = Some k" "chunk_ok k" "ctype k \<noteq> UNUSED_CHUNK" "text_chunk (chunk_value k)"
    by (auto simp: text_heap_def h_def)
  have notin: "a \<notin> set as" using Cons.prems(2) by simp
  have vals: "heap_values h (a # as) = chunk_value k # heap_values h as" using k(1) by (simp add: heap_values_def)
  have rest: "list_all text_chunk (heap_values h (a # as))"
    using Cons.prems(1) by (fastforce simp: text_heap_def heap_values_def list_all_iff h_def)
  show ?case
  proof (cases "n = 0")
    case True
    then have "bytes_in (request_content_queue c) = int (content_length (req c))" using Cons.prems(4,6,8) by simp
    from copy_body_done [OF this, of env i "a # as"] True Cons.prems rest show ?thesis
      by (intro exI [of _ h] exI [of _ "request_content_queue c"]) (simp add: h_def)
  next
    case False
    define s where "s = take n (chunk_rest (chunk_value k))"
    have "length u < content_length (req c)" using False Cons.prems(6,8) by simp
    from copy_body_step [OF k [unfolded h_def] Cons.prems(3-5) this, of s env i as] Cons.prems(8) obtain q1 where
      q1: "copy_body env i (a # as) c = copy_body env (i + 1) as
          (c\<lparr>read_queue := (read_queue c)\<lparr>cells := h(a \<mapsto> k\<lparr>coffset := coffset k + int (length s)\<rparr>)\<rparr>, request_content_queue := q1\<rparr>)"
        "body_holds q1 (u @ s)" "bytes_in q1 = int (length (u @ s))" "tempdirs q1 = tempdirs (request_content_queue c)"
      by (auto simp: s_def h_def)
    define h1 where "h1 = h(a \<mapsto> k\<lparr>coffset := coffset k + int (length s)\<rparr>)"
    define c1 where "c1 = c\<lparr>read_queue := (read_queue c)\<lparr>cells := h1\<rparr>, request_content_queue := q1\<rparr>"
    have h1: "heap_values h1 as = heap_values h as" "text_heap h1 as"
      using heap_values_upd [OF notin] Cons.prems(1) notin by (auto simp: h1_def h_def text_heap_def)
    have c1: "cells (read_queue c1) = h1" "request_content_queue c1 = q1" "req c1 = req c" by (simp_all add: c1_def)
    define m where "m = n - length s"
    have m: "m = content_length (req c1) - length (u @ s)" using Cons.prems(8) by (simp add: m_def c1)
    have "length (u @ s) \<le> content_length (req c1)" using Cons.prems(6,8) by (simp add: s_def c1)
    from Cons.IH [of c1, unfolded c1, OF h1(2) _ q1(2,3) _ this [unfolded c1] refl m [unfolded c1], of "i + 1"] Cons.prems(2,5) h1(1) obtain h' q where
      h': "copy_body env (i + 1) as c1 = Some (c1\<lparr>read_queue := (read_queue c1)\<lparr>cells := h'\<rparr>, request_content_queue := q\<rparr>, [])"
        "same_chunks h1 h'" "\<forall>x. x \<notin> set as \<longrightarrow> h' x = h1 x" "list_all text_chunk (heap_values h' as)"
        "queue_text (heap_values h' as) = drop m (queue_text (heap_values h as))"
        "body_holds q (u @ s @ take m (queue_text (heap_values h as)))"
        "bytes_in q = int (length (u @ s @ take m (queue_text (heap_values h as))))" "tempdirs q = tempdirs (request_content_queue c)"
      using q1(4) by auto
    have t: "t = chunk_rest (chunk_value k) @ queue_text (heap_values h as)" using Cons.prems(7) vals by (simp add: h_def)
    have cut: "take n t = s @ take m (queue_text (heap_values h as))"
      "drop n t = drop (length s) (chunk_rest (chunk_value k)) @ drop m (queue_text (heap_values h as))"
      by (auto simp: t s_def m_def min_def)
    have "same_chunks h h1" unfolding h1_def by (rule same_chunks_upd [where h = h and a = a, OF same_chunks_refl k(1)])
    then have sc: "same_chunks h h'" using h'(2) by (simp add: same_chunks_def)
    have "length s \<le> length (chunk_rest (chunk_value k))" by (simp add: s_def)
    note adv = chunk_advance [OF k(2-4) this]
    have ha: "h' a = Some (k\<lparr>coffset := coffset k + int (length s)\<rparr>)" using h'(3) notin by (simp add: h1_def)
    then have hv: "heap_values h' (a # as) = chunk_value (k\<lparr>coffset := coffset k + int (length s)\<rparr>) # heap_values h' as"
      by (simp add: heap_values_def)
    have out: "\<forall>x. x \<notin> set (a # as) \<longrightarrow> h' x = h x" using h'(3) by (simp add: h1_def)
    have run: "copy_body env i (a # as) c = Some (c\<lparr>read_queue := (read_queue c)\<lparr>cells := h'\<rparr>, request_content_queue := q\<rparr>, [])"
      using q1(1) h'(1) by (simp add: c1_def h1_def)
    show ?thesis
      using run sc out hv adv h'(4-8) cut by (intro exI [of _ h'] exI [of _ q]) (simp add: h_def [symmetric])
  qed
qed

section \<open>Properties\<close>

lemma read_body_result:
  assumes "cq_shape (read_queue c) as us []" and "list_all text_chunk (contents (read_queue c) as)"
    and "queue_text (contents (read_queue c) as) = t"
    and "body_holds (request_content_queue c) u" and "bytes_in (request_content_queue c) = int (length u)"
    and "content_length (req c) \<le> 64 * 1024" and "length u \<le> content_length (req c)"
    and n: "n = content_length (req c) - length u"
  shows "\<exists>d. read_body env c = Some (d, []) \<and> queue_holds (read_queue d) (drop n t) \<and>
    body_holds (request_content_queue d) (u @ take n t) \<and> bytes_in (request_content_queue d) = int (length (u @ take n t)) \<and>
    raw_request d = raw_request c \<and> req d = req c \<and>
    state d = (if n \<le> length t then CON_STATE_HANDLE_REQUEST else state c)"
proof -
  have walk: "chunk_list (cells (read_queue c)) (cq_first (read_queue c)) = Some as"
    using chunk_list_chain [OF cq_shapeD(1) [OF assms(1)]] by simp
  have th: "text_heap (cells (read_queue c)) as" by (rule shape_text_heap [OF assms(1,2)])
  have dist: "distinct as" using cq_shapeD(3) [OF assms(1)] by simp
  have t: "t = queue_text (heap_values (cells (read_queue c)) as)" using assms(3) by (simp add: contents_def heap_values_def)
  from copy_body_result [OF th dist assms(4-7) t n, of env 0] obtain h q where
    r: "copy_body env 0 as c = Some (c\<lparr>read_queue := (read_queue c)\<lparr>cells := h\<rparr>, request_content_queue := q\<rparr>, [])"
      "same_chunks (cells (read_queue c)) h" "list_all text_chunk (heap_values h as)" "queue_text (heap_values h as) = drop n t"
      "body_holds q (u @ take n t)" "bytes_in q = int (length (u @ take n t))" by blast
  define e where "e = c\<lparr>read_queue := (read_queue c)\<lparr>cells := h\<rparr>, request_content_queue := q\<rparr>"
  have "cq_shape (read_queue e) as us []" using shape_same_chunks [OF assms(1) r(2)] by (simp add: e_def)
  moreover have "contents (read_queue e) as = heap_values h as" by (simp add: contents_def heap_values_def e_def)
  ultimately have hold: "queue_holds (read_queue e) (drop n t)" using r(3,4) by (auto simp: queue_holds_def cq_repr_def)
  have e: "request_content_queue e = q" "req e = req c" "state e = state c" "raw_request e = raw_request c" by (simp_all add: e_def)
  have "read_body env c = Some (if bytes_in (request_content_queue e) = int (content_length (req e))
      then connection_set_state e CON_STATE_HANDLE_REQUEST else e, [])"
    using walk r(1) by (simp add: read_body_def e_def)
  moreover have "bytes_in (request_content_queue e) = int (content_length (req e)) \<longleftrightarrow> n \<le> length t"
    using r(6) n assms(7) e by auto
  ultimately show ?thesis using hold e r(5,6) by (auto simp: connection_set_state_def)
qed

text \<open>C20: In the state that reads a body of at most 64 kB, whatever the socket delivers and however it is cut into chunks: exactly the
  bytes that are still missing leave the read queue, in order, and are appended to the content queue; what follows them stays for the
  next request, and the request is handled as soon as the announced length is there.\<close>

theorem body_is_copied:
  assumes "queue_holds (read_queue c) t" and "state c = CON_STATE_READ_POST" and "\<not> cf_is_ssl (cconf c)"
    and "body_holds (request_content_queue c) u" and "bytes_in (request_content_queue c) = int (length u)"
    and "content_length (req c) \<le> 64 * 1024" and "length u \<le> content_length (req c)"
  shows "\<exists>r d s. connection_handle_read_state now env c = Some (r, d, []) \<and> (if is_readable c then delivered (re_read env) s else s = []) \<and>
    (if r = -1 then is_readable c \<and> state d = CON_STATE_ERROR
     else let n = content_length (req c) - length u in
       r = 0 \<and> queue_holds (read_queue d) (drop n (t @ s)) \<and> body_holds (request_content_queue d) (u @ take n (t @ s)) \<and>
       bytes_in (request_content_queue d) = int (length (u @ take n (t @ s))) \<and> raw_request d = raw_request c \<and>
       (if n \<le> length (t @ s) then state d = CON_STATE_HANDLE_REQUEST else state d \<in> {CON_STATE_READ_POST, CON_STATE_ERROR}))"
proof -
  from socket_read_result [OF assms(1,3), of now env, unfolded assms(2)] obtain r d s q as' us' where
    x: "socket_read now env c = Some (r, d)" and s: "if is_readable c then delivered (re_read env) s else s = []"
    and d: "r = -1 \<longrightarrow> is_readable c \<and> state d = CON_STATE_ERROR" "r \<noteq> -1 \<longrightarrow> state d = CON_STATE_READ_POST" "raw_request d = raw_request c"
      "req d = req c" "request_content_queue d = request_content_queue c"
    and q: "drop_empty (read_queue d) (cq_first (read_queue d)) = Some q" "cq_shape q as' us' []" "list_all text_chunk (contents q as')"
      "queue_text (contents q as') = t @ s" by blast
  show ?thesis
  proof (cases "r = -1")
    case True
    with x have "connection_handle_read_state now env c = Some (-1, d, [])"
      by (simp add: connection_handle_read_state_def socket_read_def [symmetric])
    with True s d show ?thesis by (intro exI [of _ r] exI [of _ d] exI [of _ s]) simp
  next
    case False
    define n where "n = content_length (req c) - length u"
    define e where "e = d\<lparr>read_queue := q\<rparr>"
    have e: "cq_shape (read_queue e) as' us' []" "list_all text_chunk (contents (read_queue e) as')" "queue_text (contents (read_queue e) as') = t @ s"
      "state e = CON_STATE_READ_POST" "raw_request e = raw_request c" "req e = req c" "request_content_queue e = request_content_queue c"
      using q d False by (simp_all add: e_def)
    from read_body_result [OF e(1-3), unfolded e(4-7), OF assms(4-7) n_def] obtain f where
      f: "read_body (re_post env) e = Some (f, [])" "queue_holds (read_queue f) (drop n (t @ s))"
        "body_holds (request_content_queue f) (u @ take n (t @ s))" "bytes_in (request_content_queue f) = int (length (u @ take n (t @ s)))"
        "raw_request f = raw_request c" "state f = (if n \<le> length (t @ s) then CON_STATE_HANDLE_REQUEST else CON_STATE_READ_POST)"
      by blast
    define g where "g = (if r = -2 \<and> state f = state c then connection_set_state f CON_STATE_ERROR else f)"
    have g: "read_queue g = read_queue f" "request_content_queue g = request_content_queue f" "raw_request g = raw_request f"
      "if n \<le> length (t @ s) then state g = CON_STATE_HANDLE_REQUEST else state g \<in> {CON_STATE_READ_POST, CON_STATE_ERROR}"
      using f(6) assms(2) by (auto simp: g_def connection_set_state_def)
    from remove_finished_holds [OF f(2)] obtain q' where
      q': "chunkqueue_remove_finished_chunks (read_queue f) = Some q'" "queue_holds q' (drop n (t @ s))" by blast
    have "connection_handle_read_state now env c = Some (0, g\<lparr>read_queue := q'\<rparr>, [])"
      using False x q(1) f(1) assms(2) q'(1) g(1)
      by (simp add: connection_handle_read_state_def socket_read_def [symmetric] e_def [symmetric] g_def Let_def)
    moreover have "(0 :: int) \<noteq> -1" by simp
    ultimately show ?thesis using s q'(2) f(3-5) g unfolding n_def [symmetric] Let_def
      by (intro exI [of _ 0] exI [of _ "g\<lparr>read_queue := q'\<rparr>"] exI [of _ s]) (simp split: if_splits)
  qed
qed

lemma body_holds_tempdirs: "body_holds (request_content_queue (connection_init cf dirs n)) []"
  using body_holds_init by (simp add: connection_init_def con.defs)

theorem body_is_copied_witness:
  "\<exists>c0 c d. header_conn = Some c0 \<and>
     c = c0\<lparr>state := CON_STATE_READ_POST, req := (req c0)\<lparr>content_length := 10\<rparr>\<rparr> \<and>
     connection_handle_read_state 5 \<lparr>re_toread = None, re_read = (\<lambda>n. Read_Error EAGAIN),
       re_post = (\<lambda>i. \<lparr>pe_mkstemp = (\<lambda>p. (-1, p)), pe_open = (\<lambda>p. -1), pe_write = (\<lambda>d s. -1)\<rparr>)\<rparr> c = Some (0, d, []) \<and>
     state d = CON_STATE_HANDLE_REQUEST \<and> body_holds (request_content_queue d) ''GET / HTTP'' \<and>
     queue_holds (read_queue d) (''/1.0'' @ CRLFCRLF @ ''GET'')"
proof -
  obtain c0 where c0: "header_conn = Some c0" "queue_holds (read_queue c0) (''GET / HTTP/1.0'' @ CRLFCRLF @ ''GET'')"
    "\<not> cf_is_ssl (cconf c0)" using header_conn_holds by blast
  define c where "c = c0\<lparr>state := CON_STATE_READ_POST, req := (req c0)\<lparr>content_length := 10\<rparr>\<rparr>"
  define env where "env = \<lparr>re_toread = None, re_read = (\<lambda>n. Read_Error EAGAIN),
    re_post = (\<lambda>i. \<lparr>pe_mkstemp = (\<lambda>p. (-1, p)), pe_open = (\<lambda>p. -1), pe_write = (\<lambda>d s. -1)\<rparr>)\<rparr>"
  have rcq: "request_content_queue c = request_content_queue (connection_init config_none None 0)"
    using c0(1) by (auto simp: c_def header_conn_def)
  have c: "queue_holds (read_queue c) (''GET / HTTP/1.0'' @ CRLFCRLF @ ''GET'')" "state c = CON_STATE_READ_POST" "\<not> cf_is_ssl (cconf c)"
    "body_holds (request_content_queue c) []" "bytes_in (request_content_queue c) = int (length ([] :: char list))"
    "content_length (req c) \<le> 64 * 1024" "length ([] :: char list) \<le> content_length (req c)"
    using c0 body_holds_tempdirs [of config_none None 0]
    by (simp_all add: rcq) (simp_all add: c_def connection_init_def con.defs chunkqueue_init_def)
  have nr: "\<not> is_readable c" using c0(1) by (auto simp: c_def header_conn_def connection_init_def con.defs)
  have len: "content_length (req c) = 10" by (simp add: c_def)
  from body_is_copied [OF c, of 5 env] nr len obtain d where "connection_handle_read_state 5 env c = Some (0, d, [])"
    "state d = CON_STATE_HANDLE_REQUEST" "body_holds (request_content_queue d) (take 10 (''GET / HTTP/1.0'' @ CRLFCRLF @ ''GET''))"
    "queue_holds (read_queue d) (drop 10 (''GET / HTTP/1.0'' @ CRLFCRLF @ ''GET''))"
    by (auto simp: Let_def split: if_splits simp del: take_append drop_append append_assoc)
  moreover have "take 10 (''GET / HTTP/1.0'' @ CRLFCRLF @ ''GET'') = ''GET / HTTP''"
    "drop 10 (''GET / HTTP/1.0'' @ CRLFCRLF @ ''GET'') = ''/1.0'' @ CRLFCRLF @ ''GET''" by (simp_all add: CRLFCRLF_def)
  ultimately show ?thesis using c0(1) unfolding c_def env_def by metis
qed

end
