(* ===== verification/Fdevent.thy ===== *)
theory Fdevent imports Prelude begin

unbundle bit_operations_syntax

text \<open>
  Waiting for descriptors: \<open>src/src/fdevent.c\<close> with its backends \<open>fdevent_poll.c\<close>, \<open>fdevent_select.c\<close> and
  \<open>fdevent_linux_sysepoll.c\<close>. \<open>fdarray\<close> holds a node per registered descriptor, \<open>pollfds\<close> the slots of \<open>poll\<close>, which
  are reused through \<open>unused\<close>; the set of \<open>epoll\<close> lives in the kernel and follows \<open>epoll_ctl(2)\<close>. The code jumps
  through pointers in \<open>fdevents\<close>; here \<open>ftype\<close> chooses. \<open>None\<close> is \<open>SEGFAULT()\<close>, a failed assertion or an access outside a
  block. The locale \<open>event_backend\<close> is what the server relies on: the events last set are the ones waited for.
\<close>

section \<open>State\<close>

definition FDEVENT_IN :: int where "FDEVENT_IN = 1"
definition FDEVENT_PRI :: int where "FDEVENT_PRI = 2"
definition FDEVENT_OUT :: int where "FDEVENT_OUT = 4"
definition FDEVENT_ERR :: int where "FDEVENT_ERR = 8"
definition FDEVENT_HUP :: int where "FDEVENT_HUP = 16"
definition FDEVENT_NVAL :: int where "FDEVENT_NVAL = 32"

definition has_event :: "int \<Rightarrow> int \<Rightarrow> bool" where
  "has_event events e \<longleftrightarrow> events AND e \<noteq> 0"

datatype fdevent_handler_t = FDEVENT_HANDLER_SELECT | FDEVENT_HANDLER_POLL | FDEVENT_HANDLER_LINUX_SYSEPOLL

record fdnode =
  fn_fd :: int
  fn_ctx :: nat
  fn_events :: int

text \<open>The constants of \<open>poll(2)\<close> are numerically the ones of \<open>fdevent.h\<close>. \<open>prevents\<close> is not set before the first \<open>poll\<close>.\<close>

record pollfd =
  pfd :: int
  pevents :: int
  prevents :: "int option"

record fdevents =
  ftype :: fdevent_handler_t
  fdarray :: "fdnode option list"
  pollfds :: "pollfd option list"
  pused :: nat
  unused_ptr :: "nat option list"
  unused_used :: nat
  select_set_read :: "int \<Rightarrow> bool"
  select_set_write :: "int \<Rightarrow> bool"
  select_set_error :: "int \<Rightarrow> bool"
  select_read :: "int \<Rightarrow> bool"
  select_write :: "int \<Rightarrow> bool"
  select_error :: "int \<Rightarrow> bool"
  select_max_fd :: int
  epoll_set :: "int \<Rightarrow> int option"
  epoll_events :: "(int \<times> int) list"

definition fdevent_init :: "nat \<Rightarrow> fdevent_handler_t \<Rightarrow> fdevents" where
  "fdevent_init maxfds ty = \<lparr>ftype = ty, fdarray = replicate maxfds None, pollfds = [], pused = 0, unused_ptr = [],
     unused_used = 0, select_set_read = (\<lambda>_. False), select_set_write = (\<lambda>_. False), select_set_error = (\<lambda>_. False),
     select_read = (\<lambda>_. False), select_write = (\<lambda>_. False), select_error = (\<lambda>_. False), select_max_fd = 0,
     epoll_set = (\<lambda>_. None), epoll_events = []\<rparr>"

section \<open>The backend on \<open>poll\<close>\<close>

definition poll_slot :: "fdevents \<Rightarrow> int \<Rightarrow> pollfd option" where
  "poll_slot ev k = (if 0 \<le> k \<and> nat k < length (pollfds ev) then pollfds ev ! nat k else None)"

text \<open>The list of free slots grows by sixteen.\<close>

definition unused_grow :: "fdevents \<Rightarrow> fdevents" where
  "unused_grow ev =
     (if unused_ptr ev = [] then ev\<lparr>unused_ptr := replicate 16 None\<rparr>
      else if length (unused_ptr ev) = unused_used ev then ev\<lparr>unused_ptr := unused_ptr ev @ replicate 16 None\<rparr>
      else ev)"

definition fdevent_poll_event_del :: "fdevents \<Rightarrow> int \<Rightarrow> int \<Rightarrow> (int \<times> fdevents) option" where
  "fdevent_poll_event_del ev fde_ndx fd =
     (if fde_ndx < 0 then Some (-1, ev)
      else if nat fde_ndx \<ge> pused ev then None
      else do {
        p \<leftarrow> poll_slot ev fde_ndx;
        if pfd p = fd then
          (let ev = unused_grow (ev\<lparr>pollfds := (pollfds ev)[nat fde_ndx := Some (p\<lparr>pfd := -1\<rparr>)]\<rparr>) in do {
             u \<leftarrow> mwrite (unused_used ev) [Some (nat fde_ndx)] (unused_ptr ev);
             Some (-1, ev\<lparr>unused_ptr := u, unused_used := unused_used ev + 1\<rparr>) })
        else None })"

definition poll_events :: "int \<Rightarrow> int" where
  "poll_events events = (if has_event events FDEVENT_IN then FDEVENT_IN else 0) + (if has_event events FDEVENT_OUT then FDEVENT_OUT else 0)"

definition pollfds_grow :: "fdevents \<Rightarrow> fdevents" where
  "pollfds_grow ev =
     (if pollfds ev = [] then ev\<lparr>pollfds := replicate 16 None\<rparr>
      else if length (pollfds ev) = pused ev then ev\<lparr>pollfds := pollfds ev @ replicate 16 None\<rparr>
      else ev)"

text \<open>A slot keeps its \<open>revents\<close>; the one of a new slot is not set.\<close>

definition fill_slot :: "fdevents \<Rightarrow> nat \<Rightarrow> int \<Rightarrow> int \<Rightarrow> fdevents option" where
  "fill_slot ev k fd events =
     (if k < length (pollfds ev)
      then (let r = (case pollfds ev ! k of Some p \<Rightarrow> prevents p | None \<Rightarrow> None) in
        Some (ev\<lparr>pollfds := (pollfds ev)[k := Some \<lparr>pfd = fd, pevents = poll_events events, prevents = r\<rparr>]\<rparr>))
      else None)"

definition fdevent_poll_event_set :: "fdevents \<Rightarrow> int \<Rightarrow> int \<Rightarrow> int \<Rightarrow> (int \<times> fdevents) option" where
  "fdevent_poll_event_set ev fde_ndx fd events =
     (if fde_ndx \<noteq> -1 then do {
        p \<leftarrow> poll_slot ev fde_ndx;
        if pfd p = fd
        then Some (fde_ndx, ev\<lparr>pollfds := (pollfds ev)[nat fde_ndx := Some (p\<lparr>pevents := poll_events events\<rparr>)]\<rparr>)
        else None }
      else if unused_used ev > 0 then do {
        us \<leftarrow> mread (unused_used ev - 1) 1 (unused_ptr ev);
        k \<leftarrow> hd us;
        ev \<leftarrow> fill_slot (ev\<lparr>unused_used := unused_used ev - 1\<rparr>) k fd events;
        Some (int k, ev) }
      else do {
        ev \<leftarrow> fill_slot (pollfds_grow ev) (pused ev) fd events;
        Some (int (pused ev), ev\<lparr>pused := pused ev + 1\<rparr>) })"

text \<open>\<open>sys\<close> is the system call: what it stores for a slot.\<close>

definition fdevent_poll_poll :: "(pollfd \<Rightarrow> int) \<Rightarrow> fdevents \<Rightarrow> int \<times> fdevents" where
  "fdevent_poll_poll sys ev = (
     let ps = map (map_option (\<lambda>p. p\<lparr>prevents := Some (if pfd p < 0 then 0 else sys p)\<rparr>)) (take (pused ev) (pollfds ev)) in
     (int (length (filter (\<lambda>po. case po of Some p \<Rightarrow> prevents p \<noteq> Some 0 | None \<Rightarrow> False) ps)),
      ev\<lparr>pollfds := ps @ drop (pused ev) (pollfds ev)\<rparr>))"

definition fdevent_poll_event_get_revent :: "fdevents \<Rightarrow> nat \<Rightarrow> int option" where
  "fdevent_poll_event_get_revent ev n =
     (if n \<ge> pused ev then None
      else do {
        p \<leftarrow> poll_slot ev (int n);
        r \<leftarrow> prevents p;
        if has_event r FDEVENT_NVAL then None
        else Some ((if has_event r FDEVENT_IN then FDEVENT_IN else 0) + (if has_event r FDEVENT_OUT then FDEVENT_OUT else 0) +
          (if has_event r FDEVENT_ERR then FDEVENT_ERR else 0) + (if has_event r FDEVENT_HUP then FDEVENT_HUP else 0) +
          (if has_event r FDEVENT_PRI then FDEVENT_PRI else 0)) })"

definition fdevent_poll_event_get_fd :: "fdevents \<Rightarrow> nat \<Rightarrow> int option" where
  "fdevent_poll_event_get_fd ev n = map_option pfd (poll_slot ev (int n))"

fun next_slot :: "pollfd option list \<Rightarrow> nat \<Rightarrow> int option" where
  "next_slot [] i = Some (-1)"
| "next_slot (po # ps) i = do {
     p \<leftarrow> po;
     r \<leftarrow> prevents p;
     if r \<noteq> 0 then Some (int i) else next_slot ps (i + 1) }"

definition fdevent_poll_event_next_fdndx :: "fdevents \<Rightarrow> int \<Rightarrow> int option" where
  "fdevent_poll_event_next_fdndx ev n = (
     let i = (if n < 0 then 0 else nat n + 1) in next_slot (drop i (take (pused ev) (pollfds ev))) i)"

section \<open>The backend on \<open>select\<close>\<close>

definition FD_SETSIZE :: int where "FD_SETSIZE = 1024"

definition fdevent_select_reset :: "fdevents \<Rightarrow> fdevents" where
  "fdevent_select_reset ev = ev\<lparr>select_set_read := (\<lambda>_. False), select_set_write := (\<lambda>_. False),
     select_set_error := (\<lambda>_. False), select_max_fd := -1\<rparr>"

text \<open>The macros index the words of an \<open>fd_set\<close>.\<close>

definition in_fd_set :: "int \<Rightarrow> bool" where
  "in_fd_set fd \<longleftrightarrow> 0 \<le> fd \<and> fd < FD_SETSIZE"

definition fdevent_select_event_del :: "fdevents \<Rightarrow> int \<Rightarrow> int \<Rightarrow> (int \<times> fdevents) option" where
  "fdevent_select_event_del ev fde_ndx fd =
     (if fde_ndx < 0 then Some (-1, ev)
      else if \<not> in_fd_set fd then None
      else Some (-1, ev\<lparr>select_set_read := (select_set_read ev)(fd := False),
        select_set_write := (select_set_write ev)(fd := False), select_set_error := (select_set_error ev)(fd := False)\<rparr>))"

definition fdevent_select_event_set :: "fdevents \<Rightarrow> int \<Rightarrow> int \<Rightarrow> int \<Rightarrow> (int \<times> fdevents) option" where
  "fdevent_select_event_set ev fde_ndx fd events =
     (if \<not> in_fd_set fd then None
      else Some (fd, ev\<lparr>select_set_read := (select_set_read ev)(fd := has_event events FDEVENT_IN),
        select_set_write := (select_set_write ev)(fd := has_event events FDEVENT_OUT),
        select_set_error := (select_set_error ev)(fd := True),
        select_max_fd := (if fd > select_max_fd ev then fd else select_max_fd ev)\<rparr>))"

definition fdevent_select_poll :: "(int \<Rightarrow> int) \<Rightarrow> fdevents \<Rightarrow> fdevents" where
  "fdevent_select_poll sys ev = (
     let keep = (\<lambda>s e fd. fd \<le> select_max_fd ev \<and> s fd \<and> has_event (sys fd) e) in
     ev\<lparr>select_read := keep (select_set_read ev) FDEVENT_IN, select_write := keep (select_set_write ev) FDEVENT_OUT,
        select_error := keep (select_set_error ev) FDEVENT_ERR\<rparr>)"

definition fdevent_select_event_get_revent :: "fdevents \<Rightarrow> nat \<Rightarrow> int" where
  "fdevent_select_event_get_revent ev n =
     (if select_read ev (int n) then FDEVENT_IN else 0) + (if select_write ev (int n) then FDEVENT_OUT else 0) +
     (if select_error ev (int n) then FDEVENT_ERR else 0)"

definition fdevent_select_event_get_fd :: "fdevents \<Rightarrow> nat \<Rightarrow> int" where
  "fdevent_select_event_get_fd ev n = int n"

fun next_ready :: "fdevents \<Rightarrow> int list \<Rightarrow> int" where
  "next_ready ev [] = -1"
| "next_ready ev (i # is) = (if select_read ev i \<or> select_write ev i \<or> select_error ev i then i else next_ready ev is)"

definition fdevent_select_event_next_fdndx :: "fdevents \<Rightarrow> int \<Rightarrow> int" where
  "fdevent_select_event_next_fdndx ev n = next_ready ev [(if n < 0 then 0 else n + 1)..select_max_fd ev]"

section \<open>The backend on \<open>epoll\<close>\<close>

text \<open>\<open>epoll_ctl\<close> fails on a descriptor that is in the set already, or is to be changed and is not in it.\<close>

definition fdevent_linux_sysepoll_event_del :: "fdevents \<Rightarrow> int \<Rightarrow> int \<Rightarrow> (int \<times> fdevents) option" where
  "fdevent_linux_sysepoll_event_del ev fde_ndx fd =
     (if fde_ndx < 0 then Some (-1, ev)
      else if epoll_set ev fd = None then None
      else Some (-1, ev\<lparr>epoll_set := (epoll_set ev)(fd := None)\<rparr>))"

definition fdevent_linux_sysepoll_event_set :: "fdevents \<Rightarrow> int \<Rightarrow> int \<Rightarrow> int \<Rightarrow> (int \<times> fdevents) option" where
  "fdevent_linux_sysepoll_event_set ev fde_ndx fd events =
     (if (fde_ndx = -1) \<noteq> (epoll_set ev fd = None) then None
      else Some (fd, ev\<lparr>epoll_set := (epoll_set ev)(fd \<mapsto> poll_events events)\<rparr>))"

definition fdevent_linux_sysepoll_event_get_revent :: "fdevents \<Rightarrow> nat \<Rightarrow> int option" where
  "fdevent_linux_sysepoll_event_get_revent ev n =
     (if n < length (epoll_events ev) then
        (let e = snd (epoll_events ev ! n) in
         Some ((if has_event e FDEVENT_IN then FDEVENT_IN else 0) + (if has_event e FDEVENT_OUT then FDEVENT_OUT else 0) +
          (if has_event e FDEVENT_ERR then FDEVENT_ERR else 0) + (if has_event e FDEVENT_HUP then FDEVENT_HUP else 0) +
          (if has_event e FDEVENT_PRI then FDEVENT_PRI else 0)))
      else None)"

definition fdevent_linux_sysepoll_event_get_fd :: "fdevents \<Rightarrow> nat \<Rightarrow> int option" where
  "fdevent_linux_sysepoll_event_get_fd ev n = (if n < length (epoll_events ev) then Some (fst (epoll_events ev ! n)) else None)"

definition fdevent_linux_sysepoll_event_next_fdndx :: "fdevents \<Rightarrow> int \<Rightarrow> int" where
  "fdevent_linux_sysepoll_event_next_fdndx ev n = (if n < 0 then 0 else n + 1)"

section \<open>The common layer\<close>

definition backend_set :: "fdevents \<Rightarrow> int \<Rightarrow> int \<Rightarrow> int \<Rightarrow> (int \<times> fdevents) option" where
  "backend_set ev = (case ftype ev of
     FDEVENT_HANDLER_SELECT \<Rightarrow> fdevent_select_event_set ev
   | FDEVENT_HANDLER_POLL \<Rightarrow> fdevent_poll_event_set ev
   | FDEVENT_HANDLER_LINUX_SYSEPOLL \<Rightarrow> fdevent_linux_sysepoll_event_set ev)"

definition backend_del :: "fdevents \<Rightarrow> int \<Rightarrow> int \<Rightarrow> (int \<times> fdevents) option" where
  "backend_del ev = (case ftype ev of
     FDEVENT_HANDLER_SELECT \<Rightarrow> fdevent_select_event_del ev
   | FDEVENT_HANDLER_POLL \<Rightarrow> fdevent_poll_event_del ev
   | FDEVENT_HANDLER_LINUX_SYSEPOLL \<Rightarrow> fdevent_linux_sysepoll_event_del ev)"

definition fdevent_reset :: "fdevents \<Rightarrow> fdevents" where
  "fdevent_reset ev = (if ftype ev = FDEVENT_HANDLER_SELECT then fdevent_select_reset ev else ev)"

definition fd_node :: "fdevents \<Rightarrow> int \<Rightarrow> fdnode option option" where
  "fd_node ev fd = (if 0 \<le> fd \<and> nat fd < length (fdarray ev) then Some (fdarray ev ! nat fd) else None)"

definition set_node :: "int \<Rightarrow> fdnode option \<Rightarrow> fdevents \<Rightarrow> fdevents" where
  "set_node fd n ev = ev\<lparr>fdarray := (fdarray ev)[nat fd := n]\<rparr>"

definition fdevent_register :: "fdevents \<Rightarrow> int \<Rightarrow> nat \<Rightarrow> fdevents option" where
  "fdevent_register ev fd ctx = do {
     _ \<leftarrow> fd_node ev fd;
     Some (set_node fd (Some \<lparr>fn_fd = fd, fn_ctx = ctx, fn_events = 0\<rparr>) ev) }"

definition fdevent_unregister :: "fdevents \<Rightarrow> int \<Rightarrow> fdevents option" where
  "fdevent_unregister ev fd = do {
     n \<leftarrow> fd_node ev fd;
     fdn \<leftarrow> n;
     if fn_events fdn = 0 then Some (set_node fd None ev) else None }"

definition fdevent_event_del :: "fdevents \<Rightarrow> int \<Rightarrow> int \<Rightarrow> (int \<times> fdevents) option" where
  "fdevent_event_del ev fde_ndx fd = do {
     n \<leftarrow> fd_node ev fd;
     case n of
       None \<Rightarrow> Some (fde_ndx, ev)
     | Some fdn \<Rightarrow> do {
         (fde, ev) \<leftarrow> backend_del ev fde_ndx fd;
         Some (fde, set_node fd (Some (fdn\<lparr>fn_events := 0\<rparr>)) ev) } }"

definition fdevent_event_set :: "fdevents \<Rightarrow> int \<Rightarrow> int \<Rightarrow> int \<Rightarrow> (int \<times> fdevents) option" where
  "fdevent_event_set ev fde_ndx fd events = do {
     (fde, ev) \<leftarrow> backend_set ev fde_ndx fd events;
     n \<leftarrow> fd_node ev fd;
     fdn \<leftarrow> n;
     Some (fde, set_node fd (Some (fdn\<lparr>fn_events := events\<rparr>)) ev) }"

definition fdevent_get_context :: "fdevents \<Rightarrow> int \<Rightarrow> nat option" where
  "fdevent_get_context ev fd = do {
     n \<leftarrow> fd_node ev fd;
     fdn \<leftarrow> n;
     if fn_fd fdn = fd then Some (fn_ctx fdn) else None }"

section \<open>What the server relies on\<close>

text \<open>\<open>index b fd\<close> is the number the caller keeps in \<open>fde_ndx\<close>; \<open>interest b fd\<close> the events waited for.\<close>

locale event_backend =
  fixes ok :: "'b \<Rightarrow> bool" and valid :: "'b \<Rightarrow> int \<Rightarrow> bool" and index :: "'b \<Rightarrow> int \<Rightarrow> int" and interest :: "'b \<Rightarrow> int \<Rightarrow> int option"
    and eset :: "'b \<Rightarrow> int \<Rightarrow> int \<Rightarrow> int \<Rightarrow> (int \<times> 'b) option" and edel :: "'b \<Rightarrow> int \<Rightarrow> int \<Rightarrow> (int \<times> 'b) option"
  assumes set_law: "ok b \<Longrightarrow> valid b fd \<Longrightarrow> \<exists>b'. eset b (index b fd) fd e = Some (index b' fd, b') \<and> ok b' \<and> valid b' = valid b \<and>
      interest b' fd = Some (poll_events e) \<and> (\<forall>g. valid b g \<longrightarrow> g \<noteq> fd \<longrightarrow> index b' g = index b g \<and> interest b' g = interest b g)"
    and del_law: "ok b \<Longrightarrow> valid b fd \<Longrightarrow> \<exists>b'. edel b (index b fd) fd = Some (index b' fd, b') \<and> ok b' \<and> valid b' = valid b \<and>
      interest b' fd = None \<and> (\<forall>g. valid b g \<longrightarrow> g \<noteq> fd \<longrightarrow> index b' g = index b g \<and> interest b' g = interest b g)"

text \<open>A client sets and deletes events and keeps the index of each descriptor.\<close>

fun event_ops :: "('b \<Rightarrow> int \<Rightarrow> int \<Rightarrow> int \<Rightarrow> (int \<times> 'b) option) \<Rightarrow> ('b \<Rightarrow> int \<Rightarrow> int \<Rightarrow> (int \<times> 'b) option) \<Rightarrow>
    (int \<times> int option) list \<Rightarrow> (int \<Rightarrow> int) \<Rightarrow> 'b \<Rightarrow> ((int \<Rightarrow> int) \<times> 'b) option" where
  "event_ops eset edel [] ndx b = Some (ndx, b)"
| "event_ops eset edel ((fd, eo) # ops) ndx b = do {
     (k, b) \<leftarrow> (case eo of Some e \<Rightarrow> eset b (ndx fd) fd e | None \<Rightarrow> edel b (ndx fd) fd);
     event_ops eset edel ops (ndx(fd := k)) b }"

fun event_spec :: "(int \<times> int option) list \<Rightarrow> (int \<Rightarrow> int option) \<Rightarrow> int \<Rightarrow> int option" where
  "event_spec [] m = m"
| "event_spec ((fd, eo) # ops) m = event_spec ops (m(fd := map_option poll_events eo))"

context event_backend
begin

lemma op_law:
  assumes "ok b" and "valid b fd"
  shows "\<exists>b'. (case eo of Some e \<Rightarrow> eset b (index b fd) fd e | None \<Rightarrow> edel b (index b fd) fd) = Some (index b' fd, b') \<and> ok b' \<and>
    valid b' = valid b \<and> (\<forall>g. valid b g \<longrightarrow> interest b' g = ((interest b)(fd := map_option poll_events eo)) g \<and> (g \<noteq> fd \<longrightarrow> index b' g = index b g))"
proof (cases eo)
  case None
  with del_law [OF assms] show ?thesis by auto
next
  case (Some e)
  with set_law [OF assms, of e] show ?thesis by auto
qed

lemma ops_follow:
  assumes "ok b" and "\<forall>(fd, eo) \<in> set ops. valid b fd" and "\<forall>g. valid b g \<longrightarrow> ndx g = index b g"
    and "\<forall>g. valid b g \<longrightarrow> m g = interest b g"
  shows "\<exists>ndx' b'. event_ops eset edel ops ndx b = Some (ndx', b') \<and> ok b' \<and> valid b' = valid b \<and>
    (\<forall>g. valid b g \<longrightarrow> ndx' g = index b' g \<and> interest b' g = event_spec ops m g)"
  using assms
proof (induction ops arbitrary: b ndx m)
  case Nil
  then show ?case by simp
next
  case (Cons op ops)
  obtain fd eo where op: "op = (fd, eo)" by (cases op)
  then have v: "valid b fd" using Cons.prems(2) by simp
  from op_law [OF Cons.prems(1) v, of eo] obtain b1 where
    b1: "(case eo of Some e \<Rightarrow> eset b (index b fd) fd e | None \<Rightarrow> edel b (index b fd) fd) = Some (index b1 fd, b1)" "ok b1" "valid b1 = valid b"
      "\<forall>g. valid b g \<longrightarrow> interest b1 g = ((interest b)(fd := map_option poll_events eo)) g \<and> (g \<noteq> fd \<longrightarrow> index b1 g = index b g)" by blast
  have nd: "ndx fd = index b fd" using Cons.prems(3) v by blast
  have step: "event_ops eset edel (op # ops) ndx b = event_ops eset edel ops (ndx(fd := index b1 fd)) b1"
    unfolding op event_ops.simps nd b1(1) by simp
  have "\<exists>ndx' b'. event_ops eset edel ops (ndx(fd := index b1 fd)) b1 = Some (ndx', b') \<and> ok b' \<and> valid b' = valid b1 \<and>
      (\<forall>g. valid b1 g \<longrightarrow> ndx' g = index b' g \<and> interest b' g = event_spec ops (m(fd := map_option poll_events eo)) g)"
    by (rule Cons.IH [OF b1(2)]) (use Cons.prems(2-4) b1(3,4) in auto)
  then show ?case using step op b1(3) by simp
qed

end

section \<open>The slots of \<open>poll\<close>\<close>

text \<open>The slots in use as pairs; a free one has the descriptor -1.\<close>

definition slots :: "fdevents \<Rightarrow> (int \<times> int) list" where
  "slots ev = map (\<lambda>po. case po of Some p \<Rightarrow> (pfd p, pevents p) | None \<Rightarrow> (-1, 0)) (take (pused ev) (pollfds ev))"

definition slot_at :: "(int \<times> int) list \<Rightarrow> nat \<Rightarrow> int \<times> int \<Rightarrow> bool" where
  "slot_at sl i p \<longleftrightarrow> i < length sl \<and> sl ! i = p"

fun find_slot :: "(int \<times> int) list \<Rightarrow> int \<Rightarrow> nat \<Rightarrow> (nat \<times> int) option" where
  "find_slot [] fd i = None"
| "find_slot (p # sl) fd i = (if fst p = fd then Some (i, snd p) else find_slot sl fd (i + 1))"

definition slot_index :: "(int \<times> int) list \<Rightarrow> int \<Rightarrow> int" where
  "slot_index sl fd = (case find_slot sl fd 0 of None \<Rightarrow> -1 | Some (i, e) \<Rightarrow> int i)"

definition slot_events :: "(int \<times> int) list \<Rightarrow> int \<Rightarrow> int option" where
  "slot_events sl fd = map_option snd (find_slot sl fd 0)"

definition unique_slots :: "(int \<times> int) list \<Rightarrow> bool" where
  "unique_slots sl \<longleftrightarrow> (\<forall>i j fd e e'. slot_at sl i (fd, e) \<longrightarrow> slot_at sl j (fd, e') \<longrightarrow> fd \<noteq> -1 \<longrightarrow> i = j)"

lemma slot_at_update: "k < length sl \<Longrightarrow> slot_at (sl[k := p]) i q \<longleftrightarrow> (if i = k then q = p else slot_at sl i q)"
  by (auto simp: slot_at_def)

lemma slot_at_append: "slot_at (sl @ [p]) i q \<longleftrightarrow> slot_at sl i q \<or> i = length sl \<and> q = p"
  by (auto simp: slot_at_def nth_append)

lemma find_slot_Some: "find_slot sl fd n = Some (k, e) \<Longrightarrow> n \<le> k \<and> slot_at sl (k - n) (fd, e)"
proof (induction sl arbitrary: n)
  case (Cons p sl)
  show ?case
  proof (cases "fst p = fd")
    case False
    with Cons.prems have "find_slot sl fd (Suc n) = Some (k, e)" by simp
    from Cons.IH [OF this] have "Suc n \<le> k" "slot_at sl (k - Suc n) (fd, e)" by simp_all
    moreover from this have "k - n = Suc (k - Suc n)" by simp
    ultimately show ?thesis by (simp add: slot_at_def)
  qed (use Cons.prems in \<open>auto simp: slot_at_def\<close>)
qed simp

lemma find_slot_None: "find_slot sl fd n = None \<Longrightarrow> \<not> slot_at sl i (fd, e)"
proof (induction sl arbitrary: n i)
  case (Cons p sl)
  then have "fst p \<noteq> fd" "find_slot sl fd (n + 1) = None" by (auto split: if_splits)
  with Cons.IH [of "n + 1" "i - 1"] show ?case by (cases i) (auto simp: slot_at_def)
qed (simp add: slot_at_def)

lemma slot_found:
  assumes "unique_slots sl" and "slot_at sl i (fd, e)" and "fd \<noteq> -1"
  shows "slot_index sl fd = int i \<and> slot_events sl fd = Some e"
proof (cases "find_slot sl fd 0")
  case None
  with find_slot_None [OF this] assms(2) show ?thesis by blast
next
  case (Some r)
  obtain k e' where r: "r = (k, e')" by (cases r)
  from find_slot_Some [OF Some [unfolded r]] have k: "slot_at sl k (fd, e')" by simp
  with assms have "k = i" unfolding unique_slots_def by blast
  with k assms(2) have "e' = e" by (simp add: slot_at_def)
  with \<open>k = i\<close> Some r show ?thesis by (simp add: slot_index_def slot_events_def)
qed

lemma slot_absent:
  assumes "\<And>i e. \<not> slot_at sl i (fd, e)"
  shows "slot_index sl fd = -1 \<and> slot_events sl fd = None"
proof (cases "find_slot sl fd 0")
  case (Some r)
  obtain k e' where r: "r = (k, e')" by (cases r)
  from find_slot_Some [OF Some [unfolded r]] assms show ?thesis by blast
qed (simp add: slot_index_def slot_events_def)

lemma slot_index_cases:
  assumes "unique_slots sl" and "fd \<noteq> -1"
  obtains (absent) "\<And>i e. \<not> slot_at sl i (fd, e)" "slot_index sl fd = -1"
  | (found) i e where "slot_at sl i (fd, e)" "slot_index sl fd = int i"
  using assms slot_found slot_absent by metis

lemma slot_frame:
  assumes "unique_slots sl" "unique_slots sl'" "g \<noteq> -1" "\<And>i e. slot_at sl' i (g, e) \<longleftrightarrow> slot_at sl i (g, e)"
  shows "slot_index sl' g = slot_index sl g \<and> slot_events sl' g = slot_events sl g"
proof (cases "\<exists>i e. slot_at sl i (g, e)")
  case True
  then obtain i e where "slot_at sl i (g, e)" "slot_at sl' i (g, e)" using assms(4) by blast
  with slot_found [OF assms(1) _ assms(3)] slot_found [OF assms(2) _ assms(3)] show ?thesis by auto
next
  case False
  then have "\<And>i e. \<not> slot_at sl i (g, e)" "\<And>i e. \<not> slot_at sl' i (g, e)" using assms(4) by blast+
  with slot_absent [of sl g] slot_absent [of sl' g] show ?thesis by simp
qed

text \<open>What a slot gets, in the three ways \<open>event_set\<close> and \<open>event_del\<close> change the slots.\<close>

lemma unique_update:
  assumes "unique_slots sl" "k < length sl" "\<And>i e'. slot_at sl i (fd, e') \<Longrightarrow> i = k"
  shows "unique_slots (sl[k := (fd, e)])"
  using assms unfolding unique_slots_def by (auto simp: slot_at_update split: if_splits)

lemma unique_append:
  assumes "unique_slots sl" "\<And>i e'. \<not> slot_at sl i (fd, e')"
  shows "unique_slots (sl @ [(fd, e)])"
  using assms unfolding unique_slots_def by (auto simp: slot_at_append)

lemma unique_free:
  assumes "unique_slots sl" "k < length sl"
  shows "unique_slots (sl[k := (-1, e)])"
  using assms unfolding unique_slots_def by (auto simp: slot_at_update split: if_splits)

definition poll_ok :: "fdevents \<Rightarrow> bool" where
  "poll_ok ev \<longleftrightarrow> pused ev \<le> length (pollfds ev) \<and> (\<forall>i < pused ev. pollfds ev ! i \<noteq> None) \<and>
     unused_used ev \<le> length (unused_ptr ev) \<and>
     (\<exists>us. take (unused_used ev) (unused_ptr ev) = map Some us \<and> distinct us \<and>
        (\<forall>i. i \<in> set us \<longleftrightarrow> (\<exists>e. slot_at (slots ev) i (-1, e)))) \<and>
     unique_slots (slots ev)"

lemma slots_length: "poll_ok ev \<Longrightarrow> length (slots ev) = pused ev"
  by (simp add: slots_def poll_ok_def)

lemma slot_atD:
  assumes "poll_ok ev" and "slot_at (slots ev) i (fd, e)"
  shows "\<exists>p. poll_slot ev (int i) = Some p \<and> pfd p = fd \<and> pevents p = e \<and> i < pused ev \<and> i < length (pollfds ev)"
  using assms slots_length [OF assms(1)] by (fastforce simp: slot_at_def slots_def poll_ok_def poll_slot_def)

lemma slots_change:
  assumes "poll_ok ev" and "k < pused ev" and "ps = (pollfds ev)[k := Some p]"
  shows "slots (ev\<lparr>pollfds := ps\<rparr>) = (slots ev)[k := (pfd p, pevents p)]"
  using assms by (simp add: slots_def take_update_swap map_update poll_ok_def)

definition poll_valid :: "fdevents \<Rightarrow> int \<Rightarrow> bool" where
  "poll_valid ev fd \<longleftrightarrow> 0 \<le> fd"

text \<open>A step that keeps the list of free slots right.\<close>

lemma poll_okI:
  assumes "pused ev \<le> length (pollfds ev)" "\<And>i. i < pused ev \<Longrightarrow> pollfds ev ! i \<noteq> None" "unused_used ev \<le> length (unused_ptr ev)"
    "take (unused_used ev) (unused_ptr ev) = map Some us" "distinct us" "\<And>i. i \<in> set us \<longleftrightarrow> (\<exists>e. slot_at (slots ev) i (-1, e))"
    "unique_slots (slots ev)"
  shows "poll_ok ev"
  using assms unfolding poll_ok_def by blast

lemma poll_okD:
  assumes "poll_ok ev"
  obtains us where "pused ev \<le> length (pollfds ev)" "\<And>i. i < pused ev \<Longrightarrow> pollfds ev ! i \<noteq> None" "unused_used ev \<le> length (unused_ptr ev)"
    "take (unused_used ev) (unused_ptr ev) = map Some us" "distinct us" "length us = unused_used ev"
    "\<And>i. i \<in> set us \<longleftrightarrow> (\<exists>e. slot_at (slots ev) i (-1, e))" "unique_slots (slots ev)"
proof -
  from assms obtain us where us: "take (unused_used ev) (unused_ptr ev) = map Some us" "distinct us"
      "\<forall>i. i \<in> set us \<longleftrightarrow> (\<exists>e. slot_at (slots ev) i (-1, e))" and r: "unused_used ev \<le> length (unused_ptr ev)"
    unfolding poll_ok_def by blast
  have "length us = length (take (unused_used ev) (unused_ptr ev))" using us(1) by simp
  then have "length us = unused_used ev" using r by simp
  with that us r assms show thesis unfolding poll_ok_def by blast
qed

lemma poll_change_known:
  assumes ok: "poll_ok ev" and at: "slot_at (slots ev) k (fd, e0)" and fd: "0 \<le> fd"
  shows "\<exists>ev'. fdevent_poll_event_set ev (int k) fd e = Some (int k, ev') \<and> poll_ok ev' \<and> slots ev' = (slots ev)[k := (fd, poll_events e)]"
proof -
  from slot_atD [OF ok at] obtain p where p: "poll_slot ev (int k) = Some p" "pfd p = fd" "k < pused ev" "k < length (pollfds ev)" by blast
  define ev' where "ev' = ev\<lparr>pollfds := (pollfds ev)[k := Some (p\<lparr>pevents := poll_events e\<rparr>)]\<rparr>"
  have sl: "slots ev' = (slots ev)[k := (fd, poll_events e)]" unfolding ev'_def using slots_change [OF ok p(3) refl] p(2) by simp
  obtain us where us: "pused ev \<le> length (pollfds ev)" "\<And>i. i < pused ev \<Longrightarrow> pollfds ev ! i \<noteq> None" "unused_used ev \<le> length (unused_ptr ev)"
    "take (unused_used ev) (unused_ptr ev) = map Some us" "distinct us" "length us = unused_used ev"
    "\<And>i. i \<in> set us \<longleftrightarrow> (\<exists>e. slot_at (slots ev) i (-1, e))" "unique_slots (slots ev)" using poll_okD [OF ok] by blast
  have k: "k < length (slots ev)" using at by (simp add: slot_at_def)
  have fd1: "fd \<noteq> -1" using fd by simp
  have "k \<notin> set us" using us(7) at fd by (auto simp: slot_at_def)
  then have free: "i \<in> set us \<longleftrightarrow> (\<exists>e. slot_at (slots ev') i (-1, e))" for i
    unfolding sl using us(7) fd k by (auto simp: slot_at_update)
  have nth: "(pollfds ev)[k := Some (p\<lparr>pevents := poll_events e\<rparr>)] ! i \<noteq> None" if "i < pused ev" for i
    using that us(1,2) by (cases "i = k") simp_all
  have "unique_slots (slots ev')" unfolding sl
    by (rule unique_update [OF us(8) k]) (use us(8) at fd1 in \<open>auto simp: unique_slots_def\<close>)
  then have "poll_ok ev'"
    by (intro poll_okI [where us = us]) (use us(1,3-5) nth free in \<open>auto simp: ev'_def simp del: not_None_eq\<close>)
  moreover have "fdevent_poll_event_set ev (int k) fd e = Some (int k, ev')"
    using p by (simp add: fdevent_poll_event_set_def ev'_def)
  ultimately show ?thesis using sl by blast
qed

lemma poll_change_reuse:
  assumes ok: "poll_ok ev" and absent: "\<And>i e. \<not> slot_at (slots ev) i (fd, e)" and fd: "0 \<le> fd" and u: "unused_used ev > 0"
  shows "\<exists>ev' k. fdevent_poll_event_set ev (-1) fd e = Some (int k, ev') \<and> poll_ok ev' \<and> slots ev' = (slots ev)[k := (fd, poll_events e)] \<and>
    k < length (slots ev) \<and> (\<exists>e. slot_at (slots ev) k (-1, e))"
proof -
  obtain us where us: "pused ev \<le> length (pollfds ev)" "\<And>i. i < pused ev \<Longrightarrow> pollfds ev ! i \<noteq> None" "unused_used ev \<le> length (unused_ptr ev)"
    "take (unused_used ev) (unused_ptr ev) = map Some us" "distinct us" "length us = unused_used ev"
    "\<And>i. i \<in> set us \<longleftrightarrow> (\<exists>e. slot_at (slots ev) i (-1, e))" "unique_slots (slots ev)" using poll_okD [OF ok] by blast
  from u us(6) obtain vs k where vs: "us = vs @ [k]" by (metis length_greater_0_conv rev_exhaust)
  then have n: "unused_used ev = Suc (length vs)" using us(6) by simp
  have tk: "take (length vs) (unused_ptr ev) = map Some vs" "unused_ptr ev ! length vs = Some k"
    using us(4) us(3) n vs by (simp_all add: take_Suc_conv_app_nth)
  from us(7) [of k] vs obtain e0 where at: "slot_at (slots ev) k (-1, e0)" by auto
  from slot_atD [OF ok at] obtain p where p: "poll_slot ev (int k) = Some p" "k < pused ev" "k < length (pollfds ev)" by blast
  define q where "q = \<lparr>pfd = fd, pevents = poll_events e, prevents = prevents p\<rparr>"
  define ev' where "ev' = ev\<lparr>unused_used := length vs, pollfds := (pollfds ev)[k := Some q]\<rparr>"
  have "slots ev' = slots (ev\<lparr>pollfds := (pollfds ev)[k := Some q]\<rparr>)" by (simp add: slots_def ev'_def)
  then have sl: "slots ev' = (slots ev)[k := (fd, poll_events e)]" using slots_change [OF ok p(2) refl, of q] by (simp add: q_def)
  have k: "k < length (slots ev)" using at by (simp add: slot_at_def)
  have "k \<notin> set vs" using us(5) vs by simp
  then have free: "i \<in> set vs \<longleftrightarrow> (\<exists>e. slot_at (slots ev') i (-1, e))" for i
    unfolding sl using us(7) [of i] vs fd k by (auto simp: slot_at_update)
  have nth: "(pollfds ev)[k := Some q] ! i \<noteq> None" if "i < pused ev" for i
    using that us(1,2) by (cases "i = k") simp_all
  have "unique_slots (slots ev')" unfolding sl by (rule unique_update [OF us(8) k]) (use absent in blast)
  then have "poll_ok ev'"
    by (intro poll_okI [where us = vs]) (use us(1,3,5) nth tk free n vs in \<open>auto simp: ev'_def simp del: not_None_eq\<close>)
  moreover have "mread (length vs) 1 (unused_ptr ev) = Some [Some k]"
    using tk(2) us(3) n by (simp add: mread_def Cons_nth_drop_Suc [symmetric])
  then have "fdevent_poll_event_set ev (-1) fd e = Some (int k, ev')"
    using n p by (simp add: fdevent_poll_event_set_def fill_slot_def ev'_def q_def poll_slot_def Let_def)
  ultimately show ?thesis using sl k at by blast
qed

lemma pollfds_grow_slots:
  assumes ok: "poll_ok ev"
  shows "pused ev < length (pollfds (pollfds_grow ev)) \<and> take (pused ev) (pollfds (pollfds_grow ev)) = take (pused ev) (pollfds ev)"
  using assms by (auto simp: pollfds_grow_def poll_ok_def)

lemma poll_change_new:
  assumes ok: "poll_ok ev" and absent: "\<And>i e. \<not> slot_at (slots ev) i (fd, e)" and fd: "0 \<le> fd" and u: "unused_used ev = 0"
  shows "\<exists>ev'. fdevent_poll_event_set ev (-1) fd e = Some (int (length (slots ev)), ev') \<and> poll_ok ev' \<and> slots ev' = slots ev @ [(fd, poll_events e)]"
proof -
  obtain us where us: "pused ev \<le> length (pollfds ev)" "\<And>i. i < pused ev \<Longrightarrow> pollfds ev ! i \<noteq> None" "unused_used ev \<le> length (unused_ptr ev)"
    "take (unused_used ev) (unused_ptr ev) = map Some us" "distinct us" "length us = unused_used ev"
    "\<And>i. i \<in> set us \<longleftrightarrow> (\<exists>e. slot_at (slots ev) i (-1, e))" "unique_slots (slots ev)" using poll_okD [OF ok] by blast
  define n where "n = pused ev"
  define ps where "ps = pollfds (pollfds_grow ev)"
  have ps: "n < length ps" "take n ps = take n (pollfds ev)" using pollfds_grow_slots [OF ok] by (simp_all add: n_def ps_def)
  have g: "pollfds_grow ev = ev\<lparr>pollfds := ps\<rparr>" by (simp add: pollfds_grow_def ps_def)
  define q where "q = \<lparr>pfd = fd, pevents = poll_events e, prevents = (case ps ! n of Some p \<Rightarrow> prevents p | None \<Rightarrow> None)\<rparr>"
  define ev' where "ev' = ev\<lparr>pollfds := ps[n := Some q], pused := n + 1\<rparr>"
  have run: "fdevent_poll_event_set ev (-1) fd e = Some (int n, ev')"
    using ps(1) u by (simp add: fdevent_poll_event_set_def fill_slot_def g ev'_def q_def n_def [symmetric] Let_def)
  have tk: "take (n + 1) (ps[n := Some q]) = take n (pollfds ev) @ [Some q]"
    using ps by (simp add: take_Suc_conv_app_nth)
  have sl: "slots ev' = slots ev @ [(fd, poll_events e)]"
    using tk by (simp add: slots_def ev'_def n_def q_def)
  have nth: "ps[n := Some q] ! i \<noteq> None" if "i < n + 1" for i
  proof (cases "i = n")
    case False
    then have "ps ! i = pollfds ev ! i" using that ps(2) by (metis less_Suc_eq nth_take Suc_eq_plus1)
    with False that us(2) show ?thesis by (simp add: n_def)
  qed (use ps in simp)
  have e: "us = []" using us(6) u by simp
  have free: "i \<in> set us \<longleftrightarrow> (\<exists>e. slot_at (slots ev') i (-1, e))" for i
    unfolding sl using us(7) [of i] fd by (auto simp: slot_at_append)
  have "unique_slots (slots ev')" unfolding sl by (rule unique_append [OF us(8) absent])
  then have "poll_ok ev'"
    by (intro poll_okI [where us = us]) (use us ps nth free in \<open>auto simp: ev'_def\<close>)
  with run sl slots_length [OF ok] show ?thesis by (auto simp: n_def)
qed

lemma poll_change_free:
  assumes ok: "poll_ok ev" and at: "slot_at (slots ev) k (fd, e0)" and fd: "0 \<le> fd"
  shows "\<exists>ev'. fdevent_poll_event_del ev (int k) fd = Some (-1, ev') \<and> poll_ok ev' \<and> slots ev' = (slots ev)[k := (-1, e0)]"
proof -
  from slot_atD [OF ok at] obtain p where p: "poll_slot ev (int k) = Some p" "pfd p = fd" "pevents p = e0" "k < pused ev" "k < length (pollfds ev)"
    by blast
  obtain us where us: "pused ev \<le> length (pollfds ev)" "\<And>i. i < pused ev \<Longrightarrow> pollfds ev ! i \<noteq> None" "unused_used ev \<le> length (unused_ptr ev)"
    "take (unused_used ev) (unused_ptr ev) = map Some us" "distinct us" "length us = unused_used ev"
    "\<And>i. i \<in> set us \<longleftrightarrow> (\<exists>e. slot_at (slots ev) i (-1, e))" "unique_slots (slots ev)" using poll_okD [OF ok] by blast
  define ev1 where "ev1 = ev\<lparr>pollfds := (pollfds ev)[k := Some (p\<lparr>pfd := -1\<rparr>)]\<rparr>"
  define u where "u = unused_ptr (unused_grow ev1)"
  have u: "unused_used ev < length u" "take (unused_used ev) u = map Some us"
    using us(3,4) by (auto simp: u_def unused_grow_def ev1_def)
  have g: "unused_grow ev1 = ev1\<lparr>unused_ptr := u\<rparr>" by (simp add: unused_grow_def u_def)
  define u' where "u' = take (unused_used ev) u @ Some k # drop (Suc (unused_used ev)) u"
  define ev' where "ev' = ev1\<lparr>unused_ptr := u', unused_used := unused_used ev + 1\<rparr>"
  have mw: "mwrite (unused_used ev) [Some k] u = Some u'" using u(1) by (simp add: mwrite_def u'_def)
  have u': "take (unused_used ev + 1) u' = map Some (us @ [k])" "length u' = length u"
    using u us(6) by (simp_all add: u'_def)
  have "slots ev' = slots ev1" by (simp add: slots_def ev'_def)
  then have sl: "slots ev' = (slots ev)[k := (-1, e0)]" using slots_change [OF ok p(4) refl, of "p\<lparr>pfd := -1\<rparr>"] p(3) by (simp add: ev1_def)
  have k: "k < length (slots ev)" using at by (simp add: slot_at_def)
  have "k \<notin> set us" using us(7) at fd by (auto simp: slot_at_def)
  then have free: "i \<in> set (us @ [k]) \<longleftrightarrow> (\<exists>e. slot_at (slots ev') i (-1, e))" for i
    unfolding sl using us(7) [of i] k by (auto simp: slot_at_update)
  have nth: "(pollfds ev)[k := Some (p\<lparr>pfd := -1\<rparr>)] ! i \<noteq> None" if "i < pused ev" for i
    using that us(1,2) by (cases "i = k") simp_all
  have "unique_slots (slots ev')" unfolding sl by (rule unique_free [OF us(8) k])
  then have "poll_ok ev'"
    by (intro poll_okI [where us = "us @ [k]"])
       (use us(1,5) nth free u u' \<open>k \<notin> set us\<close> in \<open>auto simp: ev'_def ev1_def simp del: not_None_eq\<close>)
  moreover have "fdevent_poll_event_del ev (int k) fd = Some (-1, ev')"
    using p mw by (simp add: fdevent_poll_event_del_def ev1_def [symmetric] g Let_def ev'_def) (simp add: ev1_def)
  ultimately show ?thesis using sl by blast
qed

interpretation poll: event_backend poll_ok poll_valid "\<lambda>ev. slot_index (slots ev)" "\<lambda>ev. slot_events (slots ev)"
  fdevent_poll_event_set fdevent_poll_event_del
proof
  fix ev fd e
  assume ok: "poll_ok ev" and "poll_valid ev fd"
  then have fd: "0 \<le> fd" "fd \<noteq> -1" by (auto simp: poll_valid_def)
  have un: "unique_slots (slots ev)" using ok by (simp add: poll_ok_def)
  have un': "poll_ok ev' \<Longrightarrow> unique_slots (slots ev')" for ev' by (simp add: poll_ok_def)
  have val: "poll_valid ev' = poll_valid ev" for ev' by (simp add: poll_valid_def fun_eq_iff)
  show "\<exists>ev'. fdevent_poll_event_set ev (slot_index (slots ev) fd) fd e = Some (slot_index (slots ev') fd, ev') \<and> poll_ok ev' \<and>
      poll_valid ev' = poll_valid ev \<and> slot_events (slots ev') fd = Some (poll_events e) \<and>
      (\<forall>g. poll_valid ev g \<longrightarrow> g \<noteq> fd \<longrightarrow> slot_index (slots ev') g = slot_index (slots ev) g \<and> slot_events (slots ev') g = slot_events (slots ev) g)"
  proof (rule slot_index_cases [OF un fd(2)])
    fix k e0
    assume at: "slot_at (slots ev) k (fd, e0)" "slot_index (slots ev) fd = int k"
    from poll_change_known [OF ok at(1) fd(1), of e] obtain ev' where
      ev': "fdevent_poll_event_set ev (int k) fd e = Some (int k, ev')" "poll_ok ev'" "slots ev' = (slots ev)[k := (fd, poll_events e)]" by blast
    have k: "k < length (slots ev)" using at(1) by (simp add: slot_at_def)
    have "slot_at (slots ev') k (fd, poll_events e)" using ev'(3) k by (simp add: slot_at_update)
    note f = slot_found [OF un' [OF ev'(2)] this fd(2)]
    have "slot_at (slots ev') i (g, e') \<longleftrightarrow> slot_at (slots ev) i (g, e')" if "g \<noteq> fd" for i g e'
      using ev'(3) k at(1) that by (auto simp: slot_at_update) (simp add: slot_at_def)
    then show ?thesis using ev' at(2) f val slot_frame [OF un un' [OF ev'(2)]] by (intro exI [of _ ev']) (auto simp: poll_valid_def)
  next
    assume at: "\<And>i e. \<not> slot_at (slots ev) i (fd, e)" "slot_index (slots ev) fd = -1"
    show ?thesis
    proof (cases "unused_used ev > 0")
      case True
      from poll_change_reuse [OF ok at(1) fd(1) True, of e] obtain ev' k e0 where
        ev': "fdevent_poll_event_set ev (-1) fd e = Some (int k, ev')" "poll_ok ev'" "slots ev' = (slots ev)[k := (fd, poll_events e)]"
          "k < length (slots ev)" "slot_at (slots ev) k (-1, e0)" by blast
      have "slot_at (slots ev') k (fd, poll_events e)" using ev'(3,4) by (simp add: slot_at_update)
      note f = slot_found [OF un' [OF ev'(2)] this fd(2)]
      have "slot_at (slots ev') i (g, e') \<longleftrightarrow> slot_at (slots ev) i (g, e')" if "g \<noteq> fd" "g \<noteq> -1" for i g e'
        using ev'(3-5) that by (auto simp: slot_at_update) (simp add: slot_at_def)
      then show ?thesis using ev' at(2) f val slot_frame [OF un un' [OF ev'(2)]] by (intro exI [of _ ev']) (auto simp: poll_valid_def)
    next
      case False
      then have z: "unused_used ev = 0" by simp
      from poll_change_new [OF ok at(1) fd(1) z, of e] obtain ev' where
        ev': "fdevent_poll_event_set ev (-1) fd e = Some (int (length (slots ev)), ev')" "poll_ok ev'" "slots ev' = slots ev @ [(fd, poll_events e)]" by blast
      have "slot_at (slots ev') (length (slots ev)) (fd, poll_events e)" using ev'(3) by (simp add: slot_at_append)
      note f = slot_found [OF un' [OF ev'(2)] this fd(2)]
      have "slot_at (slots ev') i (g, e') \<longleftrightarrow> slot_at (slots ev) i (g, e')" if "g \<noteq> fd" for i g e'
        using ev'(3) that by (auto simp: slot_at_append)
      then show ?thesis using ev' at(2) f val slot_frame [OF un un' [OF ev'(2)]] by (intro exI [of _ ev']) (auto simp: poll_valid_def)
    qed
  qed
next
  fix ev fd
  assume ok: "poll_ok ev" and "poll_valid ev fd"
  then have fd: "0 \<le> fd" "fd \<noteq> -1" by (auto simp: poll_valid_def)
  have un: "unique_slots (slots ev)" using ok by (simp add: poll_ok_def)
  have un': "poll_ok ev' \<Longrightarrow> unique_slots (slots ev')" for ev' by (simp add: poll_ok_def)
  have val: "poll_valid ev' = poll_valid ev" for ev' by (simp add: poll_valid_def fun_eq_iff)
  show "\<exists>ev'. fdevent_poll_event_del ev (slot_index (slots ev) fd) fd = Some (slot_index (slots ev') fd, ev') \<and> poll_ok ev' \<and>
      poll_valid ev' = poll_valid ev \<and> slot_events (slots ev') fd = None \<and>
      (\<forall>g. poll_valid ev g \<longrightarrow> g \<noteq> fd \<longrightarrow> slot_index (slots ev') g = slot_index (slots ev) g \<and> slot_events (slots ev') g = slot_events (slots ev) g)"
  proof (rule slot_index_cases [OF un fd(2)])
    fix k e0
    assume at: "slot_at (slots ev) k (fd, e0)" "slot_index (slots ev) fd = int k"
    from poll_change_free [OF ok at(1) fd(1)] obtain ev' where
      ev': "fdevent_poll_event_del ev (int k) fd = Some (-1, ev')" "poll_ok ev'" "slots ev' = (slots ev)[k := (-1, e0)]" by blast
    have k: "k < length (slots ev)" using at(1) by (simp add: slot_at_def)
    have gone: "\<not> slot_at (slots ev') i (fd, e')" for i e'
      using ev'(3) k un at(1) fd(2) unfolding unique_slots_def by (auto simp: slot_at_update)
    have "slot_at (slots ev') i (g, e') \<longleftrightarrow> slot_at (slots ev) i (g, e')" if "g \<noteq> fd" "g \<noteq> -1" for i g e'
      using ev'(3) k at(1) that by (auto simp: slot_at_update) (simp add: slot_at_def)
    then show ?thesis using ev' at(2) slot_absent [OF gone] val slot_frame [OF un un' [OF ev'(2)]]
      by (intro exI [of _ ev']) (auto simp: poll_valid_def)
  next
    assume at: "\<And>i e. \<not> slot_at (slots ev) i (fd, e)" "slot_index (slots ev) fd = -1"
    then show ?thesis using slot_absent [OF at(1)] ok by (intro exI [of _ ev]) (simp add: fdevent_poll_event_del_def)
  qed
qed

section \<open>The other backends and the common layer\<close>

definition select_index :: "fdevents \<Rightarrow> int \<Rightarrow> int" where
  "select_index ev fd = (if select_set_error ev fd then fd else -1)"

definition select_interest :: "fdevents \<Rightarrow> int \<Rightarrow> int option" where
  "select_interest ev fd =
     (if select_set_error ev fd
      then Some ((if select_set_read ev fd then FDEVENT_IN else 0) + (if select_set_write ev fd then FDEVENT_OUT else 0)) else None)"

interpretation sel: event_backend "\<lambda>ev :: fdevents. True" "\<lambda>ev fd. in_fd_set fd" select_index select_interest
  fdevent_select_event_set fdevent_select_event_del
  by unfold_locales (auto simp: fdevent_select_event_set_def fdevent_select_event_del_def select_index_def select_interest_def
    poll_events_def in_fd_set_def)

definition epoll_index :: "fdevents \<Rightarrow> int \<Rightarrow> int" where
  "epoll_index ev fd = (if epoll_set ev fd = None then -1 else fd)"

interpretation epoll: event_backend "\<lambda>ev :: fdevents. True" poll_valid epoll_index epoll_set
  fdevent_linux_sysepoll_event_set fdevent_linux_sysepoll_event_del
  by unfold_locales (auto simp: fdevent_linux_sysepoll_event_set_def fdevent_linux_sysepoll_event_del_def epoll_index_def poll_valid_def)

text \<open>Nodes: what is registered, and the events noted in the node.\<close>

definition node_events :: "fdevents \<Rightarrow> int \<Rightarrow> int option" where
  "node_events ev fd = Option.bind (fd_node ev fd) (map_option fn_events)"

definition backend_ok :: "fdevents \<Rightarrow> bool" where
  "backend_ok ev \<longleftrightarrow> (ftype ev = FDEVENT_HANDLER_POLL \<longrightarrow> poll_ok ev)"

definition backend_valid :: "fdevents \<Rightarrow> int \<Rightarrow> bool" where
  "backend_valid ev fd \<longleftrightarrow> node_events ev fd \<noteq> None \<and> (ftype ev = FDEVENT_HANDLER_SELECT \<longrightarrow> in_fd_set fd)"

definition fde_index :: "fdevents \<Rightarrow> int \<Rightarrow> int" where
  "fde_index ev = (case ftype ev of FDEVENT_HANDLER_SELECT \<Rightarrow> select_index ev | FDEVENT_HANDLER_POLL \<Rightarrow> slot_index (slots ev)
     | FDEVENT_HANDLER_LINUX_SYSEPOLL \<Rightarrow> epoll_index ev)"

definition fd_interest :: "fdevents \<Rightarrow> int \<Rightarrow> int option" where
  "fd_interest ev = (case ftype ev of FDEVENT_HANDLER_SELECT \<Rightarrow> select_interest ev | FDEVENT_HANDLER_POLL \<Rightarrow> slot_events (slots ev)
     | FDEVENT_HANDLER_LINUX_SYSEPOLL \<Rightarrow> epoll_set ev)"

lemma set_node_backend [simp]:
  "ftype (set_node fd n ev) = ftype ev" "slots (set_node fd n ev) = slots ev" "poll_ok (set_node fd n ev) = poll_ok ev"
  "select_index (set_node fd n ev) = select_index ev" "select_interest (set_node fd n ev) = select_interest ev"
  "epoll_index (set_node fd n ev) = epoll_index ev" "epoll_set (set_node fd n ev) = epoll_set ev"
  by (simp_all add: set_node_def slots_def poll_ok_def select_index_def select_interest_def epoll_index_def fun_eq_iff)

lemma set_node_interest [simp]: "fde_index (set_node fd n ev) = fde_index ev" "fd_interest (set_node fd n ev) = fd_interest ev"
    "backend_ok (set_node fd n ev) = backend_ok ev"
  by (simp_all add: fde_index_def fd_interest_def backend_ok_def split: fdevent_handler_t.splits)

lemma unused_grow_frame [simp]: "ftype (unused_grow ev) = ftype ev" "fdarray (unused_grow ev) = fdarray ev"
  by (simp_all add: unused_grow_def)

lemma pollfds_grow_frame [simp]: "ftype (pollfds_grow ev) = ftype ev" "fdarray (pollfds_grow ev) = fdarray ev"
  by (simp_all add: pollfds_grow_def)

lemma fill_slot_frame: "fill_slot ev k fd e = Some ev' \<Longrightarrow> ftype ev' = ftype ev \<and> fdarray ev' = fdarray ev"
  by (auto simp: fill_slot_def Let_def split: if_splits)

lemma backend_set_frame:
  assumes "backend_set ev k fd e = Some (r, ev')"
  shows "ftype ev' = ftype ev \<and> fdarray ev' = fdarray ev"
proof (cases "ftype ev")
  case FDEVENT_HANDLER_POLL
  with assms show ?thesis
    by (auto simp: backend_set_def fdevent_poll_event_set_def bind_Some_iff split: if_splits dest: fill_slot_frame)
qed (use assms in \<open>auto simp: backend_set_def fdevent_select_event_set_def fdevent_linux_sysepoll_event_set_def split: if_splits\<close>)

lemma backend_del_frame:
  assumes "backend_del ev k fd = Some (r, ev')"
  shows "ftype ev' = ftype ev \<and> fdarray ev' = fdarray ev"
proof (cases "ftype ev")
  case FDEVENT_HANDLER_POLL
  with assms show ?thesis
    by (auto simp: backend_del_def fdevent_poll_event_del_def bind_Some_iff Let_def split: if_splits)
qed (use assms in \<open>auto simp: backend_del_def fdevent_select_event_del_def fdevent_linux_sysepoll_event_del_def split: if_splits\<close>)

lemma valid_node:
  assumes "backend_valid ev fd"
  shows "\<exists>n. fd_node ev fd = Some (Some n) \<and> 0 \<le> fd \<and> nat fd < length (fdarray ev)"
  using assms by (auto simp: backend_valid_def node_events_def fd_node_def split: if_splits)

text \<open>The laws of the three backends, for the one that is in use.\<close>

lemma backend_set_law:
  assumes "backend_ok ev" and "backend_valid ev fd"
  shows "\<exists>ev'. backend_set ev (fde_index ev fd) fd e = Some (fde_index ev' fd, ev') \<and> backend_ok ev' \<and> fd_interest ev' fd = Some (poll_events e) \<and>
    (\<forall>g. backend_valid ev g \<longrightarrow> g \<noteq> fd \<longrightarrow> fde_index ev' g = fde_index ev g \<and> fd_interest ev' g = fd_interest ev g)"
proof -
  from valid_node [OF assms(2)] have fd: "poll_valid ev fd" by (auto simp: poll_valid_def)
  have pv: "poll_valid ev g" if "backend_valid ev g" for g using valid_node [OF that] by (auto simp: poll_valid_def)
  show ?thesis
  proof (cases "ftype ev")
    case FDEVENT_HANDLER_SELECT
    then have "in_fd_set fd" using assms(2) by (simp add: backend_valid_def)
    from sel.set_law [OF TrueI this, of ev e] obtain ev' where
      ev': "fdevent_select_event_set ev (select_index ev fd) fd e = Some (select_index ev' fd, ev')" "select_interest ev' fd = Some (poll_events e)"
        "\<forall>g. in_fd_set g \<longrightarrow> g \<noteq> fd \<longrightarrow> select_index ev' g = select_index ev g \<and> select_interest ev' g = select_interest ev g" by blast
    then have "backend_set ev (select_index ev fd) fd e = Some (select_index ev' fd, ev')" using FDEVENT_HANDLER_SELECT by (simp add: backend_set_def)
    with backend_set_frame [OF this] ev' FDEVENT_HANDLER_SELECT show ?thesis
      by (intro exI [of _ ev']) (simp add: fde_index_def fd_interest_def backend_ok_def backend_valid_def)
  next
    case FDEVENT_HANDLER_POLL
    then have "poll_ok ev" using assms(1) by (simp add: backend_ok_def)
    from poll.set_law [OF this fd, of e] obtain ev' where
      ev': "fdevent_poll_event_set ev (slot_index (slots ev) fd) fd e = Some (slot_index (slots ev') fd, ev')" "poll_ok ev'"
        "slot_events (slots ev') fd = Some (poll_events e)"
        "\<forall>g. poll_valid ev g \<longrightarrow> g \<noteq> fd \<longrightarrow> slot_index (slots ev') g = slot_index (slots ev) g \<and> slot_events (slots ev') g = slot_events (slots ev) g"
      by blast
    then have "backend_set ev (slot_index (slots ev) fd) fd e = Some (slot_index (slots ev') fd, ev')" using FDEVENT_HANDLER_POLL by (simp add: backend_set_def)
    with backend_set_frame [OF this] ev' FDEVENT_HANDLER_POLL pv show ?thesis
      by (intro exI [of _ ev']) (simp add: fde_index_def fd_interest_def backend_ok_def)
  next
    case FDEVENT_HANDLER_LINUX_SYSEPOLL
    from epoll.set_law [OF TrueI fd, of e] obtain ev' where
      ev': "fdevent_linux_sysepoll_event_set ev (epoll_index ev fd) fd e = Some (epoll_index ev' fd, ev')" "epoll_set ev' fd = Some (poll_events e)"
        "\<forall>g. poll_valid ev g \<longrightarrow> g \<noteq> fd \<longrightarrow> epoll_index ev' g = epoll_index ev g \<and> epoll_set ev' g = epoll_set ev g" by blast
    then have "backend_set ev (epoll_index ev fd) fd e = Some (epoll_index ev' fd, ev')" using FDEVENT_HANDLER_LINUX_SYSEPOLL by (simp add: backend_set_def)
    with backend_set_frame [OF this] ev' FDEVENT_HANDLER_LINUX_SYSEPOLL pv show ?thesis
      by (intro exI [of _ ev']) (simp add: fde_index_def fd_interest_def backend_ok_def)
  qed
qed

lemma backend_del_law:
  assumes "backend_ok ev" and "backend_valid ev fd"
  shows "\<exists>ev'. backend_del ev (fde_index ev fd) fd = Some (fde_index ev' fd, ev') \<and> backend_ok ev' \<and> fd_interest ev' fd = None \<and>
    (\<forall>g. backend_valid ev g \<longrightarrow> g \<noteq> fd \<longrightarrow> fde_index ev' g = fde_index ev g \<and> fd_interest ev' g = fd_interest ev g)"
proof -
  from valid_node [OF assms(2)] have fd: "poll_valid ev fd" by (auto simp: poll_valid_def)
  have pv: "poll_valid ev g" if "backend_valid ev g" for g using valid_node [OF that] by (auto simp: poll_valid_def)
  show ?thesis
  proof (cases "ftype ev")
    case FDEVENT_HANDLER_SELECT
    then have "in_fd_set fd" using assms(2) by (simp add: backend_valid_def)
    from sel.del_law [OF TrueI this, of ev] obtain ev' where
      ev': "fdevent_select_event_del ev (select_index ev fd) fd = Some (select_index ev' fd, ev')" "select_interest ev' fd = None"
        "\<forall>g. in_fd_set g \<longrightarrow> g \<noteq> fd \<longrightarrow> select_index ev' g = select_index ev g \<and> select_interest ev' g = select_interest ev g" by blast
    then have "backend_del ev (select_index ev fd) fd = Some (select_index ev' fd, ev')" using FDEVENT_HANDLER_SELECT by (simp add: backend_del_def)
    with backend_del_frame [OF this] ev' FDEVENT_HANDLER_SELECT show ?thesis
      by (intro exI [of _ ev']) (simp add: fde_index_def fd_interest_def backend_ok_def backend_valid_def)
  next
    case FDEVENT_HANDLER_POLL
    then have "poll_ok ev" using assms(1) by (simp add: backend_ok_def)
    from poll.del_law [OF this fd] obtain ev' where
      ev': "fdevent_poll_event_del ev (slot_index (slots ev) fd) fd = Some (slot_index (slots ev') fd, ev')" "poll_ok ev'"
        "slot_events (slots ev') fd = None"
        "\<forall>g. poll_valid ev g \<longrightarrow> g \<noteq> fd \<longrightarrow> slot_index (slots ev') g = slot_index (slots ev) g \<and> slot_events (slots ev') g = slot_events (slots ev) g"
      by blast
    then have "backend_del ev (slot_index (slots ev) fd) fd = Some (slot_index (slots ev') fd, ev')" using FDEVENT_HANDLER_POLL by (simp add: backend_del_def)
    with backend_del_frame [OF this] ev' FDEVENT_HANDLER_POLL pv show ?thesis
      by (intro exI [of _ ev']) (simp add: fde_index_def fd_interest_def backend_ok_def)
  next
    case FDEVENT_HANDLER_LINUX_SYSEPOLL
    from epoll.del_law [OF TrueI fd] obtain ev' where
      ev': "fdevent_linux_sysepoll_event_del ev (epoll_index ev fd) fd = Some (epoll_index ev' fd, ev')" "epoll_set ev' fd = None"
        "\<forall>g. poll_valid ev g \<longrightarrow> g \<noteq> fd \<longrightarrow> epoll_index ev' g = epoll_index ev g \<and> epoll_set ev' g = epoll_set ev g" by blast
    then have "backend_del ev (epoll_index ev fd) fd = Some (epoll_index ev' fd, ev')" using FDEVENT_HANDLER_LINUX_SYSEPOLL by (simp add: backend_del_def)
    with backend_del_frame [OF this] ev' FDEVENT_HANDLER_LINUX_SYSEPOLL pv show ?thesis
      by (intro exI [of _ ev']) (simp add: fde_index_def fd_interest_def backend_ok_def)
  qed
qed

lemma set_node_valid:
  assumes "backend_valid ev fd" and "ftype ev' = ftype ev" and "fdarray ev' = fdarray ev"
  shows "backend_valid (set_node fd (Some n) ev') = backend_valid ev"
proof
  fix g
  from valid_node [OF assms(1)] obtain n0 where n0: "fd_node ev fd = Some (Some n0)" "0 \<le> fd" "nat fd < length (fdarray ev)" by blast
  show "backend_valid (set_node fd (Some n) ev') g = backend_valid ev g"
    using n0 assms(2,3)
    by (cases "g = fd") (auto simp: backend_valid_def node_events_def fd_node_def set_node_def nth_list_update nat_eq_iff split: if_splits)
qed

interpretation fdev: event_backend backend_ok backend_valid fde_index fd_interest fdevent_event_set fdevent_event_del
proof
  fix ev fd e
  assume ok: "backend_ok ev" and v: "backend_valid ev fd"
  from valid_node [OF v] obtain n where n: "fd_node ev fd = Some (Some n)" by blast
  from backend_set_law [OF ok v, of e] obtain ev' where
    ev': "backend_set ev (fde_index ev fd) fd e = Some (fde_index ev' fd, ev')" "backend_ok ev'" "fd_interest ev' fd = Some (poll_events e)"
      "\<forall>g. backend_valid ev g \<longrightarrow> g \<noteq> fd \<longrightarrow> fde_index ev' g = fde_index ev g \<and> fd_interest ev' g = fd_interest ev g" by blast
  note fr = backend_set_frame [OF ev'(1)]
  have "fd_node ev' = fd_node ev" using fr by (simp add: fd_node_def fun_eq_iff)
  with n have "fd_node ev' fd = Some (Some n)" by simp
  with ev' set_node_valid [OF v] fr
  show "\<exists>ev'. fdevent_event_set ev (fde_index ev fd) fd e = Some (fde_index ev' fd, ev') \<and> backend_ok ev' \<and> backend_valid ev' = backend_valid ev \<and>
      fd_interest ev' fd = Some (poll_events e) \<and>
      (\<forall>g. backend_valid ev g \<longrightarrow> g \<noteq> fd \<longrightarrow> fde_index ev' g = fde_index ev g \<and> fd_interest ev' g = fd_interest ev g)"
    by (intro exI [of _ "set_node fd (Some (n\<lparr>fn_events := e\<rparr>)) ev'"]) (simp add: fdevent_event_set_def)
next
  fix ev fd
  assume ok: "backend_ok ev" and v: "backend_valid ev fd"
  from valid_node [OF v] obtain n where n: "fd_node ev fd = Some (Some n)" by blast
  from backend_del_law [OF ok v] obtain ev' where
    ev': "backend_del ev (fde_index ev fd) fd = Some (fde_index ev' fd, ev')" "backend_ok ev'" "fd_interest ev' fd = None"
      "\<forall>g. backend_valid ev g \<longrightarrow> g \<noteq> fd \<longrightarrow> fde_index ev' g = fde_index ev g \<and> fd_interest ev' g = fd_interest ev g" by blast
  note fr = backend_del_frame [OF ev'(1)]
  from n ev' set_node_valid [OF v] fr
  show "\<exists>ev'. fdevent_event_del ev (fde_index ev fd) fd = Some (fde_index ev' fd, ev') \<and> backend_ok ev' \<and> backend_valid ev' = backend_valid ev \<and>
      fd_interest ev' fd = None \<and>
      (\<forall>g. backend_valid ev g \<longrightarrow> g \<noteq> fd \<longrightarrow> fde_index ev' g = fde_index ev g \<and> fd_interest ev' g = fd_interest ev g)"
    by (intro exI [of _ "set_node fd (Some (n\<lparr>fn_events := 0\<rparr>)) ev'"]) (simp add: fdevent_event_del_def)
qed

section \<open>Properties\<close>

fun register_all :: "int list \<Rightarrow> fdevents \<Rightarrow> fdevents option" where
  "register_all [] ev = Some ev"
| "register_all (fd # fds) ev = do { ev \<leftarrow> fdevent_register ev fd 0; register_all fds ev }"

lemma register_law:
  assumes "0 \<le> fd" and "nat fd < length (fdarray ev)"
  shows "\<exists>n. fdevent_register ev fd ctx = Some (set_node fd (Some n) ev) \<and>
    node_events (set_node fd (Some n) ev) g = (if g = fd then Some 0 else node_events ev g)"
  using assms
  by (auto simp: fdevent_register_def fd_node_def node_events_def set_node_def nth_list_update nat_eq_iff)

lemma register_all_law:
  assumes "\<forall>fd \<in> set fds. 0 \<le> fd \<and> nat fd < length (fdarray ev)"
  shows "\<exists>ev'. register_all fds ev = Some ev' \<and> ftype ev' = ftype ev \<and>
    fde_index ev' = fde_index ev \<and> fd_interest ev' = fd_interest ev \<and> backend_ok ev' = backend_ok ev \<and>
    (\<forall>g. node_events ev' g = (if g \<in> set fds then Some 0 else node_events ev g))"
  using assms
proof (induction fds arbitrary: ev)
  case Nil
  then show ?case by simp
next
  case (Cons fd fds)
  then have fd: "0 \<le> fd" "nat fd < length (fdarray ev)" by simp_all
  from register_law [OF this, of 0] obtain n where n: "fdevent_register ev fd 0 = Some (set_node fd (Some n) ev)" by blast
  then have ne: "node_events (set_node fd (Some n) ev) g = (if g = fd then Some 0 else node_events ev g)" for g
    using register_law [OF fd, of 0 g] by auto
  have "\<forall>x \<in> set fds. 0 \<le> x \<and> nat x < length (fdarray (set_node fd (Some n) ev))" using Cons.prems by (simp add: set_node_def)
  from Cons.IH [OF this] obtain ev' where "register_all fds (set_node fd (Some n) ev) = Some ev'" "ftype ev' = ftype ev"
      "fde_index ev' = fde_index ev" "fd_interest ev' = fd_interest ev" "backend_ok ev' = backend_ok ev"
      "\<forall>g. node_events ev' g = (if g \<in> set fds then Some 0 else node_events (set_node fd (Some n) ev) g)" by auto
  with n ne show ?case by (intro exI [of _ ev']) simp
qed

lemma fdevent_init_state:
  "backend_ok (fdevent_init maxfds ty)" "fde_index (fdevent_init maxfds ty) = (\<lambda>_. -1)" "fd_interest (fdevent_init maxfds ty) = (\<lambda>_. None)"
  by (auto simp: fdevent_init_def backend_ok_def poll_ok_def slots_def unique_slots_def slot_at_def fde_index_def fd_interest_def
      select_index_def select_interest_def epoll_index_def slot_index_def slot_events_def fun_eq_iff split: fdevent_handler_t.splits)

text \<open>C26: Whichever backend is used, whatever the order in which events of registered descriptors are set and deleted: no call
  fails, the index each caller keeps stays the right one although slots are reused, and the events waited for are for every descriptor
  the ones last set, reduced to reading and writing.\<close>

theorem events_follow_last_set:
  assumes "\<forall>fd \<in> set fds. 0 \<le> fd \<and> nat fd < maxfds" and "ty = FDEVENT_HANDLER_SELECT \<longrightarrow> maxfds \<le> 1024" and "fst ` set ops \<subseteq> set fds"
  shows "\<exists>ev ndx ev'. register_all fds (fdevent_init maxfds ty) = Some ev \<and>
    event_ops fdevent_event_set fdevent_event_del ops (\<lambda>_. -1) ev = Some (ndx, ev') \<and>
    (\<forall>fd \<in> set fds. fd_interest ev' fd = event_spec ops (\<lambda>_. None) fd)"
proof -
  have "\<forall>fd \<in> set fds. 0 \<le> fd \<and> nat fd < length (fdarray (fdevent_init maxfds ty))" using assms(1) by (simp add: fdevent_init_def)
  from register_all_law [OF this] obtain ev where ev: "register_all fds (fdevent_init maxfds ty) = Some ev" "ftype ev = ty" "backend_ok ev"
      "fde_index ev = (\<lambda>_. -1)" "fd_interest ev = (\<lambda>_. None)" "\<forall>g. node_events ev g = (if g \<in> set fds then Some 0 else node_events (fdevent_init maxfds ty) g)"
    using fdevent_init_state [of maxfds ty] by (auto simp: fdevent_init_def)
  have none: "node_events (fdevent_init maxfds ty) g = None" for g by (simp add: node_events_def fd_node_def fdevent_init_def)
  have valid: "backend_valid ev fd \<longleftrightarrow> fd \<in> set fds" for fd
    using ev(2,6) none assms(1,2) by (auto simp: backend_valid_def in_fd_set_def FD_SETSIZE_def)
  then have "\<forall>(fd, eo) \<in> set ops. backend_valid ev fd" using assms(3) by auto
  from fdev.ops_follow [OF ev(3) this, of "\<lambda>_. -1" "\<lambda>_. None"] ev(4,5) obtain ndx ev' where
    "event_ops fdevent_event_set fdevent_event_del ops (\<lambda>_. -1) ev = Some (ndx, ev')"
    "\<forall>g. backend_valid ev g \<longrightarrow> fd_interest ev' g = event_spec ops (\<lambda>_. None) g" by auto
  with ev(1) valid show ?thesis by blast
qed

theorem events_follow_last_set_witness:
  "\<exists>ev ndx ev'. register_all [3, 4] (fdevent_init 16 FDEVENT_HANDLER_POLL) = Some ev \<and>
    event_ops fdevent_event_set fdevent_event_del [(3, Some FDEVENT_IN), (4, Some FDEVENT_OUT), (3, None), (4, Some FDEVENT_IN)] (\<lambda>_. -1) ev = Some (ndx, ev') \<and>
    fd_interest ev' 3 = None \<and> fd_interest ev' 4 = Some FDEVENT_IN"
proof -
  have "poll_events FDEVENT_IN = FDEVENT_IN" by (simp add: poll_events_def has_event_def FDEVENT_IN_def FDEVENT_OUT_def)
  with events_follow_last_set [of "[3, 4]" 16 FDEVENT_HANDLER_POLL
      "[(3, Some FDEVENT_IN), (4, Some FDEVENT_OUT), (3, None), (4, Some FDEVENT_IN)]"] show ?thesis by auto
qed

end
