(* ===== verification/Header_Table.thy ===== *)
theory Header_Table imports Header_Glue begin

text \<open>
  The response header as a list of fields. \<open>headers_repr\<close> relates the array of \<open>src/src/array.c\<close>, with its recycled
  elements, to the fields in their order; \<open>response_header_overwrite\<close> and \<open>response_header_insert\<close> of
  \<open>http-header-glue.c\<close> refine the operations on the list.
\<close>

section \<open>Elements\<close>

definition string_value :: "data_unset \<Rightarrow> bstr option" where
  "string_value d = (case dvalue d of Data_String v \<Rightarrow> Some v | Data_Response v \<Rightarrow> Some v | _ \<Rightarrow> None)"

definition element_ok :: "data_unset \<Rightarrow> bool" where
  "element_ok d \<longleftrightarrow> string_value d \<noteq> None \<and> dkey d \<noteq> None"

definition field :: "data_unset \<Rightarrow> char list \<times> bstr" where
  "field d = (the (dkey d), the (string_value d))"

text \<open>What is left of earlier requests behind the elements in use: no element with a number as its key.\<close>

definition tail_ok :: "array \<Rightarrow> bool" where
  "tail_ok a \<longleftrightarrow> (\<forall>i d. used a \<le> i \<longrightarrow> i < asize a \<longrightarrow> adata a ! i = Some d \<longrightarrow>
     \<not> is_index_key d \<and> (data_type_of (dvalue d) = TYPE_STRING \<longrightarrow> string_value d \<noteq> None))"

definition headers_repr :: "array \<Rightarrow> (char list \<times> bstr) list \<Rightarrow> bool" where
  "headers_repr a fs \<longleftrightarrow> tail_ok a \<and> (\<exists>es. array_repr a es \<and> list_all element_ok es \<and> map field es = fs)"

lemma headers_repr_init: "headers_repr array_init []"
proof -
  have "tail_ok array_init" by (simp add: tail_ok_def array_init_def)
  with array_repr_init show ?thesis by (auto simp: headers_repr_def intro!: exI [of _ "[]"])
qed

definition same_name :: "char list \<Rightarrow> char list \<Rightarrow> bool" where
  "same_name j k \<longleftrightarrow> fold_key (j @ [NUL]) = fold_key (k @ [NUL])"

fun put_field :: "char list \<Rightarrow> bstr \<Rightarrow> (char list \<times> bstr) list \<Rightarrow> (char list \<times> bstr) list" where
  "put_field k v [] = [(k, v)]"
| "put_field k v ((j, w) # fs) = (if same_name j k then (j, v) # fs else (j, w) # put_field k v fs)"

definition get_field :: "(char list \<times> bstr) list \<Rightarrow> char list \<Rightarrow> bstr option" where
  "get_field fs k = map_option snd (List.find (\<lambda>f. same_name (fst f) k) fs)"

lemma get_put_field: "get_field (put_field k v fs) j = (if same_name k j then Some v else get_field fs j)"
  by (induction fs) (auto simp: get_field_def same_name_def)

lemma length_put_field: "length (put_field k v fs) \<le> length fs + 1"
  by (induction k v fs rule: put_field.induct) auto

lemma put_field_set: "f \<in> set (put_field k v fs) \<Longrightarrow> f \<in> set fs \<or> snd f = v \<and> (fst f = k \<or> fst f \<in> fst ` set fs)"
  by (induction k v fs rule: put_field.induct) (auto split: if_splits)

section \<open>The array operations\<close>

lemma tail_ok_grow: "tail_ok a \<Longrightarrow> length (adata a) = asize a \<Longrightarrow> tail_ok (array_grow a)"
  by (auto simp: tail_ok_def array_grow_def nth_append)

lemma place_key_tail:
  assumes "place_key a str n = Some b" and "tail_ok a"
  shows "tail_ok b"
proof -
  have "used b = used a + 1 \<and> asize b = asize a \<and> adata b = (adata a)[used a := Some str]"
    using assms(1) by (auto simp: place_key_def bind_Some_iff Let_def split: if_splits)
  then have "adata b ! i = adata a ! i" "used a \<le> i" "asize b = asize a" if "used b \<le> i" for i using that by simp_all
  with assms(2) show ?thesis unfolding tail_ok_def by metis
qed

lemma insert_unique_tail:
  assumes ix: "array_repr a es" and run: "array_insert_unique a str = Some (r, b)" and tail: "tail_ok a" and "\<not> is_index_key str" and "dkey str = Some k"
    and key: "plain_key k"
  shows "tail_ok b"
proof -
  have named: "name_element a str = Some (str, a)" using assms(4,5) by (simp add: name_element_def)
  obtain p where p: "array_index a es p" using ix by (auto simp: array_repr_def)
  have len: "length (adata a) = asize a" "used a = length es" using p by (simp_all add: array_index_def)
  have pk: "plain_key (key_bytes (dkey str))" using key assms(5) by (simp add: key_bytes_def plain_key_def)
  show ?thesis
  proof (cases rule: array_get_index_obtain [OF p pk])
    case (1 i n)
    from run named 1(4) obtain d where "b = a\<lparr>adata := (adata a)[i := Some d]\<rparr>" by (auto simp: array_insert_unique_def bind_Some_iff split: if_splits)
    with tail 1(1) len show ?thesis by (auto simp: tail_ok_def nth_list_update)
  next
    case (2 g n)
    from run named 2(4) have "b = a \<or> place_key (array_grow a) str n = Some b"
      by (auto simp: array_insert_unique_def bind_Some_iff split: if_splits)
    with place_key_tail tail_ok_grow [OF tail len(1)] tail show ?thesis by blast
  qed
qed

lemma unused_slot_Some:
  "unused_slot ds t i n = Some j \<Longrightarrow> i \<le> j \<and> j < i + n \<and> (\<exists>d. ds ! j = Some d \<and> data_type_of (dvalue d) = t)"
  by (induction ds t i n rule: unused_slot.induct) (auto split: option.splits if_splits)

lemma unused_element_ok:
  assumes repr: "array_repr a es" and tail: "tail_ok a" and get: "array_get_unused_element a TYPE_STRING = (e, b)"
  shows "array_repr b es \<and> tail_ok b \<and> (\<forall>d. e = Some d \<longrightarrow> \<not> is_index_key d \<and> string_value d \<noteq> None)"
proof (cases "unused_slot (adata a) TYPE_STRING (used a) (asize a - used a)")
  case None
  with get assms show ?thesis by (simp add: array_get_unused_element_def)
next
  case (Some i)
  obtain p where p: "array_index a es p" using repr by (auto simp: array_repr_def)
  have sz: "used a \<le> asize a" "length (adata a) = asize a" using p by (simp_all add: array_index_def)
  from unused_slot_Some [OF Some] sz obtain d where i: "used a \<le> i" "i < asize a" "adata a ! i = Some d" "data_type_of (dvalue d) = TYPE_STRING" by auto
  from Some get i have eb: "e = Some d" "b = a\<lparr>adata := ((adata a)[i := adata a ! used a])[used a := None]\<rparr>"
    by (auto simp: array_get_unused_element_def)
  have "array_index b es p" using p i by (auto simp: array_index_def eb(2))
  moreover have "tail_ok b" using tail i sz by (auto simp: tail_ok_def eb(2) nth_list_update split: if_splits)
  moreover have "\<not> is_index_key d" "string_value d \<noteq> None" using tail i by (auto simp: tail_ok_def)
  ultimately show ?thesis using eb(1) i(4) by (auto simp: array_repr_def)
qed

section \<open>The operations on fields\<close>

lemma same_name_ekey: "fold_key (key_bytes (Some j)) = fold_key (k @ [NUL]) \<longleftrightarrow> same_name j k"
  by (simp add: same_name_def key_bytes_def)

lemma map_field_absent:
  assumes "find_element es (k @ [NUL]) = None" and "list_all element_ok es"
  shows "put_field k v (map field es) = map field es @ [(k, v)]"
  using assms by (induction es) (auto simp: find_element_def field_def element_ok_def same_name_ekey split: if_splits)

lemma map_field_present:
  assumes "i < length es" and "fold_key (ekey (es ! i)) = fold_key (k @ [NUL])" and "list_all element_ok es"
    and "\<forall>j < i. fold_key (ekey (es ! j)) \<noteq> fold_key (k @ [NUL])"
  shows "put_field k v (map field es) = (map field es)[i := (fst (field (es ! i)), v)]"
  using assms
proof (induction es arbitrary: i)
  case (Cons e es)
  then obtain j where j: "dkey e = Some j" by (auto simp: element_ok_def)
  then have f: "field e = (j, the (string_value e))" by (simp add: field_def)
  show ?case
  proof (cases i)
    case 0
    with Cons.prems(2) j have "same_name j k" by (simp add: same_name_ekey)
    with 0 f show ?thesis by simp
  next
    case (Suc m)
    have "\<not> same_name j k" using Cons.prems(4) Suc j same_name_ekey [of j k] by (metis nth_Cons_0 zero_less_Suc)
    moreover have "\<forall>x < m. fold_key (ekey (es ! x)) \<noteq> fold_key (k @ [NUL])" using Cons.prems(4) Suc by (metis nth_Cons_Suc Suc_mono)
    ultimately show ?thesis using Cons.IH [of m] Cons.prems Suc f by simp
  qed
qed simp

lemma copy_value_into_field:
  assumes "element_ok d"
  shows "\<exists>d'. copy_value_into d (Some s) = Some d' \<and> element_ok d' \<and> field d' = (fst (field d), Some s) \<and> dkey d' = dkey d \<and> is_index_key d' = is_index_key d"
  using assms by (cases "dvalue d") (auto simp: copy_value_into_def element_ok_def string_value_def field_def)

text \<open>A new field: the recycled or fresh element is filled and appended.\<close>

lemma response_header_insert_new:
  assumes repr: "array_repr a es" and tail: "tail_ok a" and ok: "list_all element_ok es" and key: "plain_key k"
    and absent: "find_element es (k @ [NUL]) = None" and room: "length es + 1 < 2 ^ 31"
  shows "\<exists>b. response_header_insert a k (Some s) = Some b \<and> headers_repr b (map field es @ [(k, Some s)])"
proof -
  obtain e a1 where get: "array_get_unused_element a TYPE_STRING = (e, a1)" by fastforce
  note un = unused_element_ok [OF repr tail get]
  define ds where "ds = (case e of Some d \<Rightarrow> d | None \<Rightarrow> data_response_init)"
  have ds: "\<not> is_index_key ds" "string_value ds \<noteq> None"
    using un by (auto simp: ds_def data_response_init_def string_value_def split: option.splits)
  from ds obtain d where d: "copy_value_into (ds\<lparr>dkey := Some k\<rparr>) (Some s) = Some d" "dkey d = Some k" "\<not> is_index_key d" "element_ok d"
      "field d = (k, Some s)"
    by (cases "dvalue ds") (auto simp: copy_value_into_def element_ok_def string_value_def field_def)
  have a1: "array_repr a1 es" "tail_ok a1" using un by blast+
  have "find_element es (ekey d) = None" using absent d(2) by (simp add: key_bytes_def)
  then have dup: "find_element es (ekey d) = Some x \<Longrightarrow> data_type_of (dvalue x) = data_type_of (dvalue d) \<and> insert_dup x d = Some (id x)" for x by simp
  from array_insert_unique_repr [OF a1(1) d(2,3) key room dup] obtain b where
    b: "array_insert_unique a1 d = Some (0, b)" "array_repr b (upsert id d es)" by blast
  have up: "upsert id d es = es @ [d]" by (rule upsert_miss) (use absent d(2) in \<open>simp add: key_bytes_def\<close>)
  have "tail_ok b" by (rule insert_unique_tail [OF a1(1) b(1) a1(2) d(3,2) key])
  then have "headers_repr b (map field es @ [(k, Some s)])"
    using b(2) up ok d(4,5) by (auto simp: headers_repr_def intro!: exI [of _ "es @ [d]"])
  moreover have "response_header_insert a k (Some s) = Some b"
    using get d(1) b(1) by (simp add: response_header_insert_def ds_def [symmetric])
  ultimately show ?thesis by blast
qed

lemma change_element_field:
  assumes repr: "array_repr a es" and tail: "tail_ok a" and ok: "list_all element_ok es" and key: "plain_key k"
    and f: "\<And>d. element_ok d \<Longrightarrow> \<exists>d'. f d = Some d' \<and> element_ok d' \<and> field d' = (fst (field d), v) \<and> dkey d' = dkey d"
  shows "(find_element es (k @ [NUL]) = None \<and> change_element a k f = Some None) \<or>
    (\<exists>b. change_element a k f = Some (Some b) \<and> headers_repr b (put_field k v (map field es)) \<and> get_field (map field es) k \<noteq> None)"
proof -
  obtain p where ix: "array_index a es p" using repr by (auto simp: array_repr_def)
  have kb: "key_bytes (Some k) = k @ [NUL]" by (simp add: key_bytes_def)
  have pk: "plain_key (k @ [NUL])" using key by (simp add: plain_key_def)
  show ?thesis
  proof (cases rule: array_get_index_obtain [OF ix pk])
    case (1 i n)
    have e: "element_ok (es ! i)" using ok 1(1) by (auto simp: list_all_length)
    from f [OF e] obtain d' where d': "f (es ! i) = Some d'" "element_ok d'" "field d' = (fst (field (es ! i)), v)" "dkey d' = dkey (es ! i)" by blast
    define b where "b = a\<lparr>adata := (adata a)[i := Some d']\<rparr>"
    have "array_index b (es[i := d']) p" unfolding b_def by (rule array_index_update [OF ix 1(1)]) (simp add: d'(4))
    moreover have "tail_ok b" using tail ix 1(1) by (auto simp: tail_ok_def b_def nth_list_update array_index_def)
    moreover have "list_all element_ok (es[i := d'])" using ok d'(2) by (auto simp: list_all_iff dest!: set_update_subset_insert [THEN subsetD])
    moreover have "\<forall>j < i. fold_key (ekey (es ! j)) \<noteq> fold_key (k @ [NUL])"
      using array_index_unique [OF ix 1(1)] 1(1,2) by (metis less_trans nat_neq_iff)
    then have "put_field k v (map field es) = map field (es[i := d'])"
      using map_field_present [OF 1(1,2) ok] d'(3) by (simp add: map_update)
    ultimately have "headers_repr b (put_field k v (map field es))" unfolding headers_repr_def array_repr_def by auto
    moreover have "change_element a k f = Some (Some b)"
      using 1(4) array_index_slot [OF ix 1(1)] d'(1) by (simp add: change_element_def kb b_def)
    moreover have "get_field (map field es) k \<noteq> None"
    proof -
      from e obtain j where "dkey (es ! i) = Some j" by (auto simp: element_ok_def)
      with 1(2) have "same_name (fst (field (es ! i))) k" by (simp add: field_def same_name_ekey)
      with 1(1) show ?thesis by (auto simp: get_field_def find_None_iff)
    qed
    ultimately show ?thesis by blast
  next
    case (2 g n)
    then show ?thesis by (simp add: change_element_def kb)
  qed
qed

lemma response_header_overwrite_repr:
  assumes repr: "headers_repr a fs" and key: "plain_key k" and room: "length fs + 1 < 2 ^ 31" and s: "NUL \<notin> set s"
  shows "\<exists>b. response_header_overwrite a k (Some s) = Some b \<and> headers_repr b (put_field k (Some s) fs)"
proof -
  from repr obtain es where es: "array_repr a es" "tail_ok a" "list_all element_ok es" "map field es = fs" by (auto simp: headers_repr_def)
  have f: "element_ok d \<Longrightarrow> \<exists>d'. copy_value_into d (map_option cstr (Some s)) = Some d' \<and> element_ok d' \<and> field d' = (fst (field d), Some s) \<and> dkey d' = dkey d" for d
    using copy_value_into_field [of d s] s by auto
  from change_element_field [where f = "\<lambda>ds. copy_value_into ds (map_option cstr (Some s))" and v = "Some s", OF es(1-3) key] f
  have "(find_element es (k @ [NUL]) = None \<and> change_element a k (\<lambda>ds. copy_value_into ds (map_option cstr (Some s))) = Some None) \<or>
    (\<exists>b. change_element a k (\<lambda>ds. copy_value_into ds (map_option cstr (Some s))) = Some (Some b) \<and>
      headers_repr b (put_field k (Some s) (map field es)) \<and> get_field (map field es) k \<noteq> None)" by blast
  then show ?thesis
  proof (elim disjE conjE exE)
    assume absent: "find_element es (k @ [NUL]) = None" and c: "change_element a k (\<lambda>ds. copy_value_into ds (map_option cstr (Some s))) = Some None"
    have "length es + 1 < 2 ^ 31" using room es(4) by auto
    from response_header_insert_new [OF es(1-3) key absent this, of s] map_field_absent [OF absent es(3)] es(4) c show ?thesis
      by (auto simp: response_header_overwrite_def)
  next
    fix b
    assume "change_element a k (\<lambda>ds. copy_value_into ds (map_option cstr (Some s))) = Some (Some b)" "headers_repr b (put_field k (Some s) (map field es))"
    then show ?thesis using es(4) by (auto simp: response_header_overwrite_def)
  qed
qed

end
