(* ===== verification/Config_Cond.thy ===== *)
theory Config_Cond imports Connection_State Header_Table begin

text \<open>
  The conditions of the configuration (\<open>configfile-glue.c\<close> under \<open>src/src/\<close>): the blocks \<open>$HTTP["host"] == "..." { ... } else ...\<close>
  are numbered in the order of the file, know the block they are nested in (\<open>parent\<close>) and their neighbours in a
  chain of \<open>else\<close> branches (\<open>prev\<close>, \<open>next\<close>); 0 is the global block. A condition is decided at most once for a request: its
  result is kept in the cache of the connection. \<open>choice\<close> says which blocks apply; the cached evaluation gives the
  same answers once the values it needs are known.
\<close>

section \<open>Blocks\<close>

datatype config_cond_t = CONFIG_COND_UNSET | CONFIG_COND_EQ | CONFIG_COND_MATCH | CONFIG_COND_NE | CONFIG_COND_NOMATCH

text \<open>\<open>dc_regex\<close> is \<open>pcre_exec\<close> on the compiled expression: the count and the 30 numbers it writes. For an empty buffer the code
  calls it with length -1, here the value \<open>None\<close>. \<open>dc_keys\<close> are the options the block sets.\<close>

record data_config =
  dc_keys :: "char list list"
  dc_comp :: comp_key_t
  dc_cond :: config_cond_t
  dc_string :: "char list"
  dc_regex :: "bstr \<Rightarrow> int \<times> int list"
  dc_parent :: "nat option"
  dc_prev :: "nat option"
  dc_next :: "nat option"

text \<open>The two buffers of the server the conditions are checked with.\<close>

record check_bufs =
  cond_check_buf :: bstr
  tmp_buf :: bstr

section \<open>Values\<close>

definition bstr_equal :: "bstr \<Rightarrow> bstr \<Rightarrow> bool" where
  "bstr_equal v w \<longleftrightarrow> (v = None \<longleftrightarrow> w = None) \<and> length (bval v) = length (bval w) \<and> cstr (bval v) = cstr (bval w)"

text \<open>A header is looked up, its value is a string.\<close>

definition header_value :: "connection \<Rightarrow> char list \<Rightarrow> bstr option option" where
  "header_value c name = do {
     d \<leftarrow> array_get_element (headers (req c)) name;
     case d of None \<Rightarrow> Some None | Some d \<Rightarrow> do { v \<leftarrow> string_value d; Some (Some v) } }"

fun value_of :: "cond_value \<Rightarrow> check_bufs \<Rightarrow> connection \<Rightarrow> bstr option" where
  "value_of Authority_Value b c = Some (uri_authority (conuri c))"
| "value_of Check_Buf b c = Some (cond_check_buf b)"
| "value_of Empty_String b c = Some (Some [])"
| "value_of Address_Value b c = Some (dst_addr_buf c)"
| "value_of Scheme_Value b c = Some (uri_scheme (conuri c))"
| "value_of Path_Value b c = Some (uri_path (conuri c))"
| "value_of Query_Value b c = Some (uri_query (conuri c))"
| "value_of Token_Value b c = Some (srv_token (srv_socket c))"
| "value_of (Header_Value name) b c = (case header_value c name of Some (Some v) \<Rightarrow> Some v | _ \<Rightarrow> None)"
| "value_of Tmp_Buf b c = Some (tmp_buf b)"

text \<open>\<open>inet_aton\<close> of the C library: one to four numbers, the last one filling the bytes that are left; base 10, 8 or 16; a
  blank ends the text. Addresses are numbers, the first byte the highest.\<close>

definition digit_of :: "char \<Rightarrow> int" where
  "digit_of ch = (if 48 \<le> byte ch \<and> byte ch \<le> 57 then int (byte ch) - 48
     else if 97 \<le> byte ch \<and> byte ch \<le> 102 then int (byte ch) - 87
     else if 65 \<le> byte ch \<and> byte ch \<le> 70 then int (byte ch) - 55 else 16)"

definition in_base :: "int \<Rightarrow> char list \<Rightarrow> int option" where
  "in_base m ds = (if ds \<noteq> [] \<and> (\<forall>d \<in> set ds. digit_of d < m) then Some (foldl (\<lambda>n d. n * m + digit_of d) 0 ds) else None)"

definition aton_part :: "char list \<Rightarrow> int option" where
  "aton_part s = (case s of
       CHR ''0'' # x # ds \<Rightarrow> if x = CHR ''x'' \<or> x = CHR ''X'' then in_base 16 ds else in_base 8 s
     | _ \<Rightarrow> in_base 10 s)"

fun split_dots :: "char list \<Rightarrow> char list list" where
  "split_dots [] = [[]]"
| "split_dots (ch # s) = (if ch = CHR ''.'' then [] # split_dots s
     else case split_dots s of [] \<Rightarrow> [[ch]] | p # ps \<Rightarrow> (ch # p) # ps)"

fun join_parts :: "nat \<Rightarrow> int \<Rightarrow> int option list \<Rightarrow> int option" where
  "join_parts k acc [Some n] = (if n < 256 ^ k then Some (acc * 256 ^ k + n) else None)"
| "join_parts (Suc k) acc (Some n # ps) = (if n < 256 then join_parts k (acc * 256 + n) ps else None)"
| "join_parts k acc ps = None"

definition inet_aton :: "char list \<Rightarrow> 32 word option" where
  "inet_aton s = map_option of_int (join_parts 4 0 (map aton_part (split_dots (takeWhile (\<lambda>ch. \<not> is_space ch) s))))"

section \<open>One rule\<close>

text \<open>The value \<open>host\<close> is compared with: the condition and the field may have a port or not.\<close>

definition host_value :: "data_config \<Rightarrow> check_bufs \<Rightarrow> connection \<Rightarrow> cond_value \<times> check_bufs" where
  "host_value d b c = (case uri_authority (conuri c) of
       None \<Rightarrow> (Empty_String, b)
     | Some a \<Rightarrow>
         if dc_cond d = CONFIG_COND_NE \<or> dc_cond d = CONFIG_COND_EQ then (
           let ck_colon = CHR '':'' \<in> set (cstr (dc_string d)); val_colon = CHR '':'' \<in> set (cstr a) in
           if \<not> ck_colon \<and> \<not> val_colon then (Authority_Value, b)
           else if ck_colon then (Check_Buf, b\<lparr>cond_check_buf := Some (a @ '':'' @ show_int (int (srv_port (srv_socket c))))\<rparr>)
           else (Check_Buf, b\<lparr>cond_check_buf := Some (takeWhile (\<lambda>ch. ch \<noteq> CHR '':'') a)\<rparr>))
         else (Authority_Value, b))"

text \<open>A shift by a number of bits outside 0 to 31 is undefined.\<close>

definition build_netmask :: "int \<Rightarrow> 32 word option" where
  "build_netmask nm_bits =
     (if 0 \<le> 32 - nm_bits \<and> 32 - nm_bits < 32 then Some (NOT (push_bit (nat (32 - nm_bits)) 1 - 1)) else None)"

definition truth :: "bool \<Rightarrow> cond_result_t" where
  "truth q = (if q then COND_RESULT_TRUE else COND_RESULT_FALSE)"

text \<open>The address of the client and a network \<open>net/bits\<close>; the flag says that the buffer was filled with \<open>net\<close>.\<close>

definition netmask_result :: "data_config \<Rightarrow> char list \<Rightarrow> char list \<Rightarrow> 32 word \<Rightarrow> (cond_result_t \<times> bool) option" where
  "netmask_result d net bts a =
     (if bts = [] then Some (COND_RESULT_FALSE, False)
      else let (nm_bits, err) = strtol bts in
        if err \<noteq> [] then Some (COND_RESULT_FALSE, False)
        else case inet_aton net of
          None \<Rightarrow> Some (COND_RESULT_FALSE, True)
        | Some v \<Rightarrow> do {
            nm \<leftarrow> build_netmask nm_bits;
            Some (truth ((v AND nm = a AND nm) = (dc_cond d = CONFIG_COND_EQ)), True) })"

text \<open>The result, or the value to compare when there is no network.\<close>

definition remote_ip_value :: "data_config \<Rightarrow> check_bufs \<Rightarrow> connection \<Rightarrow> ((cond_value + cond_result_t) \<times> check_bufs) option" where
  "remote_ip_value d b c = (
     let s = cstr (dc_string d); net = takeWhile (\<lambda>ch. ch \<noteq> CHR ''/'') s; rest = dropWhile (\<lambda>ch. ch \<noteq> CHR ''/'') s in
     case dst_addr c of
       None \<Rightarrow> Some (Inl Address_Value, b)
     | Some a \<Rightarrow>
         if (dc_cond d = CONFIG_COND_EQ \<or> dc_cond d = CONFIG_COND_NE) \<and> rest \<noteq> [] then do {
           (r, filled) \<leftarrow> netmask_result d net (tl rest) a;
           Some (Inr r, if filled then b\<lparr>cond_check_buf := Some net\<rparr> else b) }
         else Some (Inl Address_Value, b))"

definition header_ref :: "char list \<Rightarrow> connection \<Rightarrow> cond_value option" where
  "header_ref name c = do { v \<leftarrow> header_value c name; Some (if v = None then Empty_String else Header_Value name) }"

definition select_value :: "data_config \<Rightarrow> check_bufs \<Rightarrow> connection \<Rightarrow> ((cond_value + cond_result_t) \<times> check_bufs) option" where
  "select_value d b c = (case dc_comp d of
       COMP_HTTP_HOST \<Rightarrow> Some (apfst Inl (host_value d b c))
     | COMP_HTTP_REMOTE_IP \<Rightarrow> remote_ip_value d b c
     | COMP_HTTP_SCHEME \<Rightarrow> Some (Inl Scheme_Value, b)
     | COMP_HTTP_URL \<Rightarrow> Some (Inl Path_Value, b)
     | COMP_HTTP_QUERY_STRING \<Rightarrow> Some (Inl Query_Value, b)
     | COMP_SERVER_SOCKET \<Rightarrow> Some (Inl Token_Value, b)
     | COMP_HTTP_REFERER \<Rightarrow> map_option (\<lambda>v. (Inl v, b)) (header_ref ''Referer'' c)
     | COMP_HTTP_COOKIE \<Rightarrow> map_option (\<lambda>v. (Inl v, b)) (header_ref ''Cookie'' c)
     | COMP_HTTP_USER_AGENT \<Rightarrow> map_option (\<lambda>v. (Inl v, b)) (header_ref ''User-Agent'' c)
     | COMP_HTTP_REQUEST_METHOD \<Rightarrow>
         Some (Inl Tmp_Buf, case get_http_method_name (http_method (req c)) of None \<Rightarrow> b | Some m \<Rightarrow> b\<lparr>tmp_buf := Some m\<rparr>)
     | COMP_HTTP_LANGUAGE \<Rightarrow> map_option (\<lambda>v. (Inl v, b)) (header_ref ''Accept-Language'' c)
     | COMP_UNSET \<Rightarrow> Some (Inr COND_RESULT_FALSE, b))"

definition compare_value :: "data_config \<Rightarrow> nat \<Rightarrow> cond_value \<Rightarrow> check_bufs \<Rightarrow> connection \<Rightarrow> (cond_result_t \<times> connection) option" where
  "compare_value d i l b c = do {
     v \<leftarrow> value_of l b c;
     if dc_cond d = CONFIG_COND_NE \<or> dc_cond d = CONFIG_COND_EQ
     then Some (truth (bstr_equal v (Some (dc_string d)) = (dc_cond d = CONFIG_COND_EQ)), c)
     else if dc_cond d = CONFIG_COND_NOMATCH \<or> dc_cond d = CONFIG_COND_MATCH then (
       let (n, ms) = dc_regex d v;
           k = (cond_cache c i)\<lparr>cc_matches := ms, cc_patterncount := n\<rparr>;
           k = (if n > 0 then k\<lparr>cc_comp_value := Some l, cc_comp_type := dc_comp d\<rparr> else k)
       in Some (truth ((n > 0) = (dc_cond d = CONFIG_COND_MATCH)), c\<lparr>cond_cache := (cond_cache c)(i := k)\<rparr>))
     else Some (COND_RESULT_FALSE, c) }"

definition check_rule :: "data_config \<Rightarrow> nat \<Rightarrow> check_bufs \<Rightarrow> connection \<Rightarrow> (cond_result_t \<times> check_bufs \<times> connection) option" where
  "check_rule d i b c = do {
     (l, b) \<leftarrow> select_value d b c;
     case l of
       Inr r \<Rightarrow> Some (r, b, c)
     | Inl l \<Rightarrow> do { (r, c) \<leftarrow> compare_value d i l b c; Some (r, b, c) } }"

section \<open>A condition among the others\<close>

definition cached :: "connection \<Rightarrow> nat \<Rightarrow> cond_result_t" where
  "cached c i = cc_result (cond_cache c i)"

definition set_result :: "nat \<Rightarrow> cond_result_t \<Rightarrow> connection \<Rightarrow> connection" where
  "set_result i r c = c\<lparr>cond_cache := (cond_cache c)(i := (cond_cache c i)\<lparr>cc_result := r\<rparr>)\<rparr>"

text \<open>\<open>chk\<close> is \<open>config_check_cond_cached\<close>.\<close>

definition config_check_cond_nocache ::
  "(nat \<Rightarrow> check_bufs \<Rightarrow> connection \<Rightarrow> (cond_result_t \<times> check_bufs \<times> connection) option) \<Rightarrow>
   data_config \<Rightarrow> nat \<Rightarrow> check_bufs \<Rightarrow> connection \<Rightarrow> (cond_result_t \<times> check_bufs \<times> connection) option" where
  "config_check_cond_nocache chk d i b c = do {
     (up, b, c) \<leftarrow> (case dc_parent d of
         Some p \<Rightarrow> if p \<noteq> 0 then chk p b c else Some (COND_RESULT_TRUE, b, c)
       | None \<Rightarrow> Some (COND_RESULT_TRUE, b, c));
     if up = COND_RESULT_FALSE then Some (COND_RESULT_FALSE, b, c)
     else if up = COND_RESULT_UNSET then Some (COND_RESULT_UNSET, b, c)
     else do {
       (out, b, c) \<leftarrow> (case dc_prev d of
           Some p \<Rightarrow> do { (_, b, c) \<leftarrow> chk p b c; Some (cached c i = COND_RESULT_FALSE, b, c) }
         | None \<Rightarrow> Some (False, b, c));
       if out then Some (COND_RESULT_FALSE, b, c)
       else if \<not> conditional_is_valid c (dc_comp d) then Some (COND_RESULT_UNSET, b, c)
       else check_rule d i b c } }"

text \<open>The rest of a chain; a chain has fewer branches than there are blocks.\<close>

fun reject_rest :: "nat \<Rightarrow> data_config list \<Rightarrow> nat option \<Rightarrow> connection \<Rightarrow> connection option" where
  "reject_rest n ctx None c = Some c"
| "reject_rest 0 ctx (Some q) c = None"
| "reject_rest (Suc n) ctx (Some q) c =
     (if length ctx \<le> q then None else reject_rest n ctx (dc_next (ctx ! q)) (set_result q COND_RESULT_FALSE c))"

fun config_check_cond_cached :: "nat \<Rightarrow> data_config list \<Rightarrow> nat \<Rightarrow> check_bufs \<Rightarrow> connection \<Rightarrow> (cond_result_t \<times> check_bufs \<times> connection) option" where
  "config_check_cond_cached 0 ctx i b c = None"
| "config_check_cond_cached (Suc n) ctx i b c =
     (if length ctx \<le> i then None
      else if cached c i = COND_RESULT_UNSET then do {
        (r, b, c) \<leftarrow> config_check_cond_nocache (config_check_cond_cached n ctx) (ctx ! i) i b c;
        let c = set_result i r c;
        c \<leftarrow> (if r = COND_RESULT_TRUE then reject_rest (length ctx) ctx (dc_next (ctx ! i)) c else Some c);
        let c = c\<lparr>cond_cache := (cond_cache c)(i := (cond_cache c i)\<lparr>cc_comp_type := dc_comp (ctx ! i)\<rparr>)\<rparr>;
        Some (cached c i, b, c) }
      else Some (cached c i, b, c))"

definition config_check_cond :: "data_config list \<Rightarrow> nat \<Rightarrow> check_bufs \<Rightarrow> connection \<Rightarrow> (bool \<times> check_bufs \<times> connection) option" where
  "config_check_cond ctx i b c = do {
     (r, b, c) \<leftarrow> config_check_cond_cached (i + 1) ctx i b c;
     Some (r = COND_RESULT_TRUE, b, c) }"

section \<open>Resetting the cache\<close>

text \<open>\<open>None\<close> is \<open>COMP_LAST_ELEMENT\<close>: every entry.\<close>

definition config_cond_cache_reset_item :: "nat \<Rightarrow> comp_key_t option \<Rightarrow> connection \<Rightarrow> connection" where
  "config_cond_cache_reset_item n item c = c\<lparr>cond_cache := (\<lambda>i.
     if i < n \<and> (item = None \<or> item = Some (cc_comp_type (cond_cache c i)))
     then (cond_cache c i)\<lparr>cc_result := COND_RESULT_UNSET, cc_patterncount := 0, cc_comp_value := None\<rparr>
     else cond_cache c i)\<rparr>"

definition config_cond_cache_reset :: "nat \<Rightarrow> connection \<Rightarrow> connection" where
  "config_cond_cache_reset n c = (config_cond_cache_reset_item n None c)\<lparr>conditional_is_valid := (\<lambda>_. False)\<rparr>"

text \<open>A captured group: the matched value is read where the pointer points now.\<close>

definition config_append_cond_match_buffer :: "nat \<Rightarrow> check_bufs \<Rightarrow> connection \<Rightarrow> bstr \<Rightarrow> nat \<Rightarrow> (int \<times> bstr) option" where
  "config_append_cond_match_buffer i b c buf n = (
     let k = cond_cache c i in
     if int n \<ge> cc_patterncount k then Some (0, buf)
     else if length (cc_matches k) \<le> 2 * n + 1 then None
     else do {
       l \<leftarrow> cc_comp_value k;
       v \<leftarrow> value_of l b c;
       let (s, e) = (cc_matches k ! (2 * n), cc_matches k ! (2 * n + 1));
       if 0 \<le> s \<and> s \<le> e \<and> e \<le> int (length (bval v))
       then Some (1, bcat buf (take (nat (e - s)) (drop (nat s) (bval v))))
       else None })"

section \<open>Which blocks apply\<close>

text \<open>A block applies if the block around it applies, no earlier branch of its chain does, and its own rule holds. The second
  component says that it or an earlier branch applies.\<close>

function choice :: "data_config list \<Rightarrow> (nat \<Rightarrow> bool) \<Rightarrow> nat \<Rightarrow> bool \<times> bool" where
  "choice ctx rule i = (
     let up = (case dc_parent (ctx ! i) of Some p \<Rightarrow> if 0 < p \<and> p < i then fst (choice ctx rule p) else True | None \<Rightarrow> True);
         before = (case dc_prev (ctx ! i) of Some p \<Rightarrow> if p < i then snd (choice ctx rule p) else False | None \<Rightarrow> False);
         own = up \<and> \<not> before \<and> rule i
     in (own, own \<or> before))"
  by pat_completeness auto
termination by (relation "measure (\<lambda>(_, _, i). i)") auto

declare choice.simps [simp del]

abbreviation applies :: "data_config list \<Rightarrow> (nat \<Rightarrow> bool) \<Rightarrow> nat \<Rightarrow> bool" where
  "applies ctx rule i \<equiv> fst (choice ctx rule i)"

definition parent_applies :: "data_config list \<Rightarrow> (nat \<Rightarrow> bool) \<Rightarrow> nat \<Rightarrow> bool" where
  "parent_applies ctx rule i =
     (case dc_parent (ctx ! i) of Some p \<Rightarrow> if 0 < p \<and> p < i then applies ctx rule p else True | None \<Rightarrow> True)"

definition earlier_applies :: "data_config list \<Rightarrow> (nat \<Rightarrow> bool) \<Rightarrow> nat \<Rightarrow> bool" where
  "earlier_applies ctx rule i =
     (case dc_prev (ctx ! i) of Some p \<Rightarrow> if p < i then snd (choice ctx rule p) else False | None \<Rightarrow> False)"

text \<open>What the parser of the configuration builds: blocks are numbered in the order of the file, so a parent and an earlier branch
  have smaller numbers, and the links of a chain are inverse to each other.\<close>

definition tree_ok :: "data_config list \<Rightarrow> bool" where
  "tree_ok ctx \<longleftrightarrow> (\<forall>i < length ctx.
     (case dc_parent (ctx ! i) of None \<Rightarrow> True | Some p \<Rightarrow> p < i) \<and>
     (case dc_prev (ctx ! i) of None \<Rightarrow> True
      | Some p \<Rightarrow> 0 < p \<and> p < i \<and> dc_next (ctx ! p) = Some i \<and> dc_parent (ctx ! p) = dc_parent (ctx ! i)) \<and>
     (case dc_next (ctx ! i) of None \<Rightarrow> True | Some q \<Rightarrow> i < q \<and> q < length ctx \<and> dc_prev (ctx ! q) = Some i))"

lemma tree_parent: "tree_ok ctx \<Longrightarrow> i < length ctx \<Longrightarrow> dc_parent (ctx ! i) = Some p \<Longrightarrow> p < i"
  by (fastforce simp: tree_ok_def)

lemma tree_prev:
  "tree_ok ctx \<Longrightarrow> i < length ctx \<Longrightarrow> dc_prev (ctx ! i) = Some p \<Longrightarrow>
   0 < p \<and> p < i \<and> dc_next (ctx ! p) = Some i \<and> dc_parent (ctx ! p) = dc_parent (ctx ! i)"
  unfolding tree_ok_def by (elim allE [of _ i]) simp

lemma tree_next:
  "tree_ok ctx \<Longrightarrow> i < length ctx \<Longrightarrow> dc_next (ctx ! i) = Some q \<Longrightarrow> i < q \<and> q < length ctx \<and> dc_prev (ctx ! q) = Some i"
  unfolding tree_ok_def by (elim allE [of _ i]) simp

lemma applies_iff: "applies ctx rule i \<longleftrightarrow> parent_applies ctx rule i \<and> \<not> earlier_applies ctx rule i \<and> rule i"
  by (subst choice.simps) (simp add: parent_applies_def earlier_applies_def Let_def)

lemma choice_snd: "snd (choice ctx rule i) \<longleftrightarrow> applies ctx rule i \<or> earlier_applies ctx rule i"
  by (subst (1 2) choice.simps) (simp add: earlier_applies_def Let_def)

lemma choice_parent:
  assumes "tree_ok ctx"
  shows "i < length ctx \<Longrightarrow> snd (choice ctx rule i) \<Longrightarrow> parent_applies ctx rule i"
proof (induction i rule: less_induct)
  case (less i)
  show ?case
  proof (cases "applies ctx rule i")
    case False
    with less.prems(2) have "earlier_applies ctx rule i" by (simp add: choice_snd)
    then obtain p where p: "dc_prev (ctx ! i) = Some p" "p < i" "snd (choice ctx rule p)"
      by (auto simp: earlier_applies_def split: option.splits if_splits)
    with less.prems(1) have "parent_applies ctx rule p" by (intro less.IH) auto
    moreover from tree_prev [OF assms less.prems(1) p(1)] have same: "dc_parent (ctx ! p) = dc_parent (ctx ! i)" by blast
    moreover have "q < p" if "dc_parent (ctx ! i) = Some q" for q
      using tree_parent [OF assms, of p q] that same p(2) less.prems(1) by simp
    ultimately show ?thesis using p(2) by (auto simp: parent_applies_def split: option.splits if_splits)
  qed (simp add: applies_iff)
qed

lemma later_branch:
  assumes "tree_ok ctx" and "i < length ctx" and "snd (choice ctx rule i)" and "dc_next (ctx ! i) = Some q"
  shows "\<not> applies ctx rule q \<and> snd (choice ctx rule q)"
proof -
  from tree_next [OF assms(1,2,4)] assms(3) have "earlier_applies ctx rule q" by (simp add: earlier_applies_def)
  then show ?thesis by (simp add: applies_iff choice_snd)
qed

section \<open>The cache\<close>

text \<open>A decided entry is right, and once a branch of a chain applies and was decided, the next one is decided too.\<close>

definition entry_ok :: "data_config list \<Rightarrow> (nat \<Rightarrow> bool) \<Rightarrow> connection \<Rightarrow> nat \<Rightarrow> bool" where
  "entry_ok ctx rule c i \<longleftrightarrow> (cached c i = COND_RESULT_TRUE \<longrightarrow> applies ctx rule i) \<and> (cached c i = COND_RESULT_FALSE \<longrightarrow> \<not> applies ctx rule i)"

definition chain_ok :: "data_config list \<Rightarrow> (nat \<Rightarrow> bool) \<Rightarrow> connection \<Rightarrow> nat \<Rightarrow> bool" where
  "chain_ok ctx rule c i \<longleftrightarrow> (cached c i \<noteq> COND_RESULT_UNSET \<longrightarrow> snd (choice ctx rule i) \<longrightarrow>
     pred_option (\<lambda>q. cached c q = COND_RESULT_FALSE) (dc_next (ctx ! i)))"

definition cache_ok :: "data_config list \<Rightarrow> (nat \<Rightarrow> bool) \<Rightarrow> connection \<Rightarrow> bool" where
  "cache_ok ctx rule c \<longleftrightarrow> (\<forall>i < length ctx. entry_ok ctx rule c i \<and> chain_ok ctx rule c i)"

definition same_request :: "connection \<Rightarrow> connection \<Rightarrow> bool" where
  "same_request c d \<longleftrightarrow> (\<exists>f. d = c\<lparr>cond_cache := f\<rparr>)"

lemma same_request_refl: "same_request c c"
  unfolding same_request_def by (rule exI [of _ "cond_cache c"]) simp

lemma same_request_trans: "same_request c d \<Longrightarrow> same_request d e \<Longrightarrow> same_request c e"
  by (auto simp: same_request_def)

text \<open>Requests that differ in the cache and the settings only.\<close>

definition alike :: "connection \<Rightarrow> connection \<Rightarrow> bool" where
  "alike c d \<longleftrightarrow> (\<exists>f cf nm. d = c\<lparr>cond_cache := f, cconf := cf, con_server_name := nm\<rparr>)"

lemma alike_trans: "alike c d \<Longrightarrow> same_request d e \<Longrightarrow> alike c e"
proof -
  assume "alike c d" "same_request d e"
  then obtain f cf nm g where "d = c\<lparr>cond_cache := f, cconf := cf, con_server_name := nm\<rparr>" "e = d\<lparr>cond_cache := g\<rparr>"
    by (auto simp: alike_def same_request_def)
  then have "e = c\<lparr>cond_cache := g, cconf := cf, con_server_name := nm\<rparr>" by simp
  then show ?thesis unfolding alike_def by blast
qed

lemma alike_refl: "alike c c"
  unfolding alike_def by (intro exI [of _ "cond_cache c"] exI [of _ "cconf c"] exI [of _ "con_server_name c"]) simp

lemma same_request_set: "same_request c (c\<lparr>cond_cache := f\<rparr>)"
  by (auto simp: same_request_def)

lemma same_request_result: "same_request c (set_result i r c)"
  by (simp add: set_result_def same_request_set)

lemma cached_set_result: "cached (set_result i r c) j = (if j = i then r else cached c j)"
  by (simp add: cached_def set_result_def)

lemma reject_rest_ok:
  assumes "tree_ok ctx"
  shows "j < length ctx \<Longrightarrow> snd (choice ctx rule j) \<Longrightarrow> length ctx - j \<le> n \<Longrightarrow>
    \<forall>i < length ctx. entry_ok ctx rule c i \<and> (i \<noteq> j \<longrightarrow> chain_ok ctx rule c i) \<Longrightarrow>
    \<exists>d. reject_rest n ctx (dc_next (ctx ! j)) c = Some d \<and> cache_ok ctx rule d \<and> same_request c d \<and> (\<forall>i \<le> j. cached d i = cached c i)"
proof (induction n arbitrary: j c)
  case (Suc n)
  show ?case
  proof (cases "dc_next (ctx ! j)")
    case None
    with Suc.prems(4) show ?thesis by (auto simp: cache_ok_def chain_ok_def same_request_refl)
  next
    case (Some q)
    from tree_next [OF assms Suc.prems(1) Some] have q: "j < q" "q < length ctx" "dc_prev (ctx ! q) = Some j" by auto
    from later_branch [OF assms Suc.prems(1,2) Some] have out: "\<not> applies ctx rule q" "snd (choice ctx rule q)" by auto
    let ?c = "set_result q COND_RESULT_FALSE c"
    have "entry_ok ctx rule ?c i \<and> (i \<noteq> q \<longrightarrow> chain_ok ctx rule ?c i)" if "i < length ctx" for i
    proof (intro conjI impI)
      from Suc.prems(4) that out(1) show "entry_ok ctx rule ?c i" by (auto simp: entry_ok_def cached_set_result)
      assume "i \<noteq> q"
      with Suc.prems(4) that Some show "chain_ok ctx rule ?c i"
        by (cases "i = j") (auto simp: chain_ok_def cached_set_result option.pred_set)
    qed
    moreover have "length ctx - q \<le> n" using Suc.prems(3) q(1,2) by simp
    ultimately obtain d where "reject_rest n ctx (dc_next (ctx ! q)) ?c = Some d" "cache_ok ctx rule d" "same_request ?c d"
      "\<forall>i \<le> q. cached d i = cached ?c i"
      using Suc.IH [OF q(2) out(2), of ?c] by blast
    with q Some same_request_trans [OF same_request_result] show ?thesis by (fastforce simp: cached_set_result)
  qed
qed (use assms in auto)

section \<open>One rule by itself\<close>

definition rule_answer :: "data_config \<Rightarrow> connection \<Rightarrow> cond_result_t option" where
  "rule_answer d c = map_option fst (check_rule d 0 \<lparr>cond_check_buf = None, tmp_buf = None\<rparr> c)"

definition rule_true :: "data_config list \<Rightarrow> connection \<Rightarrow> nat \<Rightarrow> bool" where
  "rule_true ctx c i \<longleftrightarrow> rule_answer (ctx ! i) c = Some COND_RESULT_TRUE"

lemma truth_cases [simp]: "truth q \<noteq> COND_RESULT_UNSET" "truth q = COND_RESULT_TRUE \<longleftrightarrow> q" "truth q = COND_RESULT_FALSE \<longleftrightarrow> \<not> q"
  by (auto simp: truth_def)

lemma method_has_name: "m \<noteq> HTTP_METHOD_UNSET \<Longrightarrow> get_http_method_name m \<noteq> None"
  by (cases m) (auto simp: get_http_method_name_def http_methods_def)

lemma header_value_cache [simp]:
  "header_value (c\<lparr>cond_cache := f\<rparr>) name = header_value c name" "header_value (c\<lparr>cconf := cf\<rparr>) name = header_value c name"
  "header_value (c\<lparr>con_server_name := nm\<rparr>) name = header_value c name"
  by (simp_all add: header_value_def)

lemma host_value_cache [simp]:
  "host_value d b (c\<lparr>cond_cache := f\<rparr>) = host_value d b c" "host_value d b (c\<lparr>cconf := cf\<rparr>) = host_value d b c" "host_value d b (c\<lparr>con_server_name := nm\<rparr>) = host_value d b c"
  by (simp_all add: host_value_def Let_def split: option.split)

lemma remote_ip_value_cache [simp]:
  "remote_ip_value d b (c\<lparr>cond_cache := f\<rparr>) = remote_ip_value d b c" "remote_ip_value d b (c\<lparr>cconf := cf\<rparr>) = remote_ip_value d b c" "remote_ip_value d b (c\<lparr>con_server_name := nm\<rparr>) = remote_ip_value d b c"
  by (simp_all add: remote_ip_value_def Let_def split: option.split)

lemma header_ref_cache [simp]:
  "header_ref name (c\<lparr>cond_cache := f\<rparr>) = header_ref name c" "header_ref name (c\<lparr>cconf := cf\<rparr>) = header_ref name c" "header_ref name (c\<lparr>con_server_name := nm\<rparr>) = header_ref name c"
  by (simp_all add: header_ref_def)

lemma select_value_cache [simp]:
  "select_value d b (c\<lparr>cond_cache := f\<rparr>) = select_value d b c" "select_value d b (c\<lparr>cconf := cf\<rparr>) = select_value d b c" "select_value d b (c\<lparr>con_server_name := nm\<rparr>) = select_value d b c"
  by (simp_all add: select_value_def split: comp_key_t.split)

lemma value_of_cache [simp]:
  "value_of l b (c\<lparr>cond_cache := f\<rparr>) = value_of l b c" "value_of l b (c\<lparr>cconf := cf\<rparr>) = value_of l b c"
  "value_of l b (c\<lparr>con_server_name := nm\<rparr>) = value_of l b c"
  by (cases l; simp)+

lemma netmask_result_decided:
  assumes "netmask_result d net bts a = Some (r, q)"
  shows "r \<noteq> COND_RESULT_UNSET"
proof -
  obtain n e where e: "strtol bts = (n, e)" by fastforce
  show ?thesis
  proof (cases "bts = [] \<or> e \<noteq> []")
    case True
    with assms e show ?thesis by (auto simp: netmask_result_def split: if_splits)
  next
    case False
    with assms e consider "r = COND_RESULT_FALSE" | v nm where "r = truth ((v AND nm = a AND nm) = (dc_cond d = CONFIG_COND_EQ))"
      by (cases "inet_aton net"; cases "build_netmask n") (auto simp: netmask_result_def)
    then show ?thesis by cases (simp, simp only: truth_cases simp_thms)
  qed
qed

lemma remote_ip_value_cases:
  assumes "remote_ip_value d b c = Some (l, b1)"
  shows "(l = Inl Address_Value \<or> (\<exists>r. l = Inr r \<and> r \<noteq> COND_RESULT_UNSET)) \<and> (\<exists>b2. remote_ip_value d b' c = Some (l, b2))"
proof (cases "dst_addr c")
  case (Some a)
  let ?net = "takeWhile (\<lambda>ch. ch \<noteq> CHR ''/'') (cstr (dc_string d))"
  let ?rest = "dropWhile (\<lambda>ch. ch \<noteq> CHR ''/'') (cstr (dc_string d))"
  show ?thesis
  proof (cases "(dc_cond d = CONFIG_COND_EQ \<or> dc_cond d = CONFIG_COND_NE) \<and> ?rest \<noteq> []")
    case True
    with assms Some obtain r q where n: "netmask_result d ?net (tl ?rest) a = Some (r, q)" "l = Inr r"
      by (auto simp: remote_ip_value_def Let_def bind_Some_iff)
    moreover from n(1) True Some have "remote_ip_value d b' c = Some (Inr r, if q then b'\<lparr>cond_check_buf := Some ?net\<rparr> else b')"
      by (simp add: remote_ip_value_def Let_def)
    ultimately show ?thesis using netmask_result_decided by blast
  next
    case False
    with assms Some show ?thesis by (auto simp: remote_ip_value_def Let_def)
  qed
qed (use assms in \<open>auto simp: remote_ip_value_def Let_def\<close>)

lemma header_ref_bufs: "header_ref name c = Some v \<Longrightarrow> value_of v b' c = value_of v b c"
  by (auto simp: header_ref_def bind_Some_iff split: if_splits)

lemma select_value_bufs:
  assumes "select_value d b c = Some (l, b1)" and "http_method (req c) \<noteq> HTTP_METHOD_UNSET"
  shows "\<exists>b2. select_value d b' c = Some (l, b2) \<and> (\<forall>x. l = Inl x \<longrightarrow> value_of x b2 c = value_of x b1 c)"
proof (cases "dc_comp d")
  case COMP_HTTP_HOST
  with assms(1) show ?thesis by (auto simp: select_value_def host_value_def Let_def split: option.splits if_splits)
next
  case COMP_HTTP_REMOTE_IP
  with assms(1) have r: "remote_ip_value d b c = Some (l, b1)" by (simp add: select_value_def)
  from remote_ip_value_cases [OF this, of b'] COMP_HTTP_REMOTE_IP show ?thesis by (auto simp: select_value_def)
next
  case COMP_HTTP_REQUEST_METHOD
  with assms method_has_name [OF assms(2)] show ?thesis by (auto simp: select_value_def)
qed (use assms(1) in \<open>auto simp: select_value_def intro: header_ref_bufs\<close>)

lemma compare_value_answer:
  assumes "compare_value d i l b c = Some (r, c1)" and "value_of l b' c = value_of l b c"
  shows "\<exists>f. compare_value d j l b' (c\<lparr>cond_cache := g, cconf := cf, con_server_name := nm\<rparr>) = Some (r, c\<lparr>cond_cache := f, cconf := cf, con_server_name := nm\<rparr>) \<and> (\<forall>k. cc_result (f k) = cc_result (g k))"
proof -
  from assms(1) obtain v where v: "value_of l b c = Some v" by (auto simp: compare_value_def bind_Some_iff)
  show ?thesis
  proof (cases "dc_cond d = CONFIG_COND_NOMATCH \<or> dc_cond d = CONFIG_COND_MATCH")
    case True
    obtain n ms where m: "dc_regex d v = (n, ms)" by fastforce
    let ?k = "(g j)\<lparr>cc_matches := ms, cc_patterncount := n\<rparr>"
    let ?f = "g(j := if n > 0 then ?k\<lparr>cc_comp_value := Some l, cc_comp_type := dc_comp d\<rparr> else ?k)"
    from True assms v m have "compare_value d j l b' (c\<lparr>cond_cache := g, cconf := cf, con_server_name := nm\<rparr>) = Some (r, c\<lparr>cond_cache := ?f, cconf := cf, con_server_name := nm\<rparr>)"
      by (auto simp: compare_value_def Let_def)
    moreover have "\<forall>k. cc_result (?f k) = cc_result (g k)" by simp
    ultimately show ?thesis by blast
  next
    case False
    with assms v have "compare_value d j l b' (c\<lparr>cond_cache := g, cconf := cf, con_server_name := nm\<rparr>) = Some (r, c\<lparr>cond_cache := g, cconf := cf, con_server_name := nm\<rparr>)"
      by (auto simp: compare_value_def split: if_splits)
    then show ?thesis by blast
  qed
qed

lemma compare_value_decided:
  assumes "compare_value d i l b c = Some (r, c1)"
  shows "r \<noteq> COND_RESULT_UNSET"
proof -
  from assms obtain v where v: "value_of l b c = Some v" by (auto simp: compare_value_def bind_Some_iff)
  obtain n ms where m: "dc_regex d v = (n, ms)" by fastforce
  from assms v m show ?thesis by (cases "dc_cond d") (auto simp: compare_value_def Let_def)
qed

lemma select_value_decided:
  assumes "select_value d b c = Some (Inr r, b1)"
  shows "r \<noteq> COND_RESULT_UNSET"
proof (cases "dc_comp d")
  case COMP_HTTP_REMOTE_IP
  with assms remote_ip_value_cases [of d b c "Inr r" b1] show ?thesis by (auto simp: select_value_def)
next
  case COMP_HTTP_HOST
  with assms show ?thesis by (cases "host_value d b c") (simp add: select_value_def)
qed (use assms in \<open>auto simp: select_value_def\<close>)

lemma check_rule_answer:
  assumes "rule_answer d c = Some r" and "http_method (req c) \<noteq> HTTP_METHOD_UNSET" and "alike c c'"
  shows "r \<noteq> COND_RESULT_UNSET \<and> (\<exists>b' c''. check_rule d i b c' = Some (r, b', c'') \<and> same_request c' c'' \<and> (\<forall>k. cached c'' k = cached c' k))"
proof -
  from assms(3) obtain g cf nm where c': "c' = c\<lparr>cond_cache := g, cconf := cf, con_server_name := nm\<rparr>" by (auto simp: alike_def)
  from assms(1) obtain l b1 where sel: "select_value d \<lparr>cond_check_buf = None, tmp_buf = None\<rparr> c = Some (l, b1)"
    by (auto simp: rule_answer_def check_rule_def bind_Some_iff)
  from select_value_bufs [OF sel assms(2)] obtain b2 where
    b2: "select_value d b c = Some (l, b2)" "\<forall>x. l = Inl x \<longrightarrow> value_of x b2 c = value_of x b1 c" by blast
  show ?thesis
  proof (cases l)
    case (Inl x)
    with assms(1) sel obtain c1 where cmp: "compare_value d 0 x b1 c = Some (r, c1)"
      by (auto simp: rule_answer_def check_rule_def bind_Some_iff)
    from compare_value_answer [OF cmp, where b' = b2 and j = i and g = g and cf = cf and nm = nm] b2(2) Inl obtain f where
      f0: "compare_value d i x b2 c' = Some (r, c\<lparr>cond_cache := f, cconf := cf, con_server_name := nm\<rparr>)"
        "\<forall>k. cc_result (f k) = cc_result (g k)" unfolding c' by blast
    have "c'\<lparr>cond_cache := f\<rparr> = c\<lparr>cond_cache := f, cconf := cf, con_server_name := nm\<rparr>" by (simp add: c')
    with f0 have f: "compare_value d i x b2 c' = Some (r, c'\<lparr>cond_cache := f\<rparr>)" "\<forall>k. cc_result (f k) = cc_result (g k)" by simp_all
    have "select_value d b c' = Some (l, b2)" using b2(1) by (simp add: c')
    with f(1) Inl have "check_rule d i b c' = Some (r, b2, c'\<lparr>cond_cache := f\<rparr>)" by (simp add: check_rule_def)
    moreover have "\<forall>k. cached (c'\<lparr>cond_cache := f\<rparr>) k = cached c' k" using f(2) by (simp add: cached_def c')
    ultimately show ?thesis using compare_value_decided [OF cmp] same_request_set by blast
  next
    case (Inr x)
    with assms(1) sel have "x = r" by (auto simp: rule_answer_def check_rule_def)
    with Inr b2(1) have "check_rule d i b c' = Some (r, b2, c')" by (simp add: check_rule_def c')
    moreover have "r \<noteq> COND_RESULT_UNSET" using select_value_decided sel Inr \<open>x = r\<close> by blast
    ultimately show ?thesis using same_request_refl by blast
  qed
qed

section \<open>Evaluation with the cache\<close>

definition decidable :: "data_config list \<Rightarrow> connection \<Rightarrow> bool" where
  "decidable ctx c \<longleftrightarrow> http_method (req c) \<noteq> HTTP_METHOD_UNSET \<and>
     (\<forall>i \<in> {1..<length ctx}. rule_answer (ctx ! i) c \<noteq> None \<and> conditional_is_valid c (dc_comp (ctx ! i)))"

lemma nocache_answers:
  assumes "tree_ok ctx" and "decidable ctx c0" and "0 < i" and "i < length ctx"
    and chk: "\<And>p b c. 0 < p \<Longrightarrow> p < i \<Longrightarrow> cache_ok ctx (rule_true ctx c0) c \<Longrightarrow> alike c0 c \<Longrightarrow>
      \<exists>b' c'. chk p b c = Some (truth (applies ctx (rule_true ctx c0) p), b', c') \<and> cache_ok ctx (rule_true ctx c0) c' \<and>
        same_request c c' \<and> cached c' p \<noteq> COND_RESULT_UNSET"
    and "cache_ok ctx (rule_true ctx c0) c" and "alike c0 c"
  shows "\<exists>b' c'. config_check_cond_nocache chk (ctx ! i) i b c = Some (truth (applies ctx (rule_true ctx c0) i), b', c') \<and>
    cache_ok ctx (rule_true ctx c0) c' \<and> same_request c c' \<and>
    (earlier_applies ctx (rule_true ctx c0) i \<longrightarrow> pred_option (\<lambda>q. cached c' q = COND_RESULT_FALSE) (dc_next (ctx ! i)))"
proof -
  let ?rule = "rule_true ctx c0"
  let ?up = "case dc_parent (ctx ! i) of Some p \<Rightarrow> if p \<noteq> 0 then chk p b c else Some (COND_RESULT_TRUE, b, c) | None \<Rightarrow> Some (COND_RESULT_TRUE, b, c)"
  have "\<exists>b1 c1. ?up = Some (truth (parent_applies ctx ?rule i), b1, c1) \<and> cache_ok ctx ?rule c1 \<and> same_request c c1"
  proof (cases "dc_parent (ctx ! i)")
    case (Some p)
    with tree_parent [OF assms(1,4) Some] chk [of p c b] assms(6,7) show ?thesis
      by (cases "p = 0") (auto simp: parent_applies_def truth_def same_request_refl)
  qed (use assms(6,7) in \<open>auto simp: parent_applies_def truth_def same_request_refl\<close>)
  then obtain b1 c1 where up: "?up = Some (truth (parent_applies ctx ?rule i), b1, c1)" "cache_ok ctx ?rule c1" "same_request c c1" by blast
  note like1 = alike_trans [OF assms(7) up(3)]
  show ?thesis
  proof (cases "parent_applies ctx ?rule i")
    case False
    then have "\<not> snd (choice ctx ?rule i)" using choice_parent [OF assms(1,4)] by blast
    then have "\<not> applies ctx ?rule i" "\<not> earlier_applies ctx ?rule i" by (auto simp: choice_snd)
    with False up show ?thesis unfolding config_check_cond_nocache_def by (simp add: truth_def)
  next
    case True
    let ?prev = "case dc_prev (ctx ! i) of Some p \<Rightarrow> do { (_, b, c) \<leftarrow> chk p b1 c1; Some (cached c i = COND_RESULT_FALSE, b, c) } | None \<Rightarrow> Some (False, b1, c1)"
    have "\<exists>out b2 c2. ?prev = Some (out, b2, c2) \<and> cache_ok ctx ?rule c2 \<and> same_request c1 c2 \<and> (out \<longrightarrow> cached c2 i = COND_RESULT_FALSE) \<and>
        (earlier_applies ctx ?rule i \<longrightarrow> out \<and> cached c2 i = COND_RESULT_FALSE)"
    proof (cases "dc_prev (ctx ! i)")
      case (Some p)
      from tree_prev [OF assms(1,4) Some] have p: "0 < p" "p < i" "dc_next (ctx ! p) = Some i" by auto
      from chk [OF p(1,2) up(2) like1, of b1] obtain b2 c2 where
        c2: "chk p b1 c1 = Some (truth (applies ctx ?rule p), b2, c2)" "cache_ok ctx ?rule c2" "same_request c1 c2" "cached c2 p \<noteq> COND_RESULT_UNSET" by blast
      moreover have "cached c2 i = COND_RESULT_FALSE" if "earlier_applies ctx ?rule i"
      proof -
        from that Some p(2) have "snd (choice ctx ?rule p)" by (simp add: earlier_applies_def)
        moreover from c2(2) p(2) assms(4) have "chain_ok ctx ?rule c2 p" by (simp add: cache_ok_def)
        ultimately show ?thesis using c2(4) p(3) by (simp add: chain_ok_def)
      qed
      ultimately show ?thesis using Some by auto
    qed (use up in \<open>auto simp: earlier_applies_def same_request_refl\<close>)
    then obtain out b2 c2 where prev: "?prev = Some (out, b2, c2)" "cache_ok ctx ?rule c2" "same_request c1 c2"
      "out \<Longrightarrow> cached c2 i = COND_RESULT_FALSE" "earlier_applies ctx ?rule i \<Longrightarrow> out \<and> cached c2 i = COND_RESULT_FALSE" by blast
    note like2 = alike_trans [OF like1 prev(3)]
    have step: "config_check_cond_nocache chk (ctx ! i) i b c =
        (if out then Some (COND_RESULT_FALSE, b2, c2)
         else if \<not> conditional_is_valid c2 (dc_comp (ctx ! i)) then Some (COND_RESULT_UNSET, b2, c2) else check_rule (ctx ! i) i b2 c2)"
      unfolding config_check_cond_nocache_def using up(1) True prev(1) by (simp add: truth_def)
    show ?thesis
    proof (cases out)
      case out: True
      with prev(2,4) assms(4) have "\<not> applies ctx ?rule i" by (auto simp: cache_ok_def entry_ok_def)
      moreover have "earlier_applies ctx ?rule i \<longrightarrow> pred_option (\<lambda>q. cached c2 q = COND_RESULT_FALSE) (dc_next (ctx ! i))"
        using prev(2,4) out assms(4) by (auto simp: cache_ok_def chain_ok_def choice_snd)
      ultimately show ?thesis using step out prev same_request_trans [OF up(3) prev(3)] by (simp add: truth_def)
    next
      case False
      with prev(5) have early: "\<not> earlier_applies ctx ?rule i" by blast
      from assms(2,3,4) obtain r where r: "rule_answer (ctx ! i) c0 = Some r" and val: "conditional_is_valid c0 (dc_comp (ctx ! i))"
        and met: "http_method (req c0) \<noteq> HTTP_METHOD_UNSET" by (force simp: decidable_def)
      from val like2 have "conditional_is_valid c2 (dc_comp (ctx ! i))" by (auto simp: alike_def)
      moreover from check_rule_answer [OF r met like2, of i b2] obtain b3 c3 where
        c3: "r \<noteq> COND_RESULT_UNSET" "check_rule (ctx ! i) i b2 c2 = Some (r, b3, c3)" "same_request c2 c3" "\<forall>k. cached c3 k = cached c2 k" by blast
      moreover have "cache_ok ctx ?rule c3" using prev(2) c3(4) by (simp add: cache_ok_def entry_ok_def chain_ok_def)
      moreover have "r = truth (applies ctx ?rule i)"
        using c3(1) r True early by (cases r) (auto simp: applies_iff rule_true_def truth_def)
      ultimately show ?thesis using step False early same_request_trans [OF same_request_trans [OF up(3) prev(3)]] by auto
    qed
  qed
qed

lemma cached_answers:
  assumes "tree_ok ctx" and "decidable ctx c0"
  shows "0 < i \<Longrightarrow> i < length ctx \<Longrightarrow> i < n \<Longrightarrow> cache_ok ctx (rule_true ctx c0) c \<Longrightarrow> alike c0 c \<Longrightarrow>
    \<exists>b' c'. config_check_cond_cached n ctx i b c = Some (truth (applies ctx (rule_true ctx c0) i), b', c') \<and>
      cache_ok ctx (rule_true ctx c0) c' \<and> same_request c c' \<and> cached c' i \<noteq> COND_RESULT_UNSET"
proof (induction n arbitrary: i b c)
  case (Suc n)
  let ?rule = "rule_true ctx c0"
  show ?case
  proof (cases "cached c i = COND_RESULT_UNSET")
    case False
    with Suc.prems(2,4) have "cached c i = truth (applies ctx ?rule i)" by (cases "cached c i") (auto simp: cache_ok_def entry_ok_def truth_def)
    with False Suc.prems show ?thesis by (auto simp: same_request_refl simp del: truth_cases)
  next
    case True
    have "\<exists>b' c'. config_check_cond_nocache (config_check_cond_cached n ctx) (ctx ! i) i b c = Some (truth (applies ctx ?rule i), b', c') \<and>
      cache_ok ctx ?rule c' \<and> same_request c c' \<and>
      (earlier_applies ctx ?rule i \<longrightarrow> pred_option (\<lambda>q. cached c' q = COND_RESULT_FALSE) (dc_next (ctx ! i)))"
      by (rule nocache_answers [OF assms Suc.prems(1,2) Suc.IH Suc.prems(4,5)]) (use Suc.prems in auto)
    then obtain b1 c1 where c1: "config_check_cond_nocache (config_check_cond_cached n ctx) (ctx ! i) i b c = Some (truth (applies ctx ?rule i), b1, c1)"
      "cache_ok ctx ?rule c1" "same_request c c1"
      "earlier_applies ctx ?rule i \<Longrightarrow> pred_option (\<lambda>q. cached c1 q = COND_RESULT_FALSE) (dc_next (ctx ! i))" by blast
    let ?c = "set_result i (truth (applies ctx ?rule i)) c1"
    have entries: "entry_ok ctx ?rule ?c j \<and> (j \<noteq> i \<longrightarrow> chain_ok ctx ?rule ?c j)" if "j < length ctx" for j
    proof (intro conjI impI)
      from c1(2) that show "entry_ok ctx ?rule ?c j" by (auto simp: cache_ok_def entry_ok_def cached_set_result)
      assume "j \<noteq> i"
      with c1(2) that have "chain_ok ctx ?rule c1 j" by (simp add: cache_ok_def)
      moreover have "\<not> applies ctx ?rule i" if "dc_next (ctx ! j) = Some i" "snd (choice ctx ?rule j)"
        using later_branch [OF assms(1) \<open>j < length ctx\<close>] that by blast
      ultimately show "chain_ok ctx ?rule ?c j" using \<open>j \<noteq> i\<close>
        by (auto simp: chain_ok_def cached_set_result option.pred_set)
    qed
    have "\<exists>d. (if truth (applies ctx ?rule i) = COND_RESULT_TRUE then reject_rest (length ctx) ctx (dc_next (ctx ! i)) ?c else Some ?c) = Some d \<and>
      cache_ok ctx ?rule d \<and> same_request c1 d \<and> cached d i = truth (applies ctx ?rule i)"
    proof (cases "applies ctx ?rule i")
      case app: True
      from reject_rest_ok [OF assms(1) Suc.prems(2), of ?rule "length ctx" ?c] app entries obtain d where
        "reject_rest (length ctx) ctx (dc_next (ctx ! i)) ?c = Some d" "cache_ok ctx ?rule d" "same_request ?c d" "\<forall>j \<le> i. cached d j = cached ?c j"
        by (auto simp: choice_snd)
      with app same_request_trans [OF same_request_result] show ?thesis by (auto simp: cached_set_result)
    next
      case False
      have "chain_ok ctx ?rule ?c i"
        using c1(4) False tree_next [OF assms(1) Suc.prems(2)] by (fastforce simp: chain_ok_def choice_snd cached_set_result option.pred_set)
      with entries False show ?thesis by (auto simp: cache_ok_def cached_set_result same_request_result)
    qed
    then obtain d where d: "(if truth (applies ctx ?rule i) = COND_RESULT_TRUE then reject_rest (length ctx) ctx (dc_next (ctx ! i)) ?c else Some ?c) = Some d"
      "cache_ok ctx ?rule d" "same_request c1 d" "cached d i = truth (applies ctx ?rule i)" by blast
    let ?d = "d\<lparr>cond_cache := (cond_cache d)(i := (cond_cache d i)\<lparr>cc_comp_type := dc_comp (ctx ! i)\<rparr>)\<rparr>"
    have same: "cached ?d j = cached d j" for j by (simp add: cached_def)
    then have "cache_ok ctx ?rule ?d" using d(2) by (simp add: cache_ok_def entry_ok_def chain_ok_def)
    moreover have "same_request c ?d"
      using same_request_trans [OF same_request_trans [OF c1(3) d(3)] same_request_set] .
    moreover have "config_check_cond_cached (Suc n) ctx i b c = Some (cached ?d i, b1, ?d)"
      using True Suc.prems(2) c1(1) d(1) by (simp add: Let_def del: truth_cases)
    ultimately show ?thesis using d(4) by (metis same truth_cases(1))
  qed
qed simp

declare config_check_cond_cached.simps [simp del]

fun check_all :: "data_config list \<Rightarrow> nat list \<Rightarrow> check_bufs \<Rightarrow> connection \<Rightarrow> (bool list \<times> check_bufs \<times> connection) option" where
  "check_all ctx [] b c = Some ([], b, c)"
| "check_all ctx (i # is) b c = do {
     (r, b, c) \<leftarrow> config_check_cond ctx i b c;
     (rs, b, c) \<leftarrow> check_all ctx is b c;
     Some (r # rs, b, c) }"

lemma check_all_answers:
  assumes "tree_ok ctx" and "decidable ctx c0"
  shows "set is \<subseteq> {1..<length ctx} \<Longrightarrow> cache_ok ctx (rule_true ctx c0) c \<Longrightarrow> alike c0 c \<Longrightarrow>
    \<exists>b' c'. check_all ctx is b c = Some (map (applies ctx (rule_true ctx c0)) is, b', c')"
proof (induction "is" arbitrary: b c)
  case (Cons i "is")
  from cached_answers [OF assms, of i "i + 1" c b] Cons.prems obtain b1 c1 where
    c1: "config_check_cond_cached (i + 1) ctx i b c = Some (truth (applies ctx (rule_true ctx c0) i), b1, c1)"
    "cache_ok ctx (rule_true ctx c0) c1" "same_request c c1" by auto
  moreover from Cons.IH [of c1 b1] Cons.prems(1) c1(2) alike_trans [OF Cons.prems(3) c1(3)] obtain b2 c2 where
    "check_all ctx is b1 c1 = Some (map (applies ctx (rule_true ctx c0)) is, b2, c2)" by auto
  ultimately show ?case by (simp add: config_check_cond_def)
qed simp

lemma cache_ok_unset: "\<forall>i < length ctx. cached c i = COND_RESULT_UNSET \<Longrightarrow> cache_ok ctx rule c"
  by (simp add: cache_ok_def entry_ok_def chain_ok_def)


section \<open>Properties\<close>


text \<open>A condition on the host that names a port is false for the client that sends exactly this host and port: the port of
  the socket is appended a second time.\<close>

theorem port_is_appended_twice:
  assumes "dc_comp d = COMP_HTTP_HOST" and "dc_cond d = CONFIG_COND_EQ"
    and "uri_authority (conuri c) = Some (dc_string d)" and "CHR '':'' \<in> set (cstr (dc_string d))"
  shows "\<exists>b'. check_rule d i b c = Some (COND_RESULT_FALSE, b', c)"
  using assms by (simp add: check_rule_def select_value_def host_value_def compare_value_def bstr_equal_def truth_def Let_def)

lemma bit_netmask: "k < 32 \<Longrightarrow> bit (NOT (push_bit k 1 - 1) :: 32 word) j \<longleftrightarrow> j < 32 \<and> k \<le> j"
proof -
  have "push_bit k 1 - 1 = (mask k :: 32 word)" by (simp add: mask_eq_exp_minus_1 push_bit_eq_mult)
  then show ?thesis by (auto simp: bit_simps)
qed

lemma netmask_prefix:
  fixes v a :: "32 word"
  assumes "k < 32"
  shows "(v AND NOT (push_bit k 1 - 1) = a AND NOT (push_bit k 1 - 1)) \<longleftrightarrow> drop_bit k v = drop_bit k a" (is "?masked v = ?masked a \<longleftrightarrow> _")
proof
  assume eq: "?masked v = ?masked a"
  have "bit v (k + j) = bit a (k + j)" if "k + j < 32" for j
    using arg_cong [OF eq, of "\<lambda>w. bit w (k + j)"] that by (simp only: bit_and_iff bit_netmask [OF assms]) simp
  moreover have "\<not> bit v (k + j) \<and> \<not> bit a (k + j)" if "\<not> k + j < 32" for j
    using that bit_imp_le_length [of v "k + j"] bit_imp_le_length [of a "k + j"] by auto
  ultimately show "drop_bit k v = drop_bit k a" by (intro bit_word_eqI) (simp only: bit_drop_bit_eq comp_def, blast)
next
  assume eq: "drop_bit k v = drop_bit k a"
  have "bit v j = bit a j" if "k \<le> j" for j
    using arg_cong [OF eq, of "\<lambda>w. bit w (j - k)"] that by (simp add: bit_drop_bit_eq)
  then show "?masked v = ?masked a" by (intro bit_word_eqI) (simp only: bit_and_iff bit_netmask [OF assms], blast)
qed

text \<open>C33: A condition on the address of the client with a network of 1 to 32 bits holds exactly if these leading bits agree.\<close>

theorem network_condition_compares_prefix:
  assumes "dc_comp d = COMP_HTTP_REMOTE_IP" and "dc_cond d = CONFIG_COND_EQ" and "dst_addr c = Some a"
    and "cstr (dc_string d) = net @ CHR ''/'' # bts" and "CHR ''/'' \<notin> set net" and "bts \<noteq> []"
    and "inet_aton net = Some v" and "strtol bts = (int n, [])" and "1 \<le> n" and "n \<le> 32"
  shows "rule_answer d c = Some (truth (drop_bit (32 - n) v = drop_bit (32 - n) a))"
proof -
  from assms(5) have "takeWhile (\<lambda>ch. ch \<noteq> CHR ''/'') (cstr (dc_string d)) = net"
      "dropWhile (\<lambda>ch. ch \<noteq> CHR ''/'') (cstr (dc_string d)) = CHR ''/'' # bts"
    unfolding assms(4) by (auto simp: takeWhile_append dropWhile_append)
  moreover have "netmask_result d net bts a = Some (truth (drop_bit (32 - n) v = drop_bit (32 - n) a), True)"
    using assms(2,6-10) netmask_prefix [of "32 - n" v a] by (simp add: netmask_result_def build_netmask_def nat_diff_distrib)
  ultimately have "remote_ip_value d b c = Some (Inr (truth (drop_bit (32 - n) v = drop_bit (32 - n) a)), b\<lparr>cond_check_buf := Some net\<rparr>)" for b
    using assms(2,3) unfolding remote_ip_value_def Let_def by simp
  then show ?thesis using assms(1) by (simp add: rule_answer_def check_rule_def select_value_def)
qed

section \<open>A chain of two branches\<close>

definition no_match :: "bstr \<Rightarrow> int \<times> int list" where
  "no_match v = (-1, [])"

definition sample_blocks :: "data_config list" where
  "sample_blocks =
    [\<lparr>dc_keys = [], dc_comp = COMP_UNSET, dc_cond = CONFIG_COND_UNSET, dc_string = [], dc_regex = no_match, dc_parent = None, dc_prev = None, dc_next = None\<rparr>,
     \<lparr>dc_keys = [''server.tag''], dc_comp = COMP_HTTP_URL, dc_cond = CONFIG_COND_EQ, dc_string = ''/a'', dc_regex = no_match,
      dc_parent = Some 0, dc_prev = None, dc_next = Some 2\<rparr>,
     \<lparr>dc_keys = [''server.document-root''], dc_comp = COMP_HTTP_HOST, dc_cond = CONFIG_COND_EQ, dc_string = ''h:80'', dc_regex = no_match,
      dc_parent = Some 0, dc_prev = Some 1, dc_next = None\<rparr>,
     \<lparr>dc_keys = [], dc_comp = COMP_HTTP_REMOTE_IP, dc_cond = CONFIG_COND_EQ, dc_string = ''10.1.0.0/16'', dc_regex = no_match,
      dc_parent = Some 0, dc_prev = None, dc_next = None\<rparr>]"

definition sample_client :: connection where
  "sample_client = (let c = connection_init config_none None 0 in
     c\<lparr>req := (req c)\<lparr>http_method := HTTP_METHOD_GET\<rparr>, dst_addr := Some 0x0A01FF07, conditional_is_valid := (\<lambda>_. True),
       conuri := (conuri c)\<lparr>uri_path := Some ''/b'', uri_authority := Some ''h:80''\<rparr>,
       srv_socket := \<lparr>srv_token = Some '':80'', srv_port = 80\<rparr>\<rparr>)"

lemma sample_blocks_ok: "tree_ok sample_blocks"
  by code_simp

lemma sample_client_decides:
  "decidable sample_blocks sample_client \<and> map (applies sample_blocks (rule_true sample_blocks sample_client)) [3, 2, 1] = [True, False, False]"
  by code_simp


theorem port_is_appended_twice_witness:
  "\<exists>b'. check_rule (sample_blocks ! 2) 2 \<lparr>cond_check_buf = None, tmp_buf = None\<rparr> sample_client = Some (COND_RESULT_FALSE, b', sample_client)"
  by (rule port_is_appended_twice) (simp_all add: sample_blocks_def sample_client_def Let_def)

theorem network_condition_compares_prefix_witness:
  "rule_answer (sample_blocks ! 3) sample_client = Some (truth (drop_bit (32 - 16) (0x0A010000 :: 32 word) = drop_bit (32 - 16) 0x0A01FF07)) \<and>
   drop_bit 16 (0x0A010000 :: 32 word) = drop_bit 16 0x0A01FF07"
proof
  have net: "inet_aton ''10.1.0.0'' = Some 0x0A010000" by code_simp
  have bts: "strtol ''16'' = (int 16, [])" by code_simp
  show "rule_answer (sample_blocks ! 3) sample_client = Some (truth (drop_bit (32 - 16) (0x0A010000 :: 32 word) = drop_bit (32 - 16) 0x0A01FF07))"
    by (rule network_condition_compares_prefix [OF _ _ _ _ _ _ net bts]) (simp_all add: sample_blocks_def sample_client_def Let_def)
qed simp

end
