(* ===== verification/Server_State.thy ===== *)
theory Server_State imports Connection_Read Fdevent Config_Cond begin

text \<open>
  The part of the server record the connections work on (\<open>src/src/base.h\<close>), the calls into the plugins
  (\<open>plugin.c\<close>) and the table of connections in \<open>connections.c\<close>: taking a connection, resetting, closing and accepting one.
  A connection is named by the number of its record; \<open>conns_ptr\<close> is the array \<open>conns->ptr\<close>, of which the first \<open>conns_used\<close>
  are open. \<open>table_ok\<close> is the invariant of the table: \<open>ndx\<close> is the position of an open connection and -1 for a free one.
\<close>

section \<open>State\<close>

datatype server_call = Close_socket int | Shutdown_socket int

record server =
  cur_ts :: int
  max_conns :: nat
  cur_fds :: int
  want_fds :: int
  con_opened :: int
  con_written :: int
  con_closed :: int
  conns_ptr :: "nat list"
  conns_used :: nat
  con_heap :: "nat \<Rightarrow> connection option"
  joblist :: con_list
  fdwaitqueue :: con_list
  ev :: fdevents
  base_conf :: specific_config
  upload_tempdirs :: "array option"
  plugins_used :: nat
  global_bytes_cnt :: int
  last_generated_date_ts :: int
  ts_date_str :: bstr
  tmp_chunk_len :: buffer
  server_log :: "server_call list"
  config_context :: "data_config list"
  config_storage :: "specific_config list"
  scratch_bufs :: check_bufs

definition put_con :: "nat \<Rightarrow> connection \<Rightarrow> server \<Rightarrow> server" where
  "put_con i c srv = srv\<lparr>con_heap := (con_heap srv)(i \<mapsto> c)\<rparr>"

definition job_append :: "nat \<Rightarrow> server \<Rightarrow> server option" where
  "job_append i srv = do {
     c \<leftarrow> con_heap srv i;
     l \<leftarrow> joblist_append (joblist srv) (in_joblist c) i;
     Some (srv\<lparr>joblist := l\<rparr>) }"

definition fdwait_append :: "nat \<Rightarrow> server \<Rightarrow> server option" where
  "fdwait_append i srv = do { l \<leftarrow> fdwaitqueue_append (fdwaitqueue srv) i; Some (srv\<lparr>fdwaitqueue := l\<rparr>) }"

section \<open>Calling the plugins\<close>

text \<open>A slot is the list of the functions the loaded plugins registered for it, in their order.\<close>

type_synonym plugin_fun = "connection \<Rightarrow> (handler_t \<times> connection) option"

fun plugins_call :: "plugin_fun list \<Rightarrow> plugin_fun" where
  "plugins_call [] c = Some (HANDLER_GO_ON, c)"
| "plugins_call (p # ps) c = do {
     (r, c) \<leftarrow> p c;
     case r of
       HANDLER_GO_ON \<Rightarrow> plugins_call ps c
     | HANDLER_UNSET \<Rightarrow> Some (HANDLER_ERROR, c)
     | _ \<Rightarrow> Some (r, c) }"

record plugin_slots =
  slot_uri_raw :: "plugin_fun list"
  slot_uri_clean :: "plugin_fun list"
  slot_docroot :: "plugin_fun list"
  slot_physical :: "plugin_fun list"
  slot_subrequest_start :: "plugin_fun list"
  slot_subrequest :: "plugin_fun list"
  slot_request_done :: "plugin_fun list"
  slot_connection_close :: "plugin_fun list"
  slot_connection_reset :: "plugin_fun list"
  slot_joblist :: "plugin_fun list"

definition no_plugins :: plugin_slots where
  "no_plugins = \<lparr>slot_uri_raw = [], slot_uri_clean = [], slot_docroot = [], slot_physical = [], slot_subrequest_start = [],
     slot_subrequest = [], slot_request_done = [], slot_connection_close = [], slot_connection_reset = [], slot_joblist = []\<rparr>"

text \<open>The plugins after the first one that does not go on are not asked.\<close>

lemma plugins_call_append:
  "plugins_call (ps @ qs) c = Option.bind (plugins_call ps c) (\<lambda>(r, c). if r = HANDLER_GO_ON then plugins_call qs c else Some (r, c))"
proof (induction ps arbitrary: c)
  case (Cons p ps)
  show ?case by (cases "p c") (auto simp: Cons.IH split: handler_t.splits)
qed simp

lemma plugins_call_set: "plugins_call ps c = Some (r, d) \<Longrightarrow> r \<noteq> HANDLER_UNSET"
proof (induction ps arbitrary: c)
  case (Cons p ps)
  from Cons.prems obtain r1 c1 where "p c = Some (r1, c1)" by (auto simp: bind_Some_iff)
  with Cons show ?case by (cases r1) auto
qed simp

section \<open>Resetting a connection\<close>

definition config_setup_connection :: "specific_config \<Rightarrow> connection \<Rightarrow> connection" where
  "config_setup_connection s c = c\<lparr>cconf := s\<lparr>cf_server_name := cf_server_name (cconf c)\<rparr>, con_server_name := cf_server_name s\<rparr>"

definition connection_reset :: "plugin_slots \<Rightarrow> specific_config \<Rightarrow> connection \<Rightarrow> connection option" where
  "connection_reset sl s c = do {
     (_, c) \<leftarrow> plugins_call (slot_connection_reset sl) c;
     hs \<leftarrow> array_reset (headers (req c));
     rs \<leftarrow> array_reset (resp_headers (resp c));
     en \<leftarrow> array_reset (environment c);
     wq \<leftarrow> chunkqueue_reset (write_queue c);
     cq \<leftarrow> chunkqueue_reset (request_content_queue c);
     let c = c\<lparr>is_readable := True, is_writable := True, http_status := 0, file_finished := False, file_started := False,
       got_response := False, bytes_written := 0, bytes_written_cur_second := 0, bytes_read := 0, bytes_header := 0,
       loops_per_request := 0, response_keep_alive := 0, mode := 0\<rparr>;
     let c = c\<lparr>resp := (resp c)\<lparr>resp_content_length := -1, resp_headers := rs, resp_chunked := False, resp_has_length := False,
       resp_has_connection := False, resp_has_date := False, resp_has_location := False\<rparr>\<rparr>;
     let c = c\<lparr>req := (req c)\<lparr>request_line := None, uri := None, http_method := HTTP_METHOD_UNSET,
       http_version := HTTP_VERSION_UNSET, http_host := Null, http_range := Null, http_content_type := Null,
       http_if_modified_since := Null, http_if_none_match := Null, headers := hs, content_length := 0\<rparr>\<rparr>;
     let c = c\<lparr>pathinfo := None, raw_request := None, parse_text := [],
       conuri := (conuri c)\<lparr>uri_scheme := None, uri_path_raw := None\<rparr>,
       phys := \<lparr>phys_path = None, phys_basedir = None, phys_doc_root = None, phys_rel_path = None, phys_etag = None\<rparr>,
       authed_user := None, con_server_name := None, con_error_handler := None, environment := en,
       write_queue := wq, request_content_queue := cq, plugin_ctx := map (\<lambda>_. None) (plugin_ctx c),
       header_len := 0, in_error_handler := False\<rparr>;
     Some (config_setup_connection s c) }"

section \<open>The table of connections\<close>

definition conns_grow :: "server \<Rightarrow> server" where
  "conns_grow srv = (
     let n = length (conns_ptr srv) in
     if n = 0 \<or> n = conns_used srv then
       srv\<lparr>conns_ptr := conns_ptr srv @ [n..<n + 128],
           con_heap := foldl (\<lambda>h i. h(i \<mapsto> connection_init (base_conf srv) (upload_tempdirs srv) (plugins_used srv))) (con_heap srv) [n..<n + 128]\<rparr>
     else srv)"

definition connections_get_new_connection :: "plugin_slots \<Rightarrow> server \<Rightarrow> (nat \<times> server) option" where
  "connections_get_new_connection sl srv = (
     let srv = conns_grow srv in
     if conns_used srv < length (conns_ptr srv) then do {
       let i = conns_ptr srv ! conns_used srv;
       c \<leftarrow> con_heap srv i;
       c \<leftarrow> connection_reset sl (base_conf srv) c;
       Some (i, (put_con i (c\<lparr>ndx := int (conns_used srv)\<rparr>) srv)\<lparr>conns_used := conns_used srv + 1\<rparr>) }
     else None)"

definition set_ndx :: "nat \<Rightarrow> int \<Rightarrow> server \<Rightarrow> server option" where
  "set_ndx i n srv = do { c \<leftarrow> con_heap srv i; Some (put_con i (c\<lparr>ndx := n\<rparr>) srv) }"

text \<open>The last open connection takes the place of the closed one.\<close>

definition connection_del :: "nat \<Rightarrow> server \<Rightarrow> (int \<times> server) option" where
  "connection_del i srv = do {
     c \<leftarrow> con_heap srv i;
     if ndx c = -1 then Some (-1, srv)
     else if ndx c < 0 \<or> length (conns_ptr srv) \<le> nat (ndx c) \<or> conns_used srv = 0 \<or> length (conns_ptr srv) < conns_used srv then None
     else do {
       let c = c\<lparr>conuri := (conuri c)\<lparr>uri_authority := None, uri_path := None, uri_query := None\<rparr>, req := (req c)\<lparr>orig_uri := None\<rparr>\<rparr>;
       let srv = put_con i c srv;
       let n = nat (ndx c);
       let l = conns_used srv - 1;
       srv \<leftarrow> (if n \<noteq> l then do {
                let ps = (conns_ptr srv)[n := conns_ptr srv ! l, l := conns_ptr srv ! n];
                srv \<leftarrow> set_ndx (ps ! n) (int n) (srv\<lparr>conns_ptr := ps\<rparr>);
                set_ndx (ps ! l) (-1) srv }
              else Some srv);
       srv \<leftarrow> set_ndx i (-1) (srv\<lparr>conns_used := l\<rparr>);
       Some (0, srv) } }"

definition connection_close :: "nat \<Rightarrow> server \<Rightarrow> server option" where
  "connection_close i srv = do {
     c \<leftarrow> con_heap srv i;
     (fde, e) \<leftarrow> fdevent_event_del (ev srv) (fde_ndx c) (fd c);
     e \<leftarrow> fdevent_unregister e (fd c);
     let srv = (put_con i (c\<lparr>fde_ndx := fde\<rparr>) srv)\<lparr>ev := e, server_log := server_log srv @ [Close_socket (fd c)], cur_fds := cur_fds srv - 1\<rparr>;
     (_, srv) \<leftarrow> connection_del i srv;
     c \<leftarrow> con_heap srv i;
     Some (put_con i (connection_set_state c CON_STATE_CONNECT) srv) }"

text \<open>What the system answers to \<open>accept\<close> and \<open>fcntl\<close>, and the text of the client's address.\<close>

record accept_env =
  ae_accept :: "int + errno"
  ae_address :: "char list"
  ae_inet :: "32 word option"
  ae_socket :: server_socket
  ae_fcntl :: int

definition connection_accept :: "plugin_slots \<Rightarrow> accept_env \<Rightarrow> server \<Rightarrow> (nat option \<times> server) option" where
  "connection_accept sl env srv =
     (if conns_used srv \<ge> max_conns srv then Some (None, srv)
      else case ae_accept env of
        Inr e \<Rightarrow> Some (None, srv)
      | Inl cnt \<Rightarrow> do {
          let srv = srv\<lparr>cur_fds := cur_fds srv + 1, con_opened := con_opened srv + 1\<rparr>;
          (i, srv) \<leftarrow> connections_get_new_connection sl srv;
          c \<leftarrow> con_heap srv i;
          e \<leftarrow> fdevent_register (ev srv) cnt i;
          let c = connection_set_state (c\<lparr>fd := cnt, fde_ndx := -1\<rparr>) CON_STATE_REQUEST_START;
          let c = c\<lparr>connection_start := cur_ts srv, dst_addr := ae_inet env, dst_addr_buf := Some (ae_address env), srv_socket := ae_socket env\<rparr>;
          let srv = put_con i c (srv\<lparr>ev := e\<rparr>);
          Some (if ae_fcntl env = -1 then None else Some i, srv) })"

section \<open>The invariant of the table\<close>

definition table_ok :: "server \<Rightarrow> bool" where
  "table_ok srv \<longleftrightarrow> conns_used srv \<le> length (conns_ptr srv) \<and> distinct (conns_ptr srv) \<and>
     set (conns_ptr srv) = {..<length (conns_ptr srv)} \<and>
     dom (con_heap srv) \<subseteq> set (conns_ptr srv) \<and>
     (\<forall>k < length (conns_ptr srv). \<exists>c. con_heap srv (conns_ptr srv ! k) = Some c \<and> ndx c = (if k < conns_used srv then int k else -1))"

lemma table_okI:
  assumes "conns_used srv \<le> length (conns_ptr srv)" "distinct (conns_ptr srv)" "set (conns_ptr srv) = {..<length (conns_ptr srv)}"
    "dom (con_heap srv) \<subseteq> set (conns_ptr srv)"
    "\<And>k. k < length (conns_ptr srv) \<Longrightarrow> \<exists>c. con_heap srv (conns_ptr srv ! k) = Some c \<and> ndx c = (if k < conns_used srv then int k else -1)"
  shows "table_ok srv"
  using assms unfolding table_ok_def by blast

lemma table_okD:
  assumes "table_ok srv"
  shows "conns_used srv \<le> length (conns_ptr srv)" "distinct (conns_ptr srv)" "set (conns_ptr srv) = {..<length (conns_ptr srv)}"
    "k < length (conns_ptr srv) \<Longrightarrow> \<exists>c. con_heap srv (conns_ptr srv ! k) = Some c \<and> ndx c = (if k < conns_used srv then int k else -1)"
    "dom (con_heap srv) \<subseteq> set (conns_ptr srv)"
  using assms unfolding table_ok_def by blast+

text \<open>The number of an open connection leads back to it.\<close>

lemma table_open:
  assumes "table_ok srv" and "con_heap srv i = Some c" and "ndx c \<noteq> -1" and "i \<in> set (conns_ptr srv)"
  shows "0 \<le> ndx c \<and> nat (ndx c) < conns_used srv \<and> conns_ptr srv ! nat (ndx c) = i"
proof -
  from assms(4) obtain k where k: "k < length (conns_ptr srv)" "conns_ptr srv ! k = i" by (metis in_set_conv_nth)
  from table_okD(4) [OF assms(1) k(1)] k(2) assms(2,3) have "ndx c = int k" "k < conns_used srv" by (auto split: if_splits)
  with k(2) show ?thesis by simp
qed

lemma table_ok_frame:
  "table_ok srv \<Longrightarrow> conns_ptr srv' = conns_ptr srv \<Longrightarrow> conns_used srv' = conns_used srv \<Longrightarrow> con_heap srv' = con_heap srv \<Longrightarrow> table_ok srv'"
  unfolding table_ok_def by metis

lemma table_dom: "table_ok srv \<Longrightarrow> con_heap srv i = Some c \<Longrightarrow> i < length (conns_ptr srv)"
  using table_okD(3,5) by (metis domI lessThan_iff subsetD)

lemma put_con_fields [simp]:
  "conns_ptr (put_con i c srv) = conns_ptr srv" "conns_used (put_con i c srv) = conns_used srv" "con_heap (put_con i c srv) i = Some c"
  "con_heap (put_con i c srv) = (con_heap srv)(i \<mapsto> c)"
  by (simp_all add: put_con_def)

lemma table_put_con:
  assumes "table_ok srv" and "con_heap srv i = Some c" and "ndx d = ndx c"
  shows "table_ok (put_con i d srv)"
proof (rule table_okI)
  fix k
  assume "k < length (conns_ptr (put_con i d srv))"
  with table_okD(4) [OF assms(1), of k] assms(2,3)
  show "\<exists>c. con_heap (put_con i d srv) (conns_ptr (put_con i d srv) ! k) = Some c \<and>
      ndx c = (if k < conns_used (put_con i d srv) then int k else -1)" by (cases "conns_ptr srv ! k = i") auto
qed (use table_okD [OF assms(1)] table_dom [OF assms(1,2)] in simp_all)

lemma connection_init_ndx [simp]: "ndx (connection_init cf dirs n) = -1"
  by (simp add: connection_init_def con.defs)

lemma new_connections:
  "foldl (\<lambda>h i. h(i \<mapsto> x)) h is j = (if j \<in> set is then Some x else h j)"
  by (induction "is" arbitrary: h) auto

lemma conns_grow_ok:
  assumes "table_ok srv"
  shows "table_ok (conns_grow srv) \<and> conns_used (conns_grow srv) = conns_used srv \<and> conns_used srv < length (conns_ptr (conns_grow srv)) \<and>
    (\<forall>i. con_heap srv i \<noteq> None \<longrightarrow> i < length (conns_ptr srv) \<longrightarrow> con_heap (conns_grow srv) i = con_heap srv i)"
proof (cases "length (conns_ptr srv) = 0 \<or> length (conns_ptr srv) = conns_used srv")
  case True
  define n where "n = length (conns_ptr srv)"
  have g: "conns_ptr (conns_grow srv) = conns_ptr srv @ [n..<n + 128]" "conns_used (conns_grow srv) = conns_used srv"
    "con_heap (conns_grow srv) j = (if j \<in> {n..<n + 128} then Some (connection_init (base_conf srv) (upload_tempdirs srv) (plugins_used srv)) else con_heap srv j)" for j
    using True by (simp_all add: conns_grow_def n_def [symmetric] Let_def new_connections)
  note ok = table_okD [OF assms]
  have used: "conns_used srv = n" using True ok(1) by (auto simp: n_def)
  have "table_ok (conns_grow srv)"
  proof (rule table_okI)
    fix k
    assume k: "k < length (conns_ptr (conns_grow srv))"
    show "\<exists>c. con_heap (conns_grow srv) (conns_ptr (conns_grow srv) ! k) = Some c \<and> ndx c = (if k < conns_used (conns_grow srv) then int k else -1)"
    proof (cases "k < n")
      case True
      with ok(3) have "conns_ptr srv ! k < n" unfolding n_def by (metis lessThan_iff nth_mem)
      with ok(4) [of k] True g show ?thesis by (simp add: nth_append n_def)
    next
      case False
      with k g used show ?thesis by (simp add: nth_append n_def)
    qed
  next
    show "dom (con_heap (conns_grow srv)) \<subseteq> set (conns_ptr (conns_grow srv))"
      using table_dom [OF assms] ok(3) g by (force simp: n_def split: if_splits)
  qed (use ok g in \<open>auto simp: n_def\<close>)
  then show ?thesis using g used by (auto simp: n_def)
next
  case False
  then have "conns_grow srv = srv" by (simp add: conns_grow_def)
  with assms False table_okD(1) [OF assms] show ?thesis by (simp add: order_less_le)
qed

text \<open>Resetting touches neither the place in the table nor the descriptor, if the plugins do not.\<close>

definition keeps_place :: "plugin_fun \<Rightarrow> bool" where
  "keeps_place p \<longleftrightarrow> (\<forall>c. \<exists>r d. p c = Some (r, d) \<and> ndx d = ndx c \<and> fd d = fd c \<and> fde_ndx d = fde_ndx c \<and> state d = state c)"

lemma plugins_keep_place: "list_all keeps_place ps \<Longrightarrow> keeps_place (plugins_call ps)"
proof (induction ps)
  case Nil
  then show ?case by (simp add: keeps_place_def)
next
  case (Cons p ps)
  then have p: "keeps_place p" and ps: "keeps_place (plugins_call ps)" by simp_all
  show ?case unfolding keeps_place_def
  proof
    fix c
    from p obtain r d where d: "p c = Some (r, d)" "ndx d = ndx c" "fd d = fd c" "fde_ndx d = fde_ndx c" "state d = state c" unfolding keeps_place_def by blast
    from ps obtain r' d' where "plugins_call ps d = Some (r', d')" "ndx d' = ndx d" "fd d' = fd d" "fde_ndx d' = fde_ndx d" "state d' = state d"
      unfolding keeps_place_def by blast
    with d show "\<exists>r d. plugins_call (p # ps) c = Some (r, d) \<and> ndx d = ndx c \<and> fd d = fd c \<and> fde_ndx d = fde_ndx c \<and> state d = state c" by (cases r) auto
  qed
qed

lemma connection_reset_place:
  assumes "connection_reset sl s c = Some d" and "list_all keeps_place (slot_connection_reset sl)"
  shows "ndx d = ndx c \<and> fd d = fd c \<and> fde_ndx d = fde_ndx c \<and> state d = state c"
proof -
  from assms(1) obtain r c1 where "plugins_call (slot_connection_reset sl) c = Some (r, c1)"
      "ndx d = ndx c1" "fd d = fd c1" "fde_ndx d = fde_ndx c1" "state d = state c1"
    by (auto simp: connection_reset_def config_setup_connection_def bind_Some_iff Let_def)
  moreover from plugins_keep_place [OF assms(2)] obtain r' d' where "plugins_call (slot_connection_reset sl) c = Some (r', d')"
      "ndx d' = ndx c" "fd d' = fd c" "fde_ndx d' = fde_ndx c" "state d' = state c" unfolding keeps_place_def by blast
  ultimately show ?thesis by simp
qed

lemma get_new_connection_ok:
  assumes ok: "table_ok srv" and hooks: "list_all keeps_place (slot_connection_reset sl)"
    and run: "connections_get_new_connection sl srv = Some (i, srv')"
  shows "table_ok srv' \<and> conns_used srv' = conns_used srv + 1 \<and> conns_ptr srv' ! conns_used srv = i \<and> i \<in> set (conns_ptr srv') \<and>
    (\<exists>c. con_heap srv' i = Some c \<and> ndx c = int (conns_used srv))"
proof -
  define g where "g = conns_grow srv"
  have g: "table_ok g" "conns_used g = conns_used srv" "conns_used srv < length (conns_ptr g)" using conns_grow_ok [OF ok] by (simp_all add: g_def)
  from run obtain c d where c: "i = conns_ptr g ! conns_used g" "con_heap g i = Some c" "connection_reset sl (base_conf g) c = Some d"
      "srv' = (put_con i (d\<lparr>ndx := int (conns_used g)\<rparr>) g)\<lparr>conns_used := conns_used g + 1\<rparr>"
    by (auto simp: connections_get_new_connection_def g_def [symmetric] bind_Some_iff Let_def split: if_splits)
  note t = table_okD [OF g(1)]
  have "table_ok srv'"
  proof (rule table_okI)
    fix k
    assume "k < length (conns_ptr srv')"
    then have k: "k < length (conns_ptr g)" by (simp add: c(4))
    show "\<exists>c. con_heap srv' (conns_ptr srv' ! k) = Some c \<and> ndx c = (if k < conns_used srv' then int k else -1)"
    proof (cases "k = conns_used g")
      case True
      then show ?thesis using c by simp
    next
      case False
      then have "conns_ptr g ! k \<noteq> i" using t(2) k g(2,3) c(1) by (simp add: nth_eq_iff_index_eq)
      with t(4) [OF k] False show ?thesis by (auto simp: c(4))
    qed
  qed (use t g c table_dom [OF g(1) c(2)] in simp_all)
  then show ?thesis using c g by simp
qed

text \<open>Closing: only the closed connection and the one that moves into its place change.\<close>

lemma set_ndx_Some: "con_heap srv i = Some c \<Longrightarrow> set_ndx i n srv = Some (put_con i (c\<lparr>ndx := n\<rparr>) srv)"
  by (simp add: set_ndx_def)

lemma upd_again: "m \<noteq> i \<Longrightarrow> h(i := a, m := b, i := d) = h(m := b, i := d)"
  by auto

lemma connection_del_ok:
  assumes ok: "table_ok srv" and i: "i \<in> set (conns_ptr srv)"
  shows "\<exists>r srv' c d. connection_del i srv = Some (r, srv') \<and> table_ok srv' \<and> con_heap srv i = Some c \<and> con_heap srv' i = Some d \<and>
    ndx d = -1 \<and> conns_used srv' = conns_used srv - (if ndx c = -1 then 0 else 1) \<and> set (conns_ptr srv') = set (conns_ptr srv) \<and>
    length (conns_ptr srv') = length (conns_ptr srv) \<and> ev srv' = ev srv \<and> fd d = fd c \<and>
    (\<forall>j e. j \<noteq> i \<longrightarrow> con_heap srv j = Some e \<longrightarrow> (\<exists>n. con_heap srv' j = Some (e\<lparr>ndx := n\<rparr>)))"
proof -
  note t = table_okD [OF ok]
  from i obtain k where k: "k < length (conns_ptr srv)" "conns_ptr srv ! k = i" by (metis in_set_conv_nth)
  from t(4) [OF k(1)] k(2) obtain c where c: "con_heap srv i = Some c" "ndx c = (if k < conns_used srv then int k else -1)" by auto
  show ?thesis
  proof (cases "ndx c = -1")
    case True
    have "\<exists>n. con_heap srv j = Some (e\<lparr>ndx := n\<rparr>)" if "con_heap srv j = Some e" for j e
      using that by (intro exI [of _ "ndx e"]) simp
    with True c ok show ?thesis
      by (intro exI [of _ "-1"] exI [of _ srv] exI [of _ c] exI [of _ c]) (simp add: connection_del_def)
  next
    case False
    note False' = this
    have same_ndx: "\<exists>n. e = e\<lparr>ndx := n\<rparr>" for e :: connection by (intro exI [of _ "ndx e"]) simp
    from False have ku: "ndx c = int k" "k < conns_used srv" using c(2) by (auto split: if_splits)
    define c1 where "c1 = c\<lparr>conuri := (conuri c)\<lparr>uri_authority := None, uri_path := None, uri_query := None\<rparr>, req := (req c)\<lparr>orig_uri := None\<rparr>\<rparr>"
    define l where "l = conns_used srv - 1"
    have l: "l < length (conns_ptr srv)" "k \<le> l" "conns_used srv = Suc l" using ku t(1) by (auto simp: l_def)
    define ps where "ps = (conns_ptr srv)[k := conns_ptr srv ! l, l := i]"
    have dps: "distinct ps" "set ps = set (conns_ptr srv)" "length ps = length (conns_ptr srv)"
      using l k(1) t(2) distinct_swap [of k "conns_ptr srv" l] set_swap [of k "conns_ptr srv" l] unfolding ps_def k(2) by simp_all
    show ?thesis
    proof (cases "k = l")
      case True
      define srv' where "srv' = put_con i (c1\<lparr>ndx := -1\<rparr>) ((put_con i c1 srv)\<lparr>conns_used := l\<rparr>)"
      have run: "connection_del i srv = Some (0, srv')"
        using c ku l k True t(1) by (simp add: connection_del_def c1_def l_def [symmetric] set_ndx_def srv'_def Let_def)
      have h: "con_heap srv' = (con_heap srv)(i \<mapsto> c1\<lparr>ndx := -1\<rparr>)" "conns_ptr srv' = conns_ptr srv" "conns_used srv' = l"
        by (simp_all add: srv'_def)
      have "table_ok srv'"
      proof (rule table_okI)
        fix j
        assume "j < length (conns_ptr srv')"
        then have j: "j < length (conns_ptr srv)" by (simp add: h)
        then have "conns_ptr srv ! j = i \<longleftrightarrow> j = k" using t(2) k by (auto simp: nth_eq_iff_index_eq)
        with t(4) [OF j] True l show "\<exists>c. con_heap srv' (conns_ptr srv' ! j) = Some c \<and> ndx c = (if j < conns_used srv' then int j else -1)"
          by (auto simp: h)
      qed (use t l table_dom [OF ok c(1)] in \<open>simp_all add: h\<close>)
      moreover have "\<forall>j e. j \<noteq> i \<longrightarrow> con_heap srv j = Some e \<longrightarrow> (\<exists>n. con_heap srv' j = Some (e\<lparr>ndx := n\<rparr>))"
        using same_ndx by (simp add: h)
      moreover have "ev srv' = ev srv" "fd (c1\<lparr>ndx := -1\<rparr>) = fd c" "con_heap srv' i = Some (c1\<lparr>ndx := -1\<rparr>)"
        by (simp_all add: srv'_def put_con_def c1_def)
      ultimately show ?thesis using run c(1) False' l(3) h(2,3)
        by (intro exI [of _ 0] exI [of _ srv'] exI [of _ c] exI [of _ "c1\<lparr>ndx := -1\<rparr>"]) (simp only: simp_thms if_False, simp)
    next
      case False
      then have kl: "k < l" using l by simp
      define m where "m = conns_ptr srv ! l"
      have m: "m \<noteq> i" using t(2) k l kl by (auto simp: m_def nth_eq_iff_index_eq)
      from t(4) [OF l(1)] obtain e where e: "con_heap srv m = Some e" by (auto simp: m_def)
      define srv' where "srv' = srv\<lparr>conns_ptr := ps, conns_used := l, con_heap := (con_heap srv)(m \<mapsto> e\<lparr>ndx := int k\<rparr>, i \<mapsto> c1\<lparr>ndx := -1\<rparr>)\<rparr>"
      have at: "ps ! k = m" "ps ! l = i" "\<And>j. j < length ps \<Longrightarrow> j \<noteq> k \<Longrightarrow> j \<noteq> l \<Longrightarrow> ps ! j = conns_ptr srv ! j"
        using k l kl by (auto simp: ps_def m_def)
      have ml: "conns_ptr srv ! l = m" and psdef: "(conns_ptr srv)[k := m, l := i] = ps" by (simp_all add: m_def ps_def)
      have c1n: "ndx c1 = int k" using ku by (simp add: c1_def)
      have run: "connection_del i srv = Some (0, srv')"
        using c ku l k kl t(1) m e at(1,2) ml
        by (simp add: connection_del_def c1_def [symmetric] c1n l_def [symmetric] psdef set_ndx_def Let_def put_con_def srv'_def upd_again)
      have "table_ok srv'"
      proof (rule table_okI)
        fix j
        assume "j < length (conns_ptr srv')"
        then have j: "j < length ps" by (simp add: srv'_def)
        have "ps ! j = i \<longleftrightarrow> j = l" "ps ! j = m \<longleftrightarrow> j = k"
          using dps(1,3) at(1,2) j k l by (metis nth_eq_iff_index_eq)+
        moreover have "\<exists>c. con_heap srv (conns_ptr srv ! j) = Some c \<and> ndx c = (if j < conns_used srv then int j else -1)"
          using t(4) [of j] j dps(3) by simp
        ultimately show "\<exists>c. con_heap srv' (conns_ptr srv' ! j) = Some c \<and> ndx c = (if j < conns_used srv' then int j else -1)"
          using at(3) [OF j] kl l(3) m by (auto simp: srv'_def)
      qed (use t(1-3,5) l(3) dps table_dom [OF ok c(1)] table_dom [OF ok e] in \<open>simp_all add: srv'_def\<close>)
      moreover have "\<forall>j x. j \<noteq> i \<longrightarrow> con_heap srv j = Some x \<longrightarrow> (\<exists>n. con_heap srv' j = Some (x\<lparr>ndx := n\<rparr>))"
      proof (intro allI impI)
        fix j x
        assume "j \<noteq> i" "con_heap srv j = Some x"
        then have "con_heap srv' j = Some (x\<lparr>ndx := (if j = m then int k else ndx x)\<rparr>)" using e by (cases "j = m") (simp_all add: srv'_def)
        then show "\<exists>n. con_heap srv' j = Some (x\<lparr>ndx := n\<rparr>)" by blast
      qed
      moreover have "ev srv' = ev srv" "fd (c1\<lparr>ndx := -1\<rparr>) = fd c" "con_heap srv' i = Some (c1\<lparr>ndx := -1\<rparr>)"
        "conns_ptr srv' = ps" "conns_used srv' = l" by (simp_all add: srv'_def c1_def)
      ultimately show ?thesis using run c(1) False' l(3) dps
        by (intro exI [of _ 0] exI [of _ srv'] exI [of _ c] exI [of _ "c1\<lparr>ndx := -1\<rparr>"]) (simp only: simp_thms if_False, simp)
    qed
  qed
qed

section \<open>Properties\<close>

text \<open>What happens to the table: a connection is accepted, or one of the records is closed.\<close>

datatype table_event = Accept accept_env | Close nat

fun table_run :: "plugin_slots \<Rightarrow> table_event list \<Rightarrow> server \<Rightarrow> server option" where
  "table_run sl [] srv = Some srv"
| "table_run sl (Accept env # es) srv = do { (_, srv) \<leftarrow> connection_accept sl env srv; table_run sl es srv }"
| "table_run sl (Close i # es) srv = do { srv \<leftarrow> connection_close i srv; table_run sl es srv }"

definition server_init :: "nat \<Rightarrow> nat \<Rightarrow> fdevent_handler_t \<Rightarrow> specific_config \<Rightarrow> server" where
  "server_init maxcon maxfds ty s = \<lparr>cur_ts = 0, max_conns = maxcon, cur_fds = 0, want_fds = 0, con_opened = 0, con_written = 0,
     con_closed = 0, conns_ptr = [], conns_used = 0, con_heap = Map.empty, joblist = con_list_init, fdwaitqueue = con_list_init,
     ev = fdevent_init maxfds ty, base_conf = s, upload_tempdirs = None, plugins_used = 0, global_bytes_cnt = 0,
     last_generated_date_ts = 0, ts_date_str = None, tmp_chunk_len = buffer_init, server_log = [], config_context = [], config_storage = [s],
     scratch_bufs = \<lparr>cond_check_buf = None, tmp_buf = None\<rparr>\<rparr>"

lemma server_init_ok: "table_ok (server_init maxcon maxfds ty s)"
  by (simp add: table_ok_def server_init_def)

lemma connection_accept_ok:
  assumes ok: "table_ok srv" and hooks: "list_all keeps_place (slot_connection_reset sl)"
    and run: "connection_accept sl env srv = Some (r, srv')"
  shows "table_ok srv' \<and> conns_used srv' \<le> max (conns_used srv) (max_conns srv) \<and> max_conns srv' = max_conns srv \<and>
    (\<forall>i. r = Some i \<longrightarrow> i \<in> set (take (conns_used srv') (conns_ptr srv')) \<and> (\<exists>c. con_heap srv' i = Some c \<and> state c = CON_STATE_REQUEST_START))"
proof (cases "conns_used srv \<ge> max_conns srv \<or> (\<exists>e. ae_accept env = Inr e)")
  case True
  with run have "r = None" "srv' = srv" by (auto simp: connection_accept_def split: if_splits)
  with ok show ?thesis by simp
next
  case False
  then obtain cnt where cnt: "ae_accept env = Inl cnt" "conns_used srv < max_conns srv" by (cases "ae_accept env") auto
  define s0 where "s0 = srv\<lparr>cur_fds := cur_fds srv + 1, con_opened := con_opened srv + 1\<rparr>"
  have s0: "table_ok s0" "conns_used s0 = conns_used srv" "max_conns s0 = max_conns srv"
    using table_ok_frame [OF ok, of s0] by (simp_all add: s0_def)
  from run cnt obtain i s1 c e where new: "connections_get_new_connection sl s0 = Some (i, s1)" "con_heap s1 i = Some c"
      "fdevent_register (ev s1) cnt i = Some e" and r: "r = (if ae_fcntl env = -1 then None else Some i)"
      "srv' = put_con i (connection_set_state (c\<lparr>fd := cnt, fde_ndx := -1\<rparr>) CON_STATE_REQUEST_START
         \<lparr>connection_start := cur_ts s1, dst_addr := ae_inet env, dst_addr_buf := Some (ae_address env), srv_socket := ae_socket env\<rparr>) (s1\<lparr>ev := e\<rparr>)"
    by (auto simp: connection_accept_def s0_def [symmetric] bind_Some_iff Let_def connection_set_state_def)
  from get_new_connection_ok [OF s0(1) hooks new(1)] s0(2) new(2) have n: "table_ok s1" "conns_used s1 = conns_used srv + 1"
      "conns_ptr s1 ! conns_used srv = i" "i \<in> set (conns_ptr s1)" by simp_all
  have m: "max_conns s1 = max_conns srv"
    using new(1) s0(3) by (auto simp: connections_get_new_connection_def conns_grow_def put_con_def bind_Some_iff Let_def split: if_splits)
  have "table_ok (s1\<lparr>ev := e\<rparr>)" by (rule table_ok_frame [OF n(1)]) simp_all
  then have ok': "table_ok srv'" unfolding r(2) by (rule table_put_con) (use new(2) in \<open>simp_all add: connection_set_state_def\<close>)
  have "i \<in> set (take (conns_used srv') (conns_ptr srv'))"
    using n(2,3) table_okD(1) [OF n(1)] by (simp add: r(2) take_Suc_conv_app_nth)
  with ok' n m cnt(2) r show ?thesis by (auto simp: connection_set_state_def put_con_def)
qed

lemma connection_close_ok:
  assumes ok: "table_ok srv" and i: "i \<in> set (conns_ptr srv)" and run: "connection_close i srv = Some srv'"
  shows "table_ok srv' \<and> conns_used srv' \<le> conns_used srv \<and> max_conns srv' = max_conns srv \<and> set (conns_ptr srv') = set (conns_ptr srv) \<and>
    (\<exists>c d. con_heap srv i = Some c \<and> con_heap srv' i = Some d \<and> ndx d = -1 \<and> state d = CON_STATE_CONNECT \<and>
      conns_used srv' = conns_used srv - (if ndx c = -1 then 0 else 1))"
proof -
  from run obtain c fde e1 e2 r s1 d where c: "con_heap srv i = Some c" "fdevent_event_del (ev srv) (fde_ndx c) (fd c) = Some (fde, e1)"
      "fdevent_unregister e1 (fd c) = Some e2" and
    del: "connection_del i ((put_con i (c\<lparr>fde_ndx := fde\<rparr>) srv)\<lparr>ev := e2, server_log := server_log srv @ [Close_socket (fd c)], cur_fds := cur_fds srv - 1\<rparr>)
        = Some (r, s1)" "con_heap s1 i = Some d" "srv' = put_con i (connection_set_state d CON_STATE_CONNECT) s1"
    by (auto simp: connection_close_def bind_Some_iff Let_def)
  define s0 where "s0 = (put_con i (c\<lparr>fde_ndx := fde\<rparr>) srv)\<lparr>ev := e2, server_log := server_log srv @ [Close_socket (fd c)], cur_fds := cur_fds srv - 1\<rparr>"
  have "table_ok (put_con i (c\<lparr>fde_ndx := fde\<rparr>) srv)" by (rule table_put_con [OF ok c(1)]) simp
  then have ok0: "table_ok s0" by (rule table_ok_frame) (simp_all add: s0_def)
  have s0: "conns_ptr s0 = conns_ptr srv" "conns_used s0 = conns_used srv" "con_heap s0 i = Some (c\<lparr>fde_ndx := fde\<rparr>)" "max_conns s0 = max_conns srv"
    by (simp_all add: s0_def put_con_def)
  have del': "connection_del i s0 = Some (r, s1)" using del(1) by (simp add: s0_def)
  from connection_del_ok [OF ok0, of i] i s0(1) del' del(2) s0(3) have k: "table_ok s1" "ndx d = -1" "set (conns_ptr s1) = set (conns_ptr s0)"
      "conns_used s1 = conns_used s0 - (if ndx c = -1 then 0 else 1)" by auto
  have m: "max_conns s1 = max_conns s0"
    using del' by (auto simp: connection_del_def set_ndx_def put_con_def bind_Some_iff Let_def split: if_splits)
  have "table_ok srv'" unfolding del(3) by (rule table_put_con [OF k(1) del(2)]) (simp add: connection_set_state_def)
  then show ?thesis using k m s0 c(1) del(3) by (simp add: connection_set_state_def) (simp add: put_con_def)
qed


definition sample_accept :: "int \<Rightarrow> accept_env" where
  "sample_accept d = \<lparr>ae_accept = Inl d, ae_address = ''127.0.0.1'', ae_inet = Some 0x7F000001, ae_socket = \<lparr>srv_token = Some '':80'', srv_port = 80\<rparr>, ae_fcntl = 0\<rparr>"

lemma sample_table_run:
  "table_run no_plugins [Accept (sample_accept 5), Accept (sample_accept 6), Close 0] (server_init 10 64 FDEVENT_HANDLER_POLL config_none) \<noteq> None"
  by code_simp


end
