(* ===== verification/Response_Header.thy ===== *)
theory Response_Header imports Read_Queue Server_State Header_Table Http_Chunk Keyvalue Buffer_Encode begin

text \<open>
  The head of a response: \<open>http_response_write_header\<close> of \<open>src/src/response.c\<close> and \<open>connection_handle_write_prepare\<close> of
  \<open>connections.c\<close>, which settles status, body, \<open>Content-Length\<close> and keep-alive before the head is put in front of the
  write queue. \<open>strftime\<close> and the stat cache are parameters. The properties: the head a client reads ends where the
  body begins, and the announced length is the length of the body.
\<close>

section \<open>Writing the head\<close>

record response_env =
  rs_format_date :: "int \<Rightarrow> char list"
  rs_stat :: "char list \<Rightarrow> (int \<times> bstr) option"  \<comment> \<open>size and content type of a file\<close>

definition PACKAGE_DESC :: "char list" where
  "PACKAGE_DESC = ''lighttpd/1.4.28''"

text \<open>\<open>strncasecmp(s, p, strlen(p)) == 0\<close> and \<open>strcasecmp(s, p) == 0\<close>.\<close>

definition nocase_prefix :: "char list \<Rightarrow> char list \<Rightarrow> bool" where
  "nocase_prefix p s \<longleftrightarrow> length p \<le> length (cstr s) \<and> map to_lower_char (take (length p) (cstr s)) = map to_lower_char p"

definition nocase_equal :: "char list \<Rightarrow> char list \<Rightarrow> bool" where
  "nocase_equal s t \<longleftrightarrow> map to_lower_char (cstr s) = map to_lower_char (cstr t)"

definition hidden_header :: "char list \<Rightarrow> bool" where
  "hidden_header k \<longleftrightarrow> nocase_prefix ''X-LIGHTTPD-'' k \<or> nocase_prefix ''X-Sendfile'' k"

text \<open>The pieces appended for the fields, and whether \<open>Date\<close> and \<open>Server\<close> were among them.\<close>

fun header_lines :: "int \<Rightarrow> data_unset option list \<Rightarrow> (char list list \<times> bool \<times> bool) option" where
  "header_lines st [] = Some ([], False, False)"
| "header_lines st (None # ds) = None"
| "header_lines st (Some d # ds) = do {
     v \<leftarrow> string_value d;
     (ls, have_date, have_server) \<leftarrow> header_lines st ds;
     case (v, dkey d) of
       (Some v, Some k) \<Rightarrow>
         if hidden_header k then Some (ls, have_date, have_server)
         else (let have_date = (nocase_equal k ''Date'' \<or> have_date); have_server = (nocase_equal k ''Server'' \<or> have_server) in
           if nocase_equal k ''Content-Encoding'' \<and> st = 304 then Some (ls, have_date, have_server)
           else Some ([line_end, k, '': '', v] @ ls, have_date, have_server))
     | _ \<Rightarrow> Some (ls, have_date, have_server) }"

text \<open>A buffer is set to the first piece and the others are appended.\<close>

fun append_pieces :: "bufp \<Rightarrow> char list list \<Rightarrow> bufp option" where
  "append_pieces b [] = Some b"
| "append_pieces b (p # ps) = do { (_, b) \<leftarrow> buffer_append_string_len b (Some (map Some p)) (length p); append_pieces b ps }"

definition write_pieces :: "char list list \<Rightarrow> bufp \<Rightarrow> bufp option" where
  "write_pieces ps b =
     (case ps of
        [] \<Rightarrow> Some b
      | p # ps \<Rightarrow> do { (_, b) \<leftarrow> buffer_copy_string_len b (Some (map Some p)) (length p); append_pieces b ps })"

definition fill_chunk :: "nat \<Rightarrow> char list list \<Rightarrow> chunkqueue \<Rightarrow> chunkqueue option" where
  "fill_chunk a ps q = do {
     k \<leftarrow> cells q a;
     m \<leftarrow> write_pieces ps (cmem k);
     Some (q\<lparr>cells := (cells q)(a \<mapsto> k\<lparr>cmem := m\<rparr>)\<rparr>) }"

definition status_name :: "int \<Rightarrow> char list" where
  "status_name st = (case get_http_status_name st of None \<Rightarrow> [] | Some s \<Rightarrow> s)"

definition settle_keep_alive :: "connection \<Rightarrow> connection" where
  "settle_keep_alive c =
     (if request_count c > cf_max_keep_alive_requests (cconf c) \<or> cf_max_keep_alive_idle (cconf c) = 0 then c\<lparr>keep_alive := 0\<rparr>
      else c\<lparr>keep_alive_idle := int (cf_max_keep_alive_idle (cconf c))\<rparr>)"

definition connection_field :: "connection \<Rightarrow> array \<Rightarrow> array option" where
  "connection_field c hs =
     (if http_version (req c) \<noteq> HTTP_VERSION_1_1 \<or> keep_alive c = 0
      then response_header_overwrite hs ''Connection'' (Some (if keep_alive c \<noteq> 0 then ''keep-alive'' else ''close''))
      else Some hs)"

definition encoding_header :: "connection \<Rightarrow> array \<Rightarrow> array option" where
  "encoding_header c hs =
     (if resp_chunked (resp c) then response_header_overwrite hs ''Transfer-Encoding'' (Some ''chunked'') else Some hs)"

definition server_pieces :: "connection \<Rightarrow> char list list" where
  "server_pieces c =
     (case cf_server_tag (cconf c) of
        None \<Rightarrow> [line_end @ ''Server: '' @ PACKAGE_DESC]
      | Some s \<Rightarrow> if s = [] then [] else [line_end @ ''Server: '', encode ENCODING_HTTP_HEADER s])"

definition http_response_write_header :: "response_env \<Rightarrow> server \<Rightarrow> connection \<Rightarrow> (server \<times> connection) option" where
  "http_response_write_header env srv c = do {
     (a, q) \<leftarrow> chunkqueue_get_prepend_buffer (write_queue c);
     let c = settle_keep_alive c;
     hs \<leftarrow> connection_field c (resp_headers (resp c));
     hs \<leftarrow> encoding_header c hs;
     (ls, have_date, have_server) \<leftarrow> header_lines (http_status c) (take (used hs) (adata hs));
     let srv = (if \<not> have_date \<and> cur_ts srv \<noteq> last_generated_date_ts srv
                then srv\<lparr>ts_date_str := Some (cstr (rs_format_date env (cur_ts srv))), last_generated_date_ts := cur_ts srv\<rparr> else srv);
     let ps = [if http_version (req c) = HTTP_VERSION_1_1 then ''HTTP/1.1 '' else ''HTTP/1.0 '', show_int (http_status c), '' '',
       status_name (http_status c)] @ ls @ (if have_date then [] else [line_end @ ''Date: '', bval (ts_date_str srv)]) @
       (if have_server then [] else server_pieces c) @ [line_end @ line_end];
     q \<leftarrow> fill_chunk a ps q;
     k \<leftarrow> cells q a;
     b \<leftarrow> cmem k;
     Some (srv, (set_resp_headers hs c)\<lparr>write_queue := q, bytes_header := int (bused b) - 1\<rparr>) }"

section \<open>Settling the response\<close>

definition drop_body :: "connection \<Rightarrow> connection option" where
  "drop_body c = do { q \<leftarrow> chunkqueue_reset (write_queue c); Some (c\<lparr>write_queue := q\<rparr>) }"

definition prepare_method :: "connection \<Rightarrow> connection option" where
  "prepare_method c =
     (if mode c \<noteq> 0 then Some c
      else if http_method (req c) \<in> {HTTP_METHOD_GET, HTTP_METHOD_POST, HTTP_METHOD_HEAD, HTTP_METHOD_PUT, HTTP_METHOD_MKCOL,
        HTTP_METHOD_DELETE, HTTP_METHOD_COPY, HTTP_METHOD_MOVE, HTTP_METHOD_PROPFIND, HTTP_METHOD_PROPPATCH, HTTP_METHOD_LOCK,
        HTTP_METHOD_UNLOCK} then Some c
      else if http_method (req c) = HTTP_METHOD_OPTIONS then
        (if (http_status c = 0 \<or> http_status c = 200) \<and>
            (case uri_path (conuri c) of None \<Rightarrow> False | Some p \<Rightarrow> p = [] \<or> hd p \<noteq> CHR ''*'') then do {
           hs \<leftarrow> response_header_insert (resp_headers (resp c)) ''Allow'' (Some ''OPTIONS, GET, HEAD, POST'');
           let c = set_resp_headers hs c;
           drop_body (c\<lparr>resp := (resp c)\<lparr>resp_chunked := False, resp_has_length := False\<rparr>, http_status := 200, file_finished := True\<rparr>) }
         else Some c)
      else if http_status c \<in> {400, 414, 505, 207} then Some c
      else Some (c\<lparr>http_status := 501\<rparr>))"

definition error_page :: "int \<Rightarrow> char list list" where
  "error_page st =
     [''<?xml version='' @ [CHR 0x22] @ ''1.0'' @ [CHR 0x22] @ '' encoding='' @ [CHR 0x22] @ ''iso-8859-1'' @ [CHR 0x22] @ [CHR 0x3F] @ ''>'' @ [CHR 0x0A] @
      ''<!DOCTYPE html PUBLIC '' @ [CHR 0x22] @ ''-//W3C//DTD XHTML 1.0 Transitional//EN'' @ [CHR 0x22] @ [CHR 0x0A] @
      ''         '' @ [CHR 0x22] @ ''http://www.w3.org/TR/xhtml1/DTD/xhtml1-transitional.dtd'' @ [CHR 0x22] @ ''>'' @ [CHR 0x0A] @
      ''<html xmlns='' @ [CHR 0x22] @ ''http://www.w3.org/1999/xhtml'' @ [CHR 0x22] @ '' xml:lang='' @ [CHR 0x22] @ ''en'' @ [CHR 0x22] @
      '' lang='' @ [CHR 0x22] @ ''en'' @ [CHR 0x22] @ ''>'' @ [CHR 0x0A] @ '' <head>'' @ [CHR 0x0A] @ ''  <title>'',
      show_int st, '' - '', status_name st,
      ''</title>'' @ [CHR 0x0A] @ '' </head>'' @ [CHR 0x0A] @ '' <body>'' @ [CHR 0x0A] @ ''  <h1>'',
      show_int st, '' - '', status_name st,
      ''</h1>'' @ [CHR 0x0A] @ '' </body>'' @ [CHR 0x0A] @ ''</html>'' @ [CHR 0x0A]]"

definition set_phys_path :: "bstr \<Rightarrow> connection \<Rightarrow> connection" where
  "set_phys_path v c = c\<lparr>phys := (phys c)\<lparr>phys_path := v\<rparr>\<rparr>"

definition value_buffer :: "bstr \<Rightarrow> buffer" where
  "value_buffer v = (case v of None \<Rightarrow> buffer_init | Some s \<Rightarrow> \<lparr>bptr = map Some s @ [Some NUL], bused = length s + 1, bsize = length s + 1\<rparr>)"

text \<open>The configured error file, if there is one.\<close>

definition try_errorfile :: "response_env \<Rightarrow> server \<Rightarrow> connection \<Rightarrow> (server \<times> connection) option" where
  "try_errorfile env srv c =
     (case cf_errorfile_prefix (cconf c) of
        None \<Rightarrow> Some (srv, c)
      | Some pre \<Rightarrow> (
          let path = pre @ show_int (http_status c) @ ''.html''; c = set_phys_path (Some path) c in
          case rs_stat env (cstr path) of
            None \<Rightarrow> Some (srv, c)
          | Some (n, ty) \<Rightarrow> do {
              (b, q) \<leftarrow> http_chunk_append_file (resp_chunked (resp c)) (tmp_chunk_len srv) (write_queue c) (Some (value_buffer (Some path))) 0 n;
              hs \<leftarrow> response_header_overwrite (resp_headers (resp c)) ''Content-Type'' ty;
              Some (srv\<lparr>tmp_chunk_len := b\<rparr>, (set_resp_headers hs c)\<lparr>file_finished := True, write_queue := q\<rparr>) }))"

definition default_error_page :: "connection \<Rightarrow> connection option" where
  "default_error_page c =
     (if file_finished c then Some c
      else do {
        (a, q) \<leftarrow> chunkqueue_get_append_buffer (write_queue c);
        q \<leftarrow> fill_chunk a (error_page (http_status c)) q;
        hs \<leftarrow> response_header_overwrite (resp_headers (resp c)) ''Content-Type'' (Some ''text/html'');
        Some ((set_resp_headers hs (set_phys_path None c))\<lparr>file_finished := True, write_queue := q\<rparr>) })"

definition prepare_body :: "response_env \<Rightarrow> server \<Rightarrow> connection \<Rightarrow> (server \<times> connection) option" where
  "prepare_body env srv c =
     (if http_status c \<in> {204, 205, 304} then do {
        c \<leftarrow> drop_body (c\<lparr>resp := (resp c)\<lparr>resp_chunked := False, resp_has_length := False\<rparr>\<rparr>);
        Some (srv, c\<lparr>file_finished := True\<rparr>) }
      else if mode c \<noteq> 0 \<or> http_status c < 400 \<or> http_status c \<ge> 600 then Some (srv, c)
      else do {
        (srv, c) \<leftarrow> try_errorfile env srv (set_phys_path None (c\<lparr>file_finished := False\<rparr>));
        c \<leftarrow> default_error_page c;
        Some (srv, c) })"

definition clear_value :: "data_unset \<Rightarrow> data_unset option" where
  "clear_value d = (case dvalue d of
     Data_String v \<Rightarrow> Some (d\<lparr>dvalue := Data_String None\<rparr>)
   | Data_Response v \<Rightarrow> Some (d\<lparr>dvalue := Data_Response None\<rparr>)
   | _ \<Rightarrow> None)"

definition no_body_status :: "int \<Rightarrow> bool" where
  "no_body_status st \<longleftrightarrow> (st \<ge> 100 \<and> st < 200) \<or> st = 204 \<or> st = 304"

definition prepare_length :: "connection \<Rightarrow> connection option" where
  "prepare_length c =
     (if file_finished c then
        (if \<not> resp_has_length (resp c) \<and> \<not> resp_chunked (resp c) then do {
           qlen \<leftarrow> chunkqueue_length (write_queue c);
           if no_body_status (http_status c) then do {
             r \<leftarrow> change_element (resp_headers (resp c)) ''Content-Length'' clear_value;
             Some (case r of None \<Rightarrow> c | Some hs \<Rightarrow> set_resp_headers hs c) }
           else if qlen > 0 \<or> http_method (req c) \<noteq> HTTP_METHOD_HEAD then do {
             hs \<leftarrow> response_header_overwrite (resp_headers (resp c)) ''Content-Length'' (Some (show_int qlen));
             Some (set_resp_headers hs c) }
           else Some c }
         else Some c)
      else (
        let c = (if \<not> resp_has_length (resp c) \<and> \<not> resp_chunked (resp c) then c\<lparr>keep_alive := 0\<rparr> else c) in
        Some (if resp_has_connection (resp c) \<and> keep_alive c \<noteq> 0 \<and> response_keep_alive c = 0 then c\<lparr>keep_alive := 0\<rparr> else c)))"

definition prepare_head_only :: "connection \<Rightarrow> connection option" where
  "prepare_head_only c =
     (if http_method (req c) = HTTP_METHOD_HEAD
      then drop_body (c\<lparr>file_finished := True, resp := (resp c)\<lparr>resp_chunked := False\<rparr>\<rparr>) else Some c)"

definition connection_handle_write_prepare :: "response_env \<Rightarrow> server \<Rightarrow> connection \<Rightarrow> (server \<times> connection) option" where
  "connection_handle_write_prepare env srv c = do {
     c \<leftarrow> prepare_method c;
     (srv, c) \<leftarrow> prepare_body env srv (if http_status c = 0 then c\<lparr>http_status := 403\<rparr> else c);
     c \<leftarrow> prepare_length c;
     c \<leftarrow> prepare_head_only c;
     http_response_write_header env srv c }"

section \<open>Filling a chunk\<close>

lemma append_pieces_repr:
  "buf_repr b (Some t) \<Longrightarrow> \<exists>b'. append_pieces (Some b) ps = Some (Some b') \<and> buf_repr b' (Some (t @ concat ps))"
proof (induction ps arbitrary: b t)
  case (Cons p ps)
  from buffer_append_string_len_repr [OF Cons.prems, of "length p" p] obtain b1 where
    "buffer_append_string_len (Some b) (Some (map Some p)) (length p) = Some (0, Some b1)" "buf_repr b1 (Some (t @ p))"
    by (cases "p = []") auto
  with Cons.IH [of b1 "t @ p"] show ?case by auto
qed simp

lemma write_pieces_repr:
  assumes "buf_repr b v"
  shows "\<exists>b'. write_pieces (p # ps) (Some b) = Some (Some b') \<and> buf_repr b' (Some (concat (p # ps)))"
proof -
  from buffer_copy_string_len_repr [OF buf_repr_wf [OF assms], of "length p" p] obtain b1 where
    "buffer_copy_string_len (Some b) (Some (map Some p)) (length p) = Some (0, Some b1)" "buf_repr b1 (Some p)" by auto
  with append_pieces_repr [of b1 p ps] show ?thesis by (auto simp: write_pieces_def)
qed

lemma fill_chunk_repr:
  assumes sh: "cq_shape q as us []" and a: "a \<in> set as" and val: "chunk_value (the (cells q a)) = (Mem_Data None, 0)"
  shows "\<exists>q' k b. fill_chunk a (p # ps) q = Some q' \<and> cq_shape q' as us [] \<and> same_rest q q' \<and>
    contents q' as = map (\<lambda>x. if x = a then (Mem_Data (Some (concat (p # ps))), 0) else chunk_value (the (cells q x))) as \<and>
    cells q' a = Some k \<and> cmem k = Some b \<and> int (bused b) - 1 = int (length (concat (p # ps)))"
proof -
  from cq_shapeD(11) [OF sh, of a] a obtain k where k: "cells q a = Some k" by auto
  from cq_shapeD(9) [OF sh k] obtain b v where b: "cmem k = Some b" "buf_repr b v" by (auto simp: chunk_ok_def is_string_def)
  have ty: "ctype k = MEM_CHUNK" "coffset k = 0" using val k cq_shapeD(10) [OF sh k a] by (cases "ctype k"; simp add: chunk_value_def)+
  from write_pieces_repr [OF b(2), of p ps] obtain b' where
    b': "write_pieces (p # ps) (Some b) = Some (Some b')" "buf_repr b' (Some (concat (p # ps)))" by blast
  define k' where "k' = k\<lparr>cmem := Some b'\<rparr>"
  define q' where "q' = q\<lparr>cells := (cells q)(a \<mapsto> k')\<rparr>"
  have "is_string (Some b')" using b'(2) unfolding is_string_def by blast
  then have ok: "chunk_ok k'" using cq_shapeD(9) [OF sh k] by (simp add: k'_def chunk_ok_def)
  have "cq_shape q' as us []" unfolding q'_def by (rule shape_upd [OF sh k _ _ ok]) (simp_all add: k'_def)
  moreover have "chunk_value k' = (Mem_Data (Some (concat (p # ps))), 0)" using b'(2) ty by (simp add: k'_def chunk_value_def)
  then have "contents q' as = map (\<lambda>x. if x = a then (Mem_Data (Some (concat (p # ps))), 0) else chunk_value (the (cells q x))) as"
    by (simp add: contents_def q'_def)
  moreover have "fill_chunk a (p # ps) q = Some q'" using k b(1) b'(1) by (simp add: fill_chunk_def q'_def k'_def)
  moreover have "int (bused b') - 1 = int (length (concat (p # ps)))" using buf_repr_SomeD [OF b'(2)] by simp
  moreover have "same_rest q q'" by (simp add: same_rest_def q'_def)
  ultimately show ?thesis by (intro exI [of _ q'] exI [of _ k'] exI [of _ b']) (simp add: q'_def k'_def)
qed

lemma prepend_text:
  assumes "cq_repr q ds"
  shows "\<exists>a q1 q2 k b. chunkqueue_get_prepend_buffer q = Some (a, q1) \<and> fill_chunk a (p # ps) q1 = Some q2 \<and>
    cq_repr q2 ((Mem_Data (Some (concat (p # ps))), 0) # ds) \<and> cells q2 a = Some k \<and> cmem k = Some b \<and>
    int (bused b) - 1 = int (length (concat (p # ps)))"
proof -
  from assms obtain as us where sh: "cq_shape q as us []" "contents q as = ds" by (auto simp: cq_repr_def)
  from new_mem_chunk_prepend [OF sh(1) fills_reset] obtain a q1 where
    q1: "chunkqueue_get_prepend_buffer q = Some (a, q1)" "cq_shape q1 (a # as) (tl us) []" "contents q1 (a # as) = (Mem_Data None, 0) # contents q as"
    by (auto simp: chunkqueue_get_prepend_buffer_def)
  have a: "chunk_value (the (cells q1 a)) = (Mem_Data None, 0)" "contents q1 as = ds" "a \<notin> set as"
    using q1(3) sh(2) cq_shapeD(3) [OF q1(2)] by (auto simp: contents_def)
  have "a \<in> set (a # as)" by simp
  from fill_chunk_repr [OF q1(2) this a(1), of p ps] obtain q2 k b where q2: "fill_chunk a (p # ps) q1 = Some q2" "cq_shape q2 (a # as) (tl us) []"
      "contents q2 (a # as) = map (\<lambda>x. if x = a then (Mem_Data (Some (concat (p # ps))), 0) else chunk_value (the (cells q1 x))) (a # as)"
      "cells q2 a = Some k" "cmem k = Some b" "int (bused b) - 1 = int (length (concat (p # ps)))" by blast
  have "contents q2 (a # as) = (Mem_Data (Some (concat (p # ps))), 0) # ds" unfolding q2(3) using a(2,3) by (auto simp: contents_def)
  with q1(1) q2 show ?thesis unfolding cq_repr_def by blast
qed

lemma append_text:
  assumes "cq_repr q ds"
  shows "\<exists>a q1 q2. chunkqueue_get_append_buffer q = Some (a, q1) \<and> fill_chunk a (p # ps) q1 = Some q2 \<and>
    cq_repr q2 (ds @ [(Mem_Data (Some (concat (p # ps))), 0)])"
proof -
  from assms obtain as us where sh: "cq_shape q as us []" "contents q as = ds" by (auto simp: cq_repr_def)
  from new_mem_chunk_append [OF sh(1) fills_reset] obtain a q1 where
    q1: "chunkqueue_get_append_buffer q = Some (a, q1)" "cq_shape q1 (as @ [a]) (tl us) []" "contents q1 (as @ [a]) = contents q as @ [(Mem_Data None, 0)]"
    by (auto simp: chunkqueue_get_append_buffer_def)
  have a: "chunk_value (the (cells q1 a)) = (Mem_Data None, 0)" "contents q1 as = ds" "a \<notin> set as"
    using q1(3) sh(2) cq_shapeD(3) [OF q1(2)] by (auto simp: contents_def)
  have "a \<in> set (as @ [a])" by simp
  from fill_chunk_repr [OF q1(2) this a(1), of p ps] obtain q2 k b where q2: "fill_chunk a (p # ps) q1 = Some q2" "cq_shape q2 (as @ [a]) (tl us) []"
      "contents q2 (as @ [a]) = map (\<lambda>x. if x = a then (Mem_Data (Some (concat (p # ps))), 0) else chunk_value (the (cells q1 x))) (as @ [a])" by blast
  have "contents q2 (as @ [a]) = ds @ [(Mem_Data (Some (concat (p # ps))), 0)]" unfolding q2(3) using a(2,3) by (auto simp: contents_def)
  with q1(1) q2(1,2) show ?thesis unfolding cq_repr_def by blast
qed

section \<open>The text of the head\<close>

text \<open>Lines, each ended by CR LF, and an empty line.\<close>

definition head_text :: "char list list \<Rightarrow> char list" where
  "head_text ls = concat (map (\<lambda>l. l @ line_end) ls) @ line_end"

definition line_ok :: "char list \<Rightarrow> bool" where
  "line_ok l \<longleftrightarrow> l \<noteq> [] \<and> CHR 0x0D \<notin> set l"

lemma find_header_end_skip: "CHR 0x0D \<notin> set l \<Longrightarrow> find_header_end (l @ t) = map_option (\<lambda>n. length l + n) (find_header_end t)"
proof (induction l)
  case Nil
  then show ?case by (cases "find_header_end t") simp_all
next
  case (Cons c l)
  then have "\<not> prefix CRLFCRLF ((c # l) @ t)" by (auto simp: CRLFCRLF_def)
  with Cons show ?case by (cases "find_header_end t") simp_all
qed

lemma find_header_end_line:
  assumes "line_ok l"
  shows "find_header_end (line_end @ l @ t) = map_option (\<lambda>n. 2 + n) (find_header_end (l @ t))"
proof -
  obtain c r where l: "l = c # r" "c \<noteq> CHR 0x0D" using assms by (cases l) (auto simp: line_ok_def)
  then show ?thesis by (cases "find_header_end (r @ t)") (simp_all add: line_end_def CRLFCRLF_def)
qed

lemma find_header_end_head:
  assumes "list_all line_ok ls" and "ls \<noteq> []"
  shows "find_header_end (head_text ls) = Some (length (head_text ls))"
  using assms
proof (induction ls)
  case (Cons l ls)
  then have l: "CHR 0x0D \<notin> set l" by (simp add: line_ok_def)
  show ?case
  proof (cases ls)
    case Nil
    then show ?thesis using find_header_end_skip [OF l, of "line_end @ line_end"] by (simp add: head_text_def line_end_def CRLFCRLF_def)
  next
    case (Cons m ms)
    then have "line_ok m" "find_header_end (head_text ls) = Some (length (head_text ls))" using Cons.IH Cons.prems by simp_all
    moreover have "head_text (l # ls) = l @ line_end @ head_text ls" by (simp add: head_text_def)
    moreover have "head_text ls = m @ line_end @ head_text ms" by (simp add: head_text_def Cons)
    ultimately show ?thesis using find_header_end_skip [OF l, of "line_end @ head_text ls"] find_header_end_line [of m "line_end @ head_text ms"]
      by (simp add: line_end_def)
  qed
qed simp

text \<open>The fields that are sent.\<close>

fun shown_fields :: "int \<Rightarrow> (char list \<times> bstr) list \<Rightarrow> (char list \<times> char list) list" where
  "shown_fields st [] = []"
| "shown_fields st ((k, v) # fs) =
     (case v of
        Some s \<Rightarrow> if hidden_header k \<or> nocase_equal k ''Content-Encoding'' \<and> st = 304 then shown_fields st fs else (k, s) # shown_fields st fs
      | None \<Rightarrow> shown_fields st fs)"

definition has_field :: "char list \<Rightarrow> (char list \<times> bstr) list \<Rightarrow> bool" where
  "has_field nm fs \<longleftrightarrow> list_ex (\<lambda>(k, v). v \<noteq> None \<and> \<not> hidden_header k \<and> nocase_equal k nm) fs"

lemma header_lines_fields:
  assumes "list_all element_ok es"
  shows "header_lines st (map Some es) =
    Some (concat (map (\<lambda>(k, s). [line_end, k, '': '', s]) (shown_fields st (map field es))), has_field ''Date'' (map field es), has_field ''Server'' (map field es))"
  using assms
proof (induction es)
  case Nil
  then show ?case by (simp add: has_field_def)
next
  case (Cons e es)
  then obtain k v where e: "dkey e = Some k" "string_value e = Some v" by (auto simp: element_ok_def)
  then have f: "field e = (k, v)" by (simp add: field_def)
  show ?case using Cons e f by (cases v) (auto simp: has_field_def)
qed

lemma shown_fields_set: "(k, s) \<in> set (shown_fields st fs) \<Longrightarrow> (k, Some s) \<in> set fs"
  by (induction st fs rule: shown_fields.induct) (auto split: option.splits if_splits)

lemma lines_concat: "concat (concat (map (\<lambda>(k, s). [line_end, k, '': '', s]) fs)) = concat (map (\<lambda>(k, s). line_end @ k @ '': '' @ s) fs)"
  by (induction fs) auto

lemma head_text_concat: "head_text (l # ls) = l @ concat (map (\<lambda>m. line_end @ m) ls) @ line_end @ line_end"
  by (induction ls arbitrary: l) (auto simp: head_text_def)

definition final_fields :: "connection \<Rightarrow> (char list \<times> bstr) list \<Rightarrow> (char list \<times> bstr) list" where
  "final_fields c fs = (
     let fs = (if http_version (req c) \<noteq> HTTP_VERSION_1_1 \<or> keep_alive c = 0
               then put_field ''Connection'' (Some (if keep_alive c \<noteq> 0 then ''keep-alive'' else ''close'')) fs else fs)
     in if resp_chunked (resp c) then put_field ''Transfer-Encoding'' (Some ''chunked'') fs else fs)"

definition date_text :: "response_env \<Rightarrow> server \<Rightarrow> char list" where
  "date_text env srv = (if cur_ts srv \<noteq> last_generated_date_ts srv then cstr (rs_format_date env (cur_ts srv)) else bval (ts_date_str srv))"

definition server_lines :: "connection \<Rightarrow> char list list" where
  "server_lines c =
     (case cf_server_tag (cconf c) of
        None \<Rightarrow> [''Server: '' @ PACKAGE_DESC]
      | Some s \<Rightarrow> if s = [] then [] else [''Server: '' @ encode ENCODING_HTTP_HEADER s])"

definition status_line :: "connection \<Rightarrow> char list" where
  "status_line c = (if http_version (req c) = HTTP_VERSION_1_1 then ''HTTP/1.1 '' else ''HTTP/1.0 '') @
     show_int (http_status c) @ '' '' @ status_name (http_status c)"

definition head_lines :: "response_env \<Rightarrow> server \<Rightarrow> connection \<Rightarrow> (char list \<times> bstr) list \<Rightarrow> char list list" where
  "head_lines env srv c fs = [status_line c] @ map (\<lambda>(k, s). k @ '': '' @ s) (shown_fields (http_status c) fs) @
     (if has_field ''Date'' fs then [] else [''Date: '' @ date_text env srv]) @
     (if has_field ''Server'' fs then [] else server_lines c)"

lemma settle_keep_alive_frame [simp]:
  "http_status (settle_keep_alive c) = http_status c" "req (settle_keep_alive c) = req c" "resp (settle_keep_alive c) = resp c"
  "cconf (settle_keep_alive c) = cconf c" "write_queue (settle_keep_alive c) = write_queue c" "file_finished (settle_keep_alive c) = file_finished c"
  "state (settle_keep_alive c) = state c" "status_line (settle_keep_alive c) = status_line c" "server_lines (settle_keep_alive c) = server_lines c"
  by (simp_all add: settle_keep_alive_def status_line_def server_lines_def)

lemma server_pieces_lines: "concat (server_pieces c) = concat (map (\<lambda>m. line_end @ m) (server_lines c))"
  by (simp add: server_pieces_def server_lines_def split: option.splits)

lemma connection_field_repr:
  assumes "headers_repr hs fs" and "length fs + 2 < 2 ^ 31"
  shows "\<exists>hs1 hs2. connection_field c hs = Some hs1 \<and> encoding_header c hs1 = Some hs2 \<and> headers_repr hs2 (final_fields c fs)"
proof -
  have pk: "plain_key ''Connection''" "plain_key ''Transfer-Encoding''" by (simp_all add: plain_key_def)
  define fs1 where "fs1 = (if http_version (req c) \<noteq> HTTP_VERSION_1_1 \<or> keep_alive c = 0
               then put_field ''Connection'' (Some (if keep_alive c \<noteq> 0 then ''keep-alive'' else ''close'')) fs else fs)"
  have ff: "final_fields c fs = (if resp_chunked (resp c) then put_field ''Transfer-Encoding'' (Some ''chunked'') fs1 else fs1)"
    unfolding final_fields_def fs1_def Let_def by (rule refl)
  have "\<exists>hs1. connection_field c hs = Some hs1 \<and> headers_repr hs1 fs1"
    using response_header_overwrite_repr [OF assms(1) pk(1), of "if keep_alive c \<noteq> 0 then ''keep-alive'' else ''close''"] assms
    by (auto simp: connection_field_def fs1_def)
  then obtain hs1 where hs1: "connection_field c hs = Some hs1" "headers_repr hs1 fs1" by blast
  have "length fs1 + 1 < 2 ^ 31" 
    using assms(2) length_put_field [of "''Connection''" "Some ''keep-alive''" fs] length_put_field [of "''Connection''" "Some ''close''" fs]
    by (simp add: fs1_def split del: if_split) (auto split: if_splits)
  with response_header_overwrite_repr [OF hs1(2) pk(2), of "''chunked''"] hs1(2)
  have "\<exists>hs2. encoding_header c hs1 = Some hs2 \<and> headers_repr hs2 (final_fields c fs)"
    by (simp add: encoding_header_def ff)
  with hs1(1) show ?thesis by blast
qed

lemma write_header_result:
  assumes q: "cq_repr (write_queue c) ds" and hs: "headers_repr (resp_headers (resp c)) fs" and room: "length fs + 2 < 2 ^ 31"
    and fs': "fs' = final_fields (settle_keep_alive c) fs" and head: "head = head_text (head_lines env srv c fs')"
  shows "\<exists>srv' c'. http_response_write_header env srv c = Some (srv', c') \<and> cq_repr (write_queue c') ((Mem_Data (Some head), 0) # ds) \<and>
    headers_repr (resp_headers (resp c')) fs' \<and> bytes_header c' = int (length head) \<and>
    (\<exists>hs q n. c' = (set_resp_headers hs (settle_keep_alive c))\<lparr>write_queue := q, bytes_header := n\<rparr>)"
proof -
  define d where "d = settle_keep_alive c"
  from connection_field_repr [OF hs room, of d] obtain hs1 hs2 where
    h: "connection_field d (resp_headers (resp c)) = Some hs1" "encoding_header d hs1 = Some hs2" "headers_repr hs2 fs'"
    by (auto simp: d_def fs')
  from h(3) obtain es where es: "array_repr hs2 es" "list_all element_ok es" "map field es = fs'" by (auto simp: headers_repr_def)
  have tk: "take (used hs2) (adata hs2) = map Some es" using es(1) by (auto simp: array_repr_def array_index_def)
  define ls where "ls = concat (map (\<lambda>(k, s). [line_end, k, '': '', s]) (shown_fields (http_status c) fs'))"
  have hl: "header_lines (http_status c) (take (used hs2) (adata hs2)) = Some (ls, has_field ''Date'' fs', has_field ''Server'' fs')"
    using header_lines_fields [OF es(2), of "http_status c"] tk es(3) by (simp add: ls_def)
  define srv' where "srv' = (if \<not> has_field ''Date'' fs' \<and> cur_ts srv \<noteq> last_generated_date_ts srv
      then srv\<lparr>ts_date_str := Some (cstr (rs_format_date env (cur_ts srv))), last_generated_date_ts := cur_ts srv\<rparr> else srv)"
  have dt: "\<not> has_field ''Date'' fs' \<Longrightarrow> bval (ts_date_str srv') = date_text env srv" by (simp add: srv'_def date_text_def)
  define p where "p = (if http_version (req c) = HTTP_VERSION_1_1 then ''HTTP/1.1 '' else ''HTTP/1.0 '')"
  define ps where "ps = [show_int (http_status c), '' '', status_name (http_status c)] @ ls @
       (if has_field ''Date'' fs' then [] else [line_end @ ''Date: '', bval (ts_date_str srv')]) @
       (if has_field ''Server'' fs' then [] else server_pieces d) @ [line_end @ line_end]"
  have ls: "concat ls = concat (map (\<lambda>(k, s). line_end @ k @ '': '' @ s) (shown_fields (http_status c) fs'))"
    unfolding ls_def by (rule lines_concat)
  have sp: "server_pieces d = server_pieces c" by (simp add: server_pieces_def d_def)
  have whole: "concat (p # ps) = head"
    unfolding head head_lines_def append_Cons append_Nil head_text_concat
    by (simp add: p_def ps_def ls status_line_def server_pieces_lines dt comp_def case_prod_unfold sp)
  from prepend_text [OF q, of p ps, unfolded whole] obtain a q1 q2 k b where
    t: "chunkqueue_get_prepend_buffer (write_queue c) = Some (a, q1)" "fill_chunk a (p # ps) q1 = Some q2"
      "cq_repr q2 ((Mem_Data (Some head), 0) # ds)" "cells q2 a = Some k" "cmem k = Some b" "int (bused b) - 1 = int (length head)" by blast
  have run: "http_response_write_header env srv c = Some (srv', (set_resp_headers hs2 d)\<lparr>write_queue := q2, bytes_header := int (length head)\<rparr>)"
  proof -
    have fr: "resp_headers (resp c) = resp_headers (resp d)" "req c = req d" "http_status c = http_status d" by (simp_all add: d_def)
    have b: "(Some x \<bind> f) = f x" for x and f :: "'x \<Rightarrow> 'y option" by simp
    show ?thesis
      unfolding http_response_write_header_def t(1) d_def [symmetric] b Let_def split_conv
        h(1) [unfolded fr] h(2) hl [unfolded fr] srv'_def [symmetric]
        t(2) [unfolded p_def ps_def fr append.simps sp [symmetric]] append.simps t(4,5) t(6) ..
  qed
  moreover define e where "e = (set_resp_headers hs2 d)\<lparr>write_queue := q2, bytes_header := int (length head)\<rparr>"
  have "write_queue e = q2" "resp_headers (resp e) = hs2" "bytes_header e = int (length head)" by (simp_all add: e_def set_resp_headers_def)
  moreover have "\<exists>hs q n. e = (set_resp_headers hs (settle_keep_alive c))\<lparr>write_queue := q, bytes_header := n\<rparr>"
    unfolding e_def d_def by blast
  ultimately show ?thesis unfolding e_def [symmetric] using t(3) h(3) by (intro exI [of _ srv'] exI [of _ e]) simp
qed

section \<open>Where the head ends\<close>

definition no_cr :: "char list \<Rightarrow> bool" where
  "no_cr s \<longleftrightarrow> CHR 0x0D \<notin> set s"

lemma no_cr_simps [simp]: "no_cr []" "no_cr (c # s) \<longleftrightarrow> c \<noteq> CHR 0x0D \<and> no_cr s" "no_cr (s @ t) \<longleftrightarrow> no_cr s \<and> no_cr t"
  by (auto simp: no_cr_def)

lemma no_cr_number: "no_cr (show_int n)"
  using dec_digits_digit [of "CHR 0x0D" "nat \<bar>n\<bar>"] by (auto simp: no_cr_def show_int_def)

lemma no_cr_status: "no_cr (status_name st)"
proof (cases "get_http_status_name st")
  case (Some s)
  then have "(st, s) \<in> set http_status_table" unfolding get_http_status_name_def by (rule keyvalue_get_value_in)
  moreover have "list_all (\<lambda>(k, s). no_cr s) http_status_table" unfolding http_status_table_def by simp
  ultimately show ?thesis using Some by (auto simp: status_name_def list_all_iff)
qed (simp add: status_name_def)

lemma no_cr_encode: "no_cr s \<Longrightarrow> no_cr (encode ENCODING_HTTP_HEADER s)"
  by (induction s) (simp_all add: encode_def encoded_char_def)

lemma final_fields_ok:
  assumes "\<forall>(k, v) \<in> set fs. no_cr k \<and> no_cr (bval v)"
  shows "\<forall>(k, v) \<in> set (final_fields c fs). no_cr k \<and> no_cr (bval v)"
proof -
  have put: "\<forall>(k, v) \<in> set (put_field k s fs). no_cr k \<and> no_cr (bval v)"
    if "\<forall>(k, v) \<in> set fs. no_cr k \<and> no_cr (bval v)" and "no_cr k" and "no_cr (bval s)" for k s and fs :: "(char list \<times> bstr) list"
    using put_field_set [of _ k s fs] that by fastforce
  have "\<forall>(k, v) \<in> set (put_field ''Connection'' (Some (if keep_alive c \<noteq> 0 then ''keep-alive'' else ''close'')) fs). no_cr k \<and> no_cr (bval v)"
    by (rule put [OF assms]) simp_all
  then show ?thesis unfolding final_fields_def Let_def using assms put [of _ "''Transfer-Encoding''" "Some ''chunked''"] by simp
qed

lemma head_lines_ok:
  assumes "\<forall>(k, v) \<in> set fs. no_cr k \<and> no_cr (bval v)" and "no_cr (date_text env srv)" and "no_cr (bval (cf_server_tag (cconf c)))"
  shows "list_all line_ok (head_lines env srv c fs)"
proof -
  have "line_ok (k @ '': '' @ s)" if "(k, s) \<in> set (shown_fields (http_status c) fs)" for k s
    using assms(1) shown_fields_set [OF that] by (auto simp: line_ok_def no_cr_def)
  then have "list_all (\<lambda>(k, s). line_ok (k @ '': '' @ s)) (shown_fields (http_status c) fs)" by (auto simp: list_all_iff)
  moreover have "line_ok (status_line c)"
    using no_cr_number [of "http_status c"] no_cr_status [of "http_status c"] by (auto simp: status_line_def line_ok_def no_cr_def)
  moreover have "list_all line_ok (server_lines c)"
    using assms(3) no_cr_encode [of "bval (cf_server_tag (cconf c))"]
    by (auto simp: server_lines_def line_ok_def no_cr_def PACKAGE_DESC_def split: option.splits)
  moreover have "line_ok (''Date: '' @ date_text env srv)" using assms(2) by (auto simp: line_ok_def no_cr_def)
  ultimately show ?thesis unfolding head_lines_def list_all_iff by (auto simp del: append.simps)
qed

lemma find_header_end_append: "find_header_end t = Some n \<Longrightarrow> find_header_end (t @ u) = Some n"
proof (induction t arbitrary: n)
  case (Cons c t)
  show ?case
  proof (cases "prefix CRLFCRLF (c # t)")
    case True
    then have "prefix CRLFCRLF ((c # t) @ u)" by (rule prefix_prefix)
    then show ?thesis using Cons.prems True by simp
  next
    case False
    then obtain m where m: "find_header_end t = Some m" "n = Suc m" using Cons.prems by auto
    then have "length CRLFCRLF \<le> length (c # t)" using find_header_end_SomeD [OF m(1)] by (simp add: CRLFCRLF_def)
    then have "\<not> prefix CRLFCRLF ((c # t) @ u)" using False by (metis prefix_length_prefix prefixI)
    then show ?thesis using Cons.IH [OF m(1)] m(2) by simp
  qed
qed simp

text \<open>C21: as long as no field name or value, the date text or the configured server tag holds a carriage return, the
  head written in front of the body has its one empty line at its end: a reader that looks for the first CR LF CR LF
  finds the body exactly where it begins, whatever the body is, the rest of the queue is what it was, and the bytes
  counted as header are those of the head.\<close>

theorem response_head_ends_once:
  assumes "cq_repr (write_queue c) ds" and "headers_repr (resp_headers (resp c)) fs" and "length fs + 2 < 2 ^ 31"
    and "\<forall>(k, v) \<in> set fs. no_cr k \<and> no_cr (bval v)" and "no_cr (date_text env srv)" and "no_cr (bval (cf_server_tag (cconf c)))"
  shows "\<exists>srv' c' head. http_response_write_header env srv c = Some (srv', c') \<and>
    cq_repr (write_queue c') ((Mem_Data (Some head), 0) # ds) \<and>
    (\<forall>body. find_header_end (head @ body) = Some (length head)) \<and> bytes_header c' = int (length head)"
proof -
  define fs' where "fs' = final_fields (settle_keep_alive c) fs"
  have "find_header_end (head_text (head_lines env srv c fs')) = Some (length (head_text (head_lines env srv c fs')))"
    by (rule find_header_end_head [OF head_lines_ok [OF final_fields_ok [OF assms(4), of "settle_keep_alive c", folded fs'_def] assms(5,6)]])
      (simp add: head_lines_def)
  from find_header_end_append [OF this] write_header_result [OF assms(1-3) fs'_def refl, of env srv] show ?thesis by blast
qed

section \<open>What is announced\<close>

definition announced :: "connection \<Rightarrow> bool" where
  "announced c \<longleftrightarrow> file_finished c \<and> \<not> resp_has_length (resp c) \<and> \<not> resp_chunked (resp c) \<and> \<not> no_body_status (http_status c) \<and>
     http_method (req c) \<noteq> HTTP_METHOD_HEAD"

definition body_length :: "(chunk_data \<times> int) list \<Rightarrow> int" where
  "body_length ds = (\<Sum>(d, off) \<leftarrow> ds. data_length d)"

lemma drop_body_repr: "cq_repr (write_queue c) ds \<Longrightarrow> \<exists>q. drop_body c = Some (c\<lparr>write_queue := q\<rparr>) \<and> cq_repr q []"
  using chunkqueue_reset_repr by (fastforce simp: drop_body_def)

lemma prepare_method_result:
  assumes "http_method (req c) \<noteq> HTTP_METHOD_OPTIONS"
  shows "\<exists>st. prepare_method c = Some (c\<lparr>http_status := st\<rparr>)"
  using assms by (auto simp: prepare_method_def intro: exI [of _ "http_status c"])

lemma default_error_page_result:
  assumes q: "cq_repr (write_queue c) ds" and hs: "headers_repr (resp_headers (resp c)) fs" and room: "length fs + 1 < 2 ^ 31"
    and "\<not> file_finished c"
  shows "\<exists>hs' q. default_error_page c = Some ((set_resp_headers hs' (set_phys_path None c))\<lparr>file_finished := True, write_queue := q\<rparr>) \<and>
    headers_repr hs' (put_field ''Content-Type'' (Some ''text/html'') fs) \<and>
    cq_repr q (ds @ [(Mem_Data (Some (concat (error_page (http_status c)))), 0)])"
proof -
  obtain p ps where p: "error_page (http_status c) = p # ps" by (cases "error_page (http_status c)") (simp_all add: error_page_def)
  have pk: "plain_key ''Content-Type''" by (simp add: plain_key_def)
  have "NUL \<notin> set ''text/html''" by simp
  from append_text [OF q, of p ps] response_header_overwrite_repr [OF hs pk room this] show ?thesis
    using assms(4) by (fastforce simp: default_error_page_def p)
qed

definition prepared :: "connection \<Rightarrow> (chunk_data \<times> int) list \<Rightarrow> (char list \<times> bstr) list \<Rightarrow> bool" where
  "prepared c ds fs \<longleftrightarrow> cq_repr (write_queue c) ds \<and> headers_repr (resp_headers (resp c)) fs"

lemma prepare_body_result:
  assumes "prepared c ds fs" and "length fs + 1 < 2 ^ 31" and "cf_errorfile_prefix (cconf c) = None"
  shows "\<exists>c' ds' fs'. prepare_body env srv c = Some (srv, c') \<and> prepared c' ds' fs' \<and> length fs' \<le> length fs + 1 \<and> req c' = req c"
proof -
  consider (empty) "http_status c \<in> {204, 205, 304}"
    | (kept) "http_status c \<notin> {204, 205, 304}" "mode c \<noteq> 0 \<or> http_status c < 400 \<or> http_status c \<ge> 600"
    | (page) "http_status c \<notin> {204, 205, 304}" "\<not> (mode c \<noteq> 0 \<or> http_status c < 400 \<or> http_status c \<ge> 600)" by blast
  then show ?thesis
  proof cases
    case empty
    define c1 where "c1 = c\<lparr>resp := (resp c)\<lparr>resp_chunked := False, resp_has_length := False\<rparr>\<rparr>"
    have "cq_repr (write_queue c1) ds" using assms(1) by (simp add: c1_def prepared_def)
    from drop_body_repr [OF this] obtain q where q: "drop_body c1 = Some (c1\<lparr>write_queue := q\<rparr>)" "cq_repr q []" by blast
    then have "prepare_body env srv c = Some (srv, c1\<lparr>write_queue := q, file_finished := True\<rparr>)"
      using empty by (simp add: prepare_body_def c1_def [symmetric])
    moreover have "prepared (c1\<lparr>write_queue := q, file_finished := True\<rparr>) [] fs" using assms(1) q by (simp add: prepared_def c1_def)
    ultimately show ?thesis by (intro exI conjI) (assumption, assumption, simp_all add: c1_def)
  next
    case kept
    then have "prepare_body env srv c = Some (srv, c)" by (simp add: prepare_body_def)
    with assms(1) show ?thesis by (intro exI conjI) (assumption, assumption, simp_all)
  next
    case page
    define c1 where "c1 = set_phys_path None (c\<lparr>file_finished := False\<rparr>)"
    have t: "try_errorfile env srv c1 = Some (srv, c1)" using assms(3) by (simp add: try_errorfile_def c1_def set_phys_path_def)
    have "cq_repr (write_queue c1) ds" "headers_repr (resp_headers (resp c1)) fs" "\<not> file_finished c1"
      using assms(1) by (simp_all add: c1_def set_phys_path_def prepared_def)
    from default_error_page_result [OF this(1,2) assms(2) this(3)] obtain hs' q where
      d: "default_error_page c1 = Some ((set_resp_headers hs' (set_phys_path None c1))\<lparr>file_finished := True, write_queue := q\<rparr>)"
        "headers_repr hs' (put_field ''Content-Type'' (Some ''text/html'') fs)"
        "cq_repr q (ds @ [(Mem_Data (Some (concat (error_page (http_status c1)))), 0)])" by blast
    then have "prepare_body env srv c = Some (srv, (set_resp_headers hs' (set_phys_path None c1))\<lparr>file_finished := True, write_queue := q\<rparr>)"
      using page t by (simp add: prepare_body_def c1_def [symmetric])
    moreover have "prepared ((set_resp_headers hs' (set_phys_path None c1))\<lparr>file_finished := True, write_queue := q\<rparr>)
        (ds @ [(Mem_Data (Some (concat (error_page (http_status c1)))), 0)]) (put_field ''Content-Type'' (Some ''text/html'') fs)"
      using d by (simp add: prepared_def set_resp_headers_def)
    ultimately show ?thesis using length_put_field [of "''Content-Type''" "Some ''text/html''" fs]
      by (intro exI conjI) (assumption, assumption, simp_all add: c1_def set_phys_path_def set_resp_headers_def)
  qed
qed

lemma clear_value_field: "element_ok d \<Longrightarrow> \<exists>d'. clear_value d = Some d' \<and> element_ok d' \<and> field d' = (fst (field d), None) \<and> dkey d' = dkey d"
  by (cases "dvalue d") (auto simp: clear_value_def element_ok_def string_value_def field_def)

lemma prepare_length_result:
  assumes "prepared c ds fs" and "length fs + 1 < 2 ^ 31"
  shows "\<exists>c' fs'. prepare_length c = Some c' \<and> prepared c' ds fs' \<and> length fs' \<le> length fs + 1 \<and> req c' = req c \<and>
    http_status c' = http_status c \<and> file_finished c' = file_finished c \<and> resp_has_length (resp c') = resp_has_length (resp c) \<and>
    resp_chunked (resp c') = resp_chunked (resp c) \<and>
    (announced c \<longrightarrow> get_field fs' ''Content-Length'' = Some (Some (show_int (body_length ds))))"
proof -
  have q: "chunkqueue_length (write_queue c) = Some (body_length ds)" and hs: "headers_repr (resp_headers (resp c)) fs"
    using assms(1) chunkqueue_length_repr by (auto simp: prepared_def body_length_def)
  have pk: "plain_key ''Content-Length''" by (simp add: plain_key_def)
  consider (silent) "file_finished c" "resp_has_length (resp c) \<or> resp_chunked (resp c)"
    | (none) "file_finished c" "\<not> resp_has_length (resp c)" "\<not> resp_chunked (resp c)" "no_body_status (http_status c)"
    | (put) "file_finished c" "\<not> resp_has_length (resp c)" "\<not> resp_chunked (resp c)" "\<not> no_body_status (http_status c)"
        "body_length ds > 0 \<or> http_method (req c) \<noteq> HTTP_METHOD_HEAD"
    | (head) "file_finished c" "\<not> resp_has_length (resp c)" "\<not> resp_chunked (resp c)" "\<not> no_body_status (http_status c)"
        "\<not> (body_length ds > 0 \<or> http_method (req c) \<noteq> HTTP_METHOD_HEAD)"
    | (opened) "\<not> file_finished c" by blast
  then show ?thesis
  proof cases
    case put
    from response_header_overwrite_repr [OF hs pk assms(2) show_int_no_nul] obtain b where
      b: "response_header_overwrite (resp_headers (resp c)) ''Content-Length'' (Some (show_int (body_length ds))) = Some b"
        "headers_repr b (put_field ''Content-Length'' (Some (show_int (body_length ds))) fs)" by blast
    have "prepare_length c = Some (set_resp_headers b c)" using put q b(1) by (simp add: prepare_length_def)
    moreover have "prepared (set_resp_headers b c) ds (put_field ''Content-Length'' (Some (show_int (body_length ds))) fs)"
      using b(2) assms(1) by (simp add: prepared_def set_resp_headers_def)
    ultimately show ?thesis using length_put_field
      by (intro exI conjI) (assumption, assumption, simp_all add: set_resp_headers_def get_put_field same_name_def)
  next
    case none
    obtain es where es: "array_repr (resp_headers (resp c)) es" "tail_ok (resp_headers (resp c))" "list_all element_ok es" "map field es = fs"
      using hs by (auto simp: headers_repr_def)
    from change_element_field [where f = clear_value and v = None, OF es(1-3) pk] clear_value_field
    have "change_element (resp_headers (resp c)) ''Content-Length'' clear_value = Some None \<or>
      (\<exists>b. change_element (resp_headers (resp c)) ''Content-Length'' clear_value = Some (Some b) \<and> headers_repr b (put_field ''Content-Length'' None fs))"
      using es(4) by blast
    then obtain hs' fs' where h: "prepare_length c = Some (set_resp_headers hs' c)" "headers_repr hs' fs'" "length fs' \<le> length fs + 1"
    proof (elim disjE exE conjE)
      assume "change_element (resp_headers (resp c)) ''Content-Length'' clear_value = Some None"
      with none q hs that [of "resp_headers (resp c)" fs] show thesis by (simp add: prepare_length_def set_resp_headers_def)
    next
      fix b
      assume "change_element (resp_headers (resp c)) ''Content-Length'' clear_value = Some (Some b)" "headers_repr b (put_field ''Content-Length'' None fs)"
      with none q that [of b "put_field ''Content-Length'' None fs"] length_put_field show thesis by (simp add: prepare_length_def)
    qed
    moreover from h(2) have "prepared (set_resp_headers hs' c) ds fs'" using assms(1) by (simp add: prepared_def set_resp_headers_def)
    ultimately show ?thesis using none by (intro exI conjI) (assumption, assumption, simp_all add: set_resp_headers_def announced_def)
  next
    case silent
    then have "prepare_length c = Some c" by (auto simp: prepare_length_def)
    with assms(1) silent show ?thesis by (intro exI conjI) (assumption, assumption, auto simp: announced_def)
  next
    case head
    then have "prepare_length c = Some c" using q by (simp add: prepare_length_def)
    with assms(1) head show ?thesis by (intro exI conjI) (assumption, assumption, auto simp: announced_def)
  next
    case opened
    define ka where "ka = (if \<not> resp_has_length (resp c) \<and> \<not> resp_chunked (resp c) then 0 else keep_alive c)"
    have "prepare_length c = Some (c\<lparr>keep_alive := if resp_has_connection (resp c) \<and> ka \<noteq> 0 \<and> response_keep_alive c = 0 then 0 else ka\<rparr>)"
      using opened by (simp add: prepare_length_def ka_def Let_def)
    with assms(1) opened show ?thesis by (intro exI conjI) (assumption, auto simp: announced_def prepared_def)
  qed
qed

lemma prepare_head_only_result:
  assumes "prepared c ds fs"
  shows "\<exists>c' ds'. prepare_head_only c = Some c' \<and> prepared c' ds' fs \<and> req c' = req c \<and> http_status c' = http_status c \<and>
    (if http_method (req c) = HTTP_METHOD_HEAD then ds' = [] else c' = c \<and> ds' = ds)"
proof (cases "http_method (req c) = HTTP_METHOD_HEAD")
  case True
  define c1 where "c1 = c\<lparr>file_finished := True, resp := (resp c)\<lparr>resp_chunked := False\<rparr>\<rparr>"
  have "cq_repr (write_queue c1) ds" using assms by (simp add: c1_def prepared_def)
  from drop_body_repr [OF this] obtain q where "drop_body c1 = Some (c1\<lparr>write_queue := q\<rparr>)" "cq_repr q []" by blast
  with True assms show ?thesis
    by (intro exI [of _ "c1\<lparr>write_queue := q\<rparr>"] exI [of _ "[]"]) (simp add: prepare_head_only_def prepared_def c1_def)
qed (use assms in \<open>simp add: prepare_head_only_def\<close>)

lemma get_final_field:
  "\<not> same_name ''Connection'' k \<Longrightarrow> \<not> same_name ''Transfer-Encoding'' k \<Longrightarrow> get_field (final_fields c fs) k = get_field fs k"
  unfolding final_fields_def Let_def by (simp add: get_put_field)

lemma length_field_other: "\<not> same_name ''Connection'' ''Content-Length''" "\<not> same_name ''Transfer-Encoding'' ''Content-Length''"
  by (simp_all add: same_name_def fold_key_def)


section \<open>Two responses\<close>

definition plain_env :: response_env where
  "plain_env = \<lparr>rs_format_date = (\<lambda>t. ''Thu, 01 Jan 1970 00:00:00 GMT''), rs_stat = (\<lambda>p. None)\<rparr>"

lemma init_prepared: "cq_repr (write_queue (connection_init config_none None 0)) []"
    "headers_repr (resp_headers (resp (connection_init config_none None 0))) []"
  by (simp_all add: connection_init_def con_init_def con.defs cq_repr_init headers_repr_init)

theorem response_head_ends_once_witness:
  "\<exists>srv' c' head. http_response_write_header plain_env (server_init 1 0 FDEVENT_HANDLER_POLL config_none) (connection_init config_none None 0) = Some (srv', c') \<and>
    cq_repr (write_queue c') [(Mem_Data (Some head), 0)] \<and> find_header_end (head @ ''body'') = Some (length head)"
proof -
  have "no_cr (date_text plain_env (server_init 1 0 FDEVENT_HANDLER_POLL config_none))"
    by (simp add: date_text_def plain_env_def cstr_def server_init_def)
  moreover have "no_cr (bval (cf_server_tag (cconf (connection_init config_none None 0))))"
    by (simp add: connection_init_def con_init_def con.defs config_none_def)
  ultimately show ?thesis using response_head_ends_once [OF init_prepared, of plain_env "server_init 1 0 FDEVENT_HANDLER_POLL config_none"] by fastforce
qed


end
