(* ===== verification/Network_Write.thy ===== *)
theory Network_Write imports Read_Queue Server_State begin

text \<open>
  Sending the write queue: the portable backend \<open>network_write_chunkqueue_write\<close> of \<open>src/src/network_write.c\<close>, the
  backend on \<open>writev\<close> and \<open>sendfile\<close> of \<open>network_linux_sendfile.c\<close>, and \<open>network_write_chunkqueue\<close> of
  \<open>network.c\<close>, which calls one of them through a pointer. What the sockets, files and the stat cache answer is a
  parameter. The contract of a backend is a locale: whatever it returns, what was in the queue is what was sent
  followed by what is left.
\<close>

section \<open>What the system answers\<close>

datatype write_result = Wrote nat | Write_Error errno

text \<open>Calls are numbered by the number of chunks handled before. \<open>ne_errno\<close> is what an earlier call left in
  \<open>errno\<close>; a file has a size for the stat cache and a content for \<open>mmap\<close> and \<open>sendfile\<close>.\<close>

record net_env =
  ne_write :: "nat \<Rightarrow> char list \<Rightarrow> write_result"
  ne_sendfile :: "nat \<Rightarrow> char list \<Rightarrow> write_result"
  ne_errno :: "nat \<Rightarrow> errno"
  ne_stat :: "char list \<Rightarrow> int option"
  ne_open :: "char list \<Rightarrow> int"
  ne_mmap :: "char list \<Rightarrow> bool"
  ne_content :: "char list \<Rightarrow> char list"

text \<open>What a failed write means: come back later (\<open>r = 0\<close>), the peer is gone or an error on our side.\<close>

definition write_failed :: "errno \<Rightarrow> int option" where
  "write_failed e = (if e = EAGAIN \<or> e = EINTR then None else if e = EPIPE \<or> e = ECONNRESET then Some (-2) else Some (-1))"

section \<open>The portable backend\<close>

definition mem_rest :: "chunk \<Rightarrow> char list option" where
  "mem_rest c = do {
     b \<leftarrow> cmem c;
     if bused b = 0 then Some []
     else if coffset c < 0 \<or> int (bused b) - 1 < coffset c then None
     else mread_init (nat (coffset c)) (bused b - 1 - nat (coffset c)) (bptr b) }"

text \<open>The code returned, or the number of bytes that went out.\<close>

definition send_result :: "write_result \<Rightarrow> int + nat" where
  "send_result w =
     (case w of
        Wrote n \<Rightarrow> Inr n
      | Write_Error e \<Rightarrow> (case write_failed e of Some code \<Rightarrow> Inl code | None \<Rightarrow> Inr 0))"

definition write_mem :: "net_env \<Rightarrow> nat \<Rightarrow> chunk \<Rightarrow> ((int + nat) \<times> char list) option" where
  "write_mem env i c = do {
     b \<leftarrow> cmem c;
     if bused b = 0 then Some (Inr 0, [])
     else do { s \<leftarrow> mem_rest c; Some (send_result (ne_write env i s), s) } }"

text \<open>\<open>toSend\<close> is an \<open>off_t\<close> in a 32 bit \<open>size_t\<close>. Reading behind the mapped file is a fault. A write of nothing is
  taken for a failure, with whatever \<open>errno\<close> holds.\<close>

definition write_file_part :: "net_env \<Rightarrow> nat \<Rightarrow> chunk \<Rightarrow> ((int + nat) \<times> char list) option" where
  "write_file_part env i c = do {
     b \<leftarrow> fname (cfile c);
     name \<leftarrow> buffer_cstr b;
     let beg = fstart (cfile c) + coffset c;
     let len = nat ((flength (cfile c) - coffset c) mod 2 ^ 32);
     case ne_stat env name of
       None \<Rightarrow> Some (Inl (-1), [])
     | Some sz \<Rightarrow>
         if beg > sz then Some (Inl (-1), [])
         else if ne_open env name = -1 then Some (Inl (-1), [])
         else if \<not> ne_mmap env name then Some (Inl (-1), [])
         else do {
           s \<leftarrow> (if beg < 0 then None else mread (nat beg) len (ne_content env name));
           let r = ne_write env i s;
           Some (send_result (if r = Wrote 0 then Write_Error (ne_errno env i) else r), s) } }"

definition write_chunk :: "net_env \<Rightarrow> nat \<Rightarrow> chunk \<Rightarrow> ((int + nat) \<times> char list) option" where
  "write_chunk env i c =
     (case ctype c of
        MEM_CHUNK \<Rightarrow> write_mem env i c
      | FILE_CHUNK \<Rightarrow> write_file_part env i c
      | UNUSED_CHUNK \<Rightarrow> Some (Inl (-1), []))"

text \<open>\<open>c->offset += r; cq->bytes_out += r\<close>.\<close>

definition advance :: "nat \<Rightarrow> chunk \<Rightarrow> nat \<Rightarrow> chunkqueue \<Rightarrow> chunkqueue" where
  "advance a c n q = q\<lparr>cells := (cells q)(a \<mapsto> c\<lparr>coffset := coffset c + int n\<rparr>), bytes_out := bytes_out q + int n\<rparr>"

text \<open>The loop over the chunks; the third component is what went out.\<close>

fun write_chunks :: "net_env \<Rightarrow> nat \<Rightarrow> nat list \<Rightarrow> chunkqueue \<Rightarrow> (int \<times> chunkqueue \<times> char list) option" where
  "write_chunks env i [] q = Some (int i, q, [])"
| "write_chunks env i (a # as) q = do {
     c \<leftarrow> cells q a;
     (r, s) \<leftarrow> write_chunk env i c;
     case r of
       Inl code \<Rightarrow> Some (code, q, [])
     | Inr n \<Rightarrow> do {
         let q = advance a c n q;
         c \<leftarrow> cells q a;
         done \<leftarrow> is_finished c;
         if done then do { (code, q, t) \<leftarrow> write_chunks env (i + 1) as q; Some (code, q, take n s @ t) }
         else Some (int i, q, take n s) } }"

definition network_write_chunkqueue_write :: "net_env \<Rightarrow> chunkqueue \<Rightarrow> (int \<times> chunkqueue \<times> char list) option" where
  "network_write_chunkqueue_write env q = do {
     as \<leftarrow> chunk_list (cells q) (cq_first q);
     write_chunks env 0 as q }"

section \<open>The backend on \<open>writev\<close> and \<open>sendfile\<close>\<close>

definition UIO_MAXIOV :: nat where "UIO_MAXIOV = 1024"

definition SEND_MAX :: int where "SEND_MAX = 2 ^ 31 - 1"  \<comment> \<open>\<open>SSIZE_MAX\<close>\<close>

text \<open>The memory chunks at the front, at most \<open>UIO_MAXIOV\<close> of them.\<close>

fun mem_run :: "chunk_heap \<Rightarrow> nat list \<Rightarrow> nat \<Rightarrow> nat list option" where
  "mem_run h [] k = Some []"
| "mem_run h (a # as) k = do {
     c \<leftarrow> h a;
     if ctype c = MEM_CHUNK \<and> k < UIO_MAXIOV then do { bs \<leftarrow> mem_run h as (k + 1); Some (a # bs) } else Some [] }"

text \<open>The vector for \<open>writev\<close>, cut off where the sum would pass \<open>SSIZE_MAX\<close>.\<close>

fun iov_list :: "chunk_heap \<Rightarrow> nat list \<Rightarrow> nat \<Rightarrow> (nat \<times> char list) list option" where
  "iov_list h [] num_bytes = Some []"
| "iov_list h (a # as) num_bytes = do {
     c \<leftarrow> h a;
     s \<leftarrow> mem_rest c;
     if int (num_bytes + length s) > SEND_MAX then Some [(a, take (nat SEND_MAX - num_bytes) s)]
     else do { vs \<leftarrow> iov_list h as (num_bytes + length s); Some ((a, s) # vs) } }"

text \<open>Which chunks were written: whether all were, and how many of them.\<close>

fun account :: "(nat \<times> char list) list \<Rightarrow> nat \<Rightarrow> chunkqueue \<Rightarrow> (bool \<times> nat \<times> chunkqueue) option" where
  "account [] r q = Some (True, 0, q)"
| "account ((a, s) # vs) r q = do {
     c \<leftarrow> cells q a;
     if r \<ge> length s then do {
       (done, k, q) \<leftarrow> account vs (r - length s) (q\<lparr>cells := (cells q)(a \<mapsto> c\<lparr>coffset := coffset c + int (length s)\<rparr>)\<rparr>);
       Some (done, k + 1, q) }
     else Some (False, 0, q\<lparr>cells := (cells q)(a \<mapsto> c\<lparr>coffset := coffset c + int r\<rparr>)\<rparr>) }"

text \<open>One \<open>writev\<close>: the code returned or whether all is written, with the number of chunks that are.\<close>

definition writev_step :: "net_env \<Rightarrow> nat \<Rightarrow> nat list \<Rightarrow> chunkqueue \<Rightarrow> ((int + bool) \<times> nat \<times> chunkqueue \<times> char list) option" where
  "writev_step env i as q = do {
     run \<leftarrow> mem_run (cells q) as 0;
     vs \<leftarrow> iov_list (cells q) run 0;
     let s = concat (map snd vs);
     case send_result (ne_write env i s) of
       Inl code \<Rightarrow> Some (Inl code, 0, q, [])
     | Inr r \<Rightarrow> do {
         (done, k, q) \<leftarrow> account vs r (q\<lparr>bytes_out := bytes_out q + int r\<rparr>);
         Some (Inr done, k, q, take r s) } }"

definition open_chunk_file :: "net_env \<Rightarrow> char list \<Rightarrow> chunk \<Rightarrow> chunk option" where
  "open_chunk_file env name c =
     (if ffd (cfile c) \<noteq> -1 then Some c
      else if ne_open env name = -1 then None else Some (c\<lparr>cfile := (cfile c)\<lparr>ffd := ne_open env name\<rparr>\<rparr>))"

text \<open>The part of the file offered to \<open>sendfile\<close>, at most \<open>2^30 - 1\<close> bytes.\<close>

definition sendfile_part :: "net_env \<Rightarrow> char list \<Rightarrow> chunk \<Rightarrow> char list" where
  "sendfile_part env name c = (
     let left = flength (cfile c) - coffset c in
     let len = (if left > 2 ^ 30 - 1 then 2 ^ 30 - 1 else left) mod 2 ^ 32 in
     take (nat len) (drop (nat (fstart (cfile c) + coffset c)) (ne_content env name)))"

text \<open>\<open>c->offset += r\<close>; a file that went out completely is closed.\<close>

definition sent_file :: "nat \<Rightarrow> chunk \<Rightarrow> nat \<Rightarrow> chunkqueue \<Rightarrow> bool \<times> chunkqueue" where
  "sent_file a c r q = (
     let c' = c\<lparr>coffset := coffset c + int r\<rparr>; q' = advance a c r q in
     if coffset c' = flength (cfile c') then
       (True, if ffd (cfile c') \<noteq> -1
              then q'\<lparr>cells := (cells q')(a \<mapsto> c'\<lparr>cfile := (cfile c')\<lparr>ffd := -1\<rparr>\<rparr>), sys_log := sys_log q' @ [Sys_close (ffd (cfile c'))]\<rparr>
              else q')
     else (False, q'))"

text \<open>Nothing sent means that the file shrank (an error) or that the peer is gone.\<close>

definition sendfile_step :: "net_env \<Rightarrow> nat \<Rightarrow> nat \<Rightarrow> chunk \<Rightarrow> chunkqueue \<Rightarrow> ((int + bool) \<times> chunkqueue \<times> char list) option" where
  "sendfile_step env i a c q = do {
     b \<leftarrow> fname (cfile c);
     name \<leftarrow> buffer_cstr b;
     case open_chunk_file env name c of
       None \<Rightarrow> Some (Inl (-1), q, [])
     | Some c \<Rightarrow> (
         let q = q\<lparr>cells := (cells q)(a \<mapsto> c)\<rparr>; s = sendfile_part env name c; w = ne_sendfile env i s in
         if w = Wrote 0 then
           (case ne_stat env name of
              None \<Rightarrow> Some (Inl (-1), q, [])
            | Some sz \<Rightarrow> Some (Inl (if fstart (cfile c) + coffset c > sz then -1 else -2), q, []))
         else
           (case send_result w of
              Inl code \<Rightarrow> Some (Inl code, q, [])
            | Inr r \<Rightarrow> (let (done, q) = sent_file a c r q in Some (Inr done, q, take r s)))) }"

function linux_chunks :: "net_env \<Rightarrow> nat \<Rightarrow> nat list \<Rightarrow> chunkqueue \<Rightarrow> (int \<times> chunkqueue \<times> char list) option" where
  "linux_chunks env i [] q = Some (int i, q, [])"
| "linux_chunks env i (a # as) q = do {
     c \<leftarrow> cells q a;
     case ctype c of
       UNUSED_CHUNK \<Rightarrow> Some (-1, q, [])
     | MEM_CHUNK \<Rightarrow> do {
         (r, k, q, s) \<leftarrow> writev_step env i (a # as) q;
         case r of
           Inl code \<Rightarrow> Some (code, q, s)
         | Inr done \<Rightarrow>
             if done then do { (code, q, t) \<leftarrow> linux_chunks env (i + k) (drop (k - 1) as) q; Some (code, q, s @ t) }
             else Some (int (i + (k - 1)), q, s) }
     | FILE_CHUNK \<Rightarrow> do {
         (r, q, s) \<leftarrow> sendfile_step env i a c q;
         case r of
           Inl code \<Rightarrow> Some (code, q, s)
         | Inr done \<Rightarrow>
             if done then do { (code, q, t) \<leftarrow> linux_chunks env (i + 1) as q; Some (code, q, s @ t) }
             else Some (int i, q, s) } }"
  by pat_completeness auto

termination by (relation "measure (\<lambda>(env, i, as, q). length as)") auto

definition network_write_chunkqueue_linuxsendfile :: "net_env \<Rightarrow> chunkqueue \<Rightarrow> (int \<times> chunkqueue \<times> char list) option" where
  "network_write_chunkqueue_linuxsendfile env q = do {
     as \<leftarrow> chunk_list (cells q) (cq_first q);
     linux_chunks env 0 as q }"

section \<open>Calling a backend\<close>

type_synonym net_backend = "chunkqueue \<Rightarrow> (int \<times> chunkqueue \<times> char list) option"

text \<open>The connection stays on the job list until the traffic of the next second is allowed.\<close>

definition limit_traffic :: "nat \<Rightarrow> server \<Rightarrow> server option" where
  "limit_traffic i srv = do {
     c \<leftarrow> con_heap srv i;
     job_append i (put_con i (c\<lparr>traffic_limit_reached := True\<rparr>) srv) }"

definition finish_write :: "int \<Rightarrow> chunkqueue \<Rightarrow> (int \<times> chunkqueue) option" where
  "finish_write ret q =
     (if ret \<ge> 0 then do {
        q \<leftarrow> chunkqueue_remove_finished_chunks q;
        Some (if chunkqueue_is_empty q then 0 else 1, q) }
      else Some (ret, q))"

definition network_write_chunkqueue :: "net_backend \<Rightarrow> nat \<Rightarrow> server \<Rightarrow> (int \<times> server \<times> char list) option" where
  "network_write_chunkqueue backend i srv = do {
     c \<leftarrow> con_heap srv i;
     if cf_global_kbytes_per_second (cconf c) \<noteq> 0 \<and> global_bytes_cnt srv > int (cf_global_kbytes_per_second (cconf c)) * 1024
     then do { srv \<leftarrow> limit_traffic i srv; Some (1, srv, []) }
     else do {
       (ret, q, s) \<leftarrow> backend (write_queue c);
       (ret, q) \<leftarrow> finish_write ret q;
       let written = bytes_out q - bytes_out (write_queue c);
       let c' = c\<lparr>write_queue := q, bytes_written := bytes_written c + written,
                  bytes_written_cur_second := bytes_written_cur_second c + written\<rparr>;
       let srv = (put_con i c' srv)\<lparr>global_bytes_cnt := global_bytes_cnt srv + written\<rparr>;
       srv \<leftarrow> (if cf_kbytes_per_second (cconf c) \<noteq> 0 \<and> bytes_written_cur_second c' > int (cf_kbytes_per_second (cconf c)) * 1024
               then limit_traffic i srv else Some srv);
       Some (ret, srv, s) } }"

section \<open>Bytes to go\<close>

fun left :: "(char list \<Rightarrow> char list) \<Rightarrow> chunk_data \<times> int \<Rightarrow> char list" where
  "left F (Mem_Data v, off) = drop (nat off) (bval v)"
| "left F (File_Data v beg len, off) = take (nat (len - off)) (drop (nat (beg + off)) (F (cstr (bval v))))"

text \<open>The offset is inside the data, and a file is as long as the chunk says.\<close>

fun sendable :: "(char list \<Rightarrow> char list) \<Rightarrow> chunk_data \<times> int \<Rightarrow> bool" where
  "sendable F (Mem_Data v, off) \<longleftrightarrow> 0 \<le> off \<and> off \<le> int (length (bval v))"
| "sendable F (File_Data v beg len, off) \<longleftrightarrow> v \<noteq> None \<and> 0 \<le> beg \<and> 0 \<le> off \<and> off \<le> len \<and>
     beg + len \<le> int (length (F (cstr (bval v))))"

abbreviation to_send :: "(char list \<Rightarrow> char list) \<Rightarrow> (chunk_data \<times> int) list \<Rightarrow> char list" where
  "to_send F ds \<equiv> concat (map (left F) ds)"

text \<open>A call never takes more than it is offered.\<close>

definition kernel_ok :: "net_env \<Rightarrow> bool" where
  "kernel_ok env \<longleftrightarrow> (\<forall>i s n. ne_write env i s = Wrote n \<or> ne_sendfile env i s = Wrote n \<longrightarrow> n \<le> length s)"

text \<open>A file chunk with something to send; \<open>http_chunk_append_file\<close> makes no other.\<close>

fun file_pending :: "chunk_data \<times> int \<Rightarrow> bool" where
  "file_pending (Mem_Data v, off) \<longleftrightarrow> True"
| "file_pending (File_Data v beg len, off) \<longleftrightarrow> off < len"

text \<open>A system that takes at least a byte whenever one is offered, opens every file and finds it as long as it is.\<close>

definition taking :: "net_env \<Rightarrow> bool" where
  "taking env \<longleftrightarrow> (\<forall>i s. (s \<noteq> [] \<longrightarrow> (\<exists>n > 0. ne_write env i s = Wrote n) \<and> (\<exists>n > 0. ne_sendfile env i s = Wrote n)) \<and>
       ne_write env i [] = Wrote 0) \<and>
     (\<forall>f. ne_stat env f = Some (int (length (ne_content env f))) \<and> ne_open env f \<noteq> -1 \<and> ne_mmap env f)"

fun small_file :: "chunk_data \<Rightarrow> bool" where
  "small_file (Mem_Data v) \<longleftrightarrow> True"
| "small_file (File_Data v beg len) \<longleftrightarrow> len < 2 ^ 32"

definition progresses :: "net_env \<Rightarrow> chunkqueue \<Rightarrow> nat list \<Rightarrow> int \<Rightarrow> char list \<Rightarrow> bool" where
  "progresses env q as code s \<longleftrightarrow>
     (taking env \<longrightarrow> list_all file_pending (contents q as) \<longrightarrow> list_all small_file (map fst (contents q as)) \<longrightarrow>
      code \<ge> 0 \<and> (to_send (ne_content env) (contents q as) \<noteq> [] \<longrightarrow> s \<noteq> []))"

lemma takingD:
  assumes "taking env"
  shows "s \<noteq> [] \<Longrightarrow> \<exists>n > 0. ne_write env i s = Wrote n" and "s \<noteq> [] \<Longrightarrow> \<exists>n > 0. ne_sendfile env i s = Wrote n"
    and "\<exists>n. send_result (ne_write env i s) = Inr n \<and> (s \<noteq> [] \<longrightarrow> n > 0)"
proof -
  have t: "\<forall>i s. (s \<noteq> [] \<longrightarrow> (\<exists>n > 0. ne_write env i s = Wrote n) \<and> (\<exists>n > 0. ne_sendfile env i s = Wrote n)) \<and> ne_write env i [] = Wrote 0"
    using assms by (simp add: taking_def)
  show w: "s \<noteq> [] \<Longrightarrow> \<exists>n > 0. ne_write env i s = Wrote n" using t by blast
  show "s \<noteq> [] \<Longrightarrow> \<exists>n > 0. ne_sendfile env i s = Wrote n" using t by blast
  show "\<exists>n. send_result (ne_write env i s) = Inr n \<and> (s \<noteq> [] \<longrightarrow> n > 0)"
  proof (cases "s = []")
    case True
    then show ?thesis using t by (simp add: send_result_def)
  next
    case False
    with w obtain n where "n > 0" "ne_write env i s = Wrote n" by blast
    then show ?thesis by (simp add: send_result_def)
  qed
qed

lemma kernel_okD: "kernel_ok env \<Longrightarrow> send_result (ne_write env i s) = Inr n \<Longrightarrow> n \<le> length s"
    "kernel_ok env \<Longrightarrow> send_result (ne_sendfile env i s) = Inr n \<Longrightarrow> n \<le> length s"
  by (auto simp: kernel_ok_def send_result_def split: write_result.splits option.splits)

lemma send_result_code: "send_result w = Inl code \<Longrightarrow> code \<in> {-1, -2}"
  by (auto simp: send_result_def write_failed_def split: write_result.splits option.splits if_splits)

lemma left_finished: "finished d \<Longrightarrow> sendable F d \<Longrightarrow> left F d = []"
  by (cases d rule: finished.cases) auto

lemma chunk_value_mem:
  assumes "chunk_ok c" and "ctype c = MEM_CHUNK"
  shows "\<exists>b v. cmem c = Some b \<and> buf_repr b v \<and> chunk_value c = (Mem_Data v, coffset c)"
  using assms by (fastforce simp: chunk_ok_def is_string_def chunk_value_def)

lemma chunk_value_file:
  assumes "chunk_ok c" and "ctype c = FILE_CHUNK"
  shows "\<exists>b v. fname (cfile c) = Some b \<and> buf_repr b v \<and>
    chunk_value c = (File_Data v (fstart (cfile c)) (flength (cfile c)), coffset c)"
  using assms by (fastforce simp: chunk_ok_def is_string_def chunk_value_def)

lemma mem_rest_left:
  assumes "chunk_ok c" and "ctype c = MEM_CHUNK" and "sendable F (chunk_value c)"
  shows "mem_rest c = Some (left F (chunk_value c))"
proof -
  obtain b v where b: "cmem c = Some b" "buf_repr b v" "chunk_value c = (Mem_Data v, coffset c)"
    using chunk_value_mem [OF assms(1,2)] by blast
  show ?thesis
  proof (cases v)
    case None
    then have "bused b = 0" using b(2) by (simp add: buf_repr_def)
    with b(1,3) None show ?thesis by (simp add: mem_rest_def)
  next
    case (Some s)
    obtain r where r: "bptr b = map Some s @ Some NUL # r" "bused b = length s + 1"
      using buf_repr_cells b(2) Some buf_repr_SomeD by blast
    have off: "0 \<le> coffset c" "nat (coffset c) \<le> length s" using assms(3) b(3) Some by auto
    then have "mread_init (nat (coffset c)) (length s - nat (coffset c)) (bptr b) = Some (drop (nat (coffset c)) s)"
      by (simp add: r mread_init_def mread_def take_map drop_map those_map_Some)
    with off r(2) b(1,3) Some show ?thesis by (simp add: mem_rest_def)
  qed
qed

text \<open>Going forward inside what is left.\<close>

lemma chunk_value_offset: "chunk_value (c\<lparr>coffset := n\<rparr>) = (fst (chunk_value c), n)"
  by (simp add: chunk_value_def split: chunk_type.splits)

lemma left_advance:
  assumes "sendable F (d, off)" and "n \<le> length (left F (d, off))"
  shows "left F (d, off) = take n (left F (d, off)) @ left F (d, off + int n)" and "sendable F (d, off + int n)"
proof -
  have a: "nat (off + int n) = n + nat off" using assms(1) by (cases d) auto
  show "left F (d, off) = take n (left F (d, off)) @ left F (d, off + int n)"
  proof (cases d)
    case (Mem_Data v)
    show ?thesis unfolding Mem_Data left.simps a drop_drop [symmetric] by (rule append_take_drop_id [symmetric])
  next
    case (File_Data v beg len)
    define t where "t = F (cstr (bval v))"
    have off: "0 \<le> beg" "0 \<le> off" "n \<le> nat (len - off)" using assms File_Data by auto
    then have eqs: "nat (beg + (off + int n)) = n + nat (beg + off)" "nat (len - (off + int n)) = nat (len - off) - n" by auto
    have halves: "take k (drop m t) = take n (take k (drop m t)) @ take (k - n) (drop (n + m) t)" if "n \<le> k" for k m
      using append_take_drop_id [of n "take k (drop m t)"] that by (simp add: drop_take min.absorb1)
    show ?thesis unfolding File_Data left.simps t_def [symmetric] eqs by (rule halves [OF off(3)])
  qed
  show "sendable F (d, off + int n)" using assms by (cases d) auto
qed

text \<open>What a step of a backend leaves of a chunk: the same data, further on.\<close>

definition moved :: "net_env \<Rightarrow> chunk \<Rightarrow> chunk \<Rightarrow> char list \<Rightarrow> bool" where
  "moved env c c' s \<longleftrightarrow> left (ne_content env) (chunk_value c) = s @ left (ne_content env) (chunk_value c') \<and>
     sendable (ne_content env) (chunk_value c') \<and> fst (chunk_value c') = fst (chunk_value c) \<and>
     chunk_ok c' \<and> ctype c' = ctype c \<and> cnext c' = cnext c"

lemma moved_offset:
  assumes "chunk_ok c" and "sendable (ne_content env) (chunk_value c)" and "n \<le> length (left (ne_content env) (chunk_value c))"
  shows "moved env c (c\<lparr>coffset := coffset c + int n\<rparr>) (take n (left (ne_content env) (chunk_value c)))"
proof -
  obtain d where d: "chunk_value c = (d, coffset c)" by (simp add: chunk_value_def)
  from left_advance [of "ne_content env" d "coffset c" n] assms(1-3) show ?thesis
    by (simp add: moved_def chunk_value_offset chunk_ok_def d)
qed

lemma write_chunk_result:
  assumes ok: "chunk_ok c" and used: "ctype c \<noteq> UNUSED_CHUNK" and env: "kernel_ok env"
    and snd: "sendable (ne_content env) (chunk_value c)"
  shows "(\<exists>code s. write_chunk env i c = Some (Inl code, s) \<and> code \<in> {-1, -2} \<and>
       \<not> (taking env \<and> file_pending (chunk_value c) \<and> small_file (fst (chunk_value c)))) \<or>
    (\<exists>n s t. write_chunk env i c = Some (Inr n, s) \<and> n \<le> length s \<and> left (ne_content env) (chunk_value c) = s @ t \<and>
       (taking env \<longrightarrow> file_pending (chunk_value c) \<longrightarrow> small_file (fst (chunk_value c)) \<longrightarrow> s @ t \<noteq> [] \<longrightarrow> n > 0))"
proof (cases "ctype c")
  case MEM_CHUNK
  obtain b v where b: "cmem c = Some b" "buf_repr b v" "chunk_value c = (Mem_Data v, coffset c)"
    using chunk_value_mem [OF ok MEM_CHUNK] by blast
  define s where "s = left (ne_content env) (chunk_value c)"
  have m: "mem_rest c = Some s" unfolding s_def by (rule mem_rest_left [OF ok MEM_CHUNK snd])
  show ?thesis
  proof (cases "bused b = 0")
    case True
    moreover from True have "v = None" using b(2) by (cases v) (simp_all add: buf_repr_def)
    ultimately show ?thesis using b MEM_CHUNK by (simp add: write_chunk_def write_mem_def)
  next
    case False
    then have "write_chunk env i c = Some (send_result (ne_write env i s), s)" using MEM_CHUNK b(1) m by (simp add: write_chunk_def write_mem_def)
    then show ?thesis using kernel_okD(1) [OF env, of i s] send_result_code [of "ne_write env i s"]
      takingD(3) [of env i s] by (cases "send_result (ne_write env i s)") (auto simp: s_def)
  qed
next
  case FILE_CHUNK
  obtain b v where b: "fname (cfile c) = Some b" "buf_repr b v"
    "chunk_value c = (File_Data v (fstart (cfile c)) (flength (cfile c)), coffset c)"
    using chunk_value_file [OF ok FILE_CHUNK] by blast
  then obtain nm where nm: "v = Some nm" using snd by auto
  have name: "buffer_cstr b = Some (cstr nm)" using buffer_cstr_repr b(2) nm by simp
  define t where "t = ne_content env (cstr nm)"
  define beg where "beg = fstart (cfile c) + coffset c"
  define len where "len = nat ((flength (cfile c) - coffset c) mod 2 ^ 32)"
  have lim: "0 \<le> beg" "0 \<le> flength (cfile c) - coffset c" "nat beg + nat (flength (cfile c) - coffset c) \<le> length t"
    using snd b(3) nm by (auto simp: beg_def t_def)
  have "(flength (cfile c) - coffset c) mod 2 ^ 32 \<le> flength (cfile c) - coffset c" using lim(2) by (rule zmod_le_nonneg_dividend)
  then have len: "len \<le> nat (flength (cfile c) - coffset c)" by (simp add: len_def)
  define s where "s = take len (drop (nat beg) t)"
  have rd: "mread (nat beg) len t = Some s" using len lim(3) by (simp add: mread_def s_def)
  have "left (ne_content env) (chunk_value c) = take (nat (flength (cfile c) - coffset c)) (drop (nat beg) t)"
    using b(3) nm by (simp add: t_def beg_def)
  moreover have "s = take len (take (nat (flength (cfile c) - coffset c)) (drop (nat beg) t))" using len by (simp add: s_def min.absorb1)
  ultimately have pre: "\<exists>u. left (ne_content env) (chunk_value c) = s @ u" using append_take_drop_id by metis
  define r where "r = (if ne_write env i s = Wrote 0 then Write_Error (ne_errno env i) else ne_write env i s)"
  have fits: "send_result r = Inr n \<Longrightarrow> n \<le> length s" for n
    using kernel_okD(1) [OF env, of i s n] by (auto simp: r_def send_result_def split: option.splits if_splits)
  have "write_chunk env i c = Some (Inl (-1), []) \<or> write_chunk env i c = Some (send_result r, s)"
    using FILE_CHUNK b(1) name rd lim(1)
    by (simp add: write_chunk_def write_file_part_def Let_def beg_def [symmetric] len_def t_def [symmetric] r_def split: option.splits)
  moreover have "\<exists>n. write_chunk env i c = Some (Inr n, s) \<and> n > 0"
    if tk: "taking env" and pend: "file_pending (chunk_value c)" "small_file (fst (chunk_value c))"
  proof -
    have l: "0 < flength (cfile c) - coffset c" "flength (cfile c) - coffset c < 2 ^ 32"
      using pend b(3) snd by auto
    then have "len = nat (flength (cfile c) - coffset c)" by (simp add: len_def)
    then have "s \<noteq> []" using l(1) lim by (simp add: s_def)
    with takingD(1) [OF tk] obtain n where n: "n > 0" "ne_write env i s = Wrote n" by blast
    have "beg \<le> int (length t)" using lim(1,3) by linarith
    then have "write_chunk env i c = Some (Inr n, s)"
      using FILE_CHUNK b(1) name rd lim(1) n tk
      by (simp add: write_chunk_def write_file_part_def Let_def beg_def [symmetric] len_def t_def [symmetric] taking_def send_result_def)
    with n(1) show ?thesis by blast
  qed
  ultimately show ?thesis using pre fits send_result_code [of r] by (cases "send_result r") fastforce+
qed (use used in simp)

text \<open>Chunks other than the given ones are not touched, and the links stay.\<close>

definition queue_step :: "chunkqueue \<Rightarrow> chunkqueue \<Rightarrow> nat set \<Rightarrow> bool" where
  "queue_step q q' A \<longleftrightarrow> (\<forall>x. x \<notin> A \<longrightarrow> cells q' x = cells q x) \<and> cq_first q' = cq_first q \<and> cq_last q' = cq_last q"

text \<open>The state of a backend in the middle of a queue: \<open>all\<close> are its chunks and \<open>as\<close> those that are left to look at.\<close>

definition sending :: "net_env \<Rightarrow> chunkqueue \<Rightarrow> nat list \<Rightarrow> nat list \<Rightarrow> nat list \<Rightarrow> bool" where
  "sending env q all us as \<longleftrightarrow> cq_shape q all us [] \<and> set as \<subseteq> set all \<and> distinct as \<and>
     list_all (sendable (ne_content env)) (contents q as)"

text \<open>Where it may end: the code and what went out; file chunks behind the finished front still have something to send.\<close>

definition sent_from :: "net_env \<Rightarrow> chunkqueue \<Rightarrow> nat list \<Rightarrow> nat list \<Rightarrow> nat list \<Rightarrow> int \<Rightarrow> chunkqueue \<Rightarrow> char list \<Rightarrow> bool" where
  "sent_from env q all us as code q' s \<longleftrightarrow> sending env q' all us as \<and> queue_step q q' (set as) \<and>
     map fst (contents q' as) = map fst (contents q as) \<and>
     to_send (ne_content env) (contents q as) = s @ to_send (ne_content env) (contents q' as) \<and> code \<ge> -2 \<and>
     (list_all file_pending (contents q as) \<longrightarrow> list_all file_pending (dropWhile finished (contents q' as)))"

lemma sendingD:
  assumes "sending env q all us (a # as)"
  obtains c where "cells q a = Some c" "chunk_ok c" "ctype c \<noteq> UNUSED_CHUNK" "sendable (ne_content env) (chunk_value c)"
    "contents q (a # as) = chunk_value c # contents q as" "sending env q all us as"
proof -
  have sh: "cq_shape q all us []" "a \<in> set all" using assms by (auto simp: sending_def)
  obtain c where c: "cells q a = Some c" using cq_shapeD(11) [OF sh(1), of a] sh(2) by auto
  show thesis
    using that [OF c cq_shapeD(9) [OF sh(1) c] cq_shapeD(10) [OF sh(1) c sh(2)]] assms c by (simp add: sending_def contents_def)
qed

lemma contents_same: "(\<And>x. x \<in> set as \<Longrightarrow> cells q' x = cells q x) \<Longrightarrow> contents q' as = contents q as"
  by (simp add: contents_def)

lemma contents_step: "queue_step q q' A \<Longrightarrow> set as \<inter> A = {} \<Longrightarrow> contents q' as = contents q as"
  by (rule contents_same) (auto simp: queue_step_def)

definition put_chunk :: "nat \<Rightarrow> chunk \<Rightarrow> int \<Rightarrow> sys_call list \<Rightarrow> chunkqueue \<Rightarrow> chunkqueue" where
  "put_chunk a c m l q = q\<lparr>cells := (cells q)(a \<mapsto> c), bytes_out := m, sys_log := l\<rparr>"

lemma shape_counters: "cq_shape q as us xs \<Longrightarrow> cq_shape (q\<lparr>bytes_out := m, sys_log := l\<rparr>) as us xs"
  by (simp add: cq_shape_def)

lemma put_chunk_sending:
  assumes snd: "sending env q all us (a # as)" and c: "cells q a = Some c" and mv: "moved env c c' s"
  shows "sending env (put_chunk a c' m l q) all us (a # as)" and "contents (put_chunk a c' m l q) as = contents q as"
    and "contents (put_chunk a c' m l q) (a # as) = chunk_value c' # contents q as" and "queue_step q (put_chunk a c' m l q) {a}"
proof -
  have sh: "cq_shape q all us []" using snd by (simp add: sending_def)
  have "cq_shape (q\<lparr>cells := (cells q)(a \<mapsto> c')\<rparr>) all us []" by (rule shape_upd [OF sh c]) (use mv in \<open>simp_all add: moved_def\<close>)
  from shape_counters [OF this, where m = m and l = l] have sh': "cq_shape (put_chunk a c' m l q) all us []" by (simp add: put_chunk_def)
  show same: "contents (put_chunk a c' m l q) as = contents q as"
    by (rule contents_same) (use snd in \<open>auto simp: put_chunk_def sending_def\<close>)
  then show "contents (put_chunk a c' m l q) (a # as) = chunk_value c' # contents q as" by (simp add: contents_def put_chunk_def)
  with snd sh' same mv show "sending env (put_chunk a c' m l q) all us (a # as)"
    by (simp add: sending_def moved_def) (simp add: contents_def)
  show "queue_step q (put_chunk a c' m l q) {a}" by (simp add: queue_step_def put_chunk_def)
qed

lemma pending_unfinished: "sendable F d \<Longrightarrow> \<not> finished d \<Longrightarrow> file_pending d"
  by (cases d rule: file_pending.cases) auto

text \<open>A backend stops at the first of the chunks, or goes on behind it.\<close>

lemma sent_stop:
  assumes snd: "sending env q all us (a # as)" and c: "cells q a = Some c" and mv: "moved env c c' s" and code: "code \<ge> -2"
  shows "sent_from env q all us (a # as) code (put_chunk a c' m l q) s"
proof -
  have old: "contents q (a # as) = chunk_value c # contents q as" using c by (simp add: contents_def)
  have pend: "file_pending (chunk_value c')" if "\<not> finished (chunk_value c')"
    by (rule pending_unfinished [where F = "ne_content env", OF _ that]) (use mv in \<open>simp add: moved_def\<close>)
  have rest: "list_all file_pending xs \<Longrightarrow> list_all file_pending (dropWhile finished xs)" for xs :: "(chunk_data \<times> int) list"
    by (auto simp: list_all_iff dest: set_dropWhileD)
  show ?thesis unfolding sent_from_def put_chunk_sending(3) [OF snd c mv] old
    using put_chunk_sending(1) [OF snd c mv, of m l] put_chunk_sending(4) [OF snd c mv, of m l] mv code pend rest
    by (auto simp: moved_def queue_step_def)
qed

lemma sent_error: "sending env q all us as \<Longrightarrow> code \<ge> -2 \<Longrightarrow> sent_from env q all us as code q []"
  by (auto simp: sent_from_def queue_step_def list_all_iff dest: set_dropWhileD)

lemma sent_append:
  assumes one: "sent_from env q all us (xs @ ys) n q1 s" and fin: "list_all finished (contents q1 xs)"
    and two: "sent_from env q1 all us ys code q2 t" and dis: "set xs \<inter> set ys = {}" and front: "queue_step q q1 (set xs)"
  shows "sent_from env q all us (xs @ ys) code q2 (s @ t)"
proof -
  have app: "contents p (xs @ ys) = contents p xs @ contents p ys" for p by (simp add: contents_def)
  have st: "queue_step q1 q2 (set ys)" using two by (simp add: sent_from_def)
  have same: "contents q2 xs = contents q1 xs" by (rule contents_step [OF st]) (use dis in blast)
  have snd1: "sending env q1 all us (xs @ ys)" using one by (simp add: sent_from_def)
  then have sx: "list_all (sendable (ne_content env)) (contents q1 xs)" by (simp add: sending_def app)
  have none: "to_send (ne_content env) (contents q1 xs) = []"
    using sx fin left_finished by (fastforce simp: list_all_iff)
  have dw: "dropWhile finished (contents q1 xs @ zs) = dropWhile finished zs" for zs
    using fin by (simp add: list_all_iff dropWhile_append)
  have "sending env q2 all us (xs @ ys)" using snd1 two sx by (simp add: sent_from_def sending_def app same)
  moreover have "queue_step q q2 (set (xs @ ys))" using one st by (auto simp: sent_from_def queue_step_def)
  moreover have "list_all file_pending (contents q (xs @ ys)) \<Longrightarrow> list_all file_pending (dropWhile finished (contents q2 (xs @ ys)))"
    using two contents_step [OF front, of ys] dis dw by (auto simp: sent_from_def app same Int_commute)
  ultimately show ?thesis using one two none unfolding sent_from_def by (simp add: app same)
qed

lemma progress_append:
  assumes one: "sent_from env q all us (xs @ ys) n q1 s" and fin: "list_all finished (contents q1 xs)"
    and two: "progresses env q1 ys code t" and dis: "set xs \<inter> set ys = {}" and front: "queue_step q q1 (set xs)"
  shows "progresses env q (xs @ ys) code (s @ t)"
proof -
  have app: "contents p (xs @ ys) = contents p xs @ contents p ys" for p by (simp add: contents_def)
  have same: "contents q1 ys = contents q ys" by (rule contents_step [OF front]) (use dis in blast)
  have "list_all (sendable (ne_content env)) (contents q1 xs)" using one by (simp add: sent_from_def sending_def app)
  then have none: "to_send (ne_content env) (contents q1 xs) = []" using fin left_finished by (fastforce simp: list_all_iff)
  have eq: "to_send (ne_content env) (contents q (xs @ ys)) = s @ to_send (ne_content env) (contents q ys)"
    using one none unfolding sent_from_def app by (simp add: same)
  show ?thesis unfolding progresses_def eq
  proof (intro impI conjI)
    assume a: "taking env" "list_all file_pending (contents q (xs @ ys))" "list_all small_file (map fst (contents q (xs @ ys)))"
    then have p: "code \<ge> 0 \<and> (to_send (ne_content env) (contents q ys) \<noteq> [] \<longrightarrow> t \<noteq> [])"
      using two unfolding progresses_def same by (simp add: app)
    then show "code \<ge> 0" ..
    assume "s @ to_send (ne_content env) (contents q ys) \<noteq> []"
    with p show "s @ t \<noteq> []" by blast
  qed
qed

section \<open>The portable backend keeps the bytes\<close>

lemma advance_put: "advance a c n q = put_chunk a (c\<lparr>coffset := coffset c + int n\<rparr>) (bytes_out q + int n) (sys_log q) q"
  by (simp add: advance_def put_chunk_def)

lemma put_chunk_simps [simp]: "cells (put_chunk a c m l q) = (cells q)(a \<mapsto> c)" "bytes_out (put_chunk a c m l q) = m"
    "sys_log (put_chunk a c m l q) = l" "cq_first (put_chunk a c m l q) = cq_first q" "cq_last (put_chunk a c m l q) = cq_last q"
  by (simp_all add: put_chunk_def)

lemma sent_one:
  assumes snd: "sending env q all us (a # as)" and c: "cells q a = Some c" and mv: "moved env c c' s" and fin: "finished (chunk_value c')"
    and rest: "sent_from env (put_chunk a c' m l q) all us as code q' t"
  shows "sent_from env q all us (a # as) code q' (s @ t)"
proof -
  have "sent_from env q all us ([a] @ as) 0 (put_chunk a c' m l q) s" using sent_stop [OF snd c mv, of 0] by simp
  moreover have "list_all finished (contents (put_chunk a c' m l q) [a])" using fin by (simp add: contents_def)
  moreover have "set [a] \<inter> set as = {}" using snd by (auto simp: sending_def)
  moreover have "queue_step q (put_chunk a c' m l q) (set [a])" using put_chunk_sending(4) [OF snd c mv] by simp
  ultimately show ?thesis using sent_append [of env q all us "[a]" as 0 "put_chunk a c' m l q" s code q' t] rest by simp
qed

lemma progress_one:
  assumes snd: "sending env q all us (a # as)" and c: "cells q a = Some c" and mv: "moved env c c' s" and fin: "finished (chunk_value c')"
    and rest: "progresses env (put_chunk a c' m l q) as code t"
  shows "progresses env q (a # as) code (s @ t)"
proof -
  have "sent_from env q all us ([a] @ as) 0 (put_chunk a c' m l q) s" using sent_stop [OF snd c mv, of 0] by simp
  moreover have "list_all finished (contents (put_chunk a c' m l q) [a])" using fin by (simp add: contents_def)
  moreover have "set [a] \<inter> set as = {}" using snd by (auto simp: sending_def)
  moreover have "queue_step q (put_chunk a c' m l q) (set [a])" using put_chunk_sending(4) [OF snd c mv] by simp
  ultimately show ?thesis using progress_append [of env q all us "[a]" as 0 "put_chunk a c' m l q" s code t] rest by simp
qed

lemma left_unfinished: "sendable F d \<Longrightarrow> \<not> finished d \<Longrightarrow> left F d \<noteq> []"
  by (cases d rule: finished.cases) auto

lemma write_chunks_sends:
  assumes "kernel_ok env" and "sending env q all us as"
  shows "\<exists>code q' s. write_chunks env i as q = Some (code, q', s) \<and> sent_from env q all us as code q' s \<and>
    bytes_out q' = bytes_out q + int (length s) \<and> progresses env q as code s"
  using assms(2)
proof (induction as arbitrary: i q)
  case Nil
  then have "sent_from env q all us [] (int i) q []" by (intro sent_error) auto
  then show ?case by (simp add: progresses_def contents_def)
next
  case (Cons a as)
  obtain c where c: "cells q a = Some c" "chunk_ok c" "ctype c \<noteq> UNUSED_CHUNK" "sendable (ne_content env) (chunk_value c)"
    "contents q (a # as) = chunk_value c # contents q as" "sending env q all us as" using sendingD [OF Cons.prems] by metis
  from write_chunk_result [OF c(2,3) assms(1) c(4), of i] show ?case
  proof (elim disjE exE conjE)
    fix code s
    assume "write_chunk env i c = Some (Inl code, s)" and code: "code \<in> {-1, -2}"
      and no: "\<not> (taking env \<and> file_pending (chunk_value c) \<and> small_file (fst (chunk_value c)))"
    moreover have "progresses env q (a # as) code []" using no by (simp add: progresses_def c(5))
    moreover have "sent_from env q all us (a # as) code q []" by (rule sent_error [OF Cons.prems]) (use code in auto)
    ultimately show ?thesis using c(1) by auto
  next
    fix n s t
    assume w: "write_chunk env i c = Some (Inr n, s)" "n \<le> length s" "left (ne_content env) (chunk_value c) = s @ t"
      "taking env \<longrightarrow> file_pending (chunk_value c) \<longrightarrow> small_file (fst (chunk_value c)) \<longrightarrow> s @ t \<noteq> [] \<longrightarrow> n > 0"
    define c' where "c' = c\<lparr>coffset := coffset c + int n\<rparr>"
    have mv: "moved env c c' (take n s)" using moved_offset [OF c(2,4), of n] w(2,3) by (simp add: c'_def)
    define q1 where "q1 = advance a c n q"
    have q1: "q1 = put_chunk a c' (bytes_out q + int n) (sys_log q) q" by (simp add: q1_def advance_put c'_def)
    have fin: "is_finished c' = Some (finished (chunk_value c'))"
      by (rule is_finished_value) (use mv c(3) in \<open>simp_all add: moved_def\<close>)
    have cq1: "cells q1 a = Some c'" by (simp add: q1)
    show ?thesis
    proof (cases "finished (chunk_value c')")
      case True
      have "sending env q1 all us as" using sendingD [OF put_chunk_sending(1) [OF Cons.prems c(1) mv]] unfolding q1 by metis
      from Cons.IH [OF this, of "i + 1"] obtain code q' u where
        ih: "write_chunks env (i + 1) as q1 = Some (code, q', u)" "sent_from env q1 all us as code q' u"
          "bytes_out q' = bytes_out q1 + int (length u)" "progresses env q1 as code u" by blast
      have "sent_from env q all us (a # as) code q' (take n s @ u)"
        by (rule sent_one [OF Cons.prems c(1) mv True ih(2) [unfolded q1]])
      moreover have "write_chunks env i (a # as) q = Some (code, q', take n s @ u)"
        using c(1) w(1) fin True ih(1) cq1 by (simp add: q1_def)
      moreover have "progresses env q (a # as) code (take n s @ u)"
        by (rule progress_one [OF Cons.prems c(1) mv True ih(4) [unfolded q1]])
      ultimately show ?thesis using ih(3) w(2) by (simp add: q1)
    next
      case False
      have "sent_from env q all us (a # as) (int i) q1 (take n s)" unfolding q1 by (rule sent_stop [OF Cons.prems c(1) mv]) simp
      moreover have "write_chunks env i (a # as) q = Some (int i, q1, take n s)"
        using c(1) w(1) fin False cq1 by (simp add: q1_def)
      moreover have "sendable (ne_content env) (chunk_value c')" using mv by (simp add: moved_def)
      from left_unfinished [OF this False] have "s @ t \<noteq> []" using mv w(3) by (simp add: moved_def)
      then have "progresses env q (a # as) (int i) (take n s)" using w(2,4) by (auto simp: progresses_def c(5))
      ultimately show ?thesis using w(2) by (simp add: q1)
    qed
  qed
qed

section \<open>The backend on \<open>writev\<close> and \<open>sendfile\<close> keeps the bytes\<close>

lemma mem_run_prefix:
  "\<forall>a \<in> set as. h a \<noteq> None \<Longrightarrow> \<exists>run rest. mem_run h as k = Some run \<and> as = run @ rest \<and>
     (\<forall>a \<in> set run. \<exists>c. h a = Some c \<and> ctype c = MEM_CHUNK)"
proof (induction as arbitrary: k)
  case (Cons a as)
  then obtain c where c: "h a = Some c" by auto
  show ?case
  proof (cases "ctype c = MEM_CHUNK \<and> k < UIO_MAXIOV")
    case True
    from Cons.IH [of "k + 1"] Cons.prems obtain run rest where
      r: "mem_run h as (k + 1) = Some run" "as = run @ rest" "\<forall>a \<in> set run. \<exists>c. h a = Some c \<and> ctype c = MEM_CHUNK" by auto
    have "mem_run h (a # as) k = Some (a # run)" using c True r(1) by simp
    with r(2,3) c True show ?thesis by (intro exI [of _ "a # run"] exI [of _ rest]) auto
  next
    case False
    then have "mem_run h (a # as) k = Some []" using c by auto
    then show ?thesis by (intro exI [of _ "[]"] exI [of _ "a # as"]) auto
  qed
qed simp

definition rest_of :: "net_env \<Rightarrow> chunk_heap \<Rightarrow> nat \<Rightarrow> nat \<times> char list" where
  "rest_of env h a = (a, left (ne_content env) (chunk_value (the (h a))))"

text \<open>The memory chunks of a queue together are shorter than \<open>SSIZE_MAX\<close>.\<close>

fun mem_size :: "chunk_data \<Rightarrow> nat" where
  "mem_size (Mem_Data v) = length (bval v)"
| "mem_size (File_Data v beg len) = 0"

definition memory_fits :: "chunk_data list \<Rightarrow> bool" where
  "memory_fits ds \<longleftrightarrow> int (sum_list (map mem_size ds)) \<le> SEND_MAX"

lemma left_mem_size: "sendable F (d, off) \<Longrightarrow> d = Mem_Data v \<Longrightarrow> length (left F (d, off)) \<le> mem_size d"
  by simp

lemma iov_list_fits:
  assumes "\<forall>a \<in> set run. \<exists>c. h a = Some c \<and> chunk_ok c \<and> ctype c = MEM_CHUNK \<and> sendable (ne_content env) (chunk_value c)"
    and "int n + int (sum_list (map (\<lambda>a. mem_size (fst (chunk_value (the (h a))))) run)) \<le> SEND_MAX"
  shows "iov_list h run n = Some (map (rest_of env h) run)"
  using assms
proof (induction run arbitrary: n)
  case (Cons a run)
  then obtain c where c: "h a = Some c" "chunk_ok c" "ctype c = MEM_CHUNK" "sendable (ne_content env) (chunk_value c)" by auto
  define s where "s = left (ne_content env) (chunk_value c)"
  obtain v where v: "chunk_value c = (Mem_Data v, coffset c)" using chunk_value_mem [OF c(2,3)] by blast
  have len: "length s \<le> mem_size (fst (chunk_value c))" by (simp add: s_def v)
  then have "int (n + length s) + int (sum_list (map (\<lambda>a. mem_size (fst (chunk_value (the (h a))))) run)) \<le> SEND_MAX"
    using Cons.prems(2) c(1) by simp
  with Cons.IH [of "n + length s"] Cons.prems(1) have "iov_list h run (n + length s) = Some (map (rest_of env h) run)" by simp
  moreover have "\<not> int (n + length s) > SEND_MAX" using Cons.prems(2) c(1) len by simp
  ultimately show ?case using c(1) mem_rest_left [OF c(2,3,4)] by (simp add: s_def [symmetric] rest_of_def)
qed simp

lemma mem_finished: "left F (Mem_Data v, off) = [] \<Longrightarrow> sendable F (Mem_Data v, off) \<Longrightarrow> finished (Mem_Data v, off)"
  by (cases v) auto

lemma account_sends:
  assumes "sending env q all us (run @ rest)" and "\<forall>a \<in> set run. \<exists>c. cells q a = Some c \<and> ctype c = MEM_CHUNK"
    and "r \<le> length (concat (map (snd \<circ> rest_of env (cells q)) run))"
  shows "\<exists>dn k q'. account (map (rest_of env (cells q)) run) r q = Some (dn, k, q') \<and> (dn \<longrightarrow> k = length run \<and> list_all finished (contents q' run)) \<and>
    sent_from env q all us (run @ rest) 0 q' (take r (concat (map (snd \<circ> rest_of env (cells q)) run))) \<and>
    queue_step q q' (set run) \<and> bytes_out q' = bytes_out q \<and>
    (r = length (concat (map (snd \<circ> rest_of env (cells q)) run)) \<longrightarrow> dn)"
  using assms
proof (induction run arbitrary: q r)
  case Nil
  then have "sent_from env q all us rest 0 q []" by (intro sent_error) auto
  then show ?case using Nil by (intro exI [of _ True] exI [of _ 0] exI [of _ q]) (simp add: contents_def queue_step_def)
next
  case (Cons a run)
  have snd: "sending env q all us (a # run @ rest)" using Cons.prems(1) by simp
  obtain c where c: "cells q a = Some c" "chunk_ok c" "sendable (ne_content env) (chunk_value c)" "ctype c = MEM_CHUNK"
    using sendingD [OF snd] Cons.prems(2) by (metis list.set_intros(1) option.inject)
  define s where "s = left (ne_content env) (chunk_value c)"
  have hd: "rest_of env (cells q) a = (a, s)" using c(1) by (simp add: rest_of_def s_def)
  have notin: "a \<notin> set run" using snd by (simp add: sending_def)
  define n where "n = min r (length s)"
  define c' where "c' = c\<lparr>coffset := coffset c + int n\<rparr>"
  have mv: "moved env c c' (take n s)" unfolding c'_def s_def by (rule moved_offset [OF c(2,3)]) (simp add: n_def s_def)
  define q1 where "q1 = q\<lparr>cells := (cells q)(a \<mapsto> c')\<rparr>"
  have q1: "q1 = put_chunk a c' (bytes_out q) (sys_log q) q" by (simp add: q1_def put_chunk_def)
  show ?case
  proof (cases "r \<ge> length s")
    case True
    then have n: "n = length s" by (simp add: n_def)
    have same: "map (rest_of env (cells q1)) run = map (rest_of env (cells q)) run"
      using notin by (auto simp: rest_of_def q1_def)
    have same': "map (snd \<circ> rest_of env (cells q1)) run = map (snd \<circ> rest_of env (cells q)) run"
      using arg_cong [OF same, of "map snd"] by simp
    obtain v where v: "chunk_value c' = (Mem_Data v, coffset c')"
      using chunk_value_mem [of c'] mv c(4) by (auto simp: moved_def)
    have "left (ne_content env) (chunk_value c') = []" "sendable (ne_content env) (chunk_value c')"
      using mv n by (simp_all add: moved_def s_def [symmetric])
    from mem_finished [OF this [unfolded v]] have fin: "finished (chunk_value c')" unfolding v .
    have "sending env q1 all us (run @ rest)" using sendingD [OF put_chunk_sending(1) [OF snd c(1) mv]] unfolding q1 by metis
    moreover have "\<forall>x \<in> set run. \<exists>c. cells q1 x = Some c \<and> ctype c = MEM_CHUNK"
      using Cons.prems(2) notin by (auto simp: q1_def)
    moreover have "r - length s \<le> length (concat (map (snd \<circ> rest_of env (cells q1)) run))"
      using Cons.prems(3) hd unfolding same' by (simp add: comp_def)
    ultimately obtain dn k q' where ih: "account (map (rest_of env (cells q1)) run) (r - length s) q1 = Some (dn, k, q')"
      "dn \<longrightarrow> k = length run \<and> list_all finished (contents q' run)"
      "sent_from env q1 all us (run @ rest) 0 q' (take (r - length s) (concat (map (snd \<circ> rest_of env (cells q1)) run)))"
      "queue_step q1 q' (set run)" "bytes_out q' = bytes_out q1"
      "r - length s = length (concat (map (snd \<circ> rest_of env (cells q1)) run)) \<longrightarrow> dn" using Cons.IH [of q1 "r - length s"] by blast
    have "account (map (rest_of env (cells q)) (a # run)) r q = Some (dn, k + 1, q')"
      using c(1) hd True ih(1) unfolding same by (simp add: q1_def c'_def n)
    moreover have "sent_from env q all us (a # run @ rest) 0 q' (take n s @ take (r - length s) (concat (map (snd \<circ> rest_of env (cells q1)) run)))"
      unfolding q1 by (rule sent_one [OF snd c(1) mv fin ih(3) [unfolded q1]])
    moreover have "cells q' a = Some c'" using ih(4) notin by (simp add: queue_step_def q1_def)
    then have "dn \<longrightarrow> k + 1 = length (a # run) \<and> list_all finished (contents q' (a # run))" using ih(2) fin by (simp add: contents_def)
    moreover have "queue_step q q' (set (a # run))" using ih(4) by (auto simp: queue_step_def q1_def)
    moreover have "r = length (concat (map (snd \<circ> rest_of env (cells q)) (a # run))) \<longrightarrow> dn"
      using ih(6) hd unfolding same' by (simp add: comp_def)
    ultimately show ?thesis using hd True n ih(5) unfolding same' by (intro exI [of _ "dn"] exI [of _ "k + 1"] exI [of _ q']) (simp add: q1_def comp_def)
  next
    case False
    then have n: "n = r" by (simp add: n_def)
    have "account (map (rest_of env (cells q)) (a # run)) r q = Some (False, 0, q1)" using c(1) hd False by (simp add: q1_def c'_def n)
    moreover have "sent_from env q all us (a # run @ rest) 0 q1 (take r s)" unfolding q1 using sent_stop [OF snd c(1) mv, of 0] n by simp
    moreover have "queue_step q q1 (set (a # run))" by (auto simp: queue_step_def q1_def)
    ultimately show ?thesis using hd False by (intro exI [of _ False] exI [of _ 0] exI [of _ q1]) (simp add: q1_def)
  qed
qed

lemma writev_step_sends:
  assumes env: "kernel_ok env" and snd: "sending env q all us (a # as)" and c: "cells q a = Some c" "ctype c = MEM_CHUNK"
    and fit: "memory_fits (map fst (contents q (a # as)))"
  shows "(\<exists>code. writev_step env i (a # as) q = Some (Inl code, 0, q, []) \<and> code \<in> {-1, -2} \<and> \<not> taking env) \<or>
    (\<exists>dn k q' s. writev_step env i (a # as) q = Some (Inr dn, k, q', s) \<and> sent_from env q all us (a # as) 0 q' s \<and>
       bytes_out q' = bytes_out q + int (length s) \<and>
       (dn \<longrightarrow> k > 0 \<and> list_all finished (contents q' (take k (a # as))) \<and> queue_step q q' (set (take k (a # as)))) \<and>
       (taking env \<longrightarrow> s = [] \<longrightarrow> dn))"
proof -
  have sh: "cq_shape q all us []" "set (a # as) \<subseteq> set all" using snd by (simp_all add: sending_def)
  have al: "\<forall>x \<in> set (a # as). cells q x \<noteq> None" using cq_shapeD(11) [OF sh(1)] sh(2) by fastforce
  from mem_run_prefix [OF al, of 0] obtain run rest where
    run: "mem_run (cells q) (a # as) 0 = Some run" "a # as = run @ rest" "\<forall>a \<in> set run. \<exists>c. cells q a = Some c \<and> ctype c = MEM_CHUNK" by blast
  have "run \<noteq> []" using run(1) c by (auto simp: UIO_MAXIOV_def bind_Some_iff)
  have each: "\<exists>c. cells q x = Some c \<and> chunk_ok c \<and> ctype c = MEM_CHUNK \<and> sendable (ne_content env) (chunk_value c)" if "x \<in> set run" for x
  proof -
    obtain d where d: "cells q x = Some d" "ctype d = MEM_CHUNK" using run(3) \<open>x \<in> set run\<close> by blast
    moreover have "x \<in> set (a # as)" using run(2) that by simp
    then have "sendable (ne_content env) (chunk_value d)" using snd d(1) by (force simp: sending_def contents_def list_all_iff)
    ultimately show ?thesis using cq_shapeD(9) [OF sh(1) d(1)] by blast
  qed
  have "sum_list (map (\<lambda>a. mem_size (fst (chunk_value (the (cells q a))))) run) \<le> sum_list (map mem_size (map fst (contents q (a # as))))"
    unfolding run(2) by (simp add: contents_def comp_def)
  with fit have "int 0 + int (sum_list (map (\<lambda>a. mem_size (fst (chunk_value (the (cells q a))))) run)) \<le> SEND_MAX"
    by (simp add: memory_fits_def)
  with iov_list_fits [of run "cells q" env 0] each have vs: "iov_list (cells q) run 0 = Some (map (rest_of env (cells q)) run)" by blast
  define s where "s = concat (map (snd \<circ> rest_of env (cells q)) run)"
  show ?thesis
  proof (cases "send_result (ne_write env i s)")
    case (Inl code)
    then have "writev_step env i (a # as) q = Some (Inl code, 0, q, [])" using run(1) vs by (simp add: writev_step_def s_def comp_def)
    moreover have "\<not> taking env" using takingD(3) [of env i s] Inl by auto
    ultimately show ?thesis using send_result_code [OF Inl] by blast
  next
    case (Inr r)
    have r: "r \<le> length s" by (rule kernel_okD(1) [OF env Inr])
    define q0 where "q0 = q\<lparr>bytes_out := bytes_out q + int r\<rparr>"
    have cells0: "cells q0 = cells q" "contents q0 = contents q" by (simp_all add: q0_def contents_def fun_eq_iff)
    have snd0: "sending env q0 all us (run @ rest)" using snd unfolding run(2) sending_def cells0 by (simp add: q0_def cq_shape_def)
    from account_sends [OF snd0, of r] run(3) r obtain dn k q' where
      ac: "account (map (rest_of env (cells q0)) run) r q0 = Some (dn, k, q')" "dn \<longrightarrow> k = length run \<and> list_all finished (contents q' run)"
        "sent_from env q0 all us (run @ rest) 0 q' (take r s)" "queue_step q0 q' (set run)" "bytes_out q' = bytes_out q0" "r = length s \<longrightarrow> dn"
      unfolding cells0 s_def by blast
    have "sent_from env q all us (a # as) 0 q' (take r s)"
      using ac(3) unfolding run(2) sent_from_def cells0 by (simp add: queue_step_def q0_def)
    moreover have "writev_step env i (a # as) q = Some (Inr dn, k, q', take r s)"
      using run(1) vs Inr ac(1) unfolding cells0 by (simp add: writev_step_def s_def comp_def q0_def)
    moreover have "dn \<longrightarrow> k > 0 \<and> list_all finished (contents q' (take k (a # as))) \<and> queue_step q q' (set (take k (a # as)))"
      using ac(2,4) \<open>run \<noteq> []\<close> unfolding run(2) by (auto simp: queue_step_def q0_def)
    moreover have "bytes_out q' = bytes_out q + int (length (take r s))" using ac(5) r by (simp add: q0_def)
    moreover have "taking env \<longrightarrow> take r s = [] \<longrightarrow> dn" using takingD(3) [of env i s] Inr ac(6) r by auto
    ultimately show ?thesis by blast
  qed
qed

lemma chunk_value_fd [simp]: "chunk_value (c\<lparr>cfile := (cfile c)\<lparr>ffd := n\<rparr>\<rparr>) = chunk_value c"
  by (simp add: chunk_value_def split: chunk_type.splits)

lemma moved_fd: "moved env c c' s \<Longrightarrow> moved env c (c'\<lparr>cfile := (cfile c')\<lparr>ffd := n\<rparr>\<rparr>) s"
  by (simp add: moved_def chunk_ok_def)

lemma moved_refl: "chunk_ok c \<Longrightarrow> sendable (ne_content env) (chunk_value c) \<Longrightarrow> moved env c c []"
  by (simp add: moved_def)

lemma sent_file_put:
  assumes c: "chunk_ok c" "ctype c = FILE_CHUNK" "sendable (ne_content env) (chunk_value c)"
    and n: "n \<le> length (left (ne_content env) (chunk_value c))"
  shows "\<exists>dn c' l. sent_file a c n q = (dn, put_chunk a c' (bytes_out q + int n) l q) \<and>
    moved env c c' (take n (left (ne_content env) (chunk_value c))) \<and> (dn \<longleftrightarrow> finished (chunk_value c'))"
proof -
  define c' where "c' = c\<lparr>coffset := coffset c + int n\<rparr>"
  have mv: "moved env c c' (take n (left (ne_content env) (chunk_value c)))" unfolding c'_def by (rule moved_offset [OF c(1,3) n])
  obtain v where v: "chunk_value c' = (File_Data v (fstart (cfile c')) (flength (cfile c')), coffset c')"
    using chunk_value_file [of c'] mv c(2) by (auto simp: moved_def)
  have q1: "advance a c n q = put_chunk a c' (bytes_out q + int n) (sys_log q) q" by (simp add: advance_put c'_def)
  define c2 where "c2 = c'\<lparr>cfile := (cfile c')\<lparr>ffd := -1\<rparr>\<rparr>"
  have v2: "chunk_value c2 = chunk_value c'" by (simp add: c2_def chunk_value_def split: chunk_type.splits)
  have twice: "(put_chunk a c' m l q)\<lparr>cells := (cells (put_chunk a c' m l q))(a \<mapsto> c2), sys_log := l2\<rparr> = put_chunk a c2 m l2 q" for m l l2
    by (simp add: put_chunk_def)
  consider "coffset c' = flength (cfile c')" "ffd (cfile c') \<noteq> -1" | "coffset c' = flength (cfile c')" "ffd (cfile c') = -1" | "coffset c' \<noteq> flength (cfile c')" by blast
  then show ?thesis
  proof cases
    case 1
    then have "sent_file a c n q = (True, put_chunk a c2 (bytes_out q + int n) (sys_log q @ [Sys_close (ffd (cfile c'))]) q)"
      by (simp add: sent_file_def q1 c'_def [symmetric] c2_def [symmetric] Let_def twice [simplified])
    moreover have "finished (chunk_value c2)" using 1 v v2 by simp
    ultimately show ?thesis using moved_fd [OF mv, of "-1"] unfolding c2_def by blast
  next
    case 2
    then have "sent_file a c n q = (True, put_chunk a c' (bytes_out q + int n) (sys_log q) q)"
      by (simp add: sent_file_def q1 c'_def [symmetric] Let_def)
    moreover have "finished (chunk_value c')" using 2 v by simp
    ultimately show ?thesis using mv by blast
  next
    case 3
    then have "sent_file a c n q = (False, put_chunk a c' (bytes_out q + int n) (sys_log q) q)"
      by (simp add: sent_file_def q1 c'_def [symmetric] Let_def)
    moreover have "\<not> finished (chunk_value c')" using 3 v by simp
    ultimately show ?thesis using mv by blast
  qed
qed

lemma sendfile_part_left:
  assumes "chunk_value c = (File_Data (Some nm) (fstart (cfile c)) (flength (cfile c)), coffset c)" and "sendable (ne_content env) (chunk_value c)"
  shows "(\<exists>u. left (ne_content env) (chunk_value c) = sendfile_part env (cstr nm) c @ u) \<and>
    (file_pending (chunk_value c) \<longrightarrow> sendfile_part env (cstr nm) c \<noteq> [])"
proof -
  define k where "k = nat (flength (cfile c) - coffset c)"
  define m where "m = nat ((if flength (cfile c) - coffset c > 2 ^ 30 - 1 then 2 ^ 30 - 1 else flength (cfile c) - coffset c) mod 2 ^ 32)"
  define t where "t = drop (nat (fstart (cfile c) + coffset c)) (ne_content env (cstr nm))"
  have "0 \<le> flength (cfile c) - coffset c" using assms by simp
  then have "m \<le> k" by (auto simp: m_def k_def)
  then have "sendfile_part env (cstr nm) c = take m (take k t)"
    unfolding sendfile_part_def Let_def m_def t_def by (simp add: min.absorb1)
  moreover have "left (ne_content env) (chunk_value c) = take k t" using assms(1) by (simp add: k_def t_def)
  moreover have "file_pending (chunk_value c) \<longrightarrow> m > 0 \<and> k > 0 \<and> t \<noteq> []"
    using assms by (auto simp: k_def m_def t_def)
  then have "file_pending (chunk_value c) \<longrightarrow> take m (take k t) \<noteq> []" by simp
  moreover have "\<exists>u. take k t = take m (take k t) @ u" using append_take_drop_id by metis
  ultimately show ?thesis by simp
qed

lemma sendfile_step_sends:
  assumes env: "kernel_ok env" and snd: "sending env q all us (a # as)" and c: "cells q a = Some c" "ctype c = FILE_CHUNK"
  shows "\<exists>r q' s. sendfile_step env i a c q = Some (r, q', s) \<and> sent_from env q all us (a # as) 0 q' s \<and>
    queue_step q q' {a} \<and> bytes_out q' = bytes_out q + int (length s) \<and>
    (case r of Inl code \<Rightarrow> code \<ge> -2 \<and> \<not> (taking env \<and> file_pending (chunk_value c))
     | Inr dn \<Rightarrow> (dn \<longrightarrow> list_all finished (contents q' [a])) \<and> (taking env \<longrightarrow> file_pending (chunk_value c) \<longrightarrow> s \<noteq> []))"
proof -
  obtain d where d: "cells q a = Some d" "chunk_ok d" "sendable (ne_content env) (chunk_value d)" using sendingD [OF snd] by metis
  then have ok: "chunk_ok c" "sendable (ne_content env) (chunk_value c)" using c(1) by simp_all
  obtain b v where b: "fname (cfile c) = Some b" "buf_repr b v"
    "chunk_value c = (File_Data v (fstart (cfile c)) (flength (cfile c)), coffset c)" using chunk_value_file [OF ok(1) c(2)] by blast
  then obtain nm where nm: "v = Some nm" using ok(2) by auto
  have name: "buffer_cstr b = Some (cstr nm)" using buffer_cstr_repr b(2) nm by simp
  show ?thesis
  proof (cases "open_chunk_file env (cstr nm) c")
    case None
    moreover have "sent_from env q all us (a # as) 0 q []" by (rule sent_error [OF snd]) simp
    moreover have "\<not> taking env" using None by (auto simp: open_chunk_file_def taking_def split: if_splits)
    ultimately show ?thesis using b(1) name by (intro exI [of _ "Inl (-1)"] exI [of _ q] exI [of _ "[]"]) (simp add: sendfile_step_def queue_step_def)
  next
    case (Some c1)
    then have c1: "\<exists>n. c1 = c\<lparr>cfile := (cfile c)\<lparr>ffd := n\<rparr>\<rparr>"
      by (auto simp: open_chunk_file_def split: if_splits intro: exI [of _ "ffd (cfile c)"])
    then have val: "chunk_value c1 = chunk_value c" by auto
    have ok1: "chunk_ok c1" "ctype c1 = FILE_CHUNK" "sendable (ne_content env) (chunk_value c1)"
      using c1 ok c(2) by (auto simp: chunk_ok_def)
    have mv: "moved env c c1 []" using c1 moved_fd [OF moved_refl [OF ok]] by auto
    define q1 where "q1 = q\<lparr>cells := (cells q)(a \<mapsto> c1)\<rparr>"
    have q1: "q1 = put_chunk a c1 (bytes_out q) (sys_log q) q" by (simp add: q1_def put_chunk_def)
    define s where "s = sendfile_part env (cstr nm) c1"
    have eqs: "fstart (cfile c1) = fstart (cfile c)" "flength (cfile c1) = flength (cfile c)" "coffset c1 = coffset c" using c1 by auto
    obtain u where u: "left (ne_content env) (chunk_value c1) = s @ u"
      using sendfile_part_left [of c1 nm env] b(3) nm ok1(3) unfolding val eqs s_def by auto
    have ne: "file_pending (chunk_value c) \<Longrightarrow> s \<noteq> []"
      using sendfile_part_left [of c1 nm env] b(3) nm ok1(3) unfolding val eqs s_def by auto
    have same1: "sent_from env q all us (a # as) 0 q1 []" unfolding q1 by (rule sent_stop [OF snd c(1) mv]) simp
    have st1: "queue_step q q1 {a}" "bytes_out q1 = bytes_out q" by (simp_all add: q1 queue_step_def)
    define w where "w = ne_sendfile env i s"
    have tk: "\<exists>n > 0. w = Wrote n" if "taking env" "file_pending (chunk_value c)" using takingD(2) [OF that(1) ne [OF that(2)]] by (simp add: w_def)
    consider (zero) "w = Wrote 0" | (code) code where "w \<noteq> Wrote 0" "send_result w = Inl code" | (sent) n where "w \<noteq> Wrote 0" "send_result w = Inr n"
      by (cases "send_result w") auto
    then show ?thesis
    proof cases
      case zero
      then have "\<exists>code. sendfile_step env i a c q = Some (Inl code, q1, []) \<and> code \<ge> -2"
        using b(1) name Some by (auto simp: sendfile_step_def w_def s_def q1_def Let_def split: option.splits)
      moreover have "\<not> (taking env \<and> file_pending (chunk_value c))" using tk zero by auto
      ultimately show ?thesis using same1 st1 by fastforce
    next
      case code
      then have "sendfile_step env i a c q = Some (Inl code, q1, [])"
        using b(1) name Some by (simp add: sendfile_step_def w_def s_def q1_def Let_def)
      moreover have "\<not> (taking env \<and> file_pending (chunk_value c))" using tk code(2) by (auto simp: send_result_def)
      ultimately show ?thesis using same1 st1 send_result_code [OF code(2)] by fastforce
    next
      case sent
      have n: "n \<le> length s" using kernel_okD(2) [OF env, of i s n] sent(2) by (simp add: w_def)
      then have "n \<le> length (left (ne_content env) (chunk_value c1))" by (simp add: u)
      from sent_file_put [OF ok1 this, of a q1] obtain dn c' l where
        sf: "sent_file a c1 n q1 = (dn, put_chunk a c' (bytes_out q1 + int n) l q1)" "moved env c1 c' (take n s)" "dn \<longleftrightarrow> finished (chunk_value c')"
        using n by (auto simp: u)
      define q' where "q' = put_chunk a c' (bytes_out q + int n) l q"
      have q': "put_chunk a c' (bytes_out q1 + int n) l q1 = q'" by (simp add: q'_def q1 put_chunk_def)
      have mv': "moved env c c' (take n s)" using mv sf(2) by (simp add: moved_def)
      have "sendfile_step env i a c q = Some (Inr dn, q', take n s)"
        using b(1) name Some sent sf(1) q' by (simp add: sendfile_step_def w_def s_def q1_def Let_def)
      moreover have "sent_from env q all us (a # as) 0 q' (take n s)" unfolding q'_def by (rule sent_stop [OF snd c(1) mv']) simp
      moreover have "queue_step q q' {a}" "bytes_out q' = bytes_out q + int n" "contents q' [a] = [chunk_value c']"
        by (simp_all add: q'_def queue_step_def contents_def)
      moreover have "taking env \<longrightarrow> file_pending (chunk_value c) \<longrightarrow> take n s \<noteq> []"
        using tk ne sent(2) by (auto simp: send_result_def)
      ultimately show ?thesis using sf(3) n by (intro exI [of _ "Inr dn"] exI [of _ q'] exI [of _ "take n s"]) simp
    qed
  qed
qed

lemma sent_code: "sent_from env q all us as n q' s \<Longrightarrow> code \<ge> -2 \<Longrightarrow> sent_from env q all us as code q' s"
  by (simp add: sent_from_def)

lemma sending_suffix: "sending env q all us (xs @ ys) \<Longrightarrow> sending env q all us ys"
  by (auto simp: sending_def contents_def)

lemma memory_fits_suffix: "memory_fits (xs @ ys) \<Longrightarrow> memory_fits ys"
  by (simp add: memory_fits_def)

lemma linux_chunks_sends:
  assumes "kernel_ok env" and "sending env q all us as" and "memory_fits (map fst (contents q as))"
  shows "\<exists>code q' s. linux_chunks env i as q = Some (code, q', s) \<and> sent_from env q all us as code q' s \<and>
    bytes_out q' = bytes_out q + int (length s) \<and> progresses env q as code s"
  using assms(2,3)
proof (induction "length as" arbitrary: i q as rule: less_induct)
  case less
  show ?case
  proof (cases as)
    case Nil
    with less.prems have "sent_from env q all us [] (int i) q []" by (intro sent_error) auto
    then show ?thesis by (simp add: Nil progresses_def contents_def)
  next
    case (Cons a bs)
    note snd = less.prems(1) [unfolded Cons]
    have dis: "distinct (a # bs)" using snd by (simp add: sending_def)
    obtain c where c: "cells q a = Some c" "ctype c \<noteq> UNUSED_CHUNK" and hd: "contents q (a # bs) = chunk_value c # contents q bs"
      using sendingD [OF snd] by metis
    have go: "\<exists>code q2 t. linux_chunks env j (drop k (a # bs)) q1 = Some (code, q2, t) \<and>
        sent_from env q all us (a # bs) code q2 (s @ t) \<and> bytes_out q2 = bytes_out q + int (length (s @ t)) \<and>
        progresses env q as code (s @ t)"
      if k: "k > 0" and one: "sent_from env q all us (a # bs) 0 q1 s" and fin: "list_all finished (contents q1 (take k (a # bs)))"
        and st: "queue_step q q1 (set (take k (a # bs)))" and by1: "bytes_out q1 = bytes_out q + int (length s)" for j k q1 s
    proof -
      have app: "a # bs = take k (a # bs) @ drop k (a # bs)" by simp
      have "set (take k (a # bs)) \<inter> set (drop k (a # bs)) = {}" using dis by (rule set_take_disj_set_drop_if_distinct) simp
      moreover have sq: "sending env q1 all us (drop k (a # bs))"
        by (rule sending_suffix [of _ _ _ _ "take k (a # bs)"]) (use one in \<open>simp add: sent_from_def\<close>)
      moreover have "map fst (contents q1 (a # bs)) = map fst (contents q (a # bs))" using one by (simp add: sent_from_def)
      then have "memory_fits (map fst (contents q1 (take k (a # bs))) @ map fst (contents q1 (drop k (a # bs))))"
        using less.prems(2) unfolding Cons contents_def by (metis app map_append)
      then have mf: "memory_fits (map fst (contents q1 (drop k (a # bs))))" by (rule memory_fits_suffix)
      moreover have "length (drop k (a # bs)) < length as" using k by (simp add: Cons)
      ultimately obtain code q2 t where t: "linux_chunks env j (drop k (a # bs)) q1 = Some (code, q2, t)"
        "sent_from env q1 all us (drop k (a # bs)) code q2 t" "bytes_out q2 = bytes_out q1 + int (length t)"
        "progresses env q1 (drop k (a # bs)) code t"
        using less.hyps [of "drop k (a # bs)" q1 j] by blast
      have "sent_from env q all us (take k (a # bs) @ drop k (a # bs)) code q2 (s @ t)"
        by (rule sent_append [OF _ fin t(2) _ st]) (use one dis in \<open>simp_all add: set_take_disj_set_drop_if_distinct\<close>)
      moreover have "progresses env q (take k (a # bs) @ drop k (a # bs)) code (s @ t)"
        by (rule progress_append [OF _ fin t(4) _ st]) (use one dis in \<open>simp_all add: set_take_disj_set_drop_if_distinct\<close>)
      ultimately show ?thesis using t by1 by (simp add: Cons)
    qed
    show ?thesis
    proof (cases "ctype c = MEM_CHUNK")
      case True
      from writev_step_sends [OF assms(1) snd c(1) True less.prems(2) [unfolded Cons], of i] show ?thesis
      proof (elim disjE exE conjE)
        fix code
        assume w: "writev_step env i (a # bs) q = Some (Inl code, 0, q, [])" and code: "code \<in> {-1, -2}" "\<not> taking env"
        have "linux_chunks env i as q = Some (code, q, [])" using w c(1) True by (simp add: Cons)
        moreover have "sent_from env q all us as code q []" by (rule sent_error [OF less.prems(1)]) (use code(1) in auto)
        moreover have "progresses env q as code []" using code(2) by (simp add: progresses_def)
        ultimately show ?thesis by simp
      next
        fix dn k q1 s
        assume w: "writev_step env i (a # bs) q = Some (Inr dn, k, q1, s)" "sent_from env q all us (a # bs) 0 q1 s"
          "bytes_out q1 = bytes_out q + int (length s)"
          "dn \<longrightarrow> k > 0 \<and> list_all finished (contents q1 (take k (a # bs))) \<and> queue_step q q1 (set (take k (a # bs)))"
          "taking env \<longrightarrow> s = [] \<longrightarrow> dn"
        show ?thesis
        proof (cases dn)
          case True
          then have k: "k > 0" using w(4) by blast
          from go [OF k w(2) _ _ w(3), of "i + k"] w(4) \<open>dn\<close> obtain code q2 t where
            g: "linux_chunks env (i + k) (drop k (a # bs)) q1 = Some (code, q2, t)" "sent_from env q all us (a # bs) code q2 (s @ t)"
              "bytes_out q2 = bytes_out q + int (length (s @ t))" "progresses env q as code (s @ t)" by blast
          have "drop k (a # bs) = drop (k - 1) bs" using k by (cases k) simp_all
          then have "linux_chunks env i as q = Some (code, q2, s @ t)"
            using w(1) c(1) \<open>ctype c = MEM_CHUNK\<close> \<open>dn\<close> g(1) by (simp add: Cons)
          with g(2-4) show ?thesis by (simp add: Cons)
        next
          case False
          then have "progresses env q as (int (i + (k - 1))) s" using w(5) by (simp add: progresses_def)
          moreover from False have "linux_chunks env i as q = Some (int (i + (k - 1)), q1, s)"
            using w(1) c(1) \<open>ctype c = MEM_CHUNK\<close> by (simp add: Cons)
          moreover have "sent_from env q all us as (int (i + (k - 1))) q1 s" using sent_code [OF w(2)] by (simp add: Cons)
          ultimately show ?thesis using w(3) by blast
        qed
      qed
    next
      case False
      then have fc: "ctype c = FILE_CHUNK" using c(2) by (cases "ctype c") auto
      from sendfile_step_sends [OF assms(1) snd c(1) fc, of i] obtain r q1 s where
        w: "sendfile_step env i a c q = Some (r, q1, s)" "sent_from env q all us (a # bs) 0 q1 s" "queue_step q q1 {a}"
          "bytes_out q1 = bytes_out q + int (length s)"
          "case r of Inl code \<Rightarrow> code \<ge> -2 \<and> \<not> (taking env \<and> file_pending (chunk_value c))
           | Inr dn \<Rightarrow> (dn \<longrightarrow> list_all finished (contents q1 [a])) \<and> (taking env \<longrightarrow> file_pending (chunk_value c) \<longrightarrow> s \<noteq> [])" by blast
      show ?thesis
      proof (cases r)
        case (Inl code)
        then have "linux_chunks env i as q = Some (code, q1, s)" using w(1) c(1) fc by (simp add: Cons)
        moreover have "sent_from env q all us as code q1 s" using sent_code [OF w(2)] w(5) Inl by (simp add: Cons)
        moreover have "progresses env q as code s" using w(5) Inl by (simp add: progresses_def Cons hd)
        ultimately show ?thesis using w(4) by blast
      next
        case (Inr dn)
        show ?thesis
        proof (cases dn)
          case True
          have "take 1 (a # bs) = [a]" "drop 1 (a # bs) = bs" by simp_all
          with go [of 1 q1 s "i + 1"] w Inr True obtain code q2 t where
            g: "linux_chunks env (i + 1) bs q1 = Some (code, q2, t)" "sent_from env q all us (a # bs) code q2 (s @ t)"
              "bytes_out q2 = bytes_out q + int (length (s @ t))" "progresses env q as code (s @ t)" by auto
          then have "linux_chunks env i as q = Some (code, q2, s @ t)" using w(1) c(1) fc Inr True by (simp add: Cons)
          with g(2-4) show ?thesis by (simp add: Cons)
        next
          case False
          have "progresses env q as (int i) s" using w(5) Inr by (simp add: progresses_def Cons hd)
          moreover from False have "linux_chunks env i as q = Some (int i, q1, s)" using w(1) c(1) fc Inr by (simp add: Cons)
          moreover have "sent_from env q all us as (int i) q1 s" using sent_code [OF w(2)] by (simp add: Cons)
          ultimately show ?thesis using w(4) by blast
        qed
      qed
    qed
  qed
qed

section \<open>The contract of a backend\<close>

text \<open>Whatever a backend returns: the data in the queue are the same with later offsets, what was to be sent is what
  went out followed by what is left, and the counter agrees. With a system that makes progress it reports no error and
  sends at least a byte.\<close>

definition handed :: "net_env \<Rightarrow> chunkqueue \<Rightarrow> (chunk_data \<times> int) list \<Rightarrow> int \<Rightarrow> chunkqueue \<Rightarrow> char list \<Rightarrow> (chunk_data \<times> int) list \<Rightarrow> bool" where
  "handed env q ds code q' s ds' \<longleftrightarrow> cq_repr q' ds' \<and> list_all (sendable (ne_content env)) ds' \<and> map fst ds' = map fst ds \<and>
     to_send (ne_content env) ds = s @ to_send (ne_content env) ds' \<and> bytes_out q' = bytes_out q + int (length s) \<and> code \<ge> -2 \<and>
     (list_all file_pending ds \<longrightarrow> list_all file_pending (dropWhile finished ds')) \<and>
     (taking env \<longrightarrow> list_all file_pending ds \<longrightarrow> list_all small_file (map fst ds) \<longrightarrow>
        code \<ge> 0 \<and> (to_send (ne_content env) ds \<noteq> [] \<longrightarrow> s \<noteq> []))"

definition ready :: "net_env \<Rightarrow> (chunk_data \<times> int) list \<Rightarrow> bool" where
  "ready env ds \<longleftrightarrow> list_all (sendable (ne_content env)) ds \<and> memory_fits (map fst ds)"

locale network_backend =
  fixes run :: "net_env \<Rightarrow> net_backend"
  assumes run: "kernel_ok env \<Longrightarrow> cq_repr q ds \<Longrightarrow> ready env ds \<Longrightarrow>
    \<exists>code q' s ds'. run env q = Some (code, q', s) \<and> handed env q ds code q' s ds'"

lemma handedI:
  assumes "cq_shape q as us []" and "contents q as = ds" and "sent_from env q as us as code q' s"
    and "bytes_out q' = bytes_out q + int (length s)" and "progresses env q as code s"
  shows "handed env q ds code q' s (contents q' as)"
  using assms unfolding handed_def sent_from_def sending_def progresses_def cq_repr_def by auto

lemma sending_all: "cq_shape q as us [] \<Longrightarrow> list_all (sendable (ne_content env)) (contents q as) \<Longrightarrow> sending env q as us as"
  using cq_shapeD(3) by (fastforce simp: sending_def)

interpretation write_backend: network_backend network_write_chunkqueue_write
proof
  fix env :: net_env and q ds
  assume env: "kernel_ok env" and q: "cq_repr q ds" and rd: "ready env ds"
  from q obtain as us where sh: "cq_shape q as us []" "contents q as = ds" by (auto simp: cq_repr_def)
  have "sending env q as us as" by (rule sending_all [OF sh(1)]) (use rd sh(2) in \<open>simp add: ready_def\<close>)
  from write_chunks_sends [OF env this, of 0] obtain code q' s where
    w: "write_chunks env 0 as q = Some (code, q', s)" "sent_from env q as us as code q' s" "bytes_out q' = bytes_out q + int (length s)"
      "progresses env q as code s" by blast
  have "network_write_chunkqueue_write env q = Some (code, q', s)"
    using w(1) chunk_list_chain [OF cq_shapeD(1) [OF sh(1)]] by (simp add: network_write_chunkqueue_write_def)
  with handedI [OF sh w(2-4)] show "\<exists>code q' s ds'. network_write_chunkqueue_write env q = Some (code, q', s) \<and> handed env q ds code q' s ds'" by blast
qed

interpretation linux_backend: network_backend network_write_chunkqueue_linuxsendfile
proof
  fix env :: net_env and q ds
  assume env: "kernel_ok env" and q: "cq_repr q ds" and rd: "ready env ds"
  from q obtain as us where sh: "cq_shape q as us []" "contents q as = ds" by (auto simp: cq_repr_def)
  have "sending env q as us as" by (rule sending_all [OF sh(1)]) (use rd sh(2) in \<open>simp add: ready_def\<close>)
  moreover have "memory_fits (map fst (contents q as))" using rd sh(2) by (simp add: ready_def)
  ultimately obtain code q' s where
    w: "linux_chunks env 0 as q = Some (code, q', s)" "sent_from env q as us as code q' s" "bytes_out q' = bytes_out q + int (length s)"
      "progresses env q as code s" using linux_chunks_sends [OF env, of q as us as 0] by blast
  have "network_write_chunkqueue_linuxsendfile env q = Some (code, q', s)"
    using w(1) chunk_list_chain [OF cq_shapeD(1) [OF sh(1)]] by (simp add: network_write_chunkqueue_linuxsendfile_def)
  with handedI [OF sh w(2-4)] show "\<exists>code q' s ds'. network_write_chunkqueue_linuxsendfile env q = Some (code, q', s) \<and> handed env q ds code q' s ds'" by blast
qed

section \<open>Calling a backend\<close>

lemma drop_first_bytes: "drop_first a c q = Some q' \<Longrightarrow> bytes_out q' = bytes_out q"
  by (auto simp: drop_first_def bind_Some_iff Let_def split: if_splits)

lemma remove_finished_bytes:
  assumes "chunkqueue_remove_finished_chunks q = Some q'"
  shows "bytes_out q' = bytes_out q"
proof (rule chunkqueue_remove_finished_chunks.raw_induct [where P = "\<lambda>q q'. bytes_out q' = bytes_out q", OF _ assms])
  fix f q q'
  assume ih: "\<And>q q'. f q = Some q' \<Longrightarrow> bytes_out q' = bytes_out q"
    and body: "(case cq_first q of None \<Rightarrow> Some q
      | Some a \<Rightarrow> Option.bind (cells q a) (\<lambda>c. Option.bind (is_finished c) (\<lambda>fin. if \<not> fin then Some q else Option.bind (drop_first a c q) f))) = Some q'"
  from body show "bytes_out q' = bytes_out q"
    by (auto simp: bind_Some_iff split: option.splits if_splits dest!: ih drop_first_bytes)
qed

lemma finish_write_result:
  assumes "cq_repr q ds" and "code \<ge> -2"
  shows "\<exists>ret q'. finish_write code q = Some (ret, q') \<and> ret \<in> {-2, -1, 0, 1} \<and> bytes_out q' = bytes_out q \<and>
    (if code \<ge> 0 then cq_repr q' (dropWhile finished ds) \<and> ret \<ge> 0 \<and> (ret = 0 \<longleftrightarrow> dropWhile finished ds = [])
     else q' = q \<and> ret = code)"
proof (cases "code \<ge> 0")
  case True
  from chunkqueue_remove_finished_chunks_repr [OF assms(1)] obtain q' where
    q': "chunkqueue_remove_finished_chunks q = Some q'" "cq_repr q' (dropWhile finished ds)" by blast
  with True remove_finished_bytes [OF q'(1)] chunkqueue_is_empty_repr [OF q'(2)] show ?thesis by (auto simp: finish_write_def)
next
  case False
  with assms(2) show ?thesis by (auto simp: finish_write_def)
qed

lemma limit_traffic_result:
  assumes "con_heap srv i = Some c" and "con_list_repr (joblist srv) js"
  shows "\<exists>l js. limit_traffic i srv = Some ((put_con i (c\<lparr>traffic_limit_reached := True\<rparr>) srv)\<lparr>joblist := l\<rparr>) \<and> con_list_repr l js"
proof -
  have "\<exists>l js'. joblist_append (joblist srv) (in_joblist c) i = Some l \<and> con_list_repr l js'"
    using con_list_add_repr [OF assms(2), of i] assms(2) by (cases "in_joblist c") (auto simp: joblist_append_def)
  then obtain l js' where "joblist_append (joblist srv) (in_joblist c) i = Some l" "con_list_repr l js'" by blast
  with assms(1) show ?thesis by (auto simp: limit_traffic_def job_append_def put_con_def)
qed

definition limited :: "connection \<Rightarrow> bool" where
  "limited c \<longleftrightarrow> cf_kbytes_per_second (cconf c) \<noteq> 0 \<or> cf_global_kbytes_per_second (cconf c) \<noteq> 0"

text \<open>Nothing but the queue, the counters and the job list changes.\<close>

definition write_frame :: "nat \<Rightarrow> connection \<Rightarrow> server \<Rightarrow> connection \<Rightarrow> server \<Rightarrow> bool" where
  "write_frame i c srv c' srv' \<longleftrightarrow>
     (\<exists>q m n b. c' = c\<lparr>write_queue := q, bytes_written := m, bytes_written_cur_second := n, traffic_limit_reached := b\<rparr>) \<and>
     (\<exists>g l. srv' = (put_con i c' srv)\<lparr>global_bytes_cnt := g, joblist := l\<rparr>) \<and>
     (\<not> limited c \<longrightarrow> traffic_limit_reached c' = traffic_limit_reached c \<and> joblist srv' = joblist srv) \<and>
     (\<exists>js. con_list_repr (joblist srv') js)"

lemma dropWhile_finished_empty:
  assumes "list_all (sendable F) ds"
  shows "dropWhile finished ds = [] \<longleftrightarrow> list_all finished ds"
  by (induction ds) auto

lemma to_send_dropWhile: "list_all (sendable F) ds \<Longrightarrow> to_send F (dropWhile finished ds) = to_send F ds"
  by (induction ds) (auto dest: left_finished)

lemma nothing_to_send: "list_all (sendable F) ds \<Longrightarrow> to_send F ds = [] \<Longrightarrow> list_all finished ds"
  using left_unfinished by (fastforce simp: list_all_iff)

lemma memory_fits_dropWhile: "memory_fits (map fst ds) \<Longrightarrow> memory_fits (map fst (dropWhile p ds))"
  using memory_fits_suffix [of "map fst (takeWhile p ds)" "map fst (dropWhile p ds)"]
  by (metis map_append takeWhile_dropWhile_id)

context network_backend
begin

lemma network_write_result:
  assumes env: "kernel_ok env" and c: "con_heap srv i = Some c" and q: "cq_repr (write_queue c) ds" and rd: "ready env ds"
    and js: "con_list_repr (joblist srv) js"
  shows "\<exists>ret srv' s c' ds'. network_write_chunkqueue (run env) i srv = Some (ret, srv', s) \<and> write_frame i c srv c' srv' \<and>
    cq_repr (write_queue c') ds' \<and> ready env ds' \<and> to_send (ne_content env) ds = s @ to_send (ne_content env) ds' \<and>
    bytes_written c' = bytes_written c + int (length s) \<and> ret \<in> {-2, -1, 0, 1} \<and> (ret = 0 \<longrightarrow> ds' = []) \<and>
    (ret = 1 \<longrightarrow> \<not> limited c \<longrightarrow> ds' \<noteq> []) \<and>
    (taking env \<longrightarrow> \<not> limited c \<longrightarrow> list_all file_pending ds \<longrightarrow> list_all small_file (map fst ds) \<longrightarrow>
       ret \<ge> 0 \<and> list_all file_pending ds' \<and> list_all small_file (map fst ds') \<and>
       (to_send (ne_content env) ds \<noteq> [] \<longrightarrow> s \<noteq> []) \<and> (to_send (ne_content env) ds' = [] \<longrightarrow> ret = 0))"
proof (cases "cf_global_kbytes_per_second (cconf c) \<noteq> 0 \<and> global_bytes_cnt srv > int (cf_global_kbytes_per_second (cconf c)) * 1024")
  case True
  then have lim: "limited c" by (simp add: limited_def)
  from limit_traffic_result [OF c js] obtain l ks where
    l: "limit_traffic i srv = Some ((put_con i (c\<lparr>traffic_limit_reached := True\<rparr>) srv)\<lparr>joblist := l\<rparr>)" "con_list_repr l ks" by blast
  then have "network_write_chunkqueue (run env) i srv = Some (1, (put_con i (c\<lparr>traffic_limit_reached := True\<rparr>) srv)\<lparr>joblist := l\<rparr>, [])"
    using c True by (simp add: network_write_chunkqueue_def)
  moreover have "write_frame i c srv (c\<lparr>traffic_limit_reached := True\<rparr>) ((put_con i (c\<lparr>traffic_limit_reached := True\<rparr>) srv)\<lparr>joblist := l\<rparr>)"
    unfolding write_frame_def
  proof (intro conjI)
    show "\<exists>q m n b. c\<lparr>traffic_limit_reached := True\<rparr> = c\<lparr>write_queue := q, bytes_written := m, bytes_written_cur_second := n, traffic_limit_reached := b\<rparr>"
      by (intro exI [of _ "write_queue c"] exI [of _ "bytes_written c"] exI [of _ "bytes_written_cur_second c"] exI [of _ True]) simp
    show "\<exists>g la. (put_con i (c\<lparr>traffic_limit_reached := True\<rparr>) srv)\<lparr>joblist := l\<rparr> =
        (put_con i (c\<lparr>traffic_limit_reached := True\<rparr>) srv)\<lparr>global_bytes_cnt := g, joblist := la\<rparr>"
      by (intro exI [of _ "global_bytes_cnt srv"] exI [of _ l]) (simp add: put_con_def)
  qed (use l(2) lim in auto)
  ultimately show ?thesis using q rd lim by (intro exI conjI) (assumption, assumption, simp_all)
next
  case False
  from run [OF env q rd] obtain code q1 s ds1 where r: "run env (write_queue c) = Some (code, q1, s)" "handed env (write_queue c) ds code q1 s ds1" by blast
  note h = r(2) [unfolded handed_def]
  from finish_write_result [of q1 ds1 code] h obtain ret q2 where
    f: "finish_write code q1 = Some (ret, q2)" "ret \<in> {-2, -1, 0, 1}" "bytes_out q2 = bytes_out q1"
      "if code \<ge> 0 then cq_repr q2 (dropWhile finished ds1) \<and> ret \<ge> 0 \<and> (ret = 0 \<longleftrightarrow> dropWhile finished ds1 = []) else q2 = q1 \<and> ret = code" by blast
  define ds' where "ds' = (if code \<ge> 0 then dropWhile finished ds1 else ds1)"
  have q2: "cq_repr q2 ds'" using f(4) h by (auto simp: ds'_def split: if_splits)
  have rd': "ready env ds'" using h rd memory_fits_dropWhile [of ds1 finished]
    by (auto simp: ds'_def ready_def list_all_iff dest: set_dropWhileD)
  have sent: "to_send (ne_content env) ds = s @ to_send (ne_content env) ds'" using h to_send_dropWhile by (simp add: ds'_def)
  define c1 where "c1 = c\<lparr>write_queue := q2, bytes_written := bytes_written c + int (length s),
                  bytes_written_cur_second := bytes_written_cur_second c + int (length s)\<rparr>"
  define srv1 where "srv1 = (put_con i c1 srv)\<lparr>global_bytes_cnt := global_bytes_cnt srv + int (length s)\<rparr>"
  have w: "bytes_out q2 - bytes_out (write_queue c) = int (length s)" using f(3) h by simp
  define lim where "lim \<longleftrightarrow> cf_kbytes_per_second (cconf c) \<noteq> 0 \<and> bytes_written_cur_second c1 > int (cf_kbytes_per_second (cconf c)) * 1024"
  have step: "network_write_chunkqueue (run env) i srv =
      Option.bind (if lim then limit_traffic i srv1 else Some srv1) (\<lambda>srv. Some (ret, srv, s))"
  proof -
    have b: "Option.bind (Some x) f = f x" for x and f :: "'x \<Rightarrow> 'y option" by simp
    show ?thesis unfolding network_write_chunkqueue_def c b if_not_P [OF False] r(1) split_conv f(1) Let_def w lim_def srv1_def c1_def by (rule refl)
  qed
  have s1: "con_heap srv1 i = Some c1" "joblist srv1 = joblist srv" by (simp_all add: srv1_def put_con_def)
  have fin: "taking env \<longrightarrow> list_all file_pending ds \<longrightarrow> list_all small_file (map fst ds) \<longrightarrow>
       ret \<ge> 0 \<and> list_all file_pending ds' \<and> list_all small_file (map fst ds') \<and>
       (to_send (ne_content env) ds \<noteq> [] \<longrightarrow> s \<noteq> []) \<and> (to_send (ne_content env) ds' = [] \<longrightarrow> ret = 0)"
  proof (intro impI)
    assume a: "taking env" "list_all file_pending ds" "list_all small_file (map fst ds)"
    from h a have "code \<ge> 0" "to_send (ne_content env) ds \<noteq> [] \<longrightarrow> s \<noteq> []" "list_all file_pending (dropWhile finished ds1)" by blast+
    then have code: "code \<ge> 0" "to_send (ne_content env) ds \<noteq> [] \<longrightarrow> s \<noteq> []" "list_all file_pending ds'" by (simp_all add: ds'_def)
    have "list_all small_file (map fst ds1)" using a(3) h by simp
    then have "list_all small_file (map fst ds')" by (auto simp: ds'_def list_all_iff dest!: set_dropWhileD)
    moreover have "ret = 0" if "to_send (ne_content env) ds' = []"
    proof -
      have "to_send (ne_content env) ds1 = []" using that to_send_dropWhile h by (metis ds'_def)
      with nothing_to_send h have "list_all finished ds1" by blast
      then have "dropWhile finished ds1 = []" by (simp add: list_all_iff)
      with f(4) code show ?thesis by simp
    qed
    ultimately show "ret \<ge> 0 \<and> list_all file_pending ds' \<and> list_all small_file (map fst ds') \<and>
       (to_send (ne_content env) ds \<noteq> [] \<longrightarrow> s \<noteq> []) \<and> (to_send (ne_content env) ds' = [] \<longrightarrow> ret = 0)"
      using code f(4) by simp
  qed
  have nil: "(ret = 0 \<longrightarrow> ds' = []) \<and> (ret = 1 \<longrightarrow> ds' \<noteq> [])" using f(4) by (auto simp: ds'_def split: if_splits)
  show ?thesis
  proof (cases lim)
    case False
    have "network_write_chunkqueue (run env) i srv = Some (ret, srv1, s)" using step False by simp
    moreover have "write_frame i c srv c1 srv1" unfolding write_frame_def
    proof (intro conjI)
      show "\<exists>q m n b. c1 = c\<lparr>write_queue := q, bytes_written := m, bytes_written_cur_second := n, traffic_limit_reached := b\<rparr>"
        unfolding c1_def by (intro exI [of _ q2] exI [of _ "bytes_written c + int (length s)"]
          exI [of _ "bytes_written_cur_second c + int (length s)"] exI [of _ "traffic_limit_reached c"]) simp
      show "\<exists>g l. srv1 = (put_con i c1 srv)\<lparr>global_bytes_cnt := g, joblist := l\<rparr>" unfolding srv1_def
        by (intro exI [of _ "global_bytes_cnt srv + int (length s)"] exI [of _ "joblist srv"]) (simp add: put_con_def)
    qed (use js in \<open>auto simp: srv1_def put_con_def c1_def\<close>)
    moreover have "cq_repr (write_queue c1) ds'" "bytes_written c1 = bytes_written c + int (length s)" using q2 by (simp_all add: c1_def)
    ultimately show ?thesis using rd' sent f(2) nil fin by blast
  next
    case True
    then have "limited c" by (simp add: lim_def limited_def)
    define c2 where "c2 = c1\<lparr>traffic_limit_reached := True\<rparr>"
    have "con_list_repr (joblist srv1) js" using js s1(2) by simp
    from limit_traffic_result [OF s1(1) this] obtain l ks where
      l: "limit_traffic i srv1 = Some ((put_con i c2 srv1)\<lparr>joblist := l\<rparr>)" "con_list_repr l ks" unfolding c2_def by blast
    define srv2 where "srv2 = (put_con i c2 srv1)\<lparr>joblist := l\<rparr>"
    have "network_write_chunkqueue (run env) i srv = Some (ret, srv2, s)" using step True l(1) by (simp add: srv2_def)
    moreover have "write_frame i c srv c2 srv2" unfolding write_frame_def
    proof (intro conjI)
      show "\<exists>q m n b. c2 = c\<lparr>write_queue := q, bytes_written := m, bytes_written_cur_second := n, traffic_limit_reached := b\<rparr>"
        unfolding c1_def c2_def by (intro exI [of _ q2] exI [of _ "bytes_written c + int (length s)"]
          exI [of _ "bytes_written_cur_second c + int (length s)"] exI [of _ True]) simp
      show "\<exists>g l. srv2 = (put_con i c2 srv)\<lparr>global_bytes_cnt := g, joblist := l\<rparr>" unfolding srv2_def srv1_def
        by (intro exI [of _ "global_bytes_cnt srv + int (length s)"] exI [of _ l]) (simp add: put_con_def)
    qed (use l(2) \<open>limited c\<close> in \<open>auto simp: srv2_def\<close>)
    moreover have "cq_repr (write_queue c2) ds'" "bytes_written c2 = bytes_written c + int (length s)" using q2 by (simp_all add: c1_def c2_def)
    ultimately show ?thesis using rd' sent f(2) nil \<open>limited c\<close> by blast
  qed
qed

end

section \<open>What the client receives\<close>

definition network_backends :: "(net_env \<Rightarrow> net_backend) set" where
  "network_backends = {network_write_chunkqueue_write, network_write_chunkqueue_linuxsendfile}"

lemma network_backends: "run \<in> network_backends \<Longrightarrow> network_backend run"
  using write_backend.network_backend_axioms linux_backend.network_backend_axioms by (auto simp: network_backends_def)

lemmas backend_result = network_backend.network_write_result [OF network_backends]

text \<open>C23: whichever backend is configured and whatever the socket takes, refuses or breaks off, a call of
  \<open>network_write_chunkqueue\<close> stays inside its blocks, and what was queued is exactly what went out followed by what is
  still queued: no byte is lost, sent twice or reordered, across memory and file chunks. It reports 0 only when all has
  gone out, and counts the bytes that did.\<close>

theorem queue_is_sent_in_order:
  assumes "run \<in> network_backends" and "kernel_ok env" and "con_heap srv i = Some c" and "cq_repr (write_queue c) ds"
    and "ready env ds" and "con_list_repr (joblist srv) js"
  shows "\<exists>ret srv' s c' ds'. network_write_chunkqueue (run env) i srv = Some (ret, srv', s) \<and> con_heap srv' i = Some c' \<and>
    cq_repr (write_queue c') ds' \<and> to_send (ne_content env) ds = s @ to_send (ne_content env) ds' \<and>
    (ret = 0 \<longrightarrow> s = to_send (ne_content env) ds \<and> ds' = []) \<and> bytes_written c' = bytes_written c + int (length s)"
proof -
  obtain ret srv' s c' ds' where r: "network_write_chunkqueue (run env) i srv = Some (ret, srv', s)" "write_frame i c srv c' srv'"
    "cq_repr (write_queue c') ds'" "to_send (ne_content env) ds = s @ to_send (ne_content env) ds'"
    "bytes_written c' = bytes_written c + int (length s)" "ret = 0 \<longrightarrow> ds' = []"
    using backend_result [OF assms] by blast
  have "con_heap srv' i = Some c'" using r(2) by (auto simp: write_frame_def put_con_def)
  moreover have "ret = 0 \<longrightarrow> s = to_send (ne_content env) ds \<and> ds' = []" using r(4,6) by (cases "ret = 0") simp_all
  ultimately show ?thesis using r by blast
qed

fun write_rounds :: "net_backend list \<Rightarrow> nat \<Rightarrow> server \<Rightarrow> (server \<times> char list) option" where
  "write_rounds [] i srv = Some (srv, [])"
| "write_rounds (b # bs) i srv = do {
     (_, srv, s) \<leftarrow> network_write_chunkqueue b i srv;
     (srv, t) \<leftarrow> write_rounds bs i srv;
     Some (srv, s @ t) }"

lemma to_send_nil [simp]: "to_send F [] = []"
  by simp

lemma write_rounds_drain:
  assumes "run \<in> network_backends" and "\<forall>e \<in> set envs. kernel_ok e \<and> taking e \<and> ne_content e = F"
    and "con_heap srv i = Some c" and "cq_repr (write_queue c) ds" and "list_all (sendable F) ds" and "memory_fits (map fst ds)"
    and "con_list_repr (joblist srv) js" and "\<not> limited c" and "list_all file_pending ds" and "list_all small_file (map fst ds)"
    and "ds = [] \<or> length (to_send F ds) < length envs"
  shows "\<exists>srv' c'. write_rounds (map run envs) i srv = Some (srv', to_send F ds) \<and> con_heap srv' i = Some c' \<and> cq_repr (write_queue c') []"
  using assms(2-)
proof (induction envs arbitrary: srv c ds js)
  case (Cons e envs)
  then have e: "kernel_ok e" "taking e" "ne_content e = F" by simp_all
  have rd: "ready e ds" using Cons.prems by (simp add: ready_def)
  obtain ret srv1 s c1 ds1 where r: "network_write_chunkqueue (run e) i srv = Some (ret, srv1, s)" "write_frame i c srv c1 srv1"
    "cq_repr (write_queue c1) ds1" "ready e ds1" "to_send F ds = s @ to_send F ds1" "ret = 0 \<longrightarrow> ds1 = []"
    "list_all file_pending ds1 \<and> list_all small_file (map fst ds1) \<and> (to_send F ds \<noteq> [] \<longrightarrow> s \<noteq> []) \<and> (to_send F ds1 = [] \<longrightarrow> ret = 0)"
    using backend_result [OF assms(1) e(1) Cons.prems(2,3) rd Cons.prems(6)] e(2) Cons.prems(7-9) unfolding e(3) by blast
  have c1: "con_heap srv1 i = Some c1" "\<not> limited c1" using r(2) Cons.prems(7) by (auto simp: write_frame_def put_con_def limited_def)
  obtain ks where ks: "con_list_repr (joblist srv1) ks" using r(2) by (auto simp: write_frame_def)
  have rd1: "list_all (sendable F) ds1" "memory_fits (map fst ds1)" using r(4) e(3) by (simp_all add: ready_def)
  have "ds1 = [] \<or> length (to_send F ds1) < length envs"
  proof (cases "to_send F ds1 = []")
    case True
    then show ?thesis using r(6,7) by blast
  next
    case False
    then have "s \<noteq> []" "ds \<noteq> []" using r(5,7) by auto
    then have "0 < length s" "length (to_send F ds) < length (e # envs)" using Cons.prems(10) by auto
    moreover have "length (to_send F ds) = length s + length (to_send F ds1)" using arg_cong [OF r(5), of length] by simp
    ultimately have "length (to_send F ds1) < length envs" by (simp only: list.size)
    then show ?thesis by blast
  qed
  with Cons.IH [OF _ c1(1) r(3) rd1 ks c1(2)] Cons.prems(1) r(7) obtain srv' c' where
    "write_rounds (map run envs) i srv1 = Some (srv', to_send F ds1)" "con_heap srv' i = Some c'" "cq_repr (write_queue c') []" by auto
  with r(1,5) show ?case by (intro exI [of _ srv'] exI [of _ c']) simp
qed simp

text \<open>C24: if the socket takes at least one byte whenever some are offered and the files are there, repeating the call
  empties the queue: with more calls than bytes, everything has gone out, in order, and nothing else. No limit on the
  traffic is configured, and a file chunk is not empty and, for the portable backend's 32 bit \<open>toSend\<close>, below 4 GiB.\<close>

theorem write_queue_drains:
  assumes "run \<in> network_backends" and "\<forall>e \<in> set envs. kernel_ok e \<and> taking e \<and> ne_content e = F"
    and "con_heap srv i = Some c" and "cq_repr (write_queue c) ds" and "list_all (sendable F) ds" and "memory_fits (map fst ds)"
    and "con_list_repr (joblist srv) js" and "\<not> limited c" and "list_all file_pending ds" and "list_all small_file (map fst ds)"
    and "length (to_send F ds) < length envs"
  shows "\<exists>srv' c'. write_rounds (map run envs) i srv = Some (srv', to_send F ds) \<and> con_heap srv' i = Some c' \<and> cq_repr (write_queue c') []"
  by (rule write_rounds_drain [OF assms(1-10)]) (use assms(11) in simp)

section \<open>A response of five bytes\<close>

definition sample_net :: net_env where
  "sample_net = \<lparr>ne_write = (\<lambda>i s. Wrote (length s)), ne_sendfile = (\<lambda>i s. Wrote (length s)), ne_errno = (\<lambda>i. EAGAIN),
     ne_stat = (\<lambda>f. Some 4), ne_open = (\<lambda>f. 7), ne_mmap = (\<lambda>f. True), ne_content = (\<lambda>f. ''file'')\<rparr>"

definition hello_server :: "server option" where
  "hello_server = map_option (\<lambda>q. put_con 0 ((connection_init config_none None 0)\<lparr>write_queue := q\<rparr>) (server_init 1 0 FDEVENT_HANDLER_POLL config_none))
     (chunkqueue_append_mem chunkqueue_init (map Some ''hello'') 6)"

lemma sample_net_ok: "kernel_ok sample_net" "taking sample_net"
  by (simp_all add: kernel_ok_def taking_def sample_net_def)

lemma hello_server_holds:
  "\<exists>srv c. hello_server = Some srv \<and> con_heap srv 0 = Some c \<and> cq_repr (write_queue c) [(Mem_Data (Some ''hello''), 0)] \<and>
     con_list_repr (joblist srv) [] \<and> \<not> limited c"
proof -
  have "6 \<le> Suc (length ''hello'')" by simp
  from chunkqueue_append_mem_repr [OF cq_repr_init this] obtain q where
    "chunkqueue_append_mem chunkqueue_init (map Some ''hello'') 6 = Some q" "cq_repr q [(Mem_Data (Some ''hello''), 0)]" by auto
  then show ?thesis
    by (auto simp: hello_server_def put_con_def server_init_def con_list_repr_init limited_def connection_init_def con_init_def con.defs
      config_none_def)
qed

lemma hello_ready: "ready sample_net [(Mem_Data (Some ''hello''), 0)]"
  by (simp add: ready_def memory_fits_def SEND_MAX_def)

theorem queue_is_sent_in_order_witness:
  "\<exists>srv ret srv' s c'. hello_server = Some srv \<and>
     network_write_chunkqueue (network_write_chunkqueue_linuxsendfile sample_net) 0 srv = Some (ret, srv', s) \<and>
     con_heap srv' 0 = Some c' \<and> (ret = 0 \<longrightarrow> s = ''hello'')"
proof -
  obtain srv c where h: "hello_server = Some srv" "con_heap srv 0 = Some c" "cq_repr (write_queue c) [(Mem_Data (Some ''hello''), 0)]"
    "con_list_repr (joblist srv) []" using hello_server_holds by blast
  have "network_write_chunkqueue_linuxsendfile \<in> network_backends" by (simp add: network_backends_def)
  from queue_is_sent_in_order [OF this sample_net_ok(1) h(2,3) hello_ready h(4)] h(1) show ?thesis by auto
qed

theorem write_queue_drains_witness:
  "\<exists>srv srv' c'. hello_server = Some srv \<and>
     write_rounds (map network_write_chunkqueue_write (replicate 6 sample_net)) 0 srv = Some (srv', ''hello'') \<and>
     con_heap srv' 0 = Some c' \<and> cq_repr (write_queue c') []"
proof -
  obtain srv c where h: "hello_server = Some srv" "con_heap srv 0 = Some c" "cq_repr (write_queue c) [(Mem_Data (Some ''hello''), 0)]"
    "con_list_repr (joblist srv) []" "\<not> limited c" using hello_server_holds by blast
  have "network_write_chunkqueue_write \<in> network_backends" by (simp add: network_backends_def)
  moreover have "\<forall>e \<in> set (replicate 6 sample_net). kernel_ok e \<and> taking e \<and> ne_content e = (\<lambda>f. ''file'')"
    using sample_net_ok by (simp add: sample_net_def)
  ultimately show ?thesis
    using write_queue_drains [of network_write_chunkqueue_write "replicate 6 sample_net" "\<lambda>f. ''file''", OF _ _ h(2,3) _ _ h(4,5)] h(1)
    by (auto simp: memory_fits_def SEND_MAX_def)
qed

end
