(* ===== verification/Config_Patch.thy ===== *)
theory Config_Patch imports Config_Cond begin

text \<open>
  \<open>config_patch_connection\<close> of \<open>src/src/configfile.c\<close>: when a field of the request becomes known, the conditions are checked
  again and the options of the blocks that apply are copied into the connection, later blocks over earlier ones. The
  options are those the record \<open>specific_config\<close> of the model has.
\<close>

section \<open>Copying options\<close>

definition patch_conf :: "specific_config \<Rightarrow> char list \<Rightarrow> specific_config \<Rightarrow> specific_config" where
  "patch_conf s key f =
     (if key = ''server.document-root'' then f\<lparr>cf_document_root := cf_document_root s\<rparr>
     else if key = ''server.range-requests'' then f\<lparr>cf_range_requests := cf_range_requests s\<rparr>
     else if key = ''server.error-handler-404'' then f\<lparr>cf_error_handler := cf_error_handler s\<rparr>
     else if key = ''server.errorfile-prefix'' then f\<lparr>cf_errorfile_prefix := cf_errorfile_prefix s\<rparr>
     else if key = ''mimetype.assign'' then f\<lparr>cf_mimetypes := cf_mimetypes s\<rparr>
     else if key = ''server.max-keep-alive-requests'' then f\<lparr>cf_max_keep_alive_requests := cf_max_keep_alive_requests s\<rparr>
     else if key = ''server.max-keep-alive-idle'' then f\<lparr>cf_max_keep_alive_idle := cf_max_keep_alive_idle s\<rparr>
     else if key = ''etag.use-inode'' then f\<lparr>cf_etag_use_inode := cf_etag_use_inode s\<rparr>
     else if key = ''etag.use-mtime'' then f\<lparr>cf_etag_use_mtime := cf_etag_use_mtime s\<rparr>
     else if key = ''etag.use-size'' then f\<lparr>cf_etag_use_size := cf_etag_use_size s\<rparr>
     else if key = ''ssl.engine'' then f\<lparr>cf_is_ssl := cf_is_ssl s\<rparr>
     else if key = ''server.follow-symlink'' then f\<lparr>cf_follow_symlink := cf_follow_symlink s\<rparr>
     else if key = ''server.tag'' then f\<lparr>cf_server_tag := cf_server_tag s\<rparr>
     else if key = ''connection.kbytes-per-second'' then f\<lparr>cf_kbytes_per_second := cf_kbytes_per_second s\<rparr>
     else if key = ''server.protocol-http11''
       then f\<lparr>cf_request := (cf_request f)\<lparr>allow_http11 := allow_http11 (cf_request s)\<rparr>\<rparr>
     else if key = ''server.force-lowercase-filenames'' then f\<lparr>cf_force_lowercase := cf_force_lowercase s\<rparr>
     else if key = ''server.kbytes-per-second'' then f\<lparr>cf_global_kbytes_per_second := cf_global_kbytes_per_second s\<rparr>
     else f)"

definition patch_key :: "specific_config \<Rightarrow> char list \<Rightarrow> connection \<Rightarrow> connection" where
  "patch_key s key c =
     (if key = ''server.name'' then c\<lparr>con_server_name := cf_server_name s\<rparr> else c\<lparr>cconf := patch_conf s key (cconf c)\<rparr>)"

definition patch_block :: "data_config list \<Rightarrow> specific_config list \<Rightarrow> connection \<Rightarrow> nat \<Rightarrow> connection" where
  "patch_block ctx st c i = foldl (\<lambda>c key. patch_key (st ! i) key c) c (dc_keys (ctx ! i))"

fun config_blocks :: "data_config list \<Rightarrow> specific_config list \<Rightarrow> nat list \<Rightarrow> check_bufs \<Rightarrow> connection \<Rightarrow> (check_bufs \<times> connection) option" where
  "config_blocks ctx st [] b c = Some (b, c)"
| "config_blocks ctx st (i # is) b c =
     (if length st \<le> i then None
      else do {
        (matched, b, c) \<leftarrow> config_check_cond ctx i b c;
        config_blocks ctx st is b (if matched then patch_block ctx st c i else c) })"

definition config_patch_connection ::
  "data_config list \<Rightarrow> specific_config list \<Rightarrow> comp_key_t \<Rightarrow> check_bufs \<Rightarrow> connection \<Rightarrow> (check_bufs \<times> connection) option" where
  "config_patch_connection ctx st k b c =
     config_blocks ctx st [1..<length ctx] b (c\<lparr>conditional_is_valid := (conditional_is_valid c)(k := True)\<rparr>)"

section \<open>The options a request gets\<close>

lemma patch_key_conf: "\<exists>cf nm. patch_key s key c = c\<lparr>cconf := cf, con_server_name := nm\<rparr>"
  by (rule exI [of _ "cconf (patch_key s key c)"], rule exI [of _ "con_server_name (patch_key s key c)"])
    (simp add: patch_key_def)

lemma patch_keys_conf: "\<exists>cf nm. foldl (\<lambda>c key. patch_key s key c) c keys = c\<lparr>cconf := cf, con_server_name := nm\<rparr>"
proof (induction keys rule: rev_induct)
  case Nil
  show ?case by (rule exI [of _ "cconf c"], rule exI [of _ "con_server_name c"]) simp
next
  case (snoc key keys)
  then obtain cf nm where "foldl (\<lambda>c key. patch_key s key c) c keys = c\<lparr>cconf := cf, con_server_name := nm\<rparr>" by blast
  with patch_key_conf [of s key "c\<lparr>cconf := cf, con_server_name := nm\<rparr>"] show ?case by auto
qed

lemma patch_block_alike:
  assumes "alike c0 c"
  shows "alike c0 (patch_block ctx st c i)" and "cached (patch_block ctx st c i) j = cached c j"
proof -
  from assms obtain f cf nm where c: "c = c0\<lparr>cond_cache := f, cconf := cf, con_server_name := nm\<rparr>" by (auto simp: alike_def)
  from patch_keys_conf [of "st ! i" c "dc_keys (ctx ! i)"] obtain cf' nm' where
    p: "patch_block ctx st c i = c\<lparr>cconf := cf', con_server_name := nm'\<rparr>" by (auto simp: patch_block_def)
  with c have "patch_block ctx st c i = c0\<lparr>cond_cache := f, cconf := cf', con_server_name := nm'\<rparr>" by simp
  then show "alike c0 (patch_block ctx st c i)" unfolding alike_def by blast
  from p show "cached (patch_block ctx st c i) j = cached c j" by (simp add: cached_def)
qed

text \<open>The settings of a connection.\<close>

definition settings :: "connection \<Rightarrow> specific_config \<times> bstr" where
  "settings c = (cconf c, con_server_name c)"

lemma patch_key_settings_eq:
  "settings (patch_key s key c) =
     (if key = ''server.name'' then (fst (settings c), cf_server_name s) else (patch_conf s key (fst (settings c)), snd (settings c)))"
  by (simp add: settings_def patch_key_def)

lemma patch_key_settings: "settings c = settings d \<Longrightarrow> settings (patch_key s key c) = settings (patch_key s key d)"
  by (simp only: patch_key_settings_eq)

lemma patch_keys_settings:
  "settings c = settings d \<Longrightarrow> settings (foldl (\<lambda>c key. patch_key s key c) c keys) = settings (foldl (\<lambda>c key. patch_key s key c) d keys)"
proof (induction keys arbitrary: c d)
  case (Cons key keys)
  from Cons.IH [OF patch_key_settings [OF Cons.prems]] show ?case by simp
qed simp

lemma patch_block_settings: "settings c = settings d \<Longrightarrow> settings (patch_block ctx st c i) = settings (patch_block ctx st d i)"
  unfolding patch_block_def by (rule patch_keys_settings)

lemma same_request_settings: "same_request c d \<Longrightarrow> settings c = settings d"
  by (auto simp: same_request_def settings_def)

lemma config_blocks_choice:
  assumes "tree_ok ctx" and "decidable ctx c0" and "length ctx \<le> length st"
  shows "set is \<subseteq> {1..<length ctx} \<Longrightarrow> cache_ok ctx (rule_true ctx c0) c \<Longrightarrow> alike c0 c \<Longrightarrow> settings c = settings d \<Longrightarrow>
    \<exists>b' c'. config_blocks ctx st is b c = Some (b', c') \<and> cache_ok ctx (rule_true ctx c0) c' \<and> alike c0 c' \<and>
      settings c' = settings (foldl (patch_block ctx st) d (filter (applies ctx (rule_true ctx c0)) is))"
proof (induction "is" arbitrary: b c d)
  case (Cons i "is")
  let ?rule = "rule_true ctx c0"
  from cached_answers [OF assms(1,2), of i "i + 1" c b] Cons.prems obtain b1 c1 where
    c1: "config_check_cond_cached (i + 1) ctx i b c = Some (truth (applies ctx ?rule i), b1, c1)" "cache_ok ctx ?rule c1" "same_request c c1" by auto
  let ?c = "if applies ctx ?rule i then patch_block ctx st c1 i else c1"
  let ?d = "if applies ctx ?rule i then patch_block ctx st d i else d"
  note like = alike_trans [OF Cons.prems(3) c1(3)]
  from like patch_block_alike [OF like] c1(2) have "alike c0 ?c" "cache_ok ctx ?rule ?c"
    by (auto simp: cache_ok_def entry_ok_def chain_ok_def)
  moreover have "settings ?c = settings ?d"
    using same_request_settings [OF c1(3)] Cons.prems(4) by (auto intro: patch_block_settings)
  ultimately obtain b' c' where "config_blocks ctx st is b1 ?c = Some (b', c')" "cache_ok ctx ?rule c'" "alike c0 c'"
    "settings c' = settings (foldl (patch_block ctx st) ?d (filter (applies ctx ?rule) is))"
    using Cons.IH [of ?c ?d b1] Cons.prems(1) by auto
  moreover from c1(1) have "config_check_cond ctx i b c = Some (applies ctx ?rule i, b1, c1)" by (simp add: config_check_cond_def)
  ultimately show ?case using Cons.prems(1) assms(3) by auto
qed auto


text \<open>What is known about the request does not change the rules.\<close>

lemma value_of_valid: "value_of l b (c\<lparr>conditional_is_valid := v\<rparr>) = value_of l b c"
  by (cases l) (simp_all add: header_value_def)

lemma select_value_valid: "select_value d b (c\<lparr>conditional_is_valid := v\<rparr>) = select_value d b c"
proof -
  have "host_value d b (c\<lparr>conditional_is_valid := v\<rparr>) = host_value d b c" "header_ref name (c\<lparr>conditional_is_valid := v\<rparr>) = header_ref name c" for name
    by (simp_all add: host_value_def header_ref_def header_value_def Let_def split: option.split)
  moreover have "remote_ip_value d b (c\<lparr>conditional_is_valid := v\<rparr>) = remote_ip_value d b c"
    by (simp add: remote_ip_value_def Let_def split: option.split)
  ultimately show ?thesis by (simp add: select_value_def split: comp_key_t.split)
qed

lemma compare_value_valid:
  "map_option fst (compare_value d i l b (c\<lparr>conditional_is_valid := v\<rparr>)) = map_option fst (compare_value d i l b c)"
  by (cases "value_of l b c"; cases "dc_regex d (the (value_of l b c))") (simp_all add: compare_value_def value_of_valid Let_def)

lemma rule_answer_select:
  "rule_answer d c = (case select_value d \<lparr>cond_check_buf = None, tmp_buf = None\<rparr> c of None \<Rightarrow> None
     | Some (l, b) \<Rightarrow> (case l of Inl l \<Rightarrow> map_option fst (compare_value d 0 l b c) | Inr r \<Rightarrow> Some r))"
proof (cases "select_value d \<lparr>cond_check_buf = None, tmp_buf = None\<rparr> c")
  case (Some x)
  obtain l b where x: "x = (l, b)" by fastforce
  show ?thesis
  proof (cases l)
    case (Inl y)
    with Some x show ?thesis by (cases "compare_value d 0 y b c") (auto simp: rule_answer_def check_rule_def)
  qed (use Some x in \<open>simp add: rule_answer_def check_rule_def\<close>)
qed (simp add: rule_answer_def check_rule_def)

lemma rule_answer_valid: "rule_answer d (c\<lparr>conditional_is_valid := v\<rparr>) = rule_answer d c"
  by (simp add: rule_answer_select select_value_valid compare_value_valid split: option.split sum.split)

definition sets_root :: "data_config list \<Rightarrow> nat \<Rightarrow> bool" where
  "sets_root ctx i \<longleftrightarrow> ''server.document-root'' \<in> set (dc_keys (ctx ! i))"

lemma patch_conf_root: "cf_document_root (patch_conf s key f) = (if key = ''server.document-root'' then cf_document_root s else cf_document_root f)"
  by (simp add: patch_conf_def)

lemma patch_key_root:
  "cf_document_root (cconf (patch_key s key c)) = (if key = ''server.document-root'' then cf_document_root s else cf_document_root (cconf c))"
  by (simp add: patch_key_def patch_conf_root)

lemma patch_keys_root:
  "cf_document_root (cconf (foldl (\<lambda>c key. patch_key s key c) c keys)) =
     (if ''server.document-root'' \<in> set keys then cf_document_root s else cf_document_root (cconf c))"
  by (induction keys arbitrary: c) (auto simp: patch_key_root)

lemma config_blocks_root:
  "cf_document_root (cconf (foldl (patch_block ctx st) c is)) =
     (let js = filter (sets_root ctx) is in if js = [] then cf_document_root (cconf c) else cf_document_root (st ! List.last js))"
proof (induction "is" rule: rev_induct)
  case (snoc i "is")
  have "cf_document_root (cconf (patch_block ctx st d i)) = (if sets_root ctx i then cf_document_root (st ! i) else cf_document_root (cconf d))" for d
    by (simp add: patch_block_def patch_keys_root sets_root_def)
  with snoc show ?case by (simp add: Let_def)
qed simp


section \<open>An else branch that is decided too early\<close>

lemma check_undecided:
  assumes "i < length ctx" and "cached c i = COND_RESULT_UNSET" and "dc_parent (ctx ! i) = None" and "dc_prev (ctx ! i) = None"
    and "\<not> conditional_is_valid c (dc_comp (ctx ! i))"
  shows "\<exists>c'. config_check_cond_cached (Suc n) ctx i b c = Some (COND_RESULT_UNSET, b, c') \<and> same_request c c' \<and> (\<forall>j. cached c' j = cached c j)"
proof -
  let ?c = "set_result i COND_RESULT_UNSET c"
  let ?d = "?c\<lparr>cond_cache := (cond_cache ?c)(i := (cond_cache ?c i)\<lparr>cc_comp_type := dc_comp (ctx ! i)\<rparr>)\<rparr>"
  have "config_check_cond_cached (Suc n) ctx i b c = Some (COND_RESULT_UNSET, b, ?d)"
    using assms by (simp add: config_check_cond_cached.simps config_check_cond_nocache_def cached_def set_result_def Let_def)
  moreover have "same_request c ?d" by (rule same_request_trans [OF same_request_result same_request_set])
  moreover have "\<forall>j. cached ?d j = cached c j" using assms(2) by (simp add: cached_def set_result_def)
  ultimately show ?thesis by blast
qed

text \<open>A branch whose own rule decides: the one before it is not true.\<close>

lemma check_own_rule:
  assumes "i < length ctx" and "cached c i = COND_RESULT_UNSET" and "dc_parent (ctx ! i) = None"
    and "case dc_prev (ctx ! i) of None \<Rightarrow> c1 = c \<and> b1 = b
      | Some p \<Rightarrow> \<exists>r. config_check_cond_cached n ctx p b c = Some (r, b1, c1) \<and> cached c1 i = COND_RESULT_UNSET"
    and "conditional_is_valid c1 (dc_comp (ctx ! i))" and "check_rule (ctx ! i) i b1 c1 = Some (COND_RESULT_TRUE, b2, c2)"
    and "reject_rest (length ctx) ctx (dc_next (ctx ! i)) (set_result i COND_RESULT_TRUE c2) = Some c3" and "cached c3 i = COND_RESULT_TRUE"
  shows "config_check_cond_cached (Suc n) ctx i b c =
    Some (COND_RESULT_TRUE, b2, c3\<lparr>cond_cache := (cond_cache c3)(i := (cond_cache c3 i)\<lparr>cc_comp_type := dc_comp (ctx ! i)\<rparr>)\<rparr>)"
proof -
  have "config_check_cond_nocache (config_check_cond_cached n ctx) (ctx ! i) i b c = Some (COND_RESULT_TRUE, b2, c2)"
    using assms(2-6) by (cases "dc_prev (ctx ! i)") (auto simp: config_check_cond_nocache_def)
  with assms(1,2,7,8) show ?thesis by (simp add: config_check_cond_cached.simps Let_def cached_def)
qed

lemma alike_valid: "alike c d \<Longrightarrow> alike (c\<lparr>conditional_is_valid := v\<rparr>) (d\<lparr>conditional_is_valid := v\<rparr>)"
proof -
  assume "alike c d"
  then obtain f cf nm where "d = c\<lparr>cond_cache := f, cconf := cf, con_server_name := nm\<rparr>" by (auto simp: alike_def)
  then have "d\<lparr>conditional_is_valid := v\<rparr> = (c\<lparr>conditional_is_valid := v\<rparr>)\<lparr>cond_cache := f, cconf := cf, con_server_name := nm\<rparr>" by simp
  then show ?thesis unfolding alike_def by blast
qed

text \<open>An \<open>if\<close> block and its \<open>else\<close> block at the top level of a file.\<close>

definition if_else :: "data_config list \<Rightarrow> bool" where
  "if_else ctx \<longleftrightarrow> length ctx = 3 \<and> dc_parent (ctx ! 1) = None \<and> dc_prev (ctx ! 1) = None \<and> dc_next (ctx ! 1) = Some 2 \<and>
     dc_parent (ctx ! 2) = None \<and> dc_prev (ctx ! 2) = Some 1 \<and> dc_next (ctx ! 2) = None"

lemma else_decided_first:
  assumes "if_else ctx" and "3 \<le> length st" and "rule_answer (ctx ! 2) c0 = Some COND_RESULT_TRUE" and "http_method (req c0) \<noteq> HTTP_METHOD_UNSET"
    and "alike c0 c" and "cached c 1 = COND_RESULT_UNSET" and "cached c 2 = COND_RESULT_UNSET"
    and "\<not> conditional_is_valid c0 (dc_comp (ctx ! 1))" and "conditional_is_valid c0 (dc_comp (ctx ! 2))"
  shows "\<exists>b' c'. config_blocks ctx st [1, 2] b c = Some (b', c') \<and> alike c0 c' \<and> cached c' 1 = COND_RESULT_UNSET \<and>
    settings c' = settings (patch_block ctx st c 2)"
proof -
  from assms(5,8,9) have val: "\<not> conditional_is_valid e (dc_comp (ctx ! 1))" "conditional_is_valid e (dc_comp (ctx ! 2))" if "same_request c e" for e
    using that by (auto simp: alike_def same_request_def)
  from check_undecided [of 1 ctx c 1 b] assms(1,6) val(1) [OF same_request_refl] obtain c1 where
    c1: "config_check_cond ctx 1 b c = Some (False, b, c1)" "same_request c c1" "\<forall>j. cached c1 j = cached c j"
    by (auto simp: if_else_def config_check_cond_def numeral_2_eq_2)
  from check_undecided [of 1 ctx c1 1 b] assms(1,6) c1(3) val(1) [OF c1(2)] obtain c2 where
    c2: "config_check_cond_cached 2 ctx 1 b c1 = Some (COND_RESULT_UNSET, b, c2)" "same_request c1 c2" "\<forall>j. cached c2 j = cached c1 j"
    by (auto simp: if_else_def numeral_2_eq_2)
  note r2 = same_request_trans [OF c1(2) c2(2)]
  from check_rule_answer [OF assms(3,4) alike_trans [OF assms(5) r2], of 2 b] obtain b3 c3 where
    c3: "check_rule (ctx ! 2) 2 b c2 = Some (COND_RESULT_TRUE, b3, c3)" "same_request c2 c3" "\<forall>k. cached c3 k = cached c2 k" by blast
  let ?s = "set_result 2 COND_RESULT_TRUE c3"
  let ?e = "?s\<lparr>cond_cache := (cond_cache ?s)(2 := (cond_cache ?s 2)\<lparr>cc_comp_type := dc_comp (ctx ! 2)\<rparr>)\<rparr>"
  have e: "cached ?e 1 = COND_RESULT_UNSET" using assms(6) c1(3) c2(3) c3(3) by (simp add: cached_def set_result_def)
  have "config_check_cond_cached (Suc 2) ctx 2 b c1 = Some (COND_RESULT_TRUE, b3, ?e)"
    by (rule check_own_rule [where ?b1.0 = b and ?c1.0 = c2 and ?c2.0 = c3])
      (use assms(1,7) c1(3) c2 c3(1) val(2) [OF r2] in \<open>auto simp: if_else_def cached_set_result\<close>)
  then have k: "config_check_cond ctx 2 b c1 = Some (True, b3, ?e)" by (simp add: config_check_cond_def numeral_3_eq_3)
  have r: "same_request c ?e"
    by (rule same_request_trans [OF same_request_trans [OF r2 c3(2)] same_request_trans [OF same_request_result same_request_set]])
  note like = alike_trans [OF assms(5) r]
  from c1(1) k assms(2) have "config_blocks ctx st [1, 2] b c = Some (b3, patch_block ctx st ?e 2)" by simp
  with patch_block_alike [OF like, of ctx st 2] e patch_block_settings [OF same_request_settings [OF r], of ctx st 2] show ?thesis by simp
qed

lemma if_decided_later:
  assumes "if_else ctx" and "3 \<le> length st" and "rule_answer (ctx ! 1) c0 = Some COND_RESULT_TRUE" and "http_method (req c0) \<noteq> HTTP_METHOD_UNSET"
    and "alike c0 c" and "cached c 1 = COND_RESULT_UNSET" and "conditional_is_valid c0 (dc_comp (ctx ! 1))"
  shows "\<exists>b' c'. config_blocks ctx st [1, 2] b c = Some (b', c') \<and> settings c' = settings (patch_block ctx st c 1)"
proof -
  from assms(5,7) have val: "conditional_is_valid c (dc_comp (ctx ! 1))" by (auto simp: alike_def)
  from check_rule_answer [OF assms(3,4,5), of 1 b] obtain b1 c1 where
    c1: "check_rule (ctx ! 1) 1 b c = Some (COND_RESULT_TRUE, b1, c1)" "same_request c c1" by blast
  let ?s = "set_result 2 COND_RESULT_FALSE (set_result 1 COND_RESULT_TRUE c1)"
  let ?e = "?s\<lparr>cond_cache := (cond_cache ?s)(1 := (cond_cache ?s 1)\<lparr>cc_comp_type := dc_comp (ctx ! 1)\<rparr>)\<rparr>"
  have "config_check_cond_cached (Suc 1) ctx 1 b c = Some (COND_RESULT_TRUE, b1, ?e)"
    by (rule check_own_rule [where ?b1.0 = b and ?c1.0 = c and ?c2.0 = c1])
      (use assms(1,6) c1(1) val in \<open>auto simp: if_else_def cached_set_result numeral_3_eq_3\<close>)
  then have k: "config_check_cond ctx 1 b c = Some (True, b1, ?e)" by (simp add: config_check_cond_def numeral_2_eq_2)
  have r: "same_request c ?e"
    by (rule same_request_trans [OF same_request_trans [OF c1(2) same_request_result] same_request_trans [OF same_request_result same_request_set]])
  have "cached (patch_block ctx st ?e 1) 2 = COND_RESULT_FALSE"
    using patch_block_alike(2) [OF alike_trans [OF assms(5) r]] by (simp add: cached_def set_result_def)
  with assms(1) config_check_cond_cached.simps(2) [of 2 ctx 2 b1 "patch_block ctx st ?e 1"]
  have "config_check_cond ctx 2 b1 (patch_block ctx st ?e 1) = Some (False, b1, patch_block ctx st ?e 1)"
    by (simp add: config_check_cond_def if_else_def numeral_3_eq_3)
  with k assms(2) have "config_blocks ctx st [1, 2] b c = Some (b1, patch_block ctx st ?e 1)" by simp
  with patch_block_settings [OF same_request_settings [OF r], of ctx st 1] show ?thesis by simp
qed

text \<open>C34: When the field an \<open>else\<close> branch tests becomes known before the one the \<open>if\<close> branch tests, and both rules are true, the request gets
  the options of both branches.\<close>

theorem else_branch_applied_as_well:
  assumes "if_else ctx" and "3 \<le> length st" and "dc_comp (ctx ! 1) \<noteq> dc_comp (ctx ! 2)"
    and "rule_answer (ctx ! 1) c = Some COND_RESULT_TRUE" and "rule_answer (ctx ! 2) c = Some COND_RESULT_TRUE"
    and "http_method (req c) \<noteq> HTTP_METHOD_UNSET" and "cached c 1 = COND_RESULT_UNSET" and "cached c 2 = COND_RESULT_UNSET"
    and "\<not> conditional_is_valid c (dc_comp (ctx ! 1))"
  shows "\<exists>b1 c1 b2 c2. config_patch_connection ctx st (dc_comp (ctx ! 2)) b c = Some (b1, c1) \<and>
    config_patch_connection ctx st (dc_comp (ctx ! 1)) b1 c1 = Some (b2, c2) \<and>
    settings c2 = settings (patch_block ctx st (patch_block ctx st c 2) 1)"
proof -
  let ?v = "(conditional_is_valid c)(dc_comp (ctx ! 2) := True)"
  let ?c = "c\<lparr>conditional_is_valid := ?v\<rparr>"
  have range: "[1..<length ctx] = [1, 2]" using assms(1) by (simp add: if_else_def numeral_3_eq_3 numeral_2_eq_2 upt_rec)
  have "cached ?c i = cached c i" for i by (simp add: cached_def)
  with else_decided_first [OF assms(1,2) _ _ alike_refl, of ?c b] assms(3,5-9) obtain b1 c1 where
    c1: "config_blocks ctx st [1, 2] b ?c = Some (b1, c1)" "alike ?c c1" "cached c1 1 = COND_RESULT_UNSET" "settings c1 = settings (patch_block ctx st ?c 2)"
    by (auto simp: rule_answer_valid)
  let ?w = "(conditional_is_valid c1)(dc_comp (ctx ! 1) := True)"
  have "alike (?c\<lparr>conditional_is_valid := ?w\<rparr>) (c1\<lparr>conditional_is_valid := ?w\<rparr>)" by (rule alike_valid [OF c1(2)])
  moreover have "cached (c1\<lparr>conditional_is_valid := ?w\<rparr>) 1 = COND_RESULT_UNSET" using c1(3) by (simp add: cached_def)
  ultimately obtain b2 c2 where c2: "config_blocks ctx st [1, 2] b1 (c1\<lparr>conditional_is_valid := ?w\<rparr>) = Some (b2, c2)"
    "settings c2 = settings (patch_block ctx st (c1\<lparr>conditional_is_valid := ?w\<rparr>) 1)"
    using if_decided_later [OF assms(1,2), of "?c\<lparr>conditional_is_valid := ?w\<rparr>" "c1\<lparr>conditional_is_valid := ?w\<rparr>" b1] assms(4,6)
    by (auto simp: rule_answer_valid)
  have "settings (patch_block ctx st (c1\<lparr>conditional_is_valid := ?w\<rparr>) 1) = settings (patch_block ctx st c1 1)"
    by (rule patch_block_settings) (simp add: settings_def)
  moreover have "settings (patch_block ctx st c1 1) = settings (patch_block ctx st (patch_block ctx st c 2) 1)"
    by (rule patch_block_settings, unfold c1(4), rule patch_block_settings) (simp add: settings_def)
  ultimately have "settings c2 = settings (patch_block ctx st (patch_block ctx st c 2) 1)" using c2(2) by (simp only:)
  with c1(1) c2(1) show ?thesis unfolding config_patch_connection_def range by blast
qed

section \<open>A file of two blocks\<close>

definition sample_chain :: "data_config list" where
  "sample_chain = take 1 sample_blocks @ map (\<lambda>d. d\<lparr>dc_parent := None\<rparr>) (drop 1 (take 3 sample_blocks))"

definition sample_chain2 :: "data_config list" where
  "sample_chain2 = sample_chain[2 := (sample_chain ! 2)\<lparr>dc_string := ''h''\<rparr>]"

definition sample_settings :: "specific_config list" where
  "sample_settings = [config_none, config_none\<lparr>cf_server_tag := Some ''tag''\<rparr>, config_none\<lparr>cf_document_root := Some ''/host''\<rparr>]"

definition early_client :: connection where
  "early_client = (let c = sample_client in c\<lparr>conditional_is_valid := (\<lambda>_. False),
     conuri := (conuri c)\<lparr>uri_path := Some ''/a'', uri_authority := Some ''h''\<rparr>\<rparr>)"

lemma sample_chain_ok: "if_else sample_chain2 \<and> tree_ok sample_chain2"
  by code_simp

lemma early_client_rules:
  "rule_answer (sample_chain2 ! 1) early_client = Some COND_RESULT_TRUE \<and> rule_answer (sample_chain2 ! 2) early_client = Some COND_RESULT_TRUE"
  by code_simp

lemma early_client_unset: "cached early_client i = COND_RESULT_UNSET" "http_method (req early_client) = HTTP_METHOD_GET"
  by (simp_all add: cached_def early_client_def sample_client_def connection_init_def con.defs cond_cache_init_def Let_def)

theorem else_branch_applied_as_well_witness:
  "\<exists>b1 c1 b2 c2. config_patch_connection sample_chain2 sample_settings COMP_HTTP_HOST \<lparr>cond_check_buf = None, tmp_buf = None\<rparr> early_client = Some (b1, c1) \<and>
    config_patch_connection sample_chain2 sample_settings COMP_HTTP_URL b1 c1 = Some (b2, c2) \<and>
    cf_server_tag (cconf c2) = Some ''tag'' \<and> cf_document_root (cconf c2) = Some ''/host''"
proof -
  have keys: "dc_comp (sample_chain2 ! 1) = COMP_HTTP_URL" "dc_comp (sample_chain2 ! 2) = COMP_HTTP_HOST" by code_simp+
  have "settings (patch_block sample_chain2 sample_settings (patch_block sample_chain2 sample_settings early_client 2) 1) =
      (config_none\<lparr>cf_server_tag := Some ''tag'', cf_document_root := Some ''/host''\<rparr>, None)"
    by (simp add: patch_block_def sample_chain2_def sample_chain_def sample_blocks_def sample_settings_def settings_def patch_key_def
        patch_conf_def early_client_def sample_client_def connection_init_def con.defs Let_def config_none_def)
  with else_branch_applied_as_well [of sample_chain2 sample_settings early_client "\<lparr>cond_check_buf = None, tmp_buf = None\<rparr>", unfolded keys]
    sample_chain_ok early_client_rules early_client_unset
  show ?thesis by (auto simp: sample_settings_def settings_def early_client_def config_none_def Let_def)
qed


end
