(* ===== verification/Response.thy ===== *)
theory Response imports Config_Patch Server_State Path_Simplify Response_Header begin

text \<open>
  \<open>http_response_prepare\<close> of \<open>src/src/response.c\<close>: from the parsed request to the decision what is served. The host, path and query
  are taken out of the request line, decoded and simplified, the configuration is patched as the fields become known, the plugin slots are
  asked on the way, the document root and the path give the physical file, and what follows an existing file is split
  off as path info. Strings are values here; decoding and simplification run on buffers. \<open>stat\<close> answers from one
  snapshot of the file system.
\<close>

section \<open>State\<close>

record stat_entry =
  se_isdir :: bool
  se_isreg :: bool
  se_symlink :: bool

record prepare_env =
  pe_stat :: "char list \<Rightarrow> stat_entry + errno"
  pe_local :: local_name
  pe_port :: int

definition lower_value :: "bstr \<Rightarrow> bstr" where
  "lower_value v = map_option (\<lambda>s. map to_lower_char (cstr s) @ drop (length (cstr s)) s) v"

definition set_tmp_buf :: "bstr \<Rightarrow> server \<Rightarrow> server" where
  "set_tmp_buf v srv = srv\<lparr>scratch_bufs := (scratch_bufs srv)\<lparr>tmp_buf := v\<rparr>\<rparr>"

text \<open>A phase that may decide the request: \<open>HANDLER_GO_ON\<close> goes on to the next one.\<close>

type_synonym phase = "server \<Rightarrow> connection \<Rightarrow> (handler_t \<times> server \<times> connection) option"

definition then_phase :: "phase \<Rightarrow> phase \<Rightarrow> phase" where
  "then_phase p q srv c = do {
     (r, srv, c) \<leftarrow> p srv c;
     if r = HANDLER_GO_ON then q srv c else Some (r, srv, c) }"

text \<open>The \<open>switch\<close> around the early plugin calls: a value it does not know is logged and ignored.\<close>

definition ask_plugins :: "plugin_fun list \<Rightarrow> phase" where
  "ask_plugins ps srv c = do {
     (r, c) \<leftarrow> plugins_call ps c;
     Some (if r \<in> {HANDLER_FINISHED, HANDLER_COMEBACK, HANDLER_WAIT_FOR_EVENT, HANDLER_ERROR} then r else HANDLER_GO_ON, srv, c) }"

definition patch_connection :: "comp_key_t \<Rightarrow> server \<Rightarrow> connection \<Rightarrow> (server \<times> connection) option" where
  "patch_connection k srv c = do {
     (b, c) \<leftarrow> config_patch_connection (config_context srv) (config_storage srv) k (scratch_bufs srv) c;
     Some (srv\<lparr>scratch_bufs := b\<rparr>, c) }"

fun patch_all :: "comp_key_t list \<Rightarrow> server \<Rightarrow> connection \<Rightarrow> (server \<times> connection) option" where
  "patch_all [] srv c = Some (srv, c)"
| "patch_all (k # ks) srv c = do { (srv, c) \<leftarrow> patch_connection k srv c; patch_all ks srv c }"

section \<open>From the request line to the path\<close>

text \<open>Scheme and authority; without a \<open>Host\<close> field the authority stays.\<close>

definition take_authority :: "connection \<Rightarrow> connection option" where
  "take_authority c = do {
     let u = (conuri c)\<lparr>uri_scheme := Some (if cf_is_ssl (cconf c) then ''https'' else ''http'')\<rparr>;
     a \<leftarrow> (case http_host (req c) of Null \<Rightarrow> Some (uri_authority u) | p \<Rightarrow> header_string (con.truncate c) p);
     Some (c\<lparr>conuri := u\<lparr>uri_authority := lower_value a\<rparr>\<rparr>) }"

definition split_uri :: "connection \<Rightarrow> connection option" where
  "split_uri c = do {
     s \<leftarrow> uri (req c);
     let s = (if CHR ''#'' \<in> set (cstr s) then takeWhile (\<lambda>ch. ch \<noteq> CHR ''#'') s else s);
     let c = c\<lparr>req := (req c)\<lparr>uri := Some s\<rparr>\<rparr>;
     Some (if CHR 0x3F \<in> set (cstr s)
       then c\<lparr>conuri := (conuri c)\<lparr>uri_query := Some (tl (dropWhile (\<lambda>ch. ch \<noteq> CHR 0x3F) (cstr s))),
         uri_path_raw := Some (takeWhile (\<lambda>ch. ch \<noteq> CHR 0x3F) s)\<rparr>\<rparr>
       else c\<lparr>conuri := (conuri c)\<lparr>uri_query := None, uri_path_raw := Some s\<rparr>\<rparr>) }"

definition star_path :: "bstr \<Rightarrow> bool" where
  "star_path v \<longleftrightarrow> v \<noteq> None \<and> cstr (bval v) = ''*''"

definition clean_path :: "server \<Rightarrow> connection \<Rightarrow> (server \<times> connection) option" where
  "clean_path srv c =
     (if http_method (req c) = HTTP_METHOD_OPTIONS \<and> star_path (uri_path_raw (conuri c))
      then Some (srv, c\<lparr>conuri := (conuri c)\<lparr>uri_path := uri_path_raw (conuri c)\<rparr>\<rparr>)
      else do {
        (_, b) \<leftarrow> buffer_urldecode_path (Some (value_buffer (uri_path_raw (conuri c))));
        (_, d) \<leftarrow> buffer_path_simplify (Some (value_buffer (uri_path (conuri c)))) (Other_Buffer b);
        Some (set_tmp_buf (buffer_bstr b) srv, c\<lparr>conuri := (conuri c)\<lparr>uri_path := buffer_bstr d\<rparr>\<rparr>) })"

definition start_phase :: phase where
  "start_phase srv c = do {
     let c = config_setup_connection (base_conf srv) (config_cond_cache_reset (length (config_context srv)) c);
     (srv, c) \<leftarrow> patch_connection COMP_SERVER_SOCKET srv c;
     c \<leftarrow> take_authority c;
     (srv, c) \<leftarrow> patch_all [COMP_HTTP_SCHEME, COMP_HTTP_HOST, COMP_HTTP_REMOTE_IP, COMP_HTTP_REFERER, COMP_HTTP_USER_AGENT,
       COMP_HTTP_LANGUAGE, COMP_HTTP_COOKIE, COMP_HTTP_REQUEST_METHOD] srv c;
     c \<leftarrow> split_uri c;
     Some (HANDLER_GO_ON, srv, c) }"

definition clean_phase :: phase where
  "clean_phase srv c = do {
     (srv, c) \<leftarrow> clean_path srv c;
     (srv, c) \<leftarrow> patch_all [COMP_HTTP_URL, COMP_HTTP_QUERY_STRING] srv c;
     Some (HANDLER_GO_ON, srv,
       if allow_http11 (cf_request (cconf c)) then c else c\<lparr>req := (req c)\<lparr>http_version := HTTP_VERSION_1_0\<rparr>\<rparr>) }"

text \<open>\<open>OPTIONS *\<close>: the first character of the path and the second cell of the raw path are looked at.\<close>

definition options_phase :: phase where
  "options_phase srv c =
     (if http_method (req c) \<noteq> HTTP_METHOD_OPTIONS then Some (HANDLER_GO_ON, srv, c)
      else do {
        p \<leftarrow> uri_path (conuri c);
        if take 1 p \<noteq> ''*'' then Some (HANDLER_GO_ON, srv, c)
        else do {
          raw \<leftarrow> uri_path_raw (conuri c);
          if raw = [] then None
          else if (raw @ [NUL]) ! 1 \<noteq> NUL then Some (HANDLER_GO_ON, srv, c)
          else do {
            hs \<leftarrow> response_header_insert (resp_headers (resp c)) ''Allow'' (Some ''OPTIONS, GET, HEAD, POST'');
            Some (HANDLER_FINISHED, srv, (set_resp_headers hs c)\<lparr>http_status := 200, file_finished := True\<rparr>) } } })"

section \<open>From the path to the file\<close>

definition docroot_phase :: phase where
  "docroot_phase srv c =
     Some (HANDLER_GO_ON, srv, c\<lparr>phys := (phys c)\<lparr>phys_doc_root := cf_document_root (cconf c), phys_rel_path := uri_path (conuri c)\<rparr>\<rparr>)"

definition physical_phase :: phase where
  "physical_phase srv c = (
     let p = phys c;
         rel = (if cf_force_lowercase (cconf c) then lower_value (phys_rel_path p) else phys_rel_path p);
         base = append_slash (phys_doc_root p);
         path = (case rel of
             Some (ch # s) \<Rightarrow> if ch = CHR ''/'' then bcat base s else bappend base rel
           | _ \<Rightarrow> base)
     in Some (HANDLER_GO_ON, srv,
       c\<lparr>phys := p\<lparr>phys_rel_path := rel, phys_basedir := base, phys_path := path\<rparr>,
         con_server_name := (if con_server_name c = None then uri_authority (conuri c) else con_server_name c)\<rparr>))"

definition build_path :: "plugin_slots \<Rightarrow> phase" where
  "build_path sl =
     then_phase start_phase (then_phase (ask_plugins (slot_uri_raw sl))
       (then_phase clean_phase (then_phase (ask_plugins (slot_uri_clean sl))
         (then_phase options_phase (then_phase docroot_phase (then_phase (ask_plugins (slot_docroot sl))
           (then_phase physical_phase (ask_plugins (slot_physical sl)))))))))"

section \<open>The file and the path info\<close>

text \<open>The position of the last slash (\<open>strrchr\<close>).\<close>

definition last_slash :: "char list \<Rightarrow> nat option" where
  "last_slash s = (let r = dropWhile (\<lambda>ch. ch \<noteq> CHR ''/'') (rev s) in if r = [] then None else Some (length r - 1))"

lemma last_slash_less: "last_slash s = Some k \<Longrightarrow> k < length s"
proof -
  assume "last_slash s = Some k"
  moreover have "length (dropWhile (\<lambda>ch. ch \<noteq> CHR ''/'') (rev s)) \<le> length s"
    using length_dropWhile_le [of _ "rev s"] by simp
  ultimately show ?thesis by (cases "dropWhile (\<lambda>ch. ch \<noteq> CHR ''/'') (rev s)") (auto simp: last_slash_def Let_def)
qed

text \<open>The name is cut at one slash after the other from the right until a file is found or the base directory is reached. The
  result: the name tried last, what \<open>stat\<close> said of it, and the slash the path info starts at.\<close>

function pathinfo_loop ::
  "(char list \<Rightarrow> stat_entry + errno) \<Rightarrow> nat \<Rightarrow> char list \<Rightarrow> nat option \<Rightarrow> char list \<times> stat_entry option \<times> nat option" where
  "pathinfo_loop st base t slash = (
     let path = (case slash of None \<Rightarrow> t | Some k \<Rightarrow> take k t) in
     case st (cstr path) of
       Inl e \<Rightarrow> (path, Some e, slash)
     | Inr _ \<Rightarrow>
         (case last_slash (cstr (case slash of None \<Rightarrow> t | Some k \<Rightarrow> take k t)) of
            None \<Rightarrow> (path, None, slash)
          | Some k \<Rightarrow> if k > base then pathinfo_loop st base t (Some k) else (path, None, Some k)))"
  by pat_completeness auto
termination
proof (relation "measure (\<lambda>(_, _, t, slash). case slash of None \<Rightarrow> length t + 1 | Some k \<Rightarrow> k)")
  fix st :: "char list \<Rightarrow> stat_entry + errno" and base :: nat and t slash x xa k
  assume "last_slash (cstr (case slash of None \<Rightarrow> t | Some k \<Rightarrow> take k t)) = Some k"
  with last_slash_less have "k < length (cstr (case slash of None \<Rightarrow> t | Some k \<Rightarrow> take k t))" by blast
  then have "k < length (case slash of None \<Rightarrow> t | Some k \<Rightarrow> take k t)" using length_cstr_le less_le_trans by blast
  then show "((st, base, t, Some k), st, base, t, slash) \<in> measure (\<lambda>(_, _, t, slash). case slash of None \<Rightarrow> length t + 1 | Some k \<Rightarrow> k)"
    by (auto split: option.splits)
qed simp

declare pathinfo_loop.simps [simp del]

text \<open>The length of the base directory less one, as the code computes it from \<open>used\<close>.\<close>

definition base_limit :: "bstr \<Rightarrow> nat" where
  "base_limit v = (case v of None \<Rightarrow> 2 ^ 32 - 2 | Some s \<Rightarrow> if s = [] then 2 ^ 32 - 1 else length s - 1)"

definition reject_file :: "int \<Rightarrow> connection \<Rightarrow> handler_t \<times> connection" where
  "reject_file st c = (HANDLER_FINISHED, set_phys_path None (c\<lparr>http_status := st\<rparr>))"

definition found_file :: "prepare_env \<Rightarrow> stat_entry \<Rightarrow> connection \<Rightarrow> (handler_t \<times> connection) option" where
  "found_file env e c =
     (if se_symlink e \<and> \<not> cf_follow_symlink (cconf c) then Some (reject_file 403 c)
      else if se_isdir e then do {
        p \<leftarrow> uri_path (conuri c);
        if p = [] then None
        else if List.last p \<noteq> CHR ''/'' then do {
          (_, c) \<leftarrow> http_response_redirect_to_directory c (pe_local env) (pe_port env);
          Some (HANDLER_FINISHED, c) }
        else Some (HANDLER_GO_ON, c) }
      else Some (HANDLER_GO_ON, c))"

text \<open>The rest behind the file becomes the path info and leaves \<open>uri.path\<close>.\<close>

definition split_pathinfo :: "char list \<Rightarrow> nat option \<Rightarrow> connection \<Rightarrow> connection option" where
  "split_pathinfo t slash c = (case slash of
       None \<Rightarrow> Some c
     | Some k \<Rightarrow> do {
         let info = cstr (drop k t);
         p \<leftarrow> uri_path (conuri c);
         if length p < length info then None
         else Some (c\<lparr>pathinfo := Some info, conuri := (conuri c)\<lparr>uri_path := Some (take (length p - length info) p)\<rparr>\<rparr>) })"

definition search_file :: "prepare_env \<Rightarrow> server \<Rightarrow> connection \<Rightarrow> (handler_t \<times> server \<times> connection) option" where
  "search_file env srv c = do {
     s \<leftarrow> phys_path (phys c);
     let srv = set_tmp_buf (Some s) srv;
     let (path, e, slash) = pathinfo_loop (pe_stat env) (base_limit (phys_basedir (phys c))) s None;
     let c = set_phys_path (Some path) c;
     case e of
       None \<Rightarrow> (let (r, c) = reject_file 404 c in Some (r, srv, c))
     | Some e \<Rightarrow>
         if \<not> se_isreg e then (let (r, c) = reject_file 404 c in Some (r, srv, c))
         else if se_symlink e \<and> \<not> cf_follow_symlink (cconf c) then (let (r, c) = reject_file 403 c in Some (r, srv, c))
         else do { c \<leftarrow> split_pathinfo s slash c; Some (HANDLER_GO_ON, srv, c) } }"

definition file_phase :: "prepare_env \<Rightarrow> phase" where
  "file_phase env srv c = do {
     s \<leftarrow> phys_path (phys c);
     case pe_stat env (cstr s) of
       Inl e \<Rightarrow> do { (r, c) \<leftarrow> found_file env e c; Some (r, srv, c) }
     | Inr EACCES \<Rightarrow> (let (r, c) = reject_file 403 c in Some (r, srv, c))
     | Inr ENOENT \<Rightarrow> (let (r, c) = reject_file 404 c in Some (r, srv, c))
     | Inr ENOTDIR \<Rightarrow> search_file env srv c
     | Inr _ \<Rightarrow> (let (r, c) = reject_file 500 c in Some (r, srv, c)) }"

text \<open>The handlers of the file; when none takes it the request is forbidden.\<close>

definition start_subrequest :: "plugin_slots \<Rightarrow> phase" where
  "start_subrequest sl srv c = do {
     (r, c) \<leftarrow> plugins_call (slot_subrequest_start sl) c;
     Some (
       if r \<noteq> HANDLER_GO_ON then (r, srv, c)
       else if mode c = 0 \<and> http_status c = 0
       then (HANDLER_FINISHED, srv, c\<lparr>http_status := (if http_method (req c) = HTTP_METHOD_OPTIONS then 200 else 403)\<rparr>)
       else (HANDLER_GO_ON, srv, c)) }"

definition handle_subrequest :: "plugin_slots \<Rightarrow> phase" where
  "handle_subrequest sl srv c = do {
     (r, c) \<leftarrow> plugins_call (slot_subrequest sl) c;
     Some (if r = HANDLER_GO_ON then HANDLER_FINISHED else r, srv, c) }"

section \<open>The decision\<close>

definition if_direct :: "phase \<Rightarrow> phase" where
  "if_direct p srv c = (if mode c = 0 then p srv c else Some (HANDLER_GO_ON, srv, c))"

definition if_no_path :: "phase \<Rightarrow> phase" where
  "if_no_path p srv c = (if phys_path (phys c) = None then p srv c else Some (HANDLER_GO_ON, srv, c))"

definition http_response_prepare :: "plugin_slots \<Rightarrow> prepare_env \<Rightarrow> phase" where
  "http_response_prepare sl env srv c =
     (if mode c = 0 \<and> http_status c \<noteq> 0 \<and> http_status c \<noteq> 200
      then do {
        q \<leftarrow> (if file_finished c then Some (write_queue c) else chunkqueue_reset (write_queue c));
        Some (HANDLER_FINISHED, srv, c\<lparr>write_queue := q\<rparr>) }
      else then_phase (if_direct (if_no_path (build_path sl)))
        (then_phase (if_direct (then_phase (file_phase env) (start_subrequest sl))) (handle_subrequest sl)) srv c)"


declare config_check_cond_cached.simps [simp del]

section \<open>What the configuration leaves alone\<close>

definition config_only :: "connection \<Rightarrow> connection \<Rightarrow> bool" where
  "config_only c d \<longleftrightarrow> (\<exists>f cf nm v. d = c\<lparr>cond_cache := f, cconf := cf, con_server_name := nm, conditional_is_valid := v\<rparr>)"

lemma config_only_refl: "config_only c c"
  unfolding config_only_def
  by (intro exI [of _ "cond_cache c"] exI [of _ "cconf c"] exI [of _ "con_server_name c"] exI [of _ "conditional_is_valid c"]) simp

lemma config_only_trans:
  assumes "config_only c d" and "config_only d e"
  shows "config_only c e"
proof -
  from assms obtain f cf nm v f' cf' nm' v' where "d = c\<lparr>cond_cache := f, cconf := cf, con_server_name := nm, conditional_is_valid := v\<rparr>"
    "e = d\<lparr>cond_cache := f', cconf := cf', con_server_name := nm', conditional_is_valid := v'\<rparr>" by (auto simp: config_only_def)
  then have "e = c\<lparr>cond_cache := f', cconf := cf', con_server_name := nm', conditional_is_valid := v'\<rparr>" by simp
  then show ?thesis unfolding config_only_def by blast
qed

lemma config_only_cache: "config_only c (c\<lparr>cond_cache := f\<rparr>)"
  unfolding config_only_def
  by (rule exI [of _ f], rule exI [of _ "cconf c"], rule exI [of _ "con_server_name c"], rule exI [of _ "conditional_is_valid c"]) simp

lemma config_only_valid: "config_only c (c\<lparr>conditional_is_valid := v\<rparr>)"
  unfolding config_only_def
  by (rule exI [of _ "cond_cache c"], rule exI [of _ "cconf c"], rule exI [of _ "con_server_name c"], rule exI [of _ v]) simp

lemma config_only_settings: "config_only c (c\<lparr>cconf := cf, con_server_name := nm\<rparr>)"
  unfolding config_only_def
  by (rule exI [of _ "cond_cache c"], rule exI [of _ cf], rule exI [of _ nm], rule exI [of _ "conditional_is_valid c"]) simp

lemmas config_only_intros = config_only_refl config_only_cache config_only_valid config_only_settings

lemma config_only_parts:
  assumes "config_only c d"
  shows "req d = req c" "conuri d = conuri c" "phys d = phys c" "mode d = mode c" "http_status d = http_status c"
  using assms by (auto simp: config_only_def)

lemma same_request_config: "same_request c d \<Longrightarrow> config_only c d"
  using config_only_cache by (auto simp: same_request_def)

lemma compare_value_config:
  assumes "compare_value d i l b c = Some (r, c')"
  shows "config_only c c'"
proof -
  from assms obtain v where v: "value_of l b c = Some v" by (auto simp: compare_value_def bind_Some_iff)
  obtain n ms where m: "dc_regex d v = (n, ms)" by fastforce
  from assms v m have "c' = c \<or> (\<exists>f. c' = c\<lparr>cond_cache := f\<rparr>)" by (cases "dc_cond d") (auto simp: compare_value_def Let_def)
  then show ?thesis using config_only_refl config_only_cache by blast
qed

lemma check_rule_config:
  assumes "check_rule d i b c = Some (r, b', c')"
  shows "config_only c c'"
proof -
  from assms obtain l b1 where "select_value d b c = Some (l, b1)" by (auto simp: check_rule_def bind_Some_iff)
  with assms show ?thesis by (cases l) (auto simp: check_rule_def bind_Some_iff config_only_refl dest: compare_value_config)
qed

lemma nocache_config:
  assumes "config_check_cond_nocache chk d i b c = Some (r, b', c')"
    and chk: "\<And>p b c r b' c'. chk p b c = Some (r, b', c') \<Longrightarrow> config_only c c'"
  shows "config_only c c'"
proof -
  from assms(1) obtain up b1 c1 where
    up: "(case dc_parent d of Some p \<Rightarrow> if p \<noteq> 0 then chk p b c else Some (COND_RESULT_TRUE, b, c) | None \<Rightarrow> Some (COND_RESULT_TRUE, b, c)) = Some (up, b1, c1)"
    by (auto simp: config_check_cond_nocache_def bind_Some_iff)
  then have c1: "config_only c c1" by (auto simp: config_only_refl dest: chk split: option.splits if_splits)
  show ?thesis
  proof (cases "up = COND_RESULT_TRUE")
    case False
    with assms(1) up have "c' = c1" by (cases up) (auto simp: config_check_cond_nocache_def)
    with c1 show ?thesis by simp
  next
    case True
    with assms(1) up obtain out b2 c2 where
      out: "(case dc_prev d of Some p \<Rightarrow> do { (_, b, c) \<leftarrow> chk p b1 c1; Some (cached c i = COND_RESULT_FALSE, b, c) } | None \<Rightarrow> Some (False, b1, c1)) = Some (out, b2, c2)"
      and r: "(if out then Some (COND_RESULT_FALSE, b2, c2)
        else if \<not> conditional_is_valid c2 (dc_comp d) then Some (COND_RESULT_UNSET, b2, c2) else check_rule d i b2 c2) = Some (r, b', c')"
      by (auto simp: config_check_cond_nocache_def bind_Some_iff)
    from out have "config_only c1 c2" by (auto simp: config_only_refl bind_Some_iff dest: chk split: option.splits)
    moreover from r have "config_only c2 c'" by (auto simp: config_only_refl dest: check_rule_config split: if_splits)
    ultimately show ?thesis using c1 config_only_trans by blast
  qed
qed

lemma set_result_config: "config_only c (set_result i r c)"
  by (rule same_request_config) (rule same_request_result)

lemma reject_rest_config: "reject_rest n ctx q c = Some c' \<Longrightarrow> config_only c c'"
proof (induction n ctx q c rule: reject_rest.induct)
  case (3 n ctx q c)
  then show ?case using config_only_trans [OF set_result_config] by (auto split: if_splits)
qed (auto simp: config_only_refl)

lemma cached_config: "config_check_cond_cached n ctx i b c = Some (r, b', c') \<Longrightarrow> config_only c c'"
proof (induction n arbitrary: i b c r b' c')
  case (Suc n)
  show ?case
  proof (cases "cached c i = COND_RESULT_UNSET")
    case True
    with Suc.prems obtain q b1 c1 c2 where
      n: "config_check_cond_nocache (config_check_cond_cached n ctx) (ctx ! i) i b c = Some (q, b1, c1)"
      and j: "(if q = COND_RESULT_TRUE then reject_rest (length ctx) ctx (dc_next (ctx ! i)) (set_result i q c1) else Some (set_result i q c1)) = Some c2"
      and c': "c' = c2\<lparr>cond_cache := (cond_cache c2)(i := (cond_cache c2 i)\<lparr>cc_comp_type := dc_comp (ctx ! i)\<rparr>)\<rparr>"
      by (auto simp: config_check_cond_cached.simps bind_Some_iff Let_def split: if_splits)
    from nocache_config [OF n] Suc.IH have "config_only c c1" by blast
    moreover from j have "config_only c1 c2"
      using config_only_trans [OF set_result_config reject_rest_config] set_result_config by (auto split: if_splits)
    ultimately show ?thesis unfolding c' using config_only_trans config_only_cache by blast
  qed (use Suc.prems in \<open>auto simp: config_check_cond_cached.simps config_only_refl split: if_splits\<close>)
qed (simp add: config_check_cond_cached.simps)

lemma patch_block_config: "config_only c (patch_block ctx st c i)"
  using patch_keys_conf [of "st ! i" c "dc_keys (ctx ! i)"] config_only_settings by (auto simp: patch_block_def)

lemma config_blocks_config: "config_blocks ctx st is b c = Some (b', c') \<Longrightarrow> config_only c c'"
proof (induction "is" arbitrary: b c)
  case (Cons i "is")
  then obtain m b1 c1 where c1: "config_check_cond ctx i b c = Some (m, b1, c1)"
    and rest: "config_blocks ctx st is b1 (if m then patch_block ctx st c1 i else c1) = Some (b', c')"
    by (auto simp: bind_Some_iff split: if_splits)
  from c1 have "config_only c c1" by (auto simp: config_check_cond_def bind_Some_iff dest: cached_config)
  moreover have "config_only c1 (if m then patch_block ctx st c1 i else c1)" by (simp add: patch_block_config config_only_refl)
  ultimately show ?case using Cons.IH [OF rest] config_only_trans by blast
qed (simp add: config_only_refl)

lemma patch_connection_config: "patch_connection k srv c = Some (srv', c') \<Longrightarrow> config_only c c'"
  using config_only_trans [OF config_only_valid config_blocks_config]
  by (fastforce simp: patch_connection_def config_patch_connection_def bind_Some_iff)

lemma patch_all_config: "patch_all ks srv c = Some (srv', c') \<Longrightarrow> config_only c c'"
  by (induction ks arbitrary: srv c) (auto simp: config_only_refl bind_Some_iff intro: config_only_trans dest: patch_connection_config)

section \<open>The physical path\<close>

lemma then_phase_go:
  "then_phase p q srv c = Some (HANDLER_GO_ON, srv', c') \<longleftrightarrow>
     (\<exists>s1 c1. p srv c = Some (HANDLER_GO_ON, s1, c1) \<and> q s1 c1 = Some (HANDLER_GO_ON, srv', c'))"
  by (auto simp: then_phase_def bind_Some_iff split: if_splits)

text \<open>A plugin function that does not touch a part of the connection.\<close>

definition leaves :: "(connection \<Rightarrow> 'a) \<Rightarrow> plugin_fun \<Rightarrow> bool" where
  "leaves f p \<longleftrightarrow> (\<forall>c r d. p c = Some (r, d) \<longrightarrow> f d = f c)"

lemma plugins_call_leaves: "list_all (leaves f) ps \<Longrightarrow> plugins_call ps c = Some (r, d) \<Longrightarrow> f d = f c"
proof (induction ps arbitrary: c)
  case (Cons p ps)
  from Cons.prems(2) obtain r1 c1 where p: "p c = Some (r1, c1)" by (auto simp: bind_Some_iff)
  with Cons.prems(1) have "f c1 = f c" by (auto simp: leaves_def)
  with p Cons show ?case by (cases r1) (auto simp: bind_Some_iff)
qed simp

lemma ask_plugins_leaves: "list_all (leaves f) ps \<Longrightarrow> ask_plugins ps srv c = Some (r, srv', d) \<Longrightarrow> f d = f c"
  by (auto simp: ask_plugins_def bind_Some_iff dest: plugins_call_leaves)

lemma simplify_path_chars: "set (simplify_path s) \<subseteq> insert (CHR ''/'') (set s)"
proof -
  have seg: "set x \<subseteq> set u" if "x \<in> set (segments u)" for x u
    using that
  proof (induction u arbitrary: x rule: segments.induct)
    case (2 c u)
    have ih: "set y \<subseteq> set u" if "y \<in> set (segments u)" for y
      using 2(1) [of y] 2(2) [of y] that by blast
    obtain h ys where ys: "segments u = h # ys" by (cases "segments u") simp_all
    with ih [of h] have "set h \<subseteq> set u" by simp
    moreover have "set y \<subseteq> set u" if "y \<in> set ys" for y
      using ih [of y] that ys by simp
    ultimately show ?case using 2(3) ys by (auto split: if_splits)
  qed simp
  have fold: "set (foldl push_segment st segs) \<subseteq> set st \<union> set segs" for st segs
  proof (induction segs arbitrary: st)
    case (Cons x segs)
    have "set (push_segment st x) \<subseteq> insert x (set st)" by (auto simp: push_segment_def dest: in_set_butlastD)
    with Cons.IH [of "push_segment st x"] show ?case by auto
  qed simp
  have render: "set (render_path st) \<subseteq> insert (CHR ''/'') (\<Union>x \<in> set st. set x)" for st
    by (auto simp: render_path_def)
  define u where "u = (case dropWhile (\<lambda>c. c = CHR '' '') s of c # t \<Rightarrow>
      if c = CHR ''/'' then t else dropWhile (\<lambda>c. c = CHR '' '') s | [] \<Rightarrow> dropWhile (\<lambda>c. c = CHR '' '') s)"
  have "set (dropWhile (\<lambda>c. c = CHR '' '') s) \<subseteq> set s" using set_dropWhileD by fastforce
  then have "set u \<subseteq> set s" by (auto simp: u_def split: list.splits if_splits)
  moreover have "simplify_path s = finish_path [] (segments u)" by (simp add: simplify_path_def u_def Let_def)
  ultimately show ?thesis using seg [of _ u] fold [of "[]" "segments u"] render [of "foldl push_segment [] (segments u)"]
    by (fastforce simp: finish_path_def)
qed

lemma value_buffer_repr: "buf_repr (value_buffer v) v"
  by (cases v) (auto simp: value_buffer_def buf_repr_def buf_wf_def buffer_init_def)

lemma printable_no_nul: "list_all printable s \<Longrightarrow> NUL \<notin> set s"
  by (auto simp: list_all_iff)

lemma clean_path_value:
  assumes "uri_path_raw (conuri c) = Some (CHR ''/'' # s)" and "list_all printable s"
  shows "\<exists>srv'. clean_path srv c = Some (srv', c\<lparr>conuri := (conuri c)\<lparr>uri_path := Some (simplify_path (CHR ''/'' # urldecode False s))\<rparr>\<rparr>)"
proof -
  let ?u = "CHR ''/'' # urldecode False s"
  have raw: "list_all printable (CHR ''/'' # s)" using assms(2) by simp
  from buffer_urldecode_repr [OF value_buffer_repr [of "Some (CHR ''/'' # s)"] printable_no_nul [OF raw], of False]
  obtain b where b: "buffer_urldecode_path (Some (value_buffer (Some (CHR ''/'' # s)))) = Some (0, Some b)" "buf_repr b (Some ?u)"
    by (auto simp: buffer_urldecode_path_def)
  have "NUL \<notin> set ?u" using printable_no_nul [OF urldecode_no_control [OF raw, of False]] by simp
  then obtain d where "buffer_path_simplify (Some (value_buffer (uri_path (conuri c)))) (Other_Buffer (Some b)) = Some (0, Some d)"
    "buf_repr d (Some (simplify_path ?u))"
    using buffer_path_simplify_other [OF buf_repr_wf [OF value_buffer_repr] b(2)] by fastforce
  with b assms(1) show ?thesis by (simp add: clean_path_def star_path_def cstr_def)
qed

lemma take_authority_keeps: "take_authority c = Some d \<Longrightarrow> req d = req c \<and> phys d = phys c"
  by (auto simp: take_authority_def Let_def bind_Some_iff)

lemma start_phase_raw:
  assumes "start_phase srv c = Some (r, srv', d)" and "uri (req c) = Some (CHR ''/'' # s)" and "list_all printable s"
  shows "r = HANDLER_GO_ON \<and> (\<exists>t. uri_path_raw (conuri d) = Some (CHR ''/'' # t) \<and> list_all printable t)"
proof -
  let ?c = "config_setup_connection (base_conf srv) (config_cond_cache_reset (length (config_context srv)) c)"
  from assms(1) obtain s1 c1 c2 s3 c3 where
    steps: "patch_connection COMP_SERVER_SOCKET srv ?c = Some (s1, c1)" "take_authority c1 = Some c2"
      "patch_all [COMP_HTTP_SCHEME, COMP_HTTP_HOST, COMP_HTTP_REMOTE_IP, COMP_HTTP_REFERER, COMP_HTTP_USER_AGENT,
        COMP_HTTP_LANGUAGE, COMP_HTTP_COOKIE, COMP_HTTP_REQUEST_METHOD] s1 c2 = Some (s3, c3)"
      "split_uri c3 = Some d" "r = HANDLER_GO_ON"
    by (auto simp: start_phase_def Let_def bind_Some_iff simp del: patch_all.simps)
  have "req ?c = req c" by (simp add: config_setup_connection_def config_cond_cache_reset_def config_cond_cache_reset_item_def)
  with config_only_parts(1) [OF patch_connection_config [OF steps(1)]] take_authority_keeps [OF steps(2)]
    config_only_parts(1) [OF patch_all_config [OF steps(3)]] assms(2)
  have uri: "uri (req c3) = Some (CHR ''/'' # s)" by simp
  have sub: "list_all printable (takeWhile P s)" "list_all printable (takeWhile P (takeWhile Q s))" for P Q
    using assms(3) by (auto simp: list_all_iff dest!: set_takeWhileD)
  from steps(4) uri sub assms(3) show ?thesis
    by (auto simp: split_uri_def Let_def steps(5) split: if_splits)
qed

lemma to_lower_special: "to_lower_char ch = CHR ''/'' \<longleftrightarrow> ch = CHR ''/''" "to_lower_char ch = CHR ''.'' \<longleftrightarrow> ch = CHR ''.''"
proof -
  have all: "list_all (\<lambda>n. 64 \<le> n OR 32 \<and> n OR 32 < 256) [65..<91 :: nat]"
    by (simp add: upt_conv_Cons)
  have "char_of (byte ch OR 32) \<noteq> CHR ''/'' \<and> char_of (byte ch OR 32) \<noteq> CHR ''.''" if "is_upper ch"
  proof -
    from that have "65 \<le> byte ch \<and> byte ch < 91"
      by (auto simp: is_upper_def schar_def split: if_splits) (use byte_less [of ch] in linarith)+
    then have "byte ch \<in> set [65..<91]" by (simp only: set_upt atLeastLessThan_iff)
    with all have n: "64 \<le> byte ch OR 32" "byte ch OR 32 < 256" unfolding list_all_iff by blast+
    then have b: "byte (char_of (byte ch OR 32)) = byte ch OR 32" by (simp only: of_char_of mod_less)
    show ?thesis
    proof (intro conjI notI)
      assume "char_of (byte ch OR 32) = CHR ''/''"
      from b [unfolded this] n(1) show False by simp
    next
      assume "char_of (byte ch OR 32) = CHR ''.''"
      from b [unfolded this] n(1) show False by simp
    qed
  qed
  moreover have "\<not> is_upper (CHR ''/'')" "\<not> is_upper (CHR ''.'')" by (simp_all add: is_upper_def schar_def)
  ultimately show "to_lower_char ch = CHR ''/'' \<longleftrightarrow> ch = CHR ''/''" "to_lower_char ch = CHR ''.'' \<longleftrightarrow> ch = CHR ''.''"
    unfolding to_lower_char_def by (cases "is_upper ch"; simp; blast)+
qed

definition plain_segment :: "char list \<Rightarrow> bool" where
  "plain_segment x \<longleftrightarrow> x \<noteq> '''' \<and> x \<noteq> ''.'' \<and> x \<noteq> ''..'' \<and> CHR ''/'' \<notin> set x"

lemma plain_segment_lower:
  assumes "plain_segment x"
  shows "plain_segment (map to_lower_char x)"
proof -
  have "map to_lower_char x \<noteq> ''.''"
  proof
    assume "map to_lower_char x = ''.''"
    then obtain a where "x = [a]" "to_lower_char a = CHR ''.''" by (auto simp: map_eq_Cons_conv)
    with assms to_lower_special(2) [of a] show False by (simp add: plain_segment_def)
  qed
  moreover have "map to_lower_char x \<noteq> ''..''"
  proof
    assume "map to_lower_char x = ''..''"
    then obtain a b where "x = [a, b]" "to_lower_char a = CHR ''.''" "to_lower_char b = CHR ''.''" by (auto simp: map_eq_Cons_conv)
    with assms to_lower_special(2) [of a] to_lower_special(2) [of b] show False by (simp add: plain_segment_def)
  qed
  moreover have "CHR ''/'' \<notin> set (map to_lower_char x)"
  proof
    assume "CHR ''/'' \<in> set (map to_lower_char x)"
    then obtain a where "a \<in> set x" "to_lower_char a = CHR ''/''" by auto
    with assms to_lower_special(1) [of a] show False by (simp add: plain_segment_def)
  qed
  ultimately show ?thesis using assms by (simp add: plain_segment_def)
qed

lemma render_lower: "map to_lower_char (render_path segs) = render_path (map (map to_lower_char) segs)"
  using to_lower_special(1) [of "CHR ''/''"] by (simp add: render_path_def map_concat comp_def)

text \<open>The relative path in both spellings.\<close>

lemma clean_path_segments:
  assumes "list_all printable s"
  shows "\<exists>segs dir. list_all plain_segment segs \<and>
    (if lower then lower_value (Some (simplify_path (CHR ''/'' # urldecode False s))) else Some (simplify_path (CHR ''/'' # urldecode False s))) =
      Some (render_path segs @ (if dir then ''/'' else '''')) \<and> (segs = [] \<longrightarrow> dir)"
proof -
  let ?u = "simplify_path (CHR ''/'' # urldecode False s)"
  from simplify_path_shape [of "CHR ''/'' # urldecode False s"] obtain segs dir where
    u: "?u = render_path segs @ (if dir then ''/'' else '''')" "list_all plain_segment segs" "segs = [] \<longrightarrow> dir"
    by (auto simp: list_all_iff plain_segment_def is_special_def)
  have "NUL \<notin> set ?u" using simplify_path_chars [of "CHR ''/'' # urldecode False s"] printable_no_nul [OF urldecode_no_control [OF assms, of False]] by auto
  then have "lower_value (Some ?u) = Some (map to_lower_char ?u)" by (simp add: lower_value_def)
  also have "map to_lower_char ?u = render_path (map (map to_lower_char) segs) @ (if dir then ''/'' else '''')"
    unfolding u(1) using to_lower_special(1) [of "CHR ''/''"] by (simp add: render_lower)
  finally have low: "lower_value (Some ?u) = Some (render_path (map (map to_lower_char) segs) @ (if dir then ''/'' else ''''))" .
  show ?thesis
  proof (cases lower)
    case True
    with low u(2,3) show ?thesis
      by (intro exI [of _ "map (map to_lower_char) segs"] exI [of _ dir]) (auto simp: list_all_iff plain_segment_lower)
  next
    case False
    with u show ?thesis by (intro exI [of _ segs] exI [of _ dir]) simp
  qed
qed


section \<open>The path info\<close>

lemma last_slash_cut:
  assumes "last_slash s = Some k"
  shows "take k s @ CHR ''/'' # drop (k + 1) s = s \<and> CHR ''/'' \<notin> set (drop (k + 1) s)"
proof -
  let ?r = "dropWhile (\<lambda>ch. ch \<noteq> CHR ''/'') (rev s)"
  let ?w = "takeWhile (\<lambda>ch. ch \<noteq> CHR ''/'') (rev s)"
  from assms have k: "?r \<noteq> []" "k = length ?r - 1" by (auto simp only: last_slash_def Let_def split: if_splits)
  then obtain r where r: "?r = CHR ''/'' # r" using hd_dropWhile [OF k(1)] by (cases ?r) auto
  have "rev s = ?w @ ?r" by simp
  then have "s = rev (?w @ ?r)" by (metis rev_rev_ident)
  then have s: "s = rev r @ CHR ''/'' # rev ?w" unfolding r by simp
  have w: "CHR ''/'' \<notin> set (rev ?w)" by (auto dest: set_takeWhileD)
  have len: "k = length (rev r)" using k(2) r by simp
  obtain x where x: "s = rev r @ CHR ''/'' # x" "CHR ''/'' \<notin> set x" using s w by blast
  show ?thesis unfolding len x(1) using x(2) by simp
qed

lemma last_slash_at:
  assumes "last_slash s = Some k"
  shows "k < length s" and "s ! k = CHR ''/''" and "\<And>j. k < j \<Longrightarrow> j < length s \<Longrightarrow> s ! j \<noteq> CHR ''/''"
proof -
  from last_slash_less [OF assms] show k: "k < length s" .
  from last_slash_cut [OF assms] have cut: "take k s @ CHR ''/'' # drop (k + 1) s = s" "CHR ''/'' \<notin> set (drop (k + 1) s)" by auto
  from k have "(take k s @ CHR ''/'' # drop (k + 1) s) ! k = CHR ''/''" by (simp add: nth_append)
  with cut(1) show "s ! k = CHR ''/''" by simp
  fix j
  assume j: "k < j" "j < length s"
  then have "s ! j = drop (k + 1) s ! (j - (k + 1))" by simp
  also have "\<dots> \<in> set (drop (k + 1) s)" using j by (intro nth_mem) simp
  finally show "s ! j \<noteq> CHR ''/''" using cut(2) by auto
qed

text \<open>A cut at position \<open>k\<close> is the result, and no longer cut exists.\<close>

definition longest_cut :: "(char list \<Rightarrow> stat_entry + errno) \<Rightarrow> char list \<Rightarrow> nat \<Rightarrow> nat \<Rightarrow> stat_entry \<Rightarrow> bool" where
  "longest_cut st t n k e \<longleftrightarrow> st (take k t) = Inl e \<and> (\<forall>j. k < j \<and> j \<le> n \<and> (j = n \<or> t ! j = CHR ''/'') \<longrightarrow> (\<exists>x. st (take j t) = Inr x))"

lemma pathinfo_loop_found:
  assumes "NUL \<notin> set t"
  shows "n < length t \<Longrightarrow> pathinfo_loop st base t (Some n) = (path, Some e, k') \<Longrightarrow>
    \<exists>k \<le> n. k' = Some k \<and> path = take k t \<and> longest_cut st t n k e \<and> (k = n \<or> base < k \<and> t ! k = CHR ''/'')"
proof (induction n rule: less_induct)
  case (less n)
  have nul: "cstr (take n t) = take n t" using assms in_set_takeD [of NUL n t] by (intro cstr_no_nul) blast
  show ?case
  proof (cases "st (take n t)")
    case (Inl e1)
    with less.prems nul show ?thesis by (intro exI [of _ n]) (auto simp: pathinfo_loop.simps longest_cut_def)
  next
    case (Inr x)
    with less.prems(2) nul obtain m where m: "last_slash (take n t) = Some m" "base < m" "pathinfo_loop st base t (Some m) = (path, Some e, k')"
      by (subst (asm) pathinfo_loop.simps) (auto simp: Let_def split: option.splits if_splits)
    note at = last_slash_at [OF m(1)]
    from at(1) less.prems(1) have less: "m < n" "m < length t" by auto
    from less.IH [OF less m(3)] obtain k where k: "k \<le> m" "k' = Some k" "path = take k t" "longest_cut st t m k e"
      "k = m \<or> base < k \<and> t ! k = CHR ''/''" by blast
    have tm: "t ! m = CHR ''/''" using at(2) less(1) by simp
    have "longest_cut st t n k e"
      unfolding longest_cut_def
    proof (intro conjI allI impI)
      fix j
      assume j: "k < j \<and> j \<le> n \<and> (j = n \<or> t ! j = CHR ''/'')"
      consider "j \<le> m" | "m < j" "j < n" | "j = n" using j by linarith
      then show "\<exists>y. st (take j t) = Inr y"
      proof cases
        case 1
        with j k(4) less(1) show ?thesis unfolding longest_cut_def by auto
      next
        case 2
        with at(3) [of j] less.prems(1) j show ?thesis by simp
      qed (use Inr in blast)
    qed (use k(4) in \<open>simp add: longest_cut_def\<close>)
    with k tm less m(2) show ?thesis by (intro exI [of _ k]) auto
  qed
qed

text \<open>What the search for a file leads to.\<close>

definition split_result :: "prepare_env \<Rightarrow> char list \<Rightarrow> char list \<Rightarrow> connection \<Rightarrow> bool" where
  "split_result env base rest c \<longleftrightarrow> (\<exists>k e. length base \<le> k \<and> k < length (base @ rest) \<and> (base @ rest) ! k = CHR ''/'' \<and> se_isreg e \<and>
     longest_cut (pe_stat env) (base @ rest) (length (base @ rest)) k e \<and>
     phys_path (phys c) = Some (take k (base @ rest)) \<and> pathinfo c = Some (drop k (base @ rest)) \<and>
     bval (uri_path (conuri c)) @ bval (pathinfo c) = CHR ''/'' # rest)"


section \<open>A server with one file\<close>

definition one_file :: prepare_env where
  "one_file = \<lparr>pe_stat = (\<lambda>p. if p = ''/srv/a.php'' then Inl \<lparr>se_isdir = False, se_isreg = True, se_symlink = False\<rparr>
      else if take 10 p = ''/srv/a.php'' then Inr ENOTDIR else Inr ENOENT),
     pe_local = No_Sockname, pe_port = 80\<rparr>"

definition rooted :: specific_config where
  "rooted = config_none\<lparr>cf_document_root := Some ''/srv''\<rparr>"

definition rooted_server :: server where
  "rooted_server = server_init 1 0 FDEVENT_HANDLER_POLL rooted"

definition asking :: "char list \<Rightarrow> connection" where
  "asking u = (let c = connection_init rooted None 0 in c\<lparr>req := (req c)\<lparr>uri := Some u\<rparr>\<rparr>)"

lemma asking_built:
  "case build_path no_plugins rooted_server (asking ''/../x/%2e%2e/a.php/i?q'') of
     Some (r, srv, c) \<Rightarrow> r = HANDLER_GO_ON \<and> phys_path (phys c) = Some ''/srv/a.php/i'' \<and> uri_query (conuri c) = Some ''q''
   | None \<Rightarrow> False"
  by code_simp



end
