(* ===== verification/Url_Modules.thy ===== *)
theory Url_Modules imports Response begin

text \<open>
  Three modules that look at the path of a request: \<open>mod_access.c\<close> refuses paths by their end, \<open>mod_alias.c\<close> moves a prefix of the
  URL to another directory and \<open>mod_indexfile.c\<close> looks for the file of a directory. Each takes its setting from the blocks of
  the configuration that apply. An alias keeps the file below its target if it ends in a slash, and does not if it has none.
\<close>

section \<open>The setting of a module\<close>

text \<open>A module starts with the setting of the global block; a later block that applies and sets one of its options replaces it.\<close>

fun module_blocks :: "data_config list \<Rightarrow> 'a list \<Rightarrow> char list list \<Rightarrow> nat list \<Rightarrow> 'a \<Rightarrow> check_bufs \<Rightarrow> connection \<Rightarrow>
    ('a \<times> check_bufs \<times> connection) option" where
  "module_blocks ctx st keys [] s b c = Some (s, b, c)"
| "module_blocks ctx st keys (i # is) s b c =
     (if length st \<le> i then None
      else do {
        (matched, b, c) \<leftarrow> config_check_cond ctx i b c;
        module_blocks ctx st keys is (if matched \<and> list_ex (\<lambda>key. key \<in> set keys) (dc_keys (ctx ! i)) then st ! i else s) b c })"

definition module_setting :: "data_config list \<Rightarrow> 'a list \<Rightarrow> char list list \<Rightarrow> check_bufs \<Rightarrow> connection \<Rightarrow>
    ('a \<times> check_bufs \<times> connection) option" where
  "module_setting ctx st keys b c = (if st = [] then None else module_blocks ctx st keys [1..<length ctx] (st ! 0) b c)"

definition mod_access_patch_connection ::
  "data_config list \<Rightarrow> bstr list list \<Rightarrow> check_bufs \<Rightarrow> connection \<Rightarrow> (bstr list \<times> check_bufs \<times> connection) option" where
  "mod_access_patch_connection ctx st b c = module_setting ctx st [''url.access-deny''] b c"

definition mod_alias_patch_connection ::
  "data_config list \<Rightarrow> (bstr \<times> bstr) list list \<Rightarrow> check_bufs \<Rightarrow> connection \<Rightarrow> ((bstr \<times> bstr) list \<times> check_bufs \<times> connection) option" where
  "mod_alias_patch_connection ctx st b c = module_setting ctx st [''alias.url''] b c"

definition mod_indexfile_patch_connection ::
  "data_config list \<Rightarrow> bstr list list \<Rightarrow> check_bufs \<Rightarrow> connection \<Rightarrow> (bstr list \<times> check_bufs \<times> connection) option" where
  "mod_indexfile_patch_connection ctx st b c = module_setting ctx st [''server.indexfiles'', ''index-file.names''] b c"

section \<open>Handlers\<close>

text \<open>\<open>strncmp\<close>, or \<open>strncasecmp\<close> if names are folded, as a test for equality.\<close>

definition fold_case :: "bool \<Rightarrow> char list \<Rightarrow> char list" where
  "fold_case lower s = (if lower then map to_lower_char s else s)"

definition strn_equal :: "bool \<Rightarrow> char list \<Rightarrow> char list \<Rightarrow> nat \<Rightarrow> bool" where
  "strn_equal lower s t n \<longleftrightarrow> fold_case lower (take n (cstr s)) = fold_case lower (take n (cstr t))"

fun access_denied :: "bool \<Rightarrow> char list \<Rightarrow> bstr list \<Rightarrow> bool" where
  "access_denied lower p [] = False"
| "access_denied lower p (None # es) = access_denied lower p es"
| "access_denied lower p (Some e # es) =
     (if length e > length p then access_denied lower p es
      else if strn_equal lower (drop (length p - length e) p) e (length e) then True
      else access_denied lower p es)"

definition mod_access_uri_handler ::
  "data_config list \<Rightarrow> bstr list list \<Rightarrow> check_bufs \<Rightarrow> connection \<Rightarrow> (handler_t \<times> check_bufs \<times> connection) option" where
  "mod_access_uri_handler ctx st b c = (case uri_path (conuri c) of
       None \<Rightarrow> Some (HANDLER_GO_ON, b, c)
     | Some p \<Rightarrow> do {
         (deny, b, c) \<leftarrow> mod_access_patch_connection ctx st b c;
         Some (if access_denied (cf_force_lowercase (cconf c)) p deny
           then (HANDLER_FINISHED, b, c\<lparr>http_status := 403, mode := 0\<rparr>) else (HANDLER_GO_ON, b, c)) })"

text \<open>The first alias the URL starts with, and what follows it.\<close>

fun alias_match :: "bool \<Rightarrow> char list \<Rightarrow> (bstr \<times> bstr) list \<Rightarrow> (bstr \<times> char list) option" where
  "alias_match lower u [] = None"
| "alias_match lower u ((None, v) # es) = alias_match lower u es"
| "alias_match lower u ((Some k, v) # es) =
     (if length k > length u then alias_match lower u es
      else if strn_equal lower u k (length k) then Some (v, drop (length k) u)
      else alias_match lower u es)"

text \<open>The URL begins at the last character of the base directory.\<close>

definition mod_alias_physical_handler ::
  "data_config list \<Rightarrow> (bstr \<times> bstr) list list \<Rightarrow> check_bufs \<Rightarrow> connection \<Rightarrow> (handler_t \<times> check_bufs \<times> connection) option" where
  "mod_alias_physical_handler ctx st b c = (case phys_path (phys c) of
       None \<Rightarrow> Some (HANDLER_GO_ON, b, c)
     | Some p \<Rightarrow> do {
         (al, b, c) \<leftarrow> mod_alias_patch_connection ctx st b c;
         base \<leftarrow> phys_basedir (phys c);
         if base = [] \<or> length p < length base - 1 then None
         else Some (case alias_match (cf_force_lowercase (cconf c)) (drop (length base - 1) p) al of
             None \<Rightarrow> (HANDLER_GO_ON, b, c)
           | Some (v, rest) \<Rightarrow> (HANDLER_GO_ON, b\<lparr>tmp_buf := Some (bval v @ cstr rest)\<rparr>,
               c\<lparr>phys := (phys c)\<lparr>phys_basedir := v, phys_path := Some (bval v @ cstr rest)\<rparr>\<rparr>)) })"

text \<open>The names of the setting are tried in their order; one that starts with a slash is looked for below the document root.\<close>

fun index_names :: "(char list \<Rightarrow> stat_entry + errno) \<Rightarrow> bstr list \<Rightarrow> connection \<Rightarrow> (handler_t \<times> connection) option" where
  "index_names st [] c = Some (HANDLER_GO_ON, c)"
| "index_names st (None # es) c = None"
| "index_names st (Some e # es) c = (
     let t = bappend (if take 1 e = ''/'' then phys_doc_root (phys c) else phys_path (phys c)) (Some e) in
     case st (cstr (bval t)) of
       Inl _ \<Rightarrow> Some (HANDLER_GO_ON, (set_phys_path t c)\<lparr>conuri := (conuri c)\<lparr>uri_path := bappend (uri_path (conuri c)) (Some e)\<rparr>\<rparr>)
     | Inr er \<Rightarrow>
         if er = EACCES then Some (HANDLER_FINISHED, set_phys_path None (c\<lparr>http_status := 403\<rparr>))
         else if er \<noteq> ENOENT \<and> er \<noteq> ENOTDIR then Some (HANDLER_FINISHED, set_phys_path None (c\<lparr>http_status := 500\<rparr>))
         else index_names st es c)"

definition mod_indexfile_subrequest ::
  "prepare_env \<Rightarrow> data_config list \<Rightarrow> bstr list list \<Rightarrow> check_bufs \<Rightarrow> connection \<Rightarrow> (handler_t \<times> check_bufs \<times> connection) option" where
  "mod_indexfile_subrequest env ctx st b c =
     (if mode c \<noteq> 0 then Some (HANDLER_GO_ON, b, c)
      else case uri_path (conuri c) of
        None \<Rightarrow> Some (HANDLER_GO_ON, b, c)
      | Some p \<Rightarrow>
          if p = [] then None
          else if List.last p \<noteq> CHR ''/'' then Some (HANDLER_GO_ON, b, c)
          else do {
            (names, b, c) \<leftarrow> mod_indexfile_patch_connection ctx st b c;
            (r, c) \<leftarrow> index_names (pe_stat env) names c;
            Some (r, b, c) })"

section \<open>The setting comes from the last block\<close>

definition chosen_setting :: "data_config list \<Rightarrow> 'a list \<Rightarrow> char list list \<Rightarrow> connection \<Rightarrow> 'a" where
  "chosen_setting ctx st keys c =
     foldl (\<lambda>s i. if applies ctx (rule_true ctx c) i \<and> list_ex (\<lambda>key. key \<in> set keys) (dc_keys (ctx ! i)) then st ! i else s)
       (st ! 0) [1..<length ctx]"

text \<open>The conditions can be decided, and what is cached of them is right.\<close>

definition decided :: "data_config list \<Rightarrow> 'a list \<Rightarrow> connection \<Rightarrow> bool" where
  "decided ctx st c \<longleftrightarrow> tree_ok ctx \<and> decidable ctx c \<and> cache_ok ctx (rule_true ctx c) c \<and> st \<noteq> [] \<and> length ctx \<le> length st"

lemma module_blocks_choice:
  assumes "tree_ok ctx" and "decidable ctx c0" and "length ctx \<le> length st"
  shows "set is \<subseteq> {1..<length ctx} \<Longrightarrow> cache_ok ctx (rule_true ctx c0) c \<Longrightarrow> same_request c0 c \<Longrightarrow>
    \<exists>b' c'. module_blocks ctx st keys is s b c =
      Some (foldl (\<lambda>s i. if applies ctx (rule_true ctx c0) i \<and> list_ex (\<lambda>key. key \<in> set keys) (dc_keys (ctx ! i)) then st ! i else s) s is, b', c') \<and>
      same_request c0 c'"
proof (induction "is" arbitrary: s b c)
  case (Cons i "is")
  let ?rule = "rule_true ctx c0"
  have "alike c0 c" using alike_trans [OF alike_refl Cons.prems(3)] .
  with cached_answers [OF assms(1,2), of i "i + 1" c b] Cons.prems obtain b1 c1 where
    c1: "config_check_cond_cached (i + 1) ctx i b c = Some (truth (applies ctx ?rule i), b1, c1)" "cache_ok ctx ?rule c1" "same_request c c1" by auto
  from c1(1) have m: "config_check_cond ctx i b c = Some (applies ctx ?rule i, b1, c1)" by (simp add: config_check_cond_def)
  from same_request_trans [OF Cons.prems(3) c1(3)] have like: "same_request c0 c1" .
  let ?s = "if applies ctx ?rule i \<and> list_ex (\<lambda>key. key \<in> set keys) (dc_keys (ctx ! i)) then st ! i else s"
  from Cons.IH [OF _ c1(2) like, of ?s b1] Cons.prems(1) obtain b' c' where
    "module_blocks ctx st keys is ?s b1 c1 =
      Some (foldl (\<lambda>s i. if applies ctx ?rule i \<and> list_ex (\<lambda>key. key \<in> set keys) (dc_keys (ctx ! i)) then st ! i else s) ?s is, b', c')"
    "same_request c0 c'" by auto
  with m Cons.prems(1) assms(3) show ?case by auto
qed auto

lemma module_setting_chosen:
  assumes "decided ctx st c"
  shows "\<exists>b' f. module_setting ctx st keys b c = Some (chosen_setting ctx st keys c, b', c\<lparr>cond_cache := f\<rparr>)"
proof -
  have d: "tree_ok ctx" "decidable ctx c" "cache_ok ctx (rule_true ctx c) c" "st \<noteq> []" "length ctx \<le> length st"
    using assms unfolding decided_def by blast+
  have "set [1..<length ctx] \<subseteq> {1..<length ctx}" by simp
  from module_blocks_choice [OF d(1,2,5) this d(3) same_request_refl, of keys "st ! 0" b] obtain b' c' where
    m: "module_blocks ctx st keys [1..<length ctx] (st ! 0) b c = Some (chosen_setting ctx st keys c, b', c')" and s: "same_request c c'"
    unfolding chosen_setting_def by blast
  from s obtain f where "c' = c\<lparr>cond_cache := f\<rparr>" unfolding same_request_def by blast
  with m d(4) show ?thesis unfolding module_setting_def by auto
qed

lemmas module_patches = mod_access_patch_connection_def mod_alias_patch_connection_def mod_indexfile_patch_connection_def

section \<open>Ends and prefixes of a path\<close>

lemma strn_whole: "NUL \<notin> set s \<Longrightarrow> NUL \<notin> set t \<Longrightarrow> length t \<le> n \<Longrightarrow> strn_equal lower s t n \<longleftrightarrow> fold_case lower (take n s) = fold_case lower t"
  by (simp add: strn_equal_def)

lemma fold_case_append [simp]: "fold_case lower (s @ t) = fold_case lower s @ fold_case lower t" "length (fold_case lower s) = length s"
  by (simp_all add: fold_case_def)

lemma fold_case_last: "s \<noteq> [] \<Longrightarrow> List.last (fold_case lower s) = CHR ''/'' \<longleftrightarrow> List.last s = CHR ''/''"
  using to_lower_special(1) by (simp add: fold_case_def last_map)

lemma fold_case_ends:
  "(\<exists>x. fold_case lower p = x @ fold_case lower e) \<longleftrightarrow>
     length e \<le> length p \<and> fold_case lower (drop (length p - length e) p) = fold_case lower e"
proof
  assume "\<exists>x. fold_case lower p = x @ fold_case lower e"
  then obtain x where x: "fold_case lower p = x @ fold_case lower e" ..
  then have "length p = length x + length e" by (metis fold_case_append(2) length_append)
  moreover have "drop n (fold_case lower p) = fold_case lower (drop n p)" for n by (simp add: fold_case_def drop_map)
  ultimately show "length e \<le> length p \<and> fold_case lower (drop (length p - length e) p) = fold_case lower e"
    using x by (metis add_diff_cancel_right' append_eq_conv_conj le_add2)
next
  assume e: "length e \<le> length p \<and> fold_case lower (drop (length p - length e) p) = fold_case lower e"
  have "fold_case lower p = fold_case lower (take (length p - length e) p) @ fold_case lower (drop (length p - length e) p)"
    by (simp flip: fold_case_append(1))
  with e show "\<exists>x. fold_case lower p = x @ fold_case lower e" by metis
qed

lemma access_denied_iff:
  assumes "NUL \<notin> set p" and "\<forall>e. Some e \<in> set es \<longrightarrow> NUL \<notin> set e"
  shows "access_denied lower p es \<longleftrightarrow> (\<exists>e x. Some e \<in> set es \<and> fold_case lower p = x @ fold_case lower e)"
  using assms(2)
proof (induction es)
  case (Cons o_e es)
  then have ih: "access_denied lower p es \<longleftrightarrow> (\<exists>e x. Some e \<in> set es \<and> fold_case lower p = x @ fold_case lower e)" by simp
  show ?case
  proof (cases o_e)
    case (Some e)
    have nul: "NUL \<notin> set (drop n p)" for n using assms(1) in_set_dropD by metis
    have "strn_equal lower (drop (length p - length e) p) e (length e) \<longleftrightarrow> fold_case lower (drop (length p - length e) p) = fold_case lower e"
      if "length e \<le> length p"
      using strn_whole [OF nul, of e "length e" lower] Cons.prems Some that by simp
    then have "access_denied lower p (Some e # es) \<longleftrightarrow> (\<exists>x. fold_case lower p = x @ fold_case lower e) \<or> access_denied lower p es"
      unfolding fold_case_ends by auto
    with ih Some show ?thesis by (metis list.set_intros(1) list.set_intros(2) option.inject set_ConsD)
  qed (use ih in simp)
qed simp

text \<open>What is left of a clean path behind a slash is a clean path.\<close>

lemma behind_char: "ch \<notin> set s \<Longrightarrow> s @ u = y @ ch # r \<Longrightarrow> \<exists>z. u = z @ ch # r"
proof (induction s arbitrary: y)
  case (Cons a s)
  from Cons.prems obtain y' where "y = a # y'" by (cases y) auto
  with Cons show ?case by auto
qed auto

lemma rest_of_clean_path:
  assumes "list_all plain_segment segs" and "render_path segs @ (if dir then ''/'' else '''') = x @ CHR ''/'' # rest"
  shows "\<exists>segs' dir'. list_all plain_segment segs' \<and> CHR ''/'' # rest = render_path segs' @ (if dir' then ''/'' else '''')"
  using assms
proof (induction segs arbitrary: x)
  case Nil
  then have "rest = []" by (cases x) (auto simp: render_path_def split: if_split_asm)
  then show ?case by (intro exI [of _ "[]"] exI [of _ True]) (simp add: render_path_def)
next
  case (Cons s segs)
  show ?case
  proof (cases x)
    case Nil
    with Cons.prems show ?thesis by (intro exI [of _ "s # segs"] exI [of _ dir]) simp
  next
    case (Cons a y)
    let ?u = "render_path segs @ (if dir then ''/'' else '''')"
    from Cons.prems(2) Cons have "tl (CHR ''/'' # (s @ ?u)) = tl (a # (y @ CHR ''/'' # rest))"
      by (simp only: render_path_def list.map concat.simps append.simps append.assoc)
    then have e: "s @ ?u = y @ CHR ''/'' # rest" by (simp only: list.sel)
    have "CHR ''/'' \<notin> set s" using Cons.prems(1) by (simp add: plain_segment_def)
    from behind_char [OF this e] obtain z where z: "?u = z @ CHR ''/'' # rest" by blast
    have "list_all plain_segment segs" using Cons.prems(1) by simp
    from Cons.IH [OF this z] show ?thesis .
  qed
qed

lemma alias_match_slash:
  assumes "alias_match lower u es = Some (v, rest)" and "NUL \<notin> set u"
    and "\<forall>(k, v) \<in> set es. \<forall>k'. k = Some k' \<longrightarrow> NUL \<notin> set k' \<and> k' \<noteq> [] \<and> List.last k' = CHR ''/''"
  shows "\<exists>k x. (k, v) \<in> set es \<and> u = x @ CHR ''/'' # rest"
  using assms(1,3)
proof (induction es)
  case (Cons e es)
  obtain k w where e: "e = (k, w)" by fastforce
  show ?case
  proof (cases "\<exists>k'. k = Some k' \<and> length k' \<le> length u \<and> strn_equal lower u k' (length k')")
    case True
    then obtain k' where k: "k = Some k'" "length k' \<le> length u" "strn_equal lower u k' (length k')" by blast
    with Cons.prems e have r: "v = w" "rest = drop (length k') u" "NUL \<notin> set k'" "k' \<noteq> []" "List.last k' = CHR ''/''" by auto
    from k(3) strn_whole [OF assms(2) r(3), of "length k'" lower] have f: "fold_case lower (take (length k') u) = fold_case lower k'" by simp
    have ne: "take (length k') u \<noteq> []" using k(2) r(4) by (cases u) auto
    have "List.last (take (length k') u) = CHR ''/''"
      using fold_case_last [OF ne, of lower] fold_case_last [OF r(4), of lower] r(5) unfolding f by blast
    then have "take (length k') u = butlast (take (length k') u) @ [CHR ''/'']" using ne append_butlast_last_id by metis
    then have "u = butlast (take (length k') u) @ CHR ''/'' # rest" using r(2) by (metis append.assoc append_Cons append_Nil append_take_drop_id)
    with r(1) e show ?thesis by auto
  next
    case False
    with Cons.prems(1) e have "alias_match lower u es = Some (v, rest)" by (cases k) (auto split: if_split_asm)
    with Cons.IH Cons.prems(2) show ?thesis by auto
  qed
qed simp

section \<open>Properties\<close>

text \<open>C10: A request is refused by \<open>mod_access\<close> exactly if its path ends in one of the names of the setting the last block that applies has
  chosen, in any case if names are folded.\<close>

theorem access_denied_by_ending:
  assumes "decided ctx st c" and "uri_path (conuri c) = Some p" and "NUL \<notin> set p"
    and "\<forall>e. Some e \<in> set (chosen_setting ctx st [''url.access-deny''] c) \<longrightarrow> NUL \<notin> set e"
  shows "\<exists>r b' c'. mod_access_uri_handler ctx st b c = Some (r, b', c') \<and> conuri c' = conuri c \<and> phys c' = phys c \<and>
    (if \<exists>e x. Some e \<in> set (chosen_setting ctx st [''url.access-deny''] c) \<and>
          fold_case (cf_force_lowercase (cconf c)) p = x @ fold_case (cf_force_lowercase (cconf c)) e
     then r = HANDLER_FINISHED \<and> http_status c' = 403 \<and> mode c' = 0
     else r = HANDLER_GO_ON \<and> http_status c' = http_status c)"
proof -
  from module_setting_chosen [OF assms(1), of "[''url.access-deny'']" b] obtain b' f where
    "module_setting ctx st [''url.access-deny''] b c = Some (chosen_setting ctx st [''url.access-deny''] c, b', c\<lparr>cond_cache := f\<rparr>)" by blast
  with assms(2) show ?thesis
    unfolding access_denied_iff [OF assms(3,4), of "cf_force_lowercase (cconf c)", symmetric]
    by (simp add: mod_access_uri_handler_def module_patches)
qed


text \<open>C31: An alias without a slash at its end can be left: the segment that begins with the name of the alias and goes on with two dots is
  an ordinary one, and the file looked for is the parent directory of the target and what follows.\<close>

theorem alias_without_slash_climbs:
  assumes "decided ctx st c" and "phys_basedir (phys c) = Some (base @ ''/'')" and "phys_path (phys c) = Some (base @ ''/'' @ name @ ''../'' @ rest)"
    and "chosen_setting ctx st [''alias.url''] c = [(Some (CHR ''/'' # name), Some target)]"
    and "name \<noteq> []" and "CHR ''/'' \<notin> set name" and "NUL \<notin> set (name @ rest)"
  shows "plain_segment (name @ ''..'') \<and>
    (\<exists>b' c'. mod_alias_physical_handler ctx st b c = Some (HANDLER_GO_ON, b', c') \<and> phys_path (phys c') = Some (target @ ''../'' @ rest))"
proof
  show "plain_segment (name @ ''..'')" using assms(5,6) by (cases name) (auto simp: plain_segment_def)
  let ?u = "CHR ''/'' # name @ ''../'' @ rest"
  from module_setting_chosen [OF assms(1), of "[''alias.url'']" b] obtain b' f where
    m: "module_setting ctx st [''alias.url''] b c = Some ([(Some (CHR ''/'' # name), Some target)], b', c\<lparr>cond_cache := f\<rparr>)"
    using assms(4) by auto
  have nul: "NUL \<notin> set ?u" "NUL \<notin> set (CHR ''/'' # name)" using assms(7) by auto
  have "strn_equal l ?u (CHR ''/'' # name) (length (CHR ''/'' # name))" for l
    using strn_whole [OF nul, of "length (CHR ''/'' # name)" l] by simp
  then have "alias_match l ?u [(Some (CHR ''/'' # name), Some target)] = Some (Some target, ''../'' @ rest)" for l by simp
  moreover have "cstr (''../'' @ rest) = ''../'' @ rest" using assms(7) by simp
  ultimately show "\<exists>b' c'. mod_alias_physical_handler ctx st b c = Some (HANDLER_GO_ON, b', c') \<and> phys_path (phys c') = Some (target @ ''../'' @ rest)"
    using m assms(2,3) by (simp add: mod_alias_physical_handler_def module_patches)
qed

section \<open>The first index file\<close>

text \<open>C32: For a directory the first name of the setting that exists is taken, for the file and for the path of the request, if the names before
  it do not exist.\<close>

theorem index_file_is_first_found:
  assumes "decided ctx st c" and "mode c = 0" and "uri_path (conuri c) = Some (p @ ''/'')" and "phys_path (phys c) = Some dir"
    and "chosen_setting ctx st [''server.indexfiles'', ''index-file.names''] c = map Some (missing @ name # others)"
    and "\<forall>n \<in> set (missing @ [name]). n \<noteq> [] \<and> hd n \<noteq> CHR ''/'' \<and> NUL \<notin> set (dir @ n)"
    and "\<forall>n \<in> set missing. pe_stat env (dir @ n) = Inr ENOENT" and "pe_stat env (dir @ name) = Inl e"
  shows "\<exists>b' c'. mod_indexfile_subrequest env ctx st b c = Some (HANDLER_GO_ON, b', c') \<and>
    phys_path (phys c') = Some (dir @ name) \<and> uri_path (conuri c') = Some (p @ ''/'' @ name)"
proof -
  from module_setting_chosen [OF assms(1), of "[''server.indexfiles'', ''index-file.names'']" b] obtain b' f where
    m: "module_setting ctx st [''server.indexfiles'', ''index-file.names''] b c = Some (map Some (missing @ name # others), b', c\<lparr>cond_cache := f\<rparr>)"
    using assms(5) by auto
  have "\<exists>c'. index_names (pe_stat env) (map Some (missing @ name # others)) d = Some (HANDLER_GO_ON, c') \<and>
      phys_path (phys c') = Some (dir @ name) \<and> uri_path (conuri c') = Some (p @ ''/'' @ name)"
    if "phys_path (phys d) = Some dir" "uri_path (conuri d) = Some (p @ ''/'')" for d
    using assms(6,7)
  proof (induction missing)
    case Nil
    then have "name \<noteq> []" "take 1 name \<noteq> ''/''" "NUL \<notin> set (dir @ name)" by (cases name; auto)+
    with that assms(8) show ?case by (simp add: bappend_def set_phys_path_def Let_def)
  next
    case (Cons n ns)
    then have "n \<noteq> []" "take 1 n \<noteq> ''/''" "NUL \<notin> set (dir @ n)" "pe_stat env (dir @ n) = Inr ENOENT" by (cases n; auto)+
    then have "index_names (pe_stat env) (map Some ((n # ns) @ name # others)) d = index_names (pe_stat env) (map Some (ns @ name # others)) d"
      using that(1) by (simp add: bappend_def Let_def)
    with Cons show ?case by simp
  qed
  from this [of "c\<lparr>cond_cache := f\<rparr>"] m assms(2-4) show ?thesis
    by (auto simp: mod_indexfile_subrequest_def module_patches)
qed

section \<open>Settings of a small server\<close>

definition moved :: "char list \<Rightarrow> connection" where
  "moved u = sample_client\<lparr>conuri := (conuri sample_client)\<lparr>uri_path := Some (CHR ''/'' # u)\<rparr>,
     phys := \<lparr>phys_path = Some (''/srv/'' @ u), phys_basedir = Some ''/srv/'', phys_doc_root = Some ''/srv'', phys_rel_path = None, phys_etag = None\<rparr>\<rparr>"

lemma moved_decided:
  assumes "decidable sample_blocks (moved u)"
  shows "decided sample_blocks (replicate 4 s) (moved u)"
proof -
  have "\<forall>i < length sample_blocks. cached (moved u) i = COND_RESULT_UNSET"
    by (simp add: moved_def cached_def sample_client_def connection_init_def con.defs cond_cache_init_def Let_def)
  then have "cache_ok sample_blocks (rule_true sample_blocks (moved u)) (moved u)" by (rule cache_ok_unset)
  then show ?thesis using sample_blocks_ok assms by (simp add: decided_def sample_blocks_def)
qed

lemma moved_decidable:
  "decidable sample_blocks (moved ''a.php~'')" "decidable sample_blocks (moved ''icons/a.png'')"
  "decidable sample_blocks (moved ''i../secret'')" "decidable sample_blocks (moved '''')"
  by code_simp+

lemma same_everywhere: "chosen_setting ctx (replicate 4 s) keys c = s" if "length ctx = 4"
proof -
  have "foldl (\<lambda>t i. if P i then replicate 4 s ! i else t) s is = s" if "set is \<subseteq> {..<4}" for P "is"
    using that by (induction "is") auto
  from this [of "[1..<4]" "\<lambda>i. applies ctx (rule_true ctx c) i \<and> list_ex (\<lambda>key. key \<in> set keys) (dc_keys (ctx ! i))"] that show ?thesis
    unfolding chosen_setting_def that by (simp add: subset_iff)
qed

lemma four_blocks: "length sample_blocks = 4"
  by (simp add: sample_blocks_def)

theorem access_denied_by_ending_witness:
  "\<exists>b' c'. mod_access_uri_handler sample_blocks (replicate 4 [None, Some ''~'']) \<lparr>cond_check_buf = None, tmp_buf = None\<rparr> (moved ''a.php~'') =
     Some (HANDLER_FINISHED, b', c') \<and> http_status c' = 403"
proof -
  have u: "uri_path (conuri (moved ''a.php~'')) = Some ''/a.php~''" by (simp add: moved_def)
  have s: "chosen_setting sample_blocks (replicate 4 [None, Some ''~'']) [''url.access-deny''] (moved ''a.php~'') = [None, Some ''~'']"
    by (rule same_everywhere [OF four_blocks])
  have "\<exists>x. fold_case l ''/a.php~'' = x @ fold_case l ''~''" for l
    by (rule exI [of _ "fold_case l ''/a.php''"]) (simp add: fold_case_def)
  with access_denied_by_ending [OF moved_decided [OF moved_decidable(1)] u, of "[None, Some ''~'']", unfolded s] show ?thesis by fastforce
qed


theorem alias_without_slash_climbs_witness:
  "\<exists>b' c'. mod_alias_physical_handler sample_blocks (replicate 4 [(Some ''/i'', Some ''/usr/icons/'')]) \<lparr>cond_check_buf = None, tmp_buf = None\<rparr>
     (moved ''i../secret'') = Some (HANDLER_GO_ON, b', c') \<and> phys_path (phys c') = Some ''/usr/icons/../secret''"
proof -
  let ?c = "moved ''i../secret''"
  have p: "phys_basedir (phys ?c) = Some (''/srv'' @ ''/'')" "phys_path (phys ?c) = Some (''/srv'' @ ''/'' @ ''i'' @ ''../'' @ ''secret'')" by (simp_all add: moved_def)
  have s: "chosen_setting sample_blocks (replicate 4 [(Some ''/i'', Some ''/usr/icons/'')]) [''alias.url''] ?c = [(Some (CHR ''/'' # ''i''), Some ''/usr/icons/'')]"
    by (rule same_everywhere [OF four_blocks])
  from alias_without_slash_climbs [OF moved_decided [OF moved_decidable(3)] p s] show ?thesis by simp
qed

theorem index_file_is_first_found_witness:
  "\<exists>b' c'. mod_indexfile_subrequest (one_file\<lparr>pe_stat := (\<lambda>p. if p = ''/srv/index.html'' then Inl \<lparr>se_isdir = False, se_isreg = True, se_symlink = False\<rparr> else Inr ENOENT)\<rparr>)
     sample_blocks (replicate 4 [Some ''index.php'', Some ''index.html'']) \<lparr>cond_check_buf = None, tmp_buf = None\<rparr> (moved '''') = Some (HANDLER_GO_ON, b', c') \<and>
   phys_path (phys c') = Some ''/srv/index.html''"
proof -
  let ?c = "moved ''''" and ?env = "one_file\<lparr>pe_stat := (\<lambda>p. if p = ''/srv/index.html'' then Inl \<lparr>se_isdir = False, se_isreg = True, se_symlink = False\<rparr> else Inr ENOENT)\<rparr>"
  have p: "mode ?c = 0" "uri_path (conuri ?c) = Some ('''' @ ''/'')" "phys_path (phys ?c) = Some ''/srv/''"
    by (simp_all add: moved_def sample_client_def connection_init_def con.defs Let_def)
  have s: "chosen_setting sample_blocks (replicate 4 [Some ''index.php'', Some ''index.html'']) [''server.indexfiles'', ''index-file.names''] ?c =
      map Some ([''index.php''] @ ''index.html'' # [])"
    by (simp add: same_everywhere [OF four_blocks])
  from index_file_is_first_found [OF moved_decided [OF moved_decidable(4)] p s, where env = ?env and e = "\<lparr>se_isdir = False, se_isreg = True, se_symlink = False\<rparr>" and b = "\<lparr>cond_check_buf = None, tmp_buf = None\<rparr>"]
  show ?thesis by auto
qed

end
