(* ===== verification/Connection_Machine.thy ===== *)
theory Connection_Machine imports Response Network_Write begin

text \<open>
  The state machine of a connection: \<open>connection_state_machine\<close>, \<open>connection_handle_fdevent\<close> and \<open>connection_handle_write\<close> of
  \<open>src/src/connections.c\<close>. A step of the machine is one round of its \<open>while\<close> loop; the answers of the system in a round are a
  parameter, and the bytes that leave through the socket are returned. The machine is shown to walk along the edges of the
  diagram in \<open>src/doc/state.dot\<close>, with two edges more, and to leave the descriptor waiting for what its state needs.
\<close>

section \<open>Steps\<close>

definition HTTP_LINGER_TIMEOUT :: int where "HTTP_LINGER_TIMEOUT = 5"

text \<open>The system in one round: \<open>stat\<close>, the clock's text, the socket in both directions, \<open>read\<close> on a closing connection and
  \<open>shutdown\<close>.\<close>

record machine_env =
  me_prepare :: prepare_env
  me_response :: response_env
  me_net :: net_backend
  me_read :: read_env
  me_drain :: read_result
  me_shutdown :: int

definition connection_handle_write :: "net_backend \<Rightarrow> nat \<Rightarrow> server \<Rightarrow> (int \<times> server \<times> char list) option" where
  "connection_handle_write net i srv = do {
     (r, srv, s) \<leftarrow> network_write_chunkqueue net i srv;
     c \<leftarrow> con_heap srv i;
     srv \<leftarrow> (if r = 0 then
               (if file_finished c then job_append i (put_con i (connection_set_state c CON_STATE_RESPONSE_END) srv) else Some srv)
             else if r = -1 \<or> r = -2 then job_append i (put_con i (connection_set_state c CON_STATE_ERROR) srv)
             else if r = 1 then Some (put_con i (c\<lparr>is_writable := False\<rparr>) srv)
             else Some srv);
     Some (0, srv, s) }"

text \<open>Writing if there is something to write and the socket takes it.\<close>

definition try_write :: "net_backend \<Rightarrow> nat \<Rightarrow> server \<Rightarrow> (server \<times> char list) option" where
  "try_write net i srv = do {
     c \<leftarrow> con_heap srv i;
     if \<not> chunkqueue_is_empty (write_queue c) \<and> is_writable c
     then do {
       (r, srv, s) \<leftarrow> connection_handle_write net i srv;
       c \<leftarrow> con_heap srv i;
       Some (if r = -1 then put_con i (connection_set_state c CON_STATE_ERROR) srv
             else if state c = CON_STATE_WRITE then put_con i (c\<lparr>write_request_ts := cur_ts srv\<rparr>) srv else srv, s) }
     else Some (srv, []) }"

text \<open>What is left to read on a closing connection; at its end the linger time is over.\<close>

definition drain :: "read_result \<Rightarrow> server \<Rightarrow> connection \<Rightarrow> connection" where
  "drain r srv c = (case r of
       Read_Data s \<Rightarrow> if s = [] then c\<lparr>close_timeout_ts := cur_ts srv - (HTTP_LINGER_TIMEOUT + 1)\<rparr> else c
     | Read_Error e \<Rightarrow> if e \<noteq> EAGAIN \<and> e \<noteq> EINTR then c\<lparr>close_timeout_ts := cur_ts srv - (HTTP_LINGER_TIMEOUT + 1)\<rparr> else c)"

text \<open>Half-closing, or closing if that fails.\<close>

definition close_down :: "int \<Rightarrow> nat \<Rightarrow> server \<Rightarrow> server option" where
  "close_down res i srv = do {
     c \<leftarrow> con_heap srv i;
     let srv = srv\<lparr>server_log := server_log srv @ [Shutdown_socket (fd c)]\<rparr>;
     if res = 0
     then Some (put_con i (connection_set_state (c\<lparr>close_timeout_ts := cur_ts srv\<rparr>) CON_STATE_CLOSE) srv)
     else connection_close i srv }"

definition step_request_start :: "server \<Rightarrow> connection \<Rightarrow> connection" where
  "step_request_start srv c =
     connection_set_state (c\<lparr>request_start := cur_ts srv, read_idle_ts := cur_ts srv, request_count := request_count c + 1,
       loops_per_request := 0\<rparr>) CON_STATE_READ"

definition step_request_end :: "connection \<Rightarrow> connection option" where
  "step_request_end c = do {
     let c = c\<lparr>conuri := (conuri c)\<lparr>uri_authority := None, uri_path := None, uri_query := None\<rparr>, req := (req c)\<lparr>orig_uri := None\<rparr>\<rparr>;
     (r, c) \<leftarrow> on_con (http_request_parse (cf_request (cconf c))) c;
     Some (connection_set_state c (if r \<noteq> 0 then CON_STATE_READ_POST else CON_STATE_HANDLE_REQUEST)) }"

text \<open>The decision is made: the error handler is called once for 403 and 404.\<close>

definition request_decided :: "connection \<Rightarrow> int \<times> connection" where
  "request_decided c =
     (if mode c = 0 \<and> http_status c \<in> {403, 404} \<and> \<not> in_error_handler c \<and> (cf_error_handler (cconf c) \<noteq> None \<or> con_error_handler c \<noteq> None)
      then (-1, connection_set_state (set_phys_path None
        (c\<lparr>error_handler_saved_status := http_status c, http_status := 0, in_error_handler := True,
           req := (req c)\<lparr>uri := (if con_error_handler c = None then cf_error_handler (cconf c) else con_error_handler c)\<rparr>\<rparr>)) CON_STATE_HANDLE_REQUEST)
      else (
        let c = (if mode c = 0 \<and> http_status c \<in> {403, 404} \<and> in_error_handler c then c\<lparr>http_status := error_handler_saved_status c\<rparr> else c);
            c = (if http_status c = 0 then c\<lparr>http_status := 200\<rparr> else c)
        in (0, connection_set_state c CON_STATE_RESPONSE_START)))"

definition step_handle_request :: "plugin_slots \<Rightarrow> machine_env \<Rightarrow> nat \<Rightarrow> server \<Rightarrow> connection \<Rightarrow> (int \<times> server) option" where
  "step_handle_request sl env i srv c = do {
     (r, srv, c) \<leftarrow> http_response_prepare sl (me_prepare env) srv c;
     case r of
       HANDLER_FINISHED \<Rightarrow> (let (d, c) = request_decided c in Some (d, put_con i c srv))
     | HANDLER_WAIT_FOR_FD \<Rightarrow> do {
         srv \<leftarrow> fdwait_append i ((put_con i (connection_set_state c CON_STATE_HANDLE_REQUEST) srv)\<lparr>want_fds := want_fds srv + 1\<rparr>);
         Some (0, srv) }
     | HANDLER_COMEBACK \<Rightarrow> Some (-1, put_con i (connection_set_state c CON_STATE_HANDLE_REQUEST) srv)
     | HANDLER_WAIT_FOR_EVENT \<Rightarrow> Some (0, put_con i (connection_set_state c CON_STATE_HANDLE_REQUEST) srv)
     | HANDLER_ERROR \<Rightarrow> Some (0, put_con i (connection_set_state c CON_STATE_ERROR) srv)
     | _ \<Rightarrow> Some (0, put_con i c srv) }"

definition reset_con :: "plugin_slots \<Rightarrow> nat \<Rightarrow> server \<Rightarrow> server option" where
  "reset_con sl i srv = do {
     c \<leftarrow> con_heap srv i;
     c \<leftarrow> connection_reset sl (base_conf srv) c;
     Some (put_con i c srv) }"

definition step_response_end :: "plugin_slots \<Rightarrow> machine_env \<Rightarrow> nat \<Rightarrow> server \<Rightarrow> connection \<Rightarrow> server option" where
  "step_response_end sl env i srv c = do {
     (_, c) \<leftarrow> plugins_call (slot_request_done sl) c;
     let srv = srv\<lparr>con_written := con_written srv + 1\<rparr>;
     srv \<leftarrow> (if keep_alive c \<noteq> 0 then Some (put_con i (connection_set_state c CON_STATE_REQUEST_START) srv)
             else do {
               (_, c) \<leftarrow> plugins_call (slot_connection_close sl) c;
               srv \<leftarrow> close_down (me_shutdown env) i (put_con i c srv);
               Some (srv\<lparr>con_closed := con_closed srv + 1\<rparr>) });
     reset_con sl i srv }"

definition step_error :: "plugin_slots \<Rightarrow> machine_env \<Rightarrow> nat \<Rightarrow> server \<Rightarrow> connection \<Rightarrow> server option" where
  "step_error sl env i srv c = do {
     c \<leftarrow> (if http_status c \<noteq> 0 then map_option snd (plugins_call (slot_request_done sl) c) else Some c);
     c \<leftarrow> (if mode c \<noteq> 0 then map_option snd (plugins_call (slot_connection_close sl) c) else Some c);
     srv \<leftarrow> reset_con sl i (put_con i c srv);
     srv \<leftarrow> close_down (me_shutdown env) i srv;
     c \<leftarrow> con_heap srv i;
     Some ((put_con i (c\<lparr>keep_alive := 0\<rparr>) srv)\<lparr>con_closed := con_closed srv + 1\<rparr>) }"

definition step_close :: "machine_env \<Rightarrow> nat \<Rightarrow> server \<Rightarrow> connection \<Rightarrow> server option" where
  "step_close env i srv c = (
     let c = drain (me_drain env) srv c; srv = put_con i c srv in
     if cur_ts srv - close_timeout_ts c > HTTP_LINGER_TIMEOUT then connection_close i srv else Some srv)"

text \<open>One round of the loop: \<open>done\<close> as set by the state, the server and the bytes sent.\<close>

definition machine_step :: "plugin_slots \<Rightarrow> machine_env \<Rightarrow> nat \<Rightarrow> server \<Rightarrow> (int \<times> server \<times> char list) option" where
  "machine_step sl env i srv = do {
     c \<leftarrow> con_heap srv i;
     case state c of
       CON_STATE_REQUEST_START \<Rightarrow> Some (0, put_con i (step_request_start srv c) srv, [])
     | CON_STATE_REQUEST_END \<Rightarrow> do { c \<leftarrow> step_request_end c; Some (0, put_con i c srv, []) }
     | CON_STATE_HANDLE_REQUEST \<Rightarrow> do { (d, srv) \<leftarrow> step_handle_request sl env i srv c; Some (d, srv, []) }
     | CON_STATE_RESPONSE_START \<Rightarrow> do {
         (srv, c) \<leftarrow> connection_handle_write_prepare (me_response env) srv c;
         Some (0, put_con i (connection_set_state c CON_STATE_WRITE) srv, []) }
     | CON_STATE_RESPONSE_END \<Rightarrow> do { srv \<leftarrow> step_response_end sl env i srv c; Some (0, srv, []) }
     | CON_STATE_CONNECT \<Rightarrow> do {
         q \<leftarrow> chunkqueue_reset (read_queue c);
         Some (0, put_con i (c\<lparr>read_queue := q, request_count := 0\<rparr>) srv, []) }
     | CON_STATE_CLOSE \<Rightarrow> do { srv \<leftarrow> step_close env i srv c; Some (0, srv, []) }
     | CON_STATE_WRITE \<Rightarrow> do { (srv, s) \<leftarrow> try_write (me_net env) i srv; Some (0, srv, s) }
     | CON_STATE_ERROR \<Rightarrow> do { srv \<leftarrow> step_error sl env i srv c; Some (0, srv, []) }
     | _ \<Rightarrow> do { (_, c, _) \<leftarrow> connection_handle_read_state (cur_ts srv) (me_read env) c; Some (0, put_con i c srv, []) } }"

section \<open>The machine\<close>

text \<open>A round may leave the state unchanged only once, unless it asks to come back: nothing bounds the number of comebacks.\<close>

partial_function (option) machine_loop :: "plugin_slots \<Rightarrow> (nat \<Rightarrow> machine_env) \<Rightarrow> nat \<Rightarrow> server \<Rightarrow> (server \<times> char list) option" where
  [code]: "machine_loop sl env i srv =
     Option.bind (con_heap srv i) (\<lambda>c.
     Option.bind (machine_step sl (env 0) i srv) (\<lambda>(d, srv, s).
     Option.bind (con_heap srv i) (\<lambda>c'.
     if d = -1 \<or> state c' \<noteq> state c
     then Option.bind (machine_loop sl (\<lambda>n. env (n + 1)) i srv) (\<lambda>(srv, t). Some (srv, s @ t))
     else Some (srv, s))))"

text \<open>The event the descriptor waits for.\<close>

definition wait_for_event :: "nat \<Rightarrow> server \<Rightarrow> server option" where
  "wait_for_event i srv = do {
     c \<leftarrow> con_heap srv i;
     (n, e) \<leftarrow>
       (if state c \<in> {CON_STATE_READ_POST, CON_STATE_READ, CON_STATE_CLOSE} then fdevent_event_set (ev srv) (fde_ndx c) (fd c) FDEVENT_IN
        else if state c = CON_STATE_WRITE \<and> \<not> chunkqueue_is_empty (write_queue c) \<and> \<not> is_writable c \<and> \<not> traffic_limit_reached c
        then fdevent_event_set (ev srv) (fde_ndx c) (fd c) FDEVENT_OUT
        else fdevent_event_del (ev srv) (fde_ndx c) (fd c));
     Some ((put_con i (c\<lparr>fde_ndx := n\<rparr>) srv)\<lparr>ev := e\<rparr>) }"

definition connection_state_machine :: "plugin_slots \<Rightarrow> (nat \<Rightarrow> machine_env) \<Rightarrow> nat \<Rightarrow> server \<Rightarrow> (server \<times> char list) option" where
  "connection_state_machine sl env i srv = do {
     (srv, s) \<leftarrow> machine_loop sl env i srv;
     srv \<leftarrow> wait_for_event i srv;
     Some (srv, s) }"

section \<open>Events\<close>

text \<open>What the event loop calls when the descriptor has events.\<close>

definition note_events :: "server \<Rightarrow> int \<Rightarrow> connection \<Rightarrow> connection" where
  "note_events srv revents c = (
     let ssl = cf_is_ssl (cconf c); inp = has_event revents FDEVENT_IN; out = has_event revents FDEVENT_OUT;
         c = (if inp \<or> ssl \<and> out then c\<lparr>is_readable := True\<rparr> else c);
         c = (if out \<or> ssl \<and> inp then c\<lparr>is_writable := True\<rparr> else c)
     in if (revents AND NOT (FDEVENT_IN OR FDEVENT_OUT)) = 0 then c
        else if has_event revents FDEVENT_HUP then
          (if state c = CON_STATE_CLOSE then c\<lparr>close_timeout_ts := cur_ts srv - (HTTP_LINGER_TIMEOUT + 1)\<rparr>
           else connection_set_state c CON_STATE_ERROR)
        else if has_event revents FDEVENT_ERR then connection_set_state c CON_STATE_ERROR
        else c)"

definition connection_handle_fdevent :: "machine_env \<Rightarrow> nat \<Rightarrow> int \<Rightarrow> server \<Rightarrow> (handler_t \<times> server \<times> char list) option" where
  "connection_handle_fdevent env i revents srv = do {
     srv \<leftarrow> job_append i srv;
     c \<leftarrow> con_heap srv i;
     let c = note_events srv revents c;
     c \<leftarrow> (if state c \<in> {CON_STATE_READ, CON_STATE_READ_POST}
           then do { (_, c, _) \<leftarrow> connection_handle_read_state (cur_ts srv) (me_read env) c; Some c } else Some c);
     let srv = put_con i c srv;
     (srv, s) \<leftarrow> (if state c = CON_STATE_WRITE then try_write (me_net env) i srv else Some (srv, []));
     c \<leftarrow> con_heap srv i;
     let srv = (if state c = CON_STATE_CLOSE then put_con i (drain (me_drain env) srv c) srv else srv);
     Some (HANDLER_FINISHED, srv, s) }"


section \<open>What the parts of a step leave alone\<close>

text \<open>The fields the state machine itself is responsible for.\<close>

definition core :: "connection \<Rightarrow> connection_state \<times> int \<times> int" where
  "core c = (state c, fd c, fde_ndx c)"

definition quiet :: "server \<Rightarrow> server \<Rightarrow> bool" where
  "quiet srv srv' \<longleftrightarrow> con_heap srv' = con_heap srv \<and> ev srv' = ev srv"

lemma quiet_refl [simp]: "quiet srv srv"
  by (simp add: quiet_def)

lemma quiet_trans: "quiet a b \<Longrightarrow> quiet b c \<Longrightarrow> quiet a c"
  by (simp add: quiet_def)

definition keeps :: "phase \<Rightarrow> bool" where
  "keeps p \<longleftrightarrow> (\<forall>srv c r srv' c'. p srv c = Some (r, srv', c') \<longrightarrow> core c' = core c \<and> quiet srv srv')"

lemma keepsD: "keeps p \<Longrightarrow> p srv c = Some (r, srv', c') \<Longrightarrow> core c' = core c \<and> quiet srv srv'"
  by (simp add: keeps_def)

definition tame :: "plugin_slots \<Rightarrow> bool" where
  "tame sl \<longleftrightarrow> list_all (list_all (leaves core))
     [slot_uri_raw sl, slot_uri_clean sl, slot_docroot sl, slot_physical sl, slot_subrequest_start sl, slot_subrequest sl,
      slot_request_done sl, slot_connection_close sl, slot_connection_reset sl]"

lemma config_only_core: "config_only c d \<Longrightarrow> core d = core c"
  by (auto simp: config_only_def core_def)

lemma patch_connection_quiet: "patch_connection k srv c = Some (srv', c') \<Longrightarrow> core c' = core c \<and> quiet srv srv'"
  using config_only_core [OF patch_connection_config] by (fastforce simp: patch_connection_def bind_Some_iff quiet_def)

lemma patch_all_quiet: "patch_all ks srv c = Some (srv', c') \<Longrightarrow> core c' = core c \<and> quiet srv srv'"
proof (induction ks arbitrary: srv c)
  case (Cons k ks)
  then obtain s1 c1 where s1: "patch_connection k srv c = Some (s1, c1)" "patch_all ks s1 c1 = Some (srv', c')" by (auto simp: bind_Some_iff)
  with patch_connection_quiet [OF s1(1)] Cons.IH [OF s1(2)] quiet_trans show ?case by (metis (no_types))
qed simp

lemma keeps_then: "keeps p \<Longrightarrow> keeps q \<Longrightarrow> keeps (then_phase p q)"
  unfolding keeps_def then_phase_def
  by (auto simp: bind_Some_iff split: if_splits dest: quiet_trans) (metis quiet_trans)+

lemma keeps_ask: "list_all (leaves core) ps \<Longrightarrow> keeps (ask_plugins ps)"
  by (auto simp: keeps_def ask_plugins_def bind_Some_iff dest: plugins_call_leaves)

lemma take_authority_core: "take_authority c = Some d \<Longrightarrow> core d = core c"
  by (auto simp: take_authority_def Let_def bind_Some_iff core_def)

lemma split_uri_core: "split_uri c = Some d \<Longrightarrow> core d = core c"
  by (auto simp: split_uri_def Let_def bind_Some_iff core_def)

lemma keeps_start: "keeps start_phase"
proof -
  have "core (config_setup_connection s (config_cond_cache_reset n c)) = core c" for s n c
    by (simp add: core_def config_setup_connection_def config_cond_cache_reset_def config_cond_cache_reset_item_def)
  then show ?thesis
    by (auto simp: keeps_def start_phase_def Let_def bind_Some_iff simp del: patch_all.simps
        dest!: patch_connection_quiet patch_all_quiet take_authority_core split_uri_core intro: quiet_trans)
qed

lemma clean_path_quiet: "clean_path srv c = Some (srv', c') \<Longrightarrow> core c' = core c \<and> quiet srv srv'"
  by (auto simp: clean_path_def bind_Some_iff core_def quiet_def set_tmp_buf_def split: if_splits)

lemma keeps_clean: "keeps clean_phase"
  by (auto simp: keeps_def clean_phase_def bind_Some_iff core_def simp del: patch_all.simps
      dest!: patch_all_quiet clean_path_quiet intro: quiet_trans)

lemma keeps_options: "keeps options_phase"
  by (auto simp: keeps_def options_phase_def bind_Some_iff core_def set_resp_headers_def split: if_splits)

lemma keeps_docroot: "keeps docroot_phase"
  by (auto simp: keeps_def docroot_phase_def core_def)

lemma keeps_physical: "keeps physical_phase"
  by (auto simp: keeps_def physical_phase_def core_def Let_def)

lemma redirect_core: "http_response_redirect_to_directory c nm port = Some (r, c') \<Longrightarrow> core c' = core c"
  by (auto simp: http_response_redirect_to_directory_def Let_def bind_Some_iff core_def set_resp_headers_def split: sum.splits if_splits)

lemma reject_file_core: "reject_file st c = (r, c') \<Longrightarrow> core c' = core c"
  by (auto simp: reject_file_def core_def set_phys_path_def)

lemma found_file_core: "found_file env e c = Some (r, c') \<Longrightarrow> core c' = core c"
  by (auto simp: found_file_def bind_Some_iff dest: redirect_core reject_file_core split: if_splits)

lemma split_pathinfo_core: "split_pathinfo t k c = Some c' \<Longrightarrow> core c' = core c"
  by (auto simp: split_pathinfo_def Let_def bind_Some_iff core_def split: option.splits if_splits)

lemma search_file_quiet:
  assumes "search_file env srv c = Some (r, srv', c')"
  shows "core c' = core c \<and> quiet srv srv'"
proof -
  from assms obtain s where s: "phys_path (phys c) = Some s" by (auto simp: search_file_def bind_Some_iff)
  obtain path e k where l: "pathinfo_loop (pe_stat env) (base_limit (phys_basedir (phys c))) s None = (path, e, k)" by (metis prod_cases3)
  have q: "quiet srv (set_tmp_buf (Some s) srv)" by (simp add: quiet_def set_tmp_buf_def)
  have p: "core (set_phys_path (Some path) c) = core c" by (simp add: core_def set_phys_path_def)
  have rej: "core (snd (reject_file st c)) = core c" for st c using reject_file_core prod.collapse by metis
  show ?thesis
  proof (cases e)
    case None
    with assms s l q p rej [of 404 "set_phys_path (Some path) c"] show ?thesis
      by (auto simp: search_file_def case_prod_unfold Let_def)
  next
    case (Some st)
    with assms s l q p rej [of 404 "set_phys_path (Some path) c"] rej [of 403 "set_phys_path (Some path) c"] show ?thesis
      by (auto simp: search_file_def case_prod_unfold Let_def bind_Some_iff dest!: split_pathinfo_core split: if_splits)
  qed
qed

lemma keeps_file: "keeps (file_phase env)"
proof (unfold keeps_def, intro allI impI)
  fix srv c r srv' c' assume a: "file_phase env srv c = Some (r, srv', c')"
  then obtain s where s: "phys_path (phys c) = Some s" by (auto simp: file_phase_def bind_Some_iff)
  have rej: "core (snd (reject_file st c)) = core c" for st using reject_file_core prod.collapse by metis
  show "core c' = core c \<and> quiet srv srv'"
  proof (cases "pe_stat env (cstr s)")
    case (Inl e)
    with a s show ?thesis by (auto simp: file_phase_def bind_Some_iff dest: found_file_core)
  next
    case (Inr e)
    show ?thesis
    proof (cases "e = ENOTDIR")
      case True
      with a s Inr search_file_quiet show ?thesis by (simp add: file_phase_def)
    next
      case False
      then have "\<exists>st. file_phase env srv c = (let (r, c) = reject_file st c in Some (r, srv, c))"
        using s Inr by (cases e) (auto simp: file_phase_def)
      with a rej show ?thesis by (auto simp: case_prod_unfold Let_def)
    qed
  qed
qed

lemma keeps_start_subrequest:
  assumes "list_all (leaves core) (slot_subrequest_start sl)"
  shows "keeps (start_subrequest sl)"
proof (unfold keeps_def, intro allI impI)
  fix srv c r srv' c' assume a: "start_subrequest sl srv c = Some (r, srv', c')"
  then obtain r1 c1 where p: "plugins_call (slot_subrequest_start sl) c = Some (r1, c1)"
    by (auto simp: start_subrequest_def bind_Some_iff)
  with a have "srv' = srv" "c' = c1 \<or> c' = c1\<lparr>http_status := (if http_method (req c1) = HTTP_METHOD_OPTIONS then 200 else 403)\<rparr>"
    by (simp_all add: start_subrequest_def split: if_split_asm)
  moreover from plugins_call_leaves [OF assms p] have "core c1 = core c" .
  ultimately show "core c' = core c \<and> quiet srv srv'" by (auto simp: core_def)
qed

lemma keeps_handle_subrequest: "list_all (leaves core) (slot_subrequest sl) \<Longrightarrow> keeps (handle_subrequest sl)"
  by (auto simp: keeps_def handle_subrequest_def bind_Some_iff dest: plugins_call_leaves)

lemma keeps_if: "keeps p \<Longrightarrow> keeps (if_direct p)" "keeps p \<Longrightarrow> keeps (if_no_path p)"
  by (auto simp: keeps_def if_direct_def if_no_path_def split: if_splits)

lemma keeps_prepare:
  assumes "tame sl"
  shows "keeps (http_response_prepare sl env)"
proof -
  have "keeps (then_phase (if_direct (if_no_path (build_path sl)))
      (then_phase (if_direct (then_phase (file_phase env) (start_subrequest sl))) (handle_subrequest sl)))"
    unfolding build_path_def
    using assms unfolding tame_def
    by (intro keeps_then keeps_if keeps_ask keeps_start keeps_clean keeps_options keeps_docroot keeps_physical keeps_file
        keeps_start_subrequest keeps_handle_subrequest) simp_all
  then show ?thesis
    unfolding keeps_def http_response_prepare_def
    by (auto simp: bind_Some_iff split: if_splits) (simp_all add: core_def)
qed

section \<open>The other handlers\<close>

lemma drop_body_core: "drop_body c = Some d \<Longrightarrow> core d = core c"
  by (auto simp: drop_body_def bind_Some_iff core_def)

lemma prepare_method_core: "prepare_method c = Some d \<Longrightarrow> core d = core c"
  by (auto simp: prepare_method_def Let_def bind_Some_iff set_resp_headers_def split: if_splits dest!: drop_body_core) (auto simp: core_def)

lemma try_errorfile_quiet: "try_errorfile env srv c = Some (srv', d) \<Longrightarrow> core d = core c \<and> quiet srv srv'"
  by (auto simp: try_errorfile_def Let_def bind_Some_iff set_resp_headers_def set_phys_path_def core_def quiet_def
      split: option.splits if_splits)

lemma default_error_page_core: "default_error_page c = Some d \<Longrightarrow> core d = core c"
  by (auto simp: default_error_page_def bind_Some_iff set_resp_headers_def set_phys_path_def core_def split: if_splits)

lemma prepare_body_quiet:
  assumes "prepare_body env srv c = Some (srv', d)"
  shows "core d = core c \<and> quiet srv srv'"
proof (cases "http_status c \<in> {204, 205, 304}")
  case True
  with assms show ?thesis by (auto simp: prepare_body_def bind_Some_iff dest!: drop_body_core) (auto simp: core_def)
next
  case False
  show ?thesis
  proof (cases "mode c \<noteq> 0 \<or> http_status c < 400 \<or> http_status c \<ge> 600")
    case True
    with assms False show ?thesis by (auto simp: prepare_body_def)
  next
    case ok: False
    have "core (set_phys_path None (c\<lparr>file_finished := False\<rparr>)) = core c" by (simp add: core_def set_phys_path_def)
    with assms False ok show ?thesis
      by (auto simp: prepare_body_def bind_Some_iff dest!: try_errorfile_quiet default_error_page_core)
  qed
qed

lemma prepare_length_core:
  assumes "prepare_length c = Some d"
  shows "core d = core c"
proof (cases "file_finished c")
  case True
  have h: "core (set_resp_headers hs c) = core c" for hs by (simp add: core_def set_resp_headers_def)
  show ?thesis
  proof (cases "no_body_status (http_status c)")
    case no: True
    with assms True show ?thesis by (auto simp: prepare_length_def bind_Some_iff h split: if_split_asm option.split_asm)
  next
    case False
    with assms True show ?thesis by (auto simp: prepare_length_def bind_Some_iff h split: if_split_asm)
  qed
next
  case False
  with assms show ?thesis by (auto simp: prepare_length_def core_def Let_def split: if_split_asm)
qed

lemma prepare_head_core: "prepare_head_only c = Some d \<Longrightarrow> core d = core c"
  by (auto simp: prepare_head_only_def dest!: drop_body_core split: if_splits) (simp add: core_def)

lemma write_header_quiet:
  assumes "http_response_write_header env srv c = Some (srv', d)"
  shows "core d = core c \<and> quiet srv srv'"
proof -
  have "core (settle_keep_alive c) = core c" by (simp add: settle_keep_alive_def core_def)
  with assms show ?thesis
    by (auto simp: http_response_write_header_def Let_def bind_Some_iff core_def quiet_def set_resp_headers_def)
qed

lemma write_prepare_quiet:
  assumes "connection_handle_write_prepare env srv c = Some (srv', d)"
  shows "core d = core c \<and> quiet srv srv'"
proof -
  from assms obtain c1 s2 c2 c3 c4 where st: "prepare_method c = Some c1"
    "prepare_body env srv (if http_status c1 = 0 then c1\<lparr>http_status := 403\<rparr> else c1) = Some (s2, c2)"
    "prepare_length c2 = Some c3" "prepare_head_only c3 = Some c4" "http_response_write_header env s2 c4 = Some (srv', d)"
    by (auto simp: connection_handle_write_prepare_def bind_Some_iff)
  have "core (if http_status c1 = 0 then c1\<lparr>http_status := 403\<rparr> else c1) = core c1" by (simp add: core_def)
  with prepare_method_core [OF st(1)] prepare_body_quiet [OF st(2)] prepare_length_core [OF st(3)] prepare_head_core [OF st(4)]
    write_header_quiet [OF st(5)] quiet_trans show ?thesis by metis
qed

lemma connection_reset_core:
  assumes "tame sl" and "connection_reset sl s c = Some d"
  shows "core d = core c"
proof -
  from assms(1) have "list_all (leaves core) (slot_connection_reset sl)" by (simp add: tame_def)
  with assms(2) show ?thesis
    by (auto simp: connection_reset_def Let_def bind_Some_iff config_setup_connection_def dest!: plugins_call_leaves) (auto simp: core_def)
qed

text \<open>The reading states.\<close>

definition place :: "connection \<Rightarrow> int \<times> int" where
  "place c = (fd c, fde_ndx c)"

lemma core_place: "core d = core c \<longleftrightarrow> state d = state c \<and> place d = place c"
  by (auto simp: core_def place_def)

lemma handle_read_place:
  assumes "connection_handle_read n rd c = Some (r, d)"
  shows "place d = place c \<and> (state d = state c \<or> r = -1 \<and> state d = CON_STATE_ERROR)"
proof (cases "cf_is_ssl (cconf c)")
  case False
  with assms obtain a cq k b where pre: "read_chunk n (read_queue c) = Some (a, cq)" "cells cq a = Some k" "cmem k = Some b"
    by (auto simp: connection_handle_read_def bind_Some_iff)
  show ?thesis
  proof (cases "rd (bsize b - 1 - read_offset b)")
    case (Read_Error e)
    with assms False pre show ?thesis
      by (auto simp: connection_handle_read_def connection_set_state_def place_def Let_def split: if_splits)
  next
    case (Read_Data s)
    with assms False pre show ?thesis
      by (auto simp: connection_handle_read_def bind_Some_iff place_def Let_def split: if_splits)
  qed
qed (use assms in \<open>simp add: connection_handle_read_def\<close>)

lemma read_header_place:
  assumes "read_header c = Some d"
  shows "place d = place c \<and> state d \<in> {state c, CON_STATE_REQUEST_END, CON_STATE_HANDLE_REQUEST}"
  using assms by (auto simp: read_header_def connection_set_state_def place_def Let_def bind_Some_iff split: if_splits option.splits)

lemma copy_body_place:
  "copy_body env i as c = Some (d, w) \<Longrightarrow> place d = place c \<and> state d \<in> {state c, CON_STATE_HANDLE_REQUEST}"
proof (induction "as" arbitrary: i c d w)
  case (Cons a "as")
  have "(\<exists>c1 w1. copy_body env (i + 1) as c1 = Some (d, w1) \<and> place c1 = place c \<and> state c1 = state c) \<or>
      place d = place c \<and> state d \<in> {state c, CON_STATE_HANDLE_REQUEST}"
    using Cons.prems by (auto simp: Let_def bind_Some_iff connection_set_state_def place_def split: if_splits)
  with Cons.IH show ?case by (metis (no_types, lifting))
qed simp

lemma read_body_place:
  assumes "read_body env c = Some (d, w)"
  shows "place d = place c \<and> state d \<in> {state c, CON_STATE_HANDLE_REQUEST}"
proof -
  from assms obtain as' c1 where b: "copy_body env 0 as' c = Some (c1, w)"
    and d: "d = (if bytes_in (request_content_queue c1) = int (content_length (req c1)) then connection_set_state c1 CON_STATE_HANDLE_REQUEST else c1)"
    by (auto simp: read_body_def bind_Some_iff)
  from copy_body_place [OF b] d show ?thesis by (auto simp: connection_set_state_def place_def)
qed

lemma read_state_place:
  assumes "connection_handle_read_state now env c = Some (r, d, w)"
  shows "place d = place c \<and> (state d \<in> {state c, CON_STATE_HANDLE_REQUEST, CON_STATE_ERROR} \<or> state c = CON_STATE_READ \<and> state d = CON_STATE_REQUEST_END)"
proof -
  let ?rd = "if is_readable c then connection_handle_read (re_toread env) (re_read env) (c\<lparr>read_idle_ts := now\<rparr>) else Some (0, c)"
  from assms obtain r1 c1 where rd: "?rd = Some (r1, c1)" by (auto simp: connection_handle_read_state_def bind_Some_iff)
  have c1: "place c1 = place c \<and> (state c1 = state c \<or> r1 = -1 \<and> state c1 = CON_STATE_ERROR)"
    using rd handle_read_place [of _ _ "c\<lparr>read_idle_ts := now\<rparr>" r1 c1] by (auto simp: place_def split: if_splits)
  show ?thesis
  proof (cases "r1 = -1")
    case True
    with assms rd have "d = c1" by (auto simp: connection_handle_read_state_def)
    with c1 show ?thesis by auto
  next
    case False
    with c1 have s1: "state c1 = state c" by blast
    from assms obtain cq c2 w2 cq' where
      c2: "(if state c = CON_STATE_READ then map_option (\<lambda>c. (c, [])) (read_header (c1\<lparr>read_queue := cq\<rparr>))
        else if state c = CON_STATE_READ_POST then read_body (re_post env) (c1\<lparr>read_queue := cq\<rparr>) else Some (c1\<lparr>read_queue := cq\<rparr>, [])) = Some (c2, w2)"
      and d': "d = (if r1 = -2 \<and> state c2 = state c then connection_set_state c2 CON_STATE_ERROR else c2)\<lparr>read_queue := cq'\<rparr>"
      unfolding connection_handle_read_state_def rd by (auto simp: bind_Some_iff Let_def False split del: if_split)
    from d' have d: "place d = place c2" "state d \<in> {state c2, CON_STATE_ERROR}"
      by (simp_all add: place_def connection_set_state_def)
    have "place c2 = place c1 \<and> (state c2 \<in> {state c, CON_STATE_HANDLE_REQUEST} \<or> state c = CON_STATE_READ \<and> state c2 = CON_STATE_REQUEST_END)"
    proof (cases "state c = CON_STATE_READ")
      case True
      with c2 have h: "read_header (c1\<lparr>read_queue := cq\<rparr>) = Some c2" by auto
      from read_header_place [OF h] True s1 show ?thesis by (auto simp: place_def)
    next
      case no: False
      show ?thesis
      proof (cases "state c = CON_STATE_READ_POST")
        case True
        with c2 no have h: "read_body (re_post env) (c1\<lparr>read_queue := cq\<rparr>) = Some (c2, w2)" by simp
        from read_body_place [OF h] s1 show ?thesis by (auto simp: place_def)
      qed (use c2 no s1 in \<open>auto simp: place_def\<close>)
    qed
    with c1 d show ?thesis by auto
  qed
qed

text \<open>A part of a step that works on the connection in the heap: what becomes of it, when the events stay the same.\<close>

definition moves :: "nat \<Rightarrow> connection \<Rightarrow> server \<Rightarrow> server \<Rightarrow> connection_state set \<Rightarrow> bool" where
  "moves i c srv srv' ss \<longleftrightarrow> ev srv' = ev srv \<and> (\<exists>c'. con_heap srv' i = Some c' \<and> place c' = place c \<and> state c' \<in> ss)"

definition closed :: "nat \<Rightarrow> server \<Rightarrow> bool" where
  "closed i srv \<longleftrightarrow> (\<exists>c. con_heap srv i = Some c \<and> state c = CON_STATE_CONNECT)"

lemma put_con_simps [simp]:
  "con_heap (put_con i c srv) i = Some c" "ev (put_con i c srv) = ev srv" "cur_ts (put_con i c srv) = cur_ts srv"
  by (simp_all add: put_con_def)

lemma set_state_simps [simp]:
  "state (connection_set_state c st) = st" "place (connection_set_state c st) = place c"
  by (simp_all add: connection_set_state_def place_def)

lemma moves_put: "moves i c srv (put_con i c' srv) ss \<longleftrightarrow> place c' = place c \<and> state c' \<in> ss"
  by (auto simp: moves_def)

lemma moves_mono: "moves i c srv srv' ss \<Longrightarrow> ss \<subseteq> tt \<Longrightarrow> moves i c srv srv' tt"
  by (auto simp: moves_def)

lemma job_append_moves: "job_append i srv = Some srv' \<Longrightarrow> con_heap srv' = con_heap srv \<and> ev srv' = ev srv"
  by (auto simp: job_append_def bind_Some_iff)

lemma limit_moves:
  assumes "limit_traffic i srv = Some srv'" "con_heap srv i = Some c"
  shows "moves i c srv srv' {state c}"
proof -
  from assms have "job_append i (put_con i (c\<lparr>traffic_limit_reached := True\<rparr>) srv) = Some srv'" by (simp add: limit_traffic_def)
  from job_append_moves [OF this] show ?thesis by (simp add: moves_def place_def)
qed

lemma network_write_moves:
  assumes "network_write_chunkqueue net i srv = Some (r, srv', s)" "con_heap srv i = Some c"
  shows "moves i c srv srv' {state c}"
proof (cases "cf_global_kbytes_per_second (cconf c) \<noteq> 0 \<and> global_bytes_cnt srv > int (cf_global_kbytes_per_second (cconf c)) * 1024")
  case True
  with assms limit_moves show ?thesis by (auto simp: network_write_chunkqueue_def bind_Some_iff)
next
  case False
  let ?put = "\<lambda>c' n. (put_con i c' srv)\<lparr>global_bytes_cnt := n\<rparr>"
  from assms False obtain c' n where c': "place c' = place c" "state c' = state c"
    and s: "srv' = ?put c' n \<or> limit_traffic i (?put c' n) = Some srv'"
  proof -
    assume th: "\<And>c' n. place c' = place c \<Longrightarrow> state c' = state c \<Longrightarrow> srv' = ?put c' n \<or> limit_traffic i (?put c' n) = Some srv' \<Longrightarrow> thesis"
    from assms False obtain r1 q1 s1 r2 q2 where "net (write_queue c) = Some (r1, q1, s1)" "finish_write r1 q1 = Some (r2, q2)"
      by (auto simp: network_write_chunkqueue_def bind_Some_iff)
    with assms False show thesis
      by (intro th [of "c\<lparr>write_queue := q2, bytes_written := bytes_written c + (bytes_out q2 - bytes_out (write_queue c)),
          bytes_written_cur_second := bytes_written_cur_second c + (bytes_out q2 - bytes_out (write_queue c))\<rparr>"
          "global_bytes_cnt srv + (bytes_out q2 - bytes_out (write_queue c))"])
        (auto simp: network_write_chunkqueue_def bind_Some_iff Let_def place_def split: if_split_asm)
  qed
  have h: "con_heap (?put c' n) i = Some c'" by (simp add: put_con_def)
  from s show ?thesis
  proof
    assume "limit_traffic i (?put c' n) = Some srv'"
    from limit_moves [OF this h] c' show ?thesis by (simp add: moves_def)
  qed (use c' in \<open>simp add: moves_def put_con_def\<close>)
qed

lemma handle_write_moves:
  assumes "connection_handle_write net i srv = Some (r, srv', s)" "con_heap srv i = Some c"
  shows "r = 0 \<and> moves i c srv srv' {state c, CON_STATE_RESPONSE_END, CON_STATE_ERROR}"
proof -
  from assms obtain r1 srv1 where w: "network_write_chunkqueue net i srv = Some (r1, srv1, s)"
    by (auto simp: connection_handle_write_def bind_Some_iff)
  from network_write_moves [OF w assms(2)] obtain c1 where
    c1: "con_heap srv1 i = Some c1" "ev srv1 = ev srv" "place c1 = place c" "state c1 = state c" by (auto simp: moves_def)
  have "place (c1\<lparr>is_writable := False\<rparr>) = place c1" by (simp add: place_def)
  with assms(1) w c1 show ?thesis
    by (auto simp: connection_handle_write_def moves_def bind_Some_iff dest!: job_append_moves split: if_split_asm)
qed

lemma try_write_moves:
  assumes "try_write net i srv = Some (srv', s)" "con_heap srv i = Some c"
  shows "moves i c srv srv' {state c, CON_STATE_RESPONSE_END, CON_STATE_ERROR}"
proof (cases "\<not> chunkqueue_is_empty (write_queue c) \<and> is_writable c")
  case True
  with assms obtain r1 srv1 where w: "connection_handle_write net i srv = Some (r1, srv1, s)"
    by (auto simp: try_write_def bind_Some_iff)
  from handle_write_moves [OF w assms(2)] obtain c1 where c1: "r1 = 0" "con_heap srv1 i = Some c1" "ev srv1 = ev srv" "place c1 = place c"
      "state c1 \<in> {state c, CON_STATE_RESPONSE_END, CON_STATE_ERROR}" by (auto simp: moves_def)
  have "place (c1\<lparr>write_request_ts := cur_ts srv1\<rparr>) = place c1" by (simp add: place_def)
  with assms w c1 True show ?thesis
    by (auto simp: try_write_def moves_def)
next
  case False
  with assms show ?thesis by (auto simp: try_write_def moves_def)
qed

lemma close_closed:
  assumes "connection_close i srv = Some srv'"
  shows "closed i srv'"
  using assms by (auto simp: connection_close_def bind_Some_iff closed_def Let_def)

lemma close_down_moves:
  assumes "close_down r i srv = Some srv'" "con_heap srv i = Some c"
  shows "closed i srv' \<or> moves i c srv srv' {CON_STATE_CLOSE}"
  using assms close_closed [of i _ srv'] by (auto simp: close_down_def moves_def Let_def put_con_def connection_set_state_def place_def split: if_split_asm)

lemma moves_closed: "moves i c srv srv' {CON_STATE_CONNECT} \<Longrightarrow> closed i srv'"
  by (auto simp: moves_def closed_def)

lemma moves_trans: "moves i c srv srv1 ss \<Longrightarrow> (\<And>c1. con_heap srv1 i = Some c1 \<Longrightarrow> state c1 \<in> ss \<Longrightarrow> moves i c1 srv1 srv2 tt) \<Longrightarrow> moves i c srv srv2 tt"
  by (fastforce simp: moves_def)

lemma reset_con_moves:
  assumes "tame sl" "reset_con sl i srv = Some srv'" "con_heap srv i = Some c"
  shows "moves i c srv srv' {state c}"
  using assms connection_reset_core [OF assms(1), of "base_conf srv" c] by (auto simp: reset_con_def bind_Some_iff moves_put core_place)

lemma step_start_moves: "moves i c srv (put_con i (step_request_start srv c) srv) {CON_STATE_READ}"
  by (simp add: moves_put step_request_start_def place_def connection_set_state_def)

lemma step_request_end_moves:
  assumes "step_request_end c = Some d"
  shows "moves i c srv (put_con i d srv) {CON_STATE_READ_POST, CON_STATE_HANDLE_REQUEST}"
proof -
  let ?c = "c\<lparr>conuri := (conuri c)\<lparr>uri_authority := None, uri_path := None, uri_query := None\<rparr>, req := (req c)\<lparr>orig_uri := None\<rparr>\<rparr>"
  from assms obtain r c1 where p: "on_con (http_request_parse (cf_request (cconf ?c))) ?c = Some (r, c1)"
    and d: "d = connection_set_state c1 (if r \<noteq> 0 then CON_STATE_READ_POST else CON_STATE_HANDLE_REQUEST)"
    by (auto simp: step_request_end_def bind_Some_iff)
  from on_con_more [OF p] have "con.more c1 = con.more ?c" by simp
  then have "place c1 = place c" by (cases c, cases c1) (simp add: place_def)
  with d show ?thesis by (simp add: moves_put)
qed

lemma request_decided_moves:
  assumes "request_decided c = (r, d)"
  shows "place d = place c \<and> state d \<in> {CON_STATE_HANDLE_REQUEST, CON_STATE_RESPONSE_START}"
proof (cases "mode c = 0 \<and> http_status c \<in> {403, 404} \<and> \<not> in_error_handler c \<and> (cf_error_handler (cconf c) \<noteq> None \<or> con_error_handler c \<noteq> None)")
  case True
  with assms have "d = connection_set_state (set_phys_path None
      (c\<lparr>error_handler_saved_status := http_status c, http_status := 0, in_error_handler := True,
         req := (req c)\<lparr>uri := (if con_error_handler c = None then cf_error_handler (cconf c) else con_error_handler c)\<rparr>\<rparr>)) CON_STATE_HANDLE_REQUEST"
    by (simp add: request_decided_def)
  then show ?thesis by (simp add: place_def set_phys_path_def connection_set_state_def)
next
  case False
  then have "request_decided c = (
        let c = (if mode c = 0 \<and> http_status c \<in> {403, 404} \<and> in_error_handler c then c\<lparr>http_status := error_handler_saved_status c\<rparr> else c);
            c = (if http_status c = 0 then c\<lparr>http_status := 200\<rparr> else c)
        in (0, connection_set_state c CON_STATE_RESPONSE_START))"
    unfolding request_decided_def by (rule if_not_P)
  with assms show ?thesis by (auto simp: Let_def place_def connection_set_state_def)
qed

lemma step_handle_moves:
  assumes "tame sl" "step_handle_request sl env i srv c = Some (d, srv')" "con_heap srv i = Some c" "state c = CON_STATE_HANDLE_REQUEST"
  shows "moves i c srv srv' {CON_STATE_HANDLE_REQUEST, CON_STATE_RESPONSE_START, CON_STATE_ERROR}"
proof -
  from assms(2) obtain r s1 c1 where p: "http_response_prepare sl (me_prepare env) srv c = Some (r, s1, c1)"
    by (auto simp: step_handle_request_def bind_Some_iff)
  from keepsD [OF keeps_prepare [OF assms(1)] p] have c1: "place c1 = place c" "state c1 = CON_STATE_HANDLE_REQUEST" "ev s1 = ev srv"
    using assms(4) by (auto simp: core_place quiet_def)
  show ?thesis
  proof (cases r)
    case HANDLER_FINISHED
    obtain d1 c2 where d: "request_decided c1 = (d1, c2)" by fastforce
    with assms(2) p HANDLER_FINISHED have "srv' = put_con i c2 s1" by (simp add: step_handle_request_def)
    with request_decided_moves [OF d] c1 show ?thesis by (auto simp: moves_def)
  next
    case HANDLER_WAIT_FOR_FD
    with assms(2) p have "con_heap srv' i = Some (connection_set_state c1 CON_STATE_HANDLE_REQUEST)" "ev srv' = ev s1"
      by (auto simp: step_handle_request_def fdwait_append_def bind_Some_iff)
    with c1 show ?thesis by (auto simp: moves_def)
  qed (use assms(2) p c1 in \<open>auto simp: step_handle_request_def moves_def\<close>)
qed

lemma response_end_moves:
  assumes "tame sl" "step_response_end sl env i srv c = Some srv'" "con_heap srv i = Some c"
  shows "closed i srv' \<or> moves i c srv srv' {CON_STATE_REQUEST_START, CON_STATE_CLOSE}"
proof -
  from assms(1) have t: "list_all (leaves core) (slot_request_done sl)" "list_all (leaves core) (slot_connection_close sl)" by (simp_all add: tame_def)
  from assms(2) obtain r c1 where c1: "plugins_call (slot_request_done sl) c = Some (r, c1)" by (auto simp: step_response_end_def bind_Some_iff)
  from plugins_call_leaves [OF t(1) c1] have p1: "place c1 = place c" by (simp add: core_place)
  let ?s = "srv\<lparr>con_written := con_written srv + 1\<rparr>"
  show ?thesis
  proof (cases "keep_alive c1 \<noteq> 0")
    case True
    with assms(2) c1 have r: "reset_con sl i (put_con i (connection_set_state c1 CON_STATE_REQUEST_START) ?s) = Some srv'"
      by (auto simp: step_response_end_def)
    from reset_con_moves [OF assms(1) r] p1 show ?thesis by (auto simp: moves_def)
  next
    case False
    with assms(2) c1 obtain r2 c2 s2 where c2: "plugins_call (slot_connection_close sl) c1 = Some (r2, c2)"
      and s2: "close_down (me_shutdown env) i (put_con i c2 ?s) = Some s2"
      and r: "reset_con sl i (s2\<lparr>con_closed := con_closed s2 + 1\<rparr>) = Some srv'"
      by (auto simp: step_response_end_def bind_Some_iff)
    from plugins_call_leaves [OF t(2) c2] p1 have p2: "place c2 = place c" by (simp add: core_place)
    from close_down_moves [OF s2, of c2] obtain c3 where c3: "con_heap s2 i = Some c3"
      "state c3 = CON_STATE_CONNECT \<or> place c3 = place c2 \<and> state c3 = CON_STATE_CLOSE \<and> ev s2 = ev srv"
      by (auto simp: closed_def moves_def)
    from reset_con_moves [OF assms(1) r, of c3] c3 p2 show ?thesis by (auto simp: moves_def closed_def)
  qed
qed

lemma error_moves:
  assumes "tame sl" "step_error sl env i srv c = Some srv'" "con_heap srv i = Some c"
  shows "closed i srv' \<or> moves i c srv srv' {CON_STATE_CLOSE}"
proof -
  from assms(1) have t: "list_all (leaves core) (slot_request_done sl)" "list_all (leaves core) (slot_connection_close sl)" by (simp_all add: tame_def)
  from assms(2) obtain c1 c2 s3 s4 c4 where
    c1: "(if http_status c \<noteq> 0 then map_option snd (plugins_call (slot_request_done sl) c) else Some c) = Some c1" and
    c2: "(if mode c1 \<noteq> 0 then map_option snd (plugins_call (slot_connection_close sl) c1) else Some c1) = Some c2" and
    s3: "reset_con sl i (put_con i c2 srv) = Some s3" and s4: "close_down (me_shutdown env) i s3 = Some s4" and
    c4: "con_heap s4 i = Some c4" "srv' = (put_con i (c4\<lparr>keep_alive := 0\<rparr>) s4)\<lparr>con_closed := con_closed s4 + 1\<rparr>"
    unfolding step_error_def by (auto simp: bind_Some_iff simp del: map_option_eq_Some split del: if_split)
  from c1 plugins_call_leaves [OF t(1)] have p1: "place c1 = place c" by (fastforce simp: core_place split: if_split_asm)
  from c2 plugins_call_leaves [OF t(2)] p1 have p2: "place c2 = place c" by (fastforce simp: core_place split: if_split_asm)
  from reset_con_moves [OF assms(1) s3, of c2] obtain c3 where c3: "con_heap s3 i = Some c3" "place c3 = place c2" "ev s3 = ev srv"
    by (auto simp: moves_def)
  have "place (c4\<lparr>keep_alive := 0\<rparr>) = place c4" by (simp add: place_def)
  with close_down_moves [OF s4 c3(1)] c3 c4 p2 show ?thesis by (auto simp: closed_def moves_def)
qed

lemma step_close_moves:
  assumes "step_close env i srv c = Some srv'" "state c = CON_STATE_CLOSE"
  shows "closed i srv' \<or> moves i c srv srv' {CON_STATE_CLOSE}"
proof -
  have "place (drain r srv c) = place c" "state (drain r srv c) = state c" for r
    by (simp_all add: drain_def place_def split: read_result.split)
  with assms close_closed [of i _ srv'] show ?thesis
    by (auto simp: step_close_def Let_def moves_def split: if_split_asm)
qed

section \<open>The diagram\<close>

text \<open>The edges of \<open>src/doc/state.dot\<close>, and two more the code has: a request that is too long is answered without being parsed, and a
  connection that is not kept is half-closed first.\<close>

inductive state_edge :: "connection_state \<Rightarrow> connection_state \<Rightarrow> bool" where
  edge_connect: "state_edge CON_STATE_CONNECT CON_STATE_REQUEST_START"
| edge_start: "state_edge CON_STATE_REQUEST_START CON_STATE_READ"
| edge_read: "state_edge CON_STATE_READ CON_STATE_REQUEST_END"
| edge_parsed: "state_edge CON_STATE_REQUEST_END CON_STATE_HANDLE_REQUEST"
| edge_handled: "state_edge CON_STATE_HANDLE_REQUEST CON_STATE_RESPONSE_START"
| edge_write: "state_edge CON_STATE_RESPONSE_START CON_STATE_WRITE"
| edge_written: "state_edge CON_STATE_WRITE CON_STATE_RESPONSE_END"
| edge_end: "state_edge CON_STATE_RESPONSE_END CON_STATE_CONNECT"
| edge_post: "state_edge CON_STATE_REQUEST_END CON_STATE_READ_POST"
| edge_body: "state_edge CON_STATE_READ_POST CON_STATE_HANDLE_REQUEST"
| edge_again: "state_edge CON_STATE_RESPONSE_END CON_STATE_REQUEST_START"
| edge_sub: "state_edge CON_STATE_HANDLE_REQUEST CON_STATE_HANDLE_REQUEST"
| edge_linger: "state_edge CON_STATE_ERROR CON_STATE_CLOSE"
| edge_closed: "state_edge CON_STATE_CLOSE CON_STATE_CONNECT"
| edge_drop: "state_edge CON_STATE_ERROR CON_STATE_CONNECT"
| edge_handle_error: "state_edge CON_STATE_HANDLE_REQUEST CON_STATE_ERROR"
| edge_read_error: "state_edge CON_STATE_READ CON_STATE_ERROR"
| edge_body_error: "state_edge CON_STATE_READ_POST CON_STATE_ERROR"
| edge_write_error: "state_edge CON_STATE_WRITE CON_STATE_ERROR"
| edge_too_long: "state_edge CON_STATE_READ CON_STATE_HANDLE_REQUEST"
| edge_half_close: "state_edge CON_STATE_RESPONSE_END CON_STATE_CLOSE"

code_pred state_edge .

inductive_simps from_state [simp]:
  "state_edge CON_STATE_CONNECT st" "state_edge CON_STATE_REQUEST_START st" "state_edge CON_STATE_READ st"
  "state_edge CON_STATE_REQUEST_END st" "state_edge CON_STATE_HANDLE_REQUEST st" "state_edge CON_STATE_RESPONSE_START st"
  "state_edge CON_STATE_WRITE st" "state_edge CON_STATE_RESPONSE_END st" "state_edge CON_STATE_READ_POST st"
  "state_edge CON_STATE_ERROR st" "state_edge CON_STATE_CLOSE st"

lemma read_step_moves:
  assumes "connection_handle_read_state now env c = Some (r, d, w)" "state c = CON_STATE_READ \<or> state c = CON_STATE_READ_POST"
  shows "moves i c srv (put_con i d srv) {st. st = state c \<or> state_edge (state c) st}"
  using read_state_place [OF assms(1)] assms(2) by (auto simp: moves_put)

lemma step_moves:
  assumes "tame sl" "con_heap srv i = Some c" "machine_step sl env i srv = Some (d, srv', s)"
  shows "closed i srv' \<and> (state c = CON_STATE_CONNECT \<or> state_edge (state c) CON_STATE_CONNECT) \<or>
    moves i c srv srv' {st. st = state c \<or> state_edge (state c) st}"
proof (cases "state c")
  case CON_STATE_REQUEST_START
  with assms(2,3) have "srv' = put_con i (step_request_start srv c) srv" by (simp add: machine_step_def)
  with moves_mono [OF step_start_moves] CON_STATE_REQUEST_START show ?thesis by simp
next
  case CON_STATE_REQUEST_END
  with assms(2,3) obtain c1 where "step_request_end c = Some c1" "srv' = put_con i c1 srv" by (auto simp: machine_step_def bind_Some_iff)
  with moves_mono [OF step_request_end_moves] CON_STATE_REQUEST_END show ?thesis by simp
next
  case CON_STATE_HANDLE_REQUEST
  with assms(2,3) have "step_handle_request sl env i srv c = Some (d, srv')" by (auto simp: machine_step_def bind_Some_iff)
  from moves_mono [OF step_handle_moves [OF assms(1) this assms(2) CON_STATE_HANDLE_REQUEST]] CON_STATE_HANDLE_REQUEST show ?thesis by simp
next
  case CON_STATE_RESPONSE_START
  with assms(2,3) obtain s1 c1 where w: "connection_handle_write_prepare (me_response env) srv c = Some (s1, c1)"
    and s1: "srv' = put_con i (connection_set_state c1 CON_STATE_WRITE) s1" by (auto simp: machine_step_def bind_Some_iff)
  from write_prepare_quiet [OF w] s1 CON_STATE_RESPONSE_START show ?thesis by (auto simp: moves_def core_place quiet_def)
next
  case CON_STATE_RESPONSE_END
  with assms(2,3) have "step_response_end sl env i srv c = Some srv'" by (auto simp: machine_step_def bind_Some_iff)
  from response_end_moves [OF assms(1) this assms(2)] CON_STATE_RESPONSE_END show ?thesis by (auto simp: moves_def)
next
  case CON_STATE_CONNECT
  with assms(2,3) obtain q where "srv' = put_con i (c\<lparr>read_queue := q, request_count := 0\<rparr>) srv" by (auto simp: machine_step_def bind_Some_iff)
  with CON_STATE_CONNECT show ?thesis by (simp add: closed_def)
next
  case CON_STATE_CLOSE
  with assms(2,3) have "step_close env i srv c = Some srv'" by (auto simp: machine_step_def bind_Some_iff)
  from step_close_moves [OF this CON_STATE_CLOSE] CON_STATE_CLOSE show ?thesis by (auto simp: moves_def)
next
  case CON_STATE_WRITE
  with assms(2,3) have "try_write (me_net env) i srv = Some (srv', s)" by (auto simp: machine_step_def bind_Some_iff)
  from moves_mono [OF try_write_moves [OF this assms(2)]] CON_STATE_WRITE show ?thesis by simp
next
  case CON_STATE_ERROR
  with assms(2,3) have "step_error sl env i srv c = Some srv'" by (auto simp: machine_step_def bind_Some_iff)
  from error_moves [OF assms(1) this assms(2)] CON_STATE_ERROR show ?thesis by (auto simp: moves_def)
next
  case CON_STATE_READ
  with assms(2,3) obtain r c1 w where "connection_handle_read_state (cur_ts srv) (me_read env) c = Some (r, c1, w)" "srv' = put_con i c1 srv"
    by (auto simp: machine_step_def bind_Some_iff)
  with read_step_moves [of "cur_ts srv" "me_read env" c r c1 w i srv] CON_STATE_READ show ?thesis by simp
next
  case CON_STATE_READ_POST
  with assms(2,3) obtain r c1 w where "connection_handle_read_state (cur_ts srv) (me_read env) c = Some (r, c1, w)" "srv' = put_con i c1 srv"
    by (auto simp: machine_step_def bind_Some_iff)
  with read_step_moves [of "cur_ts srv" "me_read env" c r c1 w i srv] CON_STATE_READ_POST show ?thesis by simp
qed

text \<open>A whole run: the connection is closed, or it is at the same place, in a state the diagram leads to.\<close>

lemma connect_stays:
  assumes "con_heap srv i = Some c" "state c = CON_STATE_CONNECT" "machine_step sl env i srv = Some (d, srv', s)"
  shows "d = 0 \<and> closed i srv'"
  using assms by (auto simp: machine_step_def bind_Some_iff closed_def)

definition run_ok :: "nat \<Rightarrow> server \<Rightarrow> server \<Rightarrow> bool" where
  "run_ok i srv srv' \<longleftrightarrow> (\<forall>c. con_heap srv i = Some c \<longrightarrow>
     (\<exists>c'. con_heap srv' i = Some c' \<and> state_edge\<^sup>*\<^sup>* (state c) (state c')) \<and>
     (closed i srv' \<or> moves i c srv srv' UNIV) \<and> (state c = CON_STATE_CONNECT \<longrightarrow> closed i srv'))"

lemma run_step:
  assumes "tame sl" "con_heap srv i = Some c" "machine_step sl env i srv = Some (d, s1, w)" "con_heap s1 i = Some c1"
    and "srv' = s1 \<or> (d = -1 \<or> state c1 \<noteq> state c) \<and> run_ok i s1 srv'"
  shows "run_ok i srv srv'"
proof -
  have con: "d = 0 \<and> state c1 = CON_STATE_CONNECT" if "state c = CON_STATE_CONNECT"
    using connect_stays [OF assms(2) that assms(3)] assms(4) by (auto simp: closed_def)
  have e: "state_edge\<^sup>*\<^sup>* (state c) (state c1)" and m: "state c1 = CON_STATE_CONNECT \<or> moves i c srv s1 UNIV"
    using step_moves [OF assms(1-3)] assms(4) by (auto simp: closed_def moves_def)
  from assms(5) show ?thesis
  proof
    assume "srv' = s1"
    with assms(2,4) e m con show ?thesis by (auto simp: run_ok_def closed_def)
  next
    assume r: "(d = -1 \<or> state c1 \<noteq> state c) \<and> run_ok i s1 srv'"
    with assms(4) obtain c2 where c2: "con_heap srv' i = Some c2" "state_edge\<^sup>*\<^sup>* (state c1) (state c2)"
      and m2: "closed i srv' \<or> moves i c1 s1 srv' UNIV" "state c1 = CON_STATE_CONNECT \<longrightarrow> closed i srv'" by (auto simp: run_ok_def)
    from r con have "state c \<noteq> CON_STATE_CONNECT" by auto
    moreover from e c2 have "state_edge\<^sup>*\<^sup>* (state c) (state c2)" by auto
    ultimately show ?thesis using assms(2,4) c2 m m2 by (auto simp: run_ok_def moves_def)
  qed
qed

lemma loop_moves:
  assumes "machine_loop sl env i srv = Some (srv', s)" "tame sl"
  shows "run_ok i srv srv'"
proof -
  have "tame sl \<longrightarrow> run_ok i srv (fst (srv', s))"
  proof (rule machine_loop.raw_induct [where P = "\<lambda>sl env i srv r. tame sl \<longrightarrow> run_ok i srv (fst r)", OF _ assms(1)], rule impI)
    fix loop and sl :: plugin_slots and env :: "nat \<Rightarrow> machine_env" and i srv and r :: "server \<times> char list"
    assume ih: "\<And>sl env i srv r. loop sl env i srv = Some r \<Longrightarrow> tame sl \<longrightarrow> run_ok i srv (fst r)"
      and body: "Option.bind (con_heap srv i) (\<lambda>c.
         Option.bind (machine_step sl (env 0) i srv) (\<lambda>(d, srv, s).
         Option.bind (con_heap srv i) (\<lambda>c'.
         if d = -1 \<or> state c' \<noteq> state c
         then Option.bind (loop sl (\<lambda>n. env (n + 1)) i srv) (\<lambda>(srv, t). Some (srv, s @ t))
         else Some (srv, s)))) = Some r" and t: "tame sl"
    from body obtain c d s1 w c1 where step: "con_heap srv i = Some c" "machine_step sl (env 0) i srv = Some (d, s1, w)" "con_heap s1 i = Some c1"
      by (auto simp: bind_eq_Some_conv)
    from body step have "fst r = s1 \<or> (d = -1 \<or> state c1 \<noteq> state c) \<and> (\<exists>u. loop sl (\<lambda>n. env (n + 1)) i s1 = Some (fst r, u))"
      by (auto simp: bind_eq_Some_conv split: if_split_asm)
    with ih t have "fst r = s1 \<or> (d = -1 \<or> state c1 \<noteq> state c) \<and> run_ok i s1 (fst r)" by fastforce
    from run_step [OF t step this] show "run_ok i srv (fst r)" .
  qed
  with assms(2) show ?thesis by simp
qed

section \<open>Properties\<close>


definition needed_event :: "connection \<Rightarrow> int option" where
  "needed_event c =
     (if state c \<in> {CON_STATE_READ, CON_STATE_READ_POST, CON_STATE_CLOSE} then Some (poll_events FDEVENT_IN)
      else if state c = CON_STATE_WRITE \<and> \<not> chunkqueue_is_empty (write_queue c) \<and> \<not> is_writable c \<and> \<not> traffic_limit_reached c
      then Some (poll_events FDEVENT_OUT) else None)"

lemma wait_law:
  assumes "con_heap srv i = Some c" "backend_ok (ev srv)" "backend_valid (ev srv) (fd c)" "fde_ndx c = fde_index (ev srv) (fd c)"
    and "wait_for_event i srv = Some srv'"
  shows "con_heap srv' i = Some (c\<lparr>fde_ndx := fde_index (ev srv') (fd c)\<rparr>) \<and> backend_ok (ev srv') \<and> backend_valid (ev srv') = backend_valid (ev srv) \<and>
    fd_interest (ev srv') (fd c) = needed_event c \<and>
    (\<forall>g. backend_valid (ev srv) g \<longrightarrow> g \<noteq> fd c \<longrightarrow> fde_index (ev srv') g = fde_index (ev srv) g \<and> fd_interest (ev srv') g = fd_interest (ev srv) g)"
proof -
  from fdev.set_law [OF assms(2,3), of FDEVENT_IN] obtain e1 where
    e1: "fdevent_event_set (ev srv) (fde_ndx c) (fd c) FDEVENT_IN = Some (fde_index e1 (fd c), e1)" "backend_ok e1" "backend_valid e1 = backend_valid (ev srv)"
      "fd_interest e1 (fd c) = Some (poll_events FDEVENT_IN)"
      "\<forall>g. backend_valid (ev srv) g \<longrightarrow> g \<noteq> fd c \<longrightarrow> fde_index e1 g = fde_index (ev srv) g \<and> fd_interest e1 g = fd_interest (ev srv) g"
    using assms(4) by auto
  from fdev.set_law [OF assms(2,3), of FDEVENT_OUT] obtain e2 where
    e2: "fdevent_event_set (ev srv) (fde_ndx c) (fd c) FDEVENT_OUT = Some (fde_index e2 (fd c), e2)" "backend_ok e2" "backend_valid e2 = backend_valid (ev srv)"
      "fd_interest e2 (fd c) = Some (poll_events FDEVENT_OUT)"
      "\<forall>g. backend_valid (ev srv) g \<longrightarrow> g \<noteq> fd c \<longrightarrow> fde_index e2 g = fde_index (ev srv) g \<and> fd_interest e2 g = fd_interest (ev srv) g"
    using assms(4) by auto
  from fdev.del_law [OF assms(2,3)] obtain e3 where
    e3: "fdevent_event_del (ev srv) (fde_ndx c) (fd c) = Some (fde_index e3 (fd c), e3)" "backend_ok e3" "backend_valid e3 = backend_valid (ev srv)"
      "fd_interest e3 (fd c) = None"
      "\<forall>g. backend_valid (ev srv) g \<longrightarrow> g \<noteq> fd c \<longrightarrow> fde_index e3 g = fde_index (ev srv) g \<and> fd_interest e3 g = fd_interest (ev srv) g"
    using assms(4) by auto
  consider "needed_event c = Some (poll_events FDEVENT_IN)" "srv' = (put_con i (c\<lparr>fde_ndx := fde_index e1 (fd c)\<rparr>) srv)\<lparr>ev := e1\<rparr>"
    | "needed_event c = Some (poll_events FDEVENT_OUT)" "srv' = (put_con i (c\<lparr>fde_ndx := fde_index e2 (fd c)\<rparr>) srv)\<lparr>ev := e2\<rparr>"
    | "needed_event c = None" "srv' = (put_con i (c\<lparr>fde_ndx := fde_index e3 (fd c)\<rparr>) srv)\<lparr>ev := e3\<rparr>"
    using assms(1,5) e1(1) e2(1) e3(1) by (auto simp: wait_for_event_def needed_event_def split: if_split_asm)
  then show ?thesis by cases (use e1 e2 e3 in \<open>simp_all add: put_con_def\<close>)
qed

text \<open>C7: When the state machine has run, the descriptor of a connection that is still open waits for what the state needs: input while a
  request or its body is read or the connection lingers, output while there is data the socket did not take and the traffic is not
  limited, and nothing otherwise. The index of the descriptor in the event backend is the right one, and other descriptors wait
  for what they waited for.\<close>

theorem machine_waits_for_its_event:
  assumes "tame sl" "con_heap srv i = Some c" "backend_ok (ev srv)" "backend_valid (ev srv) (fd c)" "fde_ndx c = fde_index (ev srv) (fd c)"
    and "connection_state_machine sl env i srv = Some (srv', s)" "con_heap srv' i = Some c'" "state c' \<noteq> CON_STATE_CONNECT"
  shows "fd c' = fd c \<and> fd_interest (ev srv') (fd c') = needed_event c' \<and>
    fde_ndx c' = fde_index (ev srv') (fd c') \<and> backend_ok (ev srv') \<and> backend_valid (ev srv') (fd c') \<and>
    (\<forall>g. backend_valid (ev srv) g \<longrightarrow> g \<noteq> fd c \<longrightarrow> fd_interest (ev srv') g = fd_interest (ev srv) g)"
proof -
  from assms(6) obtain s1 where l: "machine_loop sl env i srv = Some (s1, s)" and w: "wait_for_event i s1 = Some srv'"
    by (auto simp: connection_state_machine_def bind_Some_iff)
  from loop_moves [OF l assms(1)] assms(2) obtain c1 where c1: "con_heap s1 i = Some c1"
    and m: "state c1 = CON_STATE_CONNECT \<or> place c1 = place c \<and> ev s1 = ev srv" by (auto simp: run_ok_def closed_def moves_def)
  have "\<exists>n. con_heap srv' i = Some (c1\<lparr>fde_ndx := n\<rparr>)"
    using w c1 by (auto simp: wait_for_event_def bind_Some_iff put_con_def split: if_split_asm)
  with assms(7,8) have "state c1 \<noteq> CON_STATE_CONNECT" by auto
  with m have p: "fd c1 = fd c" "fde_ndx c1 = fde_ndx c" "ev s1 = ev srv" by (auto simp: place_def)
  have n: "needed_event (c1\<lparr>fde_ndx := n\<rparr>) = needed_event c1" for n by (simp add: needed_event_def)
  from wait_law [OF c1, of srv'] w p n assms(3,4,5,7) show ?thesis by auto
qed

section \<open>A connection that waits for its request\<close>

definition quiet_env :: machine_env where
  "quiet_env = \<lparr>me_prepare = \<lparr>pe_stat = (\<lambda>_. Inr ENOENT), pe_local = No_Sockname, pe_port = 80\<rparr>,
     me_response = \<lparr>rs_format_date = (\<lambda>_. []), rs_stat = (\<lambda>_. None)\<rparr>, me_net = (\<lambda>q. Some (0, q, [])),
     me_read = \<lparr>re_toread = None, re_read = (\<lambda>_. Read_Error EAGAIN),
       re_post = (\<lambda>_. \<lparr>pe_mkstemp = (\<lambda>_. (-1, [])), pe_open = (\<lambda>_. -1), pe_write = (\<lambda>_ _. -1)\<rparr>)\<rparr>, me_drain = Read_Error EAGAIN, me_shutdown = 0\<rparr>"

definition waiting_con :: "connection_state \<Rightarrow> connection" where
  "waiting_con st = (connection_init config_none None 0)\<lparr>state := st, fd := 7\<rparr>"

definition waiting_server :: "connection_state \<Rightarrow> server option" where
  "waiting_server st = map_option (\<lambda>e. (put_con 0 (waiting_con st) (server_init 1 0 FDEVENT_HANDLER_POLL config_none))\<lparr>ev := e\<rparr>)
     (register_all [7] (fdevent_init 10 FDEVENT_HANDLER_POLL))"

lemma no_plugins_tame: "tame no_plugins"
  by (simp add: tame_def no_plugins_def)

lemma waiting_server_holds:
  "\<exists>srv. waiting_server st = Some srv \<and> con_heap srv 0 = Some (waiting_con st) \<and> cur_ts srv = 0 \<and>
     backend_ok (ev srv) \<and> backend_valid (ev srv) 7 \<and> fde_index (ev srv) = (\<lambda>_. -1)"
proof -
  have "\<forall>fd \<in> set [7]. 0 \<le> fd \<and> nat fd < length (fdarray (fdevent_init 10 FDEVENT_HANDLER_POLL))" by (simp add: fdevent_init_def)
  from register_all_law [OF this] obtain e where e: "register_all [7] (fdevent_init 10 FDEVENT_HANDLER_POLL) = Some e"
    "ftype e = FDEVENT_HANDLER_POLL" "backend_ok e" "fde_index e = (\<lambda>_. -1)" "node_events e 7 = Some 0"
    using fdevent_init_state [of 10 FDEVENT_HANDLER_POLL] by (auto simp: fdevent_init_def)
  then have "backend_valid e 7" by (simp add: backend_valid_def)
  with e show ?thesis by (simp add: waiting_server_def put_con_def server_init_def)
qed


lemma waiting_read: "connection_handle_read_state 0 env (waiting_con CON_STATE_READ) = Some (0, waiting_con CON_STATE_READ, [])"
  by (simp add: waiting_con_def connection_handle_read_state_def connection_init_def con_init_def con.defs Let_def sum_chunks.simps
     drop_empty.simps read_header_def chunkqueue_init_def chunk_list.simps chunkqueue_length_def chunkqueue_remove_finished_chunks.simps)

theorem machine_waits_for_its_event_witness:
  "\<exists>srv srv' c'. waiting_server CON_STATE_READ = Some srv \<and>
     connection_state_machine no_plugins (\<lambda>_. quiet_env) 0 srv = Some (srv', []) \<and> con_heap srv' 0 = Some c' \<and> fd c' = 7 \<and>
     fd_interest (ev srv') 7 = Some (poll_events FDEVENT_IN)"
proof -
  from waiting_server_holds obtain srv where srv: "waiting_server CON_STATE_READ = Some srv"
    "con_heap srv 0 = Some (waiting_con CON_STATE_READ)" "backend_ok (ev srv)" "backend_valid (ev srv) 7" "fde_index (ev srv) = (\<lambda>_. -1)" "cur_ts srv = 0" by blast
  let ?c = "waiting_con CON_STATE_READ"
  have c: "fd ?c = 7" "fde_ndx ?c = -1" "state ?c = CON_STATE_READ" by (simp_all add: waiting_con_def connection_init_def con.defs)
  have s: "machine_step no_plugins quiet_env 0 srv = Some (0, put_con 0 ?c srv, [])"
    using srv(2,6) c(3) waiting_read by (simp add: machine_step_def)
  then have l: "machine_loop no_plugins (\<lambda>_. quiet_env) 0 srv = Some (put_con 0 ?c srv, [])"
    using srv(2) by (subst machine_loop.simps) simp
  from fdev.set_law [OF srv(3,4), of FDEVENT_IN] srv(5) obtain e where
    e: "fdevent_event_set (ev srv) (-1) 7 FDEVENT_IN = Some (fde_index e 7, e)" by auto
  let ?s = "(put_con 0 (?c\<lparr>fde_ndx := fde_index e 7\<rparr>) (put_con 0 ?c srv))\<lparr>ev := e\<rparr>"
  have m: "connection_state_machine no_plugins (\<lambda>_. quiet_env) 0 srv = Some (?s, [])"
    using l e c by (simp add: connection_state_machine_def wait_for_event_def)
  have h: "con_heap ?s 0 = Some (?c\<lparr>fde_ndx := fde_index e 7\<rparr>)" by (simp add: put_con_def)
  have "state (?c\<lparr>fde_ndx := fde_index e 7\<rparr>) = CON_STATE_READ" using c(3) by simp
  then have st: "state (?c\<lparr>fde_ndx := fde_index e 7\<rparr>) \<noteq> CON_STATE_CONNECT" by simp
  have v: "backend_valid (ev srv) (fd ?c)" "fde_ndx ?c = fde_index (ev srv) (fd ?c)" using srv(4,5) c by simp_all
  have n: "needed_event (?c\<lparr>fde_ndx := fde_index e 7\<rparr>) = Some (poll_events FDEVENT_IN)" using c(3) by (simp add: needed_event_def)
  from machine_waits_for_its_event [OF no_plugins_tame srv(2,3) v m h st] n c(1)
  have "fd (?c\<lparr>fde_ndx := fde_index e 7\<rparr>) = 7" "fd_interest (ev ?s) 7 = Some (poll_events FDEVENT_IN)" by simp_all
  with srv(1) m h show ?thesis by blast
qed

end
